(* ===== verification/Prelude.thy ===== *)
theory Prelude
  imports Complex_Main "HOL-Library.AList" "HOL-Library.Word" "HOL-Library.Sublist"
    "HOL-Library.Multiset" "HOL-Library.Char_ord" "HOL-Library.List_Lexorder"
begin

text \<open>
  Shared vocabulary of the development: the model's names for Go's fixed-width integers, its maps and
  its fallible results; the functions of Go's \<^verbatim>\<open>strings\<close>, \<^verbatim>\<open>strconv\<close> and \<^verbatim>\<open>fmt\<close>
  packages that the sources call; and the generic lemmas the component theories share.

  Conventions.
  \<^item> \<open>uint64\<close>, \<open>uint32\<close> are words, so \<open>+\<close>, \<open>-\<close>, \<open>*\<close> wrap as in Go; \<open>int\<close>, \<open>int64\<close>,
    \<open>int32\<close> are \<^typ>\<open>int\<close> where the code's guards keep them in range.
  \<^item> A Go map is an association list with distinct keys. The list order stands for the iteration
    order of \<^verbatim>\<open>for k, v := range m\<close>, which Go leaves unspecified: theorems hold for every list,
    hence for every order, and the locale \<open>unordered_loop\<close> is the tool for proving that a
    loop's result does not depend on it.
  \<^item> A Go string is a list of bytes. An \<^verbatim>\<open>error\<close> result is \<open>Inl\<close> of a component's own error
    datatype, one constructor per place that builds an error; the message text is not modelled.
\<close>

subsection \<open>Types\<close>

type_synonym uint64 = "64 word"
type_synonym uint32 = "32 word"
type_synonym ('k, 'v) gomap = "('k \<times> 'v) list"
type_synonym ('e, 'a) result = "'e + 'a"

abbreviation Ok :: "'a \<Rightarrow> ('e, 'a) result" where "Ok \<equiv> Inr"
abbreviation Err :: "'e \<Rightarrow> ('e, 'a) result" where "Err \<equiv> Inl"

named_theorems go_simps \<open>characteristic equations of the modelled Go library\<close>
named_theorems wf_intros \<open>every operation keeps its component's invariant\<close>

definition is_ok :: "('e, 'a) result \<Rightarrow> bool" where
  "is_ok r = (case r of Inl _ \<Rightarrow> False | Inr _ \<Rightarrow> True)"

lemma is_ok_simps [simp]: "is_ok (Inr x)" "\<not> is_ok (Inl e)"
  by (simp_all add: is_ok_def)

lemma is_okE: "is_ok r \<Longrightarrow> (\<And>x. r = Inr x \<Longrightarrow> P) \<Longrightarrow> P"
  by (cases r) auto

subsection \<open>Go maps\<close>

abbreviation keys :: "('k, 'v) gomap \<Rightarrow> 'k list" where
  "keys m \<equiv> map fst m"

abbreviation go_map :: "('k, 'v) gomap \<Rightarrow> bool" where
  "go_map m \<equiv> distinct (keys m)"

text \<open>\<^verbatim>\<open>m[k]\<close> on a missing key yields the element type's zero value.\<close>

definition get_or :: "'v \<Rightarrow> ('k, 'v) gomap \<Rightarrow> 'k \<Rightarrow> 'v" where
  "get_or z m k = (case map_of m k of None \<Rightarrow> z | Some v \<Rightarrow> v)"

lemma map_of_eq_None_keys [simp]: "map_of m k = None \<longleftrightarrow> k \<notin> set (keys m)"
  by (simp add: map_of_eq_None_iff)

lemma map_of_SomeD_keys: "map_of m k = Some v \<Longrightarrow> k \<in> set (keys m)"
  by (metis map_of_eq_None_keys option.distinct(1))

lemma map_of_update [simp]: "map_of (AList.update k v m) = (map_of m)(k \<mapsto> v)"
  by (simp add: update_conv' fun_eq_iff)

lemma map_of_delete [simp]: "map_of (AList.delete k m) = (map_of m)(k := None)"
  by (simp add: delete_conv' fun_eq_iff)

lemma set_keys_update [simp]: "set (keys (AList.update k v m)) = insert k (set (keys m))"
  using dom_update[of k v m] by (simp add: dom_map_of_conv_image_fst)

lemma image_keys_update [simp]: "fst ` set (AList.update k v m) = insert k (fst ` set m)"
  using set_keys_update[of k v m] by simp

lemma map_of_absent [simp]: "k \<notin> fst ` set m \<Longrightarrow> map_of m k = None"
  by simp

lemma go_map_update [simp, wf_intros]: "go_map m \<Longrightarrow> go_map (AList.update k v m)"
  by (rule distinct_update)

lemma go_map_delete [simp, wf_intros]: "go_map m \<Longrightarrow> go_map (AList.delete k m)"
  by (rule distinct_delete)

lemma go_map_entry: "go_map m \<Longrightarrow> (k, v) \<in> set m \<longleftrightarrow> map_of m k = Some v"
  by (auto simp: map_of_is_SomeI dest: map_of_SomeD)

lemma get_or_update [simp]:
  "get_or z (AList.update k v m) k' = (if k' = k then v else get_or z m k')"
  by (simp add: get_or_def)

lemma get_or_Nil [simp]: "get_or z [] k = z"
  by (simp add: get_or_def)

text \<open>
  A loop over a Go map runs in an unspecified order. What may be concluded about it: if iterations on
  distinct keys commute for everything the program can observe of the state, then every order ends
  in the same observable state.
\<close>

locale unordered_loop =
  fixes step :: "'e \<Rightarrow> 's \<Rightarrow> 's"
    and key :: "'e \<Rightarrow> 'k"
    and obs :: "'s \<Rightarrow> 'o"
  assumes obs_cong: "obs s = obs t \<Longrightarrow> obs (step e s) = obs (step e t)"
    and obs_commute: "key e \<noteq> key f \<Longrightarrow> obs (step e (step f s)) = obs (step f (step e s))"
begin

lemma fold_cong: "obs s = obs t \<Longrightarrow> obs (fold step xs s) = obs (fold step xs t)"
proof (induction xs arbitrary: s t)
  case (Cons x xs)
  from obs_cong[OF Cons.prems] have "obs (step x s) = obs (step x t)" .
  from Cons.IH[OF this] show ?case by simp
qed simp

lemma fold_move_front:
  "key x \<notin> key ` set ys \<Longrightarrow> obs (fold step (ys @ [x]) s) = obs (fold step (x # ys) s)"
proof (induction ys arbitrary: s)
  case Nil
  show ?case by simp
next
  case (Cons y ys)
  then have "obs (fold step (ys @ [x]) (step y s)) = obs (fold step ys (step x (step y s)))"
    by simp
  also have "\<dots> = obs (fold step ys (step y (step x s)))"
    using Cons.prems by (intro fold_cong obs_commute) auto
  finally show ?case by simp
qed

theorem order_irrelevant:
  "distinct (map key xs) \<Longrightarrow> mset xs = mset ys \<Longrightarrow> obs (fold step xs s) = obs (fold step ys s)"
proof (induction xs arbitrary: ys s)
  case Nil
  then show ?case by simp
next
  case (Cons x xs)
  from Cons.prems(2) have "x \<in> set ys" by (metis list.set_intros(1) mset_eq_setD)
  then obtain as bs where ys: "ys = as @ x # bs" by (meson split_list)
  with Cons.prems(2) have m: "mset xs = mset (as @ bs)" by simp
  then have "key ` set (as @ bs) = key ` set xs" by (metis mset_eq_setD)
  with Cons.prems(1) have k: "key x \<notin> key ` set as" by auto
  have "obs (fold step ys s) = obs (fold step bs (fold step (as @ [x]) s))"
    by (simp add: ys)
  also have "\<dots> = obs (fold step bs (fold step (x # as) s))"
    by (rule fold_cong, rule fold_move_front[OF k])
  also have "\<dots> = obs (fold step (as @ bs) (step x s))" by simp
  also have "\<dots> = obs (fold step xs (step x s))"
    using Cons.IH[OF _ m] Cons.prems(1) by simp
  finally show ?case by simp
qed

end

subsection \<open>Package strings\<close>

text \<open>\<^verbatim>\<open>strings.Split(s, sep)\<close> for a one-byte separator: always at least one piece.\<close>

fun Split :: "char \<Rightarrow> string \<Rightarrow> string list" where
  "Split c [] = [[]]"
| "Split c (x # xs) =
     (if x = c then [] # Split c xs
      else case Split c xs of [] \<Rightarrow> [[x]] | p # ps \<Rightarrow> (x # p) # ps)"

lemma Split_not_Nil [simp]: "Split c s \<noteq> []"
  by (induction s) (auto split: list.splits)

lemma Split_no_sep: "c \<notin> set s \<Longrightarrow> Split c s = [s]"
  by (induction s) auto

lemma Split_append_sep: "c \<notin> set s \<Longrightarrow> Split c (s @ c # t) = s # Split c t"
  by (induction s) auto

lemma Split_pieces: "p \<in> set (Split c s) \<Longrightarrow> c \<notin> set p"
proof (induction s arbitrary: p)
  case (Cons x xs)
  then show ?case by (auto split: if_splits list.splits)
qed simp

text \<open>\<^verbatim>\<open>strings.SplitN(s, sep, 2)\<close>: at most one cut, at the first separator.\<close>

definition SplitN2 :: "char \<Rightarrow> string \<Rightarrow> string list" where
  "SplitN2 c s =
     (if c \<in> set s then [takeWhile (\<lambda>x. x \<noteq> c) s, tl (dropWhile (\<lambda>x. x \<noteq> c) s)] else [s])"

fun Join :: "string \<Rightarrow> string list \<Rightarrow> string" where
  "Join sep [] = []"
| "Join sep [s] = s"
| "Join sep (s # t # ss) = s @ sep @ Join sep (t # ss)"

fun Contains :: "string \<Rightarrow> string \<Rightarrow> bool" where
  "Contains [] sub = (sub = [])"
| "Contains (x # xs) sub = (prefix sub (x # xs) \<or> Contains xs sub)"

lemma Contains_iff: "Contains s sub \<longleftrightarrow> (\<exists>u v. s = u @ sub @ v)"
proof (induction s)
  case (Cons x xs)
  show ?case
  proof
    assume "Contains (x # xs) sub"
    then consider v where "x # xs = sub @ v" | u v where "xs = u @ sub @ v"
      using Cons.IH by (auto simp: prefix_def)
    then show "\<exists>u v. x # xs = u @ sub @ v"
      by cases (metis append_Nil, metis append_Cons)
  next
    assume "\<exists>u v. x # xs = u @ sub @ v"
    then obtain u v where uv: "x # xs = u @ sub @ v" by blast
    show "Contains (x # xs) sub"
    proof (cases u)
      case Nil
      with uv have "prefix sub (x # xs)" by simp
      then show ?thesis by simp
    next
      case (Cons y u')
      with uv have "xs = u' @ sub @ v" by simp
      then show ?thesis using Cons.IH by auto
    qed
  qed
qed simp

definition HasPrefix :: "string \<Rightarrow> string \<Rightarrow> bool" where
  "HasPrefix s p = prefix p s"

definition TrimRight :: "string \<Rightarrow> string \<Rightarrow> string" where
  "TrimRight cs s = rev (dropWhile (\<lambda>c. c \<in> set cs) (rev s))"

definition TrimLeft :: "string \<Rightarrow> string \<Rightarrow> string" where
  "TrimLeft cs s = dropWhile (\<lambda>c. c \<in> set cs) s"

definition Trim :: "string \<Rightarrow> string \<Rightarrow> string" where
  "Trim cs s = TrimRight cs (TrimLeft cs s)"

lemma TrimRight_last: "TrimRight cs s \<noteq> [] \<Longrightarrow> last (TrimRight cs s) \<notin> set cs"
proof -
  assume "TrimRight cs s \<noteq> []"
  then have "dropWhile (\<lambda>c. c \<in> set cs) (rev s) \<noteq> []" by (simp add: TrimRight_def)
  then show ?thesis using hd_dropWhile[of "\<lambda>c. c \<in> set cs" "rev s"]
    by (simp add: TrimRight_def last_rev)
qed

lemma TrimRight_prefix: "prefix (TrimRight cs s) s"
proof -
  have "rev s = takeWhile (\<lambda>c. c \<in> set cs) (rev s) @ dropWhile (\<lambda>c. c \<in> set cs) (rev s)"
    by simp
  then have "s = rev (dropWhile (\<lambda>c. c \<in> set cs) (rev s)) @ rev (takeWhile (\<lambda>c. c \<in> set cs) (rev s))"
    by (metis rev_append rev_rev_ident)
  then show ?thesis unfolding TrimRight_def prefix_def by blast
qed

definition isASCIIUpper :: "char \<Rightarrow> bool" where
  "isASCIIUpper c = (CHR ''A'' \<le> c \<and> c \<le> CHR ''Z'')"

definition isASCIILower :: "char \<Rightarrow> bool" where
  "isASCIILower c = (CHR ''a'' \<le> c \<and> c \<le> CHR ''z'')"

definition isASCIIDigit :: "char \<Rightarrow> bool" where
  "isASCIIDigit c = (CHR ''0'' \<le> c \<and> c \<le> CHR ''9'')"

text \<open>\<^verbatim>\<open>lowerCaseOffset = 'a' - 'A' = 32\<close>.\<close>

definition lower_char :: "char \<Rightarrow> char" where
  "lower_char c = (if isASCIIUpper c then char_of ((of_char c :: nat) + 32) else c)"

definition upper_char :: "char \<Rightarrow> char" where
  "upper_char c = (if isASCIILower c then char_of ((of_char c :: nat) - 32) else c)"

text \<open>\<^verbatim>\<open>strings.ToLower\<close> and \<^verbatim>\<open>strings.ToUpper\<close> on ASCII bytes; other bytes are left alone.\<close>

definition ToLower :: "string \<Rightarrow> string" where "ToLower = map lower_char"
definition ToUpper :: "string \<Rightarrow> string" where "ToUpper = map upper_char"

subsection \<open>Packages strconv and fmt\<close>

definition digit_char :: "nat \<Rightarrow> char" where
  "digit_char d = char_of (48 + d)"

definition digit_val :: "char \<Rightarrow> nat" where
  "digit_val c = of_char c - 48"

text \<open>\<^verbatim>\<open>%d\<close> of an unsigned value.\<close>

fun dec_str :: "nat \<Rightarrow> string" where
  "dec_str n = (if n < 10 then [digit_char n] else dec_str (n div 10) @ [digit_char (n mod 10)])"

declare dec_str.simps [simp del]

definition digits_val :: "string \<Rightarrow> nat" where
  "digits_val s = foldl (\<lambda>a c. a * 10 + digit_val c) 0 s"

text \<open>\<^verbatim>\<open>strconv.ParseUint(s, 10, bits)\<close>; \<open>None\<close> is any of its errors (syntax, range).\<close>

definition ParseUint :: "nat \<Rightarrow> string \<Rightarrow> nat option" where
  "ParseUint bits s =
     (if s \<noteq> [] \<and> list_all isASCIIDigit s \<and> digits_val s < 2 ^ bits then Some (digits_val s) else None)"

text \<open>\<^verbatim>\<open>strconv.ParseInt(s, 10, bits)\<close>: one optional sign, then digits, then the range of the type.\<close>

definition ParseInt :: "nat \<Rightarrow> string \<Rightarrow> int option" where
  "ParseInt bits s =
     (case s of [] \<Rightarrow> None
      | c # cs \<Rightarrow>
         (let neg = (c = CHR ''-''); ds = (if c = CHR ''-'' \<or> c = CHR ''+'' then cs else s)
          in if ds = [] \<or> \<not> list_all isASCIIDigit ds then None
             else let v = (if neg then - int (digits_val ds) else int (digits_val ds))
                  in if - (2 ^ (bits - 1)) \<le> v \<and> v < 2 ^ (bits - 1) then Some v else None))"

text \<open>\<^verbatim>\<open>strconv.Atoi\<close> on a 64-bit platform.\<close>

definition Atoi :: "string \<Rightarrow> int option" where
  "Atoi s = ParseInt 64 s"

text \<open>\<^verbatim>\<open>strconv.FormatInt(v, 10)\<close>.\<close>

definition FormatInt :: "int \<Rightarrow> string" where
  "FormatInt v = (if v < 0 then CHR ''-'' # dec_str (nat (- v)) else dec_str (nat v))"

lemma digit_val_char [simp]: "d < 10 \<Longrightarrow> digit_val (digit_char d) = d"
  by (simp add: digit_val_def digit_char_def of_char_of take_bit_eq_mod)

lemma isASCIIDigit_char [simp]: "d < 10 \<Longrightarrow> isASCIIDigit (digit_char d)"
  by (simp add: isASCIIDigit_def digit_char_def less_eq_char_def of_char_of take_bit_eq_mod)

lemma digit_char_eq_zero [simp]:
  assumes "d < 10"
  shows "digit_char d = CHR ''0'' \<longleftrightarrow> d = 0"
proof
  assume "digit_char d = CHR ''0''"
  with assms
  show "d = 0" using digit_val_char[of d] by (simp add: digit_val_def)
next
  show "digit_char d = CHR ''0''" if "d = 0"
    unfolding that by code_simp
qed

lemma digits_val_snoc [simp]: "digits_val (s @ [c]) = digits_val s * 10 + digit_val c"
  by (simp add: digits_val_def)

lemma digits_val_append: "digits_val (s @ t) = digits_val s * 10 ^ length t + digits_val t"
proof (induction t rule: rev_induct)
  case (snoc c t)
  then show ?case by (simp add: append_assoc[symmetric] algebra_simps del: append_assoc)
qed (simp add: digits_val_def)

lemma digits_val_Nil [simp]: "digits_val [] = 0"
  by (simp add: digits_val_def)

lemma dec_str_not_Nil [simp]: "dec_str n \<noteq> []"
  by (subst dec_str.simps) simp

lemma dec_str_digits [simp]: "list_all isASCIIDigit (dec_str n)"
proof (induction n rule: dec_str.induct)
  case (1 n)
  then show ?case by (subst dec_str.simps) auto
qed

lemma digits_val_dec_str [simp]: "digits_val (dec_str n) = n"
proof (induction n rule: dec_str.induct)
  case (1 n)
  show ?case
  proof (cases "n < 10")
    case True
    then show ?thesis by (subst dec_str.simps) (simp add: digits_val_def)
  next
    case False
    with 1 show ?thesis by (subst dec_str.simps) simp
  qed
qed

lemma dec_str_inj: "dec_str m = dec_str n \<Longrightarrow> m = n"
  by (metis digits_val_dec_str)

lemma ParseUint_dec_str: "n < 2 ^ bits \<Longrightarrow> ParseUint bits (dec_str n) = Some n"
  by (simp add: ParseUint_def)

lemma digit_not: "isASCIIDigit c \<Longrightarrow> c \<noteq> CHR ''.'' \<and> c \<noteq> CHR '':'' \<and> c \<noteq> CHR '','' \<and> c \<noteq> CHR ''-'' \<and> c \<noteq> CHR ''+'' \<and> c \<noteq> CHR ''=''"
  by (auto simp: isASCIIDigit_def less_eq_char_def)

lemma ParseInt_dec_str: "n < 2 ^ (bits - 1) \<Longrightarrow> ParseInt bits (dec_str n) = Some (int n)"
proof -
  assume n: "n < 2 ^ (bits - 1)"
  obtain c cs where s: "dec_str n = c # cs" by (cases "dec_str n") auto
  then have "isASCIIDigit c" using dec_str_digits[of n] by simp
  then have "c \<noteq> CHR ''-''" "c \<noteq> CHR ''+''" using digit_not by blast+
  moreover have "int n < 2 ^ (bits - 1)" using n by (metis of_nat_less_iff of_nat_numeral of_nat_power)
  moreover have "- (2 ^ (bits - 1)) \<le> int n"
    by (rule order_trans[of _ 0]) simp_all
  ultimately show ?thesis
    using dec_str_digits[of n] digits_val_dec_str[of n] s by (simp add: ParseInt_def)
qed

subsection \<open>Words\<close>

lemma unat_ucast_32_64 [simp]: "unat (ucast (w :: uint32) :: uint64) = unat w"
  by (simp add: unsigned_ucast_eq take_bit_nat_eq_self less_trans[OF unsigned_less])

lemma unat_ucast_64_32: "unat (w :: uint64) < 2 ^ 32 \<Longrightarrow> unat (ucast w :: uint32) = unat w"
  by (simp add: unsigned_ucast_eq take_bit_nat_eq_self)

lemma unat64_less: "unat (w :: uint64) < 18446744073709551616"
  using unsigned_less[of w, where ?'a = nat] by simp

lemma unat32_less: "unat (w :: uint32) < 4294967296"
  using unsigned_less[of w, where ?'a = nat] by simp

lemma unat_add64: "unat a + unat b < 2 ^ 64 \<Longrightarrow> unat (a + b :: uint64) = unat a + unat b"
  by (simp add: unat_word_ariths)

lemma unat_add32: "unat a + unat b < 2 ^ 32 \<Longrightarrow> unat (a + b :: uint32) = unat a + unat b"
  by (simp add: unat_word_ariths)

lemma unat_mult64: "unat a * unat b < 2 ^ 64 \<Longrightarrow> unat (a * b :: uint64) = unat a * unat b"
  by (simp add: unat_word_ariths)

lemma unat_mult32: "unat a * unat b < 2 ^ 32 \<Longrightarrow> unat (a * b :: uint32) = unat a * unat b"
  by (simp add: unat_word_ariths)

lemma unat_sub_le: "(b :: 'a::len word) \<le> a \<Longrightarrow> unat (a - b) = unat a - unat b"
  by (simp add: unat_sub word_le_nat_alt)

lemmas word_nat_alt = word_less_nat_alt word_le_nat_alt

end
