(* ===== verification/Decimal.thy ===== *)
theory Decimal
  imports Prelude
begin

text \<open>
  \<^verbatim>\<open>api/edgeproto/decimal.go\<close>: the unsigned fixed-point decimals \<open>Udec64\<close> in which vcpus and
  every other resource amount are counted, with a whole part of 64 bits and a decimal part counted
  in nanos. The operations are translated on words, with Go's wrap-around; the theorems relate them
  to arithmetic on natural numbers of nanos (\<open>nanoval\<close>), say exactly when no overflow occurs,
  and prove that printing and parsing are inverse. The interface the resource code relies on is the
  locale \<open>quantity\<close>, interpreted on these operations.
\<close>

subsection \<open>The model\<close>

record Udec64 =
  Whole :: uint64
  Nanos :: uint32

definition DecNanos :: uint32 where "DecNanos = 1"
definition DecMicros :: uint32 where "DecMicros = 1000 * DecNanos"
definition DecMillis :: uint32 where "DecMillis = 1000 * DecMicros"
definition DecWhole :: uint32 where "DecWhole = 1000 * DecMillis"
definition DecPrecision :: nat where "DecPrecision = 9"

definition NewUdec64 :: "uint64 \<Rightarrow> uint32 \<Rightarrow> Udec64" where
  "NewUdec64 whole nanos =
     \<lparr>Whole = whole + ucast (nanos div DecWhole), Nanos = nanos mod DecWhole\<rparr>"

definition Cmp :: "Udec64 \<Rightarrow> Udec64 \<Rightarrow> int" where
  "Cmp a b =
     (if Whole a > Whole b then 1
      else if Whole a < Whole b then -1
      else if Nanos a > Nanos b then 1
      else if Nanos a < Nanos b then -1
      else 0)"

definition GreaterThan :: "Udec64 \<Rightarrow> Udec64 \<Rightarrow> bool" where
  "GreaterThan a b = (Cmp a b = 1)"

definition Equal :: "Udec64 \<Rightarrow> Udec64 \<Rightarrow> bool" where
  "Equal a b = (Cmp a b = 0)"

definition LessThan :: "Udec64 \<Rightarrow> Udec64 \<Rightarrow> bool" where
  "LessThan a b = (Cmp a b = -1)"

definition CmpUint64 :: "Udec64 \<Rightarrow> uint64 \<Rightarrow> int" where
  "CmpUint64 a v =
     (if Whole a > v then 1
      else if Whole a < v then -1
      else if Nanos a > 0 then 1
      else 0)"

definition GreaterThanUint64 :: "Udec64 \<Rightarrow> uint64 \<Rightarrow> bool" where
  "GreaterThanUint64 a v = (CmpUint64 a v = 1)"

definition EqualUint64 :: "Udec64 \<Rightarrow> uint64 \<Rightarrow> bool" where
  "EqualUint64 a v = (CmpUint64 a v = 0)"

definition LessThanUint64 :: "Udec64 \<Rightarrow> uint64 \<Rightarrow> bool" where
  "LessThanUint64 a v = (CmpUint64 a v = -1)"

definition IsZero :: "Udec64 \<Rightarrow> bool" where
  "IsZero a = (Whole a = 0 \<and> Nanos a = 0)"

definition SetU :: "Udec64 \<Rightarrow> uint64 \<Rightarrow> uint32 \<Rightarrow> Udec64" where
  "SetU a whole nanos = a\<lparr>Whole := whole, Nanos := nanos\<rparr>"

definition Add :: "Udec64 \<Rightarrow> Udec64 \<Rightarrow> Udec64" where
  "Add a b =
     (let n = Nanos a + Nanos b;
          wholeExtra = (ucast (n div DecWhole) :: uint64)
      in a\<lparr>Nanos := n mod DecWhole, Whole := Whole a + (Whole b + wholeExtra)\<rparr>)"

definition Sub :: "Udec64 \<Rightarrow> Udec64 \<Rightarrow> Udec64" where
  "Sub a b =
     (let w = Whole a - Whole b
      in if Nanos a \<ge> Nanos b then a\<lparr>Whole := w, Nanos := Nanos a - Nanos b\<rparr>
         else a\<lparr>Nanos := DecWhole + Nanos a - Nanos b, Whole := w - 1\<rparr>)"

text \<open>\<open>SubFloor\<close> returns the new value and the caller's underflow flag, which is only ever raised.\<close>

definition SubFloor :: "Udec64 \<Rightarrow> Udec64 \<Rightarrow> bool \<Rightarrow> Udec64 \<times> bool" where
  "SubFloor a b underflow =
     (if LessThan a b then (a\<lparr>Whole := 0, Nanos := 0\<rparr>, True) else (Sub a b, underflow))"

definition AddUint64 :: "Udec64 \<Rightarrow> uint64 \<Rightarrow> Udec64" where
  "AddUint64 a v = a\<lparr>Whole := Whole a + v\<rparr>"

definition SubUint64 :: "Udec64 \<Rightarrow> uint64 \<Rightarrow> Udec64" where
  "SubUint64 a v = a\<lparr>Whole := Whole a - v\<rparr>"

definition Uint64 :: "Udec64 \<Rightarrow> uint64" where
  "Uint64 a = Whole a"

definition Ceil :: "Udec64 \<Rightarrow> uint64" where
  "Ceil a = (if Nanos a = 0 then Whole a else Whole a + 1)"

definition Mult :: "Udec64 \<Rightarrow> uint32 \<Rightarrow> Udec64" where
  "Mult a factor =
     (if factor = 1 then a
      else if factor = 0 then a\<lparr>Whole := 0, Nanos := 0\<rparr>
      else let nanos = (ucast (Nanos a) :: uint64) * ucast factor;
               wholeExtra = nanos div ucast DecWhole
           in a\<lparr>Nanos := ucast (nanos mod ucast DecWhole),
                Whole := Whole a * ucast factor + wholeExtra\<rparr>)"

datatype dec_error = TooManyDecimalPoints | BadWhole string | PrecisionTooSmall | BadDecimal string
  | InvalidType

text \<open>The padding loop \<^verbatim>\<open>for p := 0; p < DecPrecision-precision; p++ { nanos *= 10 }\<close>.\<close>

primrec times10 :: "nat \<Rightarrow> uint32 \<Rightarrow> uint32" where
  "times10 0 n = n"
| "times10 (Suc k) n = times10 k (n * 10)"

definition ParseUdec64 :: "string \<Rightarrow> (dec_error, Udec64) result" where
  "ParseUdec64 str =
     (let vals = Split CHR ''.'' str
      in if length vals > 2 then Err TooManyDecimalPoints
         else case ParseUint 64 (vals ! 0) of
           None \<Rightarrow> Err (BadWhole (vals ! 0))
         | Some whole \<Rightarrow>
             if length vals = 2 then
               let precision = length (vals ! 1)
               in if precision > DecPrecision then Err PrecisionTooSmall
                  else case ParseUint 32 (vals ! 1) of
                    None \<Rightarrow> Err (BadDecimal (vals ! 1))
                  | Some nanos64 \<Rightarrow>
                      Ok \<lparr>Whole = of_nat whole,
                          Nanos = times10 (DecPrecision - precision) (of_nat nanos64)\<rparr>
             else Ok \<lparr>Whole = of_nat whole, Nanos = 0\<rparr>)"

text \<open>The padding loop \<^verbatim>\<open>for i := len(decStr); i < DecPrecision; i++ { decStr = "0" + decStr }\<close>.\<close>

definition pad_left_zeros :: "nat \<Rightarrow> string \<Rightarrow> string" where
  "pad_left_zeros w s = replicate (w - length s) CHR ''0'' @ s"

definition DecString :: "Udec64 \<Rightarrow> string" where
  "DecString u =
     (if Nanos u = 0 then dec_str (unat (Whole u))
      else dec_str (unat (Whole u)) @ CHR ''.'' #
           TrimRight ''0'' (pad_left_zeros DecPrecision (dec_str (unat (Nanos u)))))"

text \<open>
  The encoders. What the YAML and JSON libraries hand to a custom decoder is a parameter: reading the
  document as a string and reading it as an integer, either of which may fail.
\<close>

definition UnmarshalUdec64 ::
  "('d \<Rightarrow> string option) \<Rightarrow> ('d \<Rightarrow> uint64 option) \<Rightarrow> 'd \<Rightarrow> Udec64 \<Rightarrow> (dec_error, Udec64) result" where
  "UnmarshalUdec64 asString asUint d u =
     (case asString d of
        Some str \<Rightarrow> ParseUdec64 str
      | None \<Rightarrow> (case asUint d of Some v \<Rightarrow> Ok (u\<lparr>Whole := v\<rparr>) | None \<Rightarrow> Err InvalidType))"

definition MarshalUdec64 :: "(string \<Rightarrow> 'd) \<Rightarrow> (uint64 \<Rightarrow> 'd) \<Rightarrow> Udec64 \<Rightarrow> 'd" where
  "MarshalUdec64 ofString ofUint u = (if Nanos u = 0 then ofUint (Whole u) else ofString (DecString u))"

subsection \<open>Abstraction to natural numbers of nanos\<close>

definition nanoval :: "Udec64 \<Rightarrow> nat" where
  "nanoval a = unat (Whole a) * 10 ^ 9 + unat (Nanos a)"

definition udec_valid :: "Udec64 \<Rightarrow> bool" where
  "udec_valid a = (unat (Nanos a) < 10 ^ 9)"

definition udec_limit :: nat where
  "udec_limit = 2 ^ 64 * 10 ^ 9"

lemma DecWhole_val: "DecWhole = 1000000000"
  by (simp add: DecWhole_def DecMillis_def DecMicros_def DecNanos_def)

lemma unat_DecWhole [simp]: "unat DecWhole = 10 ^ 9"
  by (simp add: DecWhole_val)

lemma nanoval_bound: "udec_valid a \<Longrightarrow> nanoval a < udec_limit"
proof -
  assume "udec_valid a"
  moreover have "unat (Whole a) < 2 ^ 64" using unsigned_less[of "Whole a", where ?'a = nat] by simp
  ultimately show ?thesis by (simp add: nanoval_def udec_valid_def udec_limit_def)
qed

lemma nanoval_inj: "udec_valid a \<Longrightarrow> udec_valid b \<Longrightarrow> nanoval a = nanoval b \<longleftrightarrow> a = b"
proof
  assume v: "udec_valid a" "udec_valid b" and eq: "nanoval a = nanoval b"
  have "unat (Whole a) = nanoval a div 10 ^ 9" "unat (Nanos a) = nanoval a mod 10 ^ 9"
    "unat (Whole b) = nanoval b div 10 ^ 9" "unat (Nanos b) = nanoval b mod 10 ^ 9"
    using v by (simp_all add: nanoval_def udec_valid_def)
  with eq show "a = b" by (metis (full_types) unsigned_word_eqI Udec64.equality old.unit.exhaust)
qed simp

subsection \<open>Comparison and arithmetic\<close>

lemma Cmp_cases:
  assumes "udec_valid a" "udec_valid b"
  shows "Cmp a b = (if nanoval a > nanoval b then 1 else if nanoval a < nanoval b then -1 else 0)"
  using assms by (auto simp: Cmp_def nanoval_def udec_valid_def word_nat_alt)

lemma LessThan_iff: "udec_valid a \<Longrightarrow> udec_valid b \<Longrightarrow> LessThan a b \<longleftrightarrow> nanoval a < nanoval b"
  by (simp add: LessThan_def Cmp_cases)

lemma GreaterThan_iff: "udec_valid a \<Longrightarrow> udec_valid b \<Longrightarrow> GreaterThan a b \<longleftrightarrow> nanoval b < nanoval a"
  by (simp add: GreaterThan_def Cmp_cases)

lemma Equal_iff: "udec_valid a \<Longrightarrow> udec_valid b \<Longrightarrow> Equal a b \<longleftrightarrow> a = b"
  by (simp add: Equal_def Cmp_cases nanoval_inj[symmetric])

lemma valid_NewUdec64 [simp]: "udec_valid (NewUdec64 w n)"
  by (simp add: NewUdec64_def udec_valid_def unat_mod)

lemma valid_Add: "udec_valid (Add a b)"
  by (simp add: Add_def udec_valid_def unat_mod Let_def)

lemma unat_nanos_add:
  "udec_valid a \<Longrightarrow> udec_valid b \<Longrightarrow> unat (Nanos a + Nanos b) = unat (Nanos a) + unat (Nanos b)"
  by (rule unat_add32) (simp add: udec_valid_def)

lemma nanoval_Add:
  assumes "udec_valid a" "udec_valid b" "nanoval a + nanoval b < udec_limit"
  shows "nanoval (Add a b) = nanoval a + nanoval b"
proof -
  let ?n = "Nanos a + Nanos b"
  let ?e = "ucast (?n div DecWhole) :: uint64"
  have n: "unat ?n = unat (Nanos a) + unat (Nanos b)"
    using assms(1,2) by (rule unat_nanos_add)
  have e: "unat ?e = (unat (Nanos a) + unat (Nanos b)) div 10 ^ 9"
    by (simp add: unat_div n)
  have lim: "unat (Whole a) + (unat (Whole b) + unat ?e) < 2 ^ 64"
    using assms(3) unfolding e by (simp add: nanoval_def udec_limit_def)
  then have "unat (Whole b + ?e) = unat (Whole b) + unat ?e" by (intro unat_add64) simp
  with lim have "unat (Whole a + (Whole b + ?e)) = unat (Whole a) + (unat (Whole b) + unat ?e)"
    using unat_add64[of "Whole a" "Whole b + ?e"] by simp
  then show ?thesis
    unfolding e by (simp add: Add_def nanoval_def Let_def unat_mod n algebra_simps)
qed

lemma valid_Sub: "udec_valid a \<Longrightarrow> udec_valid b \<Longrightarrow> udec_valid (Sub a b)"
proof -
  assume v: "udec_valid a" "udec_valid b"
  show ?thesis
  proof (cases "Nanos b \<le> Nanos a")
    case True
    with v show ?thesis by (simp add: Sub_def udec_valid_def unat_sub_le Let_def)
  next
    case False
    have s: "unat (DecWhole + Nanos a) = 10 ^ 9 + unat (Nanos a)"
      using unat_add32[of DecWhole "Nanos a"] v by (simp add: udec_valid_def)
    then have "Nanos b \<le> DecWhole + Nanos a" using v by (simp add: word_nat_alt udec_valid_def)
    from unat_sub_le[OF this] s False show ?thesis
      by (simp add: Sub_def udec_valid_def Let_def word_nat_alt)
  qed
qed

lemma nanoval_Sub:
  assumes v: "udec_valid a" "udec_valid b" and le: "nanoval b \<le> nanoval a"
  shows "nanoval (Sub a b) = nanoval a - nanoval b"
proof (cases "Nanos b \<le> Nanos a")
  case True
  then have "unat (Nanos b) \<le> unat (Nanos a)" by (simp add: word_nat_alt)
  moreover from le v this have "Whole b \<le> Whole a"
    by (simp add: nanoval_def udec_valid_def word_nat_alt)
  ultimately show ?thesis
    using True by (simp add: Sub_def nanoval_def unat_sub_le Let_def word_nat_alt diff_mult_distrib)
next
  case False
  then have n: "unat (Nanos a) < unat (Nanos b)" by (simp add: word_nat_alt)
  have s: "unat (DecWhole + Nanos a) = 10 ^ 9 + unat (Nanos a)"
    using unat_add32[of DecWhole "Nanos a"] v by (simp add: udec_valid_def)
  then have "Nanos b \<le> DecWhole + Nanos a" using v by (simp add: word_nat_alt udec_valid_def)
  from unat_sub_le[OF this] s
  have nn: "unat (DecWhole + Nanos a - Nanos b) = 10 ^ 9 + unat (Nanos a) - unat (Nanos b)" by simp
  have w: "unat (Whole b) < unat (Whole a)"
    using le v n by (simp add: nanoval_def udec_valid_def)
  then have "unat (Whole a - Whole b) = unat (Whole a) - unat (Whole b)"
    by (intro unat_sub_le) (simp add: word_nat_alt)
  moreover have "1 \<le> Whole a - Whole b" using calculation w by (simp add: word_nat_alt)
  ultimately have ww: "unat (Whole a - Whole b - 1) = unat (Whole a) - unat (Whole b) - 1"
    by (simp add: unat_sub_le)
  have "nanoval (Sub a b) =
      (unat (Whole a) - unat (Whole b) - 1) * 10 ^ 9 + (10 ^ 9 + unat (Nanos a) - unat (Nanos b))"
    using False by (simp add: Sub_def nanoval_def Let_def ww nn)
  then show ?thesis using w n v by (simp add: nanoval_def udec_valid_def)
qed

lemma valid_SubFloor: "udec_valid a \<Longrightarrow> udec_valid b \<Longrightarrow> udec_valid (fst (SubFloor a b u))"
  by (simp add: SubFloor_def valid_Sub) (simp add: udec_valid_def)

lemma nanoval_SubFloor:
  assumes "udec_valid a" "udec_valid b"
  shows "nanoval (fst (SubFloor a b u)) = nanoval a - nanoval b"
    and "snd (SubFloor a b u) = (u \<or> nanoval a < nanoval b)"
  using assms by (auto simp: SubFloor_def LessThan_iff nanoval_Sub) (simp add: nanoval_def)

lemma DecWhole64 [simp]: "unat (ucast DecWhole :: uint64) = 10 ^ 9"
  by simp

lemma nanos_mult:
  "udec_valid a \<Longrightarrow>
   unat ((ucast (Nanos a) :: uint64) * ucast (f :: uint32)) = unat (Nanos a) * unat f"
proof -
  assume v: "udec_valid a"
  have "unat (Nanos a) * unat f \<le> 10 ^ 9 * 4294967296"
    using v unat32_less[of f] by (intro mult_le_mono) (simp_all add: udec_valid_def)
  then have "unat (ucast (Nanos a) :: uint64) * unat (ucast f :: uint64) < 2 ^ 64" by simp
  from unat_mult64[OF this] show ?thesis by simp
qed

lemma valid_Mult: "udec_valid a \<Longrightarrow> udec_valid (Mult a f)"
proof -
  assume v: "udec_valid a"
  let ?n = "(ucast (Nanos a) :: uint64) * ucast f"
  have "unat (?n mod ucast DecWhole) < 10 ^ 9" by (simp add: unat_mod)
  moreover from this have "unat (ucast (?n mod ucast DecWhole) :: uint32) = unat (?n mod ucast DecWhole)"
    by (intro unat_ucast_64_32) simp
  ultimately show ?thesis using v by (simp add: Mult_def udec_valid_def Let_def)
qed

lemma nanoval_Mult:
  assumes v: "udec_valid a" and lim: "nanoval a * unat f < udec_limit"
  shows "nanoval (Mult a f) = nanoval a * unat f"
proof -
  let ?n = "(ucast (Nanos a) :: uint64) * ucast f"
  let ?W = "unat (Whole a) * unat f" and ?N = "unat (Nanos a) * unat f"
  consider "f = 1" | "f = 0" | "f \<noteq> 1" "f \<noteq> 0" by blast
  then show ?thesis
  proof cases
    case 3
    have n: "unat ?n = ?N" using v by (rule nanos_mult)
    have m: "unat (?n mod ucast DecWhole) = ?N mod 10 ^ 9" by (simp add: unat_mod n)
    then have mod32: "unat (ucast (?n mod ucast DecWhole) :: uint32) = ?N mod 10 ^ 9"
      by (subst unat_ucast_64_32) simp_all
    have d: "unat (?n div ucast DecWhole) = ?N div 10 ^ 9" by (simp add: unat_div n)
    from lim have lim': "?W * 10 ^ 9 + ?N < 2 ^ 64 * 10 ^ 9"
      by (simp add: nanoval_def udec_limit_def algebra_simps)
    then have w: "unat (Whole a * ucast f) = ?W" by (subst unat_mult64) simp_all
    have "?W + ?N div 10 ^ 9 < 2 ^ 64" using lim' by simp
    then have "unat (Whole a * ucast f + ?n div ucast DecWhole) = ?W + ?N div 10 ^ 9"
      by (subst unat_add64) (simp_all add: w d)
    then have "nanoval (Mult a f) = (?W + ?N div 10 ^ 9) * 10 ^ 9 + ?N mod 10 ^ 9"
      using 3 by (simp add: Mult_def Let_def nanoval_def mod32)
    also have "\<dots> = ?W * 10 ^ 9 + ?N"
      using div_mult_mod_eq[of ?N "10 ^ 9"] by (simp add: add_mult_distrib)
    also have "\<dots> = nanoval a * unat f" by (simp add: nanoval_def algebra_simps)
    finally show ?thesis .
  qed (simp_all add: Mult_def nanoval_def)
qed

lemma Ceil_correct:
  assumes "udec_valid a" "unat (Whole a) < 2 ^ 64 - 1"
  shows "nanoval a \<le> unat (Ceil a) * 10 ^ 9" "unat (Ceil a) * 10 ^ 9 < nanoval a + 10 ^ 9"
proof -
  have "unat (Whole a + 1) = unat (Whole a) + 1" using assms(2) by (subst unat_add64) simp_all
  moreover have "Nanos a \<noteq> 0 \<Longrightarrow> 0 < unat (Nanos a)" by (simp add: unat_gt_0)
  ultimately show "nanoval a \<le> unat (Ceil a) * 10 ^ 9" "unat (Ceil a) * 10 ^ 9 < nanoval a + 10 ^ 9"
    using assms(1) by (auto simp: Ceil_def nanoval_def udec_valid_def)
qed

subsection \<open>Parsing and printing\<close>

lemma digits_val_less: "list_all isASCIIDigit s \<Longrightarrow> digits_val s < 10 ^ length s"
proof (induction s rule: rev_induct)
  case (snoc c s)
  then have "digits_val s < 10 ^ length s" and c: "isASCIIDigit c" by simp_all
  moreover have "digit_val c < 10"
    using c unfolding isASCIIDigit_def digit_val_def less_eq_char_def by auto
  ultimately show ?case by simp
qed simp

lemma unat_times10: "unat n * 10 ^ k < 2 ^ 32 \<Longrightarrow> unat (times10 k n) = unat n * 10 ^ k"
proof (induction k arbitrary: n)
  case (Suc k)
  have "unat n * 10 < 2 ^ 32" by (rule le_less_trans[OF _ Suc.prems]) simp
  then have "unat (n * 10) = unat n * 10" by (subst unat_mult32) auto
  with Suc show ?case by (simp add: algebra_simps)
qed simp

lemma unat_decimal_part:
  assumes "list_all isASCIIDigit f" "length f \<le> 9"
  shows "unat (times10 (9 - length f) (of_nat (digits_val f) :: uint32)) = digits_val f * 10 ^ (9 - length f)"
    and "digits_val f * 10 ^ (9 - length f) < 10 ^ 9"
proof -
  have "digits_val f * 10 ^ (9 - length f) < 10 ^ length f * 10 ^ (9 - length f)"
    using digits_val_less[OF assms(1)] by simp
  also have "\<dots> = 10 ^ 9" using assms(2) by (simp flip: power_add)
  finally show lt: "digits_val f * 10 ^ (9 - length f) < 10 ^ 9" .
  have "digits_val f < 10 ^ 9" by (rule le_less_trans[OF _ lt]) simp
  then have "unat (of_nat (digits_val f) :: uint32) = digits_val f"
    by (simp add: unat_of_nat)
  with lt show "unat (times10 (9 - length f) (of_nat (digits_val f) :: uint32)) = digits_val f * 10 ^ (9 - length f)"
    using unat_times10[of "of_nat (digits_val f)" "9 - length f"] by simp
qed

lemma dot_not_digit: "list_all isASCIIDigit w \<Longrightarrow> CHR ''.'' \<notin> set w"
  using digit_not by (auto simp: list_all_iff)

lemma ParseUdec64_whole:
  assumes "list_all isASCIIDigit w" "w \<noteq> []" "digits_val w < 2 ^ 64"
  shows "ParseUdec64 w = Ok \<lparr>Whole = of_nat (digits_val w), Nanos = 0\<rparr>"
  using assms by (simp add: ParseUdec64_def Split_no_sep dot_not_digit ParseUint_def)

lemma ParseUdec64_point:
  assumes w: "list_all isASCIIDigit w" "w \<noteq> []" "digits_val w < 2 ^ 64"
    and f: "list_all isASCIIDigit f" "f \<noteq> []" "length f \<le> 9"
  shows "ParseUdec64 (w @ CHR ''.'' # f) =
    Ok \<lparr>Whole = of_nat (digits_val w), Nanos = times10 (9 - length f) (of_nat (digits_val f))\<rparr>"
proof -
  have "digits_val f < 10 ^ 9" by (rule le_less_trans[OF _ unat_decimal_part(2)[OF f(1,3)]]) simp
  then have "digits_val f < 2 ^ 32" by simp
  with w f show ?thesis
    by (simp add: ParseUdec64_def Split_append_sep Split_no_sep dot_not_digit ParseUint_def
        DecPrecision_def Let_def)
qed

lemma length_dec_str: "n < 10 ^ k \<Longrightarrow> 0 < k \<Longrightarrow> length (dec_str n) \<le> k"
proof (induction n arbitrary: k rule: dec_str.induct)
  case (1 n)
  show ?case
  proof (cases "n < 10")
    case True
    with 1 show ?thesis by (subst dec_str.simps) simp
  next
    case False
    with 1 obtain k' where k: "k = Suc k'" "0 < k'" by (cases k) (auto, cases "k - 1", auto)
    with 1 False have "length (dec_str (n div 10)) \<le> k'" by (intro 1) auto
    with False k show ?thesis by (subst dec_str.simps) simp
  qed
qed

lemma TrimRight_zeros:
  obtains m where "s = TrimRight ''0'' s @ replicate m CHR ''0''"
proof -
  let ?z = "takeWhile (\<lambda>c. c \<in> set ''0'') (rev s)"
  have "set ?z \<subseteq> {CHR ''0''}" by (auto dest: set_takeWhileD)
  then have "?z = replicate (length ?z) CHR ''0''"
    by (simp add: replicate_length_same subset_iff)
  moreover have "s = TrimRight ''0'' s @ rev ?z"
    unfolding TrimRight_def by (metis rev_append rev_rev_ident takeWhile_dropWhile_id)
  ultimately have "s = TrimRight ''0'' s @ replicate (length ?z) CHR ''0''"
    by (metis rev_replicate)
  then show ?thesis by (rule that)
qed

lemma digits_val_zeros [simp]: "digits_val (replicate m CHR ''0'') = 0"
proof (induction m)
  case (Suc m)
  have "replicate (Suc m) CHR ''0'' = replicate m CHR ''0'' @ [CHR ''0'']"
    by (simp add: replicate_append_same)
  with Suc show ?case by (simp only: digits_val_snoc) (simp add: digit_val_def)
qed simp

lemma list_all_replicate_zero [simp]: "list_all isASCIIDigit (replicate m CHR ''0'')"
  by (induction m) (simp_all add: isASCIIDigit_def less_eq_char_def)

lemma DecString_decimals:
  assumes "udec_valid u" "Nanos u \<noteq> 0"
  defines "t \<equiv> TrimRight ''0'' (pad_left_zeros DecPrecision (dec_str (unat (Nanos u))))"
  shows "list_all isASCIIDigit t" "t \<noteq> []" "length t \<le> 9"
    and "digits_val t * 10 ^ (9 - length t) = unat (Nanos u)"
proof -
  let ?s = "pad_left_zeros DecPrecision (dec_str (unat (Nanos u)))"
  have "length (dec_str (unat (Nanos u))) \<le> 9"
    using assms(1) by (intro length_dec_str) (simp_all add: udec_valid_def)
  then have len: "length ?s = 9" by (simp add: pad_left_zeros_def DecPrecision_def)
  have val: "digits_val ?s = unat (Nanos u)" by (simp add: pad_left_zeros_def digits_val_append)
  have dig: "list_all isASCIIDigit ?s"
    by (simp add: pad_left_zeros_def)
  obtain m where s: "?s = t @ replicate m CHR ''0''" unfolding t_def by (rule TrimRight_zeros)
  show "list_all isASCIIDigit t" using dig s by (metis list_all_append)
  have m: "length t + m = 9" using s len by (metis length_append length_replicate)
  then show "length t \<le> 9" by simp
  have "digits_val t * 10 ^ m = unat (Nanos u)" using val unfolding s by (simp add: digits_val_append)
  moreover have "9 - length t = m" using m by simp
  ultimately show eq: "digits_val t * 10 ^ (9 - length t) = unat (Nanos u)" by simp
  have "unat (Nanos u) \<noteq> 0" using assms(2) by (simp add: unat_eq_zero)
  with eq show "t \<noteq> []" by auto
qed

lemma ParseUdec64_DecString:
  assumes "udec_valid u"
  shows "ParseUdec64 (DecString u) = Ok u"
proof (cases "Nanos u = 0")
  case True
  then have "ParseUdec64 (DecString u) = Ok \<lparr>Whole = Whole u, Nanos = Nanos u\<rparr>"
    using unsigned_less[of "Whole u", where ?'a = nat] by (simp add: DecString_def ParseUdec64_whole)
  then show ?thesis by simp
next
  case False
  note t = DecString_decimals[OF assms False]
  let ?t = "TrimRight ''0'' (pad_left_zeros DecPrecision (dec_str (unat (Nanos u))))"
  have "times10 (9 - length ?t) (of_nat (digits_val ?t)) = Nanos u"
    using unat_decimal_part(1)[OF t(1,3)] t(4) by (simp add: word_eq_iff_unsigned[where ?'a = nat])
  then have "ParseUdec64 (DecString u) = Ok \<lparr>Whole = Whole u, Nanos = Nanos u\<rparr>"
    using False t unsigned_less[of "Whole u", where ?'a = nat]
    by (simp add: DecString_def ParseUdec64_point)
  then show ?thesis by simp
qed

lemma times10_zero [simp]: "times10 k 0 = 0"
  by (induction k) simp_all

lemma Split_one: "Split c s = [x] \<Longrightarrow> s = x"
  by (induction s arbitrary: x) (auto split: if_splits list.splits)

lemma Split_two:
  assumes "Split c s = [x, y]"
  shows "s = x @ c # y" "c \<notin> set x" "c \<notin> set y"
proof -
  show c: "c \<notin> set x" "c \<notin> set y" using assms Split_pieces[of _ c s] by auto
  show "s = x @ c # y" using assms
  proof (induction s arbitrary: x)
    case (Cons a s)
    show ?case
    proof (cases "a = c")
      case True
      with Cons.prems have "x = []" "Split c s = [y]" by auto
      then show ?thesis using True Split_one by auto
    next
      case False
      with Cons.prems obtain x' where "x = a # x'" "Split c s = [x', y]"
        by (auto split: list.splits)
      with Cons.IH show ?thesis by simp
    qed
  qed simp
qed

lemma ParseUintD:
  "ParseUint b s = Some n \<Longrightarrow> s \<noteq> [] \<and> list_all isASCIIDigit s \<and> n = digits_val s \<and> n < 2 ^ b"
  by (auto simp: ParseUint_def split: if_splits)

text \<open>
  What an accepted string looks like: digits, or digits, one point and at most nine digits; and the
  value it is given is the number it denotes, counted in nanos.
\<close>

lemma ParseUdec64_cases:
  assumes "ParseUdec64 s = Ok u"
  obtains (whole) "list_all isASCIIDigit s" "s \<noteq> []" "nanoval u = digits_val s * 10 ^ 9" "udec_valid u"
  | (point) w f where "s = w @ CHR ''.'' # f" "list_all isASCIIDigit (w @ f)" "w \<noteq> []" "f \<noteq> []"
      "length f \<le> 9" "nanoval u = digits_val w * 10 ^ 9 + digits_val f * 10 ^ (9 - length f)" "udec_valid u"
proof -
  let ?v = "Split CHR ''.'' s"
  from assms have "length ?v \<le> 2" by (auto simp: ParseUdec64_def Let_def split: if_splits)
  then consider w where "?v = [w]" | w f where "?v = [w, f]"
    by (cases ?v; cases "tl ?v") (auto simp: Suc_le_eq)
  then show thesis
  proof cases
    case (1 w)
    then have "s = w" by (rule Split_one)
    with 1 assms obtain n where "ParseUint 64 s = Some n" and u: "u = \<lparr>Whole = of_nat n, Nanos = 0\<rparr>"
      by (auto simp: ParseUdec64_def Let_def split: option.splits)
    from ParseUintD[OF this(1)] u show ?thesis
      by (intro whole) (simp_all add: nanoval_def udec_valid_def unat_of_nat)
  next
    case (2 w f)
    from Split_two(1)[OF 2] have s: "s = w @ CHR ''.'' # f" .
    from 2 assms obtain n m where n: "ParseUint 64 w = Some n" and m: "ParseUint 32 f = Some m"
      and len: "length f \<le> 9"
      and u: "u = \<lparr>Whole = of_nat n, Nanos = times10 (9 - length f) (of_nat m)\<rparr>"
      by (auto simp: ParseUdec64_def Let_def DecPrecision_def split: option.splits if_splits)
    note n' = ParseUintD[OF n] and m' = ParseUintD[OF m]
    from m' len have "unat (Nanos u) = digits_val f * 10 ^ (9 - length f)"
      and "digits_val f * 10 ^ (9 - length f) < 10 ^ 9"
      using unat_decimal_part[of f] u by simp_all
    with s n' m' u len show ?thesis
      by (intro point[of w f]) (simp_all add: nanoval_def udec_valid_def unat_of_nat)
  qed
qed

subsection \<open>The contract the resource code relies on\<close>

locale quantity =
  fixes amount :: "'q \<Rightarrow> nat"
    and valid :: "'q \<Rightarrow> bool"
    and limit :: nat
    and add :: "'q \<Rightarrow> 'q \<Rightarrow> 'q"
    and sub :: "'q \<Rightarrow> 'q \<Rightarrow> 'q"
    and mult :: "'q \<Rightarrow> uint32 \<Rightarrow> 'q"
    and less :: "'q \<Rightarrow> 'q \<Rightarrow> bool"
  assumes amount_add: "valid a \<Longrightarrow> valid b \<Longrightarrow> amount a + amount b < limit \<Longrightarrow> amount (add a b) = amount a + amount b"
    and valid_add: "valid a \<Longrightarrow> valid b \<Longrightarrow> valid (add a b)"
    and amount_sub: "valid a \<Longrightarrow> valid b \<Longrightarrow> amount (sub a b) = amount a - amount b"
    and valid_sub: "valid a \<Longrightarrow> valid b \<Longrightarrow> valid (sub a b)"
    and amount_mult: "valid a \<Longrightarrow> amount a * unat f < limit \<Longrightarrow> amount (mult a f) = amount a * unat f"
    and valid_mult: "valid a \<Longrightarrow> valid (mult a f)"
    and less_iff: "valid a \<Longrightarrow> valid b \<Longrightarrow> less a b \<longleftrightarrow> amount a < amount b"
    and amount_inj: "valid a \<Longrightarrow> valid b \<Longrightarrow> amount a = amount b \<Longrightarrow> a = b"
    and amount_limit: "valid a \<Longrightarrow> amount a < limit"
begin

lemma add_sub_cancel:
  assumes "valid a" "valid b" "amount a + amount b < limit"
  shows "sub (add a b) b = a"
  using assms by (intro amount_inj) (simp_all add: amount_add amount_sub valid_add valid_sub)

lemma add_commute:
  assumes "valid a" "valid b" "amount a + amount b < limit"
  shows "add a b = add b a"
  using assms by (intro amount_inj) (simp_all add: amount_add valid_add add.commute)

lemma sub_add_floor:
  assumes "valid a" "valid b"
  shows "amount (add (sub a b) b) = max (amount a) (amount b)"
  using assms amount_limit[of a] amount_limit[of b]
  by (subst amount_add) (auto simp: amount_sub valid_sub)

end

interpretation udec: quantity nanoval udec_valid udec_limit Add "\<lambda>a b. fst (SubFloor a b u)" Mult LessThan
  by unfold_locales
    (auto simp: nanoval_Add valid_Add nanoval_SubFloor valid_SubFloor nanoval_Mult valid_Mult
      LessThan_iff nanoval_inj nanoval_bound)

lemma ParseUdec64_denotes:
  assumes "s = (if f = [] then w else w @ CHR ''.'' # f)" "w \<noteq> []" "list_all isASCIIDigit (w @ f)"
    and "length f \<le> 9" "digits_val w < 2 ^ 64"
  obtains v where "ParseUdec64 s = Ok v" "udec_valid v"
    and "nanoval v = digits_val w * 10 ^ 9 + digits_val f * 10 ^ (9 - length f)"
proof -
  let ?v = "\<lparr>Whole = of_nat (digits_val w), Nanos = times10 (9 - length f) (of_nat (digits_val f))\<rparr>"
  have "list_all isASCIIDigit f" using assms(3) by simp
  note d = unat_decimal_part[OF this assms(4)]
  have "ParseUdec64 s = Ok ?v"
    using assms by (cases "f = []") (simp_all add: ParseUdec64_whole ParseUdec64_point)
  moreover have "udec_valid ?v" using d by (simp add: udec_valid_def)
  moreover have "nanoval ?v = digits_val w * 10 ^ 9 + digits_val f * 10 ^ (9 - length f)"
    using d(1) assms(5) by (simp add: nanoval_def unat_of_nat)
  ultimately show ?thesis by (rule that)
qed

subsection \<open>Properties\<close>

text \<open>
  Refinement: on decimals whose nanos are below one whole, the word operations compute on the
  number of nanos. \<open>Cmp\<close> is the three-way comparison; \<open>Add\<close> and \<open>Mult\<close> are exact whenever the
  result fits 64 bits of whole part; \<open>SubFloor\<close> is truncated subtraction and raises the flag
  exactly when it truncates; and every result again has its nanos below one whole.
\<close>

theorem Udec64_refines_nat:
  assumes "udec_valid a" and "udec_valid b"
  shows "Cmp a b = (if nanoval a > nanoval b then 1 else if nanoval a < nanoval b then -1 else 0)
    \<and> (nanoval a + nanoval b < udec_limit \<longrightarrow> nanoval (Add a b) = nanoval a + nanoval b)
    \<and> (nanoval a * unat f < udec_limit \<longrightarrow> nanoval (Mult a f) = nanoval a * unat f)
    \<and> nanoval (fst (SubFloor a b u)) = nanoval a - nanoval b
    \<and> snd (SubFloor a b u) = (u \<or> nanoval a < nanoval b)
    \<and> udec_valid (Add a b) \<and> udec_valid (Mult a f) \<and> udec_valid (fst (SubFloor a b u))"
  using assms Cmp_cases[OF assms] nanoval_SubFloor[OF assms]
  by (simp add: nanoval_Add nanoval_Mult valid_Add valid_Mult valid_SubFloor)

theorem Udec64_refines_nat_witness:
  "nanoval (Add \<lparr>Whole = 1, Nanos = 600000000\<rparr> \<lparr>Whole = 0, Nanos = 500000000\<rparr>) = 2100000000"
proof -
  let ?a = "\<lparr>Whole = 1, Nanos = 600000000\<rparr>" and ?b = "\<lparr>Whole = 0, Nanos = 500000000\<rparr>"
  have "udec_valid ?a" "udec_valid ?b" by (simp_all add: udec_valid_def)
  from Udec64_refines_nat[OF this, of 1 False] show ?thesis by (simp add: nanoval_def udec_limit_def)
qed

text \<open>
  Round trip: subtracting what was added gives back the same decimal, field by field, and leaves
  the caller's underflow flag alone. The guard is that the sum fits the type.
\<close>

theorem SubFloor_Add_restores:
  assumes "udec_valid a" and "udec_valid b" and "nanoval a + nanoval b < udec_limit"
  shows "SubFloor (Add a b) b u = (a, u)"
proof (rule prod_eqI)
  show "fst (SubFloor (Add a b) b u) = fst (a, u)"
    using udec.add_sub_cancel[OF assms] by simp
  show "snd (SubFloor (Add a b) b u) = snd (a, u)"
    using assms by (simp add: nanoval_SubFloor valid_Add nanoval_Add)
qed

theorem SubFloor_Add_restores_witness:
  "SubFloor (Add \<lparr>Whole = 3, Nanos = 250000000\<rparr> \<lparr>Whole = 1, Nanos = 900000000\<rparr>)
     \<lparr>Whole = 1, Nanos = 900000000\<rparr> False = (\<lparr>Whole = 3, Nanos = 250000000\<rparr>, False)"
  by (rule SubFloor_Add_restores) (simp_all add: udec_valid_def nanoval_def udec_limit_def)

text \<open>
  Functional correctness of the parser, on every input: a string is accepted exactly when it is a
  non-empty run of digits below \<open>2 ^ 64\<close>, optionally followed by one point and one to nine digits,
  and the decimal returned is the valid one of exactly that value.
\<close>

theorem ParseUdec64_iff:
  "ParseUdec64 s = Ok u \<longleftrightarrow>
   (\<exists>w f. s = (if f = [] then w else w @ CHR ''.'' # f) \<and> w \<noteq> [] \<and> list_all isASCIIDigit (w @ f)
      \<and> length f \<le> 9 \<and> digits_val w < 2 ^ 64 \<and> udec_valid u
      \<and> nanoval u = digits_val w * 10 ^ 9 + digits_val f * 10 ^ (9 - length f))"
  (is "?l \<longleftrightarrow> (\<exists>w f. ?P w f)")
proof
  assume ?l
  then have "udec_valid u" by (rule ParseUdec64_cases)
  then have lim: "nanoval u < 2 ^ 64 * 10 ^ 9" using nanoval_bound[of u] by (simp add: udec_limit_def)
  from \<open>?l\<close> show "\<exists>w f. ?P w f"
  proof (cases rule: ParseUdec64_cases)
    case whole
    with lim show ?thesis by (intro exI[of _ s] exI[of _ "[]"]) simp
  next
    case (point w f)
    with lim show ?thesis by (intro exI[of _ w] exI[of _ f]) simp
  qed
next
  assume "\<exists>w f. ?P w f"
  then obtain w f where P: "?P w f" by blast
  then obtain v where "ParseUdec64 s = Ok v" "udec_valid v" "nanoval v = nanoval u"
    by (metis ParseUdec64_denotes)
  with P show ?l using nanoval_inj[of v u] by auto
qed

text \<open>
  (C37) Round trip of the encoders: for any YAML or JSON codec that decodes the strings and integers it
  encoded, where reading an encoded integer as a string fails or gives its decimal digits, a valid
  decimal is decoded to itself. The destination may hold any whole part but no nanos: the integer
  branch of the decoder writes the whole part only.
\<close>

theorem Udec64_codec_roundtrip:
  assumes "udec_valid u"
    and string_codec: "\<And>s. asString (ofString s) = Some s"
    and uint_codec: "\<And>n. asUint (ofUint n) = Some n"
    and uint_as_string: "\<And>n. asString (ofUint n) \<in> {None, Some (dec_str (unat n))}"
  shows "UnmarshalUdec64 asString asUint (MarshalUdec64 ofString ofUint u) \<lparr>Whole = w, Nanos = 0\<rparr> = Ok u"
proof (cases "Nanos u = 0")
  case True
  then have s: "DecString u = dec_str (unat (Whole u))" by (simp add: DecString_def)
  show ?thesis
    using uint_as_string[of "Whole u"] True ParseUdec64_DecString[OF assms(1)] uint_codec
    by (auto simp: UnmarshalUdec64_def MarshalUdec64_def s)
next
  case False
  then show ?thesis
    using ParseUdec64_DecString[OF assms(1)] string_codec
    by (simp add: UnmarshalUdec64_def MarshalUdec64_def)
qed

theorem Udec64_codec_roundtrip_witness:
  "UnmarshalUdec64 (\<lambda>d. case d of Inl s \<Rightarrow> Some s | Inr _ \<Rightarrow> None) (\<lambda>d. case d of Inl _ \<Rightarrow> None | Inr n \<Rightarrow> Some n)
     (MarshalUdec64 Inl Inr \<lparr>Whole = 2, Nanos = 50000000\<rparr>) \<lparr>Whole = 7, Nanos = 0\<rparr>
   = Ok \<lparr>Whole = 2, Nanos = 50000000\<rparr>"
  by (rule Udec64_codec_roundtrip) (simp_all add: udec_valid_def)

end
