(* ===== verification/Float64.thy ===== *)
theory Float64
  imports Decimal "HOL-Library.Log_Nat"
begin

text \<open>
  Go's \<^verbatim>\<open>float64\<close> as far as the resource code uses it: conversions from unsigned integers, one
  addition, divisions and \<^verbatim>\<open>math.Ceil\<close>, on non-negative values. A float is the rational number it
  denotes, and every operation rounds to the nearest number with 53 significant bits, ties to
  even. The operands come from 64-bit and 32-bit integers, so no result is below \<open>10 ^ -29\<close> or above
  \<open>10 ^ 29\<close> and neither subnormals, infinities nor NaN arise. The theory ends with the value of
  \<^verbatim>\<open>Udec64.Float\<close> and with the fact the scaling computation needs: below \<open>2 ^ 53\<close> the rounded
  quotient of two integers has the same ceiling as the exact one.
\<close>

subsection \<open>The model\<close>

definition flog2 :: "rat \<Rightarrow> int" where
  "flog2 x =
     (let (p, q) = quotient_of x; m = bitlen p - bitlen q
      in if 2 powi m \<le> x then m else m - 1)"

definition round_even :: "rat \<Rightarrow> int" where
  "round_even y =
     (let f = \<lfloor>y\<rfloor>; d = y - of_int f
      in if d < 1 / 2 then f else if d > 1 / 2 then f + 1 else if even f then f else f + 1)"

definition fl :: "rat \<Rightarrow> rat" where
  "fl x =
     (if x \<le> 0 then 0
      else let e = flog2 x - 52 in of_int (round_even (x / 2 powi e)) * 2 powi e)"

definition Float :: "Udec64 \<Rightarrow> rat" where
  "Float a =
     fl (fl (of_int (uint (Whole a))) + fl (fl (of_int (uint (Nanos a))) / fl (of_int (uint DecWhole))))"

lemma Float_alt:
  "Float a =
     fl (fl (of_nat (unat (Whole a))) + fl (fl (of_nat (unat (Nanos a))) / fl (of_nat (unat DecWhole))))"
  unfolding Float_def by (simp only: of_int_uint of_nat_unat)

subsection \<open>Rounding\<close>

lemma rat_mono: "m \<le> n \<Longrightarrow> (of_int m :: rat) \<le> of_int n"
  by simp

lemma rat_smono: "m < n \<Longrightarrow> (of_int m :: rat) < of_int n"
  by simp

lemma flog2_bounds:
  assumes "0 < x"
  shows "2 powi flog2 x \<le> x" and "x < 2 powi (flog2 x + 1)"
proof -
  obtain p q where pq: "quotient_of x = (p, q)" by (cases "quotient_of x")
  have q: "0 < q" using quotient_of_denom_pos[OF pq] .
  have x: "x = of_int p / of_int q" using quotient_of_div[OF pq] .
  with assms q have p: "0 < p" by (simp add: zero_less_divide_iff)
  let ?m = "bitlen p - bitlen q"
  have bp: "2 ^ nat (bitlen p - 1) \<le> p" "p < 2 ^ nat (bitlen p)" using bitlen_bounds[OF p] by auto
  have bq: "2 ^ nat (bitlen q - 1) \<le> q" "q < 2 ^ nat (bitlen q)" using bitlen_bounds[OF q] by auto
  have pos: "1 \<le> bitlen p" "1 \<le> bitlen q" using p q by (simp_all add: bitlen_def floorlog_def)
  have pw: "(2::rat) powi n = 2 ^ nat n" if "0 \<le> n" for n using that by (simp add: power_int_def)
  have P: "2 powi (bitlen p - 1) \<le> (of_int p :: rat)" "(of_int p :: rat) < 2 powi bitlen p"
    using rat_mono[OF bp(1)] rat_smono[OF bp(2)] pos by (simp_all add: pw)
  have Q: "2 powi (bitlen q - 1) \<le> (of_int q :: rat)" "(of_int q :: rat) < 2 powi bitlen q"
    using rat_mono[OF bq(1)] rat_smono[OF bq(2)] pos by (simp_all add: pw)
  have "2 powi (?m - 1) = (2 powi (bitlen p - 1) :: rat) / 2 powi bitlen q"
    by (simp add: power_int_diff)
  also have "\<dots> \<le> x"
    unfolding x using P(1) Q(2) q p by (intro frac_le) auto
  finally have lo: "2 powi (?m - 1) \<le> x" .
  have "x < 2 powi bitlen p / 2 powi (bitlen q - 1)"
    unfolding x using P(2) Q(1) q p by (intro frac_less) auto
  also have "\<dots> = 2 powi (?m + 1)"
    by (simp add: power_int_diff power_int_add)
  finally have hi: "x < 2 powi (?m + 1)" .
  show "2 powi flog2 x \<le> x" and "x < 2 powi (flog2 x + 1)"
    using lo hi by (auto simp: flog2_def pq Let_def)
qed

lemma round_even_error: "\<bar>of_int (round_even y) - y\<bar> \<le> 1 / 2"
proof -
  let ?f = "of_int \<lfloor>y\<rfloor> :: rat"
  have f: "?f \<le> y" "y < ?f + 1" by linarith+
  have "of_int (round_even y) = ?f \<and> y - ?f \<le> 1 / 2 \<or> of_int (round_even y) = ?f + 1 \<and> 1 / 2 \<le> y - ?f"
    by (simp add: round_even_def Let_def)
  then show ?thesis using f by linarith
qed

lemma round_even_of_int [simp]: "round_even (of_int n) = n"
  by (simp add: round_even_def)

lemma fl_zero [simp]: "fl 0 = 0"
  by (simp add: fl_def)

lemma fl_error:
  assumes "0 < x"
  shows "\<bar>fl x - x\<bar> \<le> x / 2 ^ 53"
proof -
  let ?e = "flog2 x - 52"
  have pos: "(0::rat) < 2 powi ?e" by simp
  have "fl x - x = (of_int (round_even (x / 2 powi ?e)) - x / 2 powi ?e) * 2 powi ?e"
    using assms by (simp add: fl_def Let_def algebra_simps)
  then have "\<bar>fl x - x\<bar> \<le> 1 / 2 * 2 powi ?e"
    using round_even_error[of "x / 2 powi ?e"] by (simp add: abs_mult)
  also have "\<dots> = 2 powi flog2 x / 2 ^ 53" by (simp add: power_int_diff)
  also have "\<dots> \<le> x / 2 ^ 53" using flog2_bounds(1)[OF assms] by (simp add: divide_right_mono)
  finally show ?thesis .
qed

lemma fl_of_nat:
  assumes "n < 2 ^ 53"
  shows "fl (of_nat n) = of_nat n"
proof (cases "n = 0")
  case False
  let ?x = "of_nat n :: rat"
  have x: "0 < ?x" using False by simp
  have "?x < 2 ^ 53" using assms by (metis of_nat_less_iff of_nat_numeral of_nat_power)
  then have "2 powi flog2 ?x < (2 powi 53 :: rat)"
    using flog2_bounds(1)[OF x] by (simp add: power_int_def)
  then have "flog2 ?x \<le> 52"
    using power_int_increasing[of 53 "flog2 ?x" "2::rat"] by (cases "flog2 ?x \<le> 52") auto
  then have e: "(1::rat) / 2 powi (flog2 ?x - 52) = of_int (2 ^ nat (52 - flog2 ?x))"
    by (simp add: power_int_def divide_simps power_inverse)
  have "?x / 2 powi (flog2 ?x - 52) = ?x * (1 / 2 powi (flog2 ?x - 52))" by simp
  also have "\<dots> = of_int (int n * 2 ^ nat (52 - flog2 ?x))" unfolding e by simp
  finally have y: "?x / 2 powi (flog2 ?x - 52) = of_int (int n * 2 ^ nat (52 - flog2 ?x))" .
  then have "fl ?x = ?x / 2 powi (flog2 ?x - 52) * 2 powi (flog2 ?x - 52)"
    using x by (simp only: fl_def Let_def round_even_of_int) simp
  then show ?thesis by simp
qed simp

lemma Float_whole:
  assumes "Nanos a = 0" "unat (Whole a) < 2 ^ 53"
  shows "Float a = of_nat (unat (Whole a))"
  using assms fl_of_nat[OF assms(2)] by (simp add: Float_alt del: of_nat_unat)

text \<open>
  An approximation of a fraction that errs by less than one over its denominator, and not at all
  when the fraction is whole, has the fraction's ceiling.
\<close>

lemma ceiling_approx:
  fixes x q :: rat
  assumes x: "x = of_nat a / of_nat d" and d: "0 < d" and err: "\<bar>q - x\<bar> < 1 / of_nat d"
    and exact: "of_int \<lceil>x\<rceil> = x \<Longrightarrow> q = x"
  shows "\<lceil>q\<rceil> = \<lceil>x\<rceil>"
proof (cases "of_int \<lceil>x\<rceil> = x")
  case True
  then show ?thesis using exact by simp
next
  case False
  let ?c = "\<lceil>x\<rceil>"
  have D: "(0::rat) < of_nat d" using d by simp
  have xd: "x * of_nat d = of_nat a" using d by (simp add: x)
  have lt: "x < of_int ?c" using False le_of_int_ceiling[of x] by (metis order_le_imp_less_or_eq)
  then have "of_nat a < (of_int ?c * of_nat d :: rat)" using D xd by (metis mult_strict_right_mono)
  then have "int a < ?c * int d" by (metis of_int_less_iff of_int_mult of_int_of_nat_eq)
  then have "of_int (int a + 1) \<le> (of_int (?c * int d) :: rat)" by (simp only: of_int_le_iff)
  then have up: "x + 1 / of_nat d \<le> of_int ?c" using D by (simp add: x divide_simps)
  have "of_int ?c - 1 < x" using ceiling_correct[of x] by linarith
  then have "(of_int ?c - 1) * of_nat d < (of_nat a :: rat)" using D xd by (metis mult_strict_right_mono)
  then have "(of_int ((?c - 1) * int d) :: rat) < of_int (int a)" by simp
  then have "(?c - 1) * int d < int a" by (simp only: of_int_less_iff)
  then have "of_int ((?c - 1) * int d + 1) \<le> (of_int (int a) :: rat)" by (simp only: of_int_le_iff)
  then have lo: "of_int ?c - 1 + 1 / of_nat d \<le> x" using D by (simp add: x divide_simps)
  from err up lo have "of_int ?c - 1 < q" "q \<le> of_int ?c" by linarith+
  then show ?thesis by (simp add: ceiling_unique)
qed

lemma rat_less_pow: "n < 2 ^ k \<Longrightarrow> (of_nat n :: rat) < 2 ^ k"
  by (metis of_nat_less_iff of_nat_numeral of_nat_power)

lemma fl_whole_quotient:
  assumes a: "a < 2 ^ 53" and b: "0 < b" and c: "of_int \<lceil>of_nat a / of_nat b :: rat\<rceil> = of_nat a / (of_nat b :: rat)"
  shows "fl (of_nat a / of_nat b) = of_nat a / of_nat b"
proof -
  let ?x = "of_nat a / of_nat b :: rat"
  have "(of_nat a :: rat) \<le> of_nat (a * b)" using b by (subst of_nat_le_iff) simp
  then have "?x \<le> of_nat a" using b by (simp add: divide_le_eq)
  moreover have "- 1 < ?x" using b by (auto intro: order_less_le_trans[of _ 0])
  then have "0 \<le> \<lceil>?x\<rceil>" by simp
  then obtain n where "\<lceil>?x\<rceil> = int n" by (metis nonneg_int_cases)
  ultimately have "n < 2 ^ 53" "?x = of_nat n"
    using c a by (metis of_int_of_nat_eq of_nat_le_iff order_le_less_trans, metis of_int_of_nat_eq)
  then show ?thesis using fl_of_nat by simp
qed

lemma ceiling_fl_quotient:
  assumes a: "a < 2 ^ 53" and b: "0 < b"
  shows "\<lceil>fl (of_nat a / of_nat b)\<rceil> = \<lceil>of_nat a / of_nat b :: rat\<rceil>"
proof (cases "a = 0")
  case False
  let ?x = "of_nat a / of_nat b :: rat"
  have x: "0 < ?x" using False b by simp
  have "?x / 2 ^ 53 < 1 / of_nat b" using rat_less_pow[OF a] b by (simp add: divide_simps)
  with fl_error[OF x] have "\<bar>fl ?x - ?x\<bar> < 1 / of_nat b" by linarith
  with b fl_whole_quotient[OF a b] show ?thesis by (intro ceiling_approx) auto
qed simp

lemma fl_nonneg: "0 \<le> x \<Longrightarrow> 0 \<le> fl x"
proof (cases "x = 0")
  case False
  assume "0 \<le> x"
  with False have x: "0 < x" by simp
  then have "x / 2 ^ 53 \<le> x" by simp
  with fl_error[OF x] show ?thesis by linarith
qed simp

lemma fl_rel: "0 \<le> x \<Longrightarrow> \<bar>fl x - x\<bar> \<le> x / 2 ^ 53"
  using fl_error[of x] by (cases "x = 0") auto

lemma Float_error:
  assumes w: "unat (Whole a) < 2 ^ 53" and v: "udec_valid a"
  defines "x \<equiv> of_nat (nanoval a) / 10 ^ 9 :: rat"
  shows "0 \<le> Float a" and "\<bar>Float a - x\<bar> \<le> 3 * x / 2 ^ 53"
proof -
  let ?w = "of_nat (unat (Whole a)) :: rat" and ?n = "of_nat (unat (Nanos a)) / 10 ^ 9 :: rat"
  have n53: "unat (Nanos a) < 2 ^ 53" using v by (simp add: udec_valid_def)
  have F: "Float a = fl (?w + fl ?n)"
    using fl_of_nat[OF w] fl_of_nat[OF n53] fl_of_nat[of "10 ^ 9"] by (simp add: Float_alt del: of_nat_unat)
  have x: "x = ?w + ?n" by (simp add: x_def nanoval_def add_divide_distrib del: of_nat_unat)
  have n0: "0 \<le> ?n" "0 \<le> ?w" by (simp_all del: of_nat_unat)
  note e1 = fl_rel[OF n0(1)] and p1 = fl_nonneg[OF n0(1)]
  have s0: "0 \<le> ?w + fl ?n" using p1 n0 by linarith
  note e2 = fl_rel[OF s0]
  have "?w + fl ?n \<le> x + ?n / 2 ^ 53" using e1 unfolding x by linarith
  moreover have "?n / 2 ^ 53 \<le> x / 2 ^ 53" using n0 by (simp add: x divide_right_mono)
  moreover have "x / 2 ^ 53 \<le> x" using n0 by (simp add: x)
  ultimately have "(?w + fl ?n) / 2 ^ 53 \<le> 2 * x / 2 ^ 53"
    by (intro divide_right_mono) auto
  moreover have tri: "\<bar>g - (w + n)\<bar> \<le> d + e"
    if "\<bar>f - n\<bar> \<le> e'" "e' \<le> e" "\<bar>g - (w + f)\<bar> \<le> d'" "d' \<le> d" for f g w n e e' d d' :: rat
    using that by linarith
  ultimately have "\<bar>fl (?w + fl ?n) - x\<bar> \<le> 2 * x / 2 ^ 53 + x / 2 ^ 53"
    unfolding x by (intro tri[OF e1 _ e2]) (use n0 in \<open>simp_all add: x divide_right_mono\<close>)
  then show "\<bar>Float a - x\<bar> \<le> 3 * x / 2 ^ 53" by (simp add: F)
  show "0 \<le> Float a" unfolding F using s0 by (rule fl_nonneg)
qed

text \<open>The amounts for which dividing in floating point is exact after rounding up.\<close>

definition dec_small :: "Udec64 \<Rightarrow> bool" where
  "dec_small a =
     (udec_valid a \<and> (Nanos a = 0 \<and> unat (Whole a) < 2 ^ 53 \<or> unat (Whole a) < 2 ^ 20))"

lemma ceiling_Float_quotient:
  assumes a: "dec_small a" and b: "0 < b"
  shows "\<lceil>fl (Float a / of_nat b)\<rceil> = \<lceil>of_nat (nanoval a) / (10 ^ 9 * of_nat b) :: rat\<rceil>"
proof (cases "Nanos a = 0")
  case True
  then have w: "unat (Whole a) < 2 ^ 53" using a by (auto simp: dec_small_def)
  have "of_nat (nanoval a) / (10 ^ 9 * of_nat b) = (of_nat (unat (Whole a)) / of_nat b :: rat)"
    using True by (simp add: nanoval_def del: of_nat_unat)
  then show ?thesis using ceiling_fl_quotient[OF w b] Float_whole[OF True w] by simp
next
  case False
  let ?x = "of_nat (nanoval a) / 10 ^ 9 :: rat" and ?B = "of_nat b :: rat" and ?F = "Float a"
  have w: "unat (Whole a) < 2 ^ 20" and v: "udec_valid a" using a False by (auto simp: dec_small_def)
  have w53: "unat (Whole a) < 2 ^ 53" using w by simp
  have B: "0 < ?B" using b by simp
  note F = Float_error[OF w53 v]
  have "nanoval a < 2 ^ 50" using w v by (simp add: nanoval_def udec_valid_def)
  from rat_less_pow[OF this] have X: "?x < 2 ^ 50 / 10 ^ 9" "0 \<le> ?x" by (simp_all add: divide_strict_right_mono)
  have "3 * ?x / 2 ^ 53 \<le> ?x" using X(2) by simp
  with F(2) have le: "?F \<le> 2 * ?x" by linarith
  have q0: "0 \<le> ?F / ?B" using F(1) B by simp
  have "\<bar>fl (?F / ?B) - ?F / ?B\<bar> \<le> ?F / ?B / 2 ^ 53" by (rule fl_rel[OF q0])
  also have "\<dots> \<le> 2 * ?x / ?B / 2 ^ 53" using le B by (intro divide_right_mono) auto
  finally have e1: "\<bar>fl (?F / ?B) - ?F / ?B\<bar> \<le> 2 * ?x / ?B / 2 ^ 53" .
  have "\<bar>?F / ?B - ?x / ?B\<bar> = \<bar>?F - ?x\<bar> / ?B" using B by (simp only: diff_divide_distrib[symmetric] abs_divide abs_of_pos)
  also have "\<dots> \<le> 3 * ?x / 2 ^ 53 / ?B" using F(2) B by (intro divide_right_mono) auto
  finally have "\<bar>fl (?F / ?B) - ?x / ?B\<bar> \<le> 5 * ?x / 2 ^ 53 / ?B" using e1 by (simp add: field_simps)
  also have "\<dots> < 1 / (10 ^ 9 * ?B)" using X B by (simp add: field_simps)
  finally have err: "\<bar>fl (?F / ?B) - ?x / ?B\<bar> < 1 / of_nat (10 ^ 9 * b)" by simp
  have "of_int \<lceil>?x / ?B\<rceil> \<noteq> ?x / ?B"
  proof
    assume "of_int \<lceil>?x / ?B\<rceil> = ?x / ?B"
    then obtain c where "of_int c = ?x / ?B" by blast
    then have "of_nat (nanoval a) = (of_int (c * 10 ^ 9 * int b) :: rat)"
      using B by (simp add: field_simps)
    then have "(of_int (int (nanoval a)) :: rat) = of_int (c * 10 ^ 9 * int b)" by simp
    then have "int (nanoval a) = c * 10 ^ 9 * int b" by (simp only: of_int_eq_iff)
    then have "(10 ^ 9 :: int) dvd int (nanoval a)" by simp
    then have "(10 ^ 9 :: nat) dvd nanoval a" by (metis int_dvd_int_iff of_nat_numeral of_nat_power)
    then have "10 ^ 9 dvd unat (Nanos a)" by (simp add: nanoval_def dvd_add_right_iff del: of_nat_unat)
    moreover have "0 < unat (Nanos a)" using False by (simp add: unat_gt_0)
    ultimately show False using v by (auto simp: udec_valid_def dest: dvd_imp_le)
  qed
  with err b have "\<lceil>fl (?F / ?B)\<rceil> = \<lceil>?x / ?B\<rceil>"
    by (intro ceiling_approx[of _ "nanoval a" "10 ^ 9 * b"]) auto
  then show ?thesis by simp
qed

end
