(* ===== verification/Resources.thy ===== *)
theory Resources
  imports Decimal
begin

text \<open>
  The resource descriptions of the API and their own operations: the records of
  \<^verbatim>\<open>api/edgeproto/resources.pb.go\<close>, the methods of \<^verbatim>\<open>api/edgeproto/resources.go\<close>
  (validation, conversion from flavors, resource keys) and the GPU accounting of
  \<^verbatim>\<open>pkg/cloudcommon/infraresources.go\<close>. A nil-able map or slice is an option where the code
  distinguishes nil from empty; \<open>entries\<close> is what ranging over it visits. Of large messages such as
  \<open>ClusterInst\<close> only the fields this code reads are kept.
\<close>

subsection \<open>Data\<close>

type_synonym optresmap = "(string, string) gomap option"

definition entries :: "'a list option \<Rightarrow> 'a list" where
  "entries m = (case m of None \<Rightarrow> [] | Some l \<Rightarrow> l)"

lemma entries_simps [simp]: "entries None = []" "entries (Some l) = l"
  by (simp_all add: entries_def)

record GPUResource =
  gpu_ModelId :: string
  gpu_Count :: uint32
  gpu_Vendor :: string
  gpu_Memory :: uint64

record NodeResources =
  nr_Vcpus :: uint64
  nr_Ram :: uint64
  nr_Disk :: uint64
  nr_Gpus :: "GPUResource list"
  nr_OptResMap :: optresmap
  nr_InfraNodeFlavor :: string

record NodePoolTopology =
  MinNodeVcpus :: uint64
  MinNodeMemory :: uint64
  MinNodeDisk :: uint64
  MinNodeGpus :: "GPUResource list"
  MinNodeOptRes :: optresmap
  MinNumberOfNodes :: int

record NodePoolResources =
  TotalVcpus :: Udec64
  TotalMemory :: uint64
  TotalDisk :: uint64
  TotalGpus :: "GPUResource list"
  TotalOptRes :: optresmap
  Topology :: NodePoolTopology

record KubernetesResources =
  CpuPool :: "NodePoolResources option"
  GpuPool :: "NodePoolResources option"

record NodePool =
  np_Name :: string
  np_NumNodes :: uint32
  np_NodeResources :: "NodeResources option"
  np_Scalable :: bool

record ClusterInst =
  ci_NodePools :: "NodePool list"
  ci_NodeResources :: "NodeResources option"

record Flavor =
  flv_Ram :: uint64
  flv_Vcpus :: uint64
  flv_Disk :: uint64
  flv_Gpus :: "GPUResource list option"
  flv_OptResMap :: optresmap

record FlavorInfo =
  fi_Name :: string
  fi_Vcpus :: uint64
  fi_Ram :: uint64
  fi_Disk :: uint64
  fi_Gpus :: "GPUResource list"
  fi_PropMap :: "(string, string) gomap"

text \<open>Go's zero values, as composite literals with missing fields have them.\<close>

definition zero_NodeResources :: NodeResources where
  "zero_NodeResources =
     \<lparr>nr_Vcpus = 0, nr_Ram = 0, nr_Disk = 0, nr_Gpus = [], nr_OptResMap = None, nr_InfraNodeFlavor = []\<rparr>"

definition zero_NodePoolTopology :: NodePoolTopology where
  "zero_NodePoolTopology =
     \<lparr>MinNodeVcpus = 0, MinNodeMemory = 0, MinNodeDisk = 0, MinNodeGpus = [], MinNodeOptRes = None,
      MinNumberOfNodes = 0\<rparr>"

definition zero_NodePoolResources :: NodePoolResources where
  "zero_NodePoolResources =
     \<lparr>TotalVcpus = \<lparr>Whole = 0, Nanos = 0\<rparr>, TotalMemory = 0, TotalDisk = 0, TotalGpus = [],
      TotalOptRes = None, Topology = zero_NodePoolTopology\<rparr>"

subsection \<open>Validation\<close>

datatype res_error =
    MissingNodeResources | VcpusZero | MemoryZero | MissingPoolName | NumNodesZero
  | TotalVcpusZero | TotalMemoryZero | MissingKubernetesResources | NoPools
  | CpuPoolErr res_error | GpuPoolErr res_error | GpuPoolNoGpus

definition NodeResources_Validate :: "NodeResources option \<Rightarrow> res_error option" where
  "NodeResources_Validate s =
     (case s of None \<Rightarrow> Some MissingNodeResources
      | Some nr \<Rightarrow>
          if nr_Vcpus nr = 0 then Some VcpusZero
          else if nr_Ram nr = 0 then Some MemoryZero
          else None)"

definition NodePool_Validate :: "NodePool \<Rightarrow> res_error option" where
  "NodePool_Validate s =
     (if np_Name s = [] then Some MissingPoolName
      else if np_NumNodes s = 0 then Some NumNodesZero
      else if np_NodeResources s = None then Some MissingNodeResources
      else NodeResources_Validate (np_NodeResources s))"

text \<open>Validation of a pool also fills in the default topology; the updated object is returned.\<close>

definition NodePoolResources_Validate :: "NodePoolResources \<Rightarrow> res_error option \<times> NodePoolResources" where
  "NodePoolResources_Validate s =
     (if IsZero (TotalVcpus s) then (Some TotalVcpusZero, s)
      else if TotalMemory s \<le> 0 then (Some TotalMemoryZero, s)
      else if MinNumberOfNodes (Topology s) \<le> 0
        then (None, s\<lparr>Topology := (Topology s)\<lparr>MinNumberOfNodes := 1\<rparr>\<rparr>)
      else (None, s))"

definition gpu_pool_names_gpus :: "NodePoolResources \<Rightarrow> bool" where
  "gpu_pool_names_gpus p =
     (\<not> (length (TotalGpus p) = 0 \<and> (TotalOptRes p = None \<or> get_or [] (entries (TotalOptRes p)) ''gpu'' = [])))"

definition KubernetesResources_Validate ::
  "KubernetesResources option \<Rightarrow> res_error option \<times> KubernetesResources option" where
  "KubernetesResources_Validate s =
     (case s of None \<Rightarrow> (Some MissingKubernetesResources, s)
      | Some kr \<Rightarrow>
          if CpuPool kr = None \<and> GpuPool kr = None then (Some NoPools, s)
          else
            let (cerr, kr1) = (case CpuPool kr of None \<Rightarrow> (None, kr)
                  | Some p \<Rightarrow> let (e, p') = NodePoolResources_Validate p in (e, kr\<lparr>CpuPool := Some p'\<rparr>))
            in case cerr of Some e \<Rightarrow> (Some (CpuPoolErr e), Some kr1)
               | None \<Rightarrow>
                   (case GpuPool kr1 of None \<Rightarrow> (None, Some kr1)
                    | Some p \<Rightarrow>
                        let (e, p') = NodePoolResources_Validate p; kr2 = kr1\<lparr>GpuPool := Some p'\<rparr>
                        in case e of Some e' \<Rightarrow> (Some (GpuPoolErr e'), Some kr2)
                           | None \<Rightarrow> if gpu_pool_names_gpus p' then (None, Some kr2)
                                     else (Some GpuPoolNoGpus, Some kr2)))"

subsection \<open>Conversion from flavors\<close>

definition Flavor_ToNodeResources :: "Flavor \<Rightarrow> NodeResources" where
  "Flavor_ToNodeResources s =
     zero_NodeResources\<lparr>nr_Vcpus := flv_Vcpus s, nr_Ram := flv_Ram s, nr_Disk := flv_Disk s,
       nr_Gpus := entries (flv_Gpus s), nr_OptResMap := flv_OptResMap s\<rparr>"

definition Flavor_ToKubernetesResources :: "Flavor \<Rightarrow> KubernetesResources" where
  "Flavor_ToKubernetesResources s =
     (let pool = zero_NodePoolResources\<lparr>TotalVcpus := NewUdec64 (flv_Vcpus s) 0, TotalMemory := flv_Ram s,
             TotalGpus := entries (flv_Gpus s),
             Topology := zero_NodePoolTopology\<lparr>MinNodeVcpus := flv_Vcpus s, MinNodeMemory := flv_Ram s,
               MinNodeGpus := entries (flv_Gpus s)\<rparr>\<rparr>;
          gpuCount = (if ''gpu'' \<in> set (keys (entries (flv_OptResMap s))) then 1 else 0 :: int)
      in if gpuCount > 0 then \<lparr>CpuPool = None, GpuPool = Some pool\<rparr>
         else \<lparr>CpuPool = Some pool, GpuPool = None\<rparr>)"

definition NodeResources_SetFromFlavor :: "NodeResources \<Rightarrow> Flavor \<Rightarrow> NodeResources" where
  "NodeResources_SetFromFlavor s flavor =
     s\<lparr>nr_Vcpus := flv_Vcpus flavor, nr_Ram := flv_Ram flavor, nr_Disk := flv_Disk flavor,
       nr_Gpus := entries (flv_Gpus flavor), nr_OptResMap := flv_OptResMap flavor\<rparr>"

definition NodePool_SetFromFlavor :: "NodePool \<Rightarrow> Flavor \<Rightarrow> NodePool" where
  "NodePool_SetFromFlavor s flavor =
     (let nr = (case np_NodeResources s of None \<Rightarrow> zero_NodeResources | Some nr \<Rightarrow> nr)
      in s\<lparr>np_NodeResources := Some (NodeResources_SetFromFlavor nr flavor)\<rparr>)"

definition pool_SetFromFlavor :: "NodePoolResources \<Rightarrow> Flavor \<Rightarrow> NodePoolResources" where
  "pool_SetFromFlavor pool flavor =
     pool\<lparr>TotalVcpus := NewUdec64 (flv_Vcpus flavor) 0, TotalMemory := flv_Ram flavor,
       TotalDisk := flv_Disk flavor, TotalGpus := entries (flv_Gpus flavor),
       TotalOptRes := flv_OptResMap flavor,
       Topology := (Topology pool)\<lparr>MinNodeVcpus := flv_Vcpus flavor, MinNodeMemory := flv_Ram flavor,
         MinNodeDisk := flv_Disk flavor, MinNodeGpus := entries (flv_Gpus flavor),
         MinNodeOptRes := flv_OptResMap flavor\<rparr>\<rparr>"

definition KubernetesResources_SetFromFlavor :: "KubernetesResources \<Rightarrow> Flavor \<Rightarrow> KubernetesResources" where
  "KubernetesResources_SetFromFlavor s flavor =
     (if flv_Gpus flavor \<noteq> None
      then let pool = (case GpuPool s of None \<Rightarrow> zero_NodePoolResources | Some p \<Rightarrow> p)
           in s\<lparr>GpuPool := Some (pool_SetFromFlavor pool flavor)\<rparr>
      else let pool = (case CpuPool s of None \<Rightarrow> zero_NodePoolResources | Some p \<Rightarrow> p)
           in s\<lparr>CpuPool := Some (pool_SetFromFlavor pool flavor)\<rparr>)"

subsection \<open>Node pools, flavor lookup and resource keys\<close>

definition DefaultNodePoolName :: string where "DefaultNodePoolName = ''defaultpool''"

definition EnsureDefaultNodePool :: "ClusterInst \<Rightarrow> ClusterInst" where
  "EnsureDefaultNodePool s =
     (if length (ci_NodePools s) = 0
      then s\<lparr>ci_NodePools := [\<lparr>np_Name = DefaultNodePoolName, np_NumNodes = 0,
               np_NodeResources = Some zero_NodeResources, np_Scalable = False\<rparr>]\<rparr>
      else s)"

definition GetNumNodes :: "ClusterInst \<Rightarrow> uint32" where
  "GetNumNodes s = fold (\<lambda>pool n. n + np_NumNodes pool) (ci_NodePools s) 0"

type_synonym FlavorLookup = "(string, FlavorInfo) gomap"

definition GetFlavorLookup :: "FlavorInfo list \<Rightarrow> FlavorLookup" where
  "GetFlavorLookup flavors = fold (\<lambda>f lookup. AList.update (fi_Name f) f lookup) flavors []"

definition BuildResKey :: "string \<Rightarrow> string \<Rightarrow> string" where
  "BuildResKey resourceType name = (if resourceType = [] then name else resourceType @ ''/'' @ name)"

definition BuildResKeyDesc :: "string \<Rightarrow> string \<Rightarrow> string" where
  "BuildResKeyDesc resourceType name = (if resourceType = [] then name else resourceType @ '' '' @ name)"

definition GPUResource_WithCount :: "GPUResource \<Rightarrow> uint32 \<Rightarrow> GPUResource" where
  "GPUResource_WithCount s cnt = s\<lparr>gpu_Count := cnt\<rparr>"

subsection \<open>Optional resources and GPU counts\<close>

datatype optres_error = MissingCount string | InvalidOptRes string | NonNumericCount string

definition ParseOptResVal :: "string \<Rightarrow> (optres_error, string \<times> string \<times> int) result" where
  "ParseOptResVal resStr =
     (let values = Split CHR '':'' resStr
      in if length values = 1 then Err (MissingCount resStr)
         else
           let parts = (if length values = 2 then Some (values ! 0, [], values ! 1)
                        else if length values = 3 then Some (values ! 0, values ! 1, values ! 2)
                        else None)
           in case parts of None \<Rightarrow> Err (InvalidOptRes resStr)
              | Some (typ, spec, countStr) \<Rightarrow>
                  (case Atoi countStr of None \<Rightarrow> Err (NonNumericCount resStr)
                   | Some cnt \<Rightarrow> Ok (typ, spec, cnt)))"

definition GetOptResGPUCount :: "optresmap \<Rightarrow> uint64" where
  "GetOptResGPUCount optResMap =
     (case optResMap of None \<Rightarrow> 0
      | Some m \<Rightarrow>
          (case map_of m ''gpu'' of None \<Rightarrow> 0
           | Some val \<Rightarrow> (case ParseOptResVal val of Inl _ \<Rightarrow> 0 | Inr (_, _, cnt) \<Rightarrow> word_of_int cnt)))"

definition GetGPUCount :: "GPUResource list \<Rightarrow> optresmap \<Rightarrow> uint64" where
  "GetGPUCount gpus optResMap =
     fold (\<lambda>gpu cnt. cnt + ucast (gpu_Count gpu)) gpus 0 + GetOptResGPUCount optResMap"

definition NodeResourcesGPUCount :: "NodeResources option \<Rightarrow> uint64" where
  "NodeResourcesGPUCount nr =
     (case nr of None \<Rightarrow> 0 | Some n \<Rightarrow> GetGPUCount (nr_Gpus n) (nr_OptResMap n))"

definition NodePoolResourcesGPUCount :: "NodePoolResources option \<Rightarrow> uint64" where
  "NodePoolResourcesGPUCount npr =
     (case npr of None \<Rightarrow> 0 | Some n \<Rightarrow> GetGPUCount (TotalGpus n) (TotalOptRes n))"

definition KuberentesResourcesGPUCount :: "KubernetesResources option \<Rightarrow> uint64" where
  "KuberentesResourcesGPUCount kr =
     (case kr of None \<Rightarrow> 0
      | Some k \<Rightarrow> (case GpuPool k of None \<Rightarrow> 0 | Some p \<Rightarrow> GetGPUCount (TotalGpus p) (TotalOptRes p)))"

definition AppInstGpuCount :: "KubernetesResources option \<Rightarrow> NodeResources option \<Rightarrow> uint64" where
  "AppInstGpuCount kubernetesResources nodeResources =
     (if kubernetesResources \<noteq> None then KuberentesResourcesGPUCount kubernetesResources
      else if nodeResources \<noteq> None then NodeResourcesGPUCount nodeResources
      else 0)"

datatype gpu_error = GpuModelEmpty | GpuCountZero | GpuVendorUnknown string | GpuMemoryZero

definition infer_vendor :: "GPUResource \<Rightarrow> (gpu_error, GPUResource) result" where
  "infer_vendor gpu =
     (if gpu_Vendor gpu = [] then
        let modelid = ToLower (gpu_ModelId gpu)
        in if HasPrefix modelid ''amd'' then Ok (gpu\<lparr>gpu_Vendor := ''amd''\<rparr>)
           else if HasPrefix modelid ''nvidia'' then Ok (gpu\<lparr>gpu_Vendor := ''nvidia''\<rparr>)
           else Err (GpuVendorUnknown (gpu_ModelId gpu))
      else Ok gpu)"

text \<open>The loop of \<open>ValidateGPUs\<close>: the error, if any, and the list with the vendors filled in so far.\<close>

fun ValidateGPUs :: "bool \<Rightarrow> GPUResource list \<Rightarrow> gpu_error option \<times> GPUResource list" where
  "ValidateGPUs requiresMemory [] = (None, [])"
| "ValidateGPUs requiresMemory (gpu # gpus) =
     (if gpu_ModelId gpu = [] then (Some GpuModelEmpty, gpu # gpus)
      else if gpu_Count gpu = 0 then (Some GpuCountZero, gpu # gpus)
      else case infer_vendor gpu of
        Inl e \<Rightarrow> (Some e, gpu # gpus)
      | Inr gpu' \<Rightarrow>
          if requiresMemory \<and> gpu_Memory gpu' = 0 then (Some GpuMemoryZero, gpu' # gpus)
          else (let (e, rest) = ValidateGPUs requiresMemory gpus in (e, gpu' # rest)))"

definition ValidateInfraGPUs :: "GPUResource list \<Rightarrow> gpu_error option \<times> GPUResource list" where
  "ValidateInfraGPUs gpus = ValidateGPUs True gpus"

subsection \<open>Lemmas\<close>

definition pool_ok :: "NodePoolResources \<Rightarrow> bool" where
  "pool_ok p = (\<not> IsZero (TotalVcpus p) \<and> TotalMemory p \<noteq> 0)"

definition default_min_nodes :: "NodePoolResources \<Rightarrow> NodePoolResources" where
  "default_min_nodes p =
     (if MinNumberOfNodes (Topology p) \<le> 0 then p\<lparr>Topology := (Topology p)\<lparr>MinNumberOfNodes := 1\<rparr>\<rparr> else p)"

lemma NodePoolResources_Validate_ok:
  "pool_ok p \<Longrightarrow> NodePoolResources_Validate p = (None, default_min_nodes p)"
  by (simp add: NodePoolResources_Validate_def pool_ok_def default_min_nodes_def)

lemma NodePoolResources_Validate_err:
  "\<not> pool_ok p \<Longrightarrow> \<exists>e. NodePoolResources_Validate p = (Some e, p)"
  by (auto simp: NodePoolResources_Validate_def pool_ok_def)

lemma default_min_nodes_simps [simp]:
  "pool_ok (default_min_nodes p) = pool_ok p"
  "gpu_pool_names_gpus (default_min_nodes p) = gpu_pool_names_gpus p"
  "MinNumberOfNodes (Topology (default_min_nodes p)) > 0"
  "default_min_nodes (default_min_nodes p) = default_min_nodes p"
  by (simp_all add: default_min_nodes_def pool_ok_def gpu_pool_names_gpus_def)

definition kube_ok :: "KubernetesResources \<Rightarrow> bool" where
  "kube_ok kr =
     ((CpuPool kr \<noteq> None \<or> GpuPool kr \<noteq> None)
      \<and> (\<forall>p. CpuPool kr = Some p \<longrightarrow> pool_ok p)
      \<and> (\<forall>p. GpuPool kr = Some p \<longrightarrow> pool_ok p \<and> gpu_pool_names_gpus p))"

definition kube_defaults :: "KubernetesResources \<Rightarrow> KubernetesResources" where
  "kube_defaults kr =
     kr\<lparr>CpuPool := map_option default_min_nodes (CpuPool kr), GpuPool := map_option default_min_nodes (GpuPool kr)\<rparr>"

lemma KubernetesResources_Validate_ok:
  assumes "kube_ok kr"
  shows "KubernetesResources_Validate (Some kr) = (None, Some (kube_defaults kr))"
  using assms
  by (cases "CpuPool kr"; cases "GpuPool kr")
    (auto simp: KubernetesResources_Validate_def kube_ok_def kube_defaults_def NodePoolResources_Validate_ok
      Let_def)

lemma KubernetesResources_Validate_err:
  assumes "\<not> kube_ok kr"
  shows "fst (KubernetesResources_Validate (Some kr)) \<noteq> None"
proof -
  consider "CpuPool kr = None" "GpuPool kr = None"
    | p where "CpuPool kr = Some p" "\<not> pool_ok p"
    | q where "CpuPool kr = None \<or> (\<exists>p. CpuPool kr = Some p \<and> pool_ok p)" "GpuPool kr = Some q"
        "\<not> pool_ok q \<or> \<not> gpu_pool_names_gpus q"
    using assms by (cases "CpuPool kr"; cases "GpuPool kr") (auto simp: kube_ok_def)
  then show ?thesis
  proof cases
    case (2 p)
    then show ?thesis
      using NodePoolResources_Validate_err[of p] by (auto simp: KubernetesResources_Validate_def Let_def)
  next
    case (3 q)
    then show ?thesis
      using NodePoolResources_Validate_err[of q] NodePoolResources_Validate_ok[of q]
      by (cases "pool_ok q")
        (auto simp: KubernetesResources_Validate_def Let_def NodePoolResources_Validate_ok)
  qed (simp add: KubernetesResources_Validate_def)
qed

lemma infer_vendor_frame:
  "infer_vendor g = Ok g' \<Longrightarrow> g' = g\<lparr>gpu_Vendor := gpu_Vendor g'\<rparr> \<and> gpu_Vendor g' \<noteq> []"
  by (auto simp: infer_vendor_def Let_def split: if_splits)

definition gpu_ok :: "bool \<Rightarrow> GPUResource \<Rightarrow> bool" where
  "gpu_ok mem g =
     (gpu_ModelId g \<noteq> [] \<and> gpu_Count g \<noteq> 0 \<and> gpu_Vendor g \<noteq> [] \<and> (mem \<longrightarrow> gpu_Memory g \<noteq> 0))"

lemma ValidateGPUs_ok:
  "ValidateGPUs mem gs = (None, hs) \<Longrightarrow>
   list_all (gpu_ok mem) hs \<and> map (\<lambda>g. g\<lparr>gpu_Vendor := []\<rparr>) hs = map (\<lambda>g. g\<lparr>gpu_Vendor := []\<rparr>) gs"
proof (induction gs arbitrary: hs)
  case (Cons g gs)
  then obtain g' rest where g': "infer_vendor g = Ok g'" and "gpu_ModelId g \<noteq> []" "gpu_Count g \<noteq> 0"
    and "mem \<longrightarrow> gpu_Memory g' \<noteq> 0" and rest: "ValidateGPUs mem gs = (None, rest)" "hs = g' # rest"
    by (auto split: if_splits sum.splits prod.splits)
  moreover from infer_vendor_frame[OF g'] obtain v where "g' = g\<lparr>gpu_Vendor := v\<rparr>" "v \<noteq> []" by blast
  ultimately show ?case using Cons.IH[OF rest(1)] by (auto simp: gpu_ok_def)
qed simp

lemma ValidateGPUs_idem: "list_all (gpu_ok mem) gs \<Longrightarrow> ValidateGPUs mem gs = (None, gs)"
  by (induction gs) (auto simp: gpu_ok_def infer_vendor_def)

lemma slash_split:
  assumes "t @ ''/'' @ n = t' @ ''/'' @ n'" "CHR ''/'' \<notin> set t" "CHR ''/'' \<notin> set t'"
  shows "t = t' \<and> n = n'"
  using assms
proof (induction t arbitrary: t')
  case Nil
  then show ?case by (cases t') auto
next
  case (Cons c t)
  then show ?case by (cases t') auto
qed

lemma BuildResKey_inj:
  assumes "BuildResKey t n = BuildResKey t' n'"
    and "CHR ''/'' \<notin> set t" "CHR ''/'' \<notin> set t'" "CHR ''/'' \<notin> set n" "CHR ''/'' \<notin> set n'"
  shows "t = t' \<and> n = n'"
  using assms slash_split[of t n t' n']
  by (auto simp: BuildResKey_def split: if_splits)

subsection \<open>Properties\<close>

text \<open>
  Validation of Kubernetes resources accepts exactly the requests with at least one pool whose
  pools ask for vcpus and memory and whose GPU pool names a GPU, fills in a minimum of one node where
  none was given and changes nothing else; validating its own result changes nothing.
\<close>

theorem KubernetesResources_Validate_spec:
  "(fst (KubernetesResources_Validate (Some kr)) = None) = kube_ok kr
   \<and> (kube_ok kr \<longrightarrow>
      KubernetesResources_Validate (Some kr) = (None, Some (kube_defaults kr))
      \<and> KubernetesResources_Validate (Some (kube_defaults kr)) = (None, Some (kube_defaults kr)))"
proof -
  have "kube_ok (kube_defaults kr)" "kube_defaults (kube_defaults kr) = kube_defaults kr" if "kube_ok kr"
    using that by (auto simp: kube_ok_def kube_defaults_def option.map_comp comp_def)
  then show ?thesis
    using KubernetesResources_Validate_ok[of kr] KubernetesResources_Validate_ok[of "kube_defaults kr"]
      KubernetesResources_Validate_err[of kr] by (cases "kube_ok kr") auto
qed

theorem KubernetesResources_Validate_spec_witness:
  "KubernetesResources_Validate (Some \<lparr>CpuPool = Some (zero_NodePoolResources\<lparr>TotalVcpus := \<lparr>Whole = 2, Nanos = 0\<rparr>,
       TotalMemory := 1024\<rparr>), GpuPool = None\<rparr>) =
   (None, Some \<lparr>CpuPool = Some (zero_NodePoolResources\<lparr>TotalVcpus := \<lparr>Whole = 2, Nanos = 0\<rparr>, TotalMemory := 1024,
       Topology := zero_NodePoolTopology\<lparr>MinNumberOfNodes := 1\<rparr>\<rparr>), GpuPool = None\<rparr>)"
  using KubernetesResources_Validate_spec[of "\<lparr>CpuPool = Some (zero_NodePoolResources\<lparr>TotalVcpus := \<lparr>Whole = 2, Nanos = 0\<rparr>,
       TotalMemory := 1024\<rparr>), GpuPool = None\<rparr>"]
  by (simp add: kube_ok_def kube_defaults_def default_min_nodes_def pool_ok_def IsZero_def
      zero_NodePoolResources_def zero_NodePoolTopology_def)

text \<open>
  Which GPUs a request built from a flavor is charged for. A flavor with a GPU list goes to the GPU
  pool and all of its GPUs, listed or optional, are counted. A flavor without one goes to the CPU pool
  and is counted no GPUs beyond those the request already had, even when its optional resource
  map asks for GPUs.
\<close>

theorem SetFromFlavor_gpu_count:
  "KuberentesResourcesGPUCount (Some (KubernetesResources_SetFromFlavor s f)) =
     (case flv_Gpus f of
        Some gpus \<Rightarrow> GetGPUCount gpus (flv_OptResMap f)
      | None \<Rightarrow> KuberentesResourcesGPUCount (Some s))"
  by (simp add: KuberentesResourcesGPUCount_def KubernetesResources_SetFromFlavor_def pool_SetFromFlavor_def
      Let_def split: option.splits)

text \<open>
  GPU validation: on success every GPU has a model, a positive count, a vendor and, where required,
  memory; only vendors were filled in; and validating the result again succeeds and changes nothing.
\<close>

theorem ValidateGPUs_normalizes:
  assumes "ValidateGPUs mem gs = (None, hs)"
  shows "list_all (gpu_ok mem) hs
    \<and> map (\<lambda>g. g\<lparr>gpu_Vendor := []\<rparr>) hs = map (\<lambda>g. g\<lparr>gpu_Vendor := []\<rparr>) gs
    \<and> ValidateGPUs mem hs = (None, hs)"
  using ValidateGPUs_ok[OF assms] ValidateGPUs_idem[of mem hs] by simp

theorem ValidateGPUs_normalizes_witness:
  "list_all (gpu_ok True) [\<lparr>gpu_ModelId = ''nvidia-t4'', gpu_Count = 2, gpu_Vendor = ''nvidia'', gpu_Memory = 16\<rparr>]"
proof -
  have "ValidateGPUs True [\<lparr>gpu_ModelId = ''nvidia-t4'', gpu_Count = 2, gpu_Vendor = [], gpu_Memory = 16\<rparr>] =
      (None, [\<lparr>gpu_ModelId = ''nvidia-t4'', gpu_Count = 2, gpu_Vendor = ''nvidia'', gpu_Memory = 16\<rparr>])"
    by (simp add: infer_vendor_def HasPrefix_def ToLower_def lower_char_def isASCIIUpper_def less_eq_char_def)
  from ValidateGPUs_normalizes[OF this] show ?thesis by blast
qed

end
