(* ===== verification/ResVals.thy ===== *)
theory ResVals
  imports Resources Float64
begin

text \<open>
  \<^verbatim>\<open>pkg/resspec/resvals.go\<close>: generic resource amounts keyed by resource name, the arithmetic the
  placement code does on them, and the conversions from node and pool descriptions. The Go maps hold
  pointers, but every entry is a private copy made by \<open>AddMult\<close> and no two maps share one, so the
  model stores the values. Methods that mutate the receiver return the new map; those that can
  also fail return the map as it was left, with the error. The contract of these maps as a ledger of
  amounts is the locale \<open>resource_ledger\<close>, interpreted on them at the end.
\<close>

subsection \<open>The model\<close>

record ResVal =
  rv_Name :: string
  rv_Units :: string
  rv_Value :: Udec64
  rv_ResourceType :: string
  rv_OptResMapKey :: string
  rv_OptResMapSpec :: string

record InfraResource =
  ir_Name :: string
  ir_Value :: uint64
  ir_InfraMaxValue :: uint64
  ir_QuotaMaxValue :: uint64
  ir_Units :: string
  ir_Type :: string
  ir_AlertThreshold :: int

type_synonym ResValMap = "(string, ResVal) gomap"

definition NewDecimalResVal :: "string \<Rightarrow> string \<Rightarrow> Udec64 \<Rightarrow> ResVal" where
  "NewDecimalResVal name units v =
     \<lparr>rv_Name = name, rv_Units = units, rv_Value = v, rv_ResourceType = [], rv_OptResMapKey = [],
      rv_OptResMapSpec = []\<rparr>"

definition NewWholeResVal :: "string \<Rightarrow> string \<Rightarrow> uint64 \<Rightarrow> ResVal" where
  "NewWholeResVal name units v =
     \<lparr>rv_Name = name, rv_Units = units, rv_Value = \<lparr>Whole = v, Nanos = 0\<rparr>, rv_ResourceType = [],
      rv_OptResMapKey = [], rv_OptResMapSpec = []\<rparr>"

definition NewWholeResTypeVal :: "string \<Rightarrow> string \<Rightarrow> string \<Rightarrow> uint64 \<Rightarrow> ResVal" where
  "NewWholeResTypeVal resourceType name units v =
     \<lparr>rv_Name = name, rv_Units = units, rv_Value = \<lparr>Whole = v, Nanos = 0\<rparr>, rv_ResourceType = resourceType,
      rv_OptResMapKey = [], rv_OptResMapSpec = []\<rparr>"

definition NewGPURes :: "string \<Rightarrow> uint32 \<Rightarrow> ResVal" where
  "NewGPURes name cnt = NewWholeResTypeVal ''gpu'' name [] (ucast cnt)"

definition Key :: "ResVal \<Rightarrow> string" where
  "Key s = BuildResKey (rv_ResourceType s) (rv_Name s)"

definition AsInfraRes :: "ResVal \<Rightarrow> InfraResource" where
  "AsInfraRes s =
     \<lparr>ir_Name = rv_Name s, ir_Value = Whole (rv_Value s), ir_InfraMaxValue = 0, ir_QuotaMaxValue = 0,
      ir_Units = rv_Units s, ir_Type = rv_ResourceType s, ir_AlertThreshold = 0\<rparr>"

definition FromInfraRes :: "InfraResource \<Rightarrow> ResVal" where
  "FromInfraRes r =
     \<lparr>rv_Name = ir_Name r, rv_Units = ir_Units r, rv_Value = \<lparr>Whole = ir_Value r, Nanos = 0\<rparr>,
      rv_ResourceType = ir_Type r, rv_OptResMapKey = [], rv_OptResMapSpec = []\<rparr>"

definition AddMult :: "ResValMap \<Rightarrow> ResVal \<Rightarrow> uint32 \<Rightarrow> ResValMap" where
  "AddMult s nres factor =
     (let cp = nres\<lparr>rv_Value := Mult (rv_Value nres) factor\<rparr>; key = Key nres
      in case map_of s key of
           Some existing \<Rightarrow>
             AList.update key (existing\<lparr>rv_Value := Add (rv_Value existing) (rv_Value cp)\<rparr>) s
         | None \<Rightarrow> AList.update key cp s)"

definition AddRV :: "ResValMap \<Rightarrow> ResVal \<Rightarrow> ResValMap" where
  "AddRV s nres = AddMult s nres 1"

definition AddRes :: "ResValMap \<Rightarrow> string \<Rightarrow> string \<Rightarrow> uint64 \<Rightarrow> uint32 \<Rightarrow> ResValMap" where
  "AddRes s name units whole nanos = AddRV s (NewDecimalResVal name units (NewUdec64 whole nanos))"

definition AddVcpus :: "ResValMap \<Rightarrow> uint64 \<Rightarrow> uint32 \<Rightarrow> ResValMap" where
  "AddVcpus s whole nanos = AddRes s ''vCPUs'' [] whole nanos"

definition AddRam :: "ResValMap \<Rightarrow> uint64 \<Rightarrow> ResValMap" where
  "AddRam s v = AddRes s ''RAM'' ''MB'' v 0"

definition AddDisk :: "ResValMap \<Rightarrow> uint64 \<Rightarrow> ResValMap" where
  "AddDisk s v = AddRes s ''Disk'' ''GB'' v 0"

definition AddGPU :: "ResValMap \<Rightarrow> string \<Rightarrow> uint32 \<Rightarrow> ResValMap" where
  "AddGPU s name cnt = AddRV s (NewGPURes name cnt)"

definition AddGPUs :: "ResValMap \<Rightarrow> GPUResource list \<Rightarrow> uint32 \<Rightarrow> ResValMap" where
  "AddGPUs s gpus factor = fold (\<lambda>gpu s. AddGPU s (gpu_ModelId gpu) (gpu_Count gpu * factor)) gpus s"

text \<open>\<^verbatim>\<open>val[:strings.LastIndex(val, ":")]\<close>; the value has a colon, or parsing it would have failed.\<close>

definition before_last_colon :: "string \<Rightarrow> string" where
  "before_last_colon v = rev (tl (dropWhile (\<lambda>c. c \<noteq> CHR '':'') (rev v)))"

definition AddOptRes :: "ResValMap \<Rightarrow> string \<Rightarrow> string \<Rightarrow> uint32 \<Rightarrow> ResValMap \<times> optres_error option" where
  "AddOptRes s resName v multi =
     (case ParseOptResVal v of
        Inl e \<Rightarrow> (s, Some e)
      | Inr (typ, alias, cnt) \<Rightarrow>
          let parts = [resName] @ (if typ \<noteq> [] then [typ] else []) @ (if alias \<noteq> [] then [alias] else []);
              name = Join '':'' parts;
              nres = (NewWholeResVal name [] (word_of_int cnt * ucast multi))
                \<lparr>rv_OptResMapKey := resName, rv_OptResMapSpec := before_last_colon v\<rparr>
          in (AddRV s nres, None))"

fun AddOptResMap :: "ResValMap \<Rightarrow> (string, string) gomap \<Rightarrow> uint32 \<Rightarrow> ResValMap \<times> optres_error option" where
  "AddOptResMap s [] cnt = (s, None)"
| "AddOptResMap s ((resName, v) # rest) cnt =
     (case AddOptRes s resName v cnt of
        (s', Some e) \<Rightarrow> (s', Some e)
      | (s', None) \<Rightarrow> AddOptResMap s' rest cnt)"

definition AddAllMult :: "ResValMap \<Rightarrow> ResValMap \<Rightarrow> uint32 \<Rightarrow> ResValMap" where
  "AddAllMult s other factor = fold (\<lambda>(_, oval) s. AddMult s oval factor) other s"

definition SubFloorRV :: "ResVal \<Rightarrow> ResValMap \<times> bool \<Rightarrow> ResValMap \<times> bool" where
  "SubFloorRV nres su =
     (case su of (s, underflow) \<Rightarrow>
        (case map_of s (Key nres) of
           Some existing \<Rightarrow>
             (let (v, u) = SubFloor (rv_Value existing) (rv_Value nres) underflow
              in (AList.update (Key nres) (existing\<lparr>rv_Value := v\<rparr>) s, u))
         | None \<Rightarrow> (s, underflow)))"

definition SubFloorAll :: "ResValMap \<Rightarrow> ResValMap \<Rightarrow> bool \<Rightarrow> ResValMap \<times> bool" where
  "SubFloorAll s other underflow = fold (\<lambda>(_, oval) su. SubFloorRV oval su) other (s, underflow)"

definition GetInt :: "ResValMap \<Rightarrow> string \<Rightarrow> uint64" where
  "GetInt s resName = (case map_of s resName of None \<Rightarrow> 0 | Some v \<Rightarrow> Whole (rv_Value v))"

definition Clone :: "ResValMap \<Rightarrow> ResValMap" where
  "Clone s = fold (\<lambda>(_, v) c. AddRV c v) s []"

definition SortedKeys :: "ResValMap \<Rightarrow> string list" where
  "SortedKeys s = sort (keys s)"

definition StringRV :: "ResValMap \<Rightarrow> string" where
  "StringRV s =
     Join '', '' (map (\<lambda>k. case map_of s k of
         Some res \<Rightarrow> k @ '' '' @ DecString (rv_Value res) @ rv_Units res | None \<Rightarrow> []) (SortedKeys s))"

definition AddNodeResources :: "ResValMap \<Rightarrow> NodeResources option \<Rightarrow> uint32 \<Rightarrow> ResValMap \<times> optres_error option" where
  "AddNodeResources s nr cnt =
     (case nr of None \<Rightarrow> (s, None)
      | Some n \<Rightarrow>
          AddOptResMap
            (AddGPUs (AddDisk (AddRam (AddVcpus s (nr_Vcpus n * ucast cnt) 0) (nr_Ram n * ucast cnt))
               (nr_Disk n * ucast cnt)) (nr_Gpus n) cnt)
            (entries (nr_OptResMap n)) cnt)"

definition AddNodePoolResources :: "ResValMap \<Rightarrow> NodePoolResources option \<Rightarrow> ResValMap \<times> optres_error option" where
  "AddNodePoolResources s npr =
     (case npr of None \<Rightarrow> (s, None)
      | Some n \<Rightarrow>
          AddOptResMap
            (AddGPUs (AddDisk (AddRam (AddVcpus s (Whole (TotalVcpus n)) (Nanos (TotalVcpus n)))
               (TotalMemory n)) (TotalDisk n)) (TotalGpus n) 1)
            (entries (TotalOptRes n)) 1)"

text \<open>\<^verbatim>\<open>uint32(f)\<close> of a float beyond the range is left to the hardware; here it wraps, as on amd64.\<close>

definition DivFactor :: "ResValMap \<Rightarrow> ResVal \<Rightarrow> uint32 \<times> bool" where
  "DivFactor s nres =
     (case map_of s (Key nres) of
        Some existing \<Rightarrow>
          (let nrVal = Float (rv_Value nres)
           in if nrVal = 0 then (0, False)
              else (word_of_int \<lceil>fl (Float (rv_Value existing) / nrVal)\<rceil>, True))
      | None \<Rightarrow> (0, False))"

definition DivFactorLargest :: "ResValMap \<Rightarrow> ResValMap \<Rightarrow> uint32" where
  "DivFactorLargest s other =
     fold (\<lambda>(_, oval) largest.
        let (factor, ok) = DivFactor s oval
        in if \<not> ok then largest else if factor > largest then factor else largest) other 0"

subsection \<open>Well-formed maps and the amounts they hold\<close>

definition resmap_wf :: "ResValMap \<Rightarrow> bool" where
  "resmap_wf m = (go_map m \<and> list_all (\<lambda>(k, v). k = Key v \<and> udec_valid (rv_Value v)) m)"

definition amt :: "ResValMap \<Rightarrow> string \<Rightarrow> nat" where
  "amt m k = (case map_of m k of None \<Rightarrow> 0 | Some v \<Rightarrow> nanoval (rv_Value v))"

lemma Key_update [simp]: "Key (v\<lparr>rv_Value := x\<rparr>) = Key v"
  by (simp add: Key_def)

lemma resmap_wfD:
  assumes "resmap_wf m"
  shows "go_map m" and "map_of m k = Some v \<Longrightarrow> Key v = k"
    and "map_of m k = Some v \<Longrightarrow> udec_valid (rv_Value v)"
proof -
  show "go_map m" using assms by (simp add: resmap_wf_def)
  have "Key v = k \<and> udec_valid (rv_Value v)" if "map_of m k = Some v"
    using assms map_of_SomeD[OF that] by (auto simp: resmap_wf_def list_all_iff)
  then show "map_of m k = Some v \<Longrightarrow> Key v = k"
    and "map_of m k = Some v \<Longrightarrow> udec_valid (rv_Value v)" by blast+
qed

lemma resmap_wfI:
  assumes g: "go_map m"
    and v: "\<And>k v. map_of m k = Some v \<Longrightarrow> Key v = k \<and> udec_valid (rv_Value v)"
  shows "resmap_wf m"
proof -
  have "k = Key v \<and> udec_valid (rv_Value v)" if "(k, v) \<in> set m" for k v
    using v[of k v] that unfolding go_map_entry[OF g] by blast
  then show ?thesis using g unfolding resmap_wf_def list_all_iff by blast
qed

lemma resmap_wf_update:
  assumes "resmap_wf m" "k = Key v" "udec_valid (rv_Value v)"
  shows "resmap_wf (AList.update k v m)"
proof (rule resmap_wfI)
  show "go_map (AList.update k v m)" using resmap_wfD(1)[OF assms(1)] by simp
  show "Key w = j \<and> udec_valid (rv_Value w)" if "map_of (AList.update k v m) j = Some w" for j w
  proof (cases "j = k")
    case True
    with that have "w = v" by simp
    with True assms(2,3) show ?thesis by blast
  next
    case False
    with that have "map_of m j = Some w" by simp
    with assms(1) show ?thesis by (blast dest: resmap_wfD(2,3))
  qed
qed

lemma resmap_wf_Nil [simp, wf_intros]: "resmap_wf []"
  by (simp add: resmap_wf_def)

lemma amt_Nil [simp]: "amt [] k = 0"
  by (simp add: amt_def)

lemma amt_Cons: "amt ((k', v) # m) k = (if k = k' then nanoval (rv_Value v) else amt m k)"
  by (simp add: amt_def)

lemma amt_absent: "k \<notin> set (keys m) \<Longrightarrow> amt m k = 0"
  by (simp add: amt_def)

lemma resmap_wf_Cons:
  "resmap_wf ((k, v) # m) \<longleftrightarrow>
     resmap_wf m \<and> k \<notin> set (keys m) \<and> k = Key v \<and> udec_valid (rv_Value v)"
  by (auto simp: resmap_wf_def)

lemma amt_bound: "resmap_wf m \<Longrightarrow> amt m k < udec_limit"
proof (cases "map_of m k")
  case None
  then show ?thesis by (simp add: amt_def udec_limit_def)
next
  case (Some v)
  assume "resmap_wf m"
  from nanoval_bound[OF resmap_wfD(3)[OF this Some]] Some show ?thesis by (simp add: amt_def)
qed

lemma amt_cong: "map_of m = map_of n \<Longrightarrow> amt m = amt n"
  by (simp add: amt_def fun_eq_iff)

lemma wf_AddMult [wf_intros]:
  "resmap_wf s \<Longrightarrow> udec_valid (rv_Value r) \<Longrightarrow> resmap_wf (AddMult s r f)"
  by (auto simp: AddMult_def Let_def valid_Add valid_Mult dest: resmap_wfD(2)
      intro!: resmap_wf_update split: option.split)

lemma amt_AddMult:
  assumes "resmap_wf s" "udec_valid (rv_Value r)" "amt s (Key r) + nanoval (rv_Value r) * unat f < udec_limit"
  shows "amt (AddMult s r f) k = amt s k + (if k = Key r then nanoval (rv_Value r) * unat f else 0)"
  using assms resmap_wfD(3)[OF assms(1)]
  by (auto simp: amt_def AddMult_def Let_def nanoval_Add nanoval_Mult valid_Mult split: option.splits)

lemma amt_AddRV:
  assumes "resmap_wf s" "udec_valid (rv_Value r)" "amt s (Key r) + nanoval (rv_Value r) < udec_limit"
  shows "amt (AddRV s r) k = amt s k + (if k = Key r then nanoval (rv_Value r) else 0)"
  using assms by (simp add: AddRV_def amt_AddMult)

lemma keys_AddMult: "set (keys (AddMult s r f)) = insert (Key r) (set (keys s))"
  by (auto simp: AddMult_def Let_def split: option.split)

lemma wf_AddAllMult [wf_intros]:
  "resmap_wf s \<Longrightarrow> resmap_wf other \<Longrightarrow> resmap_wf (AddAllMult s other f)"
  unfolding AddAllMult_def
  by (induction other arbitrary: s) (auto simp: resmap_wf_Cons wf_AddMult)

lemma amt_AddAllMult:
  assumes "resmap_wf s" "resmap_wf other" "\<And>k. amt s k + amt other k * unat f < udec_limit"
  shows "amt (AddAllMult s other f) k = amt s k + amt other k * unat f"
  using assms
proof (induction other arbitrary: s)
  case (Cons e other)
  obtain k' v where e: "e = (k', v)" by (cases e)
  have v: "udec_valid (rv_Value v)" "k' = Key v" "resmap_wf other" "amt other k' = 0"
    using Cons.prems(2) by (auto simp: e resmap_wf_Cons amt_absent)
  have lim: "amt s (Key v) + nanoval (rv_Value v) * unat f < udec_limit"
    using Cons.prems(3)[of k'] by (simp add: e v amt_Cons)
  let ?s = "AddMult s v f"
  have a: "amt ?s j = amt s j + (if j = k' then nanoval (rv_Value v) * unat f else 0)" for j
    using amt_AddMult[OF Cons.prems(1) v(1) lim] by (simp add: v)
  have "amt ?s j + amt other j * unat f < udec_limit" for j
    using Cons.prems(3)[of j] v(4) by (auto simp: a e amt_Cons split: if_splits)
  from Cons.IH[OF wf_AddMult[OF Cons.prems(1) v(1)] v(3) this]
  show ?case using v(4) by (simp add: AddAllMult_def e a amt_Cons)
qed (simp add: AddAllMult_def)

lemma wf_SubFloorRV:
  "resmap_wf s \<Longrightarrow> udec_valid (rv_Value r) \<Longrightarrow> resmap_wf (fst (SubFloorRV r (s, u)))"
  by (auto simp: SubFloorRV_def case_prod_beta dest: resmap_wfD(2,3)
      intro!: resmap_wf_update valid_SubFloor split: option.split)

lemma amt_SubFloorRV:
  assumes "resmap_wf s" "udec_valid (rv_Value r)"
  shows "amt (fst (SubFloorRV r (s, u))) k = amt s k - (if k = Key r then nanoval (rv_Value r) else 0)"
    and "snd (SubFloorRV r (s, u)) =
      (u \<or> Key r \<in> set (keys s) \<and> amt s (Key r) < nanoval (rv_Value r))"
    and "set (keys (fst (SubFloorRV r (s, u)))) = set (keys s)"
  using assms resmap_wfD(3)[OF assms(1)] nanoval_SubFloor[OF _ assms(2)]
  by (auto simp: amt_def SubFloorRV_def case_prod_beta map_of_SomeD_keys split: option.splits
      dest: map_of_SomeD_keys)

lemma SubFloorAll_Cons:
  "SubFloorAll s ((k, v) # other) u =
     SubFloorAll (fst (SubFloorRV v (s, u))) other (snd (SubFloorRV v (s, u)))"
  by (simp add: SubFloorAll_def)

lemma SubFloorAll_ledger:
  assumes "resmap_wf s" "resmap_wf other"
  shows "resmap_wf (fst (SubFloorAll s other u))
    \<and> (\<forall>k. amt (fst (SubFloorAll s other u)) k = amt s k - amt other k)
    \<and> set (keys (fst (SubFloorAll s other u))) = set (keys s)
    \<and> snd (SubFloorAll s other u) = (u \<or> (\<exists>k \<in> set (keys s). amt s k < amt other k))"
  using assms
proof (induction other arbitrary: s u)
  case Nil
  then show ?case by (simp add: SubFloorAll_def)
next
  case (Cons e other)
  obtain k' v where e: "e = (k', v)" by (cases e)
  have v: "udec_valid (rv_Value v)" "k' = Key v" "resmap_wf other" "amt other k' = 0"
    using Cons.prems(2) by (auto simp: e resmap_wf_Cons amt_absent)
  let ?t = "SubFloorRV v (s, u)"
  have t: "amt (fst ?t) k = amt s k - (if k = k' then nanoval (rv_Value v) else 0)" for k
    using amt_SubFloorRV(1)[OF Cons.prems(1) v(1)] by (simp add: v)
  have k: "set (keys (fst ?t)) = set (keys s)"
    using amt_SubFloorRV(3)[OF Cons.prems(1) v(1)] .
  have u: "snd ?t = (u \<or> k' \<in> set (keys s) \<and> amt s k' < nanoval (rv_Value v))"
    using amt_SubFloorRV(2)[OF Cons.prems(1) v(1)] by (simp add: v)
  note IH = Cons.IH[OF wf_SubFloorRV[OF Cons.prems(1) v(1)] v(3), of u "snd ?t"]
  have "amt (fst ?t) j < amt other j \<longleftrightarrow> j \<noteq> k' \<and> amt s j < amt (e # other) j" for j
    using v(4) by (auto simp: t e amt_Cons)
  then have "snd (SubFloorAll s (e # other) u) =
      (snd ?t \<or> (\<exists>j \<in> set (keys s). j \<noteq> k' \<and> amt s j < amt (e # other) j))"
    using IH unfolding e SubFloorAll_Cons k by simp
  also have "\<dots> = (u \<or> (\<exists>j \<in> set (keys s). amt s j < amt (e # other) j))"
    unfolding u by (auto simp: e amt_Cons)
  finally have s: "snd (SubFloorAll s (e # other) u) =
      (u \<or> (\<exists>j \<in> set (keys s). amt s j < amt (e # other) j))" .
  have "amt (fst ?t) j - amt other j = amt s j - amt (e # other) j" for j
    using v(4) by (simp add: t e amt_Cons)
  with IH s show ?case unfolding e SubFloorAll_Cons k by simp
qed

lemmas wf_SubFloorAll [wf_intros] = SubFloorAll_ledger[THEN conjunct1]

lemma amt_SubFloorAll:
  "resmap_wf s \<Longrightarrow> resmap_wf other \<Longrightarrow> amt (fst (SubFloorAll s other u)) k = amt s k - amt other k"
  using SubFloorAll_ledger by blast

lemma Mult_one [simp]: "Mult a 1 = a"
  by (simp add: Mult_def)

lemma AddRV_new: "Key r \<notin> set (keys s) \<Longrightarrow> AddRV s r = AList.update (Key r) r s"
  by (simp add: AddRV_def AddMult_def Let_def)

lemma map_of_Clone: "resmap_wf s \<Longrightarrow> map_of (Clone s) = map_of s"
proof -
  have "map_of (fold (\<lambda>(_, v) c. AddRV c v) s c) = map_of c ++ map_of s
      \<and> set (keys (fold (\<lambda>(_, v) c. AddRV c v) s c)) = set (keys c) \<union> set (keys s)"
    if "resmap_wf s" "set (keys c) \<inter> set (keys s) = {}" for c
    using that
  proof (induction s arbitrary: c)
    case (Cons e s)
    obtain k v where e: "e = (k, v)" by (cases e)
    have v: "resmap_wf s" "k = Key v" "k \<notin> set (keys s)"
      using Cons.prems(1) by (auto simp: e resmap_wf_Cons)
    have c: "AddRV c v = AList.update k v c" using Cons.prems(2) by (simp add: e v(2) AddRV_new)
    have "set (keys (AddRV c v)) \<inter> set (keys s) = {}"
      using Cons.prems(2) v(3) by (auto simp: c e)
    from Cons.IH[OF v(1) this] show ?case
      using v(3) by (auto simp: e c map_add_def fun_eq_iff split: option.split)
  qed simp
  from this[of "[]"] show "resmap_wf s \<Longrightarrow> ?thesis" by (simp add: Clone_def)
qed

lemma wf_Clone [wf_intros]: "resmap_wf s \<Longrightarrow> resmap_wf (Clone s)"
proof -
  have "resmap_wf (fold (\<lambda>(_, v) c. AddRV c v) s c)" if "resmap_wf s" "resmap_wf c" for c
    using that
    by (induction s arbitrary: c) (auto simp: resmap_wf_Cons AddRV_def wf_AddMult)
  then show "resmap_wf s \<Longrightarrow> ?thesis" by (simp add: Clone_def)
qed

lemma amt_Clone [simp]: "resmap_wf s \<Longrightarrow> amt (Clone s) k = amt s k"
  by (simp add: amt_def map_of_Clone)

subsection \<open>Iteration order\<close>

text \<open>
  The loops of \<open>AddAllMult\<close> and \<open>SubFloorAll\<close> range over a Go map. Their steps on different resources
  commute, so the maps and the underflow flag they leave do not depend on the order.
\<close>

interpretation add_loop: unordered_loop "\<lambda>(_, oval) s. AddMult s oval factor" "\<lambda>(_, oval). Key oval" map_of
  for factor
  by unfold_locales (auto simp: AddMult_def Let_def fun_eq_iff split: option.split)

lemma map_of_SubFloorRV:
  "map_of (fst (SubFloorRV r (s, u))) =
     (map_of s)(Key r := map_option (\<lambda>x. x\<lparr>rv_Value := fst (SubFloor (rv_Value x) (rv_Value r) u)\<rparr>)
       (map_of s (Key r)))"
  "snd (SubFloorRV r (s, u)) =
     (case map_of s (Key r) of None \<Rightarrow> u | Some x \<Rightarrow> snd (SubFloor (rv_Value x) (rv_Value r) u))"
  by (auto simp: SubFloorRV_def case_prod_beta fun_eq_iff split: option.split)

lemma SubFloor_flag:
  "fst (SubFloor a b u) = (if LessThan a b then a\<lparr>Whole := 0, Nanos := 0\<rparr> else Sub a b)"
  "snd (SubFloor a b u) = (u \<or> LessThan a b)"
  by (auto simp: SubFloor_def)

interpretation sub_loop: unordered_loop "\<lambda>(_, oval). SubFloorRV oval" "\<lambda>(_, oval). Key oval"
  "\<lambda>(s, u). (map_of s, u)"
proof unfold_locales
  show "(case (case e of (_, oval) \<Rightarrow> SubFloorRV oval) s of (s, u) \<Rightarrow> (map_of s, u)) =
        (case (case e of (_, oval) \<Rightarrow> SubFloorRV oval) t of (s, u) \<Rightarrow> (map_of s, u))"
    if "(case s of (s, u) \<Rightarrow> (map_of s, u)) = (case t of (s, u) \<Rightarrow> (map_of s, u))"
    for s t :: "ResValMap \<times> bool" and e :: "'a \<times> ResVal"
    using that by (cases s; cases t; cases e) (simp add: case_prod_beta map_of_SubFloorRV)
  show "(case (case e of (_, oval) \<Rightarrow> SubFloorRV oval) ((case f of (_, oval) \<Rightarrow> SubFloorRV oval) s)
           of (s, u) \<Rightarrow> (map_of s, u)) =
        (case (case f of (_, oval) \<Rightarrow> SubFloorRV oval) ((case e of (_, oval) \<Rightarrow> SubFloorRV oval) s)
           of (s, u) \<Rightarrow> (map_of s, u))"
    if "(case e of (_, oval) \<Rightarrow> Key oval) \<noteq> (case f of (_, oval) \<Rightarrow> Key oval)"
    for s :: "ResValMap \<times> bool" and e f :: "'a \<times> ResVal"
  proof -
    obtain m u where s: "s = (m, u)" by (cases s)
    have c: "SubFloorRV x (SubFloorRV y (m, u)) =
        SubFloorRV x (fst (SubFloorRV y (m, u)), snd (SubFloorRV y (m, u)))" for x y by simp
    from that show ?thesis
      unfolding s case_prod_beta
      by (simp only: c map_of_SubFloorRV prod.inject)
        (auto simp: SubFloor_flag fun_eq_iff split: option.splits)
  qed
qed

subsection \<open>Division\<close>

definition ceil_div :: "nat \<Rightarrow> nat \<Rightarrow> nat" where
  "ceil_div n d = (n + d - 1) div d"

lemma ceil_div_le_iff: "0 < d \<Longrightarrow> ceil_div n d \<le> m \<longleftrightarrow> n \<le> m * d"
proof -
  assume d: "0 < d"
  have "ceil_div n d \<le> m \<longleftrightarrow> n + d - 1 < Suc m * d"
    unfolding ceil_div_def using d by (simp add: less_Suc_eq_le[symmetric] div_less_iff_less_mult)
  then show ?thesis using d by auto
qed

lemma ceil_div_covers: "0 < d \<Longrightarrow> n \<le> ceil_div n d * d"
  using ceil_div_le_iff by blast

lemma ceiling_ceil_div:
  assumes d: "0 < d"
  shows "\<lceil>of_nat n / of_nat d :: rat\<rceil> = int (ceil_div n d)"
proof (rule antisym)
  have le: "\<lceil>of_nat n / of_nat d :: rat\<rceil> \<le> int m \<longleftrightarrow> n \<le> m * d" for m
    using d by (simp add: ceiling_le_iff divide_le_eq flip: of_nat_mult)
  show "\<lceil>of_nat n / of_nat d :: rat\<rceil> \<le> int (ceil_div n d)"
    using le ceil_div_covers[OF d] by blast
  have "- 1 < (of_nat n / of_nat d :: rat)" by (rule order_less_le_trans[of _ 0]) simp_all
  then have "0 \<le> \<lceil>of_nat n / of_nat d :: rat\<rceil>" by simp
  then obtain m where m: "\<lceil>of_nat n / of_nat d :: rat\<rceil> = int m" by (metis nonneg_int_cases)
  then show "int (ceil_div n d) \<le> \<lceil>of_nat n / of_nat d :: rat\<rceil>"
    using le[of m] ceil_div_le_iff[OF d] by simp
qed

definition node_amount :: "Udec64 \<Rightarrow> bool" where
  "node_amount v = (Nanos v = 0 \<and> unat (Whole v) < 2 ^ 53)"

lemma DivFactor_exact:
  assumes x: "map_of s (Key r) = Some x" "dec_small (rv_Value x)" and r: "node_amount (rv_Value r)"
  shows "DivFactor s r =
    (if nanoval (rv_Value r) = 0 then (0, False)
     else (of_nat (ceil_div (nanoval (rv_Value x)) (nanoval (rv_Value r))), True))"
proof -
  let ?w = "unat (Whole (rv_Value r))"
  have F: "Float (rv_Value r) = of_nat ?w" using Float_whole r by (simp add: node_amount_def)
  have n: "nanoval (rv_Value r) = ?w * 10 ^ 9" using r by (simp add: nanoval_def node_amount_def)
  show ?thesis
  proof (cases "?w = 0")
    case True
    then show ?thesis using x(1) F n by (simp add: DivFactor_def)
  next
    case False
    then have w: "0 < ?w" by simp
    have "\<lceil>fl (Float (rv_Value x) / of_nat ?w)\<rceil> = \<lceil>of_nat (nanoval (rv_Value x)) / of_nat (nanoval (rv_Value r)) :: rat\<rceil>"
      unfolding ceiling_Float_quotient[OF x(2) w] n by (simp add: mult.commute del: of_nat_unat)
    also have "\<dots> = int (ceil_div (nanoval (rv_Value x)) (nanoval (rv_Value r)))"
      using w by (intro ceiling_ceil_div) (simp add: n)
    finally show ?thesis using x(1) w
      by (simp add: DivFactor_def F n del: of_nat_unat)
  qed
qed

lemma DivFactorLargest_upper:
  "e \<in> set other \<Longrightarrow> snd (DivFactor s (snd e)) \<Longrightarrow> fst (DivFactor s (snd e)) \<le> DivFactorLargest s other"
proof -
  let ?step = "\<lambda>(_, oval) largest. let (factor, ok) = DivFactor s oval
        in if \<not> ok then largest else if factor > largest then factor else largest"
  have mono: "l \<le> fold ?step other l" for other :: ResValMap and l
  proof (induction other arbitrary: l)
    case (Cons e other)
    have "l \<le> ?step e l" by (auto simp: Let_def split: prod.split)
    also have "?step e l \<le> fold ?step other (?step e l)" by (rule Cons.IH)
    finally show ?case by simp
  qed simp
  have "fst (DivFactor s (snd e)) \<le> fold ?step other l" if "e \<in> set other" "snd (DivFactor s (snd e))" for l
    using that(1)
  proof (induction other arbitrary: l)
    case (Cons e' other)
    show ?case
    proof (cases "e = e'")
      case True
      have "fst (DivFactor s (snd e)) \<le> ?step e l"
        using that(2) by (auto simp: Let_def split: prod.splits)
      also have "?step e l \<le> fold ?step other (?step e l)" by (rule mono)
      finally show ?thesis by (simp add: True)
    qed (use Cons in simp)
  qed simp
  then show "e \<in> set other \<Longrightarrow> snd (DivFactor s (snd e)) \<Longrightarrow> ?thesis"
    unfolding DivFactorLargest_def by blast
qed

lemma DivFactorLargest_attained:
  "DivFactorLargest s other = 0 \<or>
   (\<exists>e \<in> set other. snd (DivFactor s (snd e)) \<and> fst (DivFactor s (snd e)) = DivFactorLargest s other)"
proof -
  let ?step = "\<lambda>(_, oval) largest. let (factor, ok) = DivFactor s oval
        in if \<not> ok then largest else if factor > largest then factor else largest"
  have "fold ?step other l = l \<or>
      (\<exists>e \<in> set other. snd (DivFactor s (snd e)) \<and> fst (DivFactor s (snd e)) = fold ?step other l)" for l
  proof (induction other arbitrary: l)
    case (Cons e other)
    have "?step e l = l \<or> snd (DivFactor s (snd e)) \<and> fst (DivFactor s (snd e)) = ?step e l"
      by (auto simp: Let_def split: prod.splits)
    with Cons.IH[of "?step e l"] show ?case by auto
  qed simp
  then show ?thesis unfolding DivFactorLargest_def by blast
qed

text \<open>
  The smallest number of nodes that covers every shared resource: the adjoint of multiplication,
  once no single quotient exceeds the 32-bit result.
\<close>

definition div_ready :: "ResValMap \<Rightarrow> ResValMap \<Rightarrow> bool" where
  "div_ready s node =
     (resmap_wf s \<and> resmap_wf node
      \<and> list_all (\<lambda>(_, x). dec_small (rv_Value x)) s \<and> list_all (\<lambda>(_, r). node_amount (rv_Value r)) node
      \<and> list_all (\<lambda>(k, r). amt node k = 0 \<or> ceil_div (amt s k) (amt node k) < 2 ^ 32) node)"

lemma DivFactor_ready:
  assumes "div_ready s node" "(k, r) \<in> set node"
  shows "snd (DivFactor s r) = (k \<in> set (keys s) \<and> amt node k \<noteq> 0)"
    and "snd (DivFactor s r) \<Longrightarrow> unat (fst (DivFactor s r)) = ceil_div (amt s k) (amt node k)"
proof -
  have wf: "resmap_wf s" "resmap_wf node" using assms(1) by (simp_all add: div_ready_def)
  have nk: "map_of node k = Some r" using assms(2) go_map_entry[OF resmap_wfD(1)[OF wf(2)]] by blast
  then have k: "Key r = k" "amt node k = nanoval (rv_Value r)"
    using resmap_wfD(2)[OF wf(2)] by (blast, simp add: amt_def)
  have rn: "node_amount (rv_Value r)"
    "amt node k = 0 \<or> ceil_div (amt s k) (amt node k) < 2 ^ 32"
    using assms by (auto simp: div_ready_def list_all_iff)
  have "snd (DivFactor s r) = (k \<in> set (keys s) \<and> amt node k \<noteq> 0) \<and>
      (snd (DivFactor s r) \<longrightarrow> unat (fst (DivFactor s r)) = ceil_div (amt s k) (amt node k))"
  proof (cases "map_of s k")
    case None
    then show ?thesis by (simp add: DivFactor_def k)
  next
    case (Some x)
    then have "dec_small (rv_Value x)" using assms(1) map_of_SomeD[OF Some]
      by (auto simp: div_ready_def list_all_iff)
    with Some have "DivFactor s r = (if nanoval (rv_Value r) = 0 then (0, False)
        else (of_nat (ceil_div (nanoval (rv_Value x)) (nanoval (rv_Value r))), True))"
      using k(1) by (intro DivFactor_exact rn(1)) simp_all
    moreover have "amt s k = nanoval (rv_Value x)" "k \<in> set (keys s)"
      using Some map_of_SomeD_keys[OF Some] by (simp_all add: amt_def)
    ultimately show ?thesis using rn(2) by (auto simp: k(2) unat_of_nat)
  qed
  then show "snd (DivFactor s r) = (k \<in> set (keys s) \<and> amt node k \<noteq> 0)"
    and "snd (DivFactor s r) \<Longrightarrow> unat (fst (DivFactor s r)) = ceil_div (amt s k) (amt node k)" by blast+
qed

lemma DivFactorLargest_least:
  assumes "div_ready s node"
  shows "unat (DivFactorLargest s node) \<le> m \<longleftrightarrow>
    (\<forall>k \<in> set (keys s) \<inter> set (keys node). 0 < amt node k \<longrightarrow> amt s k \<le> m * amt node k)"
proof
  assume le: "unat (DivFactorLargest s node) \<le> m"
  show "\<forall>k \<in> set (keys s) \<inter> set (keys node). 0 < amt node k \<longrightarrow> amt s k \<le> m * amt node k"
  proof (intro ballI impI)
    fix k assume k: "k \<in> set (keys s) \<inter> set (keys node)" "0 < amt node k"
    then obtain r where r: "(k, r) \<in> set node" by auto
    from DivFactor_ready[OF assms r] k
    have "snd (DivFactor s r)" "unat (fst (DivFactor s r)) = ceil_div (amt s k) (amt node k)" by auto
    with DivFactorLargest_upper[OF r, of s] le have "ceil_div (amt s k) (amt node k) \<le> m"
      by (auto simp: word_le_nat_alt)
    with k(2) show "amt s k \<le> m * amt node k" by (simp add: ceil_div_le_iff)
  qed
next
  assume all: "\<forall>k \<in> set (keys s) \<inter> set (keys node). 0 < amt node k \<longrightarrow> amt s k \<le> m * amt node k"
  show "unat (DivFactorLargest s node) \<le> m"
  proof (cases "DivFactorLargest s node = 0")
    case False
    then obtain k r where r: "(k, r) \<in> set node" "snd (DivFactor s r)"
      "fst (DivFactor s r) = DivFactorLargest s node"
      using DivFactorLargest_attained[of s node] by auto
    have "k \<in> set (keys node)" using r(1) by force
    with DivFactor_ready[OF assms r(1)] r all
    show ?thesis by (auto simp: ceil_div_le_iff)
  qed simp
qed

subsection \<open>The ledger interface\<close>

text \<open>
  What the placement code relies on: named amounts that can be added (scaled), subtracted with a
  floor, and copied, each acting on every amount separately.
\<close>

locale resource_ledger =
  fixes wf :: "'m \<Rightarrow> bool" and amount :: "'m \<Rightarrow> 'k \<Rightarrow> nat" and limit :: nat
    and add_all :: "'m \<Rightarrow> 'm \<Rightarrow> 'f \<Rightarrow> 'm" and num :: "'f \<Rightarrow> nat" and one :: 'f
    and sub_all :: "'m \<Rightarrow> 'm \<Rightarrow> 'm" and copy :: "'m \<Rightarrow> 'm"
  assumes wf_add: "wf s \<Longrightarrow> wf t \<Longrightarrow> wf (add_all s t f)"
    and wf_sub: "wf s \<Longrightarrow> wf t \<Longrightarrow> wf (sub_all s t)"
    and wf_copy: "wf s \<Longrightarrow> wf (copy s)"
    and amount_add: "wf s \<Longrightarrow> wf t \<Longrightarrow> (\<And>j. amount s j + amount t j * num f < limit) \<Longrightarrow>
      amount (add_all s t f) k = amount s k + amount t k * num f"
    and amount_sub: "wf s \<Longrightarrow> wf t \<Longrightarrow> amount (sub_all s t) k = amount s k - amount t k"
    and amount_copy: "wf s \<Longrightarrow> amount (copy s) k = amount s k"
    and num_one: "num one = 1"
begin

lemma amount_free: "wf cap \<Longrightarrow> wf used \<Longrightarrow> amount (sub_all (copy cap) used) k = amount cap k - amount used k"
  by (simp add: amount_sub amount_copy wf_copy)

lemma amount_needed:
  assumes "wf req" "wf used" "wf cap" "\<And>j. amount req j + amount used j < limit"
  shows "amount (sub_all (add_all (copy req) used one) cap) k = amount req k + amount used k - amount cap k"
  using assms by (simp add: amount_sub amount_add amount_copy wf_copy wf_add num_one)

lemma reserve_release:
  assumes "wf used" "wf req" "\<And>j. amount used j + amount req j < limit"
  shows "amount (sub_all (add_all used req one) req) k = amount used k"
  using assms by (simp add: amount_sub amount_add wf_add num_one)

end

interpretation resvals: resource_ledger resmap_wf amt udec_limit AddAllMult unat 1
  "\<lambda>s t. fst (SubFloorAll s t u)" Clone
  for u
  by unfold_locales (auto intro: wf_intros simp: amt_AddAllMult amt_SubFloorAll)

subsection \<open>Conversions keep the invariant\<close>

lemma wf_AddRV [wf_intros]: "resmap_wf s \<Longrightarrow> udec_valid (rv_Value r) \<Longrightarrow> resmap_wf (AddRV s r)"
  by (simp add: AddRV_def wf_AddMult)

lemma valid_whole [simp]: "udec_valid \<lparr>Whole = w, Nanos = 0\<rparr>"
  by (simp add: udec_valid_def)

lemma rv_Value_new [simp]:
  "rv_Value (NewDecimalResVal n u v) = v"
  "rv_Value (NewWholeResVal n u w) = \<lparr>Whole = w, Nanos = 0\<rparr>"
  "rv_Value (NewGPURes n c) = \<lparr>Whole = ucast c, Nanos = 0\<rparr>"
  by (simp_all add: NewDecimalResVal_def NewWholeResVal_def NewGPURes_def NewWholeResTypeVal_def)

lemma wf_AddRes [wf_intros]:
  "resmap_wf s \<Longrightarrow> resmap_wf (AddVcpus s w n)"
  "resmap_wf s \<Longrightarrow> resmap_wf (AddRam s w)"
  "resmap_wf s \<Longrightarrow> resmap_wf (AddDisk s w)"
  by (simp_all add: AddVcpus_def AddRam_def AddDisk_def AddRes_def wf_AddRV)

lemma wf_AddGPUs [wf_intros]: "resmap_wf s \<Longrightarrow> resmap_wf (AddGPUs s gpus f)"
  unfolding AddGPUs_def by (induction gpus arbitrary: s) (simp_all add: AddGPU_def wf_AddRV)

lemma wf_AddOptRes: "resmap_wf s \<Longrightarrow> resmap_wf (fst (AddOptRes s n v m))"
  by (auto simp: AddOptRes_def Let_def intro!: wf_AddRV split: sum.split)

lemma wf_AddOptResMap [wf_intros]: "resmap_wf s \<Longrightarrow> resmap_wf (fst (AddOptResMap s m c))"
proof (induction s m c rule: AddOptResMap.induct)
  case (2 s n v rest c)
  then show ?case using wf_AddOptRes[of s n v c] by (auto split: prod.split option.split)
qed simp

lemma wf_AddNodeResources [wf_intros]: "resmap_wf s \<Longrightarrow> resmap_wf (fst (AddNodeResources s nr c))"
  by (auto simp: AddNodeResources_def intro!: wf_intros split: option.split)

lemma wf_AddNodePoolResources [wf_intros]: "resmap_wf s \<Longrightarrow> resmap_wf (fst (AddNodePoolResources s npr))"
  by (auto simp: AddNodePoolResources_def intro!: wf_intros split: option.split)

subsection \<open>Properties\<close>

text \<open>
  \<open>ResValMap\<close> is a ledger: on well-formed maps \<open>AddAllMult\<close> adds to every amount the scaled
  amount of the other map when no sum overflows the decimal type, \<open>SubFloorAll\<close> subtracts with a floor at zero,
  keeps the set of resources and raises the underflow flag exactly when one of them was too
  small, \<open>Clone\<close> copies every entry, and all of them keep the map well-formed.
\<close>

theorem ResValMap_ledger:
  assumes "resmap_wf s" "resmap_wf other" "\<And>k. amt s k + amt other k * unat f < udec_limit"
  shows "resmap_wf (AddAllMult s other f) \<and> (\<forall>k. amt (AddAllMult s other f) k = amt s k + amt other k * unat f)
    \<and> (\<forall>u. case SubFloorAll s other u of (d, u') \<Rightarrow>
         resmap_wf d \<and> (\<forall>k. amt d k = amt s k - amt other k) \<and> set (keys d) = set (keys s)
         \<and> u' = (u \<or> (\<exists>k \<in> set (keys s). amt s k < amt other k)))
    \<and> resmap_wf (Clone s) \<and> map_of (Clone s) = map_of s"
  using assms SubFloorAll_ledger[OF assms(1,2)]
  by (simp add: wf_AddAllMult amt_AddAllMult wf_Clone map_of_Clone case_prod_beta)

theorem ResValMap_ledger_witness:
  "\<exists>k. amt (AddAllMult (AddRam [] 4) (AddRam [] 3) 2) k = 10 * 10 ^ 9"
proof -
  let ?a = "AddRam [] 4" and ?b = "AddRam [] 3"
  have v: "amt (AddRam [] w) k \<le> unat w * 10 ^ 9" for w k
    by (simp add: AddRam_def AddRes_def AddRV_def AddMult_def amt_def nanoval_def NewUdec64_def
        NewDecimalResVal_def Let_def)
  have b: "amt ?a k + amt ?b k * unat (2 :: uint32) < udec_limit" for k
    using v[of 4 k] v[of 3 k] by (simp add: udec_limit_def)
  have "amt (AddAllMult ?a ?b 2) ''RAM'' = amt ?a ''RAM'' + amt ?b ''RAM'' * unat (2 :: uint32)"
    using ResValMap_ledger[OF _ _ b] by (simp add: wf_AddRes)
  also have "\<dots> = 10 * 10 ^ 9"
    by (simp add: AddRam_def AddRes_def AddRV_def AddMult_def amt_def nanoval_def NewUdec64_def
        NewDecimalResVal_def Let_def Key_def BuildResKey_def)
  finally show ?thesis by blast
qed

text \<open>
  Go iterates over maps in an arbitrary order; for \<open>AddAllMult\<close> and \<open>SubFloorAll\<close> the order
  of the other map makes no difference to the resulting entries or to the underflow flag.
\<close>

theorem ResValMap_order_irrelevant:
  assumes "resmap_wf other" "mset other = mset other'"
  shows "map_of (AddAllMult s other f) = map_of (AddAllMult s other' f)
    \<and> map_of (fst (SubFloorAll s other u)) = map_of (fst (SubFloorAll s other' u))
    \<and> snd (SubFloorAll s other u) = snd (SubFloorAll s other' u)"
proof -
  have "map (\<lambda>(_, v). Key v) other = keys other"
    using assms(1) by (auto simp: resmap_wf_def list_all_iff)
  then have d: "distinct (map (\<lambda>(_, v). Key v) other)" using resmap_wfD(1)[OF assms(1)] by (simp only:)
  show ?thesis
    using add_loop.order_irrelevant[OF d assms(2), of f s] sub_loop.order_irrelevant[OF d assms(2), of "(s, u)"]
    by (simp add: AddAllMult_def SubFloorAll_def case_prod_beta)
qed

theorem ResValMap_order_irrelevant_witness:
  "map_of (AddAllMult [] (AddDisk (AddRam [] 1) 2) 3) = map_of (AddAllMult [] (rev (AddDisk (AddRam [] 1) 2)) 3)"
  using ResValMap_order_irrelevant[of "AddDisk (AddRam [] 1) 2" "rev (AddDisk (AddRam [] 1) 2)" "[]" 3]
  by (simp add: wf_AddRes)

text \<open>
  (C26) The floating-point division behind scaling is exact: for a need and a per-node
  amount within the stated sizes, \<open>DivFactorLargest\<close> is the least number of nodes whose combined amount
  covers the need in every resource that the need names and a node has.
\<close>

theorem DivFactorLargest_exact:
  assumes "div_ready s node"
  shows "unat (DivFactorLargest s node) = (LEAST m. \<forall>k \<in> set (keys s) \<inter> set (keys node).
    0 < amt node k \<longrightarrow> amt s k \<le> m * amt node k)"
  by (rule Least_equality[symmetric]) (simp_all only: DivFactorLargest_least[OF assms, symmetric] order_refl)

theorem DivFactorLargest_exact_witness:
  "unat (DivFactorLargest (AddVcpus (AddRam [] 9000) 7 500000000) (AddVcpus (AddRam [] 4096) 2 0)) =
    (LEAST m. \<forall>k \<in> {''vCPUs'', ''RAM''}. amt (AddVcpus (AddRam [] 9000) 7 500000000) k
       \<le> m * amt (AddVcpus (AddRam [] 4096) 2 0) k)"
proof -
  let ?s = "AddVcpus (AddRam [] 9000) 7 500000000" and ?n = "AddVcpus (AddRam [] 4096) 2 0"
  note defs = AddVcpus_def AddRam_def AddRes_def AddRV_def AddMult_def nanoval_def NewUdec64_def
    NewDecimalResVal_def Let_def Key_def BuildResKey_def DecWhole_val
  have "div_ready ?s ?n"
    by (simp add: div_ready_def wf_AddRes)
      (simp add: defs amt_def dec_small_def udec_valid_def node_amount_def ceil_div_def)
  from DivFactorLargest_exact[OF this] show ?thesis
    by (simp add: defs amt_def insert_commute)
qed

end
