(* ===== verification/ResFits.thy ===== *)
theory ResFits
  imports ResVals
begin

text \<open>
  \<^verbatim>\<open>pkg/resspec/res_fits.go\<close>: whether requested resources fit into a cluster's node pools,
  and by how many nodes a pool has to grow when they do not. The checks are functions of the same
  shape as the code; the strings that explain a refusal are values of \<open>skip_reason\<close> and
  \<open>fit_error\<close>. The locale \<open>admission\<close> extends the resource ledger with the fit check and derives
  what admission guarantees; it is interpreted on \<open>ResValsFits\<close>. The properties state when
  \<open>NodePoolFits\<close> admits a request and that the growth it proposes makes the request fit.
\<close>

subsection \<open>The model\<close>

datatype skip_reason =
    SkippedGpuPool string | SkippedCpuPool string
  | ResourceNotPresent string string | BelowMinimum string string

datatype fit_error =
    RequestedTopology optres_error | PoolResourcesUndefined string | PoolErr string fit_error
  | FlavorNotFound string | PoolResourcesErr string optres_error | RequestedTotals optres_error
  | NotEnough "string list" "skip_reason list" | CpuPoolNotMet fit_error | GpuPoolNotMet fit_error
  | RequestMissingResources | ClusterMissingResources | ClusterErr fit_error
  | RequestedResources optres_error | ClusterResources optres_error

record PoolScaleSpec =
  PoolName :: string
  NumNodesChange :: uint32
  PerNodeResources :: ResValMap

record KubeResScaleSpec =
  CPUPoolScale :: "PoolScaleSpec option"
  GPUPoolScale :: "PoolScaleSpec option"

definition zero_Udec64 :: Udec64 where "zero_Udec64 = \<lparr>Whole = 0, Nanos = 0\<rparr>"

definition ResValsFits :: "ResValMap \<Rightarrow> ResValMap \<Rightarrow> skip_reason list \<Rightarrow> fit_error option" where
  "ResValsFits reqVals freeVals skipReasons =
     (let notEnough = filter (\<lambda>resName.
            let reqVal = (case map_of reqVals resName of Some v \<Rightarrow> rv_Value v | None \<Rightarrow> zero_Udec64);
                freeVal = (case map_of freeVals resName of Some v \<Rightarrow> rv_Value v | None \<Rightarrow> zero_Udec64)
            in GreaterThan reqVal freeVal) (SortedKeys reqVals)
      in if length notEnough > 0 then Some (NotEnough notEnough skipReasons) else None)"

definition NodeResourcesToResValMap :: "NodeResources option \<Rightarrow> (optres_error, ResValMap) result" where
  "NodeResourcesToResValMap nr =
     (case AddNodeResources [] nr 1 of (_, Some e) \<Rightarrow> Err e | (resVals, None) \<Rightarrow> Ok resVals)"

definition NodePoolResourcesToResValMap :: "NodePoolResources option \<Rightarrow> (optres_error, ResValMap) result" where
  "NodePoolResourcesToResValMap npr =
     (case AddNodePoolResources [] npr of (_, Some e) \<Rightarrow> Err e | (resVals, None) \<Rightarrow> Ok resVals)"

definition TopologyToResValMap :: "NodePoolTopology option \<Rightarrow> (optres_error, ResValMap) result" where
  "TopologyToResValMap topo =
     (case topo of None \<Rightarrow> Ok []
      | Some t \<Rightarrow>
          (case AddOptResMap
              (AddGPUs (AddDisk (AddRam (AddVcpus [] (MinNodeVcpus t) 0) (MinNodeMemory t)) (MinNodeDisk t))
                 (MinNodeGpus t) 1)
              (entries (MinNodeOptRes t)) 1 of
             (_, Some e) \<Rightarrow> Err e
           | (resVals, None) \<Rightarrow> Ok resVals))"

definition GetInfraNodeResources :: "NodeResources \<Rightarrow> FlavorLookup \<Rightarrow> (fit_error, NodeResources) result" where
  "GetInfraNodeResources nr flavorLookup =
     (if nr_InfraNodeFlavor nr \<noteq> [] then
        (case map_of flavorLookup (nr_InfraNodeFlavor nr) of
           None \<Rightarrow> Err (FlavorNotFound (nr_InfraNodeFlavor nr))
         | Some flavorInfo \<Rightarrow>
             Ok (zero_NodeResources\<lparr>nr_Vcpus := fi_Vcpus flavorInfo, nr_Ram := fi_Ram flavorInfo,
               nr_Disk := fi_Disk flavorInfo, nr_Gpus := fi_Gpus flavorInfo,
               nr_OptResMap := nr_OptResMap nr\<rparr>))
      else Ok nr)"

text \<open>The loop over the sorted keys of the per-node minimums, up to the first one not met.\<close>

fun check_mins :: "string \<Rightarrow> ResValMap \<Rightarrow> ResValMap \<Rightarrow> string list \<Rightarrow> skip_reason option" where
  "check_mins pool reqMins infraResCounts [] = None"
| "check_mins pool reqMins infraResCounts (resName # names) =
     (let reqMin = (case map_of reqMins resName of Some v \<Rightarrow> rv_Value v | None \<Rightarrow> zero_Udec64)
      in case map_of infraResCounts resName of
           None \<Rightarrow> Some (ResourceNotPresent pool resName)
         | Some infraCount \<Rightarrow>
             if LessThan (rv_Value infraCount) reqMin then Some (BelowMinimum pool resName)
             else check_mins pool reqMins infraResCounts names)"

text \<open>What the body of the pool loop decides for one pool: an error, a reason to skip it, or its node resources.\<close>

datatype pool_verdict = PoolFail fit_error | PoolSkip skip_reason | PoolUse ResValMap

definition check_pool :: "ResValMap \<Rightarrow> uint64 \<Rightarrow> FlavorLookup \<Rightarrow> bool \<Rightarrow> NodePool \<Rightarrow> pool_verdict" where
  "check_pool reqMins reqsGpuCount flavorLookup clusterSpecified pool =
     (case np_NodeResources pool of
        None \<Rightarrow> PoolFail (PoolResourcesUndefined (np_Name pool))
      | Some nr \<Rightarrow>
          let poolGpuCount = NodeResourcesGPUCount (Some nr)
          in if reqsGpuCount = 0 \<and> poolGpuCount > 0 \<and> \<not> clusterSpecified
               then PoolSkip (SkippedGpuPool (np_Name pool))
             else if reqsGpuCount > 0 \<and> poolGpuCount = 0 then PoolSkip (SkippedCpuPool (np_Name pool))
             else case GetInfraNodeResources nr flavorLookup of
               Inl e \<Rightarrow> PoolFail (PoolErr (np_Name pool) e)
             | Inr infraRes \<Rightarrow>
                 (case NodeResourcesToResValMap (Some infraRes) of
                    Inl e \<Rightarrow> PoolFail (PoolResourcesErr (np_Name pool) e)
                  | Inr infraResCounts \<Rightarrow>
                      (case check_mins (np_Name pool) reqMins infraResCounts (SortedKeys reqMins) of
                         Some r \<Rightarrow> PoolSkip r
                       | None \<Rightarrow> PoolUse infraResCounts)))"

record pools_state =
  ps_total :: ResValMap
  ps_reasons :: "skip_reason list"
  ps_scalable :: "(NodePool \<times> ResValMap) option"

fun pools_loop :: "(NodePool \<Rightarrow> pool_verdict) \<Rightarrow> NodePool list \<Rightarrow> pools_state \<Rightarrow> (fit_error, pools_state) result" where
  "pools_loop check [] st = Ok st"
| "pools_loop check (pool # pools) st =
     (case check pool of
        PoolFail e \<Rightarrow> Err e
      | PoolSkip r \<Rightarrow> pools_loop check pools (st\<lparr>ps_reasons := ps_reasons st @ [r]\<rparr>)
      | PoolUse infraResCounts \<Rightarrow>
          let st1 = (if np_Scalable pool \<and> ps_scalable st = None
                     then st\<lparr>ps_scalable := Some (pool, infraResCounts)\<rparr> else st)
          in pools_loop check pools
               (st1\<lparr>ps_total := AddAllMult (ps_total st1) infraResCounts (np_NumNodes pool)\<rparr>))"

text \<open>
  The part of \<open>NodePoolFits\<close> after the loop. The result is the scale spec, the free resources
  (\<^verbatim>\<open>nil\<close> is the empty map) and the error.
\<close>

definition decide_fit ::
  "NodePoolResources \<Rightarrow> ResValMap \<Rightarrow> pools_state \<Rightarrow> PoolScaleSpec option \<times> ResValMap \<times> fit_error option" where
  "decide_fit reqs used st =
     (case NodePoolResourcesToResValMap (Some reqs) of
        Inl e \<Rightarrow> (None, [], Some (RequestedTotals e))
      | Inr reqTotals \<Rightarrow>
          let (free, underflow) = SubFloorAll (Clone (ps_total st)) used False
          in case ResValsFits reqTotals free (ps_reasons st) of
               None \<Rightarrow> (None, free, None)
             | Some fitsErr \<Rightarrow>
                 (case ps_scalable st of
                    None \<Rightarrow> (None, free, Some fitsErr)
                  | Some (scalablePool, scalablePoolNodeRes) \<Rightarrow>
                      let req = AddAllMult (Clone reqTotals) used 1;
                          (req, _) = SubFloorAll req (ps_total st) underflow;
                          numNodes = DivFactorLargest req scalablePoolNodeRes
                      in (Some \<lparr>PoolName = np_Name scalablePool, NumNodesChange = numNodes,
                            PerNodeResources = scalablePoolNodeRes\<rparr>, free, Some fitsErr)))"

definition NodePoolFits ::
  "NodePoolResources \<Rightarrow> ResValMap \<Rightarrow> NodePool list \<Rightarrow> FlavorLookup \<Rightarrow> bool \<Rightarrow>
   PoolScaleSpec option \<times> ResValMap \<times> fit_error option" where
  "NodePoolFits reqs used nodePools flavorLookup clusterSpecified =
     (case TopologyToResValMap (Some (Topology reqs)) of
        Inl e \<Rightarrow> (None, [], Some (RequestedTopology e))
      | Inr reqMins \<Rightarrow>
          (case pools_loop (check_pool reqMins (NodePoolResourcesGPUCount (Some reqs)) flavorLookup clusterSpecified)
                  nodePools \<lparr>ps_total = [], ps_reasons = [], ps_scalable = None\<rparr> of
             Inl e \<Rightarrow> (None, [], Some e)
           | Inr st \<Rightarrow> decide_fit reqs used st))"

definition KubernetesResourcesFits ::
  "ClusterInst \<Rightarrow> KubernetesResources \<Rightarrow> ResValMap \<Rightarrow> ResValMap \<Rightarrow> FlavorLookup \<Rightarrow> bool \<Rightarrow>
   KubeResScaleSpec option \<times> ResValMap \<times> fit_error option" where
  "KubernetesResourcesFits clusterInst reqs cpuUsed gpuUsed flavorLookup clusterSpecified =
     (let kubeSS = \<lparr>CPUPoolScale = None, GPUPoolScale = None\<rparr>; free = []; fitsErr = None;
          (kubeSS, free, fitsErr) =
            (case CpuPool reqs of None \<Rightarrow> (kubeSS, free, fitsErr)
             | Some pool \<Rightarrow>
                 let (ss, cpufree, err) =
                       NodePoolFits pool cpuUsed (ci_NodePools clusterInst) flavorLookup clusterSpecified
                 in (kubeSS\<lparr>CPUPoolScale := ss\<rparr>, AddAllMult free cpufree 1,
                     case err of Some e \<Rightarrow> Some (CpuPoolNotMet e) | None \<Rightarrow> fitsErr));
          (kubeSS, free, fitsErr) =
            (case GpuPool reqs of None \<Rightarrow> (kubeSS, free, fitsErr)
             | Some pool \<Rightarrow>
                 let (ss, gpufree, err) =
                       NodePoolFits pool gpuUsed (ci_NodePools clusterInst) flavorLookup clusterSpecified
                 in (kubeSS\<lparr>GPUPoolScale := ss\<rparr>, AddAllMult free gpufree 1,
                     case err of Some e \<Rightarrow> (if fitsErr = None then Some (GpuPoolNotMet e) else fitsErr)
                     | None \<Rightarrow> fitsErr))
      in if fitsErr = None then (None, free, None)
         else if CPUPoolScale kubeSS \<noteq> None \<or> GPUPoolScale kubeSS \<noteq> None then (Some kubeSS, free, fitsErr)
         else (None, free, fitsErr))"

definition NodeResourcesFits ::
  "ClusterInst \<Rightarrow> NodeResources option \<Rightarrow> ResValMap \<Rightarrow> FlavorLookup \<Rightarrow> fit_error option" where
  "NodeResourcesFits clusterInst reqs used flavorLookup =
     (if reqs = None then Some RequestMissingResources
      else case ci_NodeResources clusterInst of
        None \<Rightarrow> Some ClusterMissingResources
      | Some nr \<Rightarrow>
          (case GetInfraNodeResources nr flavorLookup of
             Inl e \<Rightarrow> Some (ClusterErr e)
           | Inr clusterInfraRes \<Rightarrow>
               (case NodeResourcesToResValMap reqs of
                  Inl e \<Rightarrow> Some (RequestedResources e)
                | Inr reqVals \<Rightarrow>
                    (case NodeResourcesToResValMap (Some clusterInfraRes) of
                       Inl e \<Rightarrow> Some (ClusterResources e)
                     | Inr clusterVals \<Rightarrow>
                         ResValsFits reqVals (fst (SubFloorAll (Clone clusterVals) used False)) []))))"

subsection \<open>Admission\<close>

lemma valid_zero [simp]: "udec_valid zero_Udec64" "nanoval zero_Udec64 = 0"
  by (simp_all add: zero_Udec64_def nanoval_def udec_valid_def)

lemma ResValsFits_iff:
  assumes "resmap_wf req" "resmap_wf free"
  shows "ResValsFits req free rs = None \<longleftrightarrow> (\<forall>k. amt req k \<le> amt free k)"
proof -
  have val: "udec_valid (case map_of m k of Some v \<Rightarrow> rv_Value v | None \<Rightarrow> zero_Udec64)
      \<and> nanoval (case map_of m k of Some v \<Rightarrow> rv_Value v | None \<Rightarrow> zero_Udec64) = amt m k"
    if "resmap_wf m" for m k
    using resmap_wfD(3)[OF that, of k] by (auto simp: amt_def split: option.split)
  have "ResValsFits req free rs = None \<longleftrightarrow> (\<forall>k \<in> set (keys req). amt req k \<le> amt free k)"
    using val[OF assms(1)] val[OF assms(2)]
    by (simp add: ResValsFits_def Let_def SortedKeys_def GreaterThan_iff not_less filter_empty_conv)
  also have "\<dots> \<longleftrightarrow> (\<forall>k. amt req k \<le> amt free k)"
    using amt_absent[of _ req] by (metis le0)
  finally show ?thesis .
qed

text \<open>A ledger with a fit check: what it means to admit a request against a capacity already partly used.\<close>

locale admission = resource_ledger +
  fixes fits :: "'a \<Rightarrow> 'a \<Rightarrow> bool"
  assumes fits_iff: "wf req \<Longrightarrow> wf free \<Longrightarrow> fits req free \<longleftrightarrow> (\<forall>k. amount req k \<le> amount free k)"
begin

lemma admit_iff:
  assumes "wf cap" "wf used" "wf req"
  shows "fits req (sub_all (copy cap) used) \<longleftrightarrow>
    (\<forall>k. amount req k = 0 \<or> amount req k + amount used k \<le> amount cap k)"
proof -
  have arith: "r \<le> c - u \<longleftrightarrow> r = 0 \<or> r + u \<le> c" for r c u :: nat by linarith
  show ?thesis using assms by (simp add: fits_iff amount_free wf_sub wf_copy arith)
qed

lemma admit_keeps:
  assumes "wf cap" "wf used" "wf req" "fits req (sub_all (copy cap) used)"
    and used: "\<And>k. amount used k \<le> amount cap k" and "\<And>k. amount cap k < limit"
  shows "amount (add_all used req one) k \<le> amount cap k"
proof -
  have le: "amount used j + amount req j \<le> amount cap j" for j
    using assms(4)[unfolded admit_iff[OF assms(1,2,3)]] used[of j] by (metis add.commute add_0)
  then have "amount used j + amount req j < limit" for j
    using assms(6) by (meson le_less_trans)
  with le show ?thesis using assms(2,3) by (simp add: amount_add num_one)
qed

end

interpretation placement: admission resmap_wf amt udec_limit AddAllMult unat 1
  "\<lambda>s t. fst (SubFloorAll s t u)" Clone "\<lambda>req free. ResValsFits req free rs = None"
  for u rs
  by unfold_locales (rule ResValsFits_iff)

lemma wf_NodeResourcesToResValMap [wf_intros]: "NodeResourcesToResValMap nr = Inr m \<Longrightarrow> resmap_wf m"
  using wf_AddNodeResources[of "[]" nr 1]
  by (auto simp: NodeResourcesToResValMap_def split: prod.splits option.splits)

lemma wf_NodePoolResourcesToResValMap [wf_intros]: "NodePoolResourcesToResValMap nr = Inr m \<Longrightarrow> resmap_wf m"
  using wf_AddNodePoolResources[of "[]" nr]
  by (auto simp: NodePoolResourcesToResValMap_def split: prod.splits option.splits)

lemma check_pool_use:
  assumes "check_pool mins g lk cs p = PoolUse m"
  obtains nr infra where "np_NodeResources p = Some nr" "GetInfraNodeResources nr lk = Inr infra"
    "NodeResourcesToResValMap (Some infra) = Inr m"
  using assms by (auto simp: check_pool_def Let_def split: option.splits if_splits sum.splits)

lemma wf_check_pool: "check_pool mins g lk cs p = PoolUse m \<Longrightarrow> resmap_wf m"
  by (metis check_pool_use wf_NodeResourcesToResValMap)

subsection \<open>The pool loop\<close>

text \<open>The combined capacity of the pools the check admits, per resource.\<close>

definition pool_amount :: "(NodePool \<Rightarrow> pool_verdict) \<Rightarrow> NodePool \<Rightarrow> string \<Rightarrow> nat" where
  "pool_amount check p k = (case check p of PoolUse m \<Rightarrow> amt m k * unat (np_NumNodes p) | _ \<Rightarrow> 0)"

definition capacity :: "(NodePool \<Rightarrow> pool_verdict) \<Rightarrow> NodePool list \<Rightarrow> string \<Rightarrow> nat" where
  "capacity check pools k = (\<Sum>p\<leftarrow>pools. pool_amount check p k)"

definition scalable_pool :: "(NodePool \<Rightarrow> pool_verdict) \<Rightarrow> NodePool \<Rightarrow> bool" where
  "scalable_pool check p = (np_Scalable p \<and> (case check p of PoolUse _ \<Rightarrow> True | _ \<Rightarrow> False))"

definition use_amounts :: "(NodePool \<Rightarrow> pool_verdict) \<Rightarrow> NodePool \<Rightarrow> NodePool \<times> ResValMap" where
  "use_amounts check p = (p, case check p of PoolUse m \<Rightarrow> m | _ \<Rightarrow> [])"

lemma pools_loop_ok:
  assumes "\<And>p e. p \<in> set pools \<Longrightarrow> check p \<noteq> PoolFail e"
    and "\<And>p m. p \<in> set pools \<Longrightarrow> check p = PoolUse m \<Longrightarrow> resmap_wf m"
    and "resmap_wf (ps_total st)" "\<And>k. amt (ps_total st) k + capacity check pools k < udec_limit"
  shows "\<exists>st'. pools_loop check pools st = Inr st' \<and> resmap_wf (ps_total st')
    \<and> (\<forall>k. amt (ps_total st') k = amt (ps_total st) k + capacity check pools k)
    \<and> ps_scalable st' = (if ps_scalable st \<noteq> None then ps_scalable st
         else map_option (use_amounts check) (find (scalable_pool check) pools))"
  using assms
proof (induction pools arbitrary: st)
  case Nil
  then show ?case by (cases "ps_scalable st") (simp_all add: capacity_def)
next
  case (Cons p pools)
  show ?case
  proof (cases "check p")
    case (PoolFail e)
    then show ?thesis using Cons.prems(1)[of p e] by simp
  next
    case (PoolSkip r)
    let ?st = "st\<lparr>ps_reasons := ps_reasons st @ [r]\<rparr>"
    have c: "capacity check (p # pools) k = capacity check pools k" for k
      by (simp add: capacity_def pool_amount_def PoolSkip)
    have n: "\<not> scalable_pool check p" by (simp add: scalable_pool_def PoolSkip)
    have "resmap_wf (ps_total ?st)" "\<And>k. amt (ps_total ?st) k + capacity check pools k < udec_limit"
      using Cons.prems(3,4) c by simp_all
    from Cons.IH[OF _ _ this] Cons.prems(1,2)
    obtain st' where st': "pools_loop check pools ?st = Inr st'" "resmap_wf (ps_total st')"
      "\<forall>k. amt (ps_total st') k = amt (ps_total ?st) k + capacity check pools k"
      "ps_scalable st' = (if ps_scalable ?st \<noteq> None then ps_scalable ?st
         else map_option (use_amounts check) (find (scalable_pool check) pools))"
      by (metis list.set_intros(2))
    show ?thesis
      unfolding c by (intro exI[of _ st']) (use st' n in \<open>simp add: PoolSkip\<close>)
  next
    case (PoolUse m)
    let ?st1 = "if np_Scalable p \<and> ps_scalable st = None then st\<lparr>ps_scalable := Some (p, m)\<rparr> else st"
    let ?st = "?st1\<lparr>ps_total := AddAllMult (ps_total st) m (np_NumNodes p)\<rparr>"
    have wf: "resmap_wf m" by (rule Cons.prems(2)[OF _ PoolUse]) simp
    have c: "capacity check (p # pools) k = amt m k * unat (np_NumNodes p) + capacity check pools k" for k
      by (simp add: capacity_def pool_amount_def PoolUse)
    have lim: "amt (ps_total st) k + amt m k * unat (np_NumNodes p) < udec_limit" for k
      using Cons.prems(4)[of k] by (simp add: c)
    have a: "amt (ps_total ?st) k = amt (ps_total st) k + amt m k * unat (np_NumNodes p)" for k
      using amt_AddAllMult[OF Cons.prems(3) wf lim] by simp
    have wf': "resmap_wf (ps_total ?st)" using wf_AddAllMult[OF Cons.prems(3) wf] by simp
    have "amt (ps_total ?st) k + capacity check pools k < udec_limit" for k
      using Cons.prems(4)[of k] by (simp only: a c add.assoc)
    from Cons.IH[OF _ _ wf' this] Cons.prems(1,2)
    obtain st' where st': "pools_loop check pools ?st = Inr st'" "resmap_wf (ps_total st')"
      "\<forall>k. amt (ps_total st') k = amt (ps_total ?st) k + capacity check pools k"
      "ps_scalable st' = (if ps_scalable ?st \<noteq> None then ps_scalable ?st
         else map_option (use_amounts check) (find (scalable_pool check) pools))"
      by (metis list.set_intros(2))
    have "pools_loop check (p # pools) st = Inr st'"
      using st'(1) by (cases "np_Scalable p \<and> ps_scalable st = None") (auto simp: PoolUse Let_def)
    moreover have "ps_scalable st' = (if ps_scalable st \<noteq> None then ps_scalable st
         else map_option (use_amounts check) (find (scalable_pool check) (p # pools)))"
      unfolding st'(4) by (auto simp: scalable_pool_def use_amounts_def PoolUse)
    ultimately show ?thesis using st'(2,3) unfolding a c by (simp add: add.assoc)
  qed
qed

text \<open>The state the loop ends in when \<open>NodePoolFits\<close> runs it, and its amounts.\<close>

abbreviation pools_start :: pools_state where
  "pools_start \<equiv> \<lparr>ps_total = [], ps_reasons = [], ps_scalable = None\<rparr>"

definition fits_check :: "NodePoolResources \<Rightarrow> FlavorLookup \<Rightarrow> bool \<Rightarrow> NodePool \<Rightarrow> pool_verdict" where
  "fits_check reqs lk cs =
     check_pool (case TopologyToResValMap (Some (Topology reqs)) of Inl _ \<Rightarrow> [] | Inr m \<Rightarrow> m)
       (NodePoolResourcesGPUCount (Some reqs)) lk cs"

text \<open>Inputs on which the check runs to the comparison: everything converts and no capacity overflows.\<close>

definition fits_ready :: "NodePoolResources \<Rightarrow> ResValMap \<Rightarrow> NodePool list \<Rightarrow> FlavorLookup \<Rightarrow> bool \<Rightarrow> bool" where
  "fits_ready reqs used pools lk cs =
     (is_ok (TopologyToResValMap (Some (Topology reqs))) \<and> is_ok (NodePoolResourcesToResValMap (Some reqs))
      \<and> resmap_wf used
      \<and> (\<forall>p \<in> set pools. case fits_check reqs lk cs p of PoolFail _ \<Rightarrow> False | _ \<Rightarrow> True)
      \<and> (\<forall>k. capacity (fits_check reqs lk cs) pools k < udec_limit))"

definition requested :: "NodePoolResources \<Rightarrow> string \<Rightarrow> nat" where
  "requested reqs k = (case NodePoolResourcesToResValMap (Some reqs) of Inl _ \<Rightarrow> 0 | Inr m \<Rightarrow> amt m k)"

lemma fits_ready_loop:
  assumes "fits_ready reqs used pools lk cs"
  obtains mins req st where
    "TopologyToResValMap (Some (Topology reqs)) = Inr mins"
    "NodePoolResourcesToResValMap (Some reqs) = Inr req" "resmap_wf req" "amt req = requested reqs"
    "pools_loop (check_pool mins (NodePoolResourcesGPUCount (Some reqs)) lk cs) pools pools_start = Inr st"
    "resmap_wf (ps_total st)" "amt (ps_total st) = capacity (fits_check reqs lk cs) pools"
    "ps_scalable st =
       map_option (use_amounts (fits_check reqs lk cs)) (find (scalable_pool (fits_check reqs lk cs)) pools)"
proof -
  let ?chk = "fits_check reqs lk cs"
  obtain mins where m: "TopologyToResValMap (Some (Topology reqs)) = Inr mins"
    using assms by (auto simp: fits_ready_def elim: is_okE)
  obtain req where r: "NodePoolResourcesToResValMap (Some reqs) = Inr req"
    using assms by (auto simp: fits_ready_def elim: is_okE)
  have c: "?chk = check_pool mins (NodePoolResourcesGPUCount (Some reqs)) lk cs"
    by (simp add: fits_check_def m)
  have nf: "?chk p \<noteq> PoolFail e" if "p \<in> set pools" for p e
    using assms that by (auto simp: fits_ready_def split: pool_verdict.splits)
  have wf: "resmap_wf x" if "p \<in> set pools" "?chk p = PoolUse x" for p x
    using that(2) by (auto simp: fits_check_def intro: wf_check_pool)
  have lim: "amt (ps_total pools_start) k + capacity ?chk pools k < udec_limit" for k
    using assms by (simp add: fits_ready_def)
  have 0: "resmap_wf (ps_total pools_start)" by simp
  have "\<exists>st'. pools_loop ?chk pools pools_start = Inr st' \<and> resmap_wf (ps_total st')
      \<and> (\<forall>k. amt (ps_total st') k = amt (ps_total pools_start) k + capacity ?chk pools k)
      \<and> ps_scalable st' = (if ps_scalable pools_start \<noteq> None then ps_scalable pools_start
           else map_option (use_amounts ?chk) (find (scalable_pool ?chk) pools))"
    by (rule pools_loop_ok, erule nf, erule (1) wf, rule 0, rule lim)
  then obtain st where
    "pools_loop ?chk pools pools_start = Inr st" "resmap_wf (ps_total st)"
    "\<forall>k. amt (ps_total st) k = capacity ?chk pools k"
    "ps_scalable st = map_option (use_amounts ?chk) (find (scalable_pool ?chk) pools)"
    by auto
  moreover have "amt req = requested reqs" by (simp add: requested_def r fun_eq_iff)
  ultimately show thesis
    using that[OF m r] wf_NodePoolResourcesToResValMap[OF r] by (simp add: c fun_eq_iff)
qed

lemma NodePoolFits_result:
  assumes "fits_ready reqs used pools lk cs"
  shows "snd (snd (NodePoolFits reqs used pools lk cs)) = None \<longleftrightarrow>
      (\<forall>k. requested reqs k = 0 \<or>
           requested reqs k + amt used k \<le> capacity (fits_check reqs lk cs) pools k)"
    and "amt (fst (snd (NodePoolFits reqs used pools lk cs))) k =
      capacity (fits_check reqs lk cs) pools k - amt used k"
proof -
  have wu: "resmap_wf used" using assms by (simp add: fits_ready_def)
  from assms obtain mins req st where r:
    "TopologyToResValMap (Some (Topology reqs)) = Inr mins"
    "NodePoolResourcesToResValMap (Some reqs) = Inr req" "resmap_wf req" "amt req = requested reqs"
    "pools_loop (check_pool mins (NodePoolResourcesGPUCount (Some reqs)) lk cs) pools pools_start = Inr st"
    "resmap_wf (ps_total st)" "amt (ps_total st) = capacity (fits_check reqs lk cs) pools"
    by (rule fits_ready_loop)
  let ?free = "fst (SubFloorAll (Clone (ps_total st)) used False)"
  have "snd (snd (NodePoolFits reqs used pools lk cs)) = ResValsFits req ?free (ps_reasons st)"
    "fst (snd (NodePoolFits reqs used pools lk cs)) = ?free"
    by (auto simp: NodePoolFits_def decide_fit_def r case_prod_beta Let_def split: option.split)
  then show "snd (snd (NodePoolFits reqs used pools lk cs)) = None \<longleftrightarrow>
      (\<forall>k. requested reqs k = 0 \<or>
           requested reqs k + amt used k \<le> capacity (fits_check reqs lk cs) pools k)"
    and "amt (fst (snd (NodePoolFits reqs used pools lk cs))) k =
      capacity (fits_check reqs lk cs) pools k - amt used k"
    using placement.admit_iff[OF r(6) wu r(3)] resvals.amount_free[OF r(6) wu] r(4,7) by simp_all
qed

subsection \<open>Scaling a pool\<close>

definition whole_map :: "ResValMap \<Rightarrow> bool" where
  "whole_map m = list_all (\<lambda>(_, v). Nanos (rv_Value v) = 0) m"

lemma whole_map_update:
  "whole_map m \<Longrightarrow> Nanos (rv_Value v) = 0 \<Longrightarrow> whole_map (AList.update k v m)"
  unfolding whole_map_def by (induction m) auto

lemma whole_AddRV: "whole_map s \<Longrightarrow> Nanos (rv_Value r) = 0 \<Longrightarrow> whole_map (AddRV s r)"
proof -
  assume s: "whole_map s" and r: "Nanos (rv_Value r) = 0"
  have "Nanos (Add (rv_Value x) (rv_Value r)) = 0" if "map_of s (Key r) = Some x" for x
    using s r map_of_SomeD[OF that] by (auto simp: whole_map_def list_all_iff Add_def Let_def)
  with s r show ?thesis
    by (auto simp: AddRV_def AddMult_def Let_def intro: whole_map_update split: option.split)
qed

lemma whole_AddRes:
  "whole_map s \<Longrightarrow> whole_map (AddVcpus s w 0)"
  "whole_map s \<Longrightarrow> whole_map (AddRam s w)"
  "whole_map s \<Longrightarrow> whole_map (AddDisk s w)"
  by (simp_all add: AddVcpus_def AddRam_def AddDisk_def AddRes_def NewUdec64_def whole_AddRV)

lemma whole_AddGPUs: "whole_map s \<Longrightarrow> whole_map (AddGPUs s gpus f)"
  unfolding AddGPUs_def by (induction gpus arbitrary: s) (simp_all add: AddGPU_def whole_AddRV)

lemma whole_AddOptResMap: "whole_map s \<Longrightarrow> whole_map (fst (AddOptResMap s m c))"
proof (induction s m c rule: AddOptResMap.induct)
  case (2 s n v rest c)
  have "whole_map (fst (AddOptRes s n v c))"
    using 2(2) by (auto simp: AddOptRes_def Let_def intro!: whole_AddRV split: sum.split)
  then show ?case using 2 by (auto split: prod.split option.split)
qed simp

lemma whole_NodeResources: "NodeResourcesToResValMap nr = Inr m \<Longrightarrow> whole_map m"
proof -
  have "whole_map (fst (AddNodeResources [] nr 1))"
    by (auto simp: AddNodeResources_def intro!: whole_AddRes whole_AddGPUs whole_AddOptResMap
        split: option.split) (simp_all add: whole_map_def)
  then show "NodeResourcesToResValMap nr = Inr m \<Longrightarrow> ?thesis"
    by (auto simp: NodeResourcesToResValMap_def split: prod.splits option.splits)
qed

lemma node_amountI:
  assumes "whole_map m" "(k, v) \<in> set m" "go_map m" "amt m k < 2 ^ 53 * 10 ^ 9"
  shows "node_amount (rv_Value v)"
proof -
  have n: "Nanos (rv_Value v) = 0" using assms(1,2) by (auto simp: whole_map_def list_all_iff)
  have "map_of m k = Some v" using assms(2) go_map_entry[OF assms(3)] by blast
  then have "nanoval (rv_Value v) < 2 ^ 53 * 10 ^ 9" using assms(4) by (simp add: amt_def)
  then show ?thesis using n by (simp add: node_amount_def nanoval_def)
qed

text \<open>Amounts the floating-point division handles exactly, as a number of nanos.\<close>

definition scale_amount :: "nat \<Rightarrow> bool" where
  "scale_amount n = (n < 2 ^ 20 * 10 ^ 9 \<or> 10 ^ 9 dvd n \<and> n < 2 ^ 32 * 10 ^ 9)"

lemma dec_small_scale: "udec_valid v \<Longrightarrow> scale_amount (nanoval v) \<Longrightarrow> dec_small v"
proof -
  assume v: "udec_valid v" and s: "scale_amount (nanoval v)"
  from s consider "nanoval v < 2 ^ 20 * 10 ^ 9" | "10 ^ 9 dvd nanoval v" "nanoval v < 2 ^ 32 * 10 ^ 9"
    unfolding scale_amount_def by blast
  then show ?thesis
  proof cases
    case 1
    then show ?thesis using v by (simp add: dec_small_def nanoval_def)
  next
    case 2
    then have "10 ^ 9 dvd unat (Nanos v)" by (simp add: nanoval_def dvd_add_right_iff)
    then have "unat (Nanos v) = 0" using v by (auto simp: udec_valid_def dest: dvd_imp_le)
    then show ?thesis using 2(2) v by (simp add: dec_small_def nanoval_def unat_eq_zero)
  qed
qed

lemma ceil_div_scale:
  assumes "scale_amount n" "10 ^ 9 \<le> d"
  shows "ceil_div n d < 2 ^ 32"
proof -
  have "n \<le> (2 ^ 32 - 1) * 10 ^ 9"
    using assms(1) unfolding scale_amount_def by (auto elim!: dvdE)
  also have "\<dots> \<le> (2 ^ 32 - 1) * d" using assms(2) by (rule mult_le_mono2)
  finally have "ceil_div n d \<le> 2 ^ 32 - 1" using assms(2) by (subst ceil_div_le_iff) auto
  then show ?thesis by simp
qed

definition grow_pool :: "string \<Rightarrow> uint32 \<Rightarrow> NodePool list \<Rightarrow> NodePool list" where
  "grow_pool name n = map (\<lambda>p. if np_Name p = name then p\<lparr>np_NumNodes := np_NumNodes p + n\<rparr> else p)"

lemma fits_check_NumNodes [simp]:
  "fits_check reqs lk cs (p\<lparr>np_NumNodes := n\<rparr>) = fits_check reqs lk cs p"
proof -
  have "np_Name (p\<lparr>np_NumNodes := n\<rparr>) = np_Name p"
    "np_NodeResources (p\<lparr>np_NumNodes := n\<rparr>) = np_NodeResources p" by simp_all
  then show ?thesis unfolding fits_check_def check_pool_def by (simp only:)
qed

lemma capacity_grow:
  assumes "distinct (map np_Name pools)" "p \<in> set pools" "fits_check reqs lk cs p = PoolUse m"
    and "unat (np_NumNodes p) + unat n < 2 ^ 32"
  shows "capacity (fits_check reqs lk cs) (grow_pool (np_Name p) n pools) k =
    capacity (fits_check reqs lk cs) pools k + amt m k * unat n"
proof -
  have other: "capacity (fits_check reqs lk cs) (grow_pool a n ps) k = capacity (fits_check reqs lk cs) ps k"
    if "a \<notin> np_Name ` set ps" for a ps
    using that by (induction ps) (auto simp: capacity_def grow_pool_def)
  show ?thesis using assms(1,2)
  proof (induction pools)
    case (Cons q pools)
    show ?case
    proof (cases "p = q")
      case True
      then have "np_Name p \<notin> np_Name ` set pools" using Cons.prems(1) by auto
      from other[OF this] show ?thesis using assms(3,4) True
        by (simp add: capacity_def grow_pool_def pool_amount_def unat_add32 distrib_left)
    next
      case False
      then have "np_Name p \<noteq> np_Name q" "p \<in> set pools" using Cons.prems by (auto simp: image_iff)
      then show ?thesis using Cons by (simp add: capacity_def grow_pool_def)
    qed
  qed simp
qed

definition shortfall :: "NodePoolResources \<Rightarrow> ResValMap \<Rightarrow> NodePool list \<Rightarrow> FlavorLookup \<Rightarrow> bool \<Rightarrow> string \<Rightarrow> nat" where
  "shortfall reqs used pools lk cs k =
     requested reqs k + amt used k - capacity (fits_check reqs lk cs) pools k"

lemma NodePoolFits_scale:
  assumes ready: "fits_ready reqs used pools lk cs"
    and res: "NodePoolFits reqs used pools lk cs = (Some spec, free, Some err)"
    and lim: "\<And>k. requested reqs k + amt used k < udec_limit"
  obtains p where "p \<in> set pools" "np_Name p = PoolName spec" "np_Scalable p"
    "fits_check reqs lk cs p = PoolUse (PerNodeResources spec)"
    "\<exists>need. resmap_wf need \<and> amt need = shortfall reqs used pools lk cs
       \<and> NumNodesChange spec = DivFactorLargest need (PerNodeResources spec)"
proof -
  have wu: "resmap_wf used" using ready by (simp add: fits_ready_def)
  let ?chk = "fits_check reqs lk cs"
  from ready obtain mins req st where r:
    "TopologyToResValMap (Some (Topology reqs)) = Inr mins"
    "NodePoolResourcesToResValMap (Some reqs) = Inr req" "resmap_wf req" "amt req = requested reqs"
    "pools_loop (check_pool mins (NodePoolResourcesGPUCount (Some reqs)) lk cs) pools pools_start = Inr st"
    "resmap_wf (ps_total st)" "amt (ps_total st) = capacity ?chk pools"
    "ps_scalable st = map_option (use_amounts ?chk) (find (scalable_pool ?chk) pools)"
    by (rule fits_ready_loop)
  let ?uf = "snd (SubFloorAll (Clone (ps_total st)) used False)"
  let ?need = "fst (SubFloorAll (AddAllMult (Clone req) used 1) (ps_total st) ?uf)"
  from res r(1,2,5) obtain p m where pm: "ps_scalable st = Some (p, m)"
    "spec = \<lparr>PoolName = np_Name p, NumNodesChange = DivFactorLargest ?need m, PerNodeResources = m\<rparr>"
    by (auto simp: NodePoolFits_def decide_fit_def case_prod_beta Let_def split: option.splits)
  from pm(1) r(8) have f: "find (scalable_pool ?chk) pools = Some p" "m = snd (use_amounts ?chk p)"
    by (auto simp: use_amounts_def)
  from f(1) have "p \<in> set pools" "scalable_pool ?chk p" by (auto simp: find_Some_iff in_set_conv_nth)
  moreover have "?chk p = PoolUse m" "np_Scalable p"
    using calculation(2) f(2) by (auto simp: scalable_pool_def use_amounts_def split: pool_verdict.splits)
  moreover have "resmap_wf ?need" by (intro wf_intros r wu)
  moreover have "amt ?need = shortfall reqs used pools lk cs"
    using resvals.amount_needed[OF r(3) wu r(6), of ?uf] lim r(4,7) by (simp add: shortfall_def fun_eq_iff)
  ultimately show thesis using that[of p] pm(2) by auto
qed

lemma scale_covers:
  assumes wf: "resmap_wf need" "resmap_wf node" "whole_map node"
    and need: "\<And>k. scale_amount (amt need k)" and node: "\<And>k. amt node k < 2 ^ 53 * 10 ^ 9"
    and pos: "0 < amt node k"
  shows "amt need k \<le> amt node k * unat (DivFactorLargest need node)"
proof -
  have g: "go_map need" "go_map node" using wf resmap_wfD(1) by blast+
  have "dec_small (rv_Value x)" if "(j, x) \<in> set need" for j x
  proof -
    have x: "map_of need j = Some x" using that go_map_entry[OF g(1)] by blast
    show ?thesis using need[of j] resmap_wfD(3)[OF wf(1) x] x by (simp add: amt_def dec_small_scale)
  qed
  moreover have na: "node_amount (rv_Value r)" if "(j, r) \<in> set node" for j r
    using node_amountI[OF wf(3) that g(2) node] .
  moreover have "amt node j = 0 \<or> ceil_div (amt need j) (amt node j) < 2 ^ 32" if "(j, r) \<in> set node" for j r
  proof -
    have "map_of node j = Some r" using that go_map_entry[OF g(2)] by blast
    then have "amt node j = unat (Whole (rv_Value r)) * 10 ^ 9"
      using na[OF that] by (simp add: amt_def nanoval_def node_amount_def)
    then have "amt node j = 0 \<or> 10 ^ 9 \<le> amt node j" by (cases "unat (Whole (rv_Value r))") auto
    then show ?thesis using ceil_div_scale[OF need] by blast
  qed
  ultimately have "div_ready need node" using wf unfolding div_ready_def list_all_iff case_prod_beta
    by (metis prod.collapse)
  from DivFactorLargest_least[OF this, of "unat (DivFactorLargest need node)"]
  have all: "\<forall>k \<in> set (keys need) \<inter> set (keys node).
      0 < amt node k \<longrightarrow> amt need k \<le> unat (DivFactorLargest need node) * amt node k" by simp
  show ?thesis
  proof (cases "k \<in> set (keys need)")
    case True
    moreover have "k \<in> set (keys node)" using pos amt_absent by fastforce
    ultimately show ?thesis using all pos by (metis IntI mult.commute)
  qed (simp add: amt_absent)
qed

subsection \<open>Skipped pools\<close>

definition gpu_mismatch :: "NodePoolResources \<Rightarrow> NodePool \<Rightarrow> bool" where
  "gpu_mismatch reqs p =
     (case np_NodeResources p of None \<Rightarrow> False
      | Some nr \<Rightarrow> (NodePoolResourcesGPUCount (Some reqs) > 0) \<noteq> (NodeResourcesGPUCount (Some nr) > 0))"

lemma check_pool_mismatch:
  "gpu_mismatch reqs p \<Longrightarrow>
   \<exists>r. check_pool mins (NodePoolResourcesGPUCount (Some reqs)) lk False p = PoolSkip r"
  by (auto simp: gpu_mismatch_def check_pool_def Let_def word_gt_0 split: option.splits)

lemma pools_loop_filter:
  assumes "\<And>p. bad p \<Longrightarrow> \<exists>r. check p = PoolSkip r"
    and "ps_total s = ps_total t" "ps_scalable s = ps_scalable t"
  shows "rel_sum (=) (\<lambda>x y. ps_total x = ps_total y \<and> ps_scalable x = ps_scalable y)
    (pools_loop check pools s) (pools_loop check (filter (\<lambda>p. \<not> bad p) pools) t)"
  using assms(2,3)
proof (induction pools arbitrary: s t)
  case (Cons p pools)
  show ?case
  proof (cases "bad p")
    case True
    then obtain r where "check p = PoolSkip r" using assms(1) by blast
    then show ?thesis using True Cons by simp
  next
    case False
    then show ?thesis using Cons by (auto simp: Let_def split: pool_verdict.split)
  qed
qed simp

lemma ResValsFits_reasons: "ResValsFits r f rs = None \<longleftrightarrow> ResValsFits r f rs' = None"
  by (simp add: ResValsFits_def Let_def)

lemma decide_fit_cong:
  assumes "ps_total s = ps_total t" "ps_scalable s = ps_scalable t"
  shows "case decide_fit reqs used s of (ss, free, err) \<Rightarrow> case decide_fit reqs used t of (ss', free', err') \<Rightarrow>
    ss = ss' \<and> free = free' \<and> (err = None \<longleftrightarrow> err' = None)"
proof (cases "NodePoolResourcesToResValMap (Some reqs)")
  case (Inr req)
  obtain free u where f: "SubFloorAll (Clone (ps_total t)) used False = (free, u)" by fastforce
  show ?thesis
  proof (cases "ResValsFits req free (ps_reasons s)")
    case None
    then have "ResValsFits req free (ps_reasons t) = None" using ResValsFits_reasons by blast
    with None show ?thesis by (simp add: decide_fit_def Inr assms f)
  next
    case (Some e)
    then obtain e' where "ResValsFits req free (ps_reasons t) = Some e'"
      using ResValsFits_reasons[of req free] by (metis not_Some_eq)
    with Some show ?thesis
      by (simp add: decide_fit_def Inr assms f Let_def case_prod_beta split: option.split)
  qed
qed (simp add: decide_fit_def)

subsection \<open>Properties\<close>

text \<open>
  (C1) \<open>NodePoolFits\<close> admits a request exactly when, for every resource it asks for, the request
  and what is already used stay within the combined capacity of the eligible pools; the free
  resources it reports are that capacity less the used amounts, floored at zero. Admitting
  comes without a scale spec.
\<close>

theorem NodePoolFits_admits:
  assumes "fits_ready reqs used pools lk cs"
  shows "(snd (snd (NodePoolFits reqs used pools lk cs)) = None \<longleftrightarrow>
      (\<forall>k. requested reqs k = 0 \<or>
           requested reqs k + amt used k \<le> capacity (fits_check reqs lk cs) pools k))
    \<and> (\<forall>k. amt (fst (snd (NodePoolFits reqs used pools lk cs))) k =
         capacity (fits_check reqs lk cs) pools k - amt used k)
    \<and> (snd (snd (NodePoolFits reqs used pools lk cs)) = None \<longrightarrow>
         fst (NodePoolFits reqs used pools lk cs) = None)"
proof -
  have "snd (snd (NodePoolFits reqs used pools lk cs)) = None \<longrightarrow>
      fst (NodePoolFits reqs used pools lk cs) = None"
    by (auto simp: NodePoolFits_def decide_fit_def Let_def split: sum.split prod.split option.split)
  then show ?thesis using NodePoolFits_result[OF assms] by blast
qed


text \<open>
  Pools of the wrong kind do not count. Without a named cluster, dropping every pool with GPUs
  from the list when no GPU is requested, or every pool without when one is, changes
  neither the verdict, nor the free resources, nor the proposed growth.
\<close>

theorem NodePoolFits_gpu_separation:
  "case NodePoolFits reqs used pools lk False of (ss, free, err) \<Rightarrow>
     case NodePoolFits reqs used (filter (\<lambda>p. \<not> gpu_mismatch reqs p) pools) lk False of (ss', free', err') \<Rightarrow>
       ss = ss' \<and> free = free' \<and> (err = None \<longleftrightarrow> err' = None)"
proof (cases "TopologyToResValMap (Some (Topology reqs))")
  case (Inr mins)
  let ?chk = "check_pool mins (NodePoolResourcesGPUCount (Some reqs)) lk False"
  have "rel_sum (=) (\<lambda>x y. ps_total x = ps_total y \<and> ps_scalable x = ps_scalable y)
      (pools_loop ?chk pools pools_start)
      (pools_loop ?chk (filter (\<lambda>p. \<not> gpu_mismatch reqs p) pools) pools_start)"
    by (rule pools_loop_filter) (auto intro: check_pool_mismatch)
  then show ?thesis
  proof (cases rule: rel_sum.cases)
    case (2 b d)
    then show ?thesis using decide_fit_cong[of b d reqs used] by (simp only: NodePoolFits_def Inr sum.case)
  qed (simp add: NodePoolFits_def Inr)
qed (simp add: NodePoolFits_def)

text \<open>
  A Kubernetes cluster admits a request exactly when each pool request present in it is
  admitted; a scale spec is returned only with an error, and then proposes growth for at least one
  of the two.
\<close>

theorem KubernetesResourcesFits_iff:
  "case KubernetesResourcesFits ci reqs cu gu lk cs of (ss, _, err) \<Rightarrow>
     (err = None \<longleftrightarrow>
        (case CpuPool reqs of None \<Rightarrow> True | Some p \<Rightarrow> snd (snd (NodePoolFits p cu (ci_NodePools ci) lk cs)) = None)
      \<and> (case GpuPool reqs of None \<Rightarrow> True | Some p \<Rightarrow> snd (snd (NodePoolFits p gu (ci_NodePools ci) lk cs)) = None))
   \<and> (case ss of None \<Rightarrow> True | Some s \<Rightarrow> err \<noteq> None \<and> \<not> (CPUPoolScale s = None \<and> GPUPoolScale s = None))"
  by (cases "CpuPool reqs"; cases "GpuPool reqs")
    (auto simp: KubernetesResourcesFits_def Let_def case_prod_beta split: option.split)

text \<open>
  A request for a whole node fits into a cluster instance exactly when both descriptions convert, the
  infrastructure flavor is known, and for every requested resource the request plus the used
  amount stays within the node's.
\<close>

theorem NodeResourcesFits_iff:
  assumes "resmap_wf used"
  shows "NodeResourcesFits ci (Some reqs) used lk = None \<longleftrightarrow>
    (\<exists>nr infra req node. ci_NodeResources ci = Some nr \<and> GetInfraNodeResources nr lk = Inr infra
       \<and> NodeResourcesToResValMap (Some reqs) = Inr req \<and> NodeResourcesToResValMap (Some infra) = Inr node
       \<and> (\<forall>k. amt req k = 0 \<or> amt req k + amt used k \<le> amt node k))"
proof -
  have "ResValsFits req (fst (SubFloorAll (Clone node) used False)) [] = None \<longleftrightarrow>
      (\<forall>k. amt req k = 0 \<or> amt req k + amt used k \<le> amt node k)"
    if "NodeResourcesToResValMap (Some a) = Inr req" "NodeResourcesToResValMap (Some b) = Inr node" for a b req node
    using placement.admit_iff[OF wf_NodeResourcesToResValMap[OF that(2)] assms wf_NodeResourcesToResValMap[OF that(1)]] .
  then show ?thesis
    by (auto simp: NodeResourcesFits_def split: option.split sum.split)
qed

subsection \<open>The properties at a concrete cluster\<close>

lemma amt_all: "list_all (\<lambda>(_, v). P (nanoval (rv_Value v))) m \<Longrightarrow> P 0 \<Longrightarrow> P (amt m k)"
  by (auto simp: amt_def list_all_iff dest!: map_of_SomeD split: option.split)

definition ex_req :: NodePoolResources where
  "ex_req = zero_NodePoolResources\<lparr>TotalVcpus := \<lparr>Whole = 3, Nanos = 500000000\<rparr>, TotalMemory := 6000,
     Topology := zero_NodePoolTopology\<lparr>MinNodeVcpus := 1, MinNodeMemory := 512\<rparr>\<rparr>"
definition ex_pool :: NodePool where
  "ex_pool = \<lparr>np_Name = ''workers'', np_NumNodes = 2,
     np_NodeResources = Some (zero_NodeResources\<lparr>nr_Vcpus := 2, nr_Ram := 4096\<rparr>), np_Scalable = True\<rparr>"

definition ex_node :: ResValMap where
  "ex_node = AddDisk (AddRam (AddVcpus [] 2 0) 4096) 0"

lemmas ex_map_defs = AddDisk_def AddVcpus_def AddRam_def AddRes_def AddRV_def AddMult_def NewUdec64_def
    NewDecimalResVal_def Let_def Key_def BuildResKey_def DecWhole_val

lemma ex_check: "fits_check ex_req [] False ex_pool = PoolUse ex_node"
  by code_simp

lemma ex_cap: "capacity (fits_check ex_req [] False) [ex_pool] k = amt ex_node k * 2"
  by (simp add: capacity_def pool_amount_def ex_check) (simp add: ex_pool_def)

lemma ex_node_bound: "amt ex_node k \<le> 4096 * 10 ^ 9"
  by (rule amt_all) (simp_all add: ex_node_def ex_map_defs nanoval_def)

lemma ex_ready: "resmap_wf used \<Longrightarrow> fits_ready ex_req used [ex_pool] [] False"
proof -
  have "is_ok (TopologyToResValMap (Some (Topology ex_req)))" "is_ok (NodePoolResourcesToResValMap (Some ex_req))"
    by code_simp+
  moreover have "capacity (fits_check ex_req [] False) [ex_pool] k < udec_limit" for k
    using ex_node_bound[of k] by (simp add: ex_cap udec_limit_def)
  ultimately show "resmap_wf used \<Longrightarrow> ?thesis" by (simp add: fits_ready_def ex_check)
qed

lemma ex_requested: "requested ex_req k = amt (AddDisk (AddRam (AddVcpus [] 3 500000000) 6000) 0) k"
proof -
  have "NodePoolResourcesToResValMap (Some ex_req) = Inr (AddDisk (AddRam (AddVcpus [] 3 500000000) 6000) 0)"
    by code_simp
  then show ?thesis by (simp add: requested_def)
qed

theorem NodePoolFits_admits_witness:
  "snd (snd (NodePoolFits ex_req (AddVcpus [] 0 500000000) [ex_pool] [] False)) = None"
proof -
  let ?u = "AddVcpus [] 0 500000000"
  have "requested ex_req k = 0 \<or>
      requested ex_req k + amt ?u k \<le> capacity (fits_check ex_req [] False) [ex_pool] k" for k
    unfolding ex_requested ex_cap ex_node_def by (simp add: amt_def ex_map_defs nanoval_def)
  then show ?thesis using NodePoolFits_admits[OF ex_ready, of ?u] by (simp add: wf_AddRes)
qed


theorem NodeResourcesFits_iff_witness:
  "NodeResourcesFits \<lparr>ci_NodePools = [], ci_NodeResources = np_NodeResources ex_pool\<rparr>
     (np_NodeResources ex_pool) [] [] = None"
proof -
  let ?ci = "\<lparr>ci_NodePools = [], ci_NodeResources = np_NodeResources ex_pool\<rparr>"
  let ?nr = "zero_NodeResources\<lparr>nr_Vcpus := 2, nr_Ram := 4096\<rparr>"
  have "GetInfraNodeResources ?nr [] = Inr ?nr" "NodeResourcesToResValMap (Some ?nr) = Inr ex_node"
    by code_simp+
  then show ?thesis using NodeResourcesFits_iff[of "[]" ?ci ?nr "[]"] by (simp add: ex_pool_def)
qed

end
