(* ===== verification/VMSpec.thy ===== *)
theory VMSpec
  imports Resources "HOL-Library.Product_Lexorder"
begin

text \<open>
  \<^verbatim>\<open>pkg/resspec/vmspec_matcher.go\<close>: choosing the closest infrastructure flavor for requested node
  resources. The counters that explain a failure (\<open>skipped\<close>, \<open>skippedExtra\<close>) are threaded through as in
  the code. \<^verbatim>\<open>sort.Slice\<close> leaves the order of equal elements open, so the sorting function is
  an argument of \<open>GetVMSpec\<close> and the properties hold for every function that sorts; it also sorts the
  caller's slice in place, which is not modelled because only the order changes. The loops over
  Go maps run in the order of the association list. Logging (the \<open>verbose\<close> switch) is left out,
  and so are the two fields of \<open>VMCreationSpec\<close> this file never sets.
\<close>

subsection \<open>The model\<close>

record ResTagTable =
  rtt_Tags :: "(string, string) gomap"

record CloudletInfo =
  cli_Flavors :: "FlavorInfo list"
  cli_OsImages :: "string list"
  cli_AvailabilityZones :: "string list"

record VMCreationSpec =
  vs_FlavorName :: string
  vs_ExternalVolumeSize :: uint64
  vs_AvailabilityZone :: string
  vs_ImageName :: string
  vs_FlavorInfo :: "FlavorInfo option"

type_synonym tables = "(string, ResTagTable) gomap option"
type_synonym counters = "(string, int) gomap"

definition bump :: "string \<Rightarrow> int \<Rightarrow> counters \<Rightarrow> counters" where
  "bump k n m = AList.update k (get_or 0 m k + n) m"

fun find_lower :: "string \<Rightarrow> string list \<Rightarrow> string \<times> bool" where
  "find_lower res [] = ([], False)"
| "find_lower res (name # names) =
     (if Contains (ToLower name) res then (name, True) else find_lower res names)"

definition findImagematch :: "string \<Rightarrow> CloudletInfo \<Rightarrow> string \<times> bool" where
  "findImagematch res cli = find_lower res (cli_OsImages cli)"

definition findAZmatch :: "string \<Rightarrow> CloudletInfo \<Rightarrow> string \<times> bool" where
  "findAZmatch res cli = find_lower res (cli_AvailabilityZones cli)"

definition InfraFlavorResources :: "FlavorInfo \<Rightarrow> tables \<Rightarrow> string set \<times> int" where
  "InfraFlavorResources flavor tbls =
     (if length (fi_PropMap flavor) = 0 then ({}, 0)
      else fold (\<lambda>(res, tbl) acc.
             fold (\<lambda>(_, flav_val) acc.
               fold (\<lambda>(_, val) (resources, rescnt).
                 if Contains flav_val val then (insert res resources, rescnt + 1) else (resources, rescnt))
                 (rtt_Tags tbl) acc)
               (fi_PropMap flavor) acc)
             (entries tbls) ({}, 0))"

text \<open>The value \<^verbatim>\<open>strconv.Atoi\<close> returns next to an error: zero, or the bound that was exceeded.\<close>

definition Atoi_value :: "string \<Rightarrow> int" where
  "Atoi_value s =
     (case Atoi s of Some v \<Rightarrow> v
      | None \<Rightarrow>
          let ds = (case s of c # cs \<Rightarrow> if c = CHR ''-'' \<or> c = CHR ''+'' then cs else s | [] \<Rightarrow> [])
          in if ds = [] \<or> \<not> list_all isASCIIDigit ds then 0
             else if HasPrefix s ''-'' then - (2 ^ 63) else 2 ^ 63 - 1)"

definition split_request :: "string \<Rightarrow> string list" where
  "split_request req =
     (if Contains req '':'' then Split CHR '':'' req
      else if Contains req ''='' then Split CHR ''='' req else [])"

datatype match_outcome = Matched | MatchError | Exhausted int

text \<open>
  The loop over the flavor's properties for one tag. \<open>alias\<close> is not reset between properties and
  \<open>flavcnt\<close> not even between tags; a count that is no number ends the whole search when it is in the
  last property, and otherwise leaves what \<^verbatim>\<open>Atoi\<close> returned.
\<close>

fun match_props ::
  "bool \<Rightarrow> int \<Rightarrow> string \<Rightarrow> string \<Rightarrow> string \<Rightarrow> string \<Rightarrow> (string, string) gomap \<Rightarrow> string list \<Rightarrow> int \<Rightarrow> match_outcome" where
  "match_props wildcard reqcnt reqResType reqResSpec tag_key tag_val [] alias flavcnt = Exhausted flavcnt"
| "match_props wildcard reqcnt reqResType reqResSpec tag_key tag_val ((flav_key, flav_val) # rest) alias flavcnt =
     (let alias = (if Contains flav_val '':'' then Split CHR '':'' flav_val
                   else if Contains flav_val ''='' then Split CHR ''='' flav_val else alias)
      in if length alias = 2 then
           let cntStr = Trim [CHR 0x27] (Trim [CHR 0x22] (alias ! 1));
               alias = [alias ! 0, cntStr];
               flavcnt = Atoi_value cntStr
           in if Atoi cntStr = None \<and> rest = [] then MatchError
              else if wildcard then
                if Contains flav_key tag_key \<and> flavcnt \<ge> reqcnt then Matched
                else match_props wildcard reqcnt reqResType reqResSpec tag_key tag_val rest alias flavcnt
              else if reqResType = tag_key \<and> Contains flav_key tag_key
                      \<and> Contains flav_val tag_val \<and> flavcnt \<ge> reqcnt
                      \<and> (reqResSpec = [] \<or> Contains flav_val reqResSpec) then Matched
              else match_props wildcard reqcnt reqResType reqResSpec tag_key tag_val rest alias flavcnt
         else match_props wildcard reqcnt reqResType reqResSpec tag_key tag_val rest alias flavcnt)"

fun match_tags ::
  "bool \<Rightarrow> int \<Rightarrow> string \<Rightarrow> string \<Rightarrow> (string, string) gomap \<Rightarrow> (string, string) gomap \<Rightarrow> int \<Rightarrow> bool" where
  "match_tags wildcard reqcnt reqResType reqResSpec props [] flavcnt = False"
| "match_tags wildcard reqcnt reqResType reqResSpec props ((tag_key, tag_val) # tags) flavcnt =
     (case match_props wildcard reqcnt reqResType reqResSpec tag_key tag_val props [] flavcnt of
        Matched \<Rightarrow> True
      | MatchError \<Rightarrow> False
      | Exhausted flavcnt \<Rightarrow> match_tags wildcard reqcnt reqResType reqResSpec props tags flavcnt)"

text \<open>\<open>match\<close>: whether the flavor offers what the request for one optional resource asks (a nil error).\<close>

definition matchRes :: "string \<Rightarrow> FlavorInfo \<Rightarrow> ResTagTable \<Rightarrow> bool" where
  "matchRes req flavor tbl =
     (let request = split_request req
      in if length request = 1 then False
         else
           let (reqResType, reqResSpec, cnt, wildcard) =
                 (if length request = 2 then (request ! 0, [], request ! 1, request ! 0 = ''gpu'')
                  else if length request = 3 then (request ! 0, request ! 1, request ! 2, False)
                  else ([], [], [], False))
           in case Atoi cnt of
                None \<Rightarrow> False
              | Some reqcnt \<Rightarrow>
                  if reqcnt = 0 then False
                  else match_tags wildcard reqcnt reqResType reqResSpec (fi_PropMap flavor) (rtt_Tags tbl) 0)"

text \<open>The loop of \<open>resLookup\<close> over the requested optional resources: those matched, or the first that failed.\<close>

fun lookup_all :: "(string, string) gomap \<Rightarrow> FlavorInfo \<Rightarrow> tables \<Rightarrow> string set \<Rightarrow> (string, string set) result" where
  "lookup_all [] flavor tbls nodeResources = Ok nodeResources"
| "lookup_all ((res, request) # rest) flavor tbls nodeResources =
     (case map_of (entries tbls) res of
        None \<Rightarrow> lookup_all rest flavor tbls nodeResources
      | Some tbl \<Rightarrow>
          if matchRes request flavor tbl then lookup_all rest flavor tbls (insert res nodeResources)
          else Err res)"

record skip_state =
  sk_skipped :: counters
  sk_skippedExtra :: counters
  sk_skippedExtraRes :: int

definition resLookup ::
  "(string, string) gomap \<Rightarrow> FlavorInfo \<Rightarrow> CloudletInfo \<Rightarrow> tables \<Rightarrow> skip_state \<Rightarrow>
   (string \<times> string) option \<times> skip_state" where
  "resLookup optResMap flavor cli tbls sk =
     (case lookup_all optResMap flavor tbls {} of
        Inl res \<Rightarrow> (None, sk\<lparr>sk_skipped := bump res 1 (sk_skipped sk)\<rparr>)
      | Inr nodeResources \<Rightarrow>
          if nodeResources \<noteq> fst (InfraFlavorResources flavor tbls)
          then (None, sk\<lparr>sk_skippedExtraRes := sk_skippedExtraRes sk + 1\<rparr>)
          else (Some (fst (findAZmatch ''gpu'' cli), fst (findImagematch ''gpu'' cli)), sk))"

datatype vm_error =
    CloudletNoGpu | InvalidOptResMap | GpuTypeUnsupported string | OptResUnsupported
  | NoSuitableFlavor skip_state | CloudletFlavorNotFound string

definition ValidateGPUResource :: "NodeResources \<Rightarrow> tables \<Rightarrow> vm_error option" where
  "ValidateGPUResource nr tbls =
     (case map_of (entries (nr_OptResMap nr)) ''gpu'' of
        None \<Rightarrow> None
      | Some flavorRes \<Rightarrow>
          if map_of (entries tbls) ''gpu'' = None then Some CloudletNoGpu
          else let request = split_request flavorRes
               in if length request < 2 then Some InvalidOptResMap
                  else let resType = request ! 0;
                           tblTagKeys = concat (map (\<lambda>(_, t). keys (rtt_Tags t)) (entries tbls))
                       in if resType \<notin> set tblTagKeys then Some (GpuTypeUnsupported resType) else None)"

fun match_gpus ::
  "GPUResource list \<Rightarrow> (string, uint32) gomap \<Rightarrow> skip_state \<Rightarrow> (string, uint32) gomap option \<times> skip_state" where
  "match_gpus [] provides sk = (Some provides, sk)"
| "match_gpus (req # reqs) provides sk =
     (let m = gpu_ModelId req; p = get_or 0 provides m
      in if gpu_Count req > p
           then (None, sk\<lparr>sk_skipped := bump m (uint (gpu_Count req - p)) (sk_skipped sk)\<rparr>)
         else if gpu_Count req < p
           then (None, sk\<lparr>sk_skippedExtra := bump m (uint (p - gpu_Count req)) (sk_skippedExtra sk)\<rparr>)
         else match_gpus reqs (AList.delete m provides) sk)"

definition provided :: "GPUResource list \<Rightarrow> (string, uint32) gomap" where
  "provided gpus =
     fold (\<lambda>gpu provides. AList.update (gpu_ModelId gpu)
        (get_or 0 provides (gpu_ModelId gpu) + gpu_Count gpu) provides) gpus []"

definition satisfiesGPUs :: "GPUResource list \<Rightarrow> GPUResource list \<Rightarrow> skip_state \<Rightarrow> bool \<times> skip_state" where
  "satisfiesGPUs reqs gpus sk =
     (case match_gpus reqs (provided gpus) sk of
        (None, sk') \<Rightarrow> (False, sk')
      | (Some provides, sk') \<Rightarrow>
          if length provides = 0 then (True, sk')
          else (False, sk'\<lparr>sk_skippedExtra :=
                 fold (\<lambda>(prod, cnt) extra. bump prod (uint cnt) extra) provides (sk_skippedExtra sk')\<rparr>))"

definition flavor_less :: "FlavorInfo \<Rightarrow> FlavorInfo \<Rightarrow> bool" where
  "flavor_less a b =
     (if fi_Vcpus a < fi_Vcpus b then True
      else if fi_Vcpus a > fi_Vcpus b then False
      else if fi_Ram a < fi_Ram b then True
      else if fi_Ram a > fi_Ram b then False
      else fi_Disk a < fi_Disk b)"

text \<open>The selection loop: the spec as it stands, the counters, and the error when no flavor is left.\<close>

fun pick_flavor ::
  "NodeResources \<Rightarrow> CloudletInfo \<Rightarrow> tables \<Rightarrow> FlavorInfo list \<Rightarrow> VMCreationSpec \<Rightarrow> skip_state \<Rightarrow>
   VMCreationSpec \<times> vm_error option" where
  "pick_flavor nr cli tbls [] vmspec sk = (vmspec, Some (NoSuitableFlavor sk))"
| "pick_flavor nr cli tbls (flavor # rest) vmspec sk =
     (if fi_Vcpus flavor < nr_Vcpus nr
        then pick_flavor nr cli tbls rest vmspec (sk\<lparr>sk_skipped := bump ''vCPUs'' 1 (sk_skipped sk)\<rparr>)
      else if fi_Ram flavor < nr_Ram nr
        then pick_flavor nr cli tbls rest vmspec (sk\<lparr>sk_skipped := bump ''RAM'' 1 (sk_skipped sk)\<rparr>)
      else if fi_Disk flavor \<noteq> 0 \<and> fi_Disk flavor < nr_Disk nr
        then pick_flavor nr cli tbls rest vmspec (sk\<lparr>sk_skipped := bump ''Disk'' 1 (sk_skipped sk)\<rparr>)
      else
        let vmspec = (if fi_Disk flavor = 0 then vmspec\<lparr>vs_ExternalVolumeSize := nr_Disk nr\<rparr> else vmspec);
            (gpuOk, sk) = satisfiesGPUs (nr_Gpus nr) (fi_Gpus flavor) sk
        in if \<not> gpuOk then pick_flavor nr cli tbls rest vmspec sk
           else case nr_OptResMap nr of
             Some optResMap \<Rightarrow>
               (case resLookup optResMap flavor cli tbls sk of
                  (None, sk) \<Rightarrow> pick_flavor nr cli tbls rest vmspec sk
                | (Some (az, img), sk) \<Rightarrow>
                    (vmspec\<lparr>vs_FlavorName := fi_Name flavor, vs_AvailabilityZone := az, vs_ImageName := img,
                       vs_FlavorInfo := Some flavor\<rparr>, None))
           | None \<Rightarrow>
               if snd (InfraFlavorResources flavor tbls) \<noteq> 0
               then pick_flavor nr cli tbls rest vmspec (sk\<lparr>sk_skippedExtraRes := sk_skippedExtraRes sk + 1\<rparr>)
               else (vmspec\<lparr>vs_FlavorName := fi_Name flavor, vs_AvailabilityZone := [], vs_ImageName := [],
                       vs_FlavorInfo := Some flavor\<rparr>, None))"

definition zero_VMCreationSpec :: VMCreationSpec where
  "zero_VMCreationSpec =
     \<lparr>vs_FlavorName = [], vs_ExternalVolumeSize = 0, vs_AvailabilityZone = [], vs_ImageName = [],
      vs_FlavorInfo = None\<rparr>"

definition no_skips :: skip_state where
  "no_skips = \<lparr>sk_skipped = [], sk_skippedExtra = [], sk_skippedExtraRes = 0\<rparr>"

definition GetVMSpec ::
  "(FlavorInfo list \<Rightarrow> FlavorInfo list) \<Rightarrow> NodeResources \<Rightarrow> CloudletInfo \<Rightarrow> tables \<Rightarrow>
   VMCreationSpec option \<times> vm_error option" where
  "GetVMSpec sort_slice nr cli tbls =
     (case ValidateGPUResource nr tbls of
        Some e \<Rightarrow> (None, Some e)
      | None \<Rightarrow>
          if nr_OptResMap nr \<noteq> None \<and> tbls = None then (None, Some OptResUnsupported)
          else let (vmspec, err) = pick_flavor nr cli tbls (sort_slice (cli_Flavors cli)) zero_VMCreationSpec no_skips
               in (Some vmspec, err))"

definition GetVMSpecCloudletFlavor :: "string \<Rightarrow> CloudletInfo \<Rightarrow> (vm_error, VMCreationSpec) result" where
  "GetVMSpecCloudletFlavor cloudletFlavorName cli =
     (case find (\<lambda>cf. fi_Name cf = cloudletFlavorName) (cli_Flavors cli) of
        None \<Rightarrow> Err (CloudletFlavorNotFound cloudletFlavorName)
      | Some cloudletFlavor \<Rightarrow>
          Ok \<lparr>vs_FlavorName = cloudletFlavorName, vs_ExternalVolumeSize = 0,
              vs_AvailabilityZone = fst (findAZmatch ''gpu'' cli), vs_ImageName = fst (findImagematch ''gpu'' cli),
              vs_FlavorInfo = Some cloudletFlavor\<rparr>)"

subsection \<open>The order of flavors\<close>

definition flavor_size :: "FlavorInfo \<Rightarrow> uint64 \<times> uint64 \<times> uint64" where
  "flavor_size f = (fi_Vcpus f, fi_Ram f, fi_Disk f)"

lemma flavor_less_iff: "flavor_less a b \<longleftrightarrow> flavor_size a < flavor_size b"
  by (auto simp: flavor_less_def flavor_size_def less_prod_def)

text \<open>What \<^verbatim>\<open>sort.Slice\<close> promises: a permutation in which no element is less than an earlier one.\<close>

definition sorts :: "(FlavorInfo list \<Rightarrow> FlavorInfo list) \<Rightarrow> FlavorInfo list \<Rightarrow> bool" where
  "sorts sort_slice xs =
     (mset (sort_slice xs) = mset xs \<and> sorted_wrt (\<lambda>a b. \<not> flavor_less b a) (sort_slice xs))"

lemma sorts_sort_key: "sorts (sort_key flavor_size) xs"
proof -
  have "sorted_wrt (\<lambda>a b. flavor_size a \<le> flavor_size b) (sort_key flavor_size xs)"
    using sorted_sort_key[of flavor_size xs] by (simp add: sorted_map)
  then show ?thesis by (simp add: sorts_def flavor_less_iff not_less)
qed

subsection \<open>GPU matching\<close>

definition gpu_total :: "GPUResource list \<Rightarrow> string \<Rightarrow> uint32" where
  "gpu_total gpus m = sum_list (map gpu_Count (filter (\<lambda>g. gpu_ModelId g = m) gpus))"

lemma gpu_total_absent: "m \<notin> gpu_ModelId ` set gpus \<Longrightarrow> gpu_total gpus m = 0"
  by (induction gpus) (auto simp: gpu_total_def)

lemma map_of_provided:
  "map_of (provided gpus) m = (if m \<in> gpu_ModelId ` set gpus then Some (gpu_total gpus m) else None)"
proof (induction gpus arbitrary: m rule: rev_induct)
  case (snoc g gpus)
  have "provided (gpus @ [g]) = AList.update (gpu_ModelId g)
      (get_or 0 (provided gpus) (gpu_ModelId g) + gpu_Count g) (provided gpus)"
    by (simp add: provided_def)
  moreover have "get_or 0 (provided gpus) m' = gpu_total gpus m'" for m'
    unfolding get_or_def snoc.IH by (simp add: gpu_total_absent)
  ultimately show ?case using snoc.IH by (cases "gpu_ModelId g = m") (auto simp: gpu_total_def)
qed (simp add: provided_def)

lemma match_gpus_result:
  assumes "distinct (map gpu_ModelId reqs)"
  shows "fst (match_gpus reqs p sk) =
    (if \<forall>r \<in> set reqs. gpu_Count r = get_or 0 p (gpu_ModelId r)
     then Some (fold AList.delete (map gpu_ModelId reqs) p) else None)"
  using assms
proof (induction reqs arbitrary: p sk)
  case (Cons r reqs)
  have "get_or 0 (AList.delete (gpu_ModelId r) p) (gpu_ModelId q) = get_or 0 p (gpu_ModelId q)"
    if "q \<in> set reqs" for q
    using Cons.prems that by (auto simp: get_or_def image_iff)
  then have q: "(\<forall>q \<in> set reqs. gpu_Count q = get_or 0 (AList.delete (gpu_ModelId r) p) (gpu_ModelId q)) \<longleftrightarrow>
      (\<forall>q \<in> set reqs. gpu_Count q = get_or 0 p (gpu_ModelId q))" by simp
  consider "gpu_Count r > get_or 0 p (gpu_ModelId r)" | "gpu_Count r < get_or 0 p (gpu_ModelId r)"
    | "gpu_Count r = get_or 0 p (gpu_ModelId r)" by (meson linorder_less_linear)
  then show ?case
    using Cons.IH[of "AList.delete (gpu_ModelId r) p" sk] Cons.prems
    by cases (auto simp: Let_def q)
qed simp

lemma map_of_fold_delete:
  "map_of (fold AList.delete ks p) m = (if m \<in> set ks then None else map_of p m)"
  by (induction ks arbitrary: p) auto

lemma satisfiesGPUs_iff:
  assumes "distinct (map gpu_ModelId reqs)"
  shows "fst (satisfiesGPUs reqs gpus sk) \<longleftrightarrow>
    (\<forall>r \<in> set reqs. gpu_Count r = gpu_total gpus (gpu_ModelId r))
    \<and> gpu_ModelId ` set gpus \<subseteq> gpu_ModelId ` set reqs"
proof -
  have g: "get_or 0 (provided gpus) m = gpu_total gpus m" for m
    by (simp add: get_or_def map_of_provided gpu_total_absent)
  have e: "fold AList.delete (map gpu_ModelId reqs) (provided gpus) = [] \<longleftrightarrow>
      gpu_ModelId ` set gpus \<subseteq> gpu_ModelId ` set reqs"
  proof -
    have nil: "(p :: (string, uint32) gomap) = [] \<longleftrightarrow> (\<forall>m. map_of p m = None)" for p
      by (cases p) auto
    show ?thesis
      unfolding nil[of "fold AList.delete (map gpu_ModelId reqs) (provided gpus)"] map_of_fold_delete
        map_of_provided by auto
  qed
  show ?thesis
    using match_gpus_result[OF assms, of "provided gpus" sk]
    by (cases "\<forall>r \<in> set reqs. gpu_Count r = gpu_total gpus (gpu_ModelId r)";
        cases "match_gpus reqs (provided gpus) sk") (simp_all add: satisfiesGPUs_def g e)
qed

lemma match_gpus_counters: "fst (match_gpus reqs p sk) = fst (match_gpus reqs p sk')"
  by (induction reqs arbitrary: p) (auto simp: Let_def)

lemma satisfiesGPUs_counters: "fst (satisfiesGPUs reqs gpus sk) = fst (satisfiesGPUs reqs gpus sk')"
  using match_gpus_counters[of reqs "provided gpus" sk sk']
  by (auto simp: satisfiesGPUs_def split: prod.split option.split)

subsection \<open>Selection\<close>

definition offers_requested :: "NodeResources \<Rightarrow> CloudletInfo \<Rightarrow> tables \<Rightarrow> FlavorInfo \<Rightarrow> bool" where
  "offers_requested nr cli tbls f =
     (case nr_OptResMap nr of
        Some m \<Rightarrow> lookup_all m f tbls {} = Inr (fst (InfraFlavorResources f tbls))
      | None \<Rightarrow> snd (InfraFlavorResources f tbls) = 0)"

definition suits :: "NodeResources \<Rightarrow> CloudletInfo \<Rightarrow> tables \<Rightarrow> FlavorInfo \<Rightarrow> bool" where
  "suits nr cli tbls f =
     (nr_Vcpus nr \<le> fi_Vcpus f \<and> nr_Ram nr \<le> fi_Ram f \<and> (fi_Disk f = 0 \<or> nr_Disk nr \<le> fi_Disk f)
      \<and> fst (satisfiesGPUs (nr_Gpus nr) (fi_Gpus f) no_skips) \<and> offers_requested nr cli tbls f)"

lemma resLookup_iff:
  "fst (resLookup m f cli tbls sk) =
     (if lookup_all m f tbls {} = Inr (fst (InfraFlavorResources f tbls))
      then Some (fst (findAZmatch ''gpu'' cli), fst (findImagematch ''gpu'' cli)) else None)"
  by (auto simp: resLookup_def split: sum.split)

definition picks :: "NodeResources \<Rightarrow> CloudletInfo \<Rightarrow> VMCreationSpec \<Rightarrow> FlavorInfo \<Rightarrow> VMCreationSpec \<Rightarrow> bool" where
  "picks nr cli v0 f v =
     (vs_FlavorInfo v = Some f \<and> vs_FlavorName v = fi_Name f
      \<and> (fi_Disk f = 0 \<longrightarrow> vs_ExternalVolumeSize v = nr_Disk nr)
      \<and> vs_ExternalVolumeSize v \<in> {vs_ExternalVolumeSize v0, nr_Disk nr})"

definition with_volume :: "NodeResources \<Rightarrow> FlavorInfo \<Rightarrow> VMCreationSpec \<Rightarrow> VMCreationSpec" where
  "with_volume nr f v = (if fi_Disk f = 0 then v\<lparr>vs_ExternalVolumeSize := nr_Disk nr\<rparr> else v)"

lemma pick_flavor_take:
  assumes "suits nr cli tbls f"
  shows "\<exists>az img. pick_flavor nr cli tbls (f # rest) v sk =
    ((with_volume nr f v)\<lparr>vs_FlavorName := fi_Name f, vs_AvailabilityZone := az, vs_ImageName := img,
       vs_FlavorInfo := Some f\<rparr>, None)"
proof -
  obtain ok sk1 where g: "satisfiesGPUs (nr_Gpus nr) (fi_Gpus f) sk = (ok, sk1)" by fastforce
  have ok: "ok" using assms satisfiesGPUs_counters[of "nr_Gpus nr" "fi_Gpus f" sk no_skips] g
    by (simp add: suits_def)
  have sz: "\<not> fi_Vcpus f < nr_Vcpus nr" "\<not> fi_Ram f < nr_Ram nr" "\<not> (fi_Disk f \<noteq> 0 \<and> fi_Disk f < nr_Disk nr)"
    using assms by (auto simp: suits_def not_less)
  show ?thesis
  proof (cases "nr_OptResMap nr")
    case None
    then have "pick_flavor nr cli tbls (f # rest) v sk =
        ((with_volume nr f v)\<lparr>vs_FlavorName := fi_Name f, vs_AvailabilityZone := [], vs_ImageName := [],
           vs_FlavorInfo := Some f\<rparr>, None)"
      using assms sz ok g by (auto simp: suits_def offers_requested_def with_volume_def)
    then show ?thesis by blast
  next
    case (Some m)
    obtain az img sk2 where "resLookup m f cli tbls sk1 = (Some (az, img), sk2)"
      using assms Some resLookup_iff[of m f cli tbls sk1]
      by (cases "resLookup m f cli tbls sk1") (auto simp: suits_def offers_requested_def)
    then have "pick_flavor nr cli tbls (f # rest) v sk =
        ((with_volume nr f v)\<lparr>vs_FlavorName := fi_Name f, vs_AvailabilityZone := az, vs_ImageName := img,
           vs_FlavorInfo := Some f\<rparr>, None)"
      using sz ok g Some by (auto simp: with_volume_def)
    then show ?thesis by blast
  qed
qed

lemma pick_flavor_skip:
  assumes "\<not> suits nr cli tbls f"
  shows "\<exists>v' sk'. pick_flavor nr cli tbls (f # rest) v sk = pick_flavor nr cli tbls rest v' sk' \<and>
    v' \<in> {v, with_volume nr f v}"
proof -
  obtain ok sk1 where g: "satisfiesGPUs (nr_Gpus nr) (fi_Gpus f) sk = (ok, sk1)" by fastforce
  then have ok: "ok = fst (satisfiesGPUs (nr_Gpus nr) (fi_Gpus f) no_skips)"
    using satisfiesGPUs_counters[of "nr_Gpus nr" "fi_Gpus f" sk no_skips] by simp
  consider "fi_Vcpus f < nr_Vcpus nr \<or> fi_Ram f < nr_Ram nr \<or> fi_Disk f \<noteq> 0 \<and> fi_Disk f < nr_Disk nr"
    | "\<not> fi_Vcpus f < nr_Vcpus nr" "\<not> fi_Ram f < nr_Ram nr" "\<not> (fi_Disk f \<noteq> 0 \<and> fi_Disk f < nr_Disk nr)"
    by blast
  then show ?thesis
  proof cases
    case 1
    then show ?thesis by (auto simp: Let_def)
  next
    case 2
    note sz = 2
    show ?thesis
    proof (cases ok)
      case False
      then have "pick_flavor nr cli tbls (f # rest) v sk = pick_flavor nr cli tbls rest (with_volume nr f v) sk1"
        using sz g by (auto simp: with_volume_def)
      then show ?thesis by blast
    next
      case True
      then have no: "\<not> offers_requested nr cli tbls f"
        using assms sz ok by (auto simp: suits_def not_less)
      show ?thesis
      proof (cases "nr_OptResMap nr")
        case None
        then have "\<exists>sk'. pick_flavor nr cli tbls (f # rest) v sk = pick_flavor nr cli tbls rest (with_volume nr f v) sk'"
          using sz g True no by (auto simp: with_volume_def offers_requested_def)
        then show ?thesis by blast
      next
        case (Some m)
        obtain sk2 where "resLookup m f cli tbls sk1 = (None, sk2)"
          using no Some resLookup_iff[of m f cli tbls sk1]
          by (cases "resLookup m f cli tbls sk1") (auto simp: offers_requested_def)
        then have "pick_flavor nr cli tbls (f # rest) v sk = pick_flavor nr cli tbls rest (with_volume nr f v) sk2"
          using sz g True Some by (auto simp: with_volume_def)
        then show ?thesis by blast
      qed
    qed
  qed
qed

lemma pick_flavor_find:
  "case find (suits nr cli tbls) fs of
     None \<Rightarrow> \<exists>sk'. snd (pick_flavor nr cli tbls fs v sk) = Some (NoSuitableFlavor sk')
   | Some f \<Rightarrow> snd (pick_flavor nr cli tbls fs v sk) = None \<and> picks nr cli v f (fst (pick_flavor nr cli tbls fs v sk))"
proof (induction fs arbitrary: v sk)
  case (Cons f fs)
  show ?case
  proof (cases "suits nr cli tbls f")
    case True
    from pick_flavor_take[OF True, of fs v sk] show ?thesis
      using True by (auto simp: picks_def with_volume_def)
  next
    case False
    then obtain v' sk' where p: "pick_flavor nr cli tbls (f # fs) v sk = pick_flavor nr cli tbls fs v' sk'"
      "v' \<in> {v, with_volume nr f v}" using pick_flavor_skip by metis
    have "picks nr cli v g x" if "picks nr cli v' g x" for g x
      using that p(2) by (auto simp: picks_def with_volume_def split: if_splits)
    then show ?thesis using Cons.IH[of v' sk'] False unfolding p(1) by (auto split: option.splits)
  qed
qed simp

lemma find_sorted_min:
  assumes "sorted_wrt (\<lambda>a b. \<not> flavor_less b a) fs" "find P fs = Some f" "g \<in> set fs" "P g"
  shows "\<not> flavor_less g f"
  using assms
proof (induction fs)
  case (Cons a fs)
  show ?case
  proof (cases "P a")
    case True
    then show ?thesis using Cons.prems by (auto simp: flavor_less_iff)
  next
    case False
    then show ?thesis using Cons by auto
  qed
qed simp

subsection \<open>Properties\<close>

text \<open>
  (C4) \<open>GetVMSpec\<close> finds the closest flavor. Once the request passes the cloudlet's GPU
  validation, it succeeds exactly when some flavor of the cloudlet suits the request (enough vCPUs and
  RAM, enough disk or a separate volume, exactly the requested GPUs, exactly the requested optional
  resources), and then the flavor it names suits and no suitable flavor is smaller in the order vCPUs, RAM,
  disk; a zero-disk flavor comes with an external volume of the requested size.
\<close>

theorem GetVMSpec_closest:
  assumes "sorts sort_slice (cli_Flavors cli)" "ValidateGPUResource nr tbls = None"
    and "nr_OptResMap nr \<noteq> None \<Longrightarrow> tbls \<noteq> None"
  shows "(snd (GetVMSpec sort_slice nr cli tbls) = None \<longleftrightarrow> (\<exists>f \<in> set (cli_Flavors cli). suits nr cli tbls f))
    \<and> (\<forall>v. GetVMSpec sort_slice nr cli tbls = (Some v, None) \<longrightarrow>
        (\<exists>f \<in> set (cli_Flavors cli). suits nr cli tbls f \<and> vs_FlavorInfo v = Some f \<and> vs_FlavorName v = fi_Name f
           \<and> (fi_Disk f = 0 \<longrightarrow> vs_ExternalVolumeSize v = nr_Disk nr)
           \<and> (\<forall>g \<in> set (cli_Flavors cli). suits nr cli tbls g \<longrightarrow> \<not> flavor_less g f)))"
proof -
  let ?fs = "sort_slice (cli_Flavors cli)"
  let ?r = "pick_flavor nr cli tbls ?fs zero_VMCreationSpec no_skips"
  have set: "set ?fs = set (cli_Flavors cli)" using assms(1) by (metis sorts_def mset_eq_setD)
  have srt: "sorted_wrt (\<lambda>a b. \<not> flavor_less b a) ?fs" using assms(1) by (simp add: sorts_def)
  have r: "GetVMSpec sort_slice nr cli tbls = (Some (fst ?r), snd ?r)"
    using assms(2,3) by (cases "nr_OptResMap nr") (auto simp: GetVMSpec_def case_prod_beta)
  show ?thesis
  proof (cases "find (suits nr cli tbls) ?fs")
    case None
    then have "\<not> (\<exists>f \<in> set (cli_Flavors cli). suits nr cli tbls f)" by (auto simp: find_None_iff set)
    moreover have "snd ?r \<noteq> None"
      using None pick_flavor_find[of nr cli tbls ?fs zero_VMCreationSpec no_skips] by auto
    ultimately show ?thesis by (auto simp: r)
  next
    case (Some f)
    then have f: "f \<in> set (cli_Flavors cli)" "suits nr cli tbls f"
      using set by (auto simp: find_Some_iff)
    have "snd ?r = None" "picks nr cli zero_VMCreationSpec f (fst ?r)"
      using Some pick_flavor_find[of nr cli tbls ?fs zero_VMCreationSpec no_skips] by auto
    moreover have "\<not> flavor_less g f" if "g \<in> set (cli_Flavors cli)" "suits nr cli tbls g" for g
      using find_sorted_min[OF srt Some _ that(2)] that(1) set by blast
    ultimately show ?thesis using f by (auto simp: r picks_def)
  qed
qed

definition ex_flavor :: "string \<Rightarrow> uint64 \<Rightarrow> uint64 \<Rightarrow> uint64 \<Rightarrow> GPUResource list \<Rightarrow> FlavorInfo" where
  "ex_flavor name vcpus ram disk gpus =
     \<lparr>fi_Name = name, fi_Vcpus = vcpus, fi_Ram = ram, fi_Disk = disk, fi_Gpus = gpus, fi_PropMap = []\<rparr>"

theorem GetVMSpec_closest_witness:
  "let nr = zero_NodeResources\<lparr>nr_Vcpus := 2, nr_Ram := 2048, nr_Disk := 20\<rparr>;
       cli = \<lparr>cli_Flavors = [ex_flavor ''large'' 8 16384 100 [], ex_flavor ''small'' 2 4096 40 [],
               ex_flavor ''tiny'' 1 1024 10 []], cli_OsImages = [], cli_AvailabilityZones = []\<rparr>
   in snd (GetVMSpec (sort_key flavor_size) nr cli None) = None"
proof -
  let ?nr = "zero_NodeResources\<lparr>nr_Vcpus := 2, nr_Ram := 2048, nr_Disk := 20\<rparr>"
  let ?cli = "\<lparr>cli_Flavors = [ex_flavor ''large'' 8 16384 100 [], ex_flavor ''small'' 2 4096 40 [],
      ex_flavor ''tiny'' 1 1024 10 []], cli_OsImages = [], cli_AvailabilityZones = []\<rparr>"
  have "ValidateGPUResource ?nr None = None" "nr_OptResMap ?nr = None"
    by (simp_all add: ValidateGPUResource_def zero_NodeResources_def)
  moreover have "suits ?nr ?cli None (ex_flavor ''small'' 2 4096 40 [])"
    by code_simp
  ultimately show ?thesis
    using GetVMSpec_closest[of "sort_key flavor_size" ?cli ?nr None, OF sorts_sort_key] by (simp add: Let_def)
qed

text \<open>
  GPUs have to match exactly: when the request lists each model once, \<open>satisfiesGPUs\<close> accepts a
  flavor exactly when it provides the requested count of every requested model, summed over its
  entries, and no other model; the failure counters never influence the answer.
\<close>

theorem satisfiesGPUs_exact:
  assumes "distinct (map gpu_ModelId reqs)"
  shows "fst (satisfiesGPUs reqs gpus sk) \<longleftrightarrow>
    (\<forall>r \<in> set reqs. gpu_Count r = gpu_total gpus (gpu_ModelId r))
    \<and> gpu_ModelId ` set gpus \<subseteq> gpu_ModelId ` set reqs"
  using satisfiesGPUs_iff[OF assms] .

theorem satisfiesGPUs_exact_witness:
  "let g = \<lambda>m c. \<lparr>gpu_ModelId = m, gpu_Count = c, gpu_Vendor = [], gpu_Memory = 0\<rparr>
   in fst (satisfiesGPUs [g ''nvidia-t4'' 3] [g ''nvidia-t4'' 1, g ''nvidia-t4'' 2] no_skips)"
proof -
  let ?g = "\<lambda>m c. \<lparr>gpu_ModelId = m, gpu_Count = c, gpu_Vendor = [], gpu_Memory = 0\<rparr>"
  show ?thesis
    using satisfiesGPUs_exact[of "[?g ''nvidia-t4'' 3]" "[?g ''nvidia-t4'' 1, ?g ''nvidia-t4'' 2]" no_skips]
    by (simp add: gpu_total_def Let_def)
qed

text \<open>
  A stale external volume: passing over a zero-disk flavor leaves its volume size in the spec, so the
  spec returned for a later flavor with a large enough disk of its own can still ask for an external volume.
\<close>

theorem GetVMSpec_stale_external_volume:
  "\<exists>nr cli v f. GetVMSpec (sort_key flavor_size) nr cli None = (Some v, None) \<and> vs_FlavorInfo v = Some f
     \<and> fi_Disk f \<noteq> 0 \<and> nr_Disk nr \<le> fi_Disk f \<and> vs_ExternalVolumeSize v \<noteq> 0"
proof -
  let ?gpu = "\<lparr>gpu_ModelId = ''nvidia-t4'', gpu_Count = 1, gpu_Vendor = [], gpu_Memory = 0\<rparr>"
  let ?f = "ex_flavor ''plain'' 4 4096 40 []"
  let ?nr = "zero_NodeResources\<lparr>nr_Vcpus := 2, nr_Ram := 2048, nr_Disk := 20\<rparr>"
  let ?cli = "\<lparr>cli_Flavors = [ex_flavor ''gpu'' 2 4096 0 [?gpu], ?f], cli_OsImages = [], cli_AvailabilityZones = []\<rparr>"
  let ?v = "\<lparr>vs_FlavorName = ''plain'', vs_ExternalVolumeSize = 20, vs_AvailabilityZone = [], vs_ImageName = [],
      vs_FlavorInfo = Some ?f\<rparr>"
  have "GetVMSpec (sort_key flavor_size) ?nr ?cli None = (Some ?v, None)" by code_simp
  moreover have "fi_Disk ?f \<noteq> 0" "nr_Disk ?nr \<le> fi_Disk ?f" by (simp_all add: ex_flavor_def)
  ultimately have "GetVMSpec (sort_key flavor_size) ?nr ?cli None = (Some ?v, None) \<and> vs_FlavorInfo ?v = Some ?f
      \<and> fi_Disk ?f \<noteq> 0 \<and> nr_Disk ?nr \<le> fi_Disk ?f \<and> vs_ExternalVolumeSize ?v \<noteq> 0" by simp
  then show ?thesis by blast
qed

end
