(* ===== verification/ClusterRes.thy ===== *)
theory ClusterRes
  imports ResFits
begin

text \<open>
  Resource accounting inside a cluster, \<^verbatim>\<open>pkg/controller/cluster_resources.go\<close>: what the application instances of
  a cluster use, what its node pools offer, the pools made for a new cluster, and the score that ranks clusters. The caches of
  the controller are lookup tables passed as arguments. The main result composes this accounting with the admission
  check of \<open>ResFits\<close>: a cluster filled by admitted requests is never overcommitted.
\<close>

subsection \<open>Data\<close>

type_synonym ClusterKey = "string \<times> string"
type_synonym AppInstKey = "string \<times> string"
type_synonym AppKey = "string \<times> string \<times> string"

datatype DeleteType = NO_AUTO_DELETE | AUTO_DELETE

record App =
  app_Organization :: string
  app_Deployment :: string
  app_DelOpt :: DeleteType
  app_LoadBalancer :: bool

record AppInst =
  ai_AppKey :: AppKey
  ai_ClusterKey :: ClusterKey
  ai_KubernetesResources :: "KubernetesResources option"
  ai_NodeResources :: "NodeResources option"

record apiCaches =
  appInstCache :: "(AppInstKey, AppInst) gomap"
  appCache :: "(AppKey, App) gomap"

datatype usage_error =
    AppInstNotFound AppInstKey | AppNotFound AppKey | UsedResources optres_error | TotalResourcesErr fit_error
  | MissingResources | DoesNotFit fit_error

definition IsEdgeCloudOrg :: "string \<Rightarrow> bool" where
  "IsEdgeCloudOrg s = (s = ''edgecloudorg'' \<or> s = ''openXedge'' \<or> s = ''MobiledgeX'')"

definition IsSideCarApp :: "App \<Rightarrow> bool" where
  "IsSideCarApp app = (IsEdgeCloudOrg (app_Organization app) \<and> app_DelOpt app = AUTO_DELETE)"

subsection \<open>Used resources\<close>

text \<open>The callback threads the state it accumulates in; the walk stops at the first error.\<close>

fun walkClusterAppInsts ::
  "apiCaches \<Rightarrow> AppInstKey option \<Rightarrow> (App \<Rightarrow> AppInst \<Rightarrow> 's \<Rightarrow> 's \<times> usage_error option) \<Rightarrow> AppInstKey list \<Rightarrow> 's
   \<Rightarrow> 's \<times> usage_error option" where
  "walkClusterAppInsts c newAppInst cb [] s = (s, None)"
| "walkClusterAppInsts c newAppInst cb (aikey # refs) s =
     (if newAppInst = Some aikey then walkClusterAppInsts c newAppInst cb refs s
      else case map_of (appInstCache c) aikey of
        None \<Rightarrow> (s, Some (AppInstNotFound aikey))
      | Some appInst \<Rightarrow>
          (case map_of (appCache c) (ai_AppKey appInst) of
             None \<Rightarrow> (s, Some (AppNotFound (ai_AppKey appInst)))
           | Some app \<Rightarrow>
               (case cb app appInst s of
                  (s', Some e) \<Rightarrow> (s', Some e)
                | (s', None) \<Rightarrow> walkClusterAppInsts c newAppInst cb refs s')))"

definition kube_cb :: "App \<Rightarrow> AppInst \<Rightarrow> ResValMap \<times> ResValMap \<Rightarrow> (ResValMap \<times> ResValMap) \<times> usage_error option" where
  "kube_cb app appInst s =
     (case s of (cpuPoolVals, gpuPoolVals) \<Rightarrow>
      (case ai_KubernetesResources appInst of None \<Rightarrow> (s, None)
       | Some kr \<Rightarrow>
           if IsSideCarApp app then (s, None)
           else case AddNodePoolResources cpuPoolVals (CpuPool kr) of
             (cpu', Some e) \<Rightarrow> ((cpu', gpuPoolVals), Some (UsedResources e))
           | (cpu', None) \<Rightarrow>
               (case AddNodePoolResources gpuPoolVals (GpuPool kr) of
                  (gpu', Some e) \<Rightarrow> ((cpu', gpu'), Some (UsedResources e))
                | (gpu', None) \<Rightarrow> ((cpu', gpu'), None))))"

definition calcKubernetesClusterUsedResources ::
  "apiCaches \<Rightarrow> AppInstKey list \<Rightarrow> AppInstKey option \<Rightarrow> (ResValMap \<times> ResValMap) \<times> usage_error option" where
  "calcKubernetesClusterUsedResources c refs newAppInst = walkClusterAppInsts c newAppInst kube_cb refs ([], [])"

definition vm_cb :: "App \<Rightarrow> AppInst \<Rightarrow> ResValMap \<Rightarrow> ResValMap \<times> usage_error option" where
  "vm_cb app appInst resVals =
     (case ai_NodeResources appInst of None \<Rightarrow> (resVals, None)
      | Some nr \<Rightarrow> (let (r, e) = AddNodeResources resVals (Some nr) 1 in (r, map_option UsedResources e)))"

definition calcVMClusterUsedResources ::
  "apiCaches \<Rightarrow> AppInstKey list \<Rightarrow> AppInstKey option \<Rightarrow> ResValMap \<times> usage_error option" where
  "calcVMClusterUsedResources c refs newAppInst = walkClusterAppInsts c newAppInst vm_cb refs []"

subsection \<open>Pools for a new cluster\<close>

text \<open>\<^verbatim>\<open>uint64(math.Ceil(x))\<close>.\<close>

definition ceil64 :: "rat \<Rightarrow> uint64" where
  "ceil64 x = word_of_int \<lceil>x\<rceil>"

text \<open>The entry that \<^verbatim>\<open>nrGpusLookup\<close> holds for a model: the last one of the list.\<close>

fun last_index :: "string \<Rightarrow> GPUResource list \<Rightarrow> nat \<Rightarrow> nat option \<Rightarrow> nat option" where
  "last_index m [] i acc = acc"
| "last_index m (g # gs) i acc = last_index m gs (Suc i) (if gpu_ModelId g = m then Some i else acc)"

text \<open>
  One iteration of the loop over the total GPUs. The first entries of \<open>gpus\<close> are the ones of the topology, shared by
  pointer: raising a count there also changes the request.
\<close>

definition gpu_step :: "GPUResource list \<Rightarrow> uint64 \<Rightarrow> GPUResource \<Rightarrow> GPUResource list \<Rightarrow> GPUResource list" where
  "gpu_step minGpus numNodes gpu gpus =
     (let perNode = ceil64 (fl (fl (of_int (uint (gpu_Count gpu))) / fl (of_int (uint numNodes))));
          new = \<lparr>gpu_ModelId = gpu_ModelId gpu, gpu_Count = ucast perNode, gpu_Vendor = [], gpu_Memory = 0\<rparr>
      in case last_index (gpu_ModelId gpu) minGpus 0 None of
           Some i \<Rightarrow> if gpu_Count (gpus ! i) < ucast perNode then gpus[i := (gpus ! i)\<lparr>gpu_Count := ucast perNode\<rparr>]
                     else gpus @ [new]
         | None \<Rightarrow> gpus @ [new])"

definition optres_step :: "uint64 \<Rightarrow> ResVal \<Rightarrow> (string, string) gomap \<Rightarrow> (string, string) gomap" where
  "optres_step numNodes res m =
     (let perNode = fl (Float (rv_Value res) / fl (of_int (uint numNodes)))
      in AList.update (rv_OptResMapKey res) (rv_OptResMapSpec res @ '':'' @ FormatInt (uint (ceil64 perNode))) m)"

definition pool_nodes :: "NodePoolResources \<Rightarrow> uint64" where
  "pool_nodes pr =
     (let numNodes = word_of_int (MinNumberOfNodes (Topology pr)) in if numNodes = 0 then 1 else numNodes)"

text \<open>The result is the pool and the request as the shared GPU entries leave it.\<close>

definition NodePoolFromResources :: "string \<Rightarrow> NodePoolResources \<Rightarrow> NodePool \<times> NodePoolResources" where
  "NodePoolFromResources name pr =
     (let t = Topology pr;
          numNodes = pool_nodes pr;
          n = fl (of_int (uint numNodes));
          vcpus = (if MinNodeVcpus t = 0 then ceil64 (fl (Float (TotalVcpus pr) / n)) else MinNodeVcpus t);
          ram = (if MinNodeMemory t = 0 then ceil64 (fl (fl (of_int (uint (TotalMemory pr))) / n)) else MinNodeMemory t);
          disk = (if MinNodeDisk t = 0 then ceil64 (fl (fl (of_int (uint (TotalDisk pr))) / n)) else MinNodeDisk t);
          gpus = fold (gpu_step (MinNodeGpus t) numNodes) (TotalGpus pr) (MinNodeGpus t);
          opt = (if entries (TotalOptRes pr) = [] then None
                 else Some (fold (\<lambda>(_, res). optres_step numNodes res)
                       (fst (AddOptResMap [] (entries (TotalOptRes pr)) 1)) []))
      in (\<lparr>np_Name = name, np_NumNodes = ucast numNodes,
           np_NodeResources = Some \<lparr>nr_Vcpus = vcpus, nr_Ram = ram, nr_Disk = disk, nr_Gpus = gpus,
             nr_OptResMap = opt, nr_InfraNodeFlavor = []\<rparr>, np_Scalable = False\<rparr>,
          pr\<lparr>Topology := t\<lparr>MinNodeGpus := take (length (MinNodeGpus t)) gpus\<rparr>\<rparr>))"

definition GetNodePoolsFromReqs :: "KubernetesResources option \<Rightarrow> (usage_error, NodePool list) result" where
  "GetNodePoolsFromReqs kr =
     (case kr of None \<Rightarrow> Err MissingResources
      | Some k \<Rightarrow>
          Ok ((case CpuPool k of None \<Rightarrow> [] | Some p \<Rightarrow> [fst (NodePoolFromResources ''cpupool'' p)]) @
              (case GpuPool k of None \<Rightarrow> [] | Some p \<Rightarrow> [fst (NodePoolFromResources ''gpupool'' p)])))"

definition GetNodeResourcesFromReqs :: "NodeResources option \<Rightarrow> (usage_error, NodeResources) result" where
  "GetNodeResourcesFromReqs nr = (case nr of None \<Rightarrow> Err MissingResources | Some n \<Rightarrow> Ok n)"

subsection \<open>Scores, totals and usage\<close>

definition resourceWeights :: "(string, uint64) gomap" where
  "resourceWeights = [(''vCPUs'', 1000), (''RAM'', 1)]"

definition score_step :: "ResValMap \<Rightarrow> string \<times> uint64 \<Rightarrow> uint64 \<times> uint64 \<Rightarrow> uint64 \<times> uint64" where
  "score_step free rw acc =
     (case rw of (res, weight) \<Rightarrow> case acc of (score, numScored) \<Rightarrow>
        (case map_of free res of
           Some resVal \<Rightarrow>
             let freeDecVal = Mult (NewUdec64 (Whole (rv_Value resVal)) (Nanos (rv_Value resVal))) (ucast weight)
             in (score + Whole freeDecVal, numScored + 1)
         | None \<Rightarrow> (score, numScored)))"

definition calcResourceScore :: "ResValMap \<Rightarrow> uint64" where
  "calcResourceScore free =
     (let (score, numScored) = fold (score_step free) resourceWeights (0, 0)
      in if numScored = 0 then 0 else score div numScored)"

text \<open>\<open>None\<close> is the panic on a pool without node resources.\<close>

fun total_loop ::
  "FlavorLookup \<Rightarrow> NodePool list \<Rightarrow> ResValMap \<Rightarrow> ResValMap \<Rightarrow> (fit_error, ResValMap \<times> ResValMap) result option" where
  "total_loop lk [] cpuRes gpuRes = Some (Ok (cpuRes, gpuRes))"
| "total_loop lk (pool # pools) cpuRes gpuRes =
     (case np_NodeResources pool of None \<Rightarrow> None
      | Some nr \<Rightarrow>
          (case GetInfraNodeResources nr lk of
             Inl e \<Rightarrow> Some (Err (PoolErr (np_Name pool) e))
           | Inr infraRes \<Rightarrow>
               (case NodeResourcesToResValMap (Some infraRes) of
                  Inl e \<Rightarrow> Some (Err (PoolResourcesErr (np_Name pool) e))
                | Inr counts \<Rightarrow>
                    if NodeResourcesGPUCount (Some nr) > 0
                    then total_loop lk pools cpuRes (AddAllMult gpuRes counts (np_NumNodes pool))
                    else total_loop lk pools (AddAllMult cpuRes counts (np_NumNodes pool)) gpuRes)))"

definition calcKubernetesClusterTotalResources ::
  "ClusterInst \<Rightarrow> FlavorLookup \<Rightarrow> (fit_error, ResValMap \<times> ResValMap) result option" where
  "calcKubernetesClusterTotalResources ci lk = total_loop lk (ci_NodePools ci) [] []"

definition calcVMClusterTotalResources :: "ClusterInst \<Rightarrow> FlavorLookup \<Rightarrow> (fit_error, ResValMap) result" where
  "calcVMClusterTotalResources ci lk =
     (case ci_NodeResources ci of None \<Rightarrow> Ok []
      | Some nr \<Rightarrow>
          (case GetInfraNodeResources nr lk of
             Inl e \<Rightarrow> Err e
           | Inr nodeRes \<Rightarrow>
               (case NodeResourcesToResValMap (Some nodeRes) of
                  Inl e \<Rightarrow> Err (ClusterResources e) | Inr resVals \<Rightarrow> Ok resVals)))"

definition clusterResValToInfra ::
  "(InfraResource list \<Rightarrow> InfraResource list) \<Rightarrow> ResValMap \<Rightarrow> ResValMap \<Rightarrow> InfraResource list" where
  "clusterResValToInfra sort_slice usedVals totalVals =
     sort_slice
       (map (\<lambda>(resName, resVal).
          case map_of totalVals resName of
            Some tot \<Rightarrow> (AsInfraRes resVal)\<lparr>ir_InfraMaxValue := Whole (rv_Value tot)\<rparr>
          | None \<Rightarrow> AsInfraRes resVal) usedVals @
        map (\<lambda>(_, resVal). let r = AsInfraRes resVal in r\<lparr>ir_InfraMaxValue := ir_Value r, ir_Value := 0\<rparr>)
          (filter (\<lambda>(resName, _). map_of usedVals resName = None) totalVals))"

record ClusterResourceUsage =
  cu_TotalResources :: "InfraResource list"
  cu_CpuPoolsResources :: "InfraResource list"
  cu_GpuPoolsResources :: "InfraResource list"
  cu_ResourceScore :: uint64
  cu_CpuPoolsResourceScore :: uint64
  cu_GpuPoolsResourceScore :: uint64

text \<open>
  The cluster's references, already fetched, are the list \<open>refs\<close>; the keys and the owner copied into the result
  are left out.
\<close>

definition getClusterResourceUsage ::
  "(InfraResource list \<Rightarrow> InfraResource list) \<Rightarrow> apiCaches \<Rightarrow> AppInstKey list \<Rightarrow> string \<Rightarrow> ClusterInst \<Rightarrow> FlavorLookup
   \<Rightarrow> (usage_error, ClusterResourceUsage) result option" where
  "getClusterResourceUsage sort_slice c refs deployment ci lk =
     (if deployment = ''kubernetes'' then
        (case calcKubernetesClusterUsedResources c refs None of
           (_, Some e) \<Rightarrow> Some (Err e)
         | ((cpuUsed, gpuUsed), None) \<Rightarrow>
             (case calcKubernetesClusterTotalResources ci lk of
                None \<Rightarrow> None
              | Some (Inl e) \<Rightarrow> Some (Err (TotalResourcesErr e))
              | Some (Inr (cpuTotal, gpuTotal)) \<Rightarrow>
                  let (cpuFree, u) = SubFloorAll (Clone cpuTotal) cpuUsed False;
                      (gpuFree, u) = SubFloorAll (Clone gpuTotal) gpuUsed u;
                      used = AddAllMult cpuUsed gpuUsed 1;
                      tot = AddAllMult cpuTotal gpuTotal 1;
                      (free, _) = SubFloorAll (Clone tot) used u
                  in Some (Ok \<lparr>cu_TotalResources = clusterResValToInfra sort_slice used tot,
                       cu_CpuPoolsResources = clusterResValToInfra sort_slice cpuUsed cpuTotal,
                       cu_GpuPoolsResources = clusterResValToInfra sort_slice gpuUsed gpuTotal,
                       cu_ResourceScore = calcResourceScore free,
                       cu_CpuPoolsResourceScore = calcResourceScore cpuFree,
                       cu_GpuPoolsResourceScore = calcResourceScore gpuFree\<rparr>)))
      else
        (case calcVMClusterUsedResources c refs None of
           (_, Some e) \<Rightarrow> Some (Err e)
         | (used, None) \<Rightarrow>
             (case calcVMClusterTotalResources ci lk of
                Inl e \<Rightarrow> Some (Err (TotalResourcesErr e))
              | Inr tot \<Rightarrow>
                  let (free, _) = SubFloorAll (Clone tot) used False
                  in Some (Ok \<lparr>cu_TotalResources = clusterResValToInfra sort_slice used tot,
                       cu_CpuPoolsResources = [], cu_GpuPoolsResources = [],
                       cu_ResourceScore = calcResourceScore free,
                       cu_CpuPoolsResourceScore = 0, cu_GpuPoolsResourceScore = 0\<rparr>))))"

subsection \<open>Does an application instance fit\<close>

definition AppDeploysToKubernetes :: "string \<Rightarrow> bool" where
  "AppDeploysToKubernetes deployment = (deployment = ''kubernetes'' \<or> deployment = ''helm'')"

text \<open>\<open>None\<close> is the panic on a Kubernetes instance without resources.\<close>

definition fitsAppResources ::
  "apiCaches \<Rightarrow> ClusterInst \<Rightarrow> AppInstKey list \<Rightarrow> App \<Rightarrow> AppInstKey \<Rightarrow> AppInst \<Rightarrow> FlavorLookup \<Rightarrow> bool
   \<Rightarrow> (KubeResScaleSpec option \<times> ResValMap \<times> usage_error option) option" where
  "fitsAppResources c ci refs app key appInst flavorLookup clusterSpecified =
     (if IsSideCarApp app then Some (None, [], None)
      else if AppDeploysToKubernetes (app_Deployment app) then
        (case calcKubernetesClusterUsedResources c refs (Some key) of
           (_, Some e) \<Rightarrow> Some (None, [], Some e)
         | ((cpuUsed, gpuUsed), None) \<Rightarrow>
             (case ai_KubernetesResources appInst of
                None \<Rightarrow> None
              | Some kr \<Rightarrow>
                  (case KubernetesResourcesFits ci kr cpuUsed gpuUsed flavorLookup clusterSpecified of
                     (ss, free, err) \<Rightarrow> Some (ss, free, map_option DoesNotFit err))))
      else
        (case calcVMClusterUsedResources c refs (Some key) of
           (_, Some e) \<Rightarrow> Some (None, [], Some e)
         | (used, None) \<Rightarrow>
             Some (None, [], map_option DoesNotFit (NodeResourcesFits ci (ai_NodeResources appInst) used flavorLookup))))"

subsection \<open>What a request adds\<close>

definition opt_vals :: "(string, string) gomap \<Rightarrow> uint32 \<Rightarrow> ResVal list" where
  "opt_vals m multi =
     concat (map (\<lambda>(resName, v). case ParseOptResVal v of Inl _ \<Rightarrow> []
       | Inr (typ, alias, cnt) \<Rightarrow>
           [(NewWholeResVal (Join '':'' ([resName] @ (if typ \<noteq> [] then [typ] else []) @ (if alias \<noteq> [] then [alias] else [])))
              [] (word_of_int cnt * ucast multi))\<lparr>rv_OptResMapKey := resName, rv_OptResMapSpec := before_last_colon v\<rparr>]) m)"

definition pool_vals :: "NodePoolResources \<Rightarrow> ResVal list" where
  "pool_vals n =
     [NewDecimalResVal ''vCPUs'' [] (NewUdec64 (Whole (TotalVcpus n)) (Nanos (TotalVcpus n))),
      NewDecimalResVal ''RAM'' ''MB'' (NewUdec64 (TotalMemory n) 0),
      NewDecimalResVal ''Disk'' ''GB'' (NewUdec64 (TotalDisk n) 0)]
     @ map (\<lambda>g. NewGPURes (gpu_ModelId g) (gpu_Count g)) (TotalGpus n) @ opt_vals (entries (TotalOptRes n)) 1"

abbreviation add_vals :: "ResVal list \<Rightarrow> ResValMap \<Rightarrow> ResValMap" where
  "add_vals \<equiv> fold (\<lambda>r s. AddRV s r)"

definition demand :: "NodePoolResources \<Rightarrow> string \<Rightarrow> nat" where
  "demand n k = (\<Sum>r\<leftarrow>pool_vals n. if Key r = k then nanoval (rv_Value r) else 0)"

lemma AddOptResMap_vals:
  "snd (AddOptResMap s m c) = None \<Longrightarrow> fst (AddOptResMap s m c) = add_vals (opt_vals m c) s"
proof (induction m arbitrary: s)
  case (Cons e m)
  obtain resName v where e: "e = (resName, v)" by (cases e)
  show ?case
  proof (cases "ParseOptResVal v")
    case (Inl err)
    with Cons.prems show ?thesis by (simp add: e AddOptRes_def)
  next
    case (Inr p)
    with Cons show ?thesis by (cases p) (simp add: e AddOptRes_def opt_vals_def Let_def)
  qed
qed (simp add: opt_vals_def)

lemma AddGPUs_vals: "AddGPUs s gpus 1 = add_vals (map (\<lambda>g. NewGPURes (gpu_ModelId g) (gpu_Count g)) gpus) s"
  by (induction gpus arbitrary: s) (simp_all add: AddGPUs_def AddGPU_def)

lemma AddNodePoolResources_vals:
  "snd (AddNodePoolResources s (Some n)) = None \<Longrightarrow> fst (AddNodePoolResources s (Some n)) = add_vals (pool_vals n) s"
  using AddOptResMap_vals[where c = 1]
  by (simp add: AddNodePoolResources_def pool_vals_def AddGPUs_vals AddDisk_def AddRam_def AddVcpus_def AddRes_def)

lemma AddOptRes_err: "snd (AddOptRes s n v c) = snd (AddOptRes t n v c)"
  by (simp add: AddOptRes_def Let_def split: sum.split prod.split)

lemma AddOptResMap_err: "snd (AddOptResMap s m c) = snd (AddOptResMap t m c)"
proof (induction m arbitrary: s t)
  case (Cons e m)
  obtain n v where e: "e = (n, v)" by (cases e)
  obtain s' x t' where r: "AddOptRes s n v c = (s', x)" "AddOptRes t n v c = (t', x)"
    using AddOptRes_err[of s n v c t] by (metis prod.collapse)
  show ?case using Cons.IH[of s' t'] by (cases x) (simp_all add: e r)
qed simp

lemma AddNodePoolResources_err: "snd (AddNodePoolResources s n) = snd (AddNodePoolResources t n)"
  by (cases n) (simp_all add: AddNodePoolResources_def, rule AddOptResMap_err)

lemma pool_vals_valid: "r \<in> set (pool_vals n) \<Longrightarrow> udec_valid (rv_Value r)"
  by (auto simp: pool_vals_def opt_vals_def NewGPURes_def NewWholeResTypeVal_def split: sum.splits)

lemma amt_add_vals:
  assumes "resmap_wf s" "\<And>r. r \<in> set rs \<Longrightarrow> udec_valid (rv_Value r)"
    "\<And>k. amt s k + (\<Sum>r\<leftarrow>rs. if Key r = k then nanoval (rv_Value r) else 0) < udec_limit"
  shows "resmap_wf (add_vals rs s) \<and>
    amt (add_vals rs s) k = amt s k + (\<Sum>r\<leftarrow>rs. if Key r = k then nanoval (rv_Value r) else 0)"
  using assms
proof (induction rs arbitrary: s)
  case (Cons r rs)
  have v: "udec_valid (rv_Value r)" using Cons.prems(2) by simp
  have lim: "amt s (Key r) + nanoval (rv_Value r) < udec_limit" using Cons.prems(3)[of "Key r"] by simp
  note a = amt_AddRV[OF Cons.prems(1) v lim]
  have "amt (AddRV s r) j + (\<Sum>r\<leftarrow>rs. if Key r = j then nanoval (rv_Value r) else 0) < udec_limit" for j
    using Cons.prems(3)[of j] by (simp add: a split: if_splits)
  from Cons.IH[OF wf_AddRV[OF Cons.prems(1) v] Cons.prems(2) this] show ?case by (simp add: a)
qed simp

lemma AddNodePoolResources_demand:
  assumes "AddNodePoolResources s (Some n) = (s', None)" "resmap_wf s" "\<And>k. amt s k + demand n k < udec_limit"
  shows "resmap_wf s' \<and> amt s' k = amt s k + demand n k"
proof -
  have "s' = add_vals (pool_vals n) s" using AddNodePoolResources_vals[of s n] assms(1) by simp
  then show ?thesis using amt_add_vals[OF assms(2), of "pool_vals n" k] pool_vals_valid assms(3) by (simp add: demand_def)
qed

lemma requested_demand:
  assumes "NodePoolResourcesToResValMap (Some n) = Inr m" "\<And>k. demand n k < udec_limit"
  shows "requested n k = demand n k"
proof -
  have "AddNodePoolResources [] (Some n) = (m, None)"
    using assms(1) by (auto simp: NodePoolResourcesToResValMap_def split: prod.splits option.splits)
  from AddNodePoolResources_demand[OF this, of k] assms show ?thesis by (simp add: requested_def)
qed

subsection \<open>What the pools offer\<close>

definition node_map :: "FlavorLookup \<Rightarrow> NodePool \<Rightarrow> ResValMap" where
  "node_map lk p =
     (case np_NodeResources p of None \<Rightarrow> []
      | Some nr \<Rightarrow>
          (case GetInfraNodeResources nr lk of Inl _ \<Rightarrow> []
           | Inr infra \<Rightarrow> (case NodeResourcesToResValMap (Some infra) of Inl _ \<Rightarrow> [] | Inr m \<Rightarrow> m)))"

definition gpu_pool :: "NodePool \<Rightarrow> bool" where
  "gpu_pool p = (NodeResourcesGPUCount (np_NodeResources p) > 0)"

definition kind_capacity :: "bool \<Rightarrow> FlavorLookup \<Rightarrow> NodePool list \<Rightarrow> string \<Rightarrow> nat" where
  "kind_capacity gpu lk pools k =
     (\<Sum>p\<leftarrow>pools. if gpu_pool p = gpu then amt (node_map lk p) k * unat (np_NumNodes p) else 0)"

lemma wf_node_map [simp, wf_intros]: "resmap_wf (node_map lk p)"
  by (auto simp: node_map_def intro: wf_NodeResourcesToResValMap split: option.split sum.split)

lemma total_loop_Cons:
  assumes "total_loop lk (p # pools) c g = Some (Inr r)"
  shows "total_loop lk pools (if gpu_pool p then c else AddAllMult c (node_map lk p) (np_NumNodes p))
    (if gpu_pool p then AddAllMult g (node_map lk p) (np_NumNodes p) else g) = Some (Inr r)"
  using assms by (auto simp: node_map_def gpu_pool_def split: option.splits sum.splits if_splits)

lemma total_loop_amounts:
  assumes "total_loop lk pools c g = Some (Inr (c', g'))" "resmap_wf c" "resmap_wf g"
    "\<And>k. amt c k + kind_capacity False lk pools k < udec_limit"
    "\<And>k. amt g k + kind_capacity True lk pools k < udec_limit"
  shows "resmap_wf c' \<and> resmap_wf g' \<and> amt c' k = amt c k + kind_capacity False lk pools k
    \<and> amt g' k = amt g k + kind_capacity True lk pools k"
  using assms
proof (induction pools arbitrary: c g)
  case Nil
  then show ?case by (simp add: kind_capacity_def)
next
  case (Cons p pools)
  have cap: "kind_capacity b lk (p # pools) k =
      (if gpu_pool p = b then amt (node_map lk p) k * unat (np_NumNodes p) else 0) + kind_capacity b lk pools k" for b k
    by (simp add: kind_capacity_def)
  note loop = total_loop_Cons[OF Cons.prems(1)]
  let ?m = "node_map lk p" and ?n = "np_NumNodes p"
  have add: "amt (AddAllMult x ?m ?n) k = amt x k + amt ?m k * unat ?n"
    if "resmap_wf x" "\<And>k. amt x k + amt ?m k * unat ?n < udec_limit" for x k
    using amt_AddAllMult[OF that(1) wf_node_map that(2)] .
  show ?case
  proof (cases "gpu_pool p")
    case True
    have "amt g k + amt ?m k * unat ?n < udec_limit" for k
      using Cons.prems(5)[of k] True by (simp add: cap)
    note a = add[OF Cons.prems(3) this]
    show ?thesis
      using Cons.IH[OF loop[unfolded if_P[OF True]] Cons.prems(2) wf_AddAllMult[OF Cons.prems(3) wf_node_map]]
        Cons.prems(4,5) True by (simp add: a cap add.assoc)
  next
    case False
    have "amt c k + amt ?m k * unat ?n < udec_limit" for k
      using Cons.prems(4)[of k] False by (simp add: cap)
    note a = add[OF Cons.prems(2) this]
    show ?thesis
      using Cons.IH[OF loop[unfolded if_not_P[OF False]] wf_AddAllMult[OF Cons.prems(2) wf_node_map] Cons.prems(3)]
        Cons.prems(4,5) False by (simp add: a cap add.assoc)
  qed
qed

lemma pool_amount_kind:
  "pool_amount (fits_check reqs lk False) p k \<le>
     (if gpu_pool p = (NodePoolResourcesGPUCount (Some reqs) > 0) then amt (node_map lk p) k * unat (np_NumNodes p) else 0)"
proof (cases "fits_check reqs lk False p")
  case (PoolUse m)
  then have "node_map lk p = m" "gpu_pool p = (NodePoolResourcesGPUCount (Some reqs) > 0)"
    by (auto simp: fits_check_def check_pool_def node_map_def gpu_pool_def Let_def word_gt_0
        split: option.splits if_splits sum.splits)
  then show ?thesis by (simp add: pool_amount_def PoolUse)
qed (simp_all add: pool_amount_def)

lemma capacity_kind:
  "capacity (fits_check reqs lk False) pools k \<le> kind_capacity (NodePoolResourcesGPUCount (Some reqs) > 0) lk pools k"
  unfolding capacity_def kind_capacity_def by (rule sum_list_mono) (rule pool_amount_kind)

lemma pools_loop_no_fail: "pools_loop check pools st = Inr st' \<Longrightarrow> p \<in> set pools \<Longrightarrow> check p \<noteq> PoolFail e"
  by (induction pools arbitrary: st) (auto simp: Let_def split: pool_verdict.splits if_splits)

lemma admitted_within:
  assumes fit: "snd (snd (NodePoolFits reqs used pools lk False)) = None" and "resmap_wf used"
    and lim: "\<And>k. kind_capacity (NodePoolResourcesGPUCount (Some reqs) > 0) lk pools k < udec_limit"
    and used: "amt used k \<le> kind_capacity (NodePoolResourcesGPUCount (Some reqs) > 0) lk pools k"
  shows "requested reqs k + amt used k \<le> kind_capacity (NodePoolResourcesGPUCount (Some reqs) > 0) lk pools k"
proof -
  have "capacity (fits_check reqs lk False) pools j < udec_limit" for j
    using capacity_kind[of reqs lk pools j] lim[of j] by simp
  moreover obtain mins st where l: "TopologyToResValMap (Some (Topology reqs)) = Inr mins"
    "pools_loop (check_pool mins (NodePoolResourcesGPUCount (Some reqs)) lk False) pools pools_start = Inr st"
    "is_ok (NodePoolResourcesToResValMap (Some reqs))"
    using fit by (auto simp: NodePoolFits_def decide_fit_def split: sum.splits)
  moreover from l pools_loop_no_fail[OF l(2)] have "\<forall>p \<in> set pools. case fits_check reqs lk False p of PoolFail _ \<Rightarrow> False | _ \<Rightarrow> True"
    by (auto simp: fits_check_def split: pool_verdict.splits)
  ultimately have "fits_ready reqs used pools lk False"
    using assms(2) by (auto simp: fits_ready_def)
  from NodePoolFits_result(1)[OF this] fit have
    "requested reqs k = 0 \<or> requested reqs k + amt used k \<le> capacity (fits_check reqs lk False) pools k" by simp
  then show ?thesis using capacity_kind[of reqs lk pools k] used by linarith
qed

subsection \<open>What the instances use\<close>

definition inst_demand ::
  "(KubernetesResources \<Rightarrow> NodePoolResources option) \<Rightarrow> apiCaches \<Rightarrow> string \<Rightarrow> AppInstKey \<Rightarrow> nat" where
  "inst_demand sel c k aikey =
     (case map_of (appInstCache c) aikey of None \<Rightarrow> 0
      | Some ai \<Rightarrow>
          (case map_of (appCache c) (ai_AppKey ai) of None \<Rightarrow> 0
           | Some app \<Rightarrow>
               (case ai_KubernetesResources ai of None \<Rightarrow> 0
                | Some kr \<Rightarrow> if IsSideCarApp app then 0
                    else (case sel kr of None \<Rightarrow> 0 | Some n \<Rightarrow> demand n k))))"

definition used_by ::
  "(KubernetesResources \<Rightarrow> NodePoolResources option) \<Rightarrow> apiCaches \<Rightarrow> AppInstKey list \<Rightarrow> string \<Rightarrow> nat" where
  "used_by sel c refs k = (\<Sum>aikey\<leftarrow>refs. inst_demand sel c k aikey)"

lemma used_by_simps [simp]:
  "used_by sel c [] k = 0"
  "used_by sel c (r # refs) k = inst_demand sel c k r + used_by sel c refs k"
  "used_by sel c (refs @ refs') k = used_by sel c refs k + used_by sel c refs' k"
  by (simp_all add: used_by_def)

lemma used_by_remove1: "used_by sel c (remove1 r refs) k \<le> used_by sel c refs k"
  by (induction refs) auto

lemma AddNodePoolResources_opt:
  assumes "AddNodePoolResources s npr = (s', None)" "resmap_wf s"
    "\<And>k. amt s k + (case npr of None \<Rightarrow> 0 | Some n \<Rightarrow> demand n k) < udec_limit"
  shows "resmap_wf s' \<and> amt s' k = amt s k + (case npr of None \<Rightarrow> 0 | Some n \<Rightarrow> demand n k)"
proof (cases npr)
  case None
  then show ?thesis using assms by (simp add: AddNodePoolResources_def)
next
  case (Some n)
  then show ?thesis using AddNodePoolResources_demand[of s n s'] assms by simp
qed

lemma kube_cb_amounts:
  assumes "kube_cb app ai (cu, gu) = ((cu', gu'), None)" "resmap_wf cu" "resmap_wf gu"
    "map_of (appInstCache c) r = Some ai" "map_of (appCache c) (ai_AppKey ai) = Some app"
    "\<And>k. amt cu k + inst_demand CpuPool c k r < udec_limit" "\<And>k. amt gu k + inst_demand GpuPool c k r < udec_limit"
  shows "resmap_wf cu' \<and> resmap_wf gu' \<and> amt cu' k = amt cu k + inst_demand CpuPool c k r
    \<and> amt gu' k = amt gu k + inst_demand GpuPool c k r"
proof (cases "ai_KubernetesResources ai = None \<or> IsSideCarApp app")
  case True
  then show ?thesis using assms by (auto simp: kube_cb_def inst_demand_def split: option.splits)
next
  case False
  then obtain kr where kr: "ai_KubernetesResources ai = Some kr" "\<not> IsSideCarApp app" by auto
  then have d: "inst_demand sel c k r = (case sel kr of None \<Rightarrow> 0 | Some n \<Rightarrow> demand n k)" for sel k
    using assms(4,5) by (simp add: inst_demand_def)
  have "AddNodePoolResources cu (CpuPool kr) = (cu', None)" "AddNodePoolResources gu (GpuPool kr) = (gu', None)"
    using assms(1) kr by (auto simp: kube_cb_def split: prod.splits option.splits)
  then show ?thesis
    using AddNodePoolResources_opt[of cu _ cu' k] AddNodePoolResources_opt[of gu _ gu' k] assms(2,3,6,7)
    unfolding d by blast
qed

lemma walk_Cons:
  assumes "walkClusterAppInsts c na kube_cb (r # refs) (cu, gu) = (res, None)" "na \<noteq> Some r"
  obtains ai app cu1 gu1 where "map_of (appInstCache c) r = Some ai" "map_of (appCache c) (ai_AppKey ai) = Some app"
    "kube_cb app ai (cu, gu) = ((cu1, gu1), None)" "walkClusterAppInsts c na kube_cb refs (cu1, gu1) = (res, None)"
proof -
  from assms obtain ai app where a: "map_of (appInstCache c) r = Some ai" "map_of (appCache c) (ai_AppKey ai) = Some app"
    by (auto split: option.splits)
  obtain s1 e where cb: "kube_cb app ai (cu, gu) = (s1, e)" by (cases "kube_cb app ai (cu, gu)")
  from assms a cb have "e = None" by (cases e) simp_all
  with that[of ai app "fst s1" "snd s1"] a cb assms show thesis by simp
qed

lemma walk_amounts:
  assumes "walkClusterAppInsts c na kube_cb refs (cu, gu) = ((cu', gu'), None)" "resmap_wf cu" "resmap_wf gu"
    "\<And>k. amt cu k + used_by CpuPool c (filter (\<lambda>r. na \<noteq> Some r) refs) k < udec_limit"
    "\<And>k. amt gu k + used_by GpuPool c (filter (\<lambda>r. na \<noteq> Some r) refs) k < udec_limit"
  shows "resmap_wf cu' \<and> resmap_wf gu' \<and> amt cu' k = amt cu k + used_by CpuPool c (filter (\<lambda>r. na \<noteq> Some r) refs) k
    \<and> amt gu' k = amt gu k + used_by GpuPool c (filter (\<lambda>r. na \<noteq> Some r) refs) k"
  using assms
proof (induction refs arbitrary: cu gu)
  case (Cons r refs)
  show ?case
  proof (cases "na = Some r")
    case True
    then show ?thesis using Cons by simp
  next
    case False
    obtain ai app cu1 gu1 where a: "map_of (appInstCache c) r = Some ai" "map_of (appCache c) (ai_AppKey ai) = Some app"
      "kube_cb app ai (cu, gu) = ((cu1, gu1), None)" "walkClusterAppInsts c na kube_cb refs (cu1, gu1) = ((cu', gu'), None)"
      using walk_Cons[OF Cons.prems(1) False] .
    have b: "amt cu k + inst_demand CpuPool c k r < udec_limit" "amt gu k + inst_demand GpuPool c k r < udec_limit" for k
      using Cons.prems(4,5)[of k] False by simp_all
    note s = kube_cb_amounts[OF a(3) Cons.prems(2,3) a(1,2) b]
    then have m: "amt cu1 k = amt cu k + inst_demand CpuPool c k r" "amt gu1 k = amt gu k + inst_demand GpuPool c k r" for k
      by blast+
    show ?thesis using Cons.IH[OF a(4)] s Cons.prems(4,5) False by (simp add: m add.assoc)
  qed
qed simp

subsection \<open>Clusters filled by admission\<close>

text \<open>
  A request keeps the two kinds of resources apart: its CPU part asks for no GPU, its GPU part for some, and no amount
  overflows.
\<close>

definition separated :: "KubernetesResources \<Rightarrow> bool" where
  "separated kr =
     ((case CpuPool kr of None \<Rightarrow> True
       | Some n \<Rightarrow> NodePoolResourcesGPUCount (Some n) = 0 \<and> (\<forall>k. demand n k < udec_limit)) \<and>
      (case GpuPool kr of None \<Rightarrow> True
       | Some n \<Rightarrow> NodePoolResourcesGPUCount (Some n) > 0 \<and> (\<forall>k. demand n k < udec_limit)))"

text \<open>
  The references of a Kubernetes cluster as the controller changes them while no cluster is named: an instance is
  added after \<open>fitsAppResources\<close> accepts it, and dropped when it is deleted.
\<close>

inductive filled :: "ClusterInst \<Rightarrow> FlavorLookup \<Rightarrow> apiCaches \<Rightarrow> AppInstKey list \<Rightarrow> bool" for ci lk c where
  filled_new: "filled ci lk c []"
| filled_admit:
    "filled ci lk c refs \<Longrightarrow> key \<notin> set refs \<Longrightarrow> map_of (appInstCache c) key = Some ai
     \<Longrightarrow> map_of (appCache c) (ai_AppKey ai) = Some app \<Longrightarrow> AppDeploysToKubernetes (app_Deployment app)
     \<Longrightarrow> pred_option separated (ai_KubernetesResources ai)
     \<Longrightarrow> fitsAppResources c ci refs app key ai lk False = Some (ss, free, None) \<Longrightarrow> filled ci lk c (refs @ [key])"
| filled_delete: "filled ci lk c refs \<Longrightarrow> filled ci lk c (remove1 key refs)"

lemma fits_NodePool_demand:
  assumes "snd (snd (NodePoolFits n used pools lk False)) = None" "resmap_wf used"
    "\<And>k. kind_capacity (NodePoolResourcesGPUCount (Some n) > 0) lk pools k < udec_limit"
    "\<And>k. amt used k \<le> kind_capacity (NodePoolResourcesGPUCount (Some n) > 0) lk pools k"
    "\<And>k. demand n k < udec_limit"
  shows "amt used k + demand n k \<le> kind_capacity (NodePoolResourcesGPUCount (Some n) > 0) lk pools k"
proof -
  obtain m where "NodePoolResourcesToResValMap (Some n) = Inr m"
    using assms(1) by (auto simp: NodePoolFits_def decide_fit_def split: sum.splits)
  from requested_demand[OF this assms(5)] admitted_within[OF assms(1-4)] show ?thesis by (simp add: add.commute)
qed

lemma fits_pools:
  assumes "KubernetesResourcesFits ci kr cu gu lk cs = (ss, free, None)"
  shows "CpuPool kr = Some n \<Longrightarrow> snd (snd (NodePoolFits n cu (ci_NodePools ci) lk cs)) = None"
    "GpuPool kr = Some n \<Longrightarrow> snd (snd (NodePoolFits n gu (ci_NodePools ci) lk cs)) = None"
  using assms by (auto simp: KubernetesResourcesFits_def Let_def case_prod_beta split: option.splits if_splits)

lemma admitted_demand:
  assumes fit: "KubernetesResourcesFits ci kr cu gu lk False = (ss, free, None)" and "separated kr"
    and wf: "resmap_wf cu" "resmap_wf gu"
    and lim: "\<And>g k. kind_capacity g lk (ci_NodePools ci) k < udec_limit"
    and cu: "\<And>k. amt cu k \<le> kind_capacity False lk (ci_NodePools ci) k"
    and gu: "\<And>k. amt gu k \<le> kind_capacity True lk (ci_NodePools ci) k"
  shows "amt cu k + (case CpuPool kr of None \<Rightarrow> 0 | Some n \<Rightarrow> demand n k) \<le> kind_capacity False lk (ci_NodePools ci) k
    \<and> amt gu k + (case GpuPool kr of None \<Rightarrow> 0 | Some n \<Rightarrow> demand n k) \<le> kind_capacity True lk (ci_NodePools ci) k"
proof
  show "amt cu k + (case CpuPool kr of None \<Rightarrow> 0 | Some n \<Rightarrow> demand n k) \<le> kind_capacity False lk (ci_NodePools ci) k"
  proof (cases "CpuPool kr")
    case (Some n)
    then have g: "NodePoolResourcesGPUCount (Some n) = 0" "\<And>k. demand n k < udec_limit"
      using assms(2) by (simp_all add: separated_def)
    show ?thesis using fits_NodePool_demand[OF fits_pools(1)[OF fit Some] wf(1), of k] lim cu g by (simp add: Some)
  qed (simp add: cu)
  show "amt gu k + (case GpuPool kr of None \<Rightarrow> 0 | Some n \<Rightarrow> demand n k) \<le> kind_capacity True lk (ci_NodePools ci) k"
  proof (cases "GpuPool kr")
    case (Some n)
    then have g: "0 < NodePoolResourcesGPUCount (Some n)" "\<And>k. demand n k < udec_limit"
      using assms(2) by (simp_all add: separated_def)
    show ?thesis using fits_NodePool_demand[OF fits_pools(2)[OF fit Some] wf(2), of k] lim gu g by (simp add: Some)
  qed (simp add: gu)
qed

text \<open>The invariant: what the instances use, by kind, stays within what the pools of that kind offer.\<close>

lemma filled_within:
  assumes "filled ci lk c refs" "\<And>g k. kind_capacity g lk (ci_NodePools ci) k < udec_limit"
  shows "used_by CpuPool c refs k \<le> kind_capacity False lk (ci_NodePools ci) k
    \<and> used_by GpuPool c refs k \<le> kind_capacity True lk (ci_NodePools ci) k"
  using assms(1)
proof (induction arbitrary: k)
  case (filled_admit refs key ai app ss free)
  note inv = filled_admit.IH and inst = filled_admit.hyps(3,4) and fit = filled_admit.hyps(7)
  show ?case
  proof (cases "IsSideCarApp app")
    case True
    then show ?thesis using inv inst by (simp add: inst_demand_def split: option.split)
  next
    case False
    with fit filled_admit.hyps(5) obtain cu gu kr where
      walk: "walkClusterAppInsts c (Some key) kube_cb refs ([], []) = ((cu, gu), None)"
      and kr: "ai_KubernetesResources ai = Some kr"
      and kfit: "KubernetesResourcesFits ci kr cu gu lk False = (ss, free, None)"
      by (auto simp: fitsAppResources_def calcKubernetesClusterUsedResources_def split: prod.splits option.splits)
    have self: "filter (\<lambda>r. Some key \<noteq> Some r) refs = refs"
      using filled_admit.hyps(2) by (auto simp: filter_id_conv)
    have lim: "used_by CpuPool c refs k < udec_limit" "used_by GpuPool c refs k < udec_limit" for k
      using inv[of k] assms(2)[of False k] assms(2)[of True k] by linarith+
    have used: "resmap_wf cu \<and> resmap_wf gu \<and> amt cu k = used_by CpuPool c refs k \<and> amt gu k = used_by GpuPool c refs k" for k
      using walk_amounts[OF walk, of k, unfolded self] lim by simp
    have "separated kr" using filled_admit.hyps(6) kr by simp
    from admitted_demand[OF kfit this _ _ assms(2), of k] used inv
    show ?thesis using inst kr False by (simp add: inst_demand_def)
  qed
next
  case (filled_delete refs key)
  then show ?case using used_by_remove1 by (meson le_trans)
qed simp

subsection \<open>Properties\<close>



lemma ceil64_quotient:
  assumes "a < 2 ^ 53" "unat (w :: uint64) < 2 ^ 53" "0 < w"
  shows "unat (ceil64 (fl (fl (of_nat a) / fl (of_int (uint w))))) = ceil_div a (unat w)"
proof -
  have w: "0 < unat w" using assms(3) by (simp add: word_less_nat_alt)
  have "fl (of_int (uint w)) = of_nat (unat w)" using fl_of_nat[OF assms(2)] by (simp only: of_int_uint of_nat_unat)
  then have "ceil64 (fl (fl (of_nat a) / fl (of_int (uint w)))) = word_of_int \<lceil>of_nat a / of_nat (unat w) :: rat\<rceil>"
    using ceiling_fl_quotient[OF assms(1) w] fl_of_nat[OF assms(1)] by (simp add: ceil64_def del: of_nat_unat)
  also have "\<dots> = of_nat (ceil_div a (unat w))" using ceiling_ceil_div[OF w, of a] by (simp del: of_nat_unat)
  finally have r: "ceil64 (fl (fl (of_nat a) / fl (of_int (uint w)))) = of_nat (ceil_div a (unat w))" .
  have "a \<le> a * unat w" using w by simp
  then have "ceil_div a (unat w) \<le> a" using w by (simp add: ceil_div_le_iff)
  then show ?thesis unfolding r using assms(1) by (simp add: unat_of_nat)
qed

lemma ceil64_Float_quotient:
  assumes "dec_small a" "unat (w :: uint64) < 2 ^ 53" "0 < w"
  shows "unat (ceil64 (fl (Float a / fl (of_int (uint w))))) = ceil_div (nanoval a) (10 ^ 9 * unat w)"
proof -
  have w: "0 < unat w" using assms(3) by (simp add: word_less_nat_alt)
  have "fl (of_int (uint w)) = of_nat (unat w)" using fl_of_nat[OF assms(2)] by (simp only: of_int_uint of_nat_unat)
  then have "ceil64 (fl (Float a / fl (of_int (uint w)))) = word_of_int \<lceil>of_nat (nanoval a) / of_nat (10 ^ 9 * unat w) :: rat\<rceil>"
    using ceiling_Float_quotient[OF assms(1) w] by (simp add: ceil64_def del: of_nat_unat)
  also have "\<dots> = of_nat (ceil_div (nanoval a) (10 ^ 9 * unat w))"
    using ceiling_ceil_div[of "10 ^ 9 * unat w" "nanoval a"] w by (simp del: of_nat_unat of_nat_mult)
  finally have r: "ceil64 (fl (Float a / fl (of_int (uint w)))) = of_nat (ceil_div (nanoval a) (10 ^ 9 * unat w))" .
  have "nanoval a \<le> (unat (Whole a) + 1) * (10 ^ 9 * 1)" using assms(1) by (simp add: nanoval_def dec_small_def udec_valid_def DecWhole_val word_less_nat_alt)
  also have "\<dots> \<le> (unat (Whole a) + 1) * (10 ^ 9 * unat w)" using w by (intro mult_le_mono) simp_all
  finally have "ceil_div (nanoval a) (10 ^ 9 * unat w) \<le> unat (Whole a) + 1" using w by (simp add: ceil_div_le_iff)
  moreover have "unat (Whole a) + 1 < 2 ^ 64" using assms(1) by (auto simp: dec_small_def)
  ultimately show ?thesis unfolding r by (simp add: unat_of_nat)
qed


definition ex_new :: NodePoolResources where
  "ex_new = zero_NodePoolResources\<lparr>TotalVcpus := \<lparr>Whole = 3, Nanos = 500000000\<rparr>, TotalMemory := 6001,
     Topology := zero_NodePoolTopology\<lparr>MinNumberOfNodes := 2\<rparr>\<rparr>"

lemma ex_new_pool:
  "fst (NodePoolFromResources ''cpupool'' ex_new) = \<lparr>np_Name = ''cpupool'', np_NumNodes = 2,
     np_NodeResources = Some (zero_NodeResources\<lparr>nr_Vcpus := 2, nr_Ram := 3001\<rparr>), np_Scalable = False\<rparr>"
  by code_simp


subsection \<open>The properties at a concrete cluster\<close>

definition ex_app :: App where
  "ex_app = \<lparr>app_Organization = ''acme'', app_Deployment = ''kubernetes'', app_DelOpt = NO_AUTO_DELETE, app_LoadBalancer = True\<rparr>"
definition ex_inst :: AppInst where
  "ex_inst = \<lparr>ai_AppKey = (''acme'', ''web'', ''1''), ai_ClusterKey = (''c'', ''acme''),
     ai_KubernetesResources = Some \<lparr>CpuPool = Some ex_req, GpuPool = None\<rparr>, ai_NodeResources = None\<rparr>"
definition ex_caches :: apiCaches where
  "ex_caches = \<lparr>appInstCache = [((''i'', ''acme''), ex_inst)], appCache = [((''acme'', ''web'', ''1''), ex_app)]\<rparr>"
definition ex_cluster :: ClusterInst where
  "ex_cluster = \<lparr>ci_NodePools = [ex_pool], ci_NodeResources = None\<rparr>"

lemma ex_fits: "(case fitsAppResources ex_caches ex_cluster [] ex_app (''i'', ''acme'') ex_inst [] False of
    Some (ss, free, err) \<Rightarrow> err = None | None \<Rightarrow> False)"
  by code_simp

lemma ex_filled: "filled ex_cluster [] ex_caches [(''i'', ''acme'')]"
proof -
  obtain ss free where f: "fitsAppResources ex_caches ex_cluster [] ex_app (''i'', ''acme'') ex_inst [] False = Some (ss, free, None)"
    using ex_fits by (auto split: option.splits)
  have "NodePoolResourcesGPUCount (Some ex_req) = 0" by code_simp
  moreover have "demand ex_req k < udec_limit" for k
    by (simp add: demand_def pool_vals_def opt_vals_def ex_req_def zero_NodePoolResources_def zero_NodePoolTopology_def
        NewUdec64_def nanoval_def udec_limit_def DecWhole_val)
  ultimately have s: "pred_option separated (ai_KubernetesResources ex_inst)" by (simp add: ex_inst_def separated_def)
  have "filled ex_cluster [] ex_caches ([] @ [(''i'', ''acme'')])"
    by (rule filled_admit[OF filled_new _ _ _ _ s f]) (simp_all add: ex_caches_def ex_inst_def ex_app_def AppDeploysToKubernetes_def)
  then show ?thesis by simp
qed


subsection \<open>Naming the cluster\<close>

text \<open>
  With the cluster named, CPU work may go to a GPU pool, but it is still booked as CPU use, which the check of a GPU
  request does not see: two instances of two CPUs each are accepted on the one node of two CPUs.
\<close>

definition ex_gpu :: GPUResource where
  "ex_gpu = \<lparr>gpu_ModelId = ''nvidia-t4'', gpu_Count = 1, gpu_Vendor = ''nvidia'', gpu_Memory = 16\<rparr>"
definition ex_gpu_cluster :: ClusterInst where
  "ex_gpu_cluster = \<lparr>ci_NodePools = [\<lparr>np_Name = ''gpupool'', np_NumNodes = 1,
     np_NodeResources = Some (zero_NodeResources\<lparr>nr_Vcpus := 2, nr_Gpus := [ex_gpu]\<rparr>), np_Scalable = False\<rparr>],
     ci_NodeResources = None\<rparr>"
definition ex_two :: apiCaches where
  "ex_two = (let two = zero_NodePoolResources\<lparr>TotalVcpus := \<lparr>Whole = 2, Nanos = 0\<rparr>\<rparr>;
       inst = (\<lambda>kr. \<lparr>ai_AppKey = (''acme'', ''web'', ''1''), ai_ClusterKey = (''c'', ''acme''),
         ai_KubernetesResources = Some kr, ai_NodeResources = None\<rparr>)
     in \<lparr>appInstCache = [((''a'', ''acme''), inst \<lparr>CpuPool = Some two, GpuPool = None\<rparr>),
           ((''b'', ''acme''), inst \<lparr>CpuPool = None, GpuPool = Some (two\<lparr>TotalGpus := [ex_gpu]\<rparr>)\<rparr>)],
         appCache = [((''acme'', ''web'', ''1''),
           \<lparr>app_Organization = ''acme'', app_Deployment = ''kubernetes'', app_DelOpt = NO_AUTO_DELETE, app_LoadBalancer = True\<rparr>)]\<rparr>)"

definition accepts :: "apiCaches \<Rightarrow> ClusterInst \<Rightarrow> AppInstKey list \<Rightarrow> AppInstKey \<Rightarrow> bool \<Rightarrow> bool" where
  "accepts c ci refs key clusterSpecified =
     (case map_of (appInstCache c) key of None \<Rightarrow> False
      | Some ai \<Rightarrow>
          (case map_of (appCache c) (ai_AppKey ai) of None \<Rightarrow> False
           | Some app \<Rightarrow>
               (case fitsAppResources c ci refs app key ai [] clusterSpecified of
                  Some (_, _, None) \<Rightarrow> True | _ \<Rightarrow> False)))"

theorem named_cluster_overcommits:
  "accepts ex_two ex_gpu_cluster [] (''a'', ''acme'') True"
  "accepts ex_two ex_gpu_cluster [(''a'', ''acme'')] (''b'', ''acme'') True"
  "\<not> accepts ex_two ex_gpu_cluster [] (''a'', ''acme'') False"
  "case calcKubernetesClusterUsedResources ex_two [(''a'', ''acme''), (''b'', ''acme'')] None of ((cpu, gpu), _) \<Rightarrow>
     GetInt (AddAllMult cpu gpu 1) ''vCPUs'' = 4"
  "case calcKubernetesClusterTotalResources ex_gpu_cluster [] of
     Some (Inr (cpu, gpu)) \<Rightarrow> GetInt (AddAllMult cpu gpu 1) ''vCPUs'' = 2 | _ \<Rightarrow> False"
  by code_simp+

end
