(* ===== verification/CloudletRes.thy ===== *)
theory CloudletRes
  imports ClusterRes VMSpec
begin

text \<open>
  Resource accounting of a cloudlet: \<^verbatim>\<open>pkg/controller/cloudlet_resources.go\<close> (what is in use, as flavors and as plain
  amounts), \<^verbatim>\<open>cloudlet_resource_check.go\<close> (limits, and whether a new cluster or VM fits within them), the summation in
  \<^verbatim>\<open>cloudlet_api.go\<close> and the walk over the references in \<^verbatim>\<open>clusterinst_api.go\<close>. The controller's caches are tables; the calls to
  the platform service (root load balancer flavor, additional resources) are functions in \<open>platformService\<close>. Go's
  \<^verbatim>\<open>int\<close> counters are integers. Messages are values of \<open>res_warning\<close> and \<open>calc_error\<close>.
\<close>

subsection \<open>Data\<close>

type_synonym CloudletKey = "string \<times> string"
type_synonym ResTagTableKey = "string \<times> string"

datatype IpAccess = IP_ACCESS_UNKNOWN | IP_ACCESS_DEDICATED | IP_ACCESS_SHARED

record CloudletClusterInst = ClusterInst +
  cc_Key :: ClusterKey
  cc_Deployment :: string
  cc_MasterNodeFlavor :: string
  cc_NumMasters :: uint32
  cc_IpAccess :: IpAccess

record ResourceQuota =
  rq_Name :: string
  rq_Value :: uint64
  rq_AlertThreshold :: int
  rq_ResourceType :: string

record Cloudlet =
  cl_Key :: CloudletKey
  cl_PlatformType :: string
  cl_ResourceQuotas :: "ResourceQuota list"
  cl_DefaultResourceAlertThreshold :: int
  cl_ResTagMap :: "(string, ResTagTableKey) gomap option"
  cl_SingleKubernetesClusterOwner :: string

record VmInfo =
  vm_Type :: string
  vm_InfraFlavor :: string

record CloudletSnapshot = CloudletInfo +
  cli_Info :: "InfraResource list"
  cli_PlatformVms :: "VmInfo list"
  cli_NodePools :: "NodePool list"

record CloudletRefs =
  cr_ClusterInsts :: "ClusterKey list"
  cr_VmAppInsts :: "AppInstKey list"

record PlatformFeatures =
  pf_UsesRootLb :: bool
  pf_IsSingleKubernetesCluster :: bool
  pf_KubernetesRequiresWorkerNodes :: bool

record VMResource =
  vr_Key :: ClusterKey
  vr_VmFlavor :: string
  vr_Type :: string
  vr_Count :: uint32

record CloudletResources =
  nonFlavorVals :: ResValMap
  flavors :: "(string, int) gomap"
  lbNodeCount :: int
  platformNodeCount :: int
  vms :: "VMResource list"
  numVms :: int

record ResLimit =
  rl_Name :: string
  rl_Units :: string
  rl_InfraMaxValue :: uint64
  rl_QuotaMaxValue :: uint64
  rl_AlertThreshold :: int
  rl_ResourceType :: string

type_synonym ResLimitMap = "(string, ResLimit) gomap"

datatype res_warning =
    QuotaAboveInfra string uint64 uint64 | QuotaBelowUsed string uint64 Udec64
  | UsedAboveThreshold string Udec64 uint64 | InfraUsedAboveThreshold string uint64 uint64

datatype calc_error =
    CloudletNotFound CloudletKey | CloudletInfoNotFound CloudletKey | FeaturesNotFound string | PlatformError string
  | LbFlavorError vm_error | ClusterNotFound ClusterKey | ClusterUsage usage_error | VmAppNotFound AppKey
  | NotEnoughAvailable "string list" | InfraNotEnough "string list"

record platformService =
  sv_ConnError :: "string option"
  sv_RootLbFlavor :: "CloudletKey \<Rightarrow> (string, NodeResources) result"
  sv_AdditionalResources :: "CloudletKey \<Rightarrow> VMResource list \<Rightarrow> (string, (string, InfraResource) gomap) result"
  sv_ShortHash :: "string \<Rightarrow> string"
  sv_SortFlavors :: "FlavorInfo list \<Rightarrow> FlavorInfo list"

record AllApis = apiCaches +
  cloudletCache :: "(CloudletKey, Cloudlet) gomap"
  cloudletInfoCache :: "(CloudletKey, CloudletSnapshot) gomap"
  cloudletRefsCache :: "(CloudletKey, CloudletRefs) gomap"
  clusterInstCache :: "(ClusterKey, CloudletClusterInst) gomap"
  clusterRefsCache :: "(ClusterKey, AppInstKey list) gomap"
  featuresCache :: "(string, PlatformFeatures) gomap"
  resTagTables :: "(ResTagTableKey, ResTagTable) gomap"

record CloudletResCalc =
  rc_cloudletKey :: CloudletKey
  rc_cloudlet :: "Cloudlet option"
  rc_cloudletInfo :: "CloudletSnapshot option"
  rc_cloudletRefs :: "CloudletRefs option"
  rc_features :: "PlatformFeatures option"
  rc_lbFlavor :: "FlavorInfo option"
  rc_usedVals :: "ResValMap option"
  rc_skipLB :: bool
  rc_skipAdditional :: bool

datatype NodeType =
    NodeTypeAppVM | NodeTypeSharedRootLB | NodeTypeDedicatedRootLB | NodeTypePlatformVM | NodeTypePlatformHost
  | NodeTypePlatformK8sClusterMaster | NodeTypePlatformK8sClusterPrimaryNode | NodeTypePlatformK8sClusterSecondaryNode
  | NodeTypeK8sClusterMaster | NodeTypeK8sClusterNode | NodeTypeDockerClusterNode

fun NodeType_String :: "NodeType \<Rightarrow> string" where
  "NodeType_String NodeTypeAppVM = ''appvm''"
| "NodeType_String NodeTypeSharedRootLB = ''sharedrootlb''"
| "NodeType_String NodeTypeDedicatedRootLB = ''dedicatedrootlb''"
| "NodeType_String NodeTypePlatformVM = ''platformvm''"
| "NodeType_String NodeTypePlatformHost = ''platformhost''"
| "NodeType_String NodeTypePlatformK8sClusterMaster = ''platform-k8s-cluster-master''"
| "NodeType_String NodeTypePlatformK8sClusterPrimaryNode = ''platform-k8s-cluster-primary-node''"
| "NodeType_String NodeTypePlatformK8sClusterSecondaryNode = ''platform-k8s-cluster-secondary-node''"
| "NodeType_String NodeTypeK8sClusterMaster = ''k8s-cluster-master''"
| "NodeType_String NodeTypeK8sClusterNode = ''k8s-cluster-node''"
| "NodeType_String NodeTypeDockerClusterNode = ''docker-cluster-node''"

definition IsPlatformNode :: "string \<Rightarrow> bool" where
  "IsPlatformNode nodeTypeStr =
     (nodeTypeStr = NodeType_String NodeTypePlatformVM \<or> nodeTypeStr = NodeType_String NodeTypePlatformHost
      \<or> nodeTypeStr = NodeType_String NodeTypePlatformK8sClusterMaster
      \<or> nodeTypeStr = NodeType_String NodeTypePlatformK8sClusterPrimaryNode
      \<or> nodeTypeStr = NodeType_String NodeTypePlatformK8sClusterSecondaryNode)"

definition IsLBNode :: "string \<Rightarrow> bool" where
  "IsLBNode nodeTypeStr =
     (nodeTypeStr = NodeType_String NodeTypeDedicatedRootLB \<or> nodeTypeStr = NodeType_String NodeTypeSharedRootLB)"

subsection \<open>Resources in use\<close>

definition NewCloudletResources :: CloudletResources where
  "NewCloudletResources =
     \<lparr>nonFlavorVals = [], flavors = [], lbNodeCount = 0, platformNodeCount = 0, vms = [], numVms = 0\<rparr>"

definition AddFlavor :: "ClusterKey \<Rightarrow> string \<Rightarrow> string \<Rightarrow> uint32 \<Rightarrow> CloudletResources \<Rightarrow> CloudletResources" where
  "AddFlavor clusterKey flavorName nodeType cnt s =
     (if cnt = 0 then s
      else
        let s = s\<lparr>flavors := AList.update flavorName (get_or 0 (flavors s) flavorName + int (unat cnt)) (flavors s)\<rparr>;
            s = s\<lparr>vms := vms s @ [\<lparr>vr_Key = clusterKey, vr_VmFlavor = flavorName, vr_Type = nodeType, vr_Count = cnt\<rparr>]\<rparr>;
            s = s\<lparr>numVms := numVms s + int (unat cnt)\<rparr>
        in if IsLBNode nodeType then s\<lparr>lbNodeCount := lbNodeCount s + 1\<rparr>
           else if IsPlatformNode nodeType then s\<lparr>platformNodeCount := platformNodeCount s + 1\<rparr>
           else s)"

definition AddResCR ::
  "ClusterKey \<Rightarrow> NodeResources option \<Rightarrow> string \<Rightarrow> uint32 \<Rightarrow> CloudletResources \<Rightarrow> CloudletResources \<times> optres_error option" where
  "AddResCR clusterKey nr nodeType cnt s =
     (case nr of None \<Rightarrow> (s, None)
      | Some n \<Rightarrow>
          if cnt = 0 then (s, None)
          else if nr_InfraNodeFlavor n \<noteq> [] then (AddFlavor clusterKey (nr_InfraNodeFlavor n) nodeType cnt s, None)
          else let (v, e) = AddNodeResources (nonFlavorVals s) (Some n) cnt in (s\<lparr>nonFlavorVals := v\<rparr>, e))"

definition AddPlatformVMs :: "CloudletSnapshot \<Rightarrow> CloudletResources \<Rightarrow> CloudletResources" where
  "AddPlatformVMs cloudletInfo s =
     fold (\<lambda>vm s. if vm_InfraFlavor vm = [] then s else AddFlavor ([], []) (vm_InfraFlavor vm) (vm_Type vm) 1 s)
       (cli_PlatformVms cloudletInfo) s"

text \<open>The errors of \<open>AddResCR\<close> are dropped here, as in the code; the function itself cannot fail.\<close>

definition AddClusterInstResources ::
  "CloudletClusterInst \<Rightarrow> FlavorInfo option \<Rightarrow> bool \<Rightarrow> CloudletResources \<Rightarrow> CloudletResources" where
  "AddClusterInstResources clusterInst rootLBFlavor isManagedK8s s =
     (let key = cc_Key clusterInst;
          s = (if cc_Deployment clusterInst = ''docker''
               then fst (AddResCR key (ci_NodeResources clusterInst) (NodeType_String NodeTypeDockerClusterNode) 1 s)
               else
                 fold (\<lambda>pool s. fst (AddResCR key (np_NodeResources pool) (NodeType_String NodeTypeK8sClusterNode) (np_NumNodes pool) s))
                   (ci_NodePools clusterInst)
                   (AddFlavor key (cc_MasterNodeFlavor clusterInst) (NodeType_String NodeTypeK8sClusterMaster)
                     (cc_NumMasters clusterInst) s))
      in if \<not> isManagedK8s \<and> cc_IpAccess clusterInst = IP_ACCESS_DEDICATED
         then (case rootLBFlavor of None \<Rightarrow> s
               | Some lb \<Rightarrow> AddFlavor key (fi_Name lb) (NodeType_String NodeTypeDedicatedRootLB) 1 s)
         else s)"

definition AddVMAppInstResources ::
  "App \<Rightarrow> AppInst \<Rightarrow> FlavorInfo option \<Rightarrow> CloudletResources \<Rightarrow> CloudletResources" where
  "AddVMAppInstResources app appInst rootLBFlavor s =
     (let s = fst (AddResCR (ai_ClusterKey appInst) (ai_NodeResources appInst) (NodeType_String NodeTypeAppVM) 1 s)
      in if app_LoadBalancer app then
           (case rootLBFlavor of None \<Rightarrow> s
            | Some lb \<Rightarrow> AddFlavor (ai_ClusterKey appInst) (fi_Name lb) (NodeType_String NodeTypeDedicatedRootLB) 1 s)
         else s)"

text \<open>Optional resources a flavor offers, given the tag tables the cloudlet maps.\<close>

definition osFlavorResources :: "AllApis \<Rightarrow> FlavorInfo \<Rightarrow> Cloudlet \<Rightarrow> string set \<times> int" where
  "osFlavorResources a flavor cl =
     (if fi_PropMap flavor = [] then ({}, 0)
      else case cl_ResTagMap cl of None \<Rightarrow> ({}, 0)
      | Some m \<Rightarrow>
          fold (\<lambda>(res, key) acc.
            case map_of (resTagTables a) key of None \<Rightarrow> acc
            | Some tbl \<Rightarrow>
                fold (\<lambda>(_, flav_val) acc.
                  fold (\<lambda>(_, v) (resources, rescnt).
                    if Contains flav_val v then (insert res resources, rescnt + 1) else (resources, rescnt))
                    (rtt_Tags tbl) acc)
                  (fi_PropMap flavor) acc) m ({}, 0))"

definition UsesGpu :: "AllApis \<Rightarrow> FlavorInfo \<Rightarrow> Cloudlet \<Rightarrow> bool" where
  "UsesGpu a flavor cl =
     (let (resources, rescnt) = osFlavorResources a flavor cl in rescnt > 0 \<and> ''gpu'' \<in> resources)"

definition sum_flavor :: "(FlavorInfo \<Rightarrow> bool) \<Rightarrow> (string, int) gomap \<Rightarrow> FlavorInfo \<Rightarrow> ResValMap \<Rightarrow> ResValMap" where
  "sum_flavor usesGpu counts flavor resVals =
     (case map_of counts (fi_Name flavor) of None \<Rightarrow> resVals
      | Some cnt \<Rightarrow>
          let num = (word_of_int cnt :: uint64);
              r = AddVcpus resVals (fi_Vcpus flavor * num) 0;
              r = AddRam r (fi_Ram flavor * num);
              r = AddDisk r (fi_Disk flavor * num);
              r = AddGPUs r (fi_Gpus flavor) (ucast num)
          in if usesGpu flavor then AddRes r ''GPUs'' [] num 0 else r)"

definition sumCloudletResources :: "AllApis \<Rightarrow> Cloudlet \<Rightarrow> CloudletSnapshot \<Rightarrow> CloudletResources \<Rightarrow> ResValMap" where
  "sumCloudletResources a cloudlet cloudletInfo cloudletResources =
     (let resVals = AddAllMult [] (nonFlavorVals cloudletResources) 1;
          resVals = (if flavors cloudletResources \<noteq> []
            then fold (sum_flavor (\<lambda>f. UsesGpu a f cloudlet) (flavors cloudletResources)) (cli_Flavors cloudletInfo) resVals
            else resVals);
          externalIPs = lbNodeCount cloudletResources + platformNodeCount cloudletResources
      in if externalIPs > 0 then AddRes resVals ''External IPs'' [] (word_of_int externalIPs) 0 else resVals)"

definition totalCloudletResources ::
  "AllApis \<Rightarrow> platformService \<Rightarrow> Cloudlet \<Rightarrow> CloudletSnapshot \<Rightarrow> bool \<Rightarrow> CloudletResources \<Rightarrow> (calc_error, ResValMap) result" where
  "totalCloudletResources a sv cloudlet cloudletInfo skipAdditional cloudletResources =
     (case map_of (featuresCache a) (cl_PlatformType cloudlet) of
        None \<Rightarrow> Err (FeaturesNotFound (cl_PlatformType cloudlet))
      | Some _ \<Rightarrow>
          let resVals = sumCloudletResources a cloudlet cloudletInfo cloudletResources
          in case sv_ConnError sv of Some e \<Rightarrow> Err (PlatformError e)
          | None \<Rightarrow>
             if skipAdditional then Ok resVals
             else case sv_AdditionalResources sv (cl_Key cloudlet) (vms cloudletResources) of
               Inl e \<Rightarrow> Err (PlatformError e)
             | Inr res \<Rightarrow> Ok (fold (\<lambda>(k, v) r. AddRes r k (ir_Units v) (ir_Value v) 0) res resVals))"


subsection \<open>Dependencies\<close>

definition GetResTablesForCloudlet :: "AllApis \<Rightarrow> Cloudlet \<Rightarrow> tables" where
  "GetResTablesForCloudlet a cl =
     (case cl_ResTagMap cl of None \<Rightarrow> None
      | Some m \<Rightarrow>
          Some (fold (\<lambda>(k, v) tabs. case map_of (resTagTables a) v of None \<Rightarrow> tabs | Some t \<Rightarrow> AList.update k t tabs) m []))"

text \<open>The two results the code distinguishes by a nil error.\<close>

definition ApiGetVMSpec ::
  "AllApis \<Rightarrow> platformService \<Rightarrow> NodeResources \<Rightarrow> string \<Rightarrow> Cloudlet \<Rightarrow> CloudletSnapshot \<Rightarrow> VMCreationSpec option \<times> vm_error option" where
  "ApiGetVMSpec a sv nodeResources cloudletFlavorName cl cli =
     (if cli_Flavors cli = [] then
        (Some (zero_VMCreationSpec\<lparr>vs_FlavorName := ''noderesources'', vs_FlavorInfo :=
           Some \<lparr>fi_Name = ''noderesources'', fi_Vcpus = nr_Vcpus nodeResources, fi_Ram = nr_Ram nodeResources,
             fi_Disk = nr_Disk nodeResources, fi_Gpus = nr_Gpus nodeResources, fi_PropMap = []\<rparr>\<rparr>), None)
      else if cloudletFlavorName \<noteq> [] then
        (case GetVMSpecCloudletFlavor cloudletFlavorName (CloudletInfo.truncate cli) of
           Inl e \<Rightarrow> (None, Some e) | Inr spec \<Rightarrow> (Some spec, None))
      else GetVMSpec (sv_SortFlavors sv) nodeResources (CloudletInfo.truncate cli) (GetResTablesForCloudlet a cl))"

definition GetRootLBFlavorInfo ::
  "AllApis \<Rightarrow> platformService \<Rightarrow> Cloudlet \<Rightarrow> CloudletSnapshot \<Rightarrow> (calc_error, FlavorInfo option) result" where
  "GetRootLBFlavorInfo a sv cloudlet cloudletInfo =
     (case map_of (featuresCache a) (cl_PlatformType cloudlet) of
        None \<Rightarrow> Err (FeaturesNotFound (cl_PlatformType cloudlet))
      | Some features \<Rightarrow>
          if \<not> pf_UsesRootLb features then Ok None
          else case sv_ConnError sv of Some e \<Rightarrow> Err (PlatformError e)
          | None \<Rightarrow>
              (case sv_RootLbFlavor sv (cl_Key cloudlet) of
                 Inl e \<Rightarrow> Err (PlatformError e)
               | Inr nodeResources \<Rightarrow>
                   (case ApiGetVMSpec a sv nodeResources [] cloudlet cloudletInfo of
                      (_, Some e) \<Rightarrow> Err (LbFlavorError e)
                    | (vmspec, None) \<Rightarrow> Ok (Option.bind vmspec vs_FlavorInfo))))"

record CloudletResCalcDeps =
  dp_cloudlet :: Cloudlet
  dp_cloudletInfo :: CloudletSnapshot
  dp_cloudletRefs :: CloudletRefs
  dp_features :: PlatformFeatures
  dp_lbFlavor :: "FlavorInfo option"

definition NewCloudletResCalc :: "CloudletKey \<Rightarrow> CloudletResCalc" where
  "NewCloudletResCalc key =
     \<lparr>rc_cloudletKey = key, rc_cloudlet = None, rc_cloudletInfo = None, rc_cloudletRefs = None, rc_features = None,
      rc_lbFlavor = None, rc_usedVals = None, rc_skipLB = False, rc_skipAdditional = False\<rparr>"

definition cached :: "'a option \<Rightarrow> 'a option \<Rightarrow> 'a option" where
  "cached x y = (case x of None \<Rightarrow> y | Some v \<Rightarrow> Some v)"

text \<open>
  Each dependency is looked up unless it is already there. The result is the calculator as it is left and, on success, its
  dependencies, which are then all present; the load balancer's flavor may remain absent.
\<close>

definition InitDeps ::
  "AllApis \<Rightarrow> platformService \<Rightarrow> CloudletResCalc \<Rightarrow> CloudletResCalc \<times> (calc_error, CloudletResCalcDeps) result" where
  "InitDeps a sv s =
     (case cached (rc_cloudlet s) (map_of (cloudletCache a) (rc_cloudletKey s)) of
        None \<Rightarrow> (s, Err (CloudletNotFound (rc_cloudletKey s)))
      | Some cloudlet \<Rightarrow>
          let s = s\<lparr>rc_cloudlet := Some cloudlet\<rparr>
          in case cached (rc_cloudletInfo s) (map_of (cloudletInfoCache a) (rc_cloudletKey s)) of
            None \<Rightarrow> (s, Err (CloudletInfoNotFound (rc_cloudletKey s)))
          | Some info \<Rightarrow>
              let refs = (case rc_cloudletRefs s of Some r \<Rightarrow> r
                    | None \<Rightarrow> get_or \<lparr>cr_ClusterInsts = [], cr_VmAppInsts = []\<rparr> (cloudletRefsCache a) (rc_cloudletKey s));
                  s = s\<lparr>rc_cloudletInfo := Some info, rc_cloudletRefs := Some refs\<rparr>
              in case cached (rc_features s) (map_of (featuresCache a) (cl_PlatformType cloudlet)) of
                None \<Rightarrow> (s, Err (FeaturesNotFound (cl_PlatformType cloudlet)))
              | Some features \<Rightarrow>
                  let s = s\<lparr>rc_features := Some features\<rparr>;
                      ok = (\<lambda>lb. (s\<lparr>rc_lbFlavor := lb\<rparr>, Ok \<lparr>dp_cloudlet = cloudlet, dp_cloudletInfo = info,
                              dp_cloudletRefs = refs, dp_features = features, dp_lbFlavor = lb\<rparr>))
                  in if rc_lbFlavor s = None \<and> \<not> rc_skipLB s then
                       (case GetRootLBFlavorInfo a sv cloudlet info of Inl e \<Rightarrow> (s, Err e) | Inr lb \<Rightarrow> ok lb)
                     else ok (rc_lbFlavor s))"

subsection \<open>The resources a cloudlet uses\<close>

definition GetDefaultClustKey :: "platformService \<Rightarrow> CloudletKey \<Rightarrow> string \<Rightarrow> ClusterKey" where
  "GetDefaultClustKey sv key ownerOrg =
     (let ownerOrg = (if ownerOrg = [] then ''edgecloudorg'' else ownerOrg)
      in (''defaultclust-'' @ sv_ShortHash sv (fst key @ ''::'' @ snd key), ownerOrg))"

fun add_vm_apps ::
  "AllApis \<Rightarrow> FlavorInfo option \<Rightarrow> AppInstKey list \<Rightarrow> CloudletResources \<Rightarrow> (calc_error, CloudletResources) result" where
  "add_vm_apps a lb [] s = Ok s"
| "add_vm_apps a lb (key # ks) s =
     (case map_of (appInstCache a) key of
        None \<Rightarrow> add_vm_apps a lb ks s
      | Some appInst \<Rightarrow>
          (case map_of (appCache a) (ai_AppKey appInst) of
             None \<Rightarrow> Err (VmAppNotFound (ai_AppKey appInst))
           | Some app \<Rightarrow> add_vm_apps a lb ks (AddVMAppInstResources app appInst lb s)))"

definition add_clusters ::
  "AllApis \<Rightarrow> FlavorInfo option \<Rightarrow> bool \<Rightarrow> ClusterKey list \<Rightarrow> CloudletResources \<Rightarrow> CloudletResources" where
  "add_clusters a lb isManagedK8s ks s =
     fold (\<lambda>key s. case map_of (clusterInstCache a) key of None \<Rightarrow> s
                  | Some ci \<Rightarrow> AddClusterInstResources ci lb isManagedK8s s) ks s"

definition getCloudletUsedResources ::
  "AllApis \<Rightarrow> platformService \<Rightarrow> CloudletResCalcDeps \<Rightarrow> (calc_error, CloudletResources) result" where
  "getCloudletUsedResources a sv d =
     (case map_of (featuresCache a) (cl_PlatformType (dp_cloudlet d)) of
        None \<Rightarrow> Err (FeaturesNotFound (cl_PlatformType (dp_cloudlet d)))
      | Some features \<Rightarrow>
          if pf_IsSingleKubernetesCluster features then
            let clusterKey = GetDefaultClustKey sv (cl_Key (dp_cloudlet d)) (cl_SingleKubernetesClusterOwner (dp_cloudlet d))
            in case map_of (clusterInstCache a) clusterKey of
                 None \<Rightarrow> Err (ClusterNotFound clusterKey)
               | Some _ \<Rightarrow>
                   (case calcKubernetesClusterUsedResources (apiCaches.truncate a) (get_or [] (clusterRefsCache a) clusterKey) None of
                      (_, Some e) \<Rightarrow> Err (ClusterUsage e)
                    | ((cpuRes, gpuRes), None) \<Rightarrow>
                        Ok (NewCloudletResources\<lparr>nonFlavorVals := AddAllMult cpuRes gpuRes 1\<rparr>))
          else
            add_vm_apps a (dp_lbFlavor d) (cr_VmAppInsts (dp_cloudletRefs d))
              (add_clusters a (dp_lbFlavor d) (pf_KubernetesRequiresWorkerNodes features)
                (cr_ClusterInsts (dp_cloudletRefs d))
                (AddPlatformVMs (dp_cloudletInfo d) NewCloudletResources)))"

definition getUsedResVals ::
  "AllApis \<Rightarrow> platformService \<Rightarrow> CloudletResCalcDeps \<Rightarrow> CloudletResCalc \<Rightarrow> CloudletResCalc \<times> (calc_error, ResValMap) result" where
  "getUsedResVals a sv d s =
     (case rc_usedVals s of Some v \<Rightarrow> (s, Ok v)
      | None \<Rightarrow>
          (case getCloudletUsedResources a sv d of
             Inl e \<Rightarrow> (s, Err e)
           | Inr usedResources \<Rightarrow>
               (case totalCloudletResources a sv (dp_cloudlet d) (dp_cloudletInfo d) (rc_skipAdditional s) usedResources of
                  Inl e \<Rightarrow> (s, Err e)
                | Inr usedVals \<Rightarrow> (s\<lparr>rc_usedVals := Some usedVals\<rparr>, Ok usedVals))))"


subsection \<open>Limits\<close>

definition limit_entry :: "string \<Rightarrow> string \<Rightarrow> string \<Rightarrow> ResLimitMap \<Rightarrow> ResLimit" where
  "limit_entry name resourceType units s =
     get_or \<lparr>rl_Name = name, rl_Units = units, rl_InfraMaxValue = 0, rl_QuotaMaxValue = 0, rl_AlertThreshold = 0,
       rl_ResourceType = resourceType\<rparr> s (BuildResKey resourceType name)"

definition AddMax :: "string \<Rightarrow> string \<Rightarrow> string \<Rightarrow> uint64 \<Rightarrow> ResLimitMap \<Rightarrow> ResLimitMap" where
  "AddMax name resourceType units mx s =
     (let res = limit_entry name resourceType units s
      in AList.update (BuildResKey resourceType name) (res\<lparr>rl_InfraMaxValue := rl_InfraMaxValue res + mx\<rparr>) s)"

definition AddQuota :: "string \<Rightarrow> string \<Rightarrow> string \<Rightarrow> uint64 \<Rightarrow> int \<Rightarrow> ResLimitMap \<Rightarrow> ResLimitMap" where
  "AddQuota name resourceType units quota alertThreshold s =
     (let res = limit_entry name resourceType units s
      in AList.update (BuildResKey resourceType name)
           (res\<lparr>rl_QuotaMaxValue := rl_QuotaMaxValue res + quota, rl_AlertThreshold := alertThreshold\<rparr>) s)"

definition ResLimitMap_SortedKeys :: "ResLimitMap \<Rightarrow> string list" where
  "ResLimitMap_SortedKeys s = sort (keys s)"

definition ResourceQuota_ResKey :: "ResourceQuota \<Rightarrow> string" where
  "ResourceQuota_ResKey s = BuildResKey (rq_ResourceType s) (rq_Name s)"

definition InfraResource_ResKey :: "InfraResource \<Rightarrow> string" where
  "InfraResource_ResKey s = BuildResKey (ir_Type s) (ir_Name s)"

definition CommonCloudletResources :: "(string, string) gomap" where
  "CommonCloudletResources =
     [(''RAM'', ''MB''), (''vCPUs'', []), (''Disk'', ''GB''), (''GPUs'', []), (''External IPs'', [])]"

text \<open>Pools that fail to convert are logged and count as far as they got.\<close>

definition pool_counts :: "NodePool list \<Rightarrow> ResValMap" where
  "pool_counts pools =
     fold (\<lambda>pool r. case np_NodeResources pool of None \<Rightarrow> r
                 | Some nr \<Rightarrow> fst (AddNodeResources r (Some nr) (np_NumNodes pool))) pools []"

definition addResourceLimits :: "Cloudlet \<Rightarrow> CloudletSnapshot \<Rightarrow> ResLimitMap \<Rightarrow> ResLimitMap" where
  "addResourceLimits cloudlet info limits =
     (let limits = fold (\<lambda>r l. if ir_InfraMaxValue r = 0 then l
                      else AddMax (ir_Name r) (ir_Type r) (ir_Units r) (ir_InfraMaxValue r) l) (cli_Info info) limits;
          limits = fold (\<lambda>(_, kres) l. AddMax (rv_Name kres) (rv_ResourceType kres) (rv_Units kres) (Whole (rv_Value kres)) l)
                      (pool_counts (cli_NodePools info)) limits
      in fold (\<lambda>quota l.
           if rq_Value quota = 0 \<and> rq_AlertThreshold quota = 0 then l
           else let units = get_or [] CommonCloudletResources (ResourceQuota_ResKey quota);
                    thresh = (if rq_AlertThreshold quota > 0 then rq_AlertThreshold quota
                              else cl_DefaultResourceAlertThreshold cloudlet)
                in AddQuota (rq_Name quota) (rq_ResourceType quota) units (rq_Value quota) thresh l)
           (cl_ResourceQuotas cloudlet) limits)"

definition getResourceLimits :: "Cloudlet \<Rightarrow> CloudletSnapshot \<Rightarrow> ResLimitMap" where
  "getResourceLimits cloudlet info = addResourceLimits cloudlet info []"

definition getMaxResourceVals :: "InfraResource list \<Rightarrow> ResourceQuota list \<Rightarrow> (string, uint64) gomap" where
  "getMaxResourceVals infraSnapshot quotas =
     fold (\<lambda>quota m.
         let resKey = ResourceQuota_ResKey quota
         in case map_of m resKey of
              None \<Rightarrow> AList.update resKey (rq_Value quota) m
            | Some v \<Rightarrow> if v > rq_Value quota then AList.update resKey (rq_Value quota) m else m) quotas
       (fold (\<lambda>r. AList.update (InfraResource_ResKey r) (ir_InfraMaxValue r)) infraSnapshot [])"

definition free_score :: "(string, uint64) gomap \<Rightarrow> ResValMap \<Rightarrow> string \<times> uint64 \<Rightarrow> uint64 \<times> uint64 \<Rightarrow> uint64 \<times> uint64" where
  "free_score maxVals usedVals rw acc =
     (case rw of (res, weight) \<Rightarrow> case acc of (score, numScored) \<Rightarrow>
        (case map_of maxVals res of None \<Rightarrow> (score, numScored)
         | Some mx \<Rightarrow>
             let free = mx * weight;
                 free = (case map_of usedVals res of None \<Rightarrow> free
                   | Some usedVal \<Rightarrow>
                       let usedDecVal = Mult (NewUdec64 (Whole (rv_Value usedVal)) (Nanos (rv_Value usedVal))) (ucast weight)
                       in if Whole usedDecVal > free then 0 else free - Whole usedDecVal)
             in (score + free, numScored + 1)))"

definition calcResourceScoreFromUsed :: "Cloudlet \<Rightarrow> CloudletSnapshot \<Rightarrow> ResValMap \<Rightarrow> uint64" where
  "calcResourceScoreFromUsed cloudlet info usedVals =
     (let maxVals = getMaxResourceVals (cli_Info info) (cl_ResourceQuotas cloudlet);
          (score, numScored) = fold (free_score maxVals usedVals) resourceWeights (0, 0)
      in if numScored = 0 then - 1 else score div numScored)"

subsection \<open>The check\<close>

definition limit_max :: "ResLimit \<Rightarrow> uint64" where
  "limit_max resInfo = (if rl_QuotaMaxValue resInfo = 0 then rl_InfraMaxValue resInfo else rl_QuotaMaxValue resInfo)"

text \<open>One resource of the first loop: warnings, and whether the required amount exceeds what is left.\<close>

definition check_quota :: "ResValMap \<Rightarrow> ResValMap \<Rightarrow> string \<Rightarrow> ResLimit \<Rightarrow> res_warning list \<times> bool" where
  "check_quota reqdVals usedVals resName resInfo =
     (let mx = limit_max resInfo
      in if mx = 0 then ([], False)
         else
           let w1 = (if rl_QuotaMaxValue resInfo > 0 \<and> rl_InfraMaxValue resInfo > 0
                       \<and> rl_QuotaMaxValue resInfo > rl_InfraMaxValue resInfo
                     then [QuotaAboveInfra resName (rl_QuotaMaxValue resInfo) (rl_InfraMaxValue resInfo)] else []);
               usedVal = (case map_of usedVals resName of Some r \<Rightarrow> rv_Value r | None \<Rightarrow> NewUdec64 0 0);
               thAvailable = fst (SubFloor (NewUdec64 mx 0) usedVal False);
               w2 = (if GreaterThanUint64 usedVal mx then [QuotaBelowUsed resName mx usedVal] else []);
               w3 = (if rl_AlertThreshold resInfo > 0
                       \<and> fl (fl (Float usedVal * 100) / fl (of_int (uint mx))) > of_int (rl_AlertThreshold resInfo)
                     then [UsedAboveThreshold resName usedVal mx] else [])
           in (w1 @ w2 @ w3, case map_of reqdVals resName of None \<Rightarrow> False
                 | Some resReqd \<Rightarrow> GreaterThan (rv_Value resReqd) thAvailable))"

text \<open>One resource of the second loop, against the amounts the infrastructure reports; the subtraction wraps.\<close>

definition check_infra :: "ResValMap \<Rightarrow> (string, InfraResource) gomap \<Rightarrow> string \<Rightarrow> ResLimit \<Rightarrow> res_warning list \<times> bool" where
  "check_infra reqdVals infraUsedVals resName resInfo =
     (if rl_InfraMaxValue resInfo = 0 then ([], False)
      else
        let infraUsed = (case map_of infraUsedVals resName of Some r \<Rightarrow> ir_Value r | None \<Rightarrow> 0);
            infraAvailable = rl_InfraMaxValue resInfo - infraUsed;
            w = (if rl_AlertThreshold resInfo > 0
                   \<and> fl (fl (of_int (uint (infraUsed * 100))) / fl (of_int (uint (rl_InfraMaxValue resInfo))))
                       > of_int (rl_AlertThreshold resInfo)
                 then [InfraUsedAboveThreshold resName infraUsed (rl_InfraMaxValue resInfo)] else [])
        in (w, case map_of reqdVals resName of None \<Rightarrow> False
              | Some resReqd \<Rightarrow> GreaterThanUint64 (rv_Value resReqd) infraAvailable))"

definition run_checks :: "(string \<Rightarrow> ResLimit \<Rightarrow> res_warning list \<times> bool) \<Rightarrow> ResLimitMap \<Rightarrow> res_warning list \<times> string list" where
  "run_checks check limits =
     (let names = ResLimitMap_SortedKeys limits;
          r = (\<lambda>n. case map_of limits n of None \<Rightarrow> ([], False) | Some l \<Rightarrow> check n l)
      in (concat (map (\<lambda>n. fst (r n)) names), filter (\<lambda>n. snd (r n)) names))"

text \<open>The table of the amounts the infrastructure reports, keyed by plain name; a later entry replaces an earlier one.\<close>

definition infra_used :: "InfraResource list \<Rightarrow> (string, InfraResource) gomap" where
  "infra_used infos = fold (\<lambda>r. AList.update (ir_Name r) r) infos []"

definition fits_limits ::
  "ResLimitMap \<Rightarrow> (string, InfraResource) gomap \<Rightarrow> ResValMap \<Rightarrow> ResValMap \<Rightarrow> res_warning list \<times> calc_error option" where
  "fits_limits limits infraUsedVals usedVals reqdVals =
     (case run_checks (check_quota reqdVals usedVals) limits of
        (warnings, short) \<Rightarrow>
          if short \<noteq> [] then (warnings, Some (NotEnoughAvailable short))
          else case run_checks (check_infra reqdVals infraUsedVals) limits of
            (ws, short) \<Rightarrow> (warnings @ ws, if short \<noteq> [] then Some (InfraNotEnough short) else None))"

definition cloudletFitsReqdVals ::
  "AllApis \<Rightarrow> platformService \<Rightarrow> ResValMap \<Rightarrow> CloudletResCalc \<Rightarrow> CloudletResCalc \<times> res_warning list \<times> calc_error option" where
  "cloudletFitsReqdVals a sv reqdVals s =
     (case InitDeps a sv s of
        (s, Inl e) \<Rightarrow> (s, [], Some e)
      | (s, Inr d) \<Rightarrow>
          (case getUsedResVals a sv d s of
             (s, Inl e) \<Rightarrow> (s, [], Some e)
           | (s, Inr usedVals) \<Rightarrow>
               (s, fits_limits (getResourceLimits (dp_cloudlet d) (dp_cloudletInfo d)) (infra_used (cli_Info (dp_cloudletInfo d)))
                     usedVals reqdVals)))"

definition CloudletFitsVMApp ::
  "AllApis \<Rightarrow> platformService \<Rightarrow> App \<Rightarrow> AppInst \<Rightarrow> CloudletResCalc \<Rightarrow> CloudletResCalc \<times> res_warning list \<times> calc_error option" where
  "CloudletFitsVMApp a sv app vmAppInst s =
     (case InitDeps a sv s of
        (s, Inl e) \<Rightarrow> (s, [], Some e)
      | (s, Inr d) \<Rightarrow>
          (case totalCloudletResources a sv (dp_cloudlet d) (dp_cloudletInfo d) (rc_skipAdditional s)
                  (AddVMAppInstResources app vmAppInst (dp_lbFlavor d) NewCloudletResources) of
             Inl e \<Rightarrow> (s, [], Some e)
           | Inr reqdVals \<Rightarrow> cloudletFitsReqdVals a sv reqdVals s))"

definition CloudletFitsCluster ::
  "AllApis \<Rightarrow> platformService \<Rightarrow> CloudletClusterInst \<Rightarrow> CloudletClusterInst option \<Rightarrow> CloudletResCalc
   \<Rightarrow> CloudletResCalc \<times> res_warning list \<times> calc_error option" where
  "CloudletFitsCluster a sv clusterInst oldClusterInst s =
     (case InitDeps a sv s of
        (s, Inl e) \<Rightarrow> (s, [], Some e)
      | (s, Inr d) \<Rightarrow>
          let isManagedK8s = pf_KubernetesRequiresWorkerNodes (dp_features d);
              reqd = AddClusterInstResources clusterInst (dp_lbFlavor d) isManagedK8s NewCloudletResources;
              vals = totalCloudletResources a sv (dp_cloudlet d) (dp_cloudletInfo d) (rc_skipAdditional s)
          in case vals reqd of
               Inl e \<Rightarrow> (s, [], Some e)
             | Inr reqdVals \<Rightarrow>
                 if oldClusterInst = None then cloudletFitsReqdVals a sv reqdVals s
                 else case vals reqd of
                   Inl e \<Rightarrow> (s, [], Some e)
                 | Inr oldVals \<Rightarrow> cloudletFitsReqdVals a sv (fst (SubFloorAll reqdVals oldVals False)) s)"

definition CloudletFitsScaledSpec ::
  "AllApis \<Rightarrow> platformService \<Rightarrow> KubeResScaleSpec \<Rightarrow> CloudletResCalc \<Rightarrow> CloudletResCalc \<times> res_warning list \<times> calc_error option" where
  "CloudletFitsScaledSpec a sv scaleSpec s =
     (let add = (\<lambda>p r. case p of None \<Rightarrow> r | Some pool \<Rightarrow> AddAllMult r (PerNodeResources pool) (NumNodesChange pool))
      in cloudletFitsReqdVals a sv (add (GPUPoolScale scaleSpec) (add (CPUPoolScale scaleSpec) [])) s)"


text \<open>What \<^verbatim>\<open>GetCloudletResourceUsage\<close> reports: the resource list and the score.\<close>

definition limit_info :: "ResLimit option \<Rightarrow> InfraResource \<Rightarrow> InfraResource" where
  "limit_info l r =
     (case l of None \<Rightarrow> r
      | Some limit \<Rightarrow> r\<lparr>ir_QuotaMaxValue := rl_QuotaMaxValue limit, ir_InfraMaxValue := rl_InfraMaxValue limit,
           ir_AlertThreshold := rl_AlertThreshold limit\<rparr>)"

definition usage_info :: "(InfraResource list \<Rightarrow> InfraResource list) \<Rightarrow> ResLimitMap \<Rightarrow> ResValMap \<Rightarrow> InfraResource list" where
  "usage_info sort_slice limits usedVals =
     sort_slice (map (\<lambda>(resName, resVal). limit_info (map_of limits resName) (AsInfraRes resVal)) usedVals @
       map (\<lambda>(_, limit). \<lparr>ir_Name = rl_Name limit, ir_Value = 0, ir_InfraMaxValue = rl_InfraMaxValue limit,
              ir_QuotaMaxValue = rl_QuotaMaxValue limit, ir_Units = rl_Units limit, ir_Type = rl_ResourceType limit,
              ir_AlertThreshold = rl_AlertThreshold limit\<rparr>)
         (fold (\<lambda>(resName, _). AList.delete resName) usedVals limits))"

definition GetCloudletResourceUsage ::
  "(InfraResource list \<Rightarrow> InfraResource list) \<Rightarrow> AllApis \<Rightarrow> platformService \<Rightarrow> CloudletKey \<Rightarrow> bool
   \<Rightarrow> (calc_error, InfraResource list \<times> uint64) result" where
  "GetCloudletResourceUsage sort_slice a sv key infraUsage =
     (case InitDeps a sv (NewCloudletResCalc key) of
        (_, Inl e) \<Rightarrow> Err e
      | (s, Inr d) \<Rightarrow>
          let report = (\<lambda>usedVals. (usage_info sort_slice (getResourceLimits (dp_cloudlet d) (dp_cloudletInfo d)) usedVals,
                calcResourceScoreFromUsed (dp_cloudlet d) (dp_cloudletInfo d) usedVals))
          in if infraUsage then Ok (report (fold (\<lambda>res r. AddRV r (FromInfraRes res)) (cli_Info (dp_cloudletInfo d)) []))
             else case getUsedResVals a sv d s of (_, Inl e) \<Rightarrow> Err e | (_, Inr usedVals) \<Rightarrow> Ok (report usedVals))"

subsection \<open>The bookkeeping is consistent\<close>

definition vm_count :: "(VMResource \<Rightarrow> bool) \<Rightarrow> VMResource list \<Rightarrow> int" where
  "vm_count P xs = (\<Sum>v\<leftarrow>xs. if P v then int (unat (vr_Count v)) else 0)"

definition cr_wf :: "CloudletResources \<Rightarrow> bool" where
  "cr_wf s =
     (resmap_wf (nonFlavorVals s) \<and> go_map (flavors s)
      \<and> (\<forall>f. get_or 0 (flavors s) f = vm_count (\<lambda>v. vr_VmFlavor v = f) (vms s))
      \<and> numVms s = vm_count (\<lambda>_. True) (vms s)
      \<and> lbNodeCount s = int (length (filter (\<lambda>v. IsLBNode (vr_Type v)) (vms s)))
      \<and> platformNodeCount s = int (length (filter (\<lambda>v. IsPlatformNode (vr_Type v)) (vms s))))"

lemma node_kinds_disjoint: "IsLBNode t \<Longrightarrow> \<not> IsPlatformNode t"
  by (auto simp: IsLBNode_def IsPlatformNode_def)

lemma vm_count_simps [simp]:
  "vm_count P [] = 0" "vm_count P (xs @ [v]) = vm_count P xs + (if P v then int (unat (vr_Count v)) else 0)"
  by (simp_all add: vm_count_def)

lemma cr_wf_New [simp, wf_intros]: "cr_wf NewCloudletResources"
  by (simp add: cr_wf_def NewCloudletResources_def)

lemma cr_wf_AddFlavor [wf_intros]: "cr_wf s \<Longrightarrow> cr_wf (AddFlavor k f t c s)"
  by (auto simp: cr_wf_def AddFlavor_def Let_def get_or_def dest: node_kinds_disjoint split: option.splits)

lemma cr_wf_AddResCR [wf_intros]: "cr_wf s \<Longrightarrow> cr_wf (fst (AddResCR k nr t c s))"
  using wf_AddNodeResources[of "nonFlavorVals s" nr c]
  by (auto simp: AddResCR_def cr_wf_AddFlavor Let_def case_prod_beta split: option.split)
    (simp add: cr_wf_def)

lemma fold_keeps: "P s \<Longrightarrow> (\<And>x s. P s \<Longrightarrow> P (step x s)) \<Longrightarrow> P (fold step xs s)"
  by (induction xs arbitrary: s) auto

lemma cr_wf_AddPlatformVMs [wf_intros]: "cr_wf s \<Longrightarrow> cr_wf (AddPlatformVMs info s)"
  unfolding AddPlatformVMs_def by (rule fold_keeps[where P = cr_wf]) (auto intro: cr_wf_AddFlavor)

lemma cr_wf_AddClusterInstResources [wf_intros]: "cr_wf s \<Longrightarrow> cr_wf (AddClusterInstResources ci lb m s)"
  by (auto simp: AddClusterInstResources_def Let_def intro!: cr_wf_AddFlavor cr_wf_AddResCR fold_keeps[where P = cr_wf]
      split: option.split)

lemma cr_wf_AddVMAppInstResources [wf_intros]: "cr_wf s \<Longrightarrow> cr_wf (AddVMAppInstResources app ai lb s)"
  by (auto simp: AddVMAppInstResources_def Let_def intro!: cr_wf_AddFlavor cr_wf_AddResCR split: option.split)

lemma cr_wf_add_clusters [wf_intros]: "cr_wf s \<Longrightarrow> cr_wf (add_clusters a lb m ks s)"
  unfolding add_clusters_def
  by (rule fold_keeps[where P = cr_wf]) (auto intro: cr_wf_AddClusterInstResources split: option.split)

lemma cr_wf_add_vm_apps: "add_vm_apps a lb ks s = Inr s' \<Longrightarrow> cr_wf s \<Longrightarrow> cr_wf s'"
  by (induction ks arbitrary: s) (auto intro: cr_wf_AddVMAppInstResources split: option.splits)

lemma walk_keeps:
  assumes "\<And>app ai s. P s \<Longrightarrow> P (fst (cb app ai s))"
  shows "P s \<Longrightarrow> P (fst (walkClusterAppInsts c na cb refs s))"
proof (induction refs arbitrary: s)
  case (Cons r refs)
  show ?case
  proof (cases "na = Some r")
    case True
    then show ?thesis using Cons by simp
  next
    case False
    show ?thesis
    proof (cases "map_of (appInstCache c) r")
      case None
      then show ?thesis using False Cons.prems by (simp del: map_of_eq_None_keys)
    next
      case ai: (Some ai)
      show ?thesis
      proof (cases "map_of (appCache c) (ai_AppKey ai)")
        case None
        then show ?thesis using False ai Cons.prems by (simp del: map_of_eq_None_keys)
      next
        case (Some app)
        obtain s1 e where cb: "cb app ai s = (s1, e)" by (cases "cb app ai s")
        have "P s1" using assms[OF Cons.prems, of app ai] cb by simp
        then show ?thesis using Cons.IH[of s1] False ai Some by (cases e) (simp_all add: cb)
      qed
    qed
  qed
qed simp

abbreviation both_wf :: "ResValMap \<times> ResValMap \<Rightarrow> bool" where
  "both_wf s \<equiv> resmap_wf (fst s) \<and> resmap_wf (snd s)"

lemma kube_cb_wf: "both_wf s \<Longrightarrow> both_wf (fst (kube_cb app ai s))"
proof -
  assume wf: "both_wf s"
  obtain c g where s: "s = (c, g)" by (cases s)
  show ?thesis
  proof (cases "ai_KubernetesResources ai = None \<or> IsSideCarApp app")
    case True
    then show ?thesis using wf by (auto simp: s kube_cb_def split: option.split)
  next
    case False
    then obtain kr where kr: "ai_KubernetesResources ai = Some kr" "\<not> IsSideCarApp app" by auto
    obtain c' e where c: "AddNodePoolResources c (CpuPool kr) = (c', e)" by fastforce
    obtain g' e' where g: "AddNodePoolResources g (GpuPool kr) = (g', e')" by fastforce
    have "resmap_wf c'" "resmap_wf g'"
      using wf_AddNodePoolResources[of c "CpuPool kr"] wf_AddNodePoolResources[of g "GpuPool kr"] wf by (simp_all add: s c g)
    then show ?thesis using wf by (cases e; cases e') (simp_all add: s kube_cb_def kr c g)
  qed
qed

lemma cr_wf_used:
  assumes "getCloudletUsedResources a sv d = Inr s"
  shows "cr_wf s"
proof -
  obtain f where f: "map_of (featuresCache a) (cl_PlatformType (dp_cloudlet d)) = Some f"
    using assms by (cases "map_of (featuresCache a) (cl_PlatformType (dp_cloudlet d))")
      (simp_all add: getCloudletUsedResources_def del: map_of_eq_None_keys)
  show ?thesis
  proof (cases "pf_IsSingleKubernetesCluster f")
    case True
    let ?key = "GetDefaultClustKey sv (cl_Key (dp_cloudlet d)) (cl_SingleKubernetesClusterOwner (dp_cloudlet d))"
    let ?walk = "walkClusterAppInsts (apiCaches.truncate a) None kube_cb (get_or [] (clusterRefsCache a) ?key) ([], [])"
    obtain c g e where w: "?walk = ((c, g), e)" by (metis prod.collapse)
    have "both_wf (fst ?walk)" by (rule walk_keeps) (simp_all add: kube_cb_wf)
    then have "cr_wf (NewCloudletResources\<lparr>nonFlavorVals := AddAllMult c g 1\<rparr>)"
      using wf_AddAllMult by (simp add: w cr_wf_def NewCloudletResources_def)
    then show ?thesis using assms f True w
      by (cases "map_of (clusterInstCache a) ?key"; cases e)
        (simp_all add: getCloudletUsedResources_def calcKubernetesClusterUsedResources_def Let_def del: map_of_eq_None_keys)
  next
    case False
    then have "add_vm_apps a (dp_lbFlavor d) (cr_VmAppInsts (dp_cloudletRefs d))
        (add_clusters a (dp_lbFlavor d) (pf_KubernetesRequiresWorkerNodes f) (cr_ClusterInsts (dp_cloudletRefs d))
          (AddPlatformVMs (dp_cloudletInfo d) NewCloudletResources)) = Inr s"
      using assms f by (simp add: getCloudletUsedResources_def)
    then show ?thesis by (rule cr_wf_add_vm_apps) (intro wf_intros)
  qed
qed

subsection \<open>What the resources in use add up to\<close>

definition val_sum :: "ResVal list \<Rightarrow> string \<Rightarrow> nat" where
  "val_sum rs k = (\<Sum>r\<leftarrow>rs. if Key r = k then nanoval (rv_Value r) else 0)"

lemma val_sum_simps [simp]:
  "val_sum [] k = 0" "val_sum (r # rs) k = (if Key r = k then nanoval (rv_Value r) else 0) + val_sum rs k"
  "val_sum (rs @ qs) k = val_sum rs k + val_sum qs k"
  by (simp_all add: val_sum_def)

definition vals_ok :: "ResVal list \<Rightarrow> bool" where
  "vals_ok rs = (\<forall>r \<in> set rs. udec_valid (rv_Value r))"

lemma vals_ok_simps [simp]:
  "vals_ok []" "vals_ok (r # rs) \<longleftrightarrow> udec_valid (rv_Value r) \<and> vals_ok rs" "vals_ok (rs @ qs) \<longleftrightarrow> vals_ok rs \<and> vals_ok qs"
  by (auto simp: vals_ok_def)

lemma add_vals_amt:
  assumes "resmap_wf s" "vals_ok rs" "\<And>k. amt s k + val_sum rs k < udec_limit"
  shows "resmap_wf (add_vals rs s)" "amt (add_vals rs s) k = amt s k + val_sum rs k"
  using amt_add_vals[OF assms(1), of rs k] assms(2,3) by (simp_all add: vals_ok_def val_sum_def)

lemma val_sum_map_snd: "resmap_wf m \<Longrightarrow> val_sum (map snd m) k = amt m k"
proof (induction m)
  case (Cons e m)
  obtain j v where e: "e = (j, v)" by (cases e)
  from Cons.prems have "Key v = j" "resmap_wf m" "j \<notin> set (keys m)" unfolding e resmap_wf_Cons by auto
  then show ?case using Cons.IH amt_absent[of j m] by (auto simp: e amt_Cons)
qed simp

lemma AddAllMult_vals: "AddAllMult s m 1 = add_vals (map snd m) s"
  by (induction m arbitrary: s) (auto simp: AddAllMult_def AddRV_def)

lemma vals_ok_map_snd: "resmap_wf m \<Longrightarrow> vals_ok (map snd m)"
  by (induction m) (auto simp: resmap_wf_Cons)

text \<open>One node description: what \<open>AddNodeResources\<close> adds, up to the first optional resource that does not parse.\<close>

definition parses :: "string \<times> string \<Rightarrow> bool" where
  "parses e = is_ok (ParseOptResVal (snd e))"

definition node_vals :: "NodeResources \<Rightarrow> uint32 \<Rightarrow> ResVal list" where
  "node_vals n cnt =
     [NewDecimalResVal ''vCPUs'' [] (NewUdec64 (nr_Vcpus n * ucast cnt) 0),
      NewDecimalResVal ''RAM'' ''MB'' (NewUdec64 (nr_Ram n * ucast cnt) 0),
      NewDecimalResVal ''Disk'' ''GB'' (NewUdec64 (nr_Disk n * ucast cnt) 0)]
     @ map (\<lambda>g. NewGPURes (gpu_ModelId g) (gpu_Count g * cnt)) (nr_Gpus n)
     @ opt_vals (takeWhile parses (entries (nr_OptResMap n))) cnt"

lemma AddOptResMap_prefix: "fst (AddOptResMap s m c) = add_vals (opt_vals (takeWhile parses m) c) s"
proof (induction m arbitrary: s)
  case (Cons e m)
  obtain resName v where e: "e = (resName, v)" by (cases e)
  show ?case
  proof (cases "ParseOptResVal v")
    case (Inl err)
    then show ?thesis by (simp add: e AddOptRes_def parses_def opt_vals_def)
  next
    case (Inr p)
    with Cons show ?thesis by (cases p) (simp add: e AddOptRes_def opt_vals_def parses_def Let_def)
  qed
qed (simp add: opt_vals_def)

lemma AddGPUs_mult_vals: "AddGPUs s gpus c = add_vals (map (\<lambda>g. NewGPURes (gpu_ModelId g) (gpu_Count g * c)) gpus) s"
  by (induction gpus arbitrary: s) (simp_all add: AddGPUs_def AddGPU_def)

lemma AddNodeResources_vals: "fst (AddNodeResources s (Some n) c) = add_vals (node_vals n c) s"
  by (simp add: AddNodeResources_def node_vals_def AddOptResMap_prefix AddGPUs_mult_vals AddDisk_def AddRam_def AddVcpus_def AddRes_def)

lemma vals_ok_gpus [simp]: "vals_ok (map (\<lambda>g. NewGPURes (f g) (h g)) gs)"
  by (induction gs) (simp_all add: NewGPURes_def NewWholeResTypeVal_def)

lemma vals_ok_opt [simp]: "vals_ok (opt_vals m c)"
  by (auto simp: vals_ok_def opt_vals_def split: sum.splits)

lemma vals_ok_node [simp]: "vals_ok (node_vals n c)"
  by (simp add: node_vals_def)

text \<open>The amount of resource \<open>k\<close> in one VM of a flavor, in billionths.\<close>

definition flavor_amt :: "(FlavorInfo \<Rightarrow> bool) \<Rightarrow> FlavorInfo \<Rightarrow> string \<Rightarrow> nat" where
  "flavor_amt usesGpu f k =
     10 ^ 9 * ((if k = ''vCPUs'' then unat (fi_Vcpus f) else 0) + (if k = ''RAM'' then unat (fi_Ram f) else 0)
       + (if k = ''Disk'' then unat (fi_Disk f) else 0)
       + (\<Sum>g\<leftarrow>fi_Gpus f. if BuildResKey ''gpu'' (gpu_ModelId g) = k then unat (gpu_Count g) else 0)
       + (if usesGpu f \<and> k = ''GPUs'' then 1 else 0))"

definition flavor_vals :: "(FlavorInfo \<Rightarrow> bool) \<Rightarrow> uint64 \<Rightarrow> FlavorInfo \<Rightarrow> ResVal list" where
  "flavor_vals usesGpu num f =
     [NewDecimalResVal ''vCPUs'' [] (NewUdec64 (fi_Vcpus f * num) 0),
      NewDecimalResVal ''RAM'' ''MB'' (NewUdec64 (fi_Ram f * num) 0),
      NewDecimalResVal ''Disk'' ''GB'' (NewUdec64 (fi_Disk f * num) 0)]
     @ map (\<lambda>g. NewGPURes (gpu_ModelId g) (gpu_Count g * ucast num)) (fi_Gpus f)
     @ (if usesGpu f then [NewDecimalResVal ''GPUs'' [] (NewUdec64 num 0)] else [])"

lemma sum_flavor_vals:
  "sum_flavor u counts f r =
     (case map_of counts (fi_Name f) of None \<Rightarrow> r | Some c \<Rightarrow> add_vals (flavor_vals u (word_of_int c) f) r)"
  by (auto simp: sum_flavor_def flavor_vals_def AddGPUs_mult_vals AddDisk_def AddRam_def AddVcpus_def AddRes_def Let_def
      split: option.split)

lemma vals_ok_flavor [simp]: "vals_ok (flavor_vals u c f)"
  by (simp add: flavor_vals_def)

lemma NewUdec64_whole [simp]: "NewUdec64 w 0 = \<lparr>Whole = w, Nanos = 0\<rparr>"
  by (simp add: NewUdec64_def DecWhole_val)

lemma Key_new [simp]:
  "Key (NewDecimalResVal n u v) = n" "Key (NewGPURes m c) = BuildResKey ''gpu'' m"
  by (simp_all add: Key_def NewDecimalResVal_def NewGPURes_def NewWholeResTypeVal_def BuildResKey_def)

lemma gpus_sum:
  assumes "\<And>g. g \<in> set gs \<Longrightarrow> unat (gpu_Count g) * n < 2 ^ 32" "n < 2 ^ 32"
  shows "val_sum (map (\<lambda>g. NewGPURes (gpu_ModelId g) (gpu_Count g * of_nat n)) gs) k
    = 10 ^ 9 * n * (\<Sum>g\<leftarrow>gs. if BuildResKey ''gpu'' (gpu_ModelId g) = k then unat (gpu_Count g) else 0)"
  using assms(1)
proof (induction gs)
  case (Cons g gs)
  have "unat (of_nat n :: uint32) = n" using assms(2) by (simp add: unat_of_nat)
  then have "unat (gpu_Count g * of_nat n) = unat (gpu_Count g) * n"
    using Cons.prems[of g] by (subst unat_mult32) simp_all
  then have "nanoval (rv_Value (NewGPURes (gpu_ModelId g) (gpu_Count g * of_nat n))) = unat (gpu_Count g) * n * 10 ^ 9"
    by (simp add: nanoval_def NewGPURes_def NewWholeResTypeVal_def)
  then show ?case using Cons by (simp add: algebra_simps)
qed simp

text \<open>No GPU count of a flavor overflows its 32 bits with \<open>n\<close> VMs.\<close>

definition gpus_in_range :: "FlavorInfo list \<Rightarrow> nat \<Rightarrow> bool" where
  "gpus_in_range fs n = (n < 2 ^ 32 \<and> (\<forall>f \<in> set fs. \<forall>g \<in> set (fi_Gpus f). unat (gpu_Count g) * n < 2 ^ 32))"

lemma gpus_in_range_mono: "gpus_in_range fs n \<Longrightarrow> m \<le> n \<Longrightarrow> gpus_in_range fs m"
  unfolding gpus_in_range_def by (meson le_less_trans mult_le_mono2)

lemma flavor_vals_sum:
  assumes "gpus_in_range [f] n" "\<And>k. n * flavor_amt u f k < udec_limit"
  shows "val_sum (flavor_vals u (of_nat n) f) k = n * flavor_amt u f k"
proof -
  have n: "unat (of_nat n :: uint64) = n" using assms(1) by (simp add: gpus_in_range_def unat_of_nat)
  have m: "unat (w * of_nat n :: uint64) = unat w * n" if "unat w * n < 2 ^ 64" for w
    using that by (subst unat_mult64) (simp_all add: n)
  have lim: "unat (fi_Vcpus f) * n < 2 ^ 64" "unat (fi_Ram f) * n < 2 ^ 64" "unat (fi_Disk f) * n < 2 ^ 64"
    using assms(2)[of "''vCPUs''"] assms(2)[of "''RAM''"] assms(2)[of "''Disk''"]
    by (simp_all add: flavor_amt_def udec_limit_def algebra_simps)
  have "of_nat (unat (of_nat n :: uint64)) = (ucast (of_nat n :: uint64) :: uint32)" by (rule of_nat_unat)
  then have u: "(ucast (of_nat n :: uint64) :: uint32) = of_nat n" by (simp only: n)
  have g: "val_sum (map (\<lambda>g. NewGPURes (gpu_ModelId g) (gpu_Count g * of_nat n)) (fi_Gpus f)) k
    = 10 ^ 9 * n * (\<Sum>g\<leftarrow>fi_Gpus f. if BuildResKey ''gpu'' (gpu_ModelId g) = k then unat (gpu_Count g) else 0)" for k
    by (rule gpus_sum) (use assms(1) in \<open>auto simp: gpus_in_range_def\<close>)
  show ?thesis
    unfolding flavor_vals_def flavor_amt_def u
    by (simp add: g nanoval_def m[OF lim(1)] m[OF lim(2)] m[OF lim(3)] n) (auto simp: algebra_simps)
qed

text \<open>The total of everything booked: plain amounts, flavors times their counts, and one external address per
  load balancer or platform VM.\<close>

definition cr_amt :: "(FlavorInfo \<Rightarrow> bool) \<Rightarrow> FlavorInfo list \<Rightarrow> CloudletResources \<Rightarrow> string \<Rightarrow> nat" where
  "cr_amt u fs s k =
     amt (nonFlavorVals s) k + (\<Sum>f\<leftarrow>fs. nat (get_or 0 (flavors s) (fi_Name f)) * flavor_amt u f k)
     + (if k = ''External IPs'' then nat (lbNodeCount s + platformNodeCount s) * 10 ^ 9 else 0)"

lemma vm_count_bounds: "0 \<le> vm_count P xs" "vm_count P xs \<le> vm_count (\<lambda>_. True) xs"
  by (induction xs) (auto simp: vm_count_def intro: add_increasing)

lemma cr_wf_counts:
  assumes "cr_wf s"
  shows "0 \<le> get_or 0 (flavors s) f" "get_or 0 (flavors s) f \<le> numVms s" "0 \<le> lbNodeCount s" "0 \<le> platformNodeCount s"
    "resmap_wf (nonFlavorVals s)"
  using assms vm_count_bounds by (simp_all add: cr_wf_def)

definition count_vals :: "(FlavorInfo \<Rightarrow> bool) \<Rightarrow> (string, int) gomap \<Rightarrow> FlavorInfo list \<Rightarrow> ResVal list" where
  "count_vals u counts fs =
     concat (map (\<lambda>f. case map_of counts (fi_Name f) of None \<Rightarrow> [] | Some c \<Rightarrow> flavor_vals u (word_of_int c) f) fs)"

lemma count_vals_ok [simp]: "vals_ok (count_vals u counts fs)"
proof -
  have "r \<in> set (flavor_vals u c f) \<Longrightarrow> udec_valid (rv_Value r)" for r c f
    using vals_ok_flavor[of u c f] by (simp add: vals_ok_def)
  then show ?thesis by (auto simp: count_vals_def vals_ok_def split: option.splits)
qed

lemma sum_flavors: "fold (sum_flavor u counts) fs r = add_vals (count_vals u counts fs) r"
  by (induction fs arbitrary: r) (auto simp: sum_flavor_vals count_vals_def split: option.split)

lemma count_vals_sum:
  assumes "\<And>f. 0 \<le> get_or 0 counts f" "\<And>f. get_or 0 counts f \<le> int n" "gpus_in_range fs n"
    "\<And>k. (\<Sum>f\<leftarrow>fs. nat (get_or 0 counts (fi_Name f)) * flavor_amt u f k) < udec_limit"
  shows "val_sum (count_vals u counts fs) k = (\<Sum>f\<leftarrow>fs. nat (get_or 0 counts (fi_Name f)) * flavor_amt u f k)"
  using assms(3,4)
proof (induction fs)
  case (Cons f fs)
  let ?c = "nat (get_or 0 counts (fi_Name f))"
  have rest: "val_sum (count_vals u counts fs) k = (\<Sum>f\<leftarrow>fs. nat (get_or 0 counts (fi_Name f)) * flavor_amt u f k)"
  proof (rule Cons.IH)
    show "gpus_in_range fs n" using Cons.prems(1) by (simp add: gpus_in_range_def)
    show "(\<Sum>f\<leftarrow>fs. nat (get_or 0 counts (fi_Name f)) * flavor_amt u f k) < udec_limit" for k
      using Cons.prems(2)[of k] by simp
  qed
  have "?c \<le> n" using assms(2)[of "fi_Name f"] by simp
  moreover have "gpus_in_range [f] n" using Cons.prems(1) by (simp add: gpus_in_range_def)
  ultimately have g: "gpus_in_range [f] ?c" by (rule gpus_in_range_mono[rotated])
  have l: "?c * flavor_amt u f k < udec_limit" for k using Cons.prems(2)[of k] by simp
  have "val_sum (case map_of counts (fi_Name f) of None \<Rightarrow> [] | Some c \<Rightarrow> flavor_vals u (word_of_int c) f) k = ?c * flavor_amt u f k"
  proof (cases "map_of counts (fi_Name f)")
    case None
    then have "get_or 0 counts (fi_Name f) = 0" by (simp add: get_or_def del: map_of_eq_None_keys)
    with None show ?thesis by (simp del: map_of_eq_None_keys)
  next
    case (Some c)
    then have "c = int ?c" using assms(1)[of "fi_Name f"] by (simp add: get_or_def)
    then have "word_of_int c = (of_nat ?c :: uint64)" by (metis of_int_of_nat_eq)
    with Some flavor_vals_sum[OF g l, of k] show ?thesis by simp
  qed
  with rest show ?case by (simp add: count_vals_def)
qed (simp add: count_vals_def)

definition ip_vals :: "int \<Rightarrow> ResVal list" where
  "ip_vals n = (if n > 0 then [NewDecimalResVal ''External IPs'' [] (NewUdec64 (word_of_int n) 0)] else [])"

lemma sumCloudletResources_vals:
  "sumCloudletResources a cl info s =
     add_vals (map snd (nonFlavorVals s) @ count_vals (\<lambda>f. UsesGpu a f cl) (flavors s) (cli_Flavors info)
       @ ip_vals (lbNodeCount s + platformNodeCount s)) []"
proof -
  have "count_vals u [] fs = []" for u fs by (simp add: count_vals_def)
  then show ?thesis
    by (auto simp: sumCloudletResources_def sum_flavors AddAllMult_vals ip_vals_def AddRes_def Let_def)
qed

lemma unat_word_of_int64: "0 \<le> i \<Longrightarrow> nat i < 2 ^ 64 \<Longrightarrow> unat (word_of_int i :: uint64) = nat i"
proof -
  assume "0 \<le> i" "nat i < 2 ^ 64"
  then obtain n where "i = int n" "n < 2 ^ 64" by (metis nat_0_le)
  then show ?thesis by (simp add: unat_of_nat)
qed

lemma sumCloudletResources_amt:
  assumes wf: "cr_wf s" and g: "gpus_in_range (cli_Flavors info) (nat (numVms s))"
    and lim: "\<And>k. cr_amt (\<lambda>f. UsesGpu a f cl) (cli_Flavors info) s k < udec_limit"
  shows "resmap_wf (sumCloudletResources a cl info s)"
    "amt (sumCloudletResources a cl info s) k = cr_amt (\<lambda>f. UsesGpu a f cl) (cli_Flavors info) s k"
proof -
  let ?u = "\<lambda>f. UsesGpu a f cl" and ?fs = "cli_Flavors info" and ?ip = "lbNodeCount s + platformNodeCount s"
  note c = cr_wf_counts[OF wf]
  have n: "get_or 0 (flavors s) f \<le> int (nat (numVms s))" for f using c(1,2)[of f] by linarith
  have 1: "val_sum (count_vals ?u (flavors s) ?fs) k = (\<Sum>f\<leftarrow>?fs. nat (get_or 0 (flavors s) (fi_Name f)) * flavor_amt ?u f k)" for k
  proof (rule count_vals_sum[OF c(1) n g])
    show "(\<Sum>f\<leftarrow>?fs. nat (get_or 0 (flavors s) (fi_Name f)) * flavor_amt ?u f k) < udec_limit" for k
      using lim[of k] by (simp add: cr_amt_def)
  qed
  have "nat ?ip * 10 ^ 9 < udec_limit" using lim[of "''External IPs''"] by (simp add: cr_amt_def)
  then have "nat ?ip < 2 ^ 64" by (simp add: udec_limit_def)
  then have "unat (word_of_int ?ip :: uint64) = nat ?ip"
    using c(3,4) by (intro unat_word_of_int64) simp_all
  then have 2: "val_sum (ip_vals ?ip) k = (if k = ''External IPs'' then nat ?ip * 10 ^ 9 else 0)" for k
    by (simp add: ip_vals_def nanoval_def)
  let ?rs = "map snd (nonFlavorVals s) @ count_vals ?u (flavors s) ?fs @ ip_vals ?ip"
  have v: "val_sum ?rs k = cr_amt ?u ?fs s k" for k
    using val_sum_map_snd[OF c(5), of k] by (simp add: 1 2 cr_amt_def)
  have "vals_ok ?rs" using vals_ok_map_snd[OF c(5)] by (simp add: ip_vals_def)
  note add = add_vals_amt[OF resmap_wf_Nil this, unfolded v amt_Nil add_0, OF lim]
  show "resmap_wf (sumCloudletResources a cl info s)" unfolding sumCloudletResources_vals by (rule add(1))
  show "amt (sumCloudletResources a cl info s) k = cr_amt ?u ?fs s k" unfolding sumCloudletResources_vals by (rule add(2))
qed

text \<open>
  The operations as sequences of charges: so many VMs of a flavor, or so many nodes described by their resources.
\<close>

datatype charge = ChargeFlavor ClusterKey string string uint32 | ChargeNodes NodeResources uint32

fun run_charge :: "charge \<Rightarrow> CloudletResources \<Rightarrow> CloudletResources" where
  "run_charge (ChargeFlavor key f t c) s = AddFlavor key f t c s"
| "run_charge (ChargeNodes n c) s = s\<lparr>nonFlavorVals := fst (AddNodeResources (nonFlavorVals s) (Some n) c)\<rparr>"

fun charge_amt :: "(FlavorInfo \<Rightarrow> bool) \<Rightarrow> FlavorInfo list \<Rightarrow> string \<Rightarrow> charge \<Rightarrow> nat" where
  "charge_amt u fs k (ChargeFlavor key f t c) =
     unat c * (\<Sum>fl\<leftarrow>fs. if fi_Name fl = f then flavor_amt u fl k else 0)
     + (if c \<noteq> 0 \<and> (IsLBNode t \<or> IsPlatformNode t) \<and> k = ''External IPs'' then 10 ^ 9 else 0)"
| "charge_amt u fs k (ChargeNodes n c) = val_sum (node_vals n c) k"

fun charge_vms :: "charge \<Rightarrow> nat" where
  "charge_vms (ChargeFlavor _ _ _ c) = unat c"
| "charge_vms (ChargeNodes _ _) = 0"

lemma sum_list_bump:
  "(\<Sum>f\<leftarrow>fs. nat (if fi_Name f = g then x f + int c else x f) * h f)
   = (\<Sum>f\<leftarrow>fs. nat (x f) * h f) + c * (\<Sum>f\<leftarrow>fs. if fi_Name f = g then h f else 0)"
  if "\<And>f. 0 \<le> x f" for x :: "FlavorInfo \<Rightarrow> int" and h :: "FlavorInfo \<Rightarrow> nat"
  by (induction fs) (use that in \<open>auto simp: nat_add_distrib algebra_simps\<close>)

lemma cr_amt_AddFlavor:
  assumes "cr_wf s"
  shows "cr_amt u fs (AddFlavor key g t c s) k = cr_amt u fs s k + charge_amt u fs k (ChargeFlavor key g t c)"
proof (cases "c = 0")
  case False
  note pos = cr_wf_counts[OF assms]
  have "get_or 0 (flavors (AddFlavor key g t c s)) f
      = (if f = g then get_or 0 (flavors s) f + int (unat c) else get_or 0 (flavors s) f)" for f
    using False by (simp add: AddFlavor_def Let_def get_or_def)
  then have "(\<Sum>f\<leftarrow>fs. nat (get_or 0 (flavors (AddFlavor key g t c s)) (fi_Name f)) * flavor_amt u f k)
      = (\<Sum>f\<leftarrow>fs. nat (get_or 0 (flavors s) (fi_Name f)) * flavor_amt u f k)
        + unat c * (\<Sum>f\<leftarrow>fs. if fi_Name f = g then flavor_amt u f k else 0)"
    using sum_list_bump[where x = "\<lambda>f. get_or 0 (flavors s) (fi_Name f)" and h = "\<lambda>f. flavor_amt u f k" and c = "unat c"] pos(1)
    by simp
  moreover have "lbNodeCount (AddFlavor key g t c s) + platformNodeCount (AddFlavor key g t c s)
      = lbNodeCount s + platformNodeCount s + (if IsLBNode t \<or> IsPlatformNode t then 1 else 0)"
    "nonFlavorVals (AddFlavor key g t c s) = nonFlavorVals s"
    using False by (simp_all add: AddFlavor_def Let_def)
  ultimately show ?thesis using pos(3,4) False by (simp add: cr_amt_def nat_add_distrib)
qed (simp add: AddFlavor_def)

lemma cr_wf_run_charge: "cr_wf s \<Longrightarrow> cr_wf (run_charge c s)"
proof (cases c)
  case (ChargeNodes n cnt)
  then show "cr_wf s \<Longrightarrow> ?thesis" by (simp add: cr_wf_def wf_AddNodeResources)
qed (simp add: cr_wf_AddFlavor)

lemma run_charge_amt:
  assumes "cr_wf s" "\<And>k. cr_amt u fs s k + charge_amt u fs k c < udec_limit"
  shows "cr_amt u fs (run_charge c s) k = cr_amt u fs s k + charge_amt u fs k c"
proof (cases c)
  case (ChargeNodes n cnt)
  have "amt (nonFlavorVals s) k + val_sum (node_vals n cnt) k < udec_limit" for k
    using assms(2)[of k] by (simp add: cr_amt_def ChargeNodes)
  from add_vals_amt(2)[OF _ vals_ok_node this] show ?thesis
    using cr_wf_counts(5)[OF assms(1)] by (simp add: ChargeNodes cr_amt_def AddNodeResources_vals)
qed (use cr_amt_AddFlavor[OF assms(1)] in simp)

lemma run_charges_amt:
  assumes "cr_wf s" "\<And>k. cr_amt u fs s k + (\<Sum>c\<leftarrow>cs. charge_amt u fs k c) < udec_limit"
  shows "cr_wf (fold run_charge cs s)"
    "cr_amt u fs (fold run_charge cs s) k = cr_amt u fs s k + (\<Sum>c\<leftarrow>cs. charge_amt u fs k c)"
proof -
  have "cr_wf (fold run_charge cs s) \<and> cr_amt u fs (fold run_charge cs s) k = cr_amt u fs s k + (\<Sum>c\<leftarrow>cs. charge_amt u fs k c)"
    using assms
  proof (induction cs arbitrary: s)
    case (Cons c cs)
    have lim: "cr_amt u fs s k + charge_amt u fs k c < udec_limit" for k using Cons.prems(2)[of k] by simp
    note a = run_charge_amt[OF Cons.prems(1) lim]
    show ?case using Cons.IH[OF cr_wf_run_charge[OF Cons.prems(1)]] Cons.prems(2) by (simp add: a add.assoc)
  qed simp
  then show "cr_wf (fold run_charge cs s)"
    "cr_amt u fs (fold run_charge cs s) k = cr_amt u fs s k + (\<Sum>c\<leftarrow>cs. charge_amt u fs k c)" by auto
qed

lemma run_charges_vms: "numVms (fold run_charge cs s) = numVms s + int (\<Sum>c\<leftarrow>cs. charge_vms c)"
proof (induction cs arbitrary: s)
  case (Cons c cs)
  have "numVms (run_charge c s) = numVms s + int (charge_vms c)"
    by (cases c) (simp_all add: AddFlavor_def Let_def)
  then show ?case using Cons by simp
qed simp

definition res_charges :: "ClusterKey \<Rightarrow> NodeResources option \<Rightarrow> string \<Rightarrow> uint32 \<Rightarrow> charge list" where
  "res_charges key nr t c =
     (case nr of None \<Rightarrow> []
      | Some n \<Rightarrow> if c = 0 then []
          else if nr_InfraNodeFlavor n \<noteq> [] then [ChargeFlavor key (nr_InfraNodeFlavor n) t c] else [ChargeNodes n c])"

definition lb_charges :: "ClusterKey \<Rightarrow> FlavorInfo option \<Rightarrow> charge list" where
  "lb_charges key lb =
     (case lb of None \<Rightarrow> [] | Some f \<Rightarrow> [ChargeFlavor key (fi_Name f) (NodeType_String NodeTypeDedicatedRootLB) 1])"

definition cluster_charges :: "FlavorInfo option \<Rightarrow> bool \<Rightarrow> CloudletClusterInst \<Rightarrow> charge list" where
  "cluster_charges lb m ci =
     (if cc_Deployment ci = ''docker''
      then res_charges (cc_Key ci) (ci_NodeResources ci) (NodeType_String NodeTypeDockerClusterNode) 1
      else ChargeFlavor (cc_Key ci) (cc_MasterNodeFlavor ci) (NodeType_String NodeTypeK8sClusterMaster) (cc_NumMasters ci)
        # concat (map (\<lambda>p. res_charges (cc_Key ci) (np_NodeResources p) (NodeType_String NodeTypeK8sClusterNode) (np_NumNodes p))
            (ci_NodePools ci)))
     @ (if \<not> m \<and> cc_IpAccess ci = IP_ACCESS_DEDICATED then lb_charges (cc_Key ci) lb else [])"

definition vm_charges :: "FlavorInfo option \<Rightarrow> App \<Rightarrow> AppInst \<Rightarrow> charge list" where
  "vm_charges lb app ai =
     res_charges (ai_ClusterKey ai) (ai_NodeResources ai) (NodeType_String NodeTypeAppVM) 1
     @ (if app_LoadBalancer app then lb_charges (ai_ClusterKey ai) lb else [])"

lemma AddResCR_charges: "fst (AddResCR key nr t c s) = fold run_charge (res_charges key nr t c) s"
  by (auto simp: AddResCR_def res_charges_def Let_def case_prod_beta split: option.split)

lemma fold_concat_charges:
  "fold (\<lambda>x s. fold run_charge (f x) s) xs s = fold run_charge (concat (map f xs)) s"
  by (induction xs arbitrary: s) simp_all

lemma AddClusterInstResources_charges:
  "AddClusterInstResources ci lb m s = fold run_charge (cluster_charges lb m ci) s"
  by (auto simp: AddClusterInstResources_def cluster_charges_def Let_def AddResCR_charges fold_concat_charges lb_charges_def
      split: option.split)

lemma AddVMAppInstResources_charges: "AddVMAppInstResources app ai lb s = fold run_charge (vm_charges lb app ai) s"
  by (auto simp: AddVMAppInstResources_def vm_charges_def Let_def AddResCR_charges lb_charges_def split: option.split)

definition platform_charges :: "CloudletSnapshot \<Rightarrow> charge list" where
  "platform_charges info =
     concat (map (\<lambda>vm. if vm_InfraFlavor vm = [] then [] else [ChargeFlavor ([], []) (vm_InfraFlavor vm) (vm_Type vm) 1])
       (cli_PlatformVms info))"

definition clusters_charges :: "AllApis \<Rightarrow> FlavorInfo option \<Rightarrow> bool \<Rightarrow> ClusterKey list \<Rightarrow> charge list" where
  "clusters_charges a lb m ks =
     concat (map (\<lambda>k. case map_of (clusterInstCache a) k of None \<Rightarrow> [] | Some ci \<Rightarrow> cluster_charges lb m ci) ks)"

definition vms_charges :: "AllApis \<Rightarrow> FlavorInfo option \<Rightarrow> AppInstKey list \<Rightarrow> charge list" where
  "vms_charges a lb ks =
     concat (map (\<lambda>k. case map_of (appInstCache a) k of None \<Rightarrow> []
       | Some ai \<Rightarrow> (case map_of (appCache a) (ai_AppKey ai) of None \<Rightarrow> [] | Some app \<Rightarrow> vm_charges lb app ai)) ks)"

lemma AddPlatformVMs_charges: "AddPlatformVMs info s = fold run_charge (platform_charges info) s"
proof -
  have "fold (\<lambda>vm s. if vm_InfraFlavor vm = [] then s else AddFlavor ([], []) (vm_InfraFlavor vm) (vm_Type vm) 1 s) vms s
    = fold run_charge (concat (map (\<lambda>vm. if vm_InfraFlavor vm = [] then []
        else [ChargeFlavor ([], []) (vm_InfraFlavor vm) (vm_Type vm) 1]) vms)) s" for vms
    by (induction vms arbitrary: s) simp_all
  then show ?thesis by (simp add: AddPlatformVMs_def platform_charges_def)
qed

lemma add_clusters_charges: "add_clusters a lb m ks s = fold run_charge (clusters_charges a lb m ks) s"
proof (induction ks arbitrary: s)
  case (Cons k ks)
  then show ?case
    by (cases "map_of (clusterInstCache a) k")
      (simp_all add: add_clusters_def clusters_charges_def AddClusterInstResources_charges del: map_of_eq_None_keys)
qed (simp add: add_clusters_def clusters_charges_def)

lemma add_vm_apps_charges: "add_vm_apps a lb ks s = Inr s' \<Longrightarrow> s' = fold run_charge (vms_charges a lb ks) s"
proof (induction ks arbitrary: s)
  case (Cons k ks)
  show ?case
  proof (cases "map_of (appInstCache a) k")
    case None
    then show ?thesis using Cons by (simp add: vms_charges_def del: map_of_eq_None_keys)
  next
    case (Some ai)
    with Cons show ?thesis
      by (cases "map_of (appCache a) (ai_AppKey ai)")
        (simp_all add: vms_charges_def AddVMAppInstResources_charges del: map_of_eq_None_keys)
  qed
qed (simp add: vms_charges_def)

subsection \<open>The check, in amounts\<close>

definition within_quota :: "ResLimit \<Rightarrow> nat \<Rightarrow> nat \<Rightarrow> bool" where
  "within_quota l used reqd = (limit_max l = 0 \<or> reqd = 0 \<or> used + reqd \<le> unat (limit_max l) * 10 ^ 9)"

text \<open>What the infrastructure reports as left; more in use than the maximum wraps around.\<close>

definition within_infra :: "ResLimit \<Rightarrow> uint64 \<Rightarrow> nat \<Rightarrow> bool" where
  "within_infra l infraUsed reqd = (rl_InfraMaxValue l = 0 \<or> reqd \<le> unat (rl_InfraMaxValue l - infraUsed) * 10 ^ 9)"

definition reported_use :: "(string, InfraResource) gomap \<Rightarrow> string \<Rightarrow> uint64" where
  "reported_use m n = (case map_of m n of Some r \<Rightarrow> ir_Value r | None \<Rightarrow> 0)"

lemma GreaterThanUint64_iff: "udec_valid a \<Longrightarrow> GreaterThanUint64 a v \<longleftrightarrow> unat v * 10 ^ 9 < nanoval a"
  using GreaterThan_iff[of a "\<lparr>Whole = v, Nanos = 0\<rparr>"]
  by (simp add: nanoval_def) (auto simp: GreaterThanUint64_def CmpUint64_def GreaterThan_def Cmp_def)

lemma nanoval_whole: "nanoval \<lparr>Whole = w, Nanos = 0\<rparr> = unat w * 10 ^ 9"
  by (simp add: nanoval_def)

lemma amt_Some: "map_of m k = Some v \<Longrightarrow> amt m k = nanoval (rv_Value v)"
  by (simp add: amt_def)

lemma amt_None: "map_of m k = None \<Longrightarrow> amt m k = 0"
  by (simp add: amt_def del: map_of_eq_None_keys)

lemma check_quota_short:
  assumes "resmap_wf reqd" "resmap_wf used"
  shows "snd (check_quota reqd used n l) \<longleftrightarrow> \<not> within_quota l (amt used n) (amt reqd n)"
proof (cases "map_of reqd n")
  case None
  then show ?thesis using amt_None[OF None]
    by (simp add: check_quota_def within_quota_def Let_def del: map_of_eq_None_keys)
next
  case (Some r)
  let ?u = "case map_of used n of Some r \<Rightarrow> rv_Value r | None \<Rightarrow> NewUdec64 0 0"
  have u: "udec_valid ?u" "nanoval ?u = amt used n"
    using resmap_wfD(3)[OF assms(2), of n] by (auto simp: amt_def nanoval_def split: option.split)
  have r: "udec_valid (rv_Value r)" using resmap_wfD(3)[OF assms(1) Some] .
  let ?av = "fst (SubFloor (NewUdec64 (limit_max l) 0) ?u False)"
  have "udec_valid ?av" "nanoval ?av = unat (limit_max l) * 10 ^ 9 - amt used n"
    using valid_SubFloor[OF _ u(1), of "NewUdec64 (limit_max l) 0" False]
      nanoval_SubFloor(1)[OF _ u(1), of "NewUdec64 (limit_max l) 0" False]
    by (simp_all add: u(2) nanoval_whole)
  then have "GreaterThan (rv_Value r) ?av \<longleftrightarrow> unat (limit_max l) * 10 ^ 9 - amt used n < amt reqd n"
    using GreaterThan_iff[OF r] amt_Some[OF Some] by simp
  then show ?thesis using Some by (simp add: check_quota_def within_quota_def Let_def) linarith
qed

lemma check_infra_short:
  assumes "resmap_wf reqd"
  shows "snd (check_infra reqd iu n l) \<longleftrightarrow> \<not> within_infra l (reported_use iu n) (amt reqd n)"
proof (cases "map_of reqd n")
  case None
  then show ?thesis using amt_None[OF None]
    by (simp add: check_infra_def within_infra_def Let_def del: map_of_eq_None_keys)
next
  case (Some r)
  show ?thesis using GreaterThanUint64_iff[OF resmap_wfD(3)[OF assms Some]] amt_Some[OF Some] Some
    by (simp add: check_infra_def within_infra_def reported_use_def Let_def not_le)
qed

lemma run_checks_none: "snd (run_checks f limits) = [] \<longleftrightarrow> (\<forall>n l. map_of limits n = Some l \<longrightarrow> \<not> snd (f n l))"
proof -
  have "snd (run_checks f limits) = [] \<longleftrightarrow>
      (\<forall>n \<in> set (keys limits). \<not> snd (case map_of limits n of None \<Rightarrow> ([], False) | Some l \<Rightarrow> f n l))"
    by (simp add: run_checks_def ResLimitMap_SortedKeys_def Let_def filter_empty_conv)
  also have "\<dots> \<longleftrightarrow> (\<forall>n l. map_of limits n = Some l \<longrightarrow> \<not> snd (f n l))"
    by (metis (no_types, lifting) map_of_SomeD_keys map_of_eq_None_keys not_Some_eq option.simps(5))
  finally show ?thesis .
qed

lemma fits_limits_None:
  assumes "resmap_wf reqd" "resmap_wf used"
  shows "snd (fits_limits limits iu used reqd) = None \<longleftrightarrow>
    (\<forall>n l. map_of limits n = Some l \<longrightarrow> within_quota l (amt used n) (amt reqd n)
       \<and> within_infra l (reported_use iu n) (amt reqd n))"
proof -
  have "snd (fits_limits limits iu used reqd) = None \<longleftrightarrow>
      snd (run_checks (check_quota reqd used) limits) = [] \<and> snd (run_checks (check_infra reqd iu) limits) = []"
    by (auto simp: fits_limits_def split: prod.split)
  then show ?thesis using check_quota_short[OF assms] check_infra_short[OF assms(1)] by (auto simp: run_checks_none)
qed

lemma InitDeps_keeps:
  "rc_usedVals (fst (InitDeps a sv s)) = rc_usedVals s" "rc_skipAdditional (fst (InitDeps a sv s)) = rc_skipAdditional s"
  by (simp_all add: InitDeps_def Let_def del: map_of_eq_None_keys split: option.split sum.split)

lemma InitDeps_cases:
  assumes "InitDeps a sv s = (s', Inr d)"
  shows "rc_cloudlet s' = Some (dp_cloudlet d) \<and> rc_cloudletInfo s' = Some (dp_cloudletInfo d)
    \<and> rc_cloudletRefs s' = Some (dp_cloudletRefs d) \<and> rc_features s' = Some (dp_features d) \<and> rc_lbFlavor s' = dp_lbFlavor d
    \<and> (dp_lbFlavor d = None \<longrightarrow> \<not> rc_skipLB s' \<longrightarrow> GetRootLBFlavorInfo a sv (dp_cloudlet d) (dp_cloudletInfo d) = Inr None)"
proof -
  let ?c = "cached (rc_cloudlet s) (map_of (cloudletCache a) (rc_cloudletKey s))"
  let ?i = "cached (rc_cloudletInfo s) (map_of (cloudletInfoCache a) (rc_cloudletKey s))"
  obtain cl where c: "?c = Some cl" using assms by (cases ?c) (simp_all add: InitDeps_def)
  obtain info where i: "?i = Some info" using assms c by (cases ?i) (simp_all add: InitDeps_def Let_def)
  let ?f = "cached (rc_features s) (map_of (featuresCache a) (cl_PlatformType cl))"
  obtain f where f: "?f = Some f" using assms c i by (cases ?f) (simp_all add: InitDeps_def Let_def)
  show ?thesis
  proof (cases "rc_lbFlavor s = None \<and> \<not> rc_skipLB s")
    case True
    then show ?thesis using assms c i f
      by (cases "GetRootLBFlavorInfo a sv cl info") (auto simp: InitDeps_def Let_def)
  next
    case False
    then show ?thesis using assms c i f by (auto simp: InitDeps_def Let_def)
  qed
qed

lemma InitDeps_again: "InitDeps a sv s = (s', Inr d) \<Longrightarrow> InitDeps a sv s' = (s', Inr d)"
  using InitDeps_cases[of a sv s s' d]
  by (cases "dp_lbFlavor d") (auto simp: InitDeps_def Let_def cached_def)

lemma wf_totalCloudletResources:
  assumes "totalCloudletResources a sv cl info sk r = Inr m" "cr_wf r"
  shows "resmap_wf m"
proof -
  have sum: "resmap_wf (sumCloudletResources a cl info r)"
  proof -
    have "resmap_wf (add_vals rs s)" if "resmap_wf s" "vals_ok rs" for rs s
      using that by (induction rs arbitrary: s) (auto intro: wf_AddRV)
    then show ?thesis unfolding sumCloudletResources_vals
      using vals_ok_map_snd[OF cr_wf_counts(5)[OF assms(2)]] by (simp add: ip_vals_def)
  qed
  have "resmap_wf (fold (\<lambda>(k, v) r. AddRes r k (ir_Units v) (ir_Value v) 0) res (sumCloudletResources a cl info r))" for res
    by (rule fold_keeps[where P = resmap_wf]) (auto simp: sum AddRes_def intro: wf_AddRV)
  then show ?thesis using assms(1) sum
    by (auto simp: totalCloudletResources_def Let_def split: option.splits if_splits sum.splits)
qed

lemma wf_getUsedResVals:
  assumes "getUsedResVals a sv d s = (s', Inr m)" "rc_usedVals s = None"
  shows "resmap_wf m"
  using assms wf_totalCloudletResources cr_wf_used
  by (auto simp: getUsedResVals_def split: sum.splits)

lemma zero_reqd_fits:
  assumes "resmap_wf reqd" "\<And>k. amt reqd k = 0"
  shows "snd (fits_limits limits iu used reqd) = None"
proof -
  have z: "\<not> GreaterThan (rv_Value r) x" "\<not> GreaterThanUint64 (rv_Value r) y" if "map_of reqd n = Some r" for n r x y
  proof -
    have "nanoval (rv_Value r) = 0" using assms(2)[of n] amt_Some[OF that] by simp
    then have "Whole (rv_Value r) = 0" "Nanos (rv_Value r) = 0" by (simp_all add: nanoval_def unat_eq_0)
    then show "\<not> GreaterThan (rv_Value r) x" "\<not> GreaterThanUint64 (rv_Value r) y"
      by (simp_all add: GreaterThan_def GreaterThanUint64_def Cmp_def CmpUint64_def)
  qed
  have "snd (run_checks (check_quota reqd used) limits) = []" "snd (run_checks (check_infra reqd iu) limits) = []"
    unfolding run_checks_none
    by (auto simp: check_quota_def check_infra_def Let_def z split: option.split)
  then show ?thesis by (auto simp: fits_limits_def split: prod.split)
qed

lemma cloudletFitsReqdVals_run:
  assumes "InitDeps a sv s = (s1, Inr d)" "getUsedResVals a sv d s1 = (s2, Inr used)"
  shows "snd (cloudletFitsReqdVals a sv reqd s) =
    fits_limits (getResourceLimits (dp_cloudlet d) (dp_cloudletInfo d)) (infra_used (cli_Info (dp_cloudletInfo d))) used reqd"
  using assms by (simp add: cloudletFitsReqdVals_def)

lemma totals_without_extras:
  assumes "rc_skipAdditional s \<or> (\<forall>vs. sv_AdditionalResources sv (cl_Key cl) vs = Inr [])"
    "totalCloudletResources a sv cl info (rc_skipAdditional s) r = Inr m"
  shows "m = sumCloudletResources a cl info r"
  using assms by (auto simp: totalCloudletResources_def Let_def split: option.splits if_splits)

lemma cr_amt_New [simp]: "cr_amt u fs NewCloudletResources k = 0"
  by (simp add: cr_amt_def NewCloudletResources_def)

lemma New_vms [simp]: "numVms NewCloudletResources = 0"
  by (simp add: NewCloudletResources_def)

definition used_charges :: "AllApis \<Rightarrow> CloudletResCalcDeps \<Rightarrow> bool \<Rightarrow> charge list" where
  "used_charges a d m =
     platform_charges (dp_cloudletInfo d) @ clusters_charges a (dp_lbFlavor d) m (cr_ClusterInsts (dp_cloudletRefs d))
     @ vms_charges a (dp_lbFlavor d) (cr_VmAppInsts (dp_cloudletRefs d))"

lemma used_resources_charges:
  assumes "getCloudletUsedResources a sv d = Inr used"
    "map_of (featuresCache a) (cl_PlatformType (dp_cloudlet d)) = Some f" "\<not> pf_IsSingleKubernetesCluster f"
  shows "used = fold run_charge (used_charges a d (pf_KubernetesRequiresWorkerNodes f)) NewCloudletResources"
proof -
  have "add_vm_apps a (dp_lbFlavor d) (cr_VmAppInsts (dp_cloudletRefs d))
      (add_clusters a (dp_lbFlavor d) (pf_KubernetesRequiresWorkerNodes f) (cr_ClusterInsts (dp_cloudletRefs d))
        (AddPlatformVMs (dp_cloudletInfo d) NewCloudletResources)) = Inr used"
    using assms by (simp add: getCloudletUsedResources_def)
  from add_vm_apps_charges[OF this] show ?thesis
    by (simp add: used_charges_def add_clusters_charges AddPlatformVMs_charges)
qed

text \<open>The controller's caches and references after a cluster has been stored.\<close>

definition store_cluster :: "ClusterKey \<Rightarrow> CloudletClusterInst \<Rightarrow> AllApis \<Rightarrow> AllApis" where
  "store_cluster key ci a = a\<lparr>clusterInstCache := AList.update key ci (clusterInstCache a)\<rparr>"

definition refer_cluster :: "ClusterKey \<Rightarrow> CloudletResCalcDeps \<Rightarrow> CloudletResCalcDeps" where
  "refer_cluster key d =
     d\<lparr>dp_cloudletRefs := (dp_cloudletRefs d)\<lparr>cr_ClusterInsts := cr_ClusterInsts (dp_cloudletRefs d) @ [key]\<rparr>\<rparr>"

lemma store_cluster_simps [simp]:
  "resTagTables (store_cluster key ci a) = resTagTables a" "appInstCache (store_cluster key ci a) = appInstCache a"
  "appCache (store_cluster key ci a) = appCache a" "featuresCache (store_cluster key ci a) = featuresCache a"
  "map_of (clusterInstCache (store_cluster key ci a)) = (map_of (clusterInstCache a))(key \<mapsto> ci)"
  by (simp_all add: store_cluster_def)

lemma store_cluster_gpu: "UsesGpu (store_cluster key ci a) f cl = UsesGpu a f cl"
  unfolding UsesGpu_def osFlavorResources_def store_cluster_simps ..

lemma store_cluster_sum: "sumCloudletResources (store_cluster key ci a) cl info r = sumCloudletResources a cl info r"
  unfolding sumCloudletResources_def store_cluster_gpu ..

lemma charges_after_store:
  assumes "key \<notin> set (cr_ClusterInsts (dp_cloudletRefs d))"
  shows "(\<Sum>c\<leftarrow>used_charges (store_cluster key ci a) (refer_cluster key d) m. g c)
    = (\<Sum>c\<leftarrow>used_charges a d m. g c) + (\<Sum>c\<leftarrow>cluster_charges (dp_lbFlavor d) m ci. g c :: nat)"
proof -
  have "clusters_charges (store_cluster key ci a) lb m ks = clusters_charges a lb m ks" if "key \<notin> set ks" for lb ks
    using that by (auto simp: clusters_charges_def intro!: arg_cong[where f = concat] map_cong)
  moreover have "clusters_charges x lb m (ks @ [key]) = clusters_charges x lb m ks @ clusters_charges x lb m [key]" for x lb ks
    by (simp add: clusters_charges_def)
  moreover have "clusters_charges (store_cluster key ci a) lb m [key] = cluster_charges lb m ci" for lb
    by (simp add: clusters_charges_def)
  moreover have "vms_charges (store_cluster key ci a) lb ks = vms_charges a lb ks" for lb ks
    unfolding vms_charges_def store_cluster_simps ..
  ultimately show ?thesis using assms by (simp add: used_charges_def refer_cluster_def)
qed

subsection \<open>Properties\<close>


lemma fits_cluster_run:
  assumes "InitDeps a sv s = (s1, Inr d)" "snd (snd (CloudletFitsCluster a sv ci None s)) = None"
  obtains s2 usedVals reqdVals where
    "totalCloudletResources a sv (dp_cloudlet d) (dp_cloudletInfo d) (rc_skipAdditional s1)
       (fold run_charge (cluster_charges (dp_lbFlavor d) (pf_KubernetesRequiresWorkerNodes (dp_features d)) ci) NewCloudletResources)
     = Inr reqdVals"
    "getUsedResVals a sv d s1 = (s2, Inr usedVals)"
    "snd (fits_limits (getResourceLimits (dp_cloudlet d) (dp_cloudletInfo d)) (infra_used (cli_Info (dp_cloudletInfo d)))
       usedVals reqdVals) = None"
proof -
  let ?r = "AddClusterInstResources ci (dp_lbFlavor d) (pf_KubernetesRequiresWorkerNodes (dp_features d)) NewCloudletResources"
  obtain reqdVals where r: "totalCloudletResources a sv (dp_cloudlet d) (dp_cloudletInfo d) (rc_skipAdditional s1) ?r = Inr reqdVals"
    and c: "snd (snd (cloudletFitsReqdVals a sv reqdVals s1)) = None"
    using assms by (auto simp: CloudletFitsCluster_def Let_def split: sum.splits)
  obtain s2 usedVals where g: "getUsedResVals a sv d s1 = (s2, Inr usedVals)"
    using c InitDeps_again[OF assms(1)] by (auto simp: cloudletFitsReqdVals_def split: prod.splits sum.splits)
  show thesis using that[OF r[unfolded AddClusterInstResources_charges] g] c
    unfolding cloudletFitsReqdVals_run[OF InitDeps_again[OF assms(1)] g] .
qed


text \<open>
  (C24) An update of a cluster is never refused for lack of resources: whatever size the new version has, once
  the resources can be computed at all, \<open>CloudletFitsCluster\<close> given an old version accepts, because it
  subtracts the requirements of the new version from themselves.
\<close>

theorem cluster_update_unchecked:
  assumes "InitDeps a sv s = (s1, Inr d)" "getUsedResVals a sv d s1 = (s2, Inr used)"
    and "totalCloudletResources a sv (dp_cloudlet d) (dp_cloudletInfo d) (rc_skipAdditional s1)
      (AddClusterInstResources ci (dp_lbFlavor d) (pf_KubernetesRequiresWorkerNodes (dp_features d)) NewCloudletResources) = Inr reqd"
  shows "snd (snd (CloudletFitsCluster a sv ci (Some old) s)) = None"
proof -
  let ?r = "fst (SubFloorAll reqd reqd False)"
  have wf: "resmap_wf reqd" by (rule wf_totalCloudletResources[OF assms(3)]) (intro wf_intros)
  have "resmap_wf ?r" "\<And>k. amt ?r k = 0" using wf_SubFloorAll[OF wf wf] amt_SubFloorAll[OF wf wf] by simp_all
  then have "snd (snd (cloudletFitsReqdVals a sv ?r s1)) = None"
    unfolding cloudletFitsReqdVals_run[OF InitDeps_again[OF assms(1)] assms(2)] by (rule zero_reqd_fits)
  then show ?thesis using assms(1,3) by (simp add: CloudletFitsCluster_def Let_def)
qed

text \<open>
  (C8) The books of a cloudlet agree: in the resources in use that the walk over the references returns, the count kept per
  flavor, the number of VMs and the numbers of load balancer and platform nodes all follow from the list of VMs
  that is passed on to the platform.
\<close>

theorem used_resources_consistent:
  assumes "getCloudletUsedResources a sv d = Inr used"
  shows "(\<forall>f. get_or 0 (flavors used) f = vm_count (\<lambda>v. vr_VmFlavor v = f) (vms used))
    \<and> numVms used = vm_count (\<lambda>_. True) (vms used)
    \<and> lbNodeCount used = int (length (filter (\<lambda>v. IsLBNode (vr_Type v)) (vms used)))
    \<and> platformNodeCount used = int (length (filter (\<lambda>v. IsPlatformNode (vr_Type v)) (vms used)))
    \<and> go_map (flavors used) \<and> resmap_wf (nonFlavorVals used)"
  using cr_wf_used[OF assms] by (simp add: cr_wf_def)

subsection \<open>The properties at a concrete cloudlet\<close>

text \<open>Flavors of two CPUs, a quota of eight CPUs, and one cluster that takes four.\<close>

definition ex_node_flavor :: FlavorInfo where
  "ex_node_flavor = \<lparr>fi_Name = ''small'', fi_Vcpus = 2, fi_Ram = 4096, fi_Disk = 20, fi_Gpus = [], fi_PropMap = []\<rparr>"

definition ex_cc :: "string \<Rightarrow> uint32 \<Rightarrow> CloudletClusterInst" where
  "ex_cc name n = \<lparr>ci_NodePools = [\<lparr>np_Name = ''pool'', np_NumNodes = n,
       np_NodeResources = Some (zero_NodeResources\<lparr>nr_InfraNodeFlavor := ''small''\<rparr>), np_Scalable = False\<rparr>],
     ci_NodeResources = None, cc_Key = (name, ''acme''), cc_Deployment = ''kubernetes'', cc_MasterNodeFlavor = ''small'',
     cc_NumMasters = 1, cc_IpAccess = IP_ACCESS_DEDICATED\<rparr>"

definition ex_cloudlet :: Cloudlet where
  "ex_cloudlet = \<lparr>cl_Key = (''site'', ''op''), cl_PlatformType = ''openstack'',
     cl_ResourceQuotas = [\<lparr>rq_Name = ''vCPUs'', rq_Value = 8, rq_AlertThreshold = 0, rq_ResourceType = []\<rparr>],
     cl_DefaultResourceAlertThreshold = 80, cl_ResTagMap = None, cl_SingleKubernetesClusterOwner = []\<rparr>"

definition ex_info :: CloudletSnapshot where
  "ex_info = \<lparr>cli_Flavors = [ex_node_flavor], cli_OsImages = [], cli_AvailabilityZones = [], cli_Info = [],
     cli_PlatformVms = [], cli_NodePools = []\<rparr>"

definition ex_features :: PlatformFeatures where
  "ex_features = \<lparr>pf_UsesRootLb = False, pf_IsSingleKubernetesCluster = False, pf_KubernetesRequiresWorkerNodes = False\<rparr>"

definition ex_apis :: AllApis where
  "ex_apis = \<lparr>appInstCache = [], appCache = [], cloudletCache = [((''site'', ''op''), ex_cloudlet)],
     cloudletInfoCache = [((''site'', ''op''), ex_info)],
     cloudletRefsCache = [((''site'', ''op''), \<lparr>cr_ClusterInsts = [(''one'', ''acme'')], cr_VmAppInsts = []\<rparr>)],
     clusterInstCache = [((''one'', ''acme''), ex_cc ''one'' 1)], clusterRefsCache = [],
     featuresCache = [(''openstack'', ex_features)], resTagTables = []\<rparr>"

definition ex_service :: platformService where
  "ex_service = \<lparr>sv_ConnError = None, sv_RootLbFlavor = (\<lambda>_. Inl ''none''), sv_AdditionalResources = (\<lambda>_ _. Inr []),
     sv_ShortHash = id, sv_SortFlavors = id\<rparr>"

definition ex_deps :: CloudletResCalcDeps where
  "ex_deps = \<lparr>dp_cloudlet = ex_cloudlet, dp_cloudletInfo = ex_info,
     dp_cloudletRefs = \<lparr>cr_ClusterInsts = [(''one'', ''acme'')], cr_VmAppInsts = []\<rparr>, dp_features = ex_features, dp_lbFlavor = None\<rparr>"

abbreviation ex_calc :: CloudletResCalc where "ex_calc \<equiv> NewCloudletResCalc (''site'', ''op'')"

lemma ex_init: "InitDeps ex_apis ex_service ex_calc =
  (ex_calc\<lparr>rc_cloudlet := Some ex_cloudlet, rc_cloudletInfo := Some ex_info,
     rc_cloudletRefs := Some \<lparr>cr_ClusterInsts = [(''one'', ''acme'')], cr_VmAppInsts = []\<rparr>, rc_features := Some ex_features\<rparr>,
   Inr ex_deps)"
  by (simp add: InitDeps_def cached_def NewCloudletResCalc_def ex_apis_def ex_deps_def get_or_def Let_def
      GetRootLBFlavorInfo_def ex_features_def ex_cloudlet_def)

theorem cluster_update_unchecked_witness:
  "snd (snd (CloudletFitsCluster ex_apis ex_service (ex_cc ''two'' 3) None ex_calc)) = Some (NotEnoughAvailable [''vCPUs''])
   \<and> snd (snd (CloudletFitsCluster ex_apis ex_service (ex_cc ''two'' 3) (Some (ex_cc ''two'' 1)) ex_calc)) = None"
proof -
  let ?s1 = "fst (InitDeps ex_apis ex_service ex_calc)"
  have "is_ok (snd (getUsedResVals ex_apis ex_service ex_deps ?s1))" by code_simp
  then obtain s2 used where u: "getUsedResVals ex_apis ex_service ex_deps ?s1 = (s2, Inr used)"
    by (metis is_okE prod.collapse)
  have "is_ok (totalCloudletResources ex_apis ex_service (dp_cloudlet ex_deps) (dp_cloudletInfo ex_deps) (rc_skipAdditional ?s1)
      (AddClusterInstResources (ex_cc ''two'' 3) (dp_lbFlavor ex_deps) (pf_KubernetesRequiresWorkerNodes (dp_features ex_deps)) NewCloudletResources))"
    by code_simp
  then obtain reqd where r: "totalCloudletResources ex_apis ex_service (dp_cloudlet ex_deps) (dp_cloudletInfo ex_deps) (rc_skipAdditional ?s1)
      (AddClusterInstResources (ex_cc ''two'' 3) (dp_lbFlavor ex_deps) (pf_KubernetesRequiresWorkerNodes (dp_features ex_deps)) NewCloudletResources) = Inr reqd"
    by (rule is_okE)
  have i: "InitDeps ex_apis ex_service ex_calc = (?s1, Inr ex_deps)" by (simp add: ex_init)
  have "snd (snd (CloudletFitsCluster ex_apis ex_service (ex_cc ''two'' 3) None ex_calc)) = Some (NotEnoughAvailable [''vCPUs''])"
    by code_simp
  with cluster_update_unchecked[OF i u r] show ?thesis by blast
qed

definition ex_used :: CloudletResources where
  "ex_used = AddClusterInstResources (ex_cc ''one'' 1) None False NewCloudletResources"

lemma ex_used_run: "getCloudletUsedResources ex_apis ex_service ex_deps = Inr ex_used"
  by code_simp

theorem used_resources_consistent_witness:
  "numVms ex_used = 2 \<and> numVms ex_used = vm_count (\<lambda>_. True) (vms ex_used)
   \<and> get_or 0 (flavors ex_used) ''small'' = vm_count (\<lambda>v. vr_VmFlavor v = ''small'') (vms ex_used)"
proof -
  have "numVms ex_used = 2" by code_simp
  then show ?thesis using used_resources_consistent[OF ex_used_run] by blast
qed



end
