(* ===== verification/MemStore.thy ===== *)
theory MemStore
  imports Prelude
begin

text \<open>
  \<^verbatim>\<open>pkg/regiondata/inmemory_store.go\<close>: the in-memory implementation of the object store, with
  versions, revisions, watchers and optimistic transactions. Every method holds the store's
  mutex, so an operation is a function on the store; a method that can panic returns an option with
  \<open>None\<close> for the panic. A stopped store has a nil map. Callbacks are the entries appended
  to the log \<open>st_events\<close>, each with the watcher it goes to; watchers are numbers, standing for
  the pointers the code compares. Revisions are 64-bit and only count up, so they are integers here.

  A transaction body is any client code that calls the transaction's \<open>Get\<close>, \<open>Put\<close> and \<open>Del\<close>: a value of the
  datatype \<open>txn\<close>. It runs interleaved with other writers: the relation \<open>txn_run\<close> lets the store
  change before every read, and between the two unsynchronised halves of a read. The main result is
  that a committed writing transaction is equivalent to running it alone at the moment of its commit.
  Leases are rejected by this store and are left out.
\<close>

subsection \<open>The model\<close>

record inMemData =
  md_val :: string
  md_vers :: int
  md_modRev :: int

datatype SyncCbAction = SyncUpdate | SyncDelete | SyncListStart | SyncList | SyncListEnd

record SyncCbData =
  cb_Action :: SyncCbAction
  cb_Key :: string
  cb_Value :: string
  cb_Rev :: int
  cb_ModRev :: int

record InMemoryStore =
  st_db :: "(string, inMemData) gomap option"
  st_watchers :: "(string, nat list) gomap"
  st_rev :: int
  st_events :: "(nat \<times> SyncCbData) list"

datatype kv_error =
    NotInitialized | ExistsError string | NotFoundError string | InvalidVersion
  | RsetMismatch string | WsetMismatch string | TooManyIterations | ApplyFailed string

definition db :: "InMemoryStore \<Rightarrow> (string, inMemData) gomap" where
  "db e = (case st_db e of None \<Rightarrow> [] | Some m \<Rightarrow> m)"

definition Start :: "InMemoryStore \<Rightarrow> InMemoryStore" where
  "Start e = e\<lparr>st_db := Some [], st_watchers := [], st_rev := 1\<rparr>"

definition Stop :: "InMemoryStore \<Rightarrow> InMemoryStore" where
  "Stop e = e\<lparr>st_db := None\<rparr>"

definition triggerWatcher :: "SyncCbAction \<Rightarrow> string \<Rightarrow> string \<Rightarrow> int \<Rightarrow> InMemoryStore \<Rightarrow> InMemoryStore" where
  "triggerWatcher action key v rv e =
     e\<lparr>st_events := st_events e @
         concat (map (\<lambda>(p, ws). if HasPrefix key p
             then map (\<lambda>w. (w, \<lparr>cb_Action = action, cb_Key = key, cb_Value = v, cb_Rev = rv, cb_ModRev = rv\<rparr>)) ws
             else []) (st_watchers e))\<rparr>"

definition Create :: "InMemoryStore \<Rightarrow> string \<Rightarrow> string \<Rightarrow> InMemoryStore \<times> (kv_error, int) result" where
  "Create e key v =
     (case st_db e of None \<Rightarrow> (e, Err NotInitialized)
      | Some m \<Rightarrow>
          if map_of m key \<noteq> None then (e, Err (ExistsError key))
          else let rv = st_rev e + 1;
                   e1 = e\<lparr>st_rev := rv,
                          st_db := Some (AList.update key \<lparr>md_val = v, md_vers = 1, md_modRev = rv\<rparr> m)\<rparr>
               in (triggerWatcher SyncUpdate key v rv e1, Ok rv))"

definition ObjStoreUpdateVersionAny :: int where "ObjStoreUpdateVersionAny = 0"

definition Update :: "InMemoryStore \<Rightarrow> string \<Rightarrow> string \<Rightarrow> int \<Rightarrow> InMemoryStore \<times> (kv_error, int) result" where
  "Update e key v version =
     (case st_db e of None \<Rightarrow> (e, Err NotInitialized)
      | Some m \<Rightarrow>
          (case map_of m key of None \<Rightarrow> (e, Err (NotFoundError key))
           | Some data \<Rightarrow>
               if version \<noteq> ObjStoreUpdateVersionAny \<and> md_vers data \<noteq> version then (e, Err InvalidVersion)
               else let rv = st_rev e + 1;
                        e1 = e\<lparr>st_rev := rv,
                               st_db := Some (AList.update key
                                 \<lparr>md_val = v, md_vers = md_vers data + 1, md_modRev = rv\<rparr> m)\<rparr>
                    in (triggerWatcher SyncUpdate key v rv e1, Ok rv)))"

definition Put :: "InMemoryStore \<Rightarrow> string \<Rightarrow> string \<Rightarrow> InMemoryStore \<times> (kv_error, int) result" where
  "Put e key v =
     (case st_db e of None \<Rightarrow> (e, Err NotInitialized)
      | Some m \<Rightarrow>
          let vers = (case map_of m key of None \<Rightarrow> 0 | Some data \<Rightarrow> md_vers data);
              rv = st_rev e + 1;
              e1 = e\<lparr>st_rev := rv,
                     st_db := Some (AList.update key \<lparr>md_val = v, md_vers = vers + 1, md_modRev = rv\<rparr> m)\<rparr>
          in (triggerWatcher SyncUpdate key v rv e1, Ok rv))"

definition Delete :: "InMemoryStore \<Rightarrow> string \<Rightarrow> InMemoryStore \<times> (kv_error, int) result" where
  "Delete e key =
     (case st_db e of None \<Rightarrow> (e, Err NotInitialized)
      | Some m \<Rightarrow>
          let rv = st_rev e + 1; e1 = e\<lparr>st_db := Some (AList.delete key m), st_rev := rv\<rparr>
          in (triggerWatcher SyncDelete key [] rv e1, Ok rv))"

definition Get :: "InMemoryStore \<Rightarrow> string \<Rightarrow> (kv_error, string \<times> int \<times> int) result" where
  "Get e key =
     (case st_db e of None \<Rightarrow> Err NotInitialized
      | Some m \<Rightarrow>
          (case map_of m key of None \<Rightarrow> Err (NotFoundError key)
           | Some data \<Rightarrow> Ok (md_val data, md_vers data, md_modRev data)))"

text \<open>
  \<open>List\<close> hands the matching entries to the callback until it fails; the callback is
  \<open>cb key value rv modRev\<close>, acting on a state of the caller's and returning whether to go on.
\<close>

fun list_cb :: "(string \<Rightarrow> string \<Rightarrow> int \<Rightarrow> int \<Rightarrow> 'c \<Rightarrow> 'c \<times> bool) \<Rightarrow> int \<Rightarrow> (string, inMemData) gomap \<Rightarrow> 'c \<Rightarrow> 'c" where
  "list_cb cb rv [] c = c"
| "list_cb cb rv ((k, v) # kvs) c =
     (case cb k (md_val v) rv (md_modRev v) c of
        (c', True) \<Rightarrow> list_cb cb rv kvs c'
      | (c', False) \<Rightarrow> c')"

definition List :: "InMemoryStore \<Rightarrow> string \<Rightarrow> (string \<Rightarrow> string \<Rightarrow> int \<Rightarrow> int \<Rightarrow> 'c \<Rightarrow> 'c \<times> bool) \<Rightarrow> 'c \<Rightarrow> (kv_error, 'c) result" where
  "List e key cb c =
     (case st_db e of None \<Rightarrow> Err NotInitialized
      | Some m \<Rightarrow> Ok (list_cb cb (st_rev e) (filter (\<lambda>(k, _). HasPrefix k key) m) c))"

text \<open>\<open>Rev\<close> dereferences the entry without checking that there is one.\<close>

definition Rev :: "InMemoryStore \<Rightarrow> string \<Rightarrow> int option" where
  "Rev e key = map_option md_modRev (map_of (db e) key)"

text \<open>
  \<open>Sync\<close> up to the point where it blocks, and from its wake-up on. The record handed to the
  callback is reused, so the end marker carries the revisions of the last entry listed. A
  store that was never started has no watcher map to add to; its callers start it first.
\<close>

definition Sync_begin :: "InMemoryStore \<Rightarrow> string \<Rightarrow> nat \<Rightarrow> InMemoryStore" where
  "Sync_begin e prfx w =
     (let start = \<lparr>cb_Action = SyncListStart, cb_Key = [], cb_Value = [], cb_Rev = 0, cb_ModRev = 0\<rparr>;
          items = map (\<lambda>(key, dd). \<lparr>cb_Action = SyncList, cb_Key = key, cb_Value = md_val dd,
                      cb_Rev = st_rev e, cb_ModRev = md_modRev dd\<rparr>)
                    (filter (\<lambda>(key, _). HasPrefix key prfx) (db e));
          final = (last (start # items))\<lparr>cb_Action := SyncListEnd, cb_Key := [], cb_Value := []\<rparr>
      in e\<lparr>st_watchers := AList.update prfx (get_or [] (st_watchers e) prfx @ [w]) (st_watchers e),
           st_events := st_events e @ map (Pair w) (start # items @ [final])\<rparr>)"

definition Sync_end :: "InMemoryStore \<Rightarrow> string \<Rightarrow> nat \<Rightarrow> InMemoryStore" where
  "Sync_end e prfx w =
     (case map_of (st_watchers e) prfx of None \<Rightarrow> e
      | Some ws \<Rightarrow>
          let ws' = remove1 w ws
          in if length ws' = 0 then e\<lparr>st_watchers := AList.delete prfx (st_watchers e)\<rparr>
             else e\<lparr>st_watchers := AList.update prfx ws' (st_watchers e)\<rparr>)"

subsection \<open>Transactions\<close>

record inMemoryReadResp =
  rr_val :: string
  rr_modRev :: int
  rr_rev :: int

record inMemorySTM =
  stm_rset :: "(string, inMemoryReadResp) gomap"
  stm_wset :: "(string, string) gomap"

definition stm_reset :: inMemorySTM where
  "stm_reset = \<lparr>stm_rset = [], stm_wset = []\<rparr>"

text \<open>
  \<open>STM_Get\<close> reads the entry under the lock and the store's revision after releasing it: \<open>e1\<close> is the
  store at the first read and \<open>e2\<close> at the second.
\<close>

definition STM_Get :: "InMemoryStore \<Rightarrow> InMemoryStore \<Rightarrow> inMemorySTM \<Rightarrow> string \<Rightarrow> inMemorySTM \<times> string" where
  "STM_Get e1 e2 d key =
     (case map_of (stm_wset d) key of Some wv \<Rightarrow> (d, wv)
      | None \<Rightarrow>
          (case map_of (stm_rset d) key of Some rr \<Rightarrow> (d, rr_val rr)
           | None \<Rightarrow>
               let (byt, modRev) = (case Get e1 key of Inl _ \<Rightarrow> ([], 0) | Inr (v, _, mr) \<Rightarrow> (v, mr))
               in (d\<lparr>stm_rset := AList.update key \<lparr>rr_val = byt, rr_modRev = modRev, rr_rev = st_rev e2\<rparr> (stm_rset d)\<rparr>,
                   byt)))"

definition STM_Put :: "inMemorySTM \<Rightarrow> string \<Rightarrow> string \<Rightarrow> inMemorySTM" where
  "STM_Put d key v = d\<lparr>stm_wset := AList.update key v (stm_wset d)\<rparr>"

definition STM_Del :: "inMemorySTM \<Rightarrow> string \<Rightarrow> inMemorySTM" where
  "STM_Del d key = d\<lparr>stm_wset := AList.update key [] (stm_wset d)\<rparr>"

definition STM_Rev :: "InMemoryStore \<Rightarrow> string \<Rightarrow> int option" where
  "STM_Rev e key = Rev e key"

text \<open>The checks of \<open>commit\<close>: the lowest revision among the reads, or the first read that changed.\<close>

definition modRev_of :: "InMemoryStore \<Rightarrow> string \<Rightarrow> int" where
  "modRev_of e key = (case map_of (db e) key of None \<Rightarrow> 0 | Some dd \<Rightarrow> md_modRev dd)"

fun check_rset :: "InMemoryStore \<Rightarrow> (string, inMemoryReadResp) gomap \<Rightarrow> int \<Rightarrow> (kv_error, int) result" where
  "check_rset e [] rv = Ok rv"
| "check_rset e ((key, resp) # rest) rv =
     (if modRev_of e key \<noteq> rr_modRev resp then Err (RsetMismatch key)
      else check_rset e rest (if rr_rev resp < rv then rr_rev resp else rv))"

fun check_wset :: "InMemoryStore \<Rightarrow> (string, string) gomap \<Rightarrow> int \<Rightarrow> kv_error option" where
  "check_wset e [] rv = None"
| "check_wset e ((key, _) # rest) rv =
     (if modRev_of e key > rv then Some (WsetMismatch key) else check_wset e rest rv)"

text \<open>One iteration of the write loop; writing a value into the nil map of a stopped store panics.\<close>

definition commit_write :: "string \<times> string \<Rightarrow> InMemoryStore \<Rightarrow> InMemoryStore option" where
  "commit_write kv e =
     (case kv of (key, v) \<Rightarrow>
        if v = [] then
          Some (triggerWatcher SyncDelete key [] (st_rev e) (e\<lparr>st_db := map_option (AList.delete key) (st_db e)\<rparr>))
        else (case st_db e of None \<Rightarrow> None
          | Some m \<Rightarrow>
              let vers = (case map_of m key of None \<Rightarrow> 0 | Some dd \<Rightarrow> md_vers dd)
              in Some (triggerWatcher SyncUpdate key v (st_rev e)
                   (e\<lparr>st_db := Some (AList.update key
                        \<lparr>md_val = v, md_vers = vers + 1, md_modRev = st_rev e\<rparr> m)\<rparr>))))"

fun commit_writes :: "(string, string) gomap \<Rightarrow> InMemoryStore \<Rightarrow> InMemoryStore option" where
  "commit_writes [] e = Some e"
| "commit_writes (kv # rest) e =
     (case commit_write kv e of None \<Rightarrow> None | Some e' \<Rightarrow> commit_writes rest e')"

definition commit :: "InMemoryStore \<Rightarrow> inMemorySTM \<Rightarrow> (InMemoryStore \<times> (kv_error, int) result) option" where
  "commit e stm =
     (if length (stm_wset stm) = 0 then Some (e, Ok (st_rev e))
      else case check_rset e (stm_rset stm) (2 ^ 63 - 2) of
        Inl err \<Rightarrow> Some (e, Err err)
      | Inr rv \<Rightarrow>
          (case check_wset e (stm_wset stm) rv of
             Some err \<Rightarrow> Some (e, Err err)
           | None \<Rightarrow>
               (case commit_writes (stm_wset stm) (e\<lparr>st_rev := st_rev e + 1\<rparr>) of
                  None \<Rightarrow> None
                | Some e' \<Rightarrow> Some (e', Ok (st_rev e')))))"

text \<open>Transaction bodies, and running one alone (no other writer in between).\<close>

datatype txn =
    Done "string option"
  | GetT string "string \<Rightarrow> txn"
  | PutT string string txn
  | DelT string txn

primrec run_txn :: "InMemoryStore \<Rightarrow> txn \<Rightarrow> inMemorySTM \<Rightarrow> inMemorySTM \<times> string option" where
  "run_txn e (Done err) d = (d, err)"
| "run_txn e (GetT key k) d = (let (d', v) = STM_Get e e d key in run_txn e (k v) d')"
| "run_txn e (PutT key v t) d = run_txn e t (STM_Put d key v)"
| "run_txn e (DelT key t) d = run_txn e t (STM_Del d key)"

text \<open>
  The retry loop of \<open>ApplySTM\<close>. What happens during an attempt, the body running while other
  writers change the store, is the argument \<open>attempt\<close>: from the attempt's number and the store it gives the
  store at commit time, the collected sets and the body's error. The result is the number of attempts, the
  store and the outcome; \<open>None\<close> is a panic.
\<close>

function apply_loop ::
  "(nat \<Rightarrow> InMemoryStore \<Rightarrow> InMemoryStore \<times> inMemorySTM \<times> string option) \<Rightarrow> nat \<Rightarrow> InMemoryStore \<Rightarrow>
   (nat \<times> InMemoryStore \<times> (kv_error, int) result) option" where
  "apply_loop attempt ii e =
     (case attempt ii e of (e1, stm, aerr) \<Rightarrow>
        (case aerr of Some msg \<Rightarrow> Some (ii + 1, e1, Err (ApplyFailed msg))
         | None \<Rightarrow>
             (case commit e1 stm of None \<Rightarrow> None
              | Some (e2, Inr rv) \<Rightarrow> Some (ii + 1, e2, Ok rv)
              | Some (e2, Inl err) \<Rightarrow>
                  if ii + 1 > 12 then Some (ii + 1, e2, Err TooManyIterations)
                  else apply_loop attempt (ii + 1) e2)))"
  by pat_completeness auto

termination
  by (relation "measure (\<lambda>(_, ii, _). 13 - ii)") auto

declare apply_loop.simps [simp del]

definition ApplySTM ::
  "(nat \<Rightarrow> InMemoryStore \<Rightarrow> InMemoryStore \<times> inMemorySTM \<times> string option) \<Rightarrow> InMemoryStore \<Rightarrow>
   (nat \<times> InMemoryStore \<times> (kv_error, int) result) option" where
  "ApplySTM attempt e = apply_loop attempt 0 e"

subsection \<open>Invariant and evolution\<close>

definition entry_ok :: "int \<Rightarrow> inMemData \<Rightarrow> bool" where
  "entry_ok rv d = (0 < md_modRev d \<and> md_modRev d \<le> rv \<and> 0 < md_vers d)"

definition store_wf :: "InMemoryStore \<Rightarrow> bool" where
  "store_wf e = (0 \<le> st_rev e \<and> go_map (db e) \<and> list_all (\<lambda>(_, d). entry_ok (st_rev e) d) (db e))"

text \<open>
  How a store changes over time: revisions grow, and an entry that was not there before carries
  a revision from after the earlier moment.
\<close>

definition evolves :: "InMemoryStore \<Rightarrow> InMemoryStore \<Rightarrow> bool" where
  "evolves e e' =
     (st_rev e \<le> st_rev e' \<and>
      (\<forall>k d. map_of (db e') k = Some d \<longrightarrow> st_rev e < md_modRev d \<or> map_of (db e) k = Some d))"

text \<open>One step of a running store: a call by any client.\<close>

inductive store_step :: "InMemoryStore \<Rightarrow> InMemoryStore \<Rightarrow> bool" where
  step_create: "store_step e (fst (Create e key v))"
| step_update: "store_step e (fst (Update e key v version))"
| step_put: "store_step e (fst (Put e key v))"
| step_delete: "store_step e (fst (Delete e key))"
| step_commit: "commit e stm = Some (e', r) \<Longrightarrow> store_step e e'"
| step_sync_begin: "store_step e (Sync_begin e prfx w)"
| step_sync_end: "store_step e (Sync_end e prfx w)"

lemma trigger_frame [simp]:
  "st_db (triggerWatcher a k v rv e) = st_db e"
  "st_rev (triggerWatcher a k v rv e) = st_rev e"
  "st_watchers (triggerWatcher a k v rv e) = st_watchers e"
  "db (triggerWatcher a k v rv e) = db e"
  by (simp_all add: triggerWatcher_def db_def)

lemma db_update [simp]:
  "db (e\<lparr>st_db := Some m\<rparr>) = m" "db (e\<lparr>st_db := None\<rparr>) = []" "db (e\<lparr>st_rev := n\<rparr>) = db e"
  "db (e\<lparr>st_events := ev\<rparr>) = db e" "db (e\<lparr>st_watchers := w\<rparr>) = db e"
  "db (e\<lparr>st_rev := n, st_db := Some m\<rparr>) = m" "db (e\<lparr>st_db := Some m, st_rev := n\<rparr>) = m"
  "db (e\<lparr>st_watchers := w, st_events := ev\<rparr>) = db e"
  by (simp_all add: db_def)

lemma db_Some: "st_db e = Some m \<Longrightarrow> db e = m"
  by (simp add: db_def)

lemma store_wfI:
  assumes "0 \<le> st_rev e" "go_map (db e)" "\<And>k d. map_of (db e) k = Some d \<Longrightarrow> entry_ok (st_rev e) d"
  shows "store_wf e"
proof -
  have "entry_ok (st_rev e) d" if "(k, d) \<in> set (db e)" for k d
    using assms(3) that go_map_entry[OF assms(2)] by blast
  then show ?thesis using assms(1,2) unfolding store_wf_def list_all_iff by blast
qed

lemma store_wfD:
  assumes "store_wf e"
  shows "0 \<le> st_rev e" "go_map (db e)" "map_of (db e) k = Some d \<Longrightarrow> entry_ok (st_rev e) d"
proof -
  show "0 \<le> st_rev e" "go_map (db e)" using assms by (simp_all add: store_wf_def)
  show "entry_ok (st_rev e) d" if "map_of (db e) k = Some d"
    using assms map_of_SomeD[OF that] unfolding store_wf_def list_all_iff by blast
qed

lemma entry_ok_mono: "entry_ok rv d \<Longrightarrow> rv \<le> rv' \<Longrightarrow> entry_ok rv' d"
  by (simp add: entry_ok_def)

text \<open>
  Every writing call has the same shape: the revision goes up by one and the entries of some keys are
  replaced by entries of that revision or removed.
\<close>

definition writes :: "InMemoryStore \<Rightarrow> InMemoryStore \<Rightarrow> bool" where
  "writes e e' =
     (st_rev e' = st_rev e + 1 \<and> go_map (db e') \<and>
      (\<forall>k d. map_of (db e') k = Some d \<longrightarrow>
         map_of (db e) k = Some d \<or> md_modRev d = st_rev e' \<and> 0 < md_vers d))"

lemma writes_evolves: "store_wf e \<Longrightarrow> writes e e' \<Longrightarrow> store_wf e' \<and> evolves e e'"
proof
  assume wf: "store_wf e" and w: "writes e e'"
  have rv: "st_rev e' = st_rev e + 1" "go_map (db e')" using w by (simp_all add: writes_def)
  have en: "map_of (db e) k = Some d \<or> md_modRev d = st_rev e' \<and> 0 < md_vers d"
    if "map_of (db e') k = Some d" for k d using w that unfolding writes_def by blast
  show "store_wf e'"
  proof (rule store_wfI)
    show "entry_ok (st_rev e') d" if "map_of (db e') k = Some d" for k d
      using en[OF that]
    proof
      assume "map_of (db e) k = Some d"
      from store_wfD(3)[OF wf this] show ?thesis using rv by (simp add: entry_ok_def)
    next
      assume "md_modRev d = st_rev e' \<and> 0 < md_vers d"
      then show ?thesis using rv store_wfD(1)[OF wf] by (simp add: entry_ok_def)
    qed
  qed (use rv store_wfD(1)[OF wf] in auto)
  show "evolves e e'"
    unfolding evolves_def using en rv by fastforce
qed

lemma writes_update:
  assumes "store_wf e" "st_db e = Some m" "0 < vers"
  shows "writes e (triggerWatcher a k' v' rv' (e\<lparr>st_rev := st_rev e + 1,
    st_db := Some (AList.update k \<lparr>md_val = v, md_vers = vers, md_modRev = st_rev e + 1\<rparr> m)\<rparr>))"
  using assms store_wfD(2)[OF assms(1)] by (auto simp: writes_def db_Some split: if_splits)

lemma vers_pos:
  "store_wf e \<Longrightarrow> st_db e = Some m \<Longrightarrow> 0 < (case map_of m k of None \<Rightarrow> 0 | Some d \<Rightarrow> md_vers d) + 1"
  using store_wfD(3)[of e k] by (auto simp: db_Some entry_ok_def split: option.split)

lemma Create_step: "store_wf e \<Longrightarrow> fst (Create e k v) = e \<or> writes e (fst (Create e k v))"
  using writes_update[of e _ 1] by (auto simp: Create_def Let_def split: option.split)

lemma Update_step: "store_wf e \<Longrightarrow> fst (Update e k v n) = e \<or> writes e (fst (Update e k v n))"
proof (cases "\<exists>m d. st_db e = Some m \<and> map_of m k = Some d")
  case True
  then obtain m d where m: "st_db e = Some m" "map_of m k = Some d" by blast
  assume wf: "store_wf e"
  have "0 < md_vers d + 1" using vers_pos[OF wf m(1), of k] m(2) by simp
  from writes_update[OF wf m(1) this] m show ?thesis by (auto simp: Update_def Let_def)
qed (auto simp: Update_def split: option.split)

lemma Put_step: "store_wf e \<Longrightarrow> fst (Put e k v) = e \<or> writes e (fst (Put e k v))"
proof (cases "st_db e")
  case (Some m)
  assume wf: "store_wf e"
  from writes_update[OF wf Some vers_pos[OF wf Some]] Some show ?thesis by (auto simp: Put_def Let_def)
qed (simp add: Put_def)

lemma Delete_step: "store_wf e \<Longrightarrow> fst (Delete e k) = e \<or> writes e (fst (Delete e k))"
  using store_wfD(2)[of e] by (auto simp: Delete_def writes_def db_Some Let_def split: option.split if_splits)

text \<open>The write loop of \<open>commit\<close>, on the entries of each key.\<close>

definition written :: "int \<Rightarrow> (string \<rightharpoonup> inMemData) \<Rightarrow> string \<times> string \<Rightarrow> (string \<rightharpoonup> inMemData)" where
  "written rv m kv =
     (case kv of (key, v) \<Rightarrow>
        if v = [] then m(key := None)
        else m(key \<mapsto> \<lparr>md_val = v, md_vers = (case m key of None \<Rightarrow> 0 | Some dd \<Rightarrow> md_vers dd) + 1,
                        md_modRev = rv\<rparr>))"

lemma commit_write_simps:
  "commit_write (k, []) e =
     Some (triggerWatcher SyncDelete k [] (st_rev e) (e\<lparr>st_db := map_option (AList.delete k) (st_db e)\<rparr>))"
  "v \<noteq> [] \<Longrightarrow> st_db e = Some m \<Longrightarrow> commit_write (k, v) e =
     Some (triggerWatcher SyncUpdate k v (st_rev e) (e\<lparr>st_db := Some (AList.update k
       \<lparr>md_val = v, md_vers = (case map_of m k of None \<Rightarrow> 0 | Some dd \<Rightarrow> md_vers dd) + 1, md_modRev = st_rev e\<rparr> m)\<rparr>))"
  "v \<noteq> [] \<Longrightarrow> st_db e = None \<Longrightarrow> commit_write (k, v) e = None"
  by (simp_all add: commit_write_def Let_def)

lemma commit_write_result:
  assumes "commit_write kv e = Some e'"
  shows "st_rev e' = st_rev e \<and> map_of (db e') = written (st_rev e) (map_of (db e)) kv
    \<and> (go_map (db e) \<longrightarrow> go_map (db e')) \<and> st_watchers e' = st_watchers e \<and> (st_db e' = None \<longleftrightarrow> st_db e = None)"
proof -
  obtain k v where kv: "kv = (k, v)" by (cases kv)
  show ?thesis
  proof (cases "v = []")
    case True
    then have e': "e' = triggerWatcher SyncDelete k [] (st_rev e) (e\<lparr>st_db := map_option (AList.delete k) (st_db e)\<rparr>)"
      using assms by (simp add: kv commit_write_simps)
    show ?thesis unfolding e'
      by (cases "st_db e") (auto simp: kv True written_def db_def fun_eq_iff)
  next
    case False
    then obtain m where m: "st_db e = Some m" using assms by (cases "st_db e") (auto simp: kv commit_write_simps)
    then have "e' = triggerWatcher SyncUpdate k v (st_rev e) (e\<lparr>st_db := Some (AList.update k
       \<lparr>md_val = v, md_vers = (case map_of m k of None \<Rightarrow> 0 | Some dd \<Rightarrow> md_vers dd) + 1, md_modRev = st_rev e\<rparr> m)\<rparr>)"
      using assms False by (simp add: kv commit_write_simps)
    then show ?thesis by (simp add: kv False written_def db_Some[OF m] m fun_eq_iff)
  qed
qed

lemma commit_writes_result:
  assumes "commit_writes ws e = Some e'"
  shows "st_rev e' = st_rev e \<and> map_of (db e') = foldl (written (st_rev e)) (map_of (db e)) ws
    \<and> (go_map (db e) \<longrightarrow> go_map (db e')) \<and> st_watchers e' = st_watchers e"
  using assms
proof (induction ws arbitrary: e)
  case (Cons kv ws)
  then obtain e1 where "commit_write kv e = Some e1" "commit_writes ws e1 = Some e'"
    by (auto split: option.splits)
  with commit_write_result[OF this(1)] Cons.IH[OF this(2)] show ?case by simp
qed simp

lemma commit_writes_running: "st_db e \<noteq> None \<Longrightarrow> \<exists>e'. commit_writes ws e = Some e'"
proof (induction ws arbitrary: e)
  case (Cons kv ws)
  obtain k v where kv: "kv = (k, v)" by (cases kv)
  obtain m where m: "st_db e = Some m" using Cons.prems by blast
  obtain e1 where e1: "commit_write kv e = Some e1"
    using m by (cases "v = []") (auto simp: kv commit_write_simps)
  with commit_write_result[OF e1] Cons.prems have "st_db e1 \<noteq> None" by simp
  with e1 Cons.IH show ?case by simp
qed simp

lemma commit_writes_db: "commit_writes ws e = Some e' \<Longrightarrow> st_db e \<noteq> None \<Longrightarrow> st_db e' \<noteq> None"
proof (induction ws arbitrary: e)
  case (Cons kv ws)
  then obtain e1 where "commit_write kv e = Some e1" "commit_writes ws e1 = Some e'"
    by (auto split: option.splits)
  with commit_write_result[OF this(1)] Cons show ?case by metis
qed simp

lemma foldl_written:
  assumes "go_map ws"
  shows "foldl (written rv) m ws k =
    (case map_of ws k of None \<Rightarrow> m k
     | Some v \<Rightarrow> if v = [] then None
         else Some \<lparr>md_val = v, md_vers = (case m k of None \<Rightarrow> 0 | Some dd \<Rightarrow> md_vers dd) + 1, md_modRev = rv\<rparr>)"
  using assms
proof (induction ws arbitrary: m)
  case (Cons kv ws)
  then show ?case by (cases kv) (auto simp: written_def split: option.splits)
qed simp

lemma foldl_written_entry:
  assumes "foldl (written rv) m ws k = Some d" "\<And>j d. m j = Some d \<Longrightarrow> 0 < md_vers d"
  shows "m k = Some d \<or> md_modRev d = rv \<and> 0 < md_vers d"
  using assms
proof (induction ws arbitrary: m)
  case (Cons kv ws)
  have p: "0 < md_vers d" if "written rv m kv j = Some d" for j d
    using that Cons.prems(2)[of _] by (cases kv) (force simp: written_def split: if_splits option.splits)
  have "written rv m kv k = Some d \<or> md_modRev d = rv \<and> 0 < md_vers d"
  proof (rule Cons.IH)
    show "foldl (written rv) (written rv m kv) ws k = Some d" using Cons.prems(1) by simp
  qed (rule p)
  then consider "written rv m kv k = Some d" | "md_modRev d = rv \<and> 0 < md_vers d" by blast
  then show ?case
  proof cases
    case 1
    then show ?thesis using p[OF 1] by (cases kv) (auto simp: written_def split: if_splits)
  qed simp
qed simp

lemma commit_cases:
  assumes "commit e stm = Some (e', r)"
  obtains (read_only) "stm_wset stm = []" "e' = e" "r = Inr (st_rev e)"
  | (conflict) err where "r = Inl err" "e' = e"
  | (committed) rv where "stm_wset stm \<noteq> []" "check_rset e (stm_rset stm) (2 ^ 63 - 2) = Inr rv"
      "check_wset e (stm_wset stm) rv = None"
      "commit_writes (stm_wset stm) (e\<lparr>st_rev := st_rev e + 1\<rparr>) = Some e'" "r = Inr (st_rev e')"
proof (cases "stm_wset stm = []")
  case True
  then show ?thesis using assms read_only by (auto simp: commit_def)
next
  case False
  show ?thesis
  proof (cases "check_rset e (stm_rset stm) (2 ^ 63 - 2)")
    case (Inl err)
    then show ?thesis using assms False conflict[of err] by (simp add: commit_def)
  next
    case (Inr rv)
    then show ?thesis using assms False conflict committed[of rv]
      by (auto simp: commit_def split: option.splits)
  qed
qed

lemma commit_step:
  assumes "store_wf e" "commit e stm = Some (e', r)"
  shows "e' = e \<or> writes e e'"
  using assms(2)
proof (cases rule: commit_cases)
  case (committed rv)
  let ?e1 = "e\<lparr>st_rev := st_rev e + 1\<rparr>"
  have "0 < md_vers d" if "map_of (db ?e1) k = Some d" for k d
    using store_wfD(3)[OF assms(1), of k d] that by (simp add: entry_ok_def)
  then have "map_of (db e) k = Some d \<or> md_modRev d = st_rev e + 1 \<and> 0 < md_vers d"
    if "map_of (db e') k = Some d" for k d
    using commit_writes_result[OF committed(4)] that foldl_written_entry[of "st_rev ?e1" "map_of (db ?e1)" "stm_wset stm" k d]
    by simp
  then show ?thesis
    using commit_writes_result[OF committed(4)] store_wfD(2)[OF assms(1)] by (simp add: writes_def)
qed simp_all

lemma commit_running: "st_db e \<noteq> None \<Longrightarrow> commit e stm \<noteq> None"
  using commit_writes_running[of "e\<lparr>st_rev := st_rev e + 1\<rparr>" "stm_wset stm"]
  by (auto simp: commit_def split: sum.split option.split)

lemma sync_frame [simp]:
  "db (Sync_begin e p w) = db e" "st_rev (Sync_begin e p w) = st_rev e"
  "db (Sync_end e p w) = db e" "st_rev (Sync_end e p w) = st_rev e"
  by (simp_all add: Sync_begin_def Sync_end_def Let_def split: option.split)

lemma evolves_frame: "db e' = db e \<Longrightarrow> st_rev e' = st_rev e \<Longrightarrow> store_wf e \<Longrightarrow> store_wf e' \<and> evolves e e'"
  by (simp add: store_wf_def evolves_def)

lemma store_step_ok: "store_step e e' \<Longrightarrow> store_wf e \<Longrightarrow> store_wf e' \<and> evolves e e'"
proof (induction rule: store_step.induct)
  case (step_commit e stm e' r)
  then show ?case using commit_step writes_evolves evolves_frame by metis
qed (metis Create_step Update_step Put_step Delete_step writes_evolves evolves_frame sync_frame)+

lemma evolves_trans: "evolves a b \<Longrightarrow> evolves b c \<Longrightarrow> evolves a c"
  unfolding evolves_def by (meson order_le_less_trans order_trans)

lemma store_steps_ok: "store_step\<^sup>*\<^sup>* e e' \<Longrightarrow> store_wf e \<Longrightarrow> store_wf e' \<and> evolves e e'"
proof (induction rule: rtranclp_induct)
  case base
  then show ?case by (simp add: evolves_def)
next
  case (step y z)
  then show ?case using store_step_ok evolves_trans by blast
qed

subsection \<open>Interleaved transactions\<close>

inductive txn_run :: "InMemoryStore \<Rightarrow> inMemorySTM \<Rightarrow> txn \<Rightarrow> InMemoryStore \<Rightarrow> inMemorySTM \<Rightarrow> string option \<Rightarrow> bool" where
  run_done: "store_step\<^sup>*\<^sup>* e e' \<Longrightarrow> txn_run e d (Done err) e' d err"
| run_get: "store_step\<^sup>*\<^sup>* e e1 \<Longrightarrow> store_step\<^sup>*\<^sup>* e1 e2 \<Longrightarrow> STM_Get e1 e2 d key = (d1, v) \<Longrightarrow>
    txn_run e2 d1 (k v) e' d' err \<Longrightarrow> txn_run e d (GetT key k) e' d' err"
| run_put: "txn_run e (STM_Put d key v) t e' d' err \<Longrightarrow> txn_run e d (PutT key v t) e' d' err"
| run_del: "txn_run e (STM_Del d key) t e' d' err \<Longrightarrow> txn_run e d (DelT key t) e' d' err"

definition val_of :: "InMemoryStore \<Rightarrow> string \<Rightarrow> string" where
  "val_of e key = (case map_of (db e) key of None \<Rightarrow> [] | Some dd \<Rightarrow> md_val dd)"

text \<open>What a read set knows: an unchanged revision means an unchanged value, now and later.\<close>

definition read_ok :: "InMemoryStore \<Rightarrow> string \<Rightarrow> inMemoryReadResp \<Rightarrow> bool" where
  "read_ok e k rr =
     (rr_modRev rr = 0 \<and> rr_val rr = [] \<or>
      0 < rr_modRev rr \<and> rr_modRev rr \<le> st_rev e \<and>
      (\<forall>dd. map_of (db e) k = Some dd \<and> md_modRev dd = rr_modRev rr \<longrightarrow> md_val dd = rr_val rr))"

definition rset_ok :: "InMemoryStore \<Rightarrow> inMemorySTM \<Rightarrow> bool" where
  "rset_ok e d = (\<forall>k rr. map_of (stm_rset d) k = Some rr \<longrightarrow> read_ok e k rr)"

lemma read_ok_evolves:
  assumes "read_ok e k rr" "evolves e e'"
  shows "read_ok e' k rr"
proof (cases "rr_modRev rr = 0")
  case True
  then show ?thesis using assms(1) by (simp add: read_ok_def)
next
  case False
  have rv: "0 < rr_modRev rr" "rr_modRev rr \<le> st_rev e" "st_rev e \<le> st_rev e'"
    using assms False by (auto simp: read_ok_def evolves_def)
  have "md_val dd = rr_val rr" if dd: "map_of (db e') k = Some dd" "md_modRev dd = rr_modRev rr" for dd
  proof -
    have "st_rev e < md_modRev dd \<or> map_of (db e) k = Some dd"
      using assms(2) dd(1) unfolding evolves_def by blast
    with rv dd(2) have "map_of (db e) k = Some dd" by simp
    then show ?thesis using assms(1) dd(2) False unfolding read_ok_def by blast
  qed
  then show ?thesis using rv unfolding read_ok_def by auto
qed

lemma rset_ok_evolves: "rset_ok e d \<Longrightarrow> evolves e e' \<Longrightarrow> rset_ok e' d"
  unfolding rset_ok_def using read_ok_evolves by blast

lemma Get_read:
  "(case Get e k of Inl _ \<Rightarrow> ([], 0) | Inr (v, _, mr) \<Rightarrow> (v, mr)) = (val_of e k, modRev_of e k)"
  by (auto simp: Get_def val_of_def modRev_of_def db_def split: option.split)

lemma STM_Get_new:
  assumes "map_of (stm_wset d) k = None" "map_of (stm_rset d) k = None"
  shows "STM_Get e1 e2 d k =
    (d\<lparr>stm_rset := AList.update k \<lparr>rr_val = val_of e1 k, rr_modRev = modRev_of e1 k, rr_rev = st_rev e2\<rparr> (stm_rset d)\<rparr>,
     val_of e1 k)"
  unfolding STM_Get_def Get_read unfolding assms by simp

lemma rset_ok_Get:
  assumes "store_wf e1" "rset_ok e1 d" "STM_Get e1 e2 d k = (d', v)"
  shows "rset_ok e1 d'"
proof (cases "map_of (stm_wset d) k = None \<and> map_of (stm_rset d) k = None")
  case True
  let ?rr = "\<lparr>rr_val = val_of e1 k, rr_modRev = modRev_of e1 k, rr_rev = st_rev e2\<rparr>"
  have d': "map_of (stm_rset d') = (map_of (stm_rset d))(k \<mapsto> ?rr)"
    using assms(3) STM_Get_new[of d k e1 e2] True by auto
  have "read_ok e1 k ?rr"
  proof (cases "map_of (db e1) k")
    case None
    then show ?thesis by (simp add: read_ok_def val_of_def modRev_of_def)
  next
    case (Some dd)
    then have v: "val_of e1 k = md_val dd" "modRev_of e1 k = md_modRev dd"
      by (simp_all add: val_of_def modRev_of_def)
    have "0 < md_modRev dd" "md_modRev dd \<le> st_rev e1"
      using store_wfD(3)[OF assms(1) Some] by (simp_all add: entry_ok_def)
    moreover have "md_val x = md_val dd" if "map_of (db e1) k = Some x" for x
      using that Some by (metis option.inject)
    ultimately show ?thesis unfolding read_ok_def v inMemoryReadResp.select_convs by blast
  qed
  then show ?thesis using assms(2) unfolding rset_ok_def d' by (metis fun_upd_apply option.inject)
next
  case False
  then have "d' = d" using assms(3) by (auto simp: STM_Get_def split: option.splits)
  then show ?thesis using assms(2) by simp
qed

lemma STM_Get_cases:
  assumes "STM_Get e1 e2 d k = (d', v)"
  obtains (wset) "map_of (stm_wset d) k = Some v" "d' = d"
  | (rset) rr where "map_of (stm_wset d) k = None" "map_of (stm_rset d) k = Some rr" "rr_val rr = v" "d' = d"
  | (fresh) "map_of (stm_wset d) k = None" "map_of (stm_rset d) k = None" "v = val_of e1 k"
      "d' = d\<lparr>stm_rset := AList.update k
         \<lparr>rr_val = val_of e1 k, rr_modRev = modRev_of e1 k, rr_rev = st_rev e2\<rparr> (stm_rset d)\<rparr>"
proof (cases "map_of (stm_wset d) k")
  case (Some w)
  then have "d' = d" "w = v" using assms by (simp_all add: STM_Get_def)
  with Some show ?thesis by (intro wset) simp_all
next
  case None
  note w = None
  show ?thesis
  proof (cases "map_of (stm_rset d) k")
    case (Some rr)
    then have "d' = d" "rr_val rr = v" using assms unfolding STM_Get_def w by simp_all
    then show ?thesis by (intro rset[OF w Some])
  next
    case None
    have "v = val_of e1 k" "d' = d\<lparr>stm_rset := AList.update k
        \<lparr>rr_val = val_of e1 k, rr_modRev = modRev_of e1 k, rr_rev = st_rev e2\<rparr> (stm_rset d)\<rparr>"
      using assms STM_Get_new[OF w None, of e1 e2] by (metis prod.inject)+
    then show ?thesis by (rule fresh[OF w None])
  qed
qed

lemma STM_Get_wset: "STM_Get e1 e2 d k = (d', v) \<Longrightarrow> stm_wset d' = stm_wset d"
  by (erule STM_Get_cases) simp_all

lemma txn_run_store: "txn_run e d t e' d' err \<Longrightarrow> store_step\<^sup>*\<^sup>* e e'"
  by (induction rule: txn_run.induct) (auto intro: rtranclp_trans)

lemma txn_run_rset_ok: "txn_run e d t e' d' err \<Longrightarrow> store_wf e \<Longrightarrow> rset_ok e d \<Longrightarrow> rset_ok e' d'"
proof (induction rule: txn_run.induct)
  case (run_done e e' d err)
  then show ?case using store_steps_ok rset_ok_evolves by blast
next
  case (run_get e e1 e2 d key d1 v k e' d' err)
  have 1: "store_wf e1" "rset_ok e1 d"
    using store_steps_ok[OF run_get.hyps(1)] run_get.prems rset_ok_evolves by blast+
  have "store_wf e2" "evolves e1 e2" using store_steps_ok[OF run_get.hyps(2) 1(1)] by blast+
  with rset_ok_Get[OF 1 run_get.hyps(3)] show ?case using run_get.IH rset_ok_evolves by blast
qed (simp_all add: STM_Put_def STM_Del_def rset_ok_def)

lemma txn_run_rset_grows:
  "txn_run e d t e' d' err \<Longrightarrow> map_of (stm_rset d) k = Some rr \<Longrightarrow> map_of (stm_rset d') k = Some rr"
proof (induction rule: txn_run.induct)
  case (run_get e e1 e2 d key d1 v k' e' d' err)
  from run_get.hyps(3) have "map_of (stm_rset d1) k = Some rr"
  proof (cases rule: STM_Get_cases)
    case fresh
    then have "k \<noteq> key" using run_get.prems by auto
    then show ?thesis using fresh run_get.prems by simp
  qed (use run_get.prems in simp_all)
  then show ?case by (rule run_get.IH)
qed (simp_all add: STM_Put_def STM_Del_def)

text \<open>Two transaction states that a body cannot tell apart: the same writes and the same values read.\<close>

definition agree :: "inMemorySTM \<Rightarrow> inMemorySTM \<Rightarrow> bool" where
  "agree d d' =
     (stm_wset d = stm_wset d' \<and>
      (\<forall>k. map_option rr_val (map_of (stm_rset d) k) = map_option rr_val (map_of (stm_rset d') k)))"

lemma agree_refl [simp]: "agree d d"
  by (simp add: agree_def)

lemma STM_Get_agree:
  assumes g: "STM_Get e1 e2 d k = (d1, v)" and a: "agree d a0" and v: "map_of (stm_rset d1) k \<noteq> None \<Longrightarrow> v = val_of e k \<or> map_of (stm_wset d) k \<noteq> None"
  shows "\<exists>a1. STM_Get e e a0 k = (a1, v) \<and> agree d1 a1"
  using g
proof (cases rule: STM_Get_cases)
  case wset
  then show ?thesis using a by (simp add: STM_Get_def agree_def)
next
  case (rset rr)
  have "map_option rr_val (map_of (stm_rset a0) k) = Some v" using a rset(2,3) by (metis agree_def option.simps(9))
  then obtain rr' where "map_of (stm_rset a0) k = Some rr'" "rr_val rr' = v" by blast
  moreover have "map_of (stm_wset a0) k = None" using a rset(1) by (metis agree_def)
  ultimately have "STM_Get e e a0 k = (a0, v)" by (simp only: STM_Get_def option.case)
  then show ?thesis using a rset(4) by blast
next
  case fresh
  have "map_option rr_val (map_of (stm_rset a0) k) = None" using a fresh(2) by (metis agree_def option.simps(8))
  then have n: "map_of (stm_wset a0) k = None" "map_of (stm_rset a0) k = None"
    using a fresh(1) by (metis agree_def, metis option.map_disc_iff)
  have "v = val_of e k" using v fresh(1,4) by auto
  then show ?thesis unfolding STM_Get_new[OF n] using a fresh(3,4) by (auto simp: agree_def)
qed

lemma txn_run_alone:
  assumes "txn_run e0 d0 t e d err"
    and "\<And>k rr. map_of (stm_rset d) k = Some rr \<Longrightarrow> rr_val rr = val_of e k"
    and "agree d0 a0"
  shows "\<exists>a. run_txn e t a0 = (a, err) \<and> agree d a"
  using assms
proof (induction arbitrary: a0 rule: txn_run.induct)
  case (run_get e0 e1 e2 d0 key d1 v k e d err)
  have "v = val_of e key \<or> map_of (stm_wset d0) key \<noteq> None" if some: "map_of (stm_rset d1) key \<noteq> None"
    using run_get.hyps(3)
  proof (cases rule: STM_Get_cases)
    case (rset rr)
    then show ?thesis
      using run_get.prems(1) txn_run_rset_grows[OF run_get.hyps(4)] by metis
  next
    case fresh
    then have "map_of (stm_rset d1) key = Some \<lparr>rr_val = v, rr_modRev = modRev_of e1 key, rr_rev = st_rev e2\<rparr>"
      by simp
    from run_get.prems(1)[OF txn_run_rset_grows[OF run_get.hyps(4) this]] show ?thesis by simp
  qed simp
  from STM_Get_agree[OF run_get.hyps(3) run_get.prems(2) this] obtain a1
    where a1: "STM_Get e e a0 key = (a1, v)" "agree d1 a1" by blast
  from run_get.IH[OF run_get.prems(1) a1(2)] a1(1) show ?case by simp
next
  case (run_put e0 d0 key v t e d err)
  have "agree (STM_Put d0 key v) (STM_Put a0 key v)" using run_put.prems(2) by (simp add: STM_Put_def agree_def)
  from run_put.IH[OF run_put.prems(1) this] show ?case by simp
next
  case (run_del e0 d0 key t e d err)
  have "agree (STM_Del d0 key) (STM_Del a0 key)" using run_del.prems(2) by (simp add: STM_Del_def agree_def)
  from run_del.IH[OF run_del.prems(1) this] show ?case by simp
qed simp

lemma check_rset_ok_iff:
  "(\<exists>r. check_rset e rs M = Inr r) \<longleftrightarrow> (\<forall>(k, rr) \<in> set rs. modRev_of e k = rr_modRev rr)"
proof (induction rs arbitrary: M)
  case (Cons a rs)
  obtain k rr where a: "a = (k, rr)" by (cases a)
  show ?case by (cases "modRev_of e k = rr_modRev rr") (simp_all add: a Cons.IH)
qed simp

lemma check_rset_bounds:
  "check_rset e rs M = Inr r \<Longrightarrow> r \<le> M \<and> (\<forall>x. x \<le> M \<longrightarrow> (\<forall>(k, rr) \<in> set rs. x \<le> rr_rev rr) \<longrightarrow> x \<le> r)"
proof (induction rs arbitrary: M)
  case (Cons a rs)
  obtain k rr where a: "a = (k, rr)" by (cases a)
  let ?M = "if rr_rev rr < M then rr_rev rr else M"
  have "check_rset e rs ?M = Inr r" using Cons.prems by (simp add: a split: if_splits)
  from Cons.IH[OF this] show ?case by (auto simp: a split: if_splits)
qed simp

lemma check_wset_iff: "check_wset e ws r = None \<longleftrightarrow> (\<forall>k \<in> set (keys ws). modRev_of e k \<le> r)"
proof (induction ws)
  case (Cons a ws)
  obtain k v where a: "a = (k, v)" by (cases a)
  show ?case by (cases "modRev_of e k \<le> r") (simp_all add: a Cons.IH)
qed simp

text \<open>A body run alone reads everything at one moment.\<close>

definition reads_at :: "InMemoryStore \<Rightarrow> inMemorySTM \<Rightarrow> bool" where
  "reads_at e d =
     (go_map (stm_rset d) \<and> go_map (stm_wset d) \<and>
      (\<forall>(k, rr) \<in> set (stm_rset d). rr_modRev rr = modRev_of e k \<and> rr_rev rr = st_rev e))"

lemma reads_at_Get: "reads_at e d \<Longrightarrow> STM_Get e e d k = (d', v) \<Longrightarrow> reads_at e d'"
proof (erule STM_Get_cases)
  assume r: "reads_at e d" and n: "map_of (stm_rset d) k = None"
    and d': "d' = d\<lparr>stm_rset := AList.update k
      \<lparr>rr_val = val_of e k, rr_modRev = modRev_of e k, rr_rev = st_rev e\<rparr> (stm_rset d)\<rparr>"
  have g: "go_map (stm_rset d)" "go_map (stm_wset d)" using r by (simp_all add: reads_at_def)
  have "rr_modRev rr = modRev_of e j \<and> rr_rev rr = st_rev e" if "(j, rr) \<in> set (stm_rset d')" for j rr
  proof -
    have "map_of (stm_rset d') j = Some rr"
      using that go_map_entry[of "stm_rset d'"] g(1) by (simp add: d')
    then have "map_of (stm_rset d) j = Some rr \<or>
        j = k \<and> rr = \<lparr>rr_val = val_of e k, rr_modRev = modRev_of e k, rr_rev = st_rev e\<rparr>"
      by (auto simp: d' split: if_splits)
    then show ?thesis
    proof
      assume "map_of (stm_rset d) j = Some rr"
      from map_of_SomeD[OF this] show ?thesis using r unfolding reads_at_def by blast
    qed simp
  qed
  then show "reads_at e d'" using g unfolding reads_at_def by (auto simp: d')
qed simp_all

lemma reads_at_run: "reads_at e d \<Longrightarrow> run_txn e t d = (d', err) \<Longrightarrow> reads_at e d'"
proof (induction t arbitrary: d)
  case (GetT k f)
  obtain d1 v where g: "STM_Get e e d k = (d1, v)" by fastforce
  with GetT.prems(2) have "run_txn e (f v) d1 = (d', err)" by simp
  then show ?case using GetT.IH[of "f v" d1] reads_at_Get[OF GetT.prems(1) g] by blast
next
  case (PutT k v t)
  then show ?case using PutT.IH[of "STM_Put d k v"] by (simp add: STM_Put_def reads_at_def)
next
  case (DelT k t)
  then show ?case using DelT.IH[of "STM_Del d k"] by (simp add: STM_Del_def reads_at_def)
qed simp

lemma reads_at_reset [simp]: "reads_at e stm_reset"
  by (simp add: reads_at_def stm_reset_def)

lemma modRev_le: "store_wf e \<Longrightarrow> modRev_of e k \<le> st_rev e"
  using store_wfD(1,3)[of e] by (auto simp: modRev_of_def entry_ok_def split: option.split)

lemma commit_reads_at:
  assumes "store_wf e" "reads_at e d" "stm_wset d \<noteq> []" "\<And>k. k \<in> set (keys (stm_wset d)) \<Longrightarrow> modRev_of e k \<le> 2 ^ 63 - 2"
  shows "commit e d = (case commit_writes (stm_wset d) (e\<lparr>st_rev := st_rev e + 1\<rparr>) of
    None \<Rightarrow> None | Some e' \<Rightarrow> Some (e', Inr (st_rev e')))"
proof -
  have "\<forall>(k, rr) \<in> set (stm_rset d). modRev_of e k = rr_modRev rr" using assms(2) by (auto simp: reads_at_def)
  then obtain r where r: "check_rset e (stm_rset d) (2 ^ 63 - 2) = Inr r" using check_rset_ok_iff by blast
  have "modRev_of e k \<le> r" if "k \<in> set (keys (stm_wset d))" for k
  proof -
    have "\<forall>(j, rr) \<in> set (stm_rset d). modRev_of e k \<le> rr_rev rr"
      using assms(2) modRev_le[OF assms(1), of k] by (auto simp: reads_at_def)
    with check_rset_bounds[OF r] assms(4)[OF that] show ?thesis by blast
  qed
  then have "check_wset e (stm_wset d) r = None" by (simp add: check_wset_iff)
  then show ?thesis using assms(3) r by (simp add: commit_def)
qed

lemma commit_ok_reads:
  assumes "commit e d = Some (e', Inr rv)" "stm_wset d \<noteq> []"
  shows "\<And>k rr. map_of (stm_rset d) k = Some rr \<Longrightarrow> modRev_of e k = rr_modRev rr"
    and "\<And>k. k \<in> set (keys (stm_wset d)) \<Longrightarrow> modRev_of e k \<le> 2 ^ 63 - 2"
    and "commit_writes (stm_wset d) (e\<lparr>st_rev := st_rev e + 1\<rparr>) = Some e'"
    and "rv = st_rev e + 1"
proof -
  from assms obtain r where r: "check_rset e (stm_rset d) (2 ^ 63 - 2) = Inr r"
    "check_wset e (stm_wset d) r = None"
    "commit_writes (stm_wset d) (e\<lparr>st_rev := st_rev e + 1\<rparr>) = Some e'" "rv = st_rev e'"
    by (cases rule: commit_cases) auto
  show "modRev_of e k = rr_modRev rr" if "map_of (stm_rset d) k = Some rr" for k rr
    using r(1) check_rset_ok_iff[of e "stm_rset d" "2 ^ 63 - 2"] map_of_SomeD[OF that] by blast
  show "modRev_of e k \<le> 2 ^ 63 - 2" if "k \<in> set (keys (stm_wset d))" for k
    using r(2) that check_rset_bounds[OF r(1)] unfolding check_wset_iff by (meson order_trans)
  show "commit_writes (stm_wset d) (e\<lparr>st_rev := st_rev e + 1\<rparr>) = Some e'" by (rule r(3))
  show "rv = st_rev e + 1" using r(4) commit_writes_result[OF r(3)] by simp
qed

lemma validated_values:
  assumes "store_wf e" "rset_ok e d" "map_of (stm_rset d) k = Some rr" "modRev_of e k = rr_modRev rr"
  shows "rr_val rr = val_of e k"
proof (cases "map_of (db e) k")
  case None
  then have "rr_modRev rr = 0" "val_of e k = []" using assms(4) by (simp_all add: modRev_of_def val_of_def)
  then show ?thesis using assms(2,3) unfolding rset_ok_def read_ok_def by force
next
  case (Some dd)
  have "0 < md_modRev dd" using store_wfD(3)[OF assms(1) Some] by (simp add: entry_ok_def)
  moreover have "md_modRev dd = rr_modRev rr" "val_of e k = md_val dd"
    using assms(4) Some by (simp_all add: modRev_of_def val_of_def)
  ultimately show ?thesis using assms(2,3) Some unfolding rset_ok_def read_ok_def by force
qed

subsection \<open>The object store interface\<close>

text \<open>
  The contract of \<^verbatim>\<open>objstore.KVStore\<close> for single-key calls, over what a client can see of a store: the
  value and version of every key, and the revision.
\<close>

locale kvstore =
  fixes wf :: "'s \<Rightarrow> bool" and lookup :: "'s \<Rightarrow> 'k \<Rightarrow> ('v \<times> int) option" and revision :: "'s \<Rightarrow> int"
    and create :: "'s \<Rightarrow> 'k \<Rightarrow> 'v \<Rightarrow> 's \<times> ('e + int)" and update :: "'s \<Rightarrow> 'k \<Rightarrow> 'v \<Rightarrow> int \<Rightarrow> 's \<times> ('e + int)"
    and put :: "'s \<Rightarrow> 'k \<Rightarrow> 'v \<Rightarrow> 's \<times> ('e + int)" and delete :: "'s \<Rightarrow> 'k \<Rightarrow> 's \<times> ('e + int)"
    and exists_err :: "'k \<Rightarrow> 'e" and missing_err :: "'k \<Rightarrow> 'e" and version_err :: 'e
  assumes version_pos: "wf s \<Longrightarrow> lookup s k = Some (w, n) \<Longrightarrow> 0 < n"
    and create_new: "wf s \<Longrightarrow> lookup s k = None \<Longrightarrow> \<exists>s'. create s k v = (s', Inr (revision s')) \<and> wf s' \<and>
      revision s' = revision s + 1 \<and> lookup s' = (lookup s)(k \<mapsto> (v, 1))"
    and create_exists: "wf s \<Longrightarrow> lookup s k \<noteq> None \<Longrightarrow> create s k v = (s, Inl (exists_err k))"
    and update_new: "wf s \<Longrightarrow> lookup s k = Some (w, n) \<Longrightarrow> ver = 0 \<or> ver = n \<Longrightarrow>
      \<exists>s'. update s k v ver = (s', Inr (revision s')) \<and> wf s' \<and> revision s' = revision s + 1 \<and>
        lookup s' = (lookup s)(k \<mapsto> (v, n + 1))"
    and update_stale: "wf s \<Longrightarrow> lookup s k = Some (w, n) \<Longrightarrow> ver \<noteq> 0 \<Longrightarrow> ver \<noteq> n \<Longrightarrow>
      update s k v ver = (s, Inl version_err)"
    and update_missing: "wf s \<Longrightarrow> lookup s k = None \<Longrightarrow> update s k v ver = (s, Inl (missing_err k))"
    and put_any: "wf s \<Longrightarrow> \<exists>s'. put s k v = (s', Inr (revision s')) \<and> wf s' \<and> revision s' = revision s + 1 \<and>
      lookup s' = (lookup s)(k \<mapsto> (v, (case lookup s k of None \<Rightarrow> 0 | Some (_, n) \<Rightarrow> n) + 1))"
    and delete_any: "wf s \<Longrightarrow> \<exists>s'. delete s k = (s', Inr (revision s')) \<and> wf s' \<and>
      revision s' = revision s + 1 \<and> lookup s' = (lookup s)(k := None)"
begin

lemma create_once:
  assumes "wf s" "create s k v = (s', Inr r)"
  shows "lookup s k = None \<and> lookup s' k = Some (v, 1) \<and> create s' k v' = (s', Inl (exists_err k))"
proof -
  have n: "lookup s k = None" using assms create_exists[of s k v] by (cases "lookup s k") auto
  from create_new[OF assms(1) this, of v] assms(2) have "wf s'" "lookup s' k = Some (v, 1)" by auto
  then show ?thesis using n create_exists[of s' k v'] by simp
qed

lemma update_once:
  assumes "wf s" "ver \<noteq> 0" "update s k v ver = (s', Inr r)"
  shows "(\<exists>w. lookup s k = Some (w, ver)) \<and> lookup s' k = Some (v, ver + 1)
    \<and> update s' k v' ver = (s', Inl version_err)"
proof -
  obtain w n where l: "lookup s k = Some (w, n)"
    using assms(1,3) update_missing[of s k v ver] by (cases "lookup s k") auto
  then have n: "n = ver" using assms update_stale[of s k w n ver v] by auto
  from update_new[OF assms(1) l, of ver v] n assms(3) have s': "wf s'" "lookup s' k = Some (v, ver + 1)" by auto
  from update_stale[OF s' assms(2)] show ?thesis using l n s'(2) by simp
qed

lemma recreate:
  assumes "wf s" "delete s k = (s1, Inr r1)" "create s1 k v = (s2, x)"
  shows "x = Inr (revision s2) \<and> revision s2 = revision s + 2 \<and> lookup s2 k = Some (v, 1)"
proof -
  from delete_any[OF assms(1), of k] assms(2)
  have s1: "wf s1" "revision s1 = revision s + 1" "lookup s1 k = None" by auto
  from create_new[OF s1(1,3), of v] assms(3) s1(2) show ?thesis by auto
qed

end

definition lookup :: "InMemoryStore \<Rightarrow> string \<Rightarrow> (string \<times> int) option" where
  "lookup e k = map_option (\<lambda>d. (md_val d, md_vers d)) (map_of (db e) k)"

definition running :: "InMemoryStore \<Rightarrow> bool" where
  "running e = (store_wf e \<and> st_db e \<noteq> None)"

lemma running_writes: "running e \<Longrightarrow> e' = e \<or> writes e e' \<Longrightarrow> st_db e' \<noteq> None \<Longrightarrow> running e'"
  using writes_evolves[of e e'] by (auto simp: running_def)

lemma lookup_db: "st_db e = Some m \<Longrightarrow> lookup e k = map_option (\<lambda>d. (md_val d, md_vers d)) (map_of m k)"
  by (simp add: lookup_def db_Some)

lemma kv_Create:
  assumes "running e"
  shows "lookup e k \<noteq> None \<Longrightarrow> Create e k v = (e, Inl (ExistsError k))"
    and "lookup e k = None \<Longrightarrow> \<exists>e'. Create e k v = (e', Inr (st_rev e')) \<and> running e' \<and>
      st_rev e' = st_rev e + 1 \<and> lookup e' = (lookup e)(k \<mapsto> (v, 1))"
proof -
  obtain m where m: "st_db e = Some m" using assms by (auto simp: running_def)
  show "lookup e k \<noteq> None \<Longrightarrow> Create e k v = (e, Inl (ExistsError k))"
    by (auto simp: Create_def m lookup_db[OF m] simp del: map_of_eq_None_keys)
  assume n: "lookup e k = None"
  let ?e = "triggerWatcher SyncUpdate k v (st_rev e + 1) (e\<lparr>st_rev := st_rev e + 1,
      st_db := Some (AList.update k \<lparr>md_val = v, md_vers = 1, md_modRev = st_rev e + 1\<rparr> m)\<rparr>)"
  have c: "Create e k v = (?e, Inr (st_rev ?e))" using n by (auto simp: Create_def m lookup_db[OF m] Let_def)
  have "running ?e" using running_writes[OF assms, of ?e] writes_update[OF _ m, of 1] assms
    by (simp add: running_def)
  moreover have "lookup ?e = (lookup e)(k \<mapsto> (v, 1))" by (auto simp: lookup_def db_Some[OF m] fun_eq_iff)
  ultimately show "\<exists>e'. Create e k v = (e', Inr (st_rev e')) \<and> running e' \<and>
      st_rev e' = st_rev e + 1 \<and> lookup e' = (lookup e)(k \<mapsto> (v, 1))" using c by auto
qed

lemma kv_Update:
  assumes "running e"
  shows "lookup e k = None \<Longrightarrow> Update e k v ver = (e, Inl (NotFoundError k))"
    and "lookup e k = Some (w, n) \<Longrightarrow> ver \<noteq> 0 \<Longrightarrow> ver \<noteq> n \<Longrightarrow> Update e k v ver = (e, Inl InvalidVersion)"
    and "lookup e k = Some (w, n) \<Longrightarrow> ver = 0 \<or> ver = n \<Longrightarrow> \<exists>e'. Update e k v ver = (e', Inr (st_rev e')) \<and>
      running e' \<and> st_rev e' = st_rev e + 1 \<and> lookup e' = (lookup e)(k \<mapsto> (v, n + 1))"
proof -
  obtain m where m: "st_db e = Some m" using assms by (auto simp: running_def)
  show "lookup e k = None \<Longrightarrow> Update e k v ver = (e, Inl (NotFoundError k))"
    by (auto simp: Update_def m lookup_db[OF m])
  assume "lookup e k = Some (w, n)"
  then obtain d where d: "map_of m k = Some d" "md_vers d = n" by (auto simp: lookup_db[OF m])
  show "ver \<noteq> 0 \<Longrightarrow> ver \<noteq> n \<Longrightarrow> Update e k v ver = (e, Inl InvalidVersion)"
    by (simp add: Update_def m d ObjStoreUpdateVersionAny_def)
  assume ver: "ver = 0 \<or> ver = n"
  let ?e = "triggerWatcher SyncUpdate k v (st_rev e + 1) (e\<lparr>st_rev := st_rev e + 1,
      st_db := Some (AList.update k \<lparr>md_val = v, md_vers = n + 1, md_modRev = st_rev e + 1\<rparr> m)\<rparr>)"
  have c: "Update e k v ver = (?e, Inr (st_rev ?e))"
    using ver by (auto simp: Update_def m d ObjStoreUpdateVersionAny_def Let_def)
  have "0 < n + 1" using vers_pos[OF _ m, of k] assms d by (simp add: running_def)
  then have "running ?e" using running_writes[OF assms, of ?e] writes_update[OF _ m, of "n + 1"] assms
    by (simp add: running_def)
  moreover have "lookup ?e = (lookup e)(k \<mapsto> (v, n + 1))" by (auto simp: lookup_def db_Some[OF m] fun_eq_iff)
  ultimately show "\<exists>e'. Update e k v ver = (e', Inr (st_rev e')) \<and>
      running e' \<and> st_rev e' = st_rev e + 1 \<and> lookup e' = (lookup e)(k \<mapsto> (v, n + 1))" using c by auto
qed

lemma kv_Put:
  assumes "running e"
  shows "\<exists>e'. Put e k v = (e', Inr (st_rev e')) \<and> running e' \<and> st_rev e' = st_rev e + 1 \<and>
    lookup e' = (lookup e)(k \<mapsto> (v, (case lookup e k of None \<Rightarrow> 0 | Some (_, n) \<Rightarrow> n) + 1))"
proof -
  obtain m where m: "st_db e = Some m" using assms by (auto simp: running_def)
  let ?n = "(case map_of m k of None \<Rightarrow> 0 | Some d \<Rightarrow> md_vers d) + 1"
  let ?e = "triggerWatcher SyncUpdate k v (st_rev e + 1) (e\<lparr>st_rev := st_rev e + 1,
      st_db := Some (AList.update k \<lparr>md_val = v, md_vers = ?n, md_modRev = st_rev e + 1\<rparr> m)\<rparr>)"
  have c: "Put e k v = (?e, Inr (st_rev ?e))" by (simp add: Put_def m Let_def)
  have "running ?e" using running_writes[OF assms, of ?e] writes_update[OF _ m vers_pos[OF _ m]] assms
    by (simp add: running_def)
  moreover have "?n = (case lookup e k of None \<Rightarrow> 0 | Some (_, n) \<Rightarrow> n) + 1"
    by (simp add: lookup_db[OF m] split: option.split)
  then have "lookup ?e = (lookup e)(k \<mapsto> (v, (case lookup e k of None \<Rightarrow> 0 | Some (_, n) \<Rightarrow> n) + 1))"
    by (simp add: lookup_def db_Some[OF m] fun_eq_iff)
  ultimately show ?thesis using c by auto
qed

lemma kv_Delete:
  assumes "running e"
  shows "\<exists>e'. Delete e k = (e', Inr (st_rev e')) \<and> running e' \<and> st_rev e' = st_rev e + 1 \<and>
    lookup e' = (lookup e)(k := None)"
proof -
  obtain m where m: "st_db e = Some m" using assms by (auto simp: running_def)
  let ?e = "triggerWatcher SyncDelete k [] (st_rev e + 1) (e\<lparr>st_db := Some (AList.delete k m), st_rev := st_rev e + 1\<rparr>)"
  have c: "Delete e k = (?e, Inr (st_rev ?e))" by (simp add: Delete_def m Let_def)
  have "writes e ?e \<or> ?e = e" using Delete_step[of e k] assms c by (auto simp: running_def)
  then have "running ?e" using running_writes[OF assms, of ?e] by auto
  moreover have "lookup ?e = (lookup e)(k := None)" by (auto simp: lookup_def db_Some[OF m] fun_eq_iff)
  ultimately show ?thesis using c by auto
qed

interpretation memkv: kvstore running lookup st_rev Create Update Put Delete ExistsError NotFoundError InvalidVersion
proof unfold_locales
  show "0 < n" if r: "running e" and l: "lookup e k = Some (w, n)" for e k w n
  proof -
    obtain d where "map_of (db e) k = Some d" "md_vers d = n" using l by (auto simp: lookup_def)
    then show ?thesis using store_wfD(3)[of e k d] r by (simp add: running_def entry_ok_def)
  qed
qed (fact kv_Create kv_Update kv_Put kv_Delete)+

subsection \<open>Watchers\<close>

text \<open>
  What a client that follows the events of one watcher knows of the store: listed and updated
  entries are put, deleted ones removed, and a new listing starts over.
\<close>

definition apply_event :: "SyncCbData \<Rightarrow> (string \<rightharpoonup> string) \<Rightarrow> (string \<rightharpoonup> string)" where
  "apply_event d m =
     (case cb_Action d of
        SyncListStart \<Rightarrow> Map.empty
      | SyncListEnd \<Rightarrow> m
      | SyncDelete \<Rightarrow> m(cb_Key d := None)
      | _ \<Rightarrow> m(cb_Key d \<mapsto> cb_Value d))"

definition events_of :: "nat \<Rightarrow> (nat \<times> SyncCbData) list \<Rightarrow> SyncCbData list" where
  "events_of w evs = map snd (filter (\<lambda>(i, _). i = w) evs)"

definition replay :: "nat \<Rightarrow> InMemoryStore \<Rightarrow> (string \<rightharpoonup> string)" where
  "replay w e = fold apply_event (events_of w (st_events e)) Map.empty"

definition view :: "string \<Rightarrow> InMemoryStore \<Rightarrow> (string \<rightharpoonup> string)" where
  "view p e = (\<lambda>k. if HasPrefix k p then map_option md_val (map_of (db e) k) else None)"

text \<open>The watcher is registered once, under its prefix.\<close>

definition watching :: "nat \<Rightarrow> string \<Rightarrow> InMemoryStore \<Rightarrow> bool" where
  "watching w p e =
     (go_map (st_watchers e) \<and>
      (\<forall>(q, ws) \<in> set (st_watchers e). filter (\<lambda>i. i = w) ws = (if q = p then [w] else [])) \<and>
      p \<in> set (keys (st_watchers e)))"

lemma events_of_append [simp]: "events_of w (xs @ ys) = events_of w xs @ events_of w ys"
  by (simp add: events_of_def)

lemma events_of_map_Pair: "events_of w (map (\<lambda>i. (i, x)) ws) = map (\<lambda>_. x) (filter (\<lambda>i. i = w) ws)"
  by (induction ws) (auto simp: events_of_def)

lemma trigger_events:
  assumes "watching w p e"
  shows "events_of w (st_events (triggerWatcher a k v rv e)) = events_of w (st_events e) @
    (if HasPrefix k p then [\<lparr>cb_Action = a, cb_Key = k, cb_Value = v, cb_Rev = rv, cb_ModRev = rv\<rparr>] else [])"
proof -
  let ?d = "\<lparr>cb_Action = a, cb_Key = k, cb_Value = v, cb_Rev = rv, cb_ModRev = rv\<rparr>"
  let ?f = "\<lambda>(q, ws). if HasPrefix k q then map (\<lambda>i. (i, ?d)) ws else []"
  have "events_of w (concat (map ?f wm)) = (if p \<in> set (keys wm) \<and> HasPrefix k p then [?d] else [])"
    if "go_map wm" "\<forall>(q, ws) \<in> set wm. filter (\<lambda>i. i = w) ws = (if q = p then [w] else [])" for wm
    using that
  proof (induction wm)
    case (Cons x wm)
    obtain q ws where x: "x = (q, ws)" by (cases x)
    have "events_of w (?f x) = (if q = p \<and> HasPrefix k p then [?d] else [])"
      using Cons.prems(2) by (auto simp: x events_of_map_Pair events_of_def[of w "[]"])
    then show ?case using Cons by (auto simp: x)
  qed (simp add: events_of_def)
  from this[of "st_watchers e"] assms show ?thesis
    by (simp add: triggerWatcher_def watching_def)
qed

lemma watching_cong: "st_watchers e' = st_watchers e \<Longrightarrow> watching w p e' = watching w p e"
  by (simp add: watching_def)

lemma replay_trigger:
  assumes "watching w p e"
  shows "replay w (triggerWatcher a k v rv e) =
    (if HasPrefix k p then apply_event \<lparr>cb_Action = a, cb_Key = k, cb_Value = v, cb_Rev = rv, cb_ModRev = rv\<rparr> (replay w e)
     else replay w e)"
  by (simp add: replay_def trigger_events[OF assms])

lemma replay_cong: "st_events e' = st_events e \<Longrightarrow> replay w e' = replay w e"
  by (simp add: replay_def)

lemma view_cong: "db e' = db e \<Longrightarrow> view p e' = view p e"
  by (simp only: view_def)

lemma mirror_update:
  assumes "watching w p e" "replay w e = view p e" "st_events e1 = st_events e" "st_watchers e1 = st_watchers e"
    and "map_of (db e1) = (map_of (db e))(k \<mapsto> d)" "md_val d = v"
  shows "replay w (triggerWatcher SyncUpdate k v rv e1) = view p (triggerWatcher SyncUpdate k v rv e1)"
proof -
  have "watching w p e1" using assms(1,4) watching_cong by blast
  from replay_trigger[OF this] show ?thesis
    using assms by (auto simp: replay_cong[OF assms(3)] apply_event_def view_def fun_eq_iff)
qed

lemma mirror_delete:
  assumes "watching w p e" "replay w e = view p e" "st_events e1 = st_events e" "st_watchers e1 = st_watchers e"
    and "map_of (db e1) = (map_of (db e))(k := None)"
  shows "replay w (triggerWatcher SyncDelete k [] rv e1) = view p (triggerWatcher SyncDelete k [] rv e1)"
proof -
  have "watching w p e1" using assms(1,4) watching_cong by blast
  from replay_trigger[OF this] show ?thesis
    using assms by (auto simp: replay_cong[OF assms(3)] apply_event_def view_def fun_eq_iff)
qed

lemma mirror_commit_write:
  assumes "commit_write kv e = Some e'" "watching w p e" "replay w e = view p e"
  shows "replay w e' = view p e'"
proof -
  obtain k v where kv: "kv = (k, v)" by (cases kv)
  show ?thesis
  proof (cases "v = []")
    case True
    let ?e1 = "e\<lparr>st_db := map_option (AList.delete k) (st_db e)\<rparr>"
    have "map_of (db ?e1) = (map_of (db e))(k := None)" by (cases "st_db e") (simp_all add: db_def)
    moreover have "e' = triggerWatcher SyncDelete k [] (st_rev e) ?e1"
      using assms(1) by (simp add: kv True commit_write_simps)
    ultimately show ?thesis using mirror_delete[OF assms(2,3), of ?e1 k] by simp
  next
    case False
    then obtain m where m: "st_db e = Some m" using assms(1) by (cases "st_db e") (auto simp: kv commit_write_simps)
    let ?d = "\<lparr>md_val = v, md_vers = (case map_of m k of None \<Rightarrow> 0 | Some dd \<Rightarrow> md_vers dd) + 1, md_modRev = st_rev e\<rparr>"
    let ?e1 = "e\<lparr>st_db := Some (AList.update k ?d m)\<rparr>"
    have "e' = triggerWatcher SyncUpdate k v (st_rev e) ?e1"
      using assms(1) False m by (simp add: kv commit_write_simps)
    then show ?thesis using mirror_update[OF assms(2,3), of ?e1 k ?d v] by (simp add: db_Some[OF m])
  qed
qed

lemma mirror_commit_writes:
  "commit_writes ws e = Some e' \<Longrightarrow> watching w p e \<Longrightarrow> replay w e = view p e \<Longrightarrow> replay w e' = view p e'"
proof (induction ws arbitrary: e)
  case (Cons kv ws)
  then obtain e1 where e1: "commit_write kv e = Some e1" "commit_writes ws e1 = Some e'"
    by (auto split: option.splits)
  have "watching w p e1" using commit_write_result[OF e1(1)] Cons.prems(2) watching_cong by blast
  then show ?case using Cons.IH[OF e1(2)] mirror_commit_write[OF e1(1) Cons.prems(2,3)] by blast
qed simp

lemma mirror_write:
  assumes "watching w p e" "replay w e = view p e" "st_db e = Some m"
  shows "md_val d = v \<Longrightarrow> replay w (triggerWatcher SyncUpdate k v rv (e\<lparr>st_rev := n, st_db := Some (AList.update k d m)\<rparr>)) =
      view p (triggerWatcher SyncUpdate k v rv (e\<lparr>st_rev := n, st_db := Some (AList.update k d m)\<rparr>))"
    and "replay w (triggerWatcher SyncDelete k [] rv (e\<lparr>st_db := Some (AList.delete k m), st_rev := n\<rparr>)) =
      view p (triggerWatcher SyncDelete k [] rv (e\<lparr>st_db := Some (AList.delete k m), st_rev := n\<rparr>))"
  using mirror_update[OF assms(1,2), of "e\<lparr>st_rev := n, st_db := Some (AList.update k d m)\<rparr>" k d v]
    mirror_delete[OF assms(1,2), of "e\<lparr>st_db := Some (AList.delete k m), st_rev := n\<rparr>" k]
  by (simp_all add: db_Some[OF assms(3)])

lemma events_of_other: "w \<noteq> w' \<Longrightarrow> events_of w (map (Pair w') ds) = []"
  by (simp add: events_of_def)

lemma events_of_self: "events_of w (map (Pair w) ds) = ds"
  by (induction ds) (simp_all add: events_of_def)

lemma watching_begin_self: "watching w p e \<Longrightarrow> \<not> watching w p (Sync_begin e q w)"
proof
  assume a: "watching w p e" and b: "watching w p (Sync_begin e q w)"
  let ?ws = "get_or [] (st_watchers e) q"
  have g: "go_map (st_watchers e)" using a by (simp add: watching_def)
  let ?wm = "AList.update q (?ws @ [w]) (st_watchers e)"
  have mem: "(q, ?ws @ [w]) \<in> set ?wm" by (rule map_of_SomeD) simp
  have "\<forall>(q, ws) \<in> set ?wm. filter (\<lambda>i. i = w) ws = (if q = p then [w] else [])"
    using b by (simp add: watching_def Sync_begin_def Let_def)
  from bspec[OF this mem] have f: "filter (\<lambda>i. i = w) (?ws @ [w]) = (if q = p then [w] else [])"
    by (simp only: prod.case)
  then have qp: "q = p" "filter (\<lambda>i. i = w) ?ws = []" by (auto split: if_splits)
  obtain ws where ws: "map_of (st_watchers e) p = Some ws"
    using a by (cases "map_of (st_watchers e) p") (auto simp: watching_def)
  then have "filter (\<lambda>i. i = w) ws = [w]" using a map_of_SomeD[OF ws] by (auto simp: watching_def)
  then show False using qp ws by (simp add: get_or_def)
qed

lemma mirror_step:
  assumes "store_step e e'" "watching w p e" "watching w p e'" "replay w e = view p e"
  shows "replay w e' = view p e'"
  using assms
proof (induction rule: store_step.induct)
  case (step_create e key v)
  then show ?case using mirror_write(1)[OF step_create(1,3)]
    by (auto simp: Create_def Let_def split: option.split)
next
  case (step_update e key v version)
  then show ?case using mirror_write(1)[OF step_update(1,3)]
    by (auto simp: Update_def Let_def split: option.split)
next
  case (step_put e key v)
  then show ?case using mirror_write(1)[OF step_put(1,3)]
    by (auto simp: Put_def Let_def split: option.split)
next
  case (step_delete e key)
  then show ?case using mirror_write(2)[OF step_delete(1,3)]
    by (auto simp: Delete_def Let_def split: option.split)
next
  case (step_commit e stm e' r)
  from step_commit(1) show ?case
  proof (cases rule: commit_cases)
    case (committed rv)
    have "replay w (e\<lparr>st_rev := st_rev e + 1\<rparr>) = view p (e\<lparr>st_rev := st_rev e + 1\<rparr>)"
      using step_commit.prems(3) replay_cong[of "e\<lparr>st_rev := st_rev e + 1\<rparr>" e] view_cong[of "e\<lparr>st_rev := st_rev e + 1\<rparr>" e]
      by simp
    moreover have "watching w p (e\<lparr>st_rev := st_rev e + 1\<rparr>)"
      using step_commit.prems(1) by (simp add: watching_def)
    ultimately show ?thesis using mirror_commit_writes[OF committed(4)] by blast
  qed (use step_commit in simp_all)
next
  case (step_sync_begin e prfx w')
  then have "w \<noteq> w'" using watching_begin_self by blast
  then have "events_of w (st_events (Sync_begin e prfx w')) = events_of w (st_events e)"
    by (simp add: Sync_begin_def Let_def events_of_other del: list.map(2))
  then show ?case using step_sync_begin(3) view_cong[OF sync_frame(1)] by (simp add: replay_def)
next
  case (step_sync_end e prfx w')
  have "st_events (Sync_end e prfx w') = st_events e" by (simp add: Sync_end_def Let_def split: option.split)
  then show ?case using step_sync_end(3) view_cong[OF sync_frame(3)] by (simp add: replay_def)
qed

lemma fold_list_events:
  assumes "go_map xs"
  shows "fold apply_event (map (\<lambda>(key, dd). \<lparr>cb_Action = SyncList, cb_Key = key, cb_Value = md_val dd,
      cb_Rev = rv, cb_ModRev = md_modRev dd\<rparr>) xs) m =
    (\<lambda>k. case map_of xs k of None \<Rightarrow> m k | Some dd \<Rightarrow> Some (md_val dd))"
  using assms
proof (induction xs arbitrary: m)
  case (Cons x xs)
  then show ?case by (cases x) (auto simp: apply_event_def fun_eq_iff split: option.split)
qed simp

lemma map_of_filter_key: "map_of (filter (\<lambda>(k, _). P k) xs) k = (if P k then map_of xs k else None)"
  by (induction xs) auto

definition unused_watcher :: "nat \<Rightarrow> InMemoryStore \<Rightarrow> bool" where
  "unused_watcher w e =
     (go_map (st_watchers e) \<and> list_all (\<lambda>(_, ws). w \<notin> set ws) (st_watchers e) \<and>
      list_all (\<lambda>(i, _). i \<noteq> w) (st_events e))"

lemma Sync_begin_mirror:
  assumes "store_wf e" "unused_watcher w e"
  shows "replay w (Sync_begin e p w) = view p (Sync_begin e p w)"
proof -
  let ?start = "\<lparr>cb_Action = SyncListStart, cb_Key = [], cb_Value = [], cb_Rev = 0, cb_ModRev = 0\<rparr>"
  let ?xs = "filter (\<lambda>(key, _). HasPrefix key p) (db e)"
  let ?items = "map (\<lambda>(key, dd). \<lparr>cb_Action = SyncList, cb_Key = key, cb_Value = md_val dd,
      cb_Rev = st_rev e, cb_ModRev = md_modRev dd\<rparr>) ?xs"
  let ?final = "(last (?start # ?items))\<lparr>cb_Action := SyncListEnd, cb_Key := [], cb_Value := []\<rparr>"
  have "events_of w (st_events e) = []"
    using assms(2) by (auto simp: unused_watcher_def list_all_iff events_of_def filter_empty_conv)
  then have ev: "events_of w (st_events (Sync_begin e p w)) = ?start # ?items @ [?final]"
    by (simp add: Sync_begin_def Let_def events_of_self del: list.map(2) last.simps)
  have "go_map ?xs" using store_wfD(2)[OF assms(1)] by (simp add: distinct_map_filter)
  from fold_list_events[OF this, of "st_rev e"]
  have "fold apply_event (?start # ?items @ [?final]) Map.empty =
      (\<lambda>k. case map_of ?xs k of None \<Rightarrow> None | Some dd \<Rightarrow> Some (md_val dd))"
    by (simp add: apply_event_def[of ?final] apply_event_def[of ?start] del: last.simps)
  then show ?thesis
    by (simp add: replay_def ev view_def fun_eq_iff map_of_filter_key split: option.split del: last.simps fold_simps)
qed

lemma Sync_begin_watching: "unused_watcher w e \<Longrightarrow> watching w p (Sync_begin e p w)"
proof -
  assume u: "unused_watcher w e"
  let ?wm = "AList.update p (get_or [] (st_watchers e) p @ [w]) (st_watchers e)"
  have g: "go_map (st_watchers e)" using u by (simp add: unused_watcher_def)
  have n: "w \<notin> set ws" if "map_of (st_watchers e) q = Some ws" for q ws
    using u map_of_SomeD[OF that] by (auto simp: unused_watcher_def list_all_iff)
  have "filter (\<lambda>i. i = w) ws = (if q = p then [w] else [])" if "(q, ws) \<in> set ?wm" for q ws
  proof -
    have "map_of ?wm q = Some ws" using that g by (metis go_map_entry go_map_update)
    then have "q = p \<and> ws = get_or [] (st_watchers e) p @ [w] \<or> q \<noteq> p \<and> map_of (st_watchers e) q = Some ws"
      by (auto split: if_splits)
    then show ?thesis using n by (auto simp: get_or_def filter_empty_conv split: option.splits)
  qed
  then show ?thesis using g by (auto simp: watching_def Sync_begin_def Let_def)
qed

subsection \<open>Properties\<close>

text \<open>
  (C2) Committed transactions are serializable. Let a transaction body run while any number of other
  calls change the store between its reads, even between the two halves of one read. If its commit succeeds
  and it writes anything, then running the body alone at the moment of the commit also succeeds, makes
  the same writes, and commits to the same store with the same revision.
\<close>

theorem STM_commit_serializable:
  assumes "store_wf e0" "txn_run e0 stm_reset t e d None" "stm_wset d \<noteq> []" "commit e d = Some (e', Inr rv)"
  shows "\<exists>a. run_txn e t stm_reset = (a, None) \<and> stm_wset a = stm_wset d \<and> commit e a = Some (e', Inr rv)"
proof -
  have wf: "store_wf e" using store_steps_ok[OF txn_run_store[OF assms(2)] assms(1)] by blast
  have "rset_ok e0 stm_reset" by (simp add: rset_ok_def stm_reset_def)
  from txn_run_rset_ok[OF assms(2,1) this] have ok: "rset_ok e d" .
  note c = commit_ok_reads[OF assms(4,3)]
  have "rr_val rr = val_of e k" if "map_of (stm_rset d) k = Some rr" for k rr
    using validated_values[OF wf ok that c(1)[OF that]] .
  from txn_run_alone[OF assms(2) this agree_refl] obtain a where a: "run_txn e t stm_reset = (a, None)" "agree d a"
    by blast
  have w: "stm_wset a = stm_wset d" using a(2) by (simp add: agree_def)
  have "reads_at e a" using reads_at_run[OF reads_at_reset a(1)] .
  from commit_reads_at[OF wf this] have "commit e a = Some (e', Inr (st_rev e'))"
    unfolding w using assms(3) c(2,3) by simp
  moreover have "st_rev e' = rv" using commit_writes_result[OF c(3)] c(4) by simp
  ultimately show ?thesis using a(1) w by blast
qed

definition empty_store :: InMemoryStore where
  "empty_store = Start \<lparr>st_db = None, st_watchers = [], st_rev = 0, st_events = []\<rparr>"

lemma empty_store_wf: "store_wf empty_store" "running empty_store" "st_db empty_store = Some []" "st_rev empty_store = 1"
  by (simp_all add: empty_store_def Start_def store_wf_def running_def db_def)

theorem STM_commit_serializable_witness:
  "let e = fst (Put empty_store ''b'' ''1''); t = GetT ''a'' (\<lambda>v. PutT ''c'' (CHR ''x'' # v) (Done None))
   in \<exists>a. run_txn e t stm_reset = (a, None) \<and> stm_wset a = [(''c'', ''x'')]"
proof -
  let ?e = "fst (Put empty_store ''b'' ''1'')" and ?t = "GetT ''a'' (\<lambda>v. PutT ''c'' (CHR ''x'' # v) (Done None))"
  let ?d = "\<lparr>stm_rset = [(''a'', \<lparr>rr_val = [], rr_modRev = 0, rr_rev = 1\<rparr>)], stm_wset = [(''c'', ''x'')]\<rparr>"
  have g: "STM_Get empty_store empty_store stm_reset ''a'' =
      (\<lparr>stm_rset = [(''a'', \<lparr>rr_val = [], rr_modRev = 0, rr_rev = 1\<rparr>)], stm_wset = []\<rparr>, [])"
    by code_simp
  have "store_step\<^sup>*\<^sup>* empty_store ?e" by (rule r_into_rtranclp) (rule step_put)
  then have "txn_run empty_store stm_reset ?t ?e ?d None"
    by (intro run_get[OF rtranclp.rtrancl_refl rtranclp.rtrancl_refl g] run_put)
      (simp add: STM_Put_def run_done)
  moreover have "map_option (is_ok \<circ> snd) (commit ?e ?d) = Some True" by code_simp
  then obtain e' rv where "commit ?e ?d = Some (e', Inr rv)" by (auto elim: is_okE)
  moreover have "stm_wset ?d \<noteq> []" by simp
  ultimately have "\<exists>a. run_txn ?e ?t stm_reset = (a, None) \<and> stm_wset a = stm_wset ?d"
    using STM_commit_serializable[OF empty_store_wf(1)] by blast
  then show ?thesis by (simp only: Let_def inMemorySTM.select_convs)
qed

text \<open>
  A commit is all or nothing. It either leaves the store untouched, or it writes every key of the
  write set in one new revision, deleting the keys written as empty, and changes no other key, whatever
  the order in which the write set is visited; the store's invariant is kept.
\<close>

theorem commit_atomic:
  assumes "store_wf e" "go_map (stm_wset stm)" "commit e stm = Some (e', r)"
  shows "store_wf e' \<and> (e' = e \<or>
    r = Inr (st_rev e + 1) \<and> st_rev e' = st_rev e + 1 \<and>
    (\<forall>k. map_of (db e') k =
       (case map_of (stm_wset stm) k of
          None \<Rightarrow> map_of (db e) k
        | Some v \<Rightarrow> if v = [] then None
            else Some \<lparr>md_val = v, md_vers = (case map_of (db e) k of None \<Rightarrow> 0 | Some d \<Rightarrow> md_vers d) + 1,
                       md_modRev = st_rev e + 1\<rparr>)))"
proof -
  have wf: "store_wf e'" using commit_step[OF assms(1,3)] writes_evolves[OF assms(1)] assms(1) by auto
  from assms(3) show ?thesis
  proof (cases rule: commit_cases)
    case (committed rv)
    from commit_writes_result[OF committed(4)] show ?thesis
      using wf committed(5) foldl_written[OF assms(2)] by simp
  qed (use wf in simp_all)
qed

theorem commit_atomic_witness:
  "\<exists>e'. commit empty_store \<lparr>stm_rset = [], stm_wset = [(''a'', ''1''), (''b'', [])]\<rparr> = Some (e', Inr 2) \<and> store_wf e'"
proof -
  let ?stm = "\<lparr>stm_rset = [], stm_wset = [(''a'', ''1''), (''b'', [])]\<rparr>"
  obtain e' where e': "commit empty_store ?stm = Some (e', Inr 2)"
    by (simp add: commit_def check_wset_iff modRev_of_def db_def empty_store_wf commit_write_def Let_def)
  then show ?thesis using commit_atomic[OF empty_store_wf(1), of ?stm e' "Inr 2"] by simp
qed

text \<open>
  Without interference a transaction commits at the first attempt. On a running store whose revision is
  within range, \<open>ApplySTM\<close> of a body that raises no error, with no other writer in between,
  returns after one attempt with no error.
\<close>

theorem ApplySTM_uncontended:
  assumes "running e" "st_rev e \<le> 2 ^ 63 - 2" "snd (run_txn e t stm_reset) = None"
  shows "\<exists>e' rv. ApplySTM (\<lambda>_ s. (s, run_txn s t stm_reset)) e = Some (1, e', Inr rv) \<and> running e'"
proof -
  obtain a where a: "run_txn e t stm_reset = (a, None)" using assms(3) by (metis prod.collapse)
  have wf: "store_wf e" using assms(1) by (simp add: running_def)
  have "\<exists>e' rv. commit e a = Some (e', Inr rv) \<and> running e'"
  proof (cases "stm_wset a = []")
    case True
    then show ?thesis using assms(1) by (simp add: commit_def)
  next
    case False
    have "modRev_of e k \<le> 2 ^ 63 - 2" for k using modRev_le[OF wf, of k] assms(2) by linarith
    note c = commit_reads_at[OF wf reads_at_run[OF reads_at_reset a] False this]
    have "st_db (e\<lparr>st_rev := st_rev e + 1\<rparr>) \<noteq> None" using assms(1) by (simp add: running_def)
    then obtain e' where e': "commit_writes (stm_wset a) (e\<lparr>st_rev := st_rev e + 1\<rparr>) = Some e'"
      using commit_writes_running by blast
    have "commit e a = Some (e', Inr (st_rev e'))" using c e' by simp
    moreover have "running e'"
    proof -
      have "st_db e' \<noteq> None" using e' \<open>st_db (e\<lparr>st_rev := st_rev e + 1\<rparr>) \<noteq> None\<close>
        by (rule commit_writes_db)
      then show ?thesis using running_writes[OF assms(1) commit_step[OF wf calculation]] by blast
    qed
    ultimately show ?thesis by blast
  qed
  then show ?thesis by (auto simp: ApplySTM_def apply_loop.simps a)
qed

theorem ApplySTM_uncontended_witness:
  "\<exists>e' rv. ApplySTM (\<lambda>_ s. (s, run_txn s (GetT ''a'' (\<lambda>v. PutT ''a'' (v @ ''1'') (Done None))) stm_reset)) empty_store =
     Some (1, e', Inr rv) \<and> running e'"
proof -
  let ?t = "GetT ''a'' (\<lambda>v. PutT ''a'' (v @ ''1'') (Done None))"
  have "snd (run_txn empty_store ?t stm_reset) = None" by (simp add: case_prod_beta)
  then show ?thesis using ApplySTM_uncontended[OF empty_store_wf(2), of ?t] by (simp add: empty_store_wf(4))
qed

text \<open>
  (C29) The retry loop ends: as long as the store is not stopped, whatever the other writers do during
  the attempts, \<open>ApplySTM\<close> returns after at least one and at most thirteen of them, and it
  gives up with its own error only after the thirteenth.
\<close>

theorem ApplySTM_bounded:
  assumes "\<And>ii s. st_db (fst (attempt ii s)) \<noteq> None"
  shows "\<exists>n e' r. ApplySTM attempt e = Some (n, e', r) \<and> 1 \<le> n \<and> n \<le> 13 \<and> (r = Inl TooManyIterations \<longrightarrow> n = 13)"
proof -
  have "\<exists>n e' r. apply_loop attempt ii e = Some (n, e', r) \<and> ii < n \<and> n \<le> 13 \<and> (r = Inl TooManyIterations \<longrightarrow> n = 13)"
    if "ii \<le> 12" for ii e
    using that assms
  proof (induction attempt ii e rule: apply_loop.induct)
    case (1 attempt ii e)
    obtain e1 stm aerr where a: "attempt ii e = (e1, stm, aerr)" by (cases "attempt ii e")
    have "st_db e1 \<noteq> None" using "1.prems"(2)[of ii e] a by simp
    then have "commit e1 stm \<noteq> None" by (rule commit_running)
    then consider (failed) msg where "aerr = Some msg" | (ok) e2 rv where "aerr = None" "commit e1 stm = Some (e2, Inr rv)"
      | (retry) e2 err where "aerr = None" "commit e1 stm = Some (e2, Inl err)"
      by (metis option.exhaust prod.exhaust sum.exhaust)
    then show ?case
    proof cases
      case retry
      show ?thesis
      proof (cases "ii + 1 > 12")
        case True
        then show ?thesis using retry a "1.prems"(1) by (simp add: apply_loop.simps[of attempt ii])
      next
        case False
        then have l: "apply_loop attempt ii e = apply_loop attempt (ii + 1) e2"
          using retry a by (simp add: apply_loop.simps[of attempt ii])
        have "\<exists>n e' r. apply_loop attempt (ii + 1) e2 = Some (n, e', r) \<and> ii + 1 < n \<and> n \<le> 13 \<and>
            (r = Inl TooManyIterations \<longrightarrow> n = 13)"
          using False "1.prems"(2) by (intro "1.IH"[OF a[symmetric] refl]) (use retry in auto)
        then show ?thesis unfolding l by auto
      qed
    qed (use a "1.prems"(1) in \<open>auto simp: apply_loop.simps[of attempt ii]\<close>)
  qed
  from this[of 0 e] show ?thesis by (auto simp: ApplySTM_def)
qed

theorem ApplySTM_bounded_witness:
  "\<exists>n e' r. ApplySTM (\<lambda>_ s. (empty_store, \<lparr>stm_rset = [(''a'', \<lparr>rr_val = [], rr_modRev = 9, rr_rev = 9\<rparr>)],
     stm_wset = [(''a'', ''x'')]\<rparr>, None)) empty_store = Some (n, e', r) \<and> n \<le> 13"
  using ApplySTM_bounded[of "\<lambda>_ s. (empty_store, \<lparr>stm_rset = [(''a'', \<lparr>rr_val = [], rr_modRev = 9, rr_rev = 9\<rparr>)],
     stm_wset = [(''a'', ''x'')]\<rparr>, None)" empty_store] empty_store_wf(3) by auto

text \<open>
  Read-only transactions are not validated. A body that writes nothing always commits, also when its
  reads come from different moments: here it sees one key from before and the other from after a transaction
  that changes both together, a result no single state of the store explains.
\<close>

theorem STM_read_only_unvalidated:
  "\<exists>e0 e1 t d. store_wf e0 \<and> store_step e0 e1 \<and> txn_run e0 stm_reset t e1 d None
     \<and> commit e1 d = Some (e1, Inr (st_rev e1))
     \<and> \<not> agree d (fst (run_txn e0 t stm_reset)) \<and> \<not> agree d (fst (run_txn e1 t stm_reset))"
proof -
  let ?w = "\<lambda>v. \<lparr>stm_rset = [], stm_wset = [(''a'', v), (''b'', v)]\<rparr>"
  let ?t = "GetT ''a'' (\<lambda>x. GetT ''b'' (\<lambda>y. Done None))"
  let ?e = "\<lambda>v rv. \<lparr>st_db = Some [(''a'', \<lparr>md_val = v, md_vers = rv - 1, md_modRev = rv\<rparr>),
      (''b'', \<lparr>md_val = v, md_vers = rv - 1, md_modRev = rv\<rparr>)], st_watchers = [], st_rev = rv, st_events = []\<rparr>"
  let ?e0 = "?e ''0'' 2" and ?e1 = "?e ''1'' 3"
  let ?d = "\<lparr>stm_rset = [(''a'', \<lparr>rr_val = ''0'', rr_modRev = 2, rr_rev = 2\<rparr>),
      (''b'', \<lparr>rr_val = ''1'', rr_modRev = 3, rr_rev = 3\<rparr>)], stm_wset = []\<rparr>"
  let ?d1 = "\<lparr>stm_rset = [(''a'', \<lparr>rr_val = ''0'', rr_modRev = 2, rr_rev = 2\<rparr>)], stm_wset = []\<rparr>"
  have "commit ?e0 (?w ''1'') = Some (?e1, Inr 3)" by code_simp
  then have s: "store_step ?e0 ?e1" by (rule step_commit)
  then have ss: "store_step\<^sup>*\<^sup>* ?e0 ?e1" by (rule r_into_rtranclp[where r = store_step])
  have g: "STM_Get ?e0 ?e0 stm_reset ''a'' = (?d1, ''0'')" "STM_Get ?e1 ?e1 ?d1 ''b'' = (?d, ''1'')" by code_simp+
  have "txn_run ?e1 ?d (Done None) ?e1 ?d None" by (rule run_done) simp
  then have "txn_run ?e0 ?d1 (GetT ''b'' (\<lambda>y. Done None)) ?e1 ?d None"
    by (rule run_get[OF ss rtranclp.rtrancl_refl g(2)])
  then have r: "txn_run ?e0 stm_reset ?t ?e1 ?d None"
    by (rule run_get[OF rtranclp.rtrancl_refl rtranclp.rtrancl_refl g(1)])
  have wf: "store_wf ?e0" by code_simp
  have na: "\<not> agree ?d x" if "map_of (stm_rset x) k = Some rr" "map_of (stm_rset ?d) k = Some rr'" "rr_val rr \<noteq> rr_val rr'" for x k rr rr'
    using that by (metis agree_def option.inject option.simps(9))
  have "\<not> agree ?d (fst (run_txn ?e0 ?t stm_reset))"
    by (rule na[of _ "''b''" "\<lparr>rr_val = ''0'', rr_modRev = 2, rr_rev = 2\<rparr>" "\<lparr>rr_val = ''1'', rr_modRev = 3, rr_rev = 3\<rparr>"]) code_simp+
  moreover have "\<not> agree ?d (fst (run_txn ?e1 ?t stm_reset))"
    by (rule na[of _ "''a''" "\<lparr>rr_val = ''1'', rr_modRev = 3, rr_rev = 3\<rparr>" "\<lparr>rr_val = ''0'', rr_modRev = 2, rr_rev = 2\<rparr>"]) code_simp+
  moreover have "commit ?e1 ?d = Some (?e1, Inr (st_rev ?e1))" by (simp add: commit_def)
  ultimately show ?thesis using wf s r by blast
qed

text \<open>
  After \<open>Stop\<close>, a transaction that writes a value panics: every other writing call answers that
  the store is not initialized, but the commit writes into the nil map.
\<close>

theorem commit_after_stop_panics:
  "commit (Stop e) \<lparr>stm_rset = [], stm_wset = [(key, c # cs)]\<rparr> = None
   \<and> snd (Put (Stop e) key (c # cs)) = Inl NotInitialized \<and> snd (Delete (Stop e) key) = Inl NotInitialized"
  by (simp add: commit_def Stop_def check_wset_iff modRev_of_def commit_write_def Put_def Delete_def)

text \<open>
  (C25) A watcher mirrors the store: from its initial listing on, replaying the events sent to it
  gives exactly the current values of the keys with its prefix, after any sequence of calls by any clients during
  which it stays registered.
\<close>

theorem Sync_mirrors_store:
  assumes "store_wf e" "unused_watcher w e"
    and "(\<lambda>s s'. store_step s s' \<and> watching w p s')\<^sup>*\<^sup>* (Sync_begin e p w) e'"
  shows "replay w e' = view p e'"
proof -
  from assms(3) have "watching w p e' \<and> replay w e' = view p e'"
  proof (induction rule: rtranclp_induct)
    case base
    show ?case using Sync_begin_watching[OF assms(2)] Sync_begin_mirror[OF assms(1,2)] by blast
  next
    case (step s s')
    then show ?case using mirror_step by blast
  qed
  then show ?thesis ..
qed

theorem Sync_mirrors_store_witness:
  "replay 7 (fst (Put (Sync_begin empty_store ''app/'' 7) ''app/x'' ''v'')) ''app/x'' = Some ''v''"
proof -
  let ?s = "Sync_begin empty_store ''app/'' 7"
  let ?e = "fst (Put ?s ''app/x'' ''v'')"
  have u: "unused_watcher 7 empty_store" by code_simp
  have "store_step ?s ?e" by (rule step_put)
  moreover have "watching 7 ''app/'' ?e" by code_simp
  ultimately have "(\<lambda>s s'. store_step s s' \<and> watching 7 ''app/'' s')\<^sup>*\<^sup>* ?s ?e" by (intro r_into_rtranclp) blast
  from Sync_mirrors_store[OF empty_store_wf(1) u this] have "replay 7 ?e ''app/x'' = view ''app/'' ?e ''app/x''" by simp
  also have "\<dots> = Some ''v''" by code_simp
  finally show ?thesis .
qed

text \<open>
  Versioned updates are compare-and-swap: when \<open>Update\<close> with a version succeeds, that was the key's version,
  the next version holds the new value, and a second update with the same version fails without a change.
\<close>

theorem Update_compare_and_swap:
  assumes "running e" "ver \<noteq> 0" "Update e k v ver = (e', Inr r)"
  shows "(\<exists>w. lookup e k = Some (w, ver)) \<and> lookup e' k = Some (v, ver + 1)
    \<and> Update e' k v' ver = (e', Inl InvalidVersion)"
  by (rule memkv.update_once[OF assms])

theorem Update_compare_and_swap_witness:
  "let e = fst (Create empty_store ''k'' ''v1''); e' = fst (Update e ''k'' ''v2'' 1)
   in lookup e' ''k'' = Some (''v2'', 2) \<and> Update e' ''k'' ''v3'' 1 = (e', Inl InvalidVersion)"
proof -
  let ?e = "fst (Create empty_store ''k'' ''v1'')" and ?e' = "fst (Update (fst (Create empty_store ''k'' ''v1'')) ''k'' ''v2'' 1)"
  have "running ?e" by code_simp
  moreover have "Update ?e ''k'' ''v2'' 1 = (?e', Inr 3)" by code_simp
  ultimately show ?thesis using Update_compare_and_swap[of ?e 1 "''k''" "''v2''" ?e' 3 "''v3''"] by (simp add: Let_def)
qed

end
