(* ===== verification/Ports.thy ===== *)
theory Ports
  imports Prelude
begin

text \<open>
  Application ports: the parser of access port strings in \<^verbatim>\<open>pkg/util/ports.go\<close> and the port functions
  of \<^verbatim>\<open>api/edgeproto/objs.go\<close> (protocol names, parsing into instance ports, reserved ports and
  overlap). Port numbers are integers; the parser's own range checks keep them within 16 bits. The
  annotations of a port are a Go map, visited in the order of the association list.
\<close>

subsection \<open>The model\<close>

definition maxTcpPorts :: int where "maxTcpPorts = 1000"
definition maxUdpPorts :: int where "maxUdpPorts = 10000"
definition maxEnvoyUdpPorts :: int where "maxEnvoyUdpPorts = 1000"
definition minUDPPktSize :: int where "minUDPPktSize = 1500"
definition maxUDPPktSize :: int where "maxUDPPktSize = 50000"

record PortSpec =
  ps_Proto :: string
  ps_Port :: string
  ps_EndPort :: string
  ps_Tls :: bool
  ps_Nginx :: bool
  ps_MaxPktSize :: int
  ps_InternalVisOnly :: bool
  ps_ID :: string
  ps_PathPrefix :: string
  ps_ServiceName :: string

datatype port_error =
    InvalidFormat string | InvalidAnnotation string | BadBasePort | BadEndPort | PortsOutOfRange
  | UnsupportedProtocol string | AnnotationNotForProtocol string string | BadPktSize string | PktSizeRange
  | UnrecognizedAnnotation string | TooManyTcpPorts | TooManyUdpPorts | ReservedPort string

fun parse_annotations :: "string list \<Rightarrow> (string, string) gomap \<Rightarrow> (port_error, (string, string) gomap) result" where
  "parse_annotations [] annotations = Ok annotations"
| "parse_annotations (kv # kvs) annotations =
     (if kv = [] then Err (InvalidAnnotation kv)
      else case SplitN2 CHR ''='' kv of
        [_] \<Rightarrow> parse_annotations kvs (AList.update kv ''true'' annotations)
      | [k, v] \<Rightarrow> parse_annotations kvs (AList.update k v annotations)
      | _ \<Rightarrow> Err (InvalidAnnotation kv))"

definition apply_annotation :: "PortSpec \<Rightarrow> string \<Rightarrow> string \<Rightarrow> (port_error, PortSpec) result" where
  "apply_annotation portSpec key v =
     (if key = ''tls'' then
        if ps_Proto portSpec \<noteq> ''tcp'' \<and> ps_Proto portSpec \<noteq> ''http''
        then Err (AnnotationNotForProtocol key (ps_Proto portSpec)) else Ok (portSpec\<lparr>ps_Tls := True\<rparr>)
      else if key = ''nginx'' then
        if ps_Proto portSpec \<noteq> ''udp'' then Err (AnnotationNotForProtocol key (ps_Proto portSpec))
        else Ok (portSpec\<lparr>ps_Nginx := True\<rparr>)
      else if key = ''maxpktsize'' then
        if ps_Proto portSpec \<noteq> ''udp'' then Err (AnnotationNotForProtocol key (ps_Proto portSpec))
        else case ParseInt 64 v of
          None \<Rightarrow> Err (BadPktSize v)
        | Some maxPktSize \<Rightarrow>
            if maxPktSize < minUDPPktSize \<or> maxPktSize > maxUDPPktSize then Err PktSizeRange
            else Ok (portSpec\<lparr>ps_MaxPktSize := maxPktSize\<rparr>)
      else if key = ''intvis'' then Ok (portSpec\<lparr>ps_InternalVisOnly := True\<rparr>)
      else if key = ''id'' then Ok (portSpec\<lparr>ps_ID := v\<rparr>)
      else if key = ''pathprefix'' then
        if ps_Proto portSpec \<noteq> ''http'' then Err (AnnotationNotForProtocol key (ps_Proto portSpec))
        else Ok (portSpec\<lparr>ps_PathPrefix := v\<rparr>)
      else if key = ''svcname'' then Ok (portSpec\<lparr>ps_ServiceName := v\<rparr>)
      else Err (UnrecognizedAnnotation key))"

fun apply_annotations :: "(string, string) gomap \<Rightarrow> PortSpec \<Rightarrow> (port_error, PortSpec) result" where
  "apply_annotations [] portSpec = Ok portSpec"
| "apply_annotations ((key, v) # rest) portSpec =
     (case apply_annotation portSpec key v of
        Inl e \<Rightarrow> Err e
      | Inr portSpec' \<Rightarrow> apply_annotations rest portSpec')"

text \<open>The body of the loop: one comma-separated entry, with the number of ports it stands for.\<close>

definition parse_range :: "string \<Rightarrow> (port_error, int \<times> int) result" where
  "parse_range s =
     (let portrange = Split CHR ''-'' s
      in case ParseInt 32 (portrange ! 0) of
           None \<Rightarrow> Err BadBasePort
         | Some baseport \<Rightarrow>
             (case (if length portrange = 2 then ParseInt 32 (portrange ! 1) else Some baseport) of
                None \<Rightarrow> Err BadEndPort
              | Some endport \<Rightarrow>
                  if baseport < 1 \<or> baseport > 65535 \<or> endport < 1 \<or> endport > 65535 then Err PortsOutOfRange
                  else if endport < baseport then Err PortsOutOfRange
                  else Ok (baseport, if baseport = endport then 0 else endport)))"

definition parse_port :: "string \<Rightarrow> (port_error, PortSpec \<times> int) result" where
  "parse_port pstr =
     (let pp = Split CHR '':'' pstr
      in if length pp < 2 then Err (InvalidFormat pstr)
         else case parse_annotations (drop 2 pp) [] of
           Inl e \<Rightarrow> Err e
         | Inr annotations \<Rightarrow>
             (case parse_range (pp ! 1) of
                Inl e \<Rightarrow> Err e
              | Inr (baseport, endport) \<Rightarrow>
                  let proto = ToLower (pp ! 0)
                  in if proto \<noteq> ''tcp'' \<and> proto \<noteq> ''udp'' \<and> proto \<noteq> ''http'' then Err (UnsupportedProtocol (pp ! 0))
                     else
                       let portCount = (if endport \<noteq> 0 then endport - baseport + 1 else 1);
                           portSpec = \<lparr>ps_Proto = proto, ps_Port = FormatInt baseport, ps_EndPort = FormatInt endport,
                             ps_Tls = False, ps_Nginx = False, ps_MaxPktSize = 0, ps_InternalVisOnly = False,
                             ps_ID = [], ps_PathPrefix = [], ps_ServiceName = []\<rparr>
                       in case apply_annotations annotations portSpec of
                            Inl e \<Rightarrow> Err e
                          | Inr portSpec' \<Rightarrow> Ok (portSpec', portCount)))"

fun parse_entries :: "string list \<Rightarrow> PortSpec list \<Rightarrow> int \<Rightarrow> int \<Rightarrow> (port_error, PortSpec list \<times> int \<times> int) result" where
  "parse_entries [] ports tcpPortCount udpPortCount = Ok (ports, tcpPortCount, udpPortCount)"
| "parse_entries (pstr # pstrs) ports tcpPortCount udpPortCount =
     (case parse_port pstr of
        Inl e \<Rightarrow> Err e
      | Inr (portSpec, portCount) \<Rightarrow>
          if ps_Proto portSpec = ''tcp''
          then parse_entries pstrs (ports @ [portSpec]) (tcpPortCount + portCount) udpPortCount
          else parse_entries pstrs (ports @ [portSpec]) tcpPortCount (udpPortCount + portCount))"

definition ParsePorts :: "string \<Rightarrow> (port_error, PortSpec list) result" where
  "ParsePorts accessPorts =
     (case parse_entries (Split CHR '','' accessPorts) [] 0 0 of
        Inl e \<Rightarrow> Err e
      | Inr (ports, tcpPortCount, udpPortCount) \<Rightarrow>
          if tcpPortCount > maxTcpPorts then Err TooManyTcpPorts
          else if udpPortCount > maxUdpPorts then Err TooManyUdpPorts
          else if udpPortCount > maxEnvoyUdpPorts
            then Ok (map (\<lambda>p. if ps_Proto p = ''udp'' then p\<lparr>ps_Nginx := True\<rparr> else p) ports)
          else Ok ports)"

datatype LProto = L_PROTO_UNKNOWN | L_PROTO_TCP | L_PROTO_UDP | L_PROTO_HTTP

record InstPort =
  ip_Proto :: LProto
  ip_InternalPort :: int
  ip_EndPort :: int
  ip_Tls :: bool
  ip_Nginx :: bool
  ip_MaxPktSize :: int
  ip_InternalVisOnly :: bool
  ip_Id :: string
  ip_PathPrefix :: string
  ip_ServiceName :: string

definition GetLProto :: "string \<Rightarrow> (port_error, LProto) result" where
  "GetLProto s =
     (let s = ToLower s
      in if s = ''tcp'' then Ok L_PROTO_TCP
         else if s = ''udp'' then Ok L_PROTO_UDP
         else if s = ''http'' then Ok L_PROTO_HTTP
         else Err (UnsupportedProtocol s))"

fun LProtoStr :: "LProto \<Rightarrow> string option" where
  "LProtoStr L_PROTO_TCP = Some ''tcp''"
| "LProtoStr L_PROTO_UDP = Some ''udp''"
| "LProtoStr L_PROTO_HTTP = Some ''http''"
| "LProtoStr L_PROTO_UNKNOWN = None"

fun L4ProtoStr :: "LProto \<Rightarrow> string option" where
  "L4ProtoStr L_PROTO_TCP = Some ''tcp''"
| "L4ProtoStr L_PROTO_UDP = Some ''udp''"
| "L4ProtoStr L_PROTO_HTTP = Some ''http''"
| "L4ProtoStr L_PROTO_UNKNOWN = None"

definition IsHTTP :: "InstPort \<Rightarrow> bool" where
  "IsHTTP s = (ip_Proto s = L_PROTO_HTTP)"

definition UsesHTTP :: "InstPort list \<Rightarrow> bool" where
  "UsesHTTP mappedPorts = list_ex IsHTTP mappedPorts"

definition AppPortLookupKey :: "InstPort \<Rightarrow> string" where
  "AppPortLookupKey ap =
     (case LProtoStr (ip_Proto ap) of None \<Rightarrow> [] | Some s \<Rightarrow> s) @ FormatInt (ip_InternalPort ap)"

definition ProtoPortToString :: "string \<Rightarrow> int \<Rightarrow> string" where
  "ProtoPortToString proto port = ToLower proto @ '':'' @ FormatInt port"

definition AppInternalPortToString :: "InstPort \<Rightarrow> string option" where
  "AppInternalPortToString port =
     (case LProtoStr (ip_Proto port) of None \<Rightarrow> None
      | Some lproto \<Rightarrow> Some (ProtoPortToString lproto (ip_InternalPort port)))"

definition ReservedPlatformPorts :: "(string, string) gomap" where
  "ReservedPlatformPorts =
     [(''tcp:22'', ''Platform inter-node SSH''), (''tcp:20800'', ''Kubernetes master join server''),
      (''udp:53'', ''dns udp''), (''tcp:53'', ''dns tcp'')]"

text \<open>The loop over the numbers of a range: the first reserved one, if any.\<close>

definition find_reserved :: "string \<Rightarrow> int \<Rightarrow> int \<Rightarrow> string option" where
  "find_reserved proto baseport lastPort =
     find (\<lambda>pstring. map_of ReservedPlatformPorts pstring \<noteq> None)
       (map (\<lambda>pnum. ToLower proto @ '':'' @ FormatInt pnum) [baseport..lastPort])"

definition to_inst_port :: "PortSpec \<Rightarrow> (port_error, InstPort) result" where
  "to_inst_port portSpec =
     (case GetLProto (ps_Proto portSpec) of
        Inl e \<Rightarrow> Err e
      | Inr proto \<Rightarrow>
          (case ParseInt 32 (ps_Port portSpec) of
             None \<Rightarrow> Err BadBasePort
           | Some baseport \<Rightarrow>
               (case ParseInt 32 (ps_EndPort portSpec) of
                  None \<Rightarrow> Err BadEndPort
                | Some endport \<Rightarrow>
                    (case find_reserved (ps_Proto portSpec) baseport (if endport = 0 then baseport else endport) of
                       Some pstring \<Rightarrow> Err (ReservedPort pstring)
                     | None \<Rightarrow>
                         Ok \<lparr>ip_Proto = proto, ip_InternalPort = baseport, ip_EndPort = endport,
                             ip_Tls = ps_Tls portSpec, ip_Nginx = ps_Nginx portSpec,
                             ip_MaxPktSize = ps_MaxPktSize portSpec,
                             ip_InternalVisOnly = ps_InternalVisOnly portSpec, ip_Id = ps_ID portSpec,
                             ip_PathPrefix = ps_PathPrefix portSpec, ip_ServiceName = ps_ServiceName portSpec\<rparr>))))"

fun to_inst_ports :: "PortSpec list \<Rightarrow> InstPort list \<Rightarrow> (port_error, InstPort list) result" where
  "to_inst_ports [] appports = Ok appports"
| "to_inst_ports (portSpec # rest) appports =
     (case to_inst_port portSpec of
        Inl e \<Rightarrow> Err e
      | Inr p \<Rightarrow> to_inst_ports rest (appports @ [p]))"

definition ParseAppPorts :: "string \<Rightarrow> (port_error, InstPort list) result" where
  "ParseAppPorts ports =
     (if ports = [] then Ok []
      else case ParsePorts ports of Inl e \<Rightarrow> Err e | Inr portSpecs \<Rightarrow> to_inst_ports portSpecs [])"

definition last_port :: "InstPort \<Rightarrow> int" where
  "last_port p = (if ip_EndPort p = 0 then ip_InternalPort p else ip_EndPort p)"

definition DoPortsOverlap :: "InstPort \<Rightarrow> InstPort \<Rightarrow> bool \<Rightarrow> bool" where
  "DoPortsOverlap a b skipHTTP =
     (if ip_Proto a = L_PROTO_HTTP \<and> skipHTTP then False
      else if ip_Proto b = L_PROTO_HTTP \<and> skipHTTP then False
      else
        let aProto = (if ip_Proto a = L_PROTO_HTTP then L_PROTO_TCP else ip_Proto a);
            bProto = (if ip_Proto b = L_PROTO_HTTP then L_PROTO_TCP else ip_Proto b)
        in \<not> (aProto \<noteq> bProto \<or> ip_InternalPort a > last_port b \<or> last_port a < ip_InternalPort b))"

subsection \<open>What the parser accepts\<close>

lemma ParseInt_FormatInt: "0 \<le> n \<Longrightarrow> n < 2 ^ 31 \<Longrightarrow> ParseInt 32 (FormatInt n) = Some n"
  using ParseInt_dec_str[of "nat n" 32] by (simp add: FormatInt_def nat_less_iff)

definition range_ok :: "int \<Rightarrow> int \<Rightarrow> bool" where
  "range_ok b e = (1 \<le> b \<and> b \<le> 65535 \<and> (e = 0 \<or> b < e \<and> e \<le> 65535))"

text \<open>The annotations a specification may carry, by protocol.\<close>

definition annots_ok :: "PortSpec \<Rightarrow> bool" where
  "annots_ok p =
     (ps_Proto p \<in> {''tcp'', ''udp'', ''http''}
      \<and> (ps_Tls p \<longrightarrow> ps_Proto p \<noteq> ''udp'') \<and> (ps_Nginx p \<longrightarrow> ps_Proto p = ''udp'')
      \<and> (ps_MaxPktSize p \<noteq> 0 \<longrightarrow> ps_Proto p = ''udp'' \<and> 1500 \<le> ps_MaxPktSize p \<and> ps_MaxPktSize p \<le> 50000)
      \<and> (ps_PathPrefix p \<noteq> [] \<longrightarrow> ps_Proto p = ''http''))"

definition spec_range :: "PortSpec \<Rightarrow> (int \<times> int) option" where
  "spec_range p =
     (case (ParseInt 32 (ps_Port p), ParseInt 32 (ps_EndPort p)) of (Some b, Some e) \<Rightarrow> Some (b, e) | _ \<Rightarrow> None)"

definition spec_ok :: "PortSpec \<Rightarrow> bool" where
  "spec_ok p = (annots_ok p \<and> (case spec_range p of None \<Rightarrow> False | Some (b, e) \<Rightarrow> range_ok b e))"

definition spec_count :: "PortSpec \<Rightarrow> int" where
  "spec_count p = (case spec_range p of None \<Rightarrow> 0 | Some (b, e) \<Rightarrow> if e = 0 then 1 else e - b + 1)"

lemma apply_annotation_ok:
  assumes "apply_annotation p k v = Inr q" "annots_ok p"
  shows "annots_ok q \<and> ps_Proto q = ps_Proto p \<and> ps_Port q = ps_Port p \<and> ps_EndPort q = ps_EndPort p"
proof -
  consider "k = ''tls''" | "k = ''nginx''" | "k = ''maxpktsize''" | "k = ''intvis''" | "k = ''id''"
    | "k = ''pathprefix''" | "k = ''svcname''"
    | "k \<noteq> ''tls'' \<and> k \<noteq> ''nginx'' \<and> k \<noteq> ''maxpktsize'' \<and> k \<noteq> ''intvis'' \<and> k \<noteq> ''id''
        \<and> k \<noteq> ''pathprefix'' \<and> k \<noteq> ''svcname''" by argo
  then show ?thesis
  proof cases
    case 1
    then have "ps_Proto p \<in> {''tcp'', ''http''}" "q = p\<lparr>ps_Tls := True\<rparr>"
      using assms(1) by (simp_all add: apply_annotation_def split: if_splits)
    then show ?thesis using assms(2) by (auto simp: annots_ok_def)
  next
    case 2
    then have "ps_Proto p = ''udp''" "q = p\<lparr>ps_Nginx := True\<rparr>"
      using assms(1) by (simp_all add: apply_annotation_def split: if_splits)
    then show ?thesis using assms(2) by (simp add: annots_ok_def)
  next
    case 3
    then obtain n where "ps_Proto p = ''udp''" "q = p\<lparr>ps_MaxPktSize := n\<rparr>" "1500 \<le> n" "n \<le> 50000"
      using assms(1) by (auto simp: apply_annotation_def minUDPPktSize_def maxUDPPktSize_def
          split: if_splits option.splits)
    then show ?thesis using assms(2) by (simp add: annots_ok_def)
  next
    case 6
    then have "ps_Proto p = ''http''" "q = p\<lparr>ps_PathPrefix := v\<rparr>"
      using assms(1) by (simp_all add: apply_annotation_def split: if_splits)
    then show ?thesis using assms(2) by (simp add: annots_ok_def)
  qed (use assms in \<open>auto simp: apply_annotation_def annots_ok_def\<close>)
qed

lemma apply_annotations_ok:
  assumes "apply_annotations as p = Inr q" "annots_ok p"
  shows "annots_ok q \<and> ps_Proto q = ps_Proto p \<and> ps_Port q = ps_Port p \<and> ps_EndPort q = ps_EndPort p"
  using assms
proof (induction as arbitrary: p)
  case (Cons a as)
  obtain k v where a: "a = (k, v)" by (cases a)
  obtain p' where p': "apply_annotation p k v = Inr p'" "apply_annotations as p' = Inr q"
    using Cons.prems(1) by (auto simp: a split: sum.splits)
  from apply_annotation_ok[OF p'(1) Cons.prems(2)] Cons.IH[OF p'(2)] show ?case by simp
qed simp

lemma parse_range_ok: "parse_range s = Inr (b, e) \<Longrightarrow> range_ok b e"
  by (auto simp: parse_range_def range_ok_def Let_def split: option.splits if_splits)

lemma spec_range_ok:
  assumes "range_ok b e" "ps_Port p = FormatInt b" "ps_EndPort p = FormatInt e"
  shows "spec_range p = Some (b, e)"
  using assms ParseInt_FormatInt[of b] ParseInt_FormatInt[of e] by (auto simp: spec_range_def range_ok_def)

lemma parse_port_ok:
  assumes "parse_port s = Inr (p, n)"
  shows "spec_ok p \<and> n = spec_count p"
proof -
  let ?pp = "Split CHR '':'' s"
  let ?spec = "\<lambda>b e. \<lparr>ps_Proto = ToLower (?pp ! 0), ps_Port = FormatInt b, ps_EndPort = FormatInt e,
     ps_Tls = False, ps_Nginx = False, ps_MaxPktSize = 0, ps_InternalVisOnly = False,
     ps_ID = [], ps_PathPrefix = [], ps_ServiceName = []\<rparr>"
  from assms obtain as b e where r: "parse_range (?pp ! 1) = Inr (b, e)"
    "ToLower (?pp ! 0) \<in> {''tcp'', ''udp'', ''http''}" "apply_annotations as (?spec b e) = Inr p"
    "n = (if e \<noteq> 0 then e - b + 1 else 1)"
    by (auto simp: parse_port_def Let_def split: sum.splits if_splits prod.splits)
  have "annots_ok (?spec b e)" using r(2) by (auto simp: annots_ok_def)
  from apply_annotations_ok[OF r(3) this]
  have p: "annots_ok p" "ps_Port p = FormatInt b" "ps_EndPort p = FormatInt e" by simp_all
  note ro = parse_range_ok[OF r(1)]
  from spec_range_ok[OF ro p(2,3)] p(1) ro r(4) show ?thesis by (simp add: spec_ok_def spec_count_def)
qed

definition count_ports :: "(PortSpec \<Rightarrow> bool) \<Rightarrow> PortSpec list \<Rightarrow> int" where
  "count_ports P ports = sum_list (map spec_count (filter P ports))"

lemma parse_entries_ok:
  assumes "parse_entries ss ports t u = Inr (qs, t', u')" "list_all spec_ok ports"
  shows "\<exists>new. qs = ports @ new \<and> list_all spec_ok new \<and> length new = length ss
    \<and> t' = t + count_ports (\<lambda>p. ps_Proto p = ''tcp'') new \<and> u' = u + count_ports (\<lambda>p. ps_Proto p \<noteq> ''tcp'') new"
  using assms
proof (induction ss arbitrary: ports t u)
  case Nil
  then show ?case by (simp add: count_ports_def)
next
  case (Cons s ss)
  obtain p n where p: "parse_port s = Inr (p, n)" using Cons.prems(1) by (auto split: sum.splits)
  note ok = parse_port_ok[OF p]
  have "parse_entries ss (ports @ [p]) (if ps_Proto p = ''tcp'' then t + n else t)
      (if ps_Proto p = ''tcp'' then u else u + n) = Inr (qs, t', u')"
    using Cons.prems(1) by (simp add: p split: if_splits)
  from Cons.IH[OF this] Cons.prems(2) ok obtain new where
    "qs = (ports @ [p]) @ new" "list_all spec_ok new" "length new = length ss"
    "t' = (if ps_Proto p = ''tcp'' then t + n else t) + count_ports (\<lambda>p. ps_Proto p = ''tcp'') new"
    "u' = (if ps_Proto p = ''tcp'' then u else u + n) + count_ports (\<lambda>p. ps_Proto p \<noteq> ''tcp'') new" by auto
  then show ?case using ok by (intro exI[of _ "p # new"]) (simp add: count_ports_def)
qed

lemma spec_nginx [simp]:
  "spec_range (p\<lparr>ps_Nginx := x\<rparr>) = spec_range p" "spec_count (p\<lparr>ps_Nginx := x\<rparr>) = spec_count p"
  by (simp_all add: spec_range_def spec_count_def)

lemma spec_ok_nginx: "spec_ok p \<Longrightarrow> ps_Proto p = ''udp'' \<Longrightarrow> spec_ok (p\<lparr>ps_Nginx := True\<rparr>)"
  by (simp add: spec_ok_def annots_ok_def)

lemma count_ports_nginx:
  assumes "\<And>p. Q (p\<lparr>ps_Nginx := True\<rparr>) = Q p"
  shows "count_ports Q (map (\<lambda>p. if ps_Proto p = ''udp'' then p\<lparr>ps_Nginx := True\<rparr> else p) ports) = count_ports Q ports"
  using assms by (induction ports) (auto simp: count_ports_def)

lemma ParsePorts_ok:
  assumes "ParsePorts s = Inr ps"
  shows "list_all spec_ok ps \<and> length ps = length (Split CHR '','' s)
    \<and> count_ports (\<lambda>p. ps_Proto p = ''tcp'') ps \<le> 1000 \<and> count_ports (\<lambda>p. ps_Proto p \<noteq> ''tcp'') ps \<le> 10000
    \<and> (count_ports (\<lambda>p. ps_Proto p \<noteq> ''tcp'') ps > 1000 \<longrightarrow> (\<forall>p \<in> set ps. ps_Proto p = ''udp'' \<longrightarrow> ps_Nginx p))"
proof -
  obtain qs t u where e: "parse_entries (Split CHR '','' s) [] 0 0 = Inr (qs, t, u)" "t \<le> 1000" "u \<le> 10000"
    and ps: "ps = (if u > 1000 then map (\<lambda>p. if ps_Proto p = ''udp'' then p\<lparr>ps_Nginx := True\<rparr> else p) qs else qs)"
    using assms by (auto simp: ParsePorts_def maxTcpPorts_def maxUdpPorts_def maxEnvoyUdpPorts_def
        split: sum.splits prod.splits if_splits)
  from parse_entries_ok[OF e(1)] have qs: "list_all spec_ok qs" "length qs = length (Split CHR '','' s)"
    "t = count_ports (\<lambda>p. ps_Proto p = ''tcp'') qs" "u = count_ports (\<lambda>p. ps_Proto p \<noteq> ''tcp'') qs" by auto
  show ?thesis
  proof (cases "u > 1000")
    case True
    then show ?thesis using qs e(2,3) spec_ok_nginx by (auto simp: ps count_ports_nginx list_all_iff)
  next
    case False
    then show ?thesis using qs e(2,3) by (simp add: ps)
  qed
qed

subsection \<open>Instance ports\<close>

definition port_numbers :: "InstPort \<Rightarrow> int set" where
  "port_numbers p = {ip_InternalPort p .. last_port p}"

definition reserved :: "string \<Rightarrow> int \<Rightarrow> bool" where
  "reserved proto n = (ProtoPortToString proto n \<in> set (keys ReservedPlatformPorts))"

definition inst_ok :: "InstPort \<Rightarrow> bool" where
  "inst_ok p =
     (range_ok (ip_InternalPort p) (ip_EndPort p) \<and>
      (case LProtoStr (ip_Proto p) of None \<Rightarrow> False
       | Some proto \<Rightarrow> \<forall>n \<in> port_numbers p. \<not> reserved proto n))"

lemma find_reserved_None:
  "find_reserved proto b l = None \<longleftrightarrow> (\<forall>n \<in> {b..l}. \<not> reserved proto n)"
proof -
  have "find_reserved proto b l = None \<longleftrightarrow>
      (\<forall>n \<in> {b..l}. map_of ReservedPlatformPorts (ProtoPortToString proto n) = None)"
    by (auto simp: find_reserved_def find_None_iff ProtoPortToString_def simp del: map_of_eq_None_keys)
  then show ?thesis by (simp only: reserved_def map_of_eq_None_keys)
qed

lemma proto_names:
  assumes "proto \<in> {''tcp'', ''udp'', ''http''}"
  obtains l where "GetLProto proto = Inr l" "LProtoStr l = Some proto" "ToLower proto = proto"
proof -
  have "GetLProto ''tcp'' = Inr L_PROTO_TCP" "GetLProto ''udp'' = Inr L_PROTO_UDP" "GetLProto ''http'' = Inr L_PROTO_HTTP"
    "ToLower ''tcp'' = ''tcp''" "ToLower ''udp'' = ''udp''" "ToLower ''http'' = ''http''" by code_simp+
  then show thesis using assms that by (auto elim!: insertE)
qed

lemma to_inst_port_result:
  assumes "spec_ok p"
  obtains (reserved) x where "to_inst_port p = Inl (ReservedPort x)"
  | (ok) q where "to_inst_port p = Inr q" "inst_ok q" "LProtoStr (ip_Proto q) = Some (ps_Proto p)"
      "spec_range p = Some (ip_InternalPort q, ip_EndPort q)"
proof -
  have "ps_Proto p \<in> {''tcp'', ''udp'', ''http''}" using assms by (simp add: spec_ok_def annots_ok_def)
  then obtain l where l: "GetLProto (ps_Proto p) = Inr l" "LProtoStr l = Some (ps_Proto p)" by (rule proto_names)
  obtain b e where r: "ParseInt 32 (ps_Port p) = Some b" "ParseInt 32 (ps_EndPort p) = Some e" "range_ok b e"
    "spec_range p = Some (b, e)"
    using assms by (auto simp: spec_ok_def spec_range_def split: option.splits)
  show thesis
  proof (cases "find_reserved (ps_Proto p) b (if e = 0 then b else e)")
    case (Some x)
    then show thesis using l r by (intro reserved) (simp add: to_inst_port_def)
  next
    case None
    let ?q = "\<lparr>ip_Proto = l, ip_InternalPort = b, ip_EndPort = e, ip_Tls = ps_Tls p, ip_Nginx = ps_Nginx p,
      ip_MaxPktSize = ps_MaxPktSize p, ip_InternalVisOnly = ps_InternalVisOnly p, ip_Id = ps_ID p,
      ip_PathPrefix = ps_PathPrefix p, ip_ServiceName = ps_ServiceName p\<rparr>"
    have "to_inst_port p = Inr ?q" using None l r by (simp add: to_inst_port_def)
    moreover have "inst_ok ?q" using None l r
      by (simp add: inst_ok_def port_numbers_def last_port_def find_reserved_None)
    ultimately show thesis using l(2) r(4) by (intro ok[of ?q]) simp_all
  qed
qed

lemma to_inst_ports_result:
  assumes "list_all spec_ok ps"
  shows "case to_inst_ports ps acc of
      Inl e \<Rightarrow> \<exists>x. e = ReservedPort x
    | Inr qs \<Rightarrow> \<exists>new. qs = acc @ new \<and> list_all2 (\<lambda>p q. inst_ok q \<and> LProtoStr (ip_Proto q) = Some (ps_Proto p)
        \<and> spec_range p = Some (ip_InternalPort q, ip_EndPort q)) ps new"
  using assms
proof (induction ps arbitrary: acc)
  case (Cons p ps)
  from Cons.prems have "spec_ok p" by simp
  then show ?case
  proof (cases rule: to_inst_port_result)
    case (ok q)
    show ?thesis
    proof (cases "to_inst_ports ps (acc @ [q])")
      case (Inr qs)
      then obtain new where new: "qs = (acc @ [q]) @ new"
        "list_all2 (\<lambda>p q. inst_ok q \<and> LProtoStr (ip_Proto q) = Some (ps_Proto p)
          \<and> spec_range p = Some (ip_InternalPort q, ip_EndPort q)) ps new"
        using Cons.IH[of "acc @ [q]"] Cons.prems by auto
      then show ?thesis using ok Inr by (simp add: exI[of _ "q # new"])
    qed (use ok Cons.IH[of "acc @ [q]"] Cons.prems in simp)
  qed simp
qed simp

lemma Split_ProtoPort:
  assumes "proto \<in> {''tcp'', ''udp'', ''http''}" "1 \<le> n"
  shows "Split CHR '','' (ProtoPortToString proto n) = [ProtoPortToString proto n]"
    and "Split CHR '':'' (ProtoPortToString proto n) = [proto, FormatInt n]"
    and "Split CHR ''-'' (FormatInt n) = [FormatInt n]"
proof -
  obtain l where l: "ToLower proto = proto" using assms(1) by (rule proto_names)
  have d: "list_all isASCIIDigit (FormatInt n)" using assms(2) dec_str_digits by (simp add: FormatInt_def)
  then have ds: "CHR '','' \<notin> set (FormatInt n)" "CHR '':'' \<notin> set (FormatInt n)" "CHR ''-'' \<notin> set (FormatInt n)"
    using digit_not by (auto simp: list_all_iff)
  have ps: "CHR '','' \<notin> set proto" "CHR '':'' \<notin> set proto" using assms(1) by auto
  have str: "ProtoPortToString proto n = proto @ CHR '':'' # FormatInt n" by (simp add: ProtoPortToString_def l)
  show "Split CHR '','' (ProtoPortToString proto n) = [ProtoPortToString proto n]"
    unfolding str using ds ps by (intro Split_no_sep) auto
  show "Split CHR '':'' (ProtoPortToString proto n) = [proto, FormatInt n]"
    unfolding str using Split_append_sep[OF ps(2)] Split_no_sep[OF ds(2)] by simp
  show "Split CHR ''-'' (FormatInt n) = [FormatInt n]" by (rule Split_no_sep[OF ds(3)])
qed

subsection \<open>Properties\<close>

text \<open>
  Whatever \<open>ParsePorts\<close> accepts is well-formed: one specification per comma-separated entry, each with a
  known protocol, a port range within 1 to 65535 that is either a single port (end 0) or properly
  ascending, and only the annotations allowed for its protocol, the UDP packet size within its bounds; at
  most 1000 TCP ports and 10000 others in total, and above 1000 of those every UDP entry is marked
  for nginx.
\<close>

theorem ParsePorts_sound:
  assumes "ParsePorts s = Inr ps"
  shows "list_all spec_ok ps \<and> length ps = length (Split CHR '','' s)
    \<and> count_ports (\<lambda>p. ps_Proto p = ''tcp'') ps \<le> 1000 \<and> count_ports (\<lambda>p. ps_Proto p \<noteq> ''tcp'') ps \<le> 10000
    \<and> (count_ports (\<lambda>p. ps_Proto p \<noteq> ''tcp'') ps > 1000 \<longrightarrow> (\<forall>p \<in> set ps. ps_Proto p = ''udp'' \<longrightarrow> ps_Nginx p))"
  using ParsePorts_ok[OF assms] .

theorem ParsePorts_sound_witness:
  "\<exists>ps. ParsePorts ''tcp:43:tls,UDP:50-59:nginx,http:80:pathprefix=/x'' = Inr ps \<and> list_all spec_ok ps"
proof -
  let ?s = "''tcp:43:tls,UDP:50-59:nginx,http:80:pathprefix=/x''"
  have "is_ok (ParsePorts ?s)" by code_simp
  then obtain ps where "ParsePorts ?s = Inr ps" by (rule is_okE)
  with ParsePorts_sound[OF this] show ?thesis by blast
qed

text \<open>
  \<open>ParseAppPorts\<close> adds exactly the check for reserved ports: for a non-empty string it fails only where
  \<open>ParsePorts\<close> fails or with a reserved port, and otherwise yields, in order, one instance port per specification
  with the same protocol and range, none of whose numbers is reserved for the platform.
\<close>

theorem ParseAppPorts_sound:
  assumes "s \<noteq> []"
  shows "case ParseAppPorts s of
      Inl e \<Rightarrow> ParsePorts s = Inl e \<or> is_ok (ParsePorts s) \<and> (\<exists>x. e = ReservedPort x)
    | Inr qs \<Rightarrow> \<exists>ps. ParsePorts s = Inr ps \<and>
        list_all2 (\<lambda>p q. inst_ok q \<and> LProtoStr (ip_Proto q) = Some (ps_Proto p)
          \<and> spec_range p = Some (ip_InternalPort q, ip_EndPort q)) ps qs"
proof (cases "ParsePorts s")
  case (Inl e)
  then show ?thesis using assms by (simp add: ParseAppPorts_def)
next
  case (Inr ps)
  have "list_all spec_ok ps" using ParsePorts_ok[OF Inr] by blast
  from to_inst_ports_result[OF this, of "[]"] show ?thesis
    using assms Inr by (auto simp: ParseAppPorts_def split: sum.splits)
qed

theorem ParseAppPorts_sound_witness:
  "\<exists>qs. ParseAppPorts ''tcp:80-90,udp:12'' = Inr qs \<and> list_all inst_ok qs"
proof -
  have "is_ok (ParseAppPorts ''tcp:80-90,udp:12'')" by code_simp
  then obtain qs where qs: "ParseAppPorts ''tcp:80-90,udp:12'' = Inr qs" by (rule is_okE)
  moreover have "list_all inst_ok qs"
    using ParseAppPorts_sound[of "''tcp:80-90,udp:12''"] qs
    by (auto simp: list_all2_conv_all_nth list_all_length)
  ultimately show ?thesis by blast
qed

text \<open>
  Printing a single port and parsing it back gives the same port: protocol, number and no end port, for
  every protocol and every port number that is not reserved.
\<close>

theorem AppInternalPort_roundtrip:
  assumes "AppInternalPortToString p = Some s" "1 \<le> ip_InternalPort p" "ip_InternalPort p \<le> 65535"
    and "\<And>proto. LProtoStr (ip_Proto p) = Some proto \<Longrightarrow> \<not> reserved proto (ip_InternalPort p)"
  shows "\<exists>q. ParseAppPorts s = Inr [q] \<and> ip_Proto q = ip_Proto p \<and> ip_InternalPort q = ip_InternalPort p \<and> ip_EndPort q = 0"
proof -
  let ?n = "ip_InternalPort p"
  obtain proto where pr: "LProtoStr (ip_Proto p) = Some proto" "s = ProtoPortToString proto ?n"
    using assms(1) by (auto simp: AppInternalPortToString_def split: option.splits)
  have mem: "proto \<in> {''tcp'', ''udp'', ''http''}" using pr(1) by (cases "ip_Proto p") auto
  then obtain l where l: "GetLProto proto = Inr l" "LProtoStr l = Some proto" "ToLower proto = proto"
    by (rule proto_names)
  have lp: "l = ip_Proto p" using l(2) pr(1) by (cases l; cases "ip_Proto p") auto
  have n: "ParseInt 32 (FormatInt ?n) = Some ?n" "ParseInt 32 (FormatInt 0) = Some 0"
    using assms(2,3) by (auto intro!: ParseInt_FormatInt)
  note sp = Split_ProtoPort[OF mem assms(2)]
  have "parse_range (FormatInt ?n) = Inr (?n, 0)"
    using n(1) sp(3) assms(2,3) by (simp add: parse_range_def)
  then have "\<exists>ps. parse_port s = Inr (ps, 1) \<and> ps_Proto ps = proto \<and> ps_Port ps = FormatInt ?n \<and> ps_EndPort ps = FormatInt 0"
    using sp(2) mem l(3) by (auto simp: parse_port_def pr(2))
  then obtain ps where ps: "parse_port s = Inr (ps, 1)" "ps_Proto ps = proto" "ps_Port ps = FormatInt ?n"
    "ps_EndPort ps = FormatInt 0" by blast
  have "parse_entries [s] [] 0 0 = Inr ([ps], if proto = ''tcp'' then (1, 0) else (0, 1))"
    using ps by simp
  moreover have "Split CHR '','' s = [s]" using sp(1) by (simp add: pr(2))
  ultimately have "ParsePorts s = Inr [ps]"
    by (simp add: ParsePorts_def maxTcpPorts_def maxUdpPorts_def maxEnvoyUdpPorts_def)
  moreover have "find_reserved proto ?n ?n = None"
    unfolding find_reserved_None using assms(4)[OF pr(1)] by simp
  moreover have "s \<noteq> []" by (simp add: pr(2) ProtoPortToString_def)
  ultimately show ?thesis
    using ps n l lp by (simp add: ParseAppPorts_def to_inst_port_def)
qed

theorem AppInternalPort_roundtrip_witness:
  "let p = \<lparr>ip_Proto = L_PROTO_UDP, ip_InternalPort = 70, ip_EndPort = 0, ip_Tls = False, ip_Nginx = False,
     ip_MaxPktSize = 0, ip_InternalVisOnly = False, ip_Id = [], ip_PathPrefix = [], ip_ServiceName = []\<rparr>
   in \<exists>q. ParseAppPorts ''udp:70'' = Inr [q] \<and> ip_InternalPort q = 70"
proof -
  let ?p = "\<lparr>ip_Proto = L_PROTO_UDP, ip_InternalPort = 70, ip_EndPort = 0, ip_Tls = False, ip_Nginx = False,
     ip_MaxPktSize = 0, ip_InternalVisOnly = False, ip_Id = [], ip_PathPrefix = [], ip_ServiceName = []\<rparr>"
  have "AppInternalPortToString ?p = Some ''udp:70''" by code_simp
  moreover have "\<not> reserved ''udp'' 70" by code_simp
  ultimately show ?thesis using AppInternalPort_roundtrip[of ?p "''udp:70''"] by auto
qed

definition transport :: "LProto \<Rightarrow> LProto" where
  "transport l = (if l = L_PROTO_HTTP then L_PROTO_TCP else l)"

text \<open>
  \<open>DoPortsOverlap\<close> decides whether two ports clash: for well-formed ranges it holds exactly when both use
  the same transport, HTTP counting as TCP, and some port number belongs to both; when HTTP goes through the
  ingress, ports with HTTP never clash. It does not depend on the order of the two.
\<close>

theorem DoPortsOverlap_iff:
  assumes "range_ok (ip_InternalPort a) (ip_EndPort a)" "range_ok (ip_InternalPort b) (ip_EndPort b)"
  shows "(DoPortsOverlap a b skip \<longleftrightarrow>
      \<not> (skip \<and> (IsHTTP a \<or> IsHTTP b)) \<and> transport (ip_Proto a) = transport (ip_Proto b)
      \<and> port_numbers a \<inter> port_numbers b \<noteq> {})
    \<and> DoPortsOverlap a b skip = DoPortsOverlap b a skip"
proof -
  have "ip_InternalPort a \<le> last_port a" "ip_InternalPort b \<le> last_port b"
    using assms by (auto simp: range_ok_def last_port_def)
  then have "port_numbers a \<inter> port_numbers b \<noteq> {} \<longleftrightarrow>
      ip_InternalPort a \<le> last_port b \<and> ip_InternalPort b \<le> last_port a"
    by (auto simp: port_numbers_def max_def)
  then show ?thesis by (auto simp: DoPortsOverlap_def IsHTTP_def transport_def Let_def)
qed

theorem DoPortsOverlap_iff_witness:
  "let p = \<lambda>l b e. \<lparr>ip_Proto = l, ip_InternalPort = b, ip_EndPort = e, ip_Tls = False, ip_Nginx = False,
     ip_MaxPktSize = 0, ip_InternalVisOnly = False, ip_Id = [], ip_PathPrefix = [], ip_ServiceName = []\<rparr>
   in DoPortsOverlap (p L_PROTO_TCP 8000 8100) (p L_PROTO_HTTP 8080 0) False"
  using DoPortsOverlap_iff[of "\<lparr>ip_Proto = L_PROTO_TCP, ip_InternalPort = 8000, ip_EndPort = 8100, ip_Tls = False,
      ip_Nginx = False, ip_MaxPktSize = 0, ip_InternalVisOnly = False, ip_Id = [], ip_PathPrefix = [], ip_ServiceName = []\<rparr>"
    "\<lparr>ip_Proto = L_PROTO_HTTP, ip_InternalPort = 8080, ip_EndPort = 0, ip_Tls = False, ip_Nginx = False,
      ip_MaxPktSize = 0, ip_InternalVisOnly = False, ip_Id = [], ip_PathPrefix = [], ip_ServiceName = []\<rparr>" False]
  by (simp add: range_ok_def transport_def port_numbers_def last_port_def Let_def)

end
