(* ===== verification/Names.thy ===== *)
theory Names
  imports Prelude
begin

text \<open>
  Names and strings of \<^verbatim>\<open>pkg/util\<close>: the validators and sanitizers of \<^verbatim>\<open>validate.go\<close>, the LDAP names of
  \<^verbatim>\<open>ldapname.go\<close>, and the string helpers of \<^verbatim>\<open>strings.go\<close> and \<^verbatim>\<open>maps.go\<close>. The regular expressions are
  written as character classes on a first character and the rest. Go ranges over runes and these
  functions truncate them to bytes, so the model is for ASCII strings, where the two agree. Functions that
  call URL, time, JSON or shell-quoting packages are left out.
\<close>

subsection \<open>Character classes and validators\<close>

definition alnum :: "char \<Rightarrow> bool" where
  "alnum c = (isASCIIDigit c \<or> isASCIILower c \<or> isASCIIUpper c)"

definition first_rest :: "(char \<Rightarrow> bool) \<Rightarrow> (char \<Rightarrow> bool) \<Rightarrow> string \<Rightarrow> bool" where
  "first_rest f r s = (case s of [] \<Rightarrow> False | c # cs \<Rightarrow> f c \<and> list_all r cs)"

definition ValidName :: "string \<Rightarrow> bool" where
  "ValidName = first_rest alnum (\<lambda>c. alnum c \<or> c \<in> set ''-_ .&,!'')"

definition ValidKubernetesName :: "string \<Rightarrow> bool" where
  "ValidKubernetesName = first_rest alnum (\<lambda>c. alnum c \<or> c \<in> set ''-.'')"

definition ValidDockerName :: "string \<Rightarrow> bool" where
  "ValidDockerName s = (first_rest alnum (\<lambda>c. alnum c \<or> c \<in> set ''_.-'') s \<and> length s \<ge> 2)"

definition ValidRegion :: "string \<Rightarrow> bool" where
  "ValidRegion s = (s \<noteq> [] \<and> list_all (\<lambda>c. alnum c \<or> c = CHR ''_'') s)"

definition ValidCliArg :: "string \<Rightarrow> bool" where
  "ValidCliArg = first_rest (\<lambda>c. isASCIIDigit c \<or> isASCIILower c)
     (\<lambda>c. isASCIIDigit c \<or> isASCIILower c \<or> c \<in> set ''.#:'')"

definition ValidateImageVersion :: "string \<Rightarrow> bool" where
  "ValidateImageVersion = first_rest alnum (\<lambda>c. alnum c \<or> c \<in> set ''-._'')"

text \<open>\<open>ValidateNames\<close> reports the first key, in iteration order, whose value is set and invalid.\<close>

definition ValidateNames :: "(string, string) gomap \<Rightarrow> string option" where
  "ValidateNames names = map_option fst (find (\<lambda>(k, v). v \<noteq> [] \<and> \<not> ValidName v) names)"

definition ValidIp :: "'b list \<Rightarrow> bool" where
  "ValidIp ip = (if length ip \<noteq> 4 \<and> length ip \<noteq> 16 then False else True)"

datatype name_error =
    NameEmpty | NameSpaces | NameFormat | ObjNameChars | DnsTooLong | DnsUpperCase | DnsDashAtEnd | DnsBadChar char
  | StoragePathInvalid | BadContainerName | BadPodName | BadNamespaceName | BadContainerFormat

definition ValidLDAPName :: "string \<Rightarrow> name_error option" where
  "ValidLDAPName name =
     (if name = [] then Some NameEmpty
      else if name ! 0 = CHR '' '' \<or> name ! (length name - 1) = CHR '' '' then Some NameSpaces
      else if \<not> list_all (\<lambda>c. alnum c \<or> c \<in> set ''-_ .&,!'') name then Some NameFormat
      else None)"

definition ValidObjName :: "string \<Rightarrow> name_error option" where
  "ValidObjName name =
     (if \<not> list_all (\<lambda>c. alnum c \<or> c \<in> set ''_-.'') name then Some ObjNameChars else ValidLDAPName name)"

definition ValidStoragePath :: "string \<Rightarrow> name_error option" where
  "ValidStoragePath path =
     (if \<not> ValidName path then Some StoragePathInvalid
      else if path = ''.'' \<or> path = ''..'' then Some StoragePathInvalid
      else if Contains path ''/'' then Some StoragePathInvalid
      else None)"

definition ValidK8SContainerName :: "string \<Rightarrow> name_error option" where
  "ValidK8SContainerName name =
     (let parts = Split CHR ''/'' name
      in if length parts = 1 then (if \<not> ValidKubernetesName name then Some BadContainerName else None)
         else if length parts = 2 then
           (if \<not> ValidKubernetesName (parts ! 0) then Some BadPodName
            else if \<not> ValidKubernetesName (parts ! 1) then Some BadContainerName else None)
         else if length parts = 3 then
           (if \<not> ValidKubernetesName (parts ! 0) then Some BadNamespaceName
            else if \<not> ValidKubernetesName (parts ! 1) then Some BadPodName
            else if \<not> ValidKubernetesName (parts ! 2) then Some BadContainerName else None)
         else Some BadContainerFormat)"

subsection \<open>Sanitizers\<close>

text \<open>\<^verbatim>\<open>strings.NewReplacer\<close> with one-byte patterns replaces every byte on its own.\<close>

definition replace_chars :: "(char \<times> string) list \<Rightarrow> string \<Rightarrow> string" where
  "replace_chars tbl s = concat (map (\<lambda>c. case map_of tbl c of None \<Rightarrow> [c] | Some r \<Rightarrow> r) s)"

definition DockerSanitize :: "string \<Rightarrow> string" where
  "DockerSanitize = replace_chars [(CHR '' '', []), (CHR ''&'', ''-''), (CHR '','', []), (CHR ''!'', ''.'')]"

text \<open>The loop of \<open>DNSSanitize\<close>; a dash or underscore is dropped only at the first and last index of the input.\<close>

fun dns_loop :: "nat \<Rightarrow> nat \<Rightarrow> string \<Rightarrow> string" where
  "dns_loop ii n [] = []"
| "dns_loop ii n (ch # rest) =
     (if isASCIILower ch \<or> isASCIIDigit ch then ch # dns_loop (ii + 1) n rest
      else if isASCIIUpper ch then lower_char ch # dns_loop (ii + 1) n rest
      else if ch = CHR ''-'' \<or> ch = CHR ''_'' then
        if ii = 0 \<or> ii + 1 = n then dns_loop (ii + 1) n rest
        else CHR ''-'' # dns_loop (ii + 1) n rest
      else dns_loop (ii + 1) n rest)"

definition DNSSanitize :: "string \<Rightarrow> string" where
  "DNSSanitize name = dns_loop 0 (length name) name"

fun dns_check :: "nat \<Rightarrow> nat \<Rightarrow> string \<Rightarrow> name_error option" where
  "dns_check ii n [] = None"
| "dns_check ii n (ch # rest) =
     (if isASCIILower ch \<or> isASCIIDigit ch then dns_check (ii + 1) n rest
      else if isASCIIUpper ch then Some DnsUpperCase
      else if ch = CHR ''-'' then
        if ii = 0 \<or> ii + 1 = n then Some DnsDashAtEnd else dns_check (ii + 1) n rest
      else Some (DnsBadChar ch))"

definition ValidDNSName :: "string \<Rightarrow> name_error option" where
  "ValidDNSName name = (if length name > 63 then Some DnsTooLong else dns_check 0 (length name) name)"

definition maxHostnameLength :: nat where "maxHostnameLength = 63"
definition maxK8sNamespaceLength :: nat where "maxK8sNamespaceLength = 63"

definition HostnameSanitize :: "string \<Rightarrow> string" where
  "HostnameSanitize name =
     (let r = DNSSanitize name;
          r = (if length r > maxHostnameLength then take maxHostnameLength r else r)
      in TrimRight ''-'' r)"

definition NamespaceSanitize :: "string \<Rightarrow> string" where
  "NamespaceSanitize name =
     (let r = DNSSanitize name;
          r = (if length r > maxK8sNamespaceLength then take maxK8sNamespaceLength r else r)
      in TrimRight ''-'' r)"

definition K8SSanitize :: "string \<Rightarrow> string" where
  "K8SSanitize name =
     ToLower (replace_chars [(CHR ''_'', ''-''), (CHR '' '', []), (CHR ''&'', []), (CHR '','', []), (CHR ''!'', [])] name)"

definition isLetter :: "char \<Rightarrow> bool" where
  "isLetter c = (isASCIILower c \<or> isASCIIUpper c)"

definition K8SServiceSanitize :: "string \<Rightarrow> string" where
  "K8SServiceSanitize name =
     (let str = DNSSanitize name
      in if str = [] then str
         else if \<not> isLetter (str ! 0) then CHR ''a'' # str else str)"

fun label_loop :: "string \<Rightarrow> string \<Rightarrow> string" where
  "label_loop s [] = s"
| "label_loop s (c # rest) =
     (if length s = 63 then s
      else if (length s = 0 \<or> length s = 62) \<and> \<not> isASCIILower c \<and> \<not> isASCIIUpper c \<and> \<not> isASCIIDigit c
        then label_loop s rest
      else if isASCIILower c \<or> isASCIIUpper c \<or> isASCIIDigit c \<or> c = CHR ''-'' \<or> c = CHR ''_'' \<or> c = CHR ''.''
        then label_loop (s @ [c]) rest
      else label_loop s rest)"

definition K8SLabelValueSanitize :: "string \<Rightarrow> string" where
  "K8SLabelValueSanitize label = TrimRight ''._-'' (label_loop [] label)"

definition HeatSanitize :: "string \<Rightarrow> string" where
  "HeatSanitize name =
     (let str = replace_chars [(CHR '' '', []), (CHR ''&'', []), (CHR '','', []), (CHR ''!'', [])] name
      in if str = [] then str
         else let str = (if \<not> isLetter (str ! 0) then CHR ''a'' # str else str)
              in if length str > 255 then take 254 str else str)"

definition EscapeLDAPName :: "string \<Rightarrow> string" where
  "EscapeLDAPName = replace_chars [(CHR '','', [CHR 0x5C, CHR ''2'', CHR ''c''])]"

text \<open>Replacing the three bytes of the escape, left to right without overlap.\<close>

fun UnescapeLDAPName :: "string \<Rightarrow> string" where
  "UnescapeLDAPName (a # b # c # rest) =
     (if a = CHR 0x5C \<and> b = CHR ''2'' \<and> c = CHR ''c'' then CHR '','' # UnescapeLDAPName rest
      else a # UnescapeLDAPName (b # c # rest))"
| "UnescapeLDAPName s = s"

subsection \<open>String helpers\<close>

text \<open>
  \<open>CamelCase\<close>: after a character that starts a word, a run of upper case is lowered up to the one that starts the
  next word, then lower case is taken as it is.
\<close>

fun camel_upper :: "string \<Rightarrow> string \<times> string" where
  "camel_upper (c # rest) =
     (if \<not> isASCIIUpper c then ([], c # rest)
      else if (case rest of d # _ \<Rightarrow> isASCIILower d | [] \<Rightarrow> False) then ([], c # rest)
      else let (out, r) = camel_upper rest in (lower_char c # out, r))"
| "camel_upper [] = ([], [])"

lemma camel_upper_length: "length (snd (camel_upper s)) \<le> length s"
proof (induction s)
  case (Cons c s)
  obtain o' r where e: "camel_upper s = (o', r)" by fastforce
  have "length r \<le> length s" using Cons.IH e by simp
  then show ?case by (simp add: e)
qed simp

function CamelCase :: "string \<Rightarrow> string" where
  "CamelCase [] = []"
| "CamelCase (c # s) =
     (if c = CHR ''_'' then CamelCase s
      else if isASCIIDigit c then c # CamelCase s
      else let (out, r) = camel_upper s
           in upper_char c # out @ takeWhile isASCIILower r @ CamelCase (dropWhile isASCIILower r))"
  by pat_completeness auto

termination
proof (relation "measure length")
  fix c s x out r
  assume "x = camel_upper s" "(out, r) = x"
  then have "length r \<le> length s" using camel_upper_length[of s] by (metis snd_conv)
  then have "length (dropWhile isASCIILower r) \<le> length s" using length_dropWhile_le order_trans by blast
  then show "(dropWhile isASCIILower r, c # s) \<in> measure length" by simp
qed simp_all

definition EscapeJson :: "string \<Rightarrow> string" where
  "EscapeJson = replace_chars [(CHR ''{'', [CHR 0x5C, CHR ''{'']), (CHR ''}'', [CHR 0x5C, CHR ''}''])]"

definition CapitalizeMessage :: "string \<Rightarrow> string" where
  "CapitalizeMessage msg =
     (case msg of [] \<Rightarrow> msg | c # t \<Rightarrow> if \<not> isASCIILower c then msg else upper_char c # t)"

text \<open>\<open>UncapitalizeMessage\<close> indexes the first byte without a check: \<open>None\<close> is the panic on an empty message.\<close>

definition UncapitalizeMessage :: "string \<Rightarrow> string option" where
  "UncapitalizeMessage msg =
     (case msg of [] \<Rightarrow> None | c # t \<Rightarrow> Some (if \<not> isASCIIUpper c then msg else lower_char c # t))"

text \<open>The loop of \<open>SplitCamelCase\<close>: \<open>cur\<close> is \<^verbatim>\<open>name[startIndex:ii]\<close>.\<close>

fun split_camel :: "string \<Rightarrow> string \<Rightarrow> string list" where
  "split_camel cur [] = [cur]"
| "split_camel cur (c # rest) =
     (if isASCIIUpper c then cur # split_camel [c] rest else split_camel (cur @ [c]) rest)"

definition SplitCamelCase :: "string \<Rightarrow> string list" where
  "SplitCamelCase name = (case name of [] \<Rightarrow> [] | c # rest \<Rightarrow> split_camel [c] rest)"

definition UnCamelCase :: "string \<Rightarrow> string" where
  "UnCamelCase name = Join ''_'' (map ToLower (SplitCamelCase name))"

definition clear_pair :: "string list \<Rightarrow> string \<Rightarrow> string" where
  "clear_pair fields pair =
     (case SplitN2 CHR ''='' pair of
        [k, v] \<Rightarrow> if k \<in> set fields then k @ ''=***'' else pair
      | _ \<Rightarrow> pair)"

definition FormClear :: "string list \<Rightarrow> string \<Rightarrow> string" where
  "FormClear fields data =
     (let body = Split CHR ''&'' data;
          updated = list_ex (\<lambda>pair. case SplitN2 CHR ''='' pair of [k, v] \<Rightarrow> k \<in> set fields | _ \<Rightarrow> False) body
      in if updated then Join ''&'' (map (clear_pair fields) body) else data)"

definition StringSliceEqual :: "string list option \<Rightarrow> string list option \<Rightarrow> bool" where
  "StringSliceEqual a b =
     (if a = None \<and> b = None then True
      else case (a, b) of
        (Some xs, Some ys) \<Rightarrow>
          if length xs \<noteq> length ys then False else list_all (\<lambda>(x, y). x = y) (zip xs ys)
      | _ \<Rightarrow> False)"

definition StringSliceCopy :: "string list option \<Rightarrow> string list option" where
  "StringSliceCopy a = a"

text \<open>The backward loops over the base name; the argument is the reversed part still to be visited.\<close>

fun remove_ext :: "string \<Rightarrow> string \<Rightarrow> bool \<Rightarrow> string" where
  "remove_ext path [] hasDot = path"
| "remove_ext path (c # rs) hasDot =
     (if c = CHR ''/'' then path
      else if c = CHR ''.'' then remove_ext path rs True
      else if \<not> hasDot then remove_ext path rs hasDot
      else rev (c # rs))"

definition RemoveExtension :: "string \<Rightarrow> string" where
  "RemoveExtension path = remove_ext path (rev path) False"

fun scan_ext :: "string \<Rightarrow> nat option \<Rightarrow> nat \<Rightarrow> nat \<Rightarrow> nat option \<times> nat \<times> nat" where
  "scan_ext [] lastDot extLen fileNameLen = (lastDot, extLen, fileNameLen)"
| "scan_ext (c # rs) lastDot extLen fileNameLen =
     (if c = CHR ''/'' then (lastDot, extLen, fileNameLen)
      else if c = CHR ''.'' then scan_ext rs (if lastDot = None then Some (length rs) else lastDot) extLen fileNameLen
      else if lastDot = None then scan_ext rs lastDot (extLen + 1) fileNameLen
      else scan_ext rs lastDot extLen (fileNameLen + 1))"

definition SetExtension :: "string \<Rightarrow> string \<Rightarrow> string" where
  "SetExtension path extension =
     (if length path = 0 \<or> length extension = 0 then path
      else
        let extension = (if extension ! 0 \<noteq> CHR ''.'' then CHR ''.'' # extension else extension)
        in case scan_ext (rev path) None 0 0 of
             (None, extLen, _) \<Rightarrow> if extLen > 0 then path @ extension else path
           | (Some lastDot, extLen, fileNameLen) \<Rightarrow>
               if fileNameLen = 0 \<and> extLen = 0 then path else take lastDot path @ extension)"

definition CopyStringMap :: "(string, string) gomap \<Rightarrow> (string, string) gomap" where
  "CopyStringMap srcM = fold (\<lambda>(k, v) m. AList.update k v m) srcM []"

definition AddMaps :: "(string, string) gomap list \<Rightarrow> (string, string) gomap" where
  "AddMaps maps = fold (\<lambda>m merged. fold (\<lambda>(k, v) merged. AList.update k v merged) m merged) maps []"

definition MapsEqual :: "(string, string) gomap \<Rightarrow> (string, string) gomap \<Rightarrow> bool" where
  "MapsEqual a b =
     (if length a \<noteq> length b then False
      else list_all (\<lambda>(k, v). map_of b k = Some v) a)"

definition AddStringSliceUniques :: "string list \<Rightarrow> string list \<Rightarrow> string list" where
  "AddStringSliceUniques ss add = ss @ filter (\<lambda>v. v \<notin> set ss) add"

definition RemoveStringSliceUniques :: "string list \<Rightarrow> string list \<Rightarrow> string list" where
  "RemoveStringSliceUniques ss rm = filter (\<lambda>v. v \<notin> set rm) ss"

subsection \<open>Lemmas\<close>

definition dns_char :: "char \<Rightarrow> bool" where
  "dns_char c = (isASCIILower c \<or> isASCIIDigit c \<or> c = CHR ''-'')"

lemma class_simps [simp]:
  "\<not> isASCIILower CHR ''-''" "\<not> isASCIIDigit CHR ''-''" "\<not> isASCIIUpper CHR ''-''"
  "isASCIILower c \<Longrightarrow> \<not> isASCIIUpper c" "isASCIIDigit c \<Longrightarrow> \<not> isASCIIUpper c"
  by (auto simp: isASCIILower_def isASCIIDigit_def isASCIIUpper_def less_eq_char_def)

lemma lower_char_lower: "isASCIIUpper c \<Longrightarrow> isASCIILower (lower_char c)"
  by (auto simp: lower_char_def isASCIILower_def isASCIIUpper_def less_eq_char_def of_char_of take_bit_eq_mod)

lemma dns_loop_chars: "list_all dns_char (dns_loop ii n s)"
  by (induction ii n s rule: dns_loop.induct) (auto simp: dns_char_def lower_char_lower)

lemma dns_check_iff:
  "dns_check ii n s = None \<longleftrightarrow>
     (\<forall>j < length s. dns_char (s ! j) \<and> (s ! j = CHR ''-'' \<longrightarrow> ii + j \<noteq> 0 \<and> ii + j + 1 \<noteq> n))"
proof (induction ii n s rule: dns_check.induct)
  case (2 ii n ch rest)
  consider "isASCIILower ch \<or> isASCIIDigit ch" | "isASCIIUpper ch" | "ch = CHR ''-''"
    | "\<not> isASCIILower ch" "\<not> isASCIIDigit ch" "\<not> isASCIIUpper ch" "ch \<noteq> CHR ''-''" by blast
  then show ?case
  proof cases
    case 1
    then have "ch \<noteq> CHR ''-''" by auto
    then show ?thesis using 1 "2.IH"(1) by (simp add: dns_char_def All_less_Suc2)
  next
    case 2
    then have "\<not> dns_char ch" by (auto simp: dns_char_def)
    then show ?thesis using 2 by (auto simp: All_less_Suc2)
  next
    case 3
    then show ?thesis using "2.IH"(2) by (simp add: dns_char_def All_less_Suc2)
  next
    case 4
    then show ?thesis by (simp add: dns_char_def All_less_Suc2)
  qed
qed simp

lemma dns_check_idem: "dns_check ii n s = None \<Longrightarrow> dns_loop ii n s = s"
  by (induction ii n s rule: dns_check.induct) (auto split: if_splits)

lemma ValidDNSNameI:
  assumes "list_all dns_char s" "length s \<le> 63" "s = [] \<or> hd s \<noteq> CHR ''-'' \<and> last s \<noteq> CHR ''-''"
  shows "ValidDNSName s = None"
proof -
  have "s ! j = CHR ''-'' \<longrightarrow> j \<noteq> 0 \<and> j + 1 \<noteq> length s" if "j < length s" for j
  proof -
    have ne: "s \<noteq> []" using that by auto
    have "s ! 0 \<noteq> CHR ''-''" "s ! (length s - 1) \<noteq> CHR ''-''"
      using assms(3) ne by (simp_all add: hd_conv_nth[OF ne] last_conv_nth[OF ne])
    then show ?thesis by (metis add_diff_cancel_right')
  qed
  then show ?thesis using assms(1,2) by (auto simp: ValidDNSName_def dns_check_iff list_all_length)
qed

lemma ValidDNSName_ends:
  assumes "ValidDNSName s = None" "s \<noteq> []"
  shows "last s \<noteq> CHR ''-''" "length s \<le> 63"
proof -
  show "length s \<le> 63" using assms by (auto simp: ValidDNSName_def split: if_splits)
  have "\<forall>j < length s. s ! j = CHR ''-'' \<longrightarrow> j + 1 \<noteq> length s"
    using assms(1) by (auto simp: ValidDNSName_def dns_check_iff split: if_splits)
  from spec[OF this, of "length s - 1"] show "last s \<noteq> CHR ''-''" using assms(2) by (auto simp: last_conv_nth)
qed

lemma TrimRight_id: "s = [] \<or> last s \<notin> set cs \<Longrightarrow> TrimRight cs s = s"
  by (cases s rule: rev_cases) (auto simp: TrimRight_def)

lemma TrimRight_hd: "s \<noteq> [] \<Longrightarrow> hd s \<notin> set cs \<Longrightarrow> TrimRight cs s \<noteq> [] \<and> hd (TrimRight cs s) = hd s"
proof (induction s rule: rev_induct)
  case (snoc x s)
  then show ?case by (cases "s = []") (auto simp: TrimRight_def)
qed simp

lemma list_all_TrimRight: "list_all P s \<Longrightarrow> list_all P (TrimRight cs s)"
  using set_mono_prefix[OF TrimRight_prefix[of cs s]] by (auto simp: list_all_iff)

lemma DNSSanitize_hd:
  assumes "ValidName name"
  shows "DNSSanitize name \<noteq> []" "hd (DNSSanitize name) \<noteq> CHR ''-''"
proof -
  obtain c s where n: "name = c # s" "alnum c" using assms by (cases name) (auto simp: ValidName_def first_rest_def)
  have "\<exists>d r. DNSSanitize name = d # r \<and> d \<noteq> CHR ''-''"
  proof (cases "isASCIIUpper c")
    case True
    then have "\<not> (isASCIILower c \<or> isASCIIDigit c)" by auto
    moreover have "lower_char c \<noteq> CHR ''-''" using lower_char_lower[OF True] by auto
    ultimately show ?thesis using True by (simp add: n DNSSanitize_def)
  next
    case False
    then have "isASCIILower c \<or> isASCIIDigit c" using n(2) by (auto simp: alnum_def)
    then show ?thesis by (auto simp: n DNSSanitize_def)
  qed
  then show "DNSSanitize name \<noteq> []" "hd (DNSSanitize name) \<noteq> CHR ''-''" by auto
qed

lemma HostnameSanitize_alt: "HostnameSanitize name = TrimRight ''-'' (take 63 (DNSSanitize name))"
  by (simp add: HostnameSanitize_def maxHostnameLength_def Let_def)

lemma NamespaceSanitize_alt: "NamespaceSanitize name = HostnameSanitize name"
  unfolding NamespaceSanitize_def HostnameSanitize_def maxHostnameLength_def maxK8sNamespaceLength_def ..

lemma Split_Join:
  assumes "ps \<noteq> []" "\<And>p. p \<in> set ps \<Longrightarrow> c \<notin> set p"
  shows "Split c (Join [c] ps) = ps"
  using assms
proof (induction "[c]" ps rule: Join.induct)
  case (3 s t ss)
  then show ?case by (simp add: Split_append_sep)
qed (auto simp: Split_no_sep)

lemma SplitN2_shape: "SplitN2 c s = [s] \<and> c \<notin> set s \<or> (\<exists>k v. SplitN2 c s = [k, v] \<and> s = k @ c # v \<and> c \<notin> set k)"
proof (cases "c \<in> set s")
  case True
  then obtain k v where s: "s = k @ c # v" "c \<notin> set k" by (metis split_list_first)
  have "takeWhile (\<lambda>x. x \<noteq> c) s = k" "dropWhile (\<lambda>x. x \<noteq> c) s = c # v"
    using s(2) by (auto simp: s(1) takeWhile_append dropWhile_append takeWhile_eq_all_conv dropWhile_eq_Nil_conv)
  then show ?thesis using True s by (simp add: SplitN2_def)
qed (simp add: SplitN2_def)

lemma label_loop_ok:
  assumes "length s \<le> 63" "s = [] \<or> alnum (hd s)" "list_all (\<lambda>c. alnum c \<or> c \<in> set ''._-'') s"
  shows "length (label_loop s xs) \<le> 63 \<and> (label_loop s xs = [] \<or> alnum (hd (label_loop s xs)))
    \<and> list_all (\<lambda>c. alnum c \<or> c \<in> set ''._-'') (label_loop s xs)"
  using assms
proof (induction s xs rule: label_loop.induct)
  case (2 s c rest)
  consider "length s = 63" | "length s \<noteq> 63" "label_loop s (c # rest) = label_loop s rest"
      "(length s = 0 \<or> length s = 62) \<and> \<not> isASCIILower c \<and> \<not> isASCIIUpper c \<and> \<not> isASCIIDigit c"
    | "length s \<noteq> 63" "\<not> ((length s = 0 \<or> length s = 62) \<and> \<not> isASCIILower c \<and> \<not> isASCIIUpper c \<and> \<not> isASCIIDigit c)"
      "alnum c \<or> c \<in> set ''._-''"
    | "length s \<noteq> 63" "\<not> ((length s = 0 \<or> length s = 62) \<and> \<not> isASCIILower c \<and> \<not> isASCIIUpper c \<and> \<not> isASCIIDigit c)"
      "\<not> (alnum c \<or> c \<in> set ''._-'')"
    by fastforce
  then show ?case
  proof cases
    case 3
    have h: "s @ [c] = [] \<or> alnum (hd (s @ [c]))" using 3 "2.prems"(2) by (cases s) (auto simp: alnum_def)
    have l: "length (s @ [c]) \<le> 63" using 3(1) "2.prems"(1) by simp
    have a: "list_all (\<lambda>c. alnum c \<or> c \<in> set ''._-'') (s @ [c])" using 3(3) "2.prems"(3) by simp
    have c': "isASCIILower c \<or> isASCIIUpper c \<or> isASCIIDigit c \<or> c = CHR ''-'' \<or> c = CHR ''_'' \<or> c = CHR ''.''"
      using 3(3) by (auto simp: alnum_def)
    then have e: "label_loop s (c # rest) = label_loop (s @ [c]) rest"
      unfolding label_loop.simps(2) if_not_P[OF 3(1)] if_not_P[OF 3(2)] by (rule if_P)
    show ?thesis unfolding e by (rule "2.IH"(2)[OF 3(1,2) c' l h a])
  next
    case 4
    then have c': "\<not> (isASCIILower c \<or> isASCIIUpper c \<or> isASCIIDigit c \<or> c = CHR ''-'' \<or> c = CHR ''_'' \<or> c = CHR ''.'')"
      by (auto simp: alnum_def)
    then have e: "label_loop s (c # rest) = label_loop s rest"
      unfolding label_loop.simps(2) if_not_P[OF 4(1)] if_not_P[OF 4(2)] by (rule if_not_P)
    show ?thesis unfolding e by (rule "2.IH"(3)[OF 4(1,2) c' "2.prems"])
  next
    case 2
    show ?thesis unfolding 2(2) by (rule "2.IH"(1)[OF 2(1,3) "2.prems"])
  qed (use "2.prems" in simp)
qed simp

subsection \<open>Properties\<close>

text \<open>
  Host and namespace names are valid: from every valid object name, \<open>HostnameSanitize\<close> and \<open>NamespaceSanitize\<close>
  make a non-empty name that \<open>ValidDNSName\<close> accepts, with at most 63 lower case letters, digits and inner dashes;
  and names that are already valid are left as they are.
\<close>

theorem HostnameSanitize_valid:
  assumes "ValidName name" "ValidDNSName host = None"
  shows "HostnameSanitize name \<noteq> [] \<and> ValidDNSName (HostnameSanitize name) = None
    \<and> NamespaceSanitize name = HostnameSanitize name
    \<and> DNSSanitize host = host \<and> HostnameSanitize host = host"
proof -
  let ?t = "take 63 (DNSSanitize name)"
  have d: "list_all dns_char (DNSSanitize name)" by (simp add: DNSSanitize_def dns_loop_chars)
  have t: "?t \<noteq> []" "hd ?t \<noteq> CHR ''-''" using DNSSanitize_hd[OF assms(1)] by auto
  have "list_all dns_char ?t" using d by (auto simp: list_all_iff dest: in_set_takeD)
  then have 1: "list_all dns_char (HostnameSanitize name)" by (simp add: HostnameSanitize_alt list_all_TrimRight)
  have 2: "HostnameSanitize name \<noteq> []" "hd (HostnameSanitize name) \<noteq> CHR ''-''"
    using TrimRight_hd[OF t(1), of "''-''"] t(2) by (auto simp: HostnameSanitize_alt)
  have 3: "last (HostnameSanitize name) \<noteq> CHR ''-''"
    using TrimRight_last[of "''-''" ?t] 2(1) by (simp add: HostnameSanitize_alt)
  have 4: "length (HostnameSanitize name) \<le> 63"
    using prefix_length_le[OF TrimRight_prefix[of "''-''" ?t]] by (simp add: HostnameSanitize_alt)
  have h: "DNSSanitize host = host"
    using assms(2) by (auto simp: DNSSanitize_def ValidDNSName_def dns_check_idem split: if_splits)
  have "HostnameSanitize host = host"
  proof (cases "host = []")
    case False
    from ValidDNSName_ends[OF assms(2) this] show ?thesis by (simp add: HostnameSanitize_alt h TrimRight_id)
  next
    case True
    then show ?thesis using h by (simp add: HostnameSanitize_alt TrimRight_id)
  qed
  then show ?thesis using ValidDNSNameI[OF 1 4] 2 3 h NamespaceSanitize_alt by auto
qed

theorem HostnameSanitize_valid_witness:
  "HostnameSanitize ''My App_v1.0-!'' \<noteq> [] \<and> ValidDNSName (HostnameSanitize ''My App_v1.0-!'') = None"
proof -
  have "ValidName ''My App_v1.0-!''" "ValidDNSName ''host-1'' = None" by code_simp+
  from HostnameSanitize_valid[OF this] show ?thesis by blast
qed

text \<open>
  \<open>DNSSanitize\<close> alone does not keep its promise that the result neither starts nor ends with a dash: only a dash
  at the very first or last index of the input is dropped, so one next to other dropped characters
  stays. The second example is a valid object name, and \<open>K8SServiceSanitize\<close> inherits the defect.
\<close>

theorem DNSSanitize_dash_at_end:
  "DNSSanitize ''!-a'' = ''-a'' \<and> ValidName ''a-!'' \<and> DNSSanitize ''a-!'' = ''a-''
   \<and> K8SServiceSanitize ''a-!'' = ''a-'' \<and> ValidDNSName (K8SServiceSanitize ''a-!'') = Some DnsDashAtEnd"
  by code_simp

text \<open>
  Label values are valid for every input: at most 63 characters, only letters, digits, dots, dashes and
  underscores, and if not empty they begin and end with a letter or digit.
\<close>

theorem K8SLabelValueSanitize_valid:
  "length (K8SLabelValueSanitize s) \<le> 63
   \<and> list_all (\<lambda>c. alnum c \<or> c \<in> set ''._-'') (K8SLabelValueSanitize s)
   \<and> (K8SLabelValueSanitize s = [] \<or> alnum (hd (K8SLabelValueSanitize s)) \<and> alnum (last (K8SLabelValueSanitize s)))"
proof -
  let ?l = "label_loop [] s" and ?r = "K8SLabelValueSanitize s"
  have l: "length ?l \<le> 63" "?l = [] \<or> alnum (hd ?l)" "list_all (\<lambda>c. alnum c \<or> c \<in> set ''._-'') ?l"
    using label_loop_ok[of "[]" s] by simp_all
  have r: "?r = TrimRight ''._-'' ?l" by (simp add: K8SLabelValueSanitize_def)
  have p: "prefix ?r ?l" unfolding r by (rule TrimRight_prefix)
  have a: "list_all (\<lambda>c. alnum c \<or> c \<in> set ''._-'') ?r" unfolding r using l(3) by (rule list_all_TrimRight)
  have "alnum (hd ?r) \<and> alnum (last ?r)" if "?r \<noteq> []"
  proof
    show "alnum (hd ?r)" using l(2) p that by (auto simp: prefix_def)
    have "last ?r \<notin> set ''._-''" using TrimRight_last[of "''._-''" ?l] that by (simp add: r)
    moreover have "alnum (last ?r) \<or> last ?r \<in> set ''._-''"
      using a last_in_set[OF that] unfolding list_all_iff by blast
    ultimately show "alnum (last ?r)" by blast
  qed
  then show ?thesis using l(1) prefix_length_le[OF p] a by auto
qed

text \<open>
  Clearing form data replaces the value of every listed field and nothing else: the ampersand-separated
  pairs of the result are those of the input, each cleared on its own.
\<close>

theorem FormClear_pairs:
  "Split CHR ''&'' (FormClear fields s) = map (clear_pair fields) (Split CHR ''&'' s)"
proof -
  let ?body = "Split CHR ''&'' s"
  let ?hit = "\<lambda>pair. case SplitN2 CHR ''='' pair of [k, v] \<Rightarrow> k \<in> set fields | _ \<Rightarrow> False"
  show ?thesis
  proof (cases "list_ex ?hit ?body")
    case True
    have "CHR ''&'' \<notin> set q" if q: "q \<in> set (map (clear_pair fields) ?body)" for q
    proof -
      obtain p where p: "p \<in> set ?body" "q = clear_pair fields p" using q by auto
      have "CHR ''&'' \<notin> set p" using Split_pieces[OF p(1)] .
      then show ?thesis using SplitN2_shape[of "CHR ''=''" p] by (auto simp: p(2) clear_pair_def split: if_splits)
    qed
    then have "Split CHR ''&'' (Join ''&'' (map (clear_pair fields) ?body)) = map (clear_pair fields) ?body"
      by (intro Split_Join) auto
    then show ?thesis using True by (simp add: FormClear_def Let_def)
  next
    case False
    have "clear_pair fields p = p" if "p \<in> set ?body" for p
      using False that SplitN2_shape[of "CHR ''=''" p] by (auto simp: clear_pair_def list_ex_iff)
    then have "map (clear_pair fields) ?body = ?body" by (simp add: map_idI)
    then show ?thesis using False by (simp add: FormClear_def Let_def)
  qed
qed

end
