(* ===== verification/RateLimit.thy ===== *)
theory RateLimit
  imports Prelude
begin

text \<open>
  Rate limiting: the settings of \<^verbatim>\<open>api/edgeproto/ratelimit.go\<close> and the limiters of
  \<^verbatim>\<open>pkg/cloudcommon/ratelimit\<close>. The token and leaky buckets call \<^verbatim>\<open>golang.org/x/time/rate\<close>, which is not part of
  the repository: its limiter is the type parameter \<open>'l\<close> and its three operations are a record
  \<open>rate_pkg\<close> passed to every function that reaches them; \<open>Wait\<close> blocks, so it also says when it returned.
  The clock is an explicit argument in nanoseconds, threaded through a call, and is returned by every \<open>Limit\<close>.
  Limiters are mutable objects in the code, each owned by one map or list, so the functions return their new
  state. A function that can panic returns an option. The manager's methods hold its mutex throughout, so they run one
  after another and a run is a list of calls.
  The locale \<open>window_limiter\<close> states what a window limiter guarantees. It is interpreted on the interval limiter, on any
  composite that contains one, on an API endpoint and on the manager.
\<close>

subsection \<open>Settings\<close>

datatype FlowAlgorithm = UNKNOWN_FLOW_ALGORITHM | TOKEN_BUCKET_ALGORITHM | LEAKY_BUCKET_ALGORITHM
datatype MaxReqsAlgorithm = UNKNOWN_MAX_REQS_ALGORITHM | FIXED_WINDOW_ALGORITHM
datatype RateLimitTarget = UNKNOWN_TARGET | ALL_REQUESTS | PER_IP | PER_USER
datatype ApiEndpointType = UNKNOWN_API_ENDPOINT_TYPE | DME

record FlowSettings =
  fs_FlowAlgorithm :: FlowAlgorithm
  fs_ReqsPerSecond :: rat
  fs_BurstSize :: int

record MaxReqsSettings =
  ms_MaxReqsAlgorithm :: MaxReqsAlgorithm
  ms_MaxRequests :: int
  ms_Interval :: int

record RateLimitSettingsKey =
  rk_ApiName :: string
  rk_ApiEndpointType :: ApiEndpointType
  rk_RateLimitTarget :: RateLimitTarget

record RateLimitSettings =
  rs_Key :: RateLimitSettingsKey
  rs_FlowSettings :: "(string, FlowSettings) gomap"
  rs_MaxReqsSettings :: "(string, MaxReqsSettings) gomap"

record FlowRateLimitSettingsKey =
  fk_FlowSettingsName :: string
  fk_RateLimitKey :: RateLimitSettingsKey

record FlowRateLimitSettings =
  fr_Key :: FlowRateLimitSettingsKey
  fr_Settings :: FlowSettings

record MaxReqsRateLimitSettingsKey =
  mk_MaxReqsSettingsName :: string
  mk_RateLimitKey :: RateLimitSettingsKey

record MaxReqsRateLimitSettings =
  mr_Key :: MaxReqsRateLimitSettingsKey
  mr_Settings :: MaxReqsSettings

datatype settings_error =
    InvalidReqsPerSecond | InvalidBurstSize | BurstSizeNotForLeaky | InvalidFlowAlgorithm | InvalidMaxRequests
  | InvalidInterval | InvalidMaxReqsAlgorithm | NilKey | InvalidApiName | InvalidTarget | InvalidEndpointType
  | InvalidSettingsName

definition FlowSettings_Validate :: "FlowSettings \<Rightarrow> settings_error option" where
  "FlowSettings_Validate f =
     (if fs_FlowAlgorithm f = LEAKY_BUCKET_ALGORITHM \<or> fs_FlowAlgorithm f = TOKEN_BUCKET_ALGORITHM then
        if fs_ReqsPerSecond f \<le> 0 then Some InvalidReqsPerSecond
        else if fs_FlowAlgorithm f = TOKEN_BUCKET_ALGORITHM \<and> fs_BurstSize f \<le> 0 then Some InvalidBurstSize
        else if fs_FlowAlgorithm f = LEAKY_BUCKET_ALGORITHM \<and> fs_BurstSize f \<noteq> 0 then Some BurstSizeNotForLeaky
        else None
      else Some InvalidFlowAlgorithm)"

definition MaxReqsSettings_Validate :: "MaxReqsSettings \<Rightarrow> settings_error option" where
  "MaxReqsSettings_Validate m =
     (if ms_MaxReqsAlgorithm m = FIXED_WINDOW_ALGORITHM then
        if ms_MaxRequests m \<le> 0 then Some InvalidMaxRequests
        else if ms_Interval m \<le> 0 then Some InvalidInterval
        else None
      else Some InvalidMaxReqsAlgorithm)"

fun first_error :: "('a \<Rightarrow> 'e option) \<Rightarrow> 'a list \<Rightarrow> 'e option" where
  "first_error f [] = None"
| "first_error f (x # xs) = (case f x of Some e \<Rightarrow> Some e | None \<Rightarrow> first_error f xs)"

definition RateLimitSettings_Validate :: "RateLimitSettings \<Rightarrow> settings_error option" where
  "RateLimitSettings_Validate r =
     (case first_error (\<lambda>(_, f). FlowSettings_Validate f) (rs_FlowSettings r) of
        Some e \<Rightarrow> Some e
      | None \<Rightarrow> first_error (\<lambda>(_, m). MaxReqsSettings_Validate m) (rs_MaxReqsSettings r))"

definition RateLimitSettingsKey_ValidateKey :: "RateLimitSettingsKey option \<Rightarrow> settings_error option" where
  "RateLimitSettingsKey_ValidateKey key =
     (case key of None \<Rightarrow> Some NilKey
      | Some k \<Rightarrow>
          if rk_ApiName k = [] then Some InvalidApiName
          else if rk_RateLimitTarget k = UNKNOWN_TARGET then Some InvalidTarget
          else if rk_ApiEndpointType k = UNKNOWN_API_ENDPOINT_TYPE then Some InvalidEndpointType
          else None)"

definition FlowKey_ValidateKey :: "FlowRateLimitSettingsKey option \<Rightarrow> settings_error option" where
  "FlowKey_ValidateKey key =
     (case key of None \<Rightarrow> Some NilKey
      | Some k \<Rightarrow>
          if fk_FlowSettingsName k = [] then Some InvalidSettingsName
          else RateLimitSettingsKey_ValidateKey (Some (fk_RateLimitKey k)))"

definition MaxReqsKey_ValidateKey :: "MaxReqsRateLimitSettingsKey option \<Rightarrow> settings_error option" where
  "MaxReqsKey_ValidateKey key =
     (case key of None \<Rightarrow> Some NilKey
      | Some k \<Rightarrow>
          if mk_MaxReqsSettingsName k = [] then Some InvalidSettingsName
          else RateLimitSettingsKey_ValidateKey (Some (mk_RateLimitKey k)))"

definition UpdateFlowSettings :: "RateLimitSettings \<Rightarrow> FlowRateLimitSettings \<Rightarrow> RateLimitSettings" where
  "UpdateFlowSettings r f =
     r\<lparr>rs_FlowSettings := AList.update (fk_FlowSettingsName (fr_Key f)) (fr_Settings f) (rs_FlowSettings r)\<rparr>"

definition RemoveFlowSettings :: "RateLimitSettings \<Rightarrow> string \<Rightarrow> RateLimitSettings" where
  "RemoveFlowSettings r name = r\<lparr>rs_FlowSettings := AList.delete name (rs_FlowSettings r)\<rparr>"

definition UpdateMaxReqsSettings :: "RateLimitSettings \<Rightarrow> MaxReqsRateLimitSettings \<Rightarrow> RateLimitSettings" where
  "UpdateMaxReqsSettings r m =
     r\<lparr>rs_MaxReqsSettings := AList.update (mk_MaxReqsSettingsName (mr_Key m)) (mr_Settings m) (rs_MaxReqsSettings r)\<rparr>"

definition RemoveMaxReqsSettings :: "RateLimitSettings \<Rightarrow> string \<Rightarrow> RateLimitSettings" where
  "RemoveMaxReqsSettings r name = r\<lparr>rs_MaxReqsSettings := AList.delete name (rs_MaxReqsSettings r)\<rparr>"

definition new_settings :: "RateLimitSettingsKey \<Rightarrow> RateLimitSettings" where
  "new_settings key = \<lparr>rs_Key = key, rs_FlowSettings = [], rs_MaxReqsSettings = []\<rparr>"

subsection \<open>Conversion between database and user settings\<close>

type_synonym settingsmap = "(RateLimitSettingsKey, RateLimitSettings) gomap"

definition settings_for :: "settingsmap \<Rightarrow> RateLimitSettingsKey \<Rightarrow> RateLimitSettings" where
  "settings_for m key = (case map_of m key of Some s \<Rightarrow> s | None \<Rightarrow> new_settings key)"

definition add_flow :: "FlowRateLimitSettings \<Rightarrow> settingsmap \<Rightarrow> settingsmap" where
  "add_flow f m =
     (let key = fk_RateLimitKey (fr_Key f) in AList.update key (UpdateFlowSettings (settings_for m key) f) m)"

definition add_maxreqs :: "MaxReqsRateLimitSettings \<Rightarrow> settingsmap \<Rightarrow> settingsmap" where
  "add_maxreqs r m =
     (let key = mk_RateLimitKey (mr_Key r) in AList.update key (UpdateMaxReqsSettings (settings_for m key) r) m)"

definition DbToUserSettings ::
  "FlowRateLimitSettings list \<Rightarrow> MaxReqsRateLimitSettings list \<Rightarrow> RateLimitSettings list" where
  "DbToUserSettings fsettings msettings = map snd (fold add_maxreqs msettings (fold add_flow fsettings []))"

definition flows_of :: "RateLimitSettings \<Rightarrow> FlowRateLimitSettings list" where
  "flows_of s = map (\<lambda>(name, fset).
     \<lparr>fr_Key = \<lparr>fk_FlowSettingsName = name, fk_RateLimitKey = rs_Key s\<rparr>, fr_Settings = fset\<rparr>) (rs_FlowSettings s)"

definition maxreqs_of :: "RateLimitSettings \<Rightarrow> MaxReqsRateLimitSettings list" where
  "maxreqs_of s = map (\<lambda>(name, mset).
     \<lparr>mr_Key = \<lparr>mk_MaxReqsSettingsName = name, mk_RateLimitKey = rs_Key s\<rparr>, mr_Settings = mset\<rparr>) (rs_MaxReqsSettings s)"

definition UserToDbSettings ::
  "RateLimitSettings list \<Rightarrow> FlowRateLimitSettings list \<times> MaxReqsRateLimitSettings list" where
  "UserToDbSettings settings = (concat (map flows_of settings), concat (map maxreqs_of settings))"

subsection \<open>Limiters\<close>

record 'l rate_pkg =
  rate_NewLimiter :: "rat \<Rightarrow> int \<Rightarrow> 'l"
  rate_Allow :: "int \<Rightarrow> 'l \<Rightarrow> bool \<times> 'l"
  rate_Wait :: "int \<Rightarrow> 'l \<Rightarrow> bool \<times> int \<times> 'l"

text \<open>What the limiters need of the package: \<^verbatim>\<open>Wait\<close> does not return before it was called.\<close>

definition waits_forward :: "'l rate_pkg \<Rightarrow> bool" where
  "waits_forward pkg = (\<forall>now l. now \<le> fst (snd (rate_Wait pkg now l)))"

record IntervalLimiter =
  il_requestLimit :: int
  il_currentNumberOfRequests :: int
  il_interval :: int
  il_intervalStartTime :: int

datatype 'l limiter =
    TokenBucketLimiter 'l rat int
  | LeakyBucketLimiter 'l rat
  | IntervalL IntervalLimiter

datatype limit_error =
    ExceededLimit int | ExceededRate rat | LeakyError | NilCallerInfo | PerIpExceeded limit_error
  | PerUserExceeded limit_error

definition NewIntervalLimiter :: "int \<Rightarrow> int \<Rightarrow> int \<Rightarrow> IntervalLimiter" where
  "NewIntervalLimiter now reqLimit interval =
     \<lparr>il_requestLimit = reqLimit, il_currentNumberOfRequests = 0, il_interval = interval, il_intervalStartTime = now\<rparr>"

definition Interval_Limit :: "int \<Rightarrow> IntervalLimiter \<Rightarrow> limit_error option \<times> IntervalLimiter" where
  "Interval_Limit now i =
     (let i = (if now - il_intervalStartTime i > il_interval i
               then i\<lparr>il_intervalStartTime := now, il_currentNumberOfRequests := 0\<rparr> else i)
      in if il_currentNumberOfRequests i \<ge> il_requestLimit i \<and> il_requestLimit i \<noteq> 0
         then (Some (ExceededLimit (il_requestLimit i)), i)
         else (None, i\<lparr>il_currentNumberOfRequests := il_currentNumberOfRequests i + 1\<rparr>))"

definition NewTokenBucketLimiter :: "'l rate_pkg \<Rightarrow> rat \<Rightarrow> int \<Rightarrow> 'l limiter" where
  "NewTokenBucketLimiter pkg tokensPerSecond bucketSize =
     TokenBucketLimiter (rate_NewLimiter pkg tokensPerSecond bucketSize) tokensPerSecond bucketSize"

definition NewLeakyBucketLimiter :: "'l rate_pkg \<Rightarrow> rat \<Rightarrow> 'l limiter" where
  "NewLeakyBucketLimiter pkg reqsPerSecond = LeakyBucketLimiter (rate_NewLimiter pkg reqsPerSecond 1) reqsPerSecond"

definition TokenBucket_Limit ::
  "'l rate_pkg \<Rightarrow> int \<Rightarrow> 'l \<Rightarrow> rat \<Rightarrow> int \<Rightarrow> limit_error option \<times> int \<times> 'l limiter" where
  "TokenBucket_Limit pkg now l tps bsz =
     (let (tokenAvailable, l') = rate_Allow pkg now l
      in (if \<not> tokenAvailable then Some (ExceededRate tps) else None, now, TokenBucketLimiter l' tps bsz))"

definition LeakyBucket_Limit :: "'l rate_pkg \<Rightarrow> int \<Rightarrow> 'l \<Rightarrow> rat \<Rightarrow> limit_error option \<times> int \<times> 'l limiter" where
  "LeakyBucket_Limit pkg now l rps =
     (let (ok, now', l') = rate_Wait pkg now l
      in (if \<not> ok then Some LeakyError else None, now', LeakyBucketLimiter l' rps))"

text \<open>The call through the \<^verbatim>\<open>Limiter\<close> interface.\<close>

fun limiter_Limit :: "'l rate_pkg \<Rightarrow> int \<Rightarrow> 'l limiter \<Rightarrow> limit_error option \<times> int \<times> 'l limiter" where
  "limiter_Limit pkg now (TokenBucketLimiter l tps bsz) = TokenBucket_Limit pkg now l tps bsz"
| "limiter_Limit pkg now (LeakyBucketLimiter l rps) = LeakyBucket_Limit pkg now l rps"
| "limiter_Limit pkg now (IntervalL i) = (let (e, i') = Interval_Limit now i in (e, now, IntervalL i'))"

fun Composite_Limit ::
  "'l rate_pkg \<Rightarrow> int \<Rightarrow> 'l limiter list \<Rightarrow> limit_error option \<times> int \<times> 'l limiter list" where
  "Composite_Limit pkg now [] = (None, now, [])"
| "Composite_Limit pkg now (l # ls) =
     (case limiter_Limit pkg now l of
        (Some e, now', l') \<Rightarrow> (Some e, now', l' # ls)
      | (None, now', l') \<Rightarrow> (let (e, now'', ls') = Composite_Limit pkg now' ls in (e, now'', l' # ls')))"

definition getLimitersFromRateLimitSettings ::
  "'l rate_pkg \<Rightarrow> int \<Rightarrow> RateLimitSettings option \<Rightarrow> 'l limiter list" where
  "getLimitersFromRateLimitSettings pkg now settings =
     (case settings of None \<Rightarrow> []
      | Some s \<Rightarrow>
          concat (map (\<lambda>(_, f). case fs_FlowAlgorithm f of
              TOKEN_BUCKET_ALGORITHM \<Rightarrow> [NewTokenBucketLimiter pkg (fs_ReqsPerSecond f) (fs_BurstSize f)]
            | LEAKY_BUCKET_ALGORITHM \<Rightarrow> [NewLeakyBucketLimiter pkg (fs_ReqsPerSecond f)]
            | UNKNOWN_FLOW_ALGORITHM \<Rightarrow> []) (rs_FlowSettings s)) @
          concat (map (\<lambda>(_, m). case ms_MaxReqsAlgorithm m of
              FIXED_WINDOW_ALGORITHM \<Rightarrow> [IntervalL (NewIntervalLimiter now (ms_MaxRequests m) (ms_Interval m))]
            | UNKNOWN_MAX_REQS_ALGORITHM \<Rightarrow> []) (rs_MaxReqsSettings s)))"

subsection \<open>The limiter of an API endpoint\<close>

record CallerInfo =
  ci_Api :: string
  ci_User :: string
  ci_Ip :: string

record apiEndpointRateLimitSettings =
  AllRequestsRateLimitSettings :: "RateLimitSettings option"
  PerIpRateLimitSettings :: "RateLimitSettings option"
  PerUserRateLimitSettings :: "RateLimitSettings option"

record 'l apiEndpointLimiter =
  apiName :: string
  rlSettings :: apiEndpointRateLimitSettings
  limitAllRequests :: "'l limiter list"
  limitsPerIp :: "(string, 'l limiter list) gomap"
  limitsPerUser :: "(string, 'l limiter list) gomap"
  maxNumIps :: int
  maxNumUsers :: int

definition newApiEndpointLimiter ::
  "'l rate_pkg \<Rightarrow> int \<Rightarrow> string \<Rightarrow> apiEndpointRateLimitSettings \<Rightarrow> int \<Rightarrow> int \<Rightarrow> 'l apiEndpointLimiter" where
  "newApiEndpointLimiter pkg now name st ips users =
     \<lparr>apiName = name, rlSettings = st,
      limitAllRequests = getLimitersFromRateLimitSettings pkg now (AllRequestsRateLimitSettings st),
      limitsPerIp = [], limitsPerUser = [], maxNumIps = ips, maxNumUsers = users\<rparr>"

text \<open>
  \<^verbatim>\<open>for ip := range m { if len(m) < max { break }; delete(m, ip) }\<close>: the entries already visited are gone, so the
  map is what is left to visit.
\<close>

fun remove_excess :: "int \<Rightarrow> ('k, 'v) gomap \<Rightarrow> ('k, 'v) gomap" where
  "remove_excess mx [] = []"
| "remove_excess mx (e # m) = (if int (length (e # m)) < mx then e # m else remove_excess mx m)"

definition removeExcessIps :: "'l apiEndpointLimiter \<Rightarrow> 'l apiEndpointLimiter" where
  "removeExcessIps a = a\<lparr>limitsPerIp := remove_excess (maxNumIps a) (limitsPerIp a)\<rparr>"

definition removeExcessUsers :: "'l apiEndpointLimiter \<Rightarrow> 'l apiEndpointLimiter" where
  "removeExcessUsers a = a\<lparr>limitsPerUser := remove_excess (maxNumUsers a) (limitsPerUser a)\<rparr>"

definition updateMaxNumIps :: "int \<Rightarrow> 'l apiEndpointLimiter \<Rightarrow> 'l apiEndpointLimiter" where
  "updateMaxNumIps mx a = a\<lparr>maxNumIps := mx\<rparr>"

definition updateMaxNumUsers :: "int \<Rightarrow> 'l apiEndpointLimiter \<Rightarrow> 'l apiEndpointLimiter" where
  "updateMaxNumUsers mx a = a\<lparr>maxNumUsers := mx\<rparr>"

definition doesLimitByUser :: "'l apiEndpointLimiter \<Rightarrow> bool" where
  "doesLimitByUser a = (PerUserRateLimitSettings (rlSettings a) \<noteq> None)"

definition doesLimitByIp :: "'l apiEndpointLimiter \<Rightarrow> bool" where
  "doesLimitByIp a = (PerIpRateLimitSettings (rlSettings a) \<noteq> None)"

definition doesLimitByAllRequests :: "'l apiEndpointLimiter \<Rightarrow> bool" where
  "doesLimitByAllRequests a = (AllRequestsRateLimitSettings (rlSettings a) \<noteq> None)"

text \<open>The two sections of \<^verbatim>\<open>Limit\<close> before the endpoint-wide limit.\<close>

definition limit_by_ip ::
  "'l rate_pkg \<Rightarrow> int \<Rightarrow> string \<Rightarrow> 'l apiEndpointLimiter \<Rightarrow> limit_error option \<times> int \<times> 'l apiEndpointLimiter" where
  "limit_by_ip pkg now ip a =
     (if doesLimitByIp a \<and> ip \<noteq> [] then
        let (limiter, a1) = (case map_of (limitsPerIp a) ip of
              Some l \<Rightarrow> (l, a)
            | None \<Rightarrow> (getLimitersFromRateLimitSettings pkg now (PerIpRateLimitSettings (rlSettings a)), removeExcessIps a));
            (err, now', limiter') = Composite_Limit pkg now limiter
        in (map_option PerIpExceeded err, now', a1\<lparr>limitsPerIp := AList.update ip limiter' (limitsPerIp a1)\<rparr>)
      else (None, now, a))"

definition limit_by_user ::
  "'l rate_pkg \<Rightarrow> int \<Rightarrow> string \<Rightarrow> 'l apiEndpointLimiter \<Rightarrow> limit_error option \<times> int \<times> 'l apiEndpointLimiter" where
  "limit_by_user pkg now user a =
     (if doesLimitByUser a \<and> user \<noteq> [] then
        let (limiter, a1) = (case map_of (limitsPerUser a) user of
              Some l \<Rightarrow> (l, a)
            | None \<Rightarrow> (getLimitersFromRateLimitSettings pkg now (PerUserRateLimitSettings (rlSettings a)), removeExcessUsers a));
            (err, now', limiter') = Composite_Limit pkg now limiter
        in (map_option PerUserExceeded err, now', a1\<lparr>limitsPerUser := AList.update user limiter' (limitsPerUser a1)\<rparr>)
      else (None, now, a))"

definition limit_all ::
  "'l rate_pkg \<Rightarrow> int \<Rightarrow> 'l apiEndpointLimiter \<Rightarrow> limit_error option \<times> int \<times> 'l apiEndpointLimiter" where
  "limit_all pkg now a =
     (if doesLimitByAllRequests a then
        let (err, now', ls) = Composite_Limit pkg now (limitAllRequests a) in (err, now', a\<lparr>limitAllRequests := ls\<rparr>)
      else (None, now, a))"

definition endpoint_Limit ::
  "'l rate_pkg \<Rightarrow> int \<Rightarrow> CallerInfo option \<Rightarrow> 'l apiEndpointLimiter \<Rightarrow> limit_error option \<times> int \<times> 'l apiEndpointLimiter"
  where
  "endpoint_Limit pkg now info a =
     (case info of None \<Rightarrow> (Some NilCallerInfo, now, a)
      | Some c \<Rightarrow>
         (case limit_by_ip pkg now (ci_Ip c) a of
            (Some e, now1, a1) \<Rightarrow> (Some e, now1, a1)
          | (None, now1, a1) \<Rightarrow>
             (case limit_by_user pkg now1 (ci_User c) a1 of
                (Some e, now2, a2) \<Rightarrow> (Some e, now2, a2)
              | (None, now2, a2) \<Rightarrow> limit_all pkg now2 a2)))"

definition or_new :: "RateLimitSettingsKey \<Rightarrow> RateLimitSettings option \<Rightarrow> RateLimitSettings" where
  "or_new key s = (case s of Some r \<Rightarrow> r | None \<Rightarrow> new_settings key)"

text \<open>Storing the settings of one target and renewing the limiters built from them.\<close>

definition set_all :: "'l rate_pkg \<Rightarrow> int \<Rightarrow> RateLimitSettings \<Rightarrow> 'l apiEndpointLimiter \<Rightarrow> 'l apiEndpointLimiter" where
  "set_all pkg now s a =
     a\<lparr>rlSettings := (rlSettings a)\<lparr>AllRequestsRateLimitSettings := Some s\<rparr>,
       limitAllRequests := getLimitersFromRateLimitSettings pkg now (Some s)\<rparr>"

definition set_ip :: "RateLimitSettings \<Rightarrow> 'l apiEndpointLimiter \<Rightarrow> 'l apiEndpointLimiter" where
  "set_ip s a = a\<lparr>rlSettings := (rlSettings a)\<lparr>PerIpRateLimitSettings := Some s\<rparr>, limitsPerIp := []\<rparr>"

definition set_user :: "RateLimitSettings \<Rightarrow> 'l apiEndpointLimiter \<Rightarrow> 'l apiEndpointLimiter" where
  "set_user s a = a\<lparr>rlSettings := (rlSettings a)\<lparr>PerUserRateLimitSettings := Some s\<rparr>, limitsPerUser := []\<rparr>"

definition updateFlowRateLimitSettings ::
  "'l rate_pkg \<Rightarrow> int \<Rightarrow> FlowRateLimitSettings option \<Rightarrow> 'l apiEndpointLimiter \<Rightarrow> 'l apiEndpointLimiter" where
  "updateFlowRateLimitSettings pkg now fset a =
     (case fset of None \<Rightarrow> a
      | Some f \<Rightarrow>
         (let key = fk_RateLimitKey (fr_Key f); st = rlSettings a
          in case rk_RateLimitTarget key of
               ALL_REQUESTS \<Rightarrow> set_all pkg now (UpdateFlowSettings (or_new key (AllRequestsRateLimitSettings st)) f) a
             | PER_IP \<Rightarrow> set_ip (UpdateFlowSettings (or_new key (PerIpRateLimitSettings st)) f) a
             | PER_USER \<Rightarrow> set_user (UpdateFlowSettings (or_new key (PerUserRateLimitSettings st)) f) a
             | UNKNOWN_TARGET \<Rightarrow> a))"

definition updateMaxReqsRateLimitSettings ::
  "'l rate_pkg \<Rightarrow> int \<Rightarrow> MaxReqsRateLimitSettings option \<Rightarrow> 'l apiEndpointLimiter \<Rightarrow> 'l apiEndpointLimiter" where
  "updateMaxReqsRateLimitSettings pkg now rset a =
     (case rset of None \<Rightarrow> a
      | Some m \<Rightarrow>
         (let key = mk_RateLimitKey (mr_Key m); st = rlSettings a
          in case rk_RateLimitTarget key of
               ALL_REQUESTS \<Rightarrow> set_all pkg now (UpdateMaxReqsSettings (or_new key (AllRequestsRateLimitSettings st)) m) a
             | PER_IP \<Rightarrow> set_ip (UpdateMaxReqsSettings (or_new key (PerIpRateLimitSettings st)) m) a
             | PER_USER \<Rightarrow> set_user (UpdateMaxReqsSettings (or_new key (PerUserRateLimitSettings st)) m) a
             | UNKNOWN_TARGET \<Rightarrow> a))"

text \<open>
  The two removals call a method on the target's settings pointer and panic when it is nil: \<open>None\<close>.
\<close>

definition removeFlowRateLimitSettings ::
  "'l rate_pkg \<Rightarrow> int \<Rightarrow> RateLimitTarget \<Rightarrow> string \<Rightarrow> 'l apiEndpointLimiter \<Rightarrow> 'l apiEndpointLimiter option" where
  "removeFlowRateLimitSettings pkg now target name a =
     (let st = rlSettings a
      in case target of
           ALL_REQUESTS \<Rightarrow>
             map_option (\<lambda>s. set_all pkg now (RemoveFlowSettings s name) a) (AllRequestsRateLimitSettings st)
         | PER_IP \<Rightarrow> map_option (\<lambda>s. set_ip (RemoveFlowSettings s name) a) (PerIpRateLimitSettings st)
         | PER_USER \<Rightarrow> map_option (\<lambda>s. set_user (RemoveFlowSettings s name) a) (PerUserRateLimitSettings st)
         | UNKNOWN_TARGET \<Rightarrow> Some a)"

definition removeMaxReqsRateLimitSettings ::
  "'l rate_pkg \<Rightarrow> int \<Rightarrow> RateLimitTarget \<Rightarrow> string \<Rightarrow> 'l apiEndpointLimiter \<Rightarrow> 'l apiEndpointLimiter option" where
  "removeMaxReqsRateLimitSettings pkg now target name a =
     (let st = rlSettings a
      in case target of
           ALL_REQUESTS \<Rightarrow>
             map_option (\<lambda>s. set_all pkg now (RemoveMaxReqsSettings s name) a) (AllRequestsRateLimitSettings st)
         | PER_IP \<Rightarrow> map_option (\<lambda>s. set_ip (RemoveMaxReqsSettings s name) a) (PerIpRateLimitSettings st)
         | PER_USER \<Rightarrow> map_option (\<lambda>s. set_user (RemoveMaxReqsSettings s name) a) (PerUserRateLimitSettings st)
         | UNKNOWN_TARGET \<Rightarrow> Some a)"

text \<open>
  The prunes visit the settings of each target and drop those whose key is not in \<open>ks\<close>. The last section of each
  removes per-user settings and renews \<open>limitsPerIp\<close>, as the code does.
\<close>

definition drop_all_setting ::
  "'l rate_pkg \<Rightarrow> int \<Rightarrow> (RateLimitSettings \<Rightarrow> RateLimitSettings) \<Rightarrow> 'l apiEndpointLimiter \<Rightarrow> 'l apiEndpointLimiter" where
  "drop_all_setting pkg now rm a =
     (case AllRequestsRateLimitSettings (rlSettings a) of None \<Rightarrow> a | Some s \<Rightarrow> set_all pkg now (rm s) a)"

definition drop_ip_setting ::
  "(RateLimitSettings \<Rightarrow> RateLimitSettings) \<Rightarrow> 'l apiEndpointLimiter \<Rightarrow> 'l apiEndpointLimiter" where
  "drop_ip_setting rm a =
     (case PerIpRateLimitSettings (rlSettings a) of None \<Rightarrow> a | Some s \<Rightarrow> set_ip (rm s) a)"

definition drop_user_setting ::
  "(RateLimitSettings \<Rightarrow> RateLimitSettings) \<Rightarrow> 'l apiEndpointLimiter \<Rightarrow> 'l apiEndpointLimiter" where
  "drop_user_setting rm a =
     (case PerUserRateLimitSettings (rlSettings a) of None \<Rightarrow> a
      | Some s \<Rightarrow> a\<lparr>rlSettings := (rlSettings a)\<lparr>PerUserRateLimitSettings := Some (rm s)\<rparr>, limitsPerIp := []\<rparr>)"

definition stale_flows :: "FlowRateLimitSettingsKey list \<Rightarrow> RateLimitSettings option \<Rightarrow> string list" where
  "stale_flows ks st =
     (case st of None \<Rightarrow> []
      | Some s \<Rightarrow> filter (\<lambda>name. \<lparr>fk_FlowSettingsName = name, fk_RateLimitKey = rs_Key s\<rparr> \<notin> set ks)
                   (keys (rs_FlowSettings s)))"

definition stale_maxreqs :: "MaxReqsRateLimitSettingsKey list \<Rightarrow> RateLimitSettings option \<Rightarrow> string list" where
  "stale_maxreqs ks st =
     (case st of None \<Rightarrow> []
      | Some s \<Rightarrow> filter (\<lambda>name. \<lparr>mk_MaxReqsSettingsName = name, mk_RateLimitKey = rs_Key s\<rparr> \<notin> set ks)
                   (keys (rs_MaxReqsSettings s)))"

definition pruneFlowRateLimitSettings ::
  "'l rate_pkg \<Rightarrow> int \<Rightarrow> FlowRateLimitSettingsKey list \<Rightarrow> 'l apiEndpointLimiter \<Rightarrow> 'l apiEndpointLimiter" where
  "pruneFlowRateLimitSettings pkg now ks a =
     (let a1 = fold (\<lambda>name. drop_all_setting pkg now (\<lambda>s. RemoveFlowSettings s name))
                 (stale_flows ks (AllRequestsRateLimitSettings (rlSettings a))) a;
          a2 = fold (\<lambda>name. drop_ip_setting (\<lambda>s. RemoveFlowSettings s name))
                 (stale_flows ks (PerIpRateLimitSettings (rlSettings a1))) a1
      in fold (\<lambda>name. drop_user_setting (\<lambda>s. RemoveFlowSettings s name))
           (stale_flows ks (PerUserRateLimitSettings (rlSettings a2))) a2)"

definition pruneMaxReqsRateLimitSettings ::
  "'l rate_pkg \<Rightarrow> int \<Rightarrow> MaxReqsRateLimitSettingsKey list \<Rightarrow> 'l apiEndpointLimiter \<Rightarrow> 'l apiEndpointLimiter" where
  "pruneMaxReqsRateLimitSettings pkg now ks a =
     (let a1 = fold (\<lambda>name. drop_all_setting pkg now (\<lambda>s. RemoveMaxReqsSettings s name))
                 (stale_maxreqs ks (AllRequestsRateLimitSettings (rlSettings a))) a;
          a2 = fold (\<lambda>name. drop_ip_setting (\<lambda>s. RemoveMaxReqsSettings s name))
                 (stale_maxreqs ks (PerIpRateLimitSettings (rlSettings a1))) a1
      in fold (\<lambda>name. drop_user_setting (\<lambda>s. RemoveMaxReqsSettings s name))
           (stale_maxreqs ks (PerUserRateLimitSettings (rlSettings a2))) a2)"

definition numSettings :: "RateLimitSettings option \<Rightarrow> nat" where
  "numSettings st =
     (case st of None \<Rightarrow> 0 | Some s \<Rightarrow> length (rs_FlowSettings s) + length (rs_MaxReqsSettings s))"

definition isEmpty :: "'l apiEndpointLimiter \<Rightarrow> bool" where
  "isEmpty a =
     (let st = rlSettings a
      in numSettings (AllRequestsRateLimitSettings st) + numSettings (PerIpRateLimitSettings st)
         + numSettings (PerUserRateLimitSettings st) = 0)"

subsection \<open>The manager\<close>

record 'l RateLimitManager =
  limitsPerApi :: "(string, 'l apiEndpointLimiter) gomap"
  disableRateLimit :: bool
  maxTrackedIps :: int
  maxTrackedUsers :: int

definition GlobalApiName :: string where "GlobalApiName = ''Global''"

definition NewRateLimitManager :: "bool \<Rightarrow> int \<Rightarrow> int \<Rightarrow> 'l RateLimitManager" where
  "NewRateLimitManager disable ips users =
     \<lparr>limitsPerApi = [], disableRateLimit = disable, maxTrackedIps = ips, maxTrackedUsers = users\<rparr>"

definition CreateApiEndpointLimiter ::
  "'l rate_pkg \<Rightarrow> int \<Rightarrow> string \<Rightarrow> RateLimitSettings option \<Rightarrow> RateLimitSettings option \<Rightarrow> RateLimitSettings option
   \<Rightarrow> 'l RateLimitManager \<Rightarrow> 'l RateLimitManager" where
  "CreateApiEndpointLimiter pkg now api allReqs perIp perUser r =
     (let st = \<lparr>AllRequestsRateLimitSettings = allReqs, PerIpRateLimitSettings = perIp, PerUserRateLimitSettings = perUser\<rparr>
      in r\<lparr>limitsPerApi := AList.update api
             (newApiEndpointLimiter pkg now api st (maxTrackedIps r) (maxTrackedUsers r)) (limitsPerApi r)\<rparr>)"

definition no_settings :: apiEndpointRateLimitSettings where
  "no_settings = \<lparr>AllRequestsRateLimitSettings = None, PerIpRateLimitSettings = None, PerUserRateLimitSettings = None\<rparr>"

definition limiter_or_new :: "'l rate_pkg \<Rightarrow> int \<Rightarrow> string \<Rightarrow> 'l RateLimitManager \<Rightarrow> 'l apiEndpointLimiter" where
  "limiter_or_new pkg now api r =
     (case map_of (limitsPerApi r) api of Some l \<Rightarrow> l
      | None \<Rightarrow> newApiEndpointLimiter pkg now api no_settings (maxTrackedIps r) (maxTrackedUsers r))"

definition UpdateFlowRateLimitSettings ::
  "'l rate_pkg \<Rightarrow> int \<Rightarrow> FlowRateLimitSettings \<Rightarrow> 'l RateLimitManager \<Rightarrow> 'l RateLimitManager" where
  "UpdateFlowRateLimitSettings pkg now f r =
     (let api = rk_ApiName (fk_RateLimitKey (fr_Key f))
      in r\<lparr>limitsPerApi := AList.update api
             (updateFlowRateLimitSettings pkg now (Some f) (limiter_or_new pkg now api r)) (limitsPerApi r)\<rparr>)"

definition UpdateMaxReqsRateLimitSettings ::
  "'l rate_pkg \<Rightarrow> int \<Rightarrow> MaxReqsRateLimitSettings \<Rightarrow> 'l RateLimitManager \<Rightarrow> 'l RateLimitManager" where
  "UpdateMaxReqsRateLimitSettings pkg now m r =
     (let api = rk_ApiName (mk_RateLimitKey (mr_Key m))
      in r\<lparr>limitsPerApi := AList.update api
             (updateMaxReqsRateLimitSettings pkg now (Some m) (limiter_or_new pkg now api r)) (limitsPerApi r)\<rparr>)"

text \<open>Storing a changed limiter back, or dropping it when it has no settings left.\<close>

definition put_or_drop :: "string \<Rightarrow> 'l apiEndpointLimiter \<Rightarrow> 'l RateLimitManager \<Rightarrow> 'l RateLimitManager" where
  "put_or_drop api l r =
     (if isEmpty l then r\<lparr>limitsPerApi := AList.delete api (limitsPerApi r)\<rparr>
      else r\<lparr>limitsPerApi := AList.update api l (limitsPerApi r)\<rparr>)"

definition RemoveFlowRateLimitSettings ::
  "'l rate_pkg \<Rightarrow> int \<Rightarrow> FlowRateLimitSettingsKey \<Rightarrow> 'l RateLimitManager \<Rightarrow> 'l RateLimitManager option" where
  "RemoveFlowRateLimitSettings pkg now key r =
     (let api = rk_ApiName (fk_RateLimitKey key)
      in case map_of (limitsPerApi r) api of None \<Rightarrow> Some r
         | Some l \<Rightarrow>
             map_option (\<lambda>l'. put_or_drop api l' r)
               (removeFlowRateLimitSettings pkg now (rk_RateLimitTarget (fk_RateLimitKey key)) (fk_FlowSettingsName key) l))"

definition RemoveMaxReqsRateLimitSettings ::
  "'l rate_pkg \<Rightarrow> int \<Rightarrow> MaxReqsRateLimitSettingsKey \<Rightarrow> 'l RateLimitManager \<Rightarrow> 'l RateLimitManager option" where
  "RemoveMaxReqsRateLimitSettings pkg now key r =
     (let api = rk_ApiName (mk_RateLimitKey key)
      in case map_of (limitsPerApi r) api of None \<Rightarrow> Some r
         | Some l \<Rightarrow>
             map_option (\<lambda>l'. put_or_drop api l' r)
               (removeMaxReqsRateLimitSettings pkg now (rk_RateLimitTarget (mk_RateLimitKey key)) (mk_MaxReqsSettingsName key) l))"

definition PruneFlowRateLimitSettings ::
  "'l rate_pkg \<Rightarrow> int \<Rightarrow> FlowRateLimitSettingsKey list \<Rightarrow> 'l RateLimitManager \<Rightarrow> 'l RateLimitManager" where
  "PruneFlowRateLimitSettings pkg now ks r =
     fold (\<lambda>(api, l). put_or_drop api (pruneFlowRateLimitSettings pkg now ks l)) (limitsPerApi r) r"

definition PruneMaxReqsRateLimitSettings ::
  "'l rate_pkg \<Rightarrow> int \<Rightarrow> MaxReqsRateLimitSettingsKey list \<Rightarrow> 'l RateLimitManager \<Rightarrow> 'l RateLimitManager" where
  "PruneMaxReqsRateLimitSettings pkg now ks r =
     fold (\<lambda>(api, l). put_or_drop api (pruneMaxReqsRateLimitSettings pkg now ks l)) (limitsPerApi r) r"

definition UpdateDisableRateLimit :: "bool \<Rightarrow> 'l RateLimitManager \<Rightarrow> 'l RateLimitManager" where
  "UpdateDisableRateLimit disable r = r\<lparr>disableRateLimit := disable\<rparr>"

definition UpdateMaxTrackedIps :: "int \<Rightarrow> 'l RateLimitManager \<Rightarrow> 'l RateLimitManager" where
  "UpdateMaxTrackedIps mx r =
     r\<lparr>maxTrackedIps := mx, limitsPerApi := map (\<lambda>(api, l). (api, updateMaxNumIps mx l)) (limitsPerApi r)\<rparr>"

definition UpdateMaxTrackedUsers :: "int \<Rightarrow> 'l RateLimitManager \<Rightarrow> 'l RateLimitManager" where
  "UpdateMaxTrackedUsers mx r =
     r\<lparr>maxTrackedUsers := mx, limitsPerApi := map (\<lambda>(api, l). (api, updateMaxNumUsers mx l)) (limitsPerApi r)\<rparr>"

text \<open>The limiter a request is charged to: the API's own, else the global one.\<close>

definition responsible :: "string \<Rightarrow> 'l RateLimitManager \<Rightarrow> (string \<times> 'l apiEndpointLimiter) option" where
  "responsible api r =
     (case map_of (limitsPerApi r) api of Some l \<Rightarrow> Some (api, l)
      | None \<Rightarrow> map_option (Pair GlobalApiName) (map_of (limitsPerApi r) GlobalApiName))"

definition manager_Limit ::
  "'l rate_pkg \<Rightarrow> int \<Rightarrow> CallerInfo option \<Rightarrow> 'l RateLimitManager \<Rightarrow> limit_error option \<times> int \<times> 'l RateLimitManager" where
  "manager_Limit pkg now info r =
     (if disableRateLimit r then (None, now, r)
      else case info of None \<Rightarrow> (Some NilCallerInfo, now, r)
      | Some c \<Rightarrow>
         (case responsible (ci_Api c) r of None \<Rightarrow> (None, now, r)
          | Some (api, l) \<Rightarrow>
              (let (err, now', l') = endpoint_Limit pkg now info l
               in (err, now', r\<lparr>limitsPerApi := AList.update api l' (limitsPerApi r)\<rparr>))))"

text \<open>Requests are served one after another; one that arrives during a call starts when that call has ended.\<close>

fun serve ::
  "'l rate_pkg \<Rightarrow> (int \<times> CallerInfo option) list \<Rightarrow> int \<times> 'l RateLimitManager
   \<Rightarrow> limit_error option list \<times> int \<times> 'l RateLimitManager" where
  "serve pkg [] s = ([], s)"
| "serve pkg ((arrival, info) # reqs) (now, r) =
     (let (err, s') = manager_Limit pkg (max now arrival) info r; (errs, s'') = serve pkg reqs s' in (err # errs, s''))"

subsection \<open>What a window limiter guarantees\<close>

text \<open>
  A window is a pair: the number of requests it still admits and the time it ends. \<open>charged\<close> relates the windows before and
  after a call that lasted from \<open>now\<close> to \<open>now'\<close>: either the window is kept and a counted request took a place of it, or
  the old window had ended and a new one of \<open>cap\<close> places and of length \<open>width\<close> began during the call.
\<close>

definition charged :: "nat \<Rightarrow> int \<Rightarrow> int \<Rightarrow> int \<Rightarrow> bool \<Rightarrow> nat \<times> int \<Rightarrow> nat \<times> int \<Rightarrow> bool" where
  "charged cap width now now' b w w' =
     (now \<le> now' \<and>
      ((snd w' = snd w \<and> fst w' + of_bool b \<le> fst w) \<or>
       (\<exists>t. now \<le> t \<and> t \<le> now' \<and> snd w < t \<and> snd w' = t + width \<and> fst w' + of_bool b \<le> cap)))"

lemma charged_widen:
  "charged cap width now now' b w w' \<Longrightarrow> m \<le> now \<Longrightarrow> now' \<le> m' \<Longrightarrow> (c \<Longrightarrow> b) \<Longrightarrow> charged cap width m m' c w w'"
  unfolding charged_def by (cases b; cases c) (force+)

lemma charged_idle: "now \<le> now' \<Longrightarrow> charged cap width now now' False w w"
  by (simp add: charged_def)

lemma chargedE:
  assumes "charged cap width now now' b w w'"
  obtains "snd w' = snd w" "fst w' + of_bool b \<le> fst w"
  | t where "now \<le> t" "t \<le> now'" "snd w < t" "snd w' = t + width" "fst w' + of_bool b \<le> cap"
  using assms unfolding charged_def by blast

text \<open>The number of counted steps in a run.\<close>

fun accepted :: "('i \<Rightarrow> int \<times> 's \<Rightarrow> bool \<times> int \<times> 's) \<Rightarrow> 'i list \<Rightarrow> int \<times> 's \<Rightarrow> nat \<times> int \<times> 's" where
  "accepted step [] st = (0, st)"
| "accepted step (i # is) st =
     (let (b, st') = step i st; (n, st'') = accepted step is st' in (of_bool b + n, st''))"

locale window_limiter =
  fixes step :: "'i \<Rightarrow> int \<times> 's \<Rightarrow> bool \<times> int \<times> 's"
    and ok :: "'s \<Rightarrow> bool"
    and window :: "'s \<Rightarrow> nat \<times> int"
    and cap :: "'s \<Rightarrow> nat"
    and width :: "'s \<Rightarrow> int"
  assumes step_ok: "ok s \<Longrightarrow> step i (now, s) = (b, now', s') \<Longrightarrow> ok s'"
    and step_same: "ok s \<Longrightarrow> step i (now, s) = (b, now', s') \<Longrightarrow> cap s' = cap s \<and> width s' = width s"
    and step_charged: "ok s \<Longrightarrow> step i (now, s) = (b, now', s')
          \<Longrightarrow> charged (cap s) (width s) now now' b (window s) (window s')"
    and window_cap: "ok s \<Longrightarrow> fst (window s) \<le> cap s"
begin

lemma accepted_ConsE:
  assumes "accepted step (i # is) (now, s) = (n, now', s')"
  obtains b now1 s1 m where "step i (now, s) = (b, now1, s1)" "accepted step is (now1, s1) = (m, now', s')"
    "n = of_bool b + m"
  using assms by (auto split: prod.splits)

lemma run_ok:
  "ok s \<Longrightarrow> accepted step is (now, s) = (n, now', s')
   \<Longrightarrow> ok s' \<and> now \<le> now' \<and> cap s' = cap s \<and> width s' = width s"
proof (induction "is" arbitrary: now s n)
  case (Cons i "is")
  from Cons.prems(2) obtain b now1 s1 m where st: "step i (now, s) = (b, now1, s1)"
    and r: "accepted step is (now1, s1) = (m, now', s')" by (rule accepted_ConsE)
  from step_charged[OF Cons.prems(1) st] have "now \<le> now1" by (simp add: charged_def)
  with Cons.IH[OF step_ok[OF Cons.prems(1) st] r] step_same[OF Cons.prems(1) st] show ?case by auto
qed simp

theorem within_window:
  "ok s \<Longrightarrow> accepted step is (now, s) = (n, now', s') \<Longrightarrow> now' \<le> snd (window s) \<Longrightarrow> n \<le> fst (window s)"
proof (induction "is" arbitrary: now s n)
  case (Cons i "is")
  from Cons.prems(2) obtain b now1 s1 m where st: "step i (now, s) = (b, now1, s1)"
    and r: "accepted step is (now1, s1) = (m, now', s')" and n: "n = of_bool b + m" by (rule accepted_ConsE)
  have ok1: "ok s1" by (rule step_ok[OF Cons.prems(1) st])
  from run_ok[OF ok1 r] have "now1 \<le> now'" by simp
  with step_charged[OF Cons.prems(1) st] Cons.prems(3)
  have "snd (window s1) = snd (window s)" "fst (window s1) + of_bool b \<le> fst (window s)"
    by (auto elim: chargedE)
  with Cons.IH[OF ok1 r] Cons.prems(3) n show ?case by simp
qed simp

theorem any_window:
  "ok s \<Longrightarrow> accepted step is (now, s) = (n, now', s') \<Longrightarrow> now' \<le> now + width s \<Longrightarrow> n \<le> fst (window s) + cap s"
proof (induction "is" arbitrary: now s n)
  case (Cons i "is")
  from Cons.prems(2) obtain b now1 s1 m where st: "step i (now, s) = (b, now1, s1)"
    and r: "accepted step is (now1, s1) = (m, now', s')" and n: "n = of_bool b + m" by (rule accepted_ConsE)
  have ok1: "ok s1" by (rule step_ok[OF Cons.prems(1) st])
  from step_charged[OF Cons.prems(1) st] show ?case
  proof (cases rule: chargedE)
    case 1
    have "now \<le> now1" using step_charged[OF Cons.prems(1) st] by (simp add: charged_def)
    with Cons.IH[OF ok1 r] 1 n Cons.prems(3) step_same[OF Cons.prems(1) st] show ?thesis by simp
  next
    case (2 t)
    with within_window[OF ok1 r] Cons.prems(3) n show ?thesis by simp
  qed
qed simp

corollary any_window_twice:
  "ok s \<Longrightarrow> accepted step is (now, s) = (n, now', s') \<Longrightarrow> now' \<le> now + width s \<Longrightarrow> n \<le> 2 * cap s"
  using any_window[of s "is" now n now' s'] window_cap[of s] by simp

end

subsubsection \<open>The interval limiter\<close>

definition interval_ok :: "IntervalLimiter \<Rightarrow> bool" where
  "interval_ok i = (0 < il_requestLimit i \<and> 0 \<le> il_currentNumberOfRequests i \<and> il_currentNumberOfRequests i \<le> il_requestLimit i)"

definition interval_window :: "IntervalLimiter \<Rightarrow> nat \<times> int" where
  "interval_window i =
     (nat (il_requestLimit i - il_currentNumberOfRequests i), il_intervalStartTime i + il_interval i)"

definition interval_cap :: "IntervalLimiter \<Rightarrow> nat" where
  "interval_cap i = nat (il_requestLimit i)"

definition interval_step :: "int \<Rightarrow> int \<times> IntervalLimiter \<Rightarrow> bool \<times> int \<times> IntervalLimiter" where
  "interval_step arrival s =
     (let now = max (fst s) arrival; (e, i) = Interval_Limit now (snd s) in (e = None, now, i))"

definition carries_on :: "IntervalLimiter \<Rightarrow> int \<Rightarrow> int \<Rightarrow> bool \<Rightarrow> IntervalLimiter \<Rightarrow> bool" where
  "carries_on i now now' b i' =
     (interval_ok i' \<and> il_requestLimit i' = il_requestLimit i \<and> il_interval i' = il_interval i \<and>
      charged (interval_cap i) (il_interval i) now now' b (interval_window i) (interval_window i'))"

lemma Interval_carries_on:
  "interval_ok i \<Longrightarrow> Interval_Limit now i = (e, i') \<Longrightarrow> carries_on i now now (e = None) i'"
  by (auto simp: Interval_Limit_def interval_ok_def carries_on_def charged_def interval_window_def interval_cap_def Let_def
      split: if_splits)

lemma carries_on_widen:
  "carries_on i now now' b i' \<Longrightarrow> m \<le> now \<Longrightarrow> now' \<le> m' \<Longrightarrow> (c \<Longrightarrow> b) \<Longrightarrow> carries_on i m m' c i'"
  by (auto simp: carries_on_def intro: charged_widen)

lemma carries_on_idle: "interval_ok i \<Longrightarrow> now \<le> now' \<Longrightarrow> carries_on i now now' False i"
  by (simp add: carries_on_def charged_idle)

interpretation interval: window_limiter interval_step interval_ok interval_window interval_cap il_interval
proof
  fix s i now b now' s'
  assume ok: "interval_ok s" and st: "interval_step i (now, s) = (b, now', s')"
  then obtain e where e: "Interval_Limit now' s = (e, s')" "b = (e = None)" "now \<le> now'"
    by (auto simp: interval_step_def Let_def split: prod.splits)
  have "carries_on s now now' b s'"
    using Interval_carries_on[OF ok e(1)] e by (auto intro: carries_on_widen)
  then show "interval_ok s'" "interval_cap s' = interval_cap s \<and> il_interval s' = il_interval s"
    "charged (interval_cap s) (il_interval s) now now' b (interval_window s) (interval_window s')"
    by (auto simp: carries_on_def interval_cap_def)
qed (auto simp: interval_ok_def interval_window_def interval_cap_def)

subsubsection \<open>Composites, endpoints and the manager\<close>

fun nth_interval :: "nat \<Rightarrow> 'l limiter list \<Rightarrow> IntervalLimiter option" where
  "nth_interval k [] = None"
| "nth_interval 0 (l # ls) = (case l of IntervalL i \<Rightarrow> Some i | _ \<Rightarrow> None)"
| "nth_interval (Suc k) (l # ls) = nth_interval k ls"

lemma limiter_Limit_time:
  assumes "waits_forward pkg" "limiter_Limit pkg now l = (e, now', l')"
  shows "now \<le> now'"
proof (cases l)
  case (LeakyBucketLimiter x r)
  obtain okay t x' where w: "rate_Wait pkg now x = (okay, t, x')" by (metis prod_cases3)
  have "now \<le> fst (snd (rate_Wait pkg now x))" using assms(1) by (simp add: waits_forward_def)
  then show ?thesis using assms(2) LeakyBucketLimiter w by (simp add: LeakyBucket_Limit_def)
qed (use assms(2) in \<open>auto simp: TokenBucket_Limit_def split: prod.splits\<close>)

lemma Composite_ConsE:
  assumes "Composite_Limit pkg now (l # ls) = (e, now', ls')"
  obtains e1 now1 l' ls1 where "limiter_Limit pkg now l = (e1, now1, l')" "ls' = l' # ls1"
    "e1 \<noteq> None \<and> e = e1 \<and> now' = now1 \<and> ls1 = ls \<or> e1 = None \<and> Composite_Limit pkg now1 ls = (e, now', ls1)"
  using assms by (auto split: prod.splits option.splits)

lemma Composite_Limit_time:
  "waits_forward pkg \<Longrightarrow> Composite_Limit pkg now ls = (e, now', ls') \<Longrightarrow> now \<le> now'"
proof (induction ls arbitrary: now ls')
  case (Cons l ls)
  from Cons.prems(2) show ?case
  proof (rule Composite_ConsE)
    fix e1 now1 l' ls1
    assume l: "limiter_Limit pkg now l = (e1, now1, l')"
      and c: "e1 \<noteq> None \<and> e = e1 \<and> now' = now1 \<and> ls1 = ls \<or> e1 = None \<and> Composite_Limit pkg now1 ls = (e, now', ls1)"
    from limiter_Limit_time[OF Cons.prems(1) l] Cons.IH[OF Cons.prems(1), of now1 ls1] c show ?thesis by auto
  qed
qed simp

lemma Composite_carries_on:
  assumes fwd: "waits_forward pkg"
  shows "nth_interval k ls = Some i \<Longrightarrow> interval_ok i \<Longrightarrow> Composite_Limit pkg now ls = (e, now', ls')
    \<Longrightarrow> \<exists>i'. nth_interval k ls' = Some i' \<and> carries_on i now now' (e = None) i'"
proof (induction k ls arbitrary: now ls' rule: nth_interval.induct)
  case (2 l ls)
  from 2(1) have l: "l = IntervalL i" by (cases l) auto
  from 2(3) show ?case
  proof (rule Composite_ConsE)
    fix e1 now1 l' ls1
    assume step: "limiter_Limit pkg now l = (e1, now1, l')" "ls' = l' # ls1"
      and rest: "e1 \<noteq> None \<and> e = e1 \<and> now' = now1 \<and> ls1 = ls \<or> e1 = None \<and> Composite_Limit pkg now1 ls = (e, now', ls1)"
    then obtain i' where i': "Interval_Limit now i = (e1, i')" "now1 = now" "l' = IntervalL i'"
      using l by (auto split: prod.splits)
    have "now1 \<le> now'" using rest Composite_Limit_time[OF fwd] by blast
    moreover have "e = None \<Longrightarrow> e1 = None" using rest by auto
    ultimately show ?thesis
      using carries_on_widen[OF Interval_carries_on[OF 2(2) i'(1)]] i' step(2) by auto
  qed
next
  case (3 k l ls)
  from 3(4) show ?case
  proof (rule Composite_ConsE)
    fix e1 now1 l' ls1
    assume step: "limiter_Limit pkg now l = (e1, now1, l')" "ls' = l' # ls1"
      and rest: "e1 \<noteq> None \<and> e = e1 \<and> now' = now1 \<and> ls1 = ls \<or> e1 = None \<and> Composite_Limit pkg now1 ls = (e, now', ls1)"
    have t: "now \<le> now1" by (rule limiter_Limit_time[OF fwd step(1)])
    from rest show ?thesis
    proof (elim disjE conjE)
      assume "e1 \<noteq> None" "e = e1" "now' = now1" "ls1 = ls"
      then show ?thesis using 3(2,3) t step(2) by (auto intro: carries_on_idle)
    next
      assume "Composite_Limit pkg now1 ls = (e, now', ls1)"
      from 3(1)[OF _ 3(3) this] 3(2) obtain i' where "nth_interval k ls1 = Some i'" "carries_on i now1 now' (e = None) i'"
        by auto
      then show ?thesis using t step(2) by (auto intro: carries_on_widen)
    qed
  qed
qed simp

lemma limit_by_ip_frame:
  assumes "waits_forward pkg" "limit_by_ip pkg now ip a = (e, now', a')"
  shows "now \<le> now' \<and> limitAllRequests a' = limitAllRequests a \<and> rlSettings a' = rlSettings a"
  using assms Composite_Limit_time[OF assms(1)]
  by (fastforce simp: limit_by_ip_def removeExcessIps_def Let_def split: if_splits option.splits prod.splits)

lemma limit_by_user_frame:
  assumes "waits_forward pkg" "limit_by_user pkg now user a = (e, now', a')"
  shows "now \<le> now' \<and> limitAllRequests a' = limitAllRequests a \<and> rlSettings a' = rlSettings a"
  using assms Composite_Limit_time[OF assms(1)]
  by (fastforce simp: limit_by_user_def removeExcessUsers_def Let_def split: if_splits option.splits prod.splits)

text \<open>The endpoint's window: the interval limiter at position \<open>k\<close> of the limiters on all requests.\<close>

definition endpoint_interval :: "nat \<Rightarrow> 'l apiEndpointLimiter \<Rightarrow> IntervalLimiter option" where
  "endpoint_interval k a = (if doesLimitByAllRequests a then nth_interval k (limitAllRequests a) else None)"

lemma limit_all_carries_on:
  assumes "waits_forward pkg" "endpoint_interval k a = Some i" "interval_ok i" "limit_all pkg now a = (e, now', a')"
  shows "\<exists>i'. endpoint_interval k a' = Some i' \<and> carries_on i now now' (e = None) i'"
proof -
  from assms(2) have d: "doesLimitByAllRequests a" and k: "nth_interval k (limitAllRequests a) = Some i"
    by (auto simp: endpoint_interval_def split: if_splits)
  from assms(4) d obtain ls where ls: "Composite_Limit pkg now (limitAllRequests a) = (e, now', ls)"
    "a' = a\<lparr>limitAllRequests := ls\<rparr>" by (auto simp: limit_all_def split: prod.splits)
  from Composite_carries_on[OF assms(1) k assms(3) ls(1)] d show ?thesis
    by (simp add: ls(2) endpoint_interval_def doesLimitByAllRequests_def)
qed

lemma endpoint_interval_frame:
  "limitAllRequests a' = limitAllRequests a \<Longrightarrow> rlSettings a' = rlSettings a
   \<Longrightarrow> endpoint_interval k a' = endpoint_interval k a"
  by (simp add: endpoint_interval_def doesLimitByAllRequests_def)

lemma endpoint_carries_on:
  assumes "waits_forward pkg" "endpoint_interval k a = Some i" "interval_ok i"
    "endpoint_Limit pkg now info a = (e, now', a')"
  shows "\<exists>i'. endpoint_interval k a' = Some i' \<and> carries_on i now now' (e = None) i'"
proof (cases info)
  case None
  then show ?thesis using assms by (auto simp: endpoint_Limit_def intro: carries_on_idle)
next
  case (Some c)
  obtain e1 now1 a1 where s1: "limit_by_ip pkg now (ci_Ip c) a = (e1, now1, a1)" by (metis prod_cases3)
  obtain e2 now2 a2 where s2: "limit_by_user pkg now1 (ci_User c) a1 = (e2, now2, a2)" by (metis prod_cases3)
  note f1 = limit_by_ip_frame[OF assms(1) s1] and f2 = limit_by_user_frame[OF assms(1) s2]
  have k1: "endpoint_interval k a1 = Some i" and k2: "endpoint_interval k a2 = Some i"
    using f1 f2 assms(2) endpoint_interval_frame by metis+
  show ?thesis
  proof (cases "e1 = None \<and> e2 = None")
    case True
    with assms(4) Some s1 s2 have "limit_all pkg now2 a2 = (e, now', a')" by (simp add: endpoint_Limit_def)
    then obtain i' where "endpoint_interval k a' = Some i'" and "carries_on i now2 now' (e = None) i'"
      using limit_all_carries_on[OF assms(1) k2 assms(3)] by blast
    moreover have "now \<le> now2" using f1 f2 by simp
    ultimately show ?thesis using carries_on_widen by blast
  next
    case False
    with assms(4) Some s1 s2 k1 k2 f1 f2 show ?thesis
      by (auto simp: endpoint_Limit_def intro!: carries_on_idle[OF assms(3)] split: option.splits)
  qed
qed

definition manager_interval :: "nat \<Rightarrow> string \<Rightarrow> 'l RateLimitManager \<Rightarrow> IntervalLimiter option" where
  "manager_interval k api r =
     (if disableRateLimit r then None
      else case map_of (limitsPerApi r) api of None \<Rightarrow> None | Some a \<Rightarrow> endpoint_interval k a)"

definition for_api :: "string \<Rightarrow> CallerInfo option \<Rightarrow> bool" where
  "for_api api info = (case info of None \<Rightarrow> False | Some c \<Rightarrow> ci_Api c = api)"

lemma responsible_own: "map_of (limitsPerApi r) api = Some a \<Longrightarrow> responsible api r = Some (api, a)"
  by (simp add: responsible_def)

lemma responsible_entry: "responsible api r = Some (api', a) \<Longrightarrow> map_of (limitsPerApi r) api' = Some a"
  by (auto simp: responsible_def split: option.splits)

lemma endpoint_Limit_time:
  assumes "waits_forward pkg" "endpoint_Limit pkg now info a = (e, now', a')"
  shows "now \<le> now'"
proof (cases info)
  case None
  with assms show ?thesis by (simp add: endpoint_Limit_def)
next
  case (Some c)
  obtain e1 now1 a1 where s1: "limit_by_ip pkg now (ci_Ip c) a = (e1, now1, a1)" by (metis prod_cases3)
  obtain e2 now2 a2 where s2: "limit_by_user pkg now1 (ci_User c) a1 = (e2, now2, a2)" by (metis prod_cases3)
  obtain e3 now3 a3 where s3: "limit_all pkg now2 a2 = (e3, now3, a3)" by (metis prod_cases3)
  have "now2 \<le> now3" using s3 Composite_Limit_time[OF assms(1)]
    by (auto simp: limit_all_def Let_def split: if_splits prod.splits)
  with assms(2) Some s1 s2 s3 limit_by_ip_frame[OF assms(1) s1] limit_by_user_frame[OF assms(1) s2]
  show ?thesis by (auto simp: endpoint_Limit_def split: option.splits)
qed

lemma manager_carries_on:
  assumes fwd: "waits_forward pkg" and k: "manager_interval k api r = Some i" and ok: "interval_ok i"
    and lim: "manager_Limit pkg now info r = (e, now', r')"
  shows "\<exists>i'. manager_interval k api r' = Some i' \<and> carries_on i now now' (e = None \<and> for_api api info) i'"
proof -
  from k obtain a where on: "\<not> disableRateLimit r" and a: "map_of (limitsPerApi r) api = Some a"
    and ki: "endpoint_interval k a = Some i"
    by (auto simp: manager_interval_def split: if_splits option.splits)
  show ?thesis
  proof (cases info)
    case None
    with lim on k ok show ?thesis by (auto simp: manager_Limit_def for_api_def intro: carries_on_idle)
  next
    case (Some c)
    show ?thesis
    proof (cases "responsible (ci_Api c) r")
      case None
      then have "ci_Api c \<noteq> api" using responsible_own[OF a] by auto
      with None Some lim on k ok show ?thesis by (auto simp: manager_Limit_def for_api_def intro: carries_on_idle)
    next
      case (Some p)
      obtain api' b where p: "p = (api', b)" by (cases p)
      obtain e1 now1 b' where s: "endpoint_Limit pkg now info b = (e1, now1, b')" by (metis prod_cases3)
      from lim on \<open>info = Some c\<close> Some p s
      have r': "e = e1" "now' = now1" "r' = r\<lparr>limitsPerApi := AList.update api' b' (limitsPerApi r)\<rparr>"
        by (auto simp: manager_Limit_def)
      show ?thesis
      proof (cases "api' = api")
        case True
        with responsible_entry[of "ci_Api c" r api' b] Some p a have "b = a" by simp
        with endpoint_carries_on[OF fwd ki ok] s obtain i' where
          "endpoint_interval k b' = Some i'" "carries_on i now now1 (e1 = None) i'" by blast
        then show ?thesis using True r' on by (auto simp: manager_interval_def intro: carries_on_widen)
      next
        case False
        then have "ci_Api c \<noteq> api" using responsible_own[OF a] Some p by auto
        moreover have "manager_interval k api r' = Some i" using False r'(3) on a ki by (simp add: manager_interval_def)
        moreover have "carries_on i now now' False i"
          using endpoint_Limit_time[OF fwd s] r' ok by (auto intro: carries_on_idle)
        ultimately show ?thesis using \<open>info = Some c\<close> by (simp add: for_api_def)
      qed
    qed
  qed
qed

text \<open>
  The interpretations on the layers: a state carries the rate package and the position \<open>k\<close> of the interval limiter.
\<close>

definition interval_of :: "IntervalLimiter option \<Rightarrow> IntervalLimiter" where
  "interval_of oi = (case oi of Some i \<Rightarrow> i | None \<Rightarrow> NewIntervalLimiter 0 1 0)"

definition composite_step ::
  "int \<Rightarrow> int \<times> 'l rate_pkg \<times> nat \<times> 'l limiter list \<Rightarrow> bool \<times> int \<times> 'l rate_pkg \<times> nat \<times> 'l limiter list" where
  "composite_step arrival s =
     (case s of (now, pkg, k, ls) \<Rightarrow>
        let (e, now', ls') = Composite_Limit pkg (max now arrival) ls in (e = None, now', pkg, k, ls'))"

definition endpoint_step ::
  "int \<times> CallerInfo option \<Rightarrow> int \<times> 'l rate_pkg \<times> nat \<times> 'l apiEndpointLimiter
   \<Rightarrow> bool \<times> int \<times> 'l rate_pkg \<times> nat \<times> 'l apiEndpointLimiter" where
  "endpoint_step req s =
     (case s of (now, pkg, k, a) \<Rightarrow>
        let (e, now', a') = endpoint_Limit pkg (max now (fst req)) (snd req) a in (e = None, now', pkg, k, a'))"

definition manager_step ::
  "int \<times> CallerInfo option \<Rightarrow> int \<times> 'l rate_pkg \<times> nat \<times> string \<times> 'l RateLimitManager
   \<Rightarrow> bool \<times> int \<times> 'l rate_pkg \<times> nat \<times> string \<times> 'l RateLimitManager" where
  "manager_step req s =
     (case s of (now, pkg, k, api, r) \<Rightarrow>
        let (e, now', r') = manager_Limit pkg (max now (fst req)) (snd req) r
        in (e = None \<and> for_api api (snd req), now', pkg, k, api, r'))"

text \<open>How a layer's state names the interval limiter that guards it.\<close>

definition guarded :: "('s \<Rightarrow> 'l rate_pkg \<times> IntervalLimiter option) \<Rightarrow> 's \<Rightarrow> bool" where
  "guarded g s = (waits_forward (fst (g s)) \<and> (case snd (g s) of None \<Rightarrow> False | Some i \<Rightarrow> interval_ok i))"

definition layer_of :: "('s \<Rightarrow> 'l rate_pkg \<times> IntervalLimiter option) \<Rightarrow> 's \<Rightarrow> IntervalLimiter" where
  "layer_of g s = interval_of (snd (g s))"

lemma layer_window_limiter:
  assumes "\<And>s i x now b now' s'. waits_forward (fst (g s)) \<Longrightarrow> snd (g s) = Some i \<Longrightarrow> interval_ok i
      \<Longrightarrow> step x (now, s) = (b, now', s')
      \<Longrightarrow> fst (g s') = fst (g s) \<and> (\<exists>i'. snd (g s') = Some i' \<and> carries_on i now now' b i')"
  shows "window_limiter step (guarded g) (\<lambda>s. interval_window (layer_of g s)) (\<lambda>s. interval_cap (layer_of g s))
           (\<lambda>s. il_interval (layer_of g s))"
proof
  fix s x now b now' s'
  assume ok: "guarded g s" and st: "step x (now, s) = (b, now', s')"
  then obtain i where i: "waits_forward (fst (g s))" "snd (g s) = Some i" "interval_ok i"
    by (auto simp: guarded_def split: option.splits)
  from assms[OF i st] obtain i' where i': "fst (g s') = fst (g s)" "snd (g s') = Some i'" "carries_on i now now' b i'"
    by blast
  then show "guarded g s'"
    "interval_cap (layer_of g s') = interval_cap (layer_of g s) \<and> il_interval (layer_of g s') = il_interval (layer_of g s)"
    "charged (interval_cap (layer_of g s)) (il_interval (layer_of g s)) now now' b
       (interval_window (layer_of g s)) (interval_window (layer_of g s'))"
    using i by (auto simp: guarded_def layer_of_def interval_of_def carries_on_def interval_cap_def)
next
  fix s
  assume "guarded g s"
  then show "fst (interval_window (layer_of g s)) \<le> interval_cap (layer_of g s)"
    by (auto simp: guarded_def layer_of_def interval_of_def interval_ok_def interval_window_def interval_cap_def split: option.splits)
qed

definition composite_layer :: "'l rate_pkg \<times> nat \<times> 'l limiter list \<Rightarrow> 'l rate_pkg \<times> IntervalLimiter option" where
  "composite_layer s = (case s of (pkg, k, ls) \<Rightarrow> (pkg, nth_interval k ls))"

definition endpoint_layer :: "'l rate_pkg \<times> nat \<times> 'l apiEndpointLimiter \<Rightarrow> 'l rate_pkg \<times> IntervalLimiter option" where
  "endpoint_layer s = (case s of (pkg, k, a) \<Rightarrow> (pkg, endpoint_interval k a))"

definition manager_layer :: "'l rate_pkg \<times> nat \<times> string \<times> 'l RateLimitManager \<Rightarrow> 'l rate_pkg \<times> IntervalLimiter option" where
  "manager_layer s = (case s of (pkg, k, api, r) \<Rightarrow> (pkg, manager_interval k api r))"

interpretation composite: window_limiter composite_step "guarded composite_layer"
  "\<lambda>s. interval_window (layer_of composite_layer s)" "\<lambda>s. interval_cap (layer_of composite_layer s)"
  "\<lambda>s. il_interval (layer_of composite_layer s)"
proof (rule layer_window_limiter, goal_cases)
  case (1 s i x now b now' s')
  obtain pkg k ls where s: "s = (pkg, k, ls)" by (metis prod_cases3)
  with 1(4) obtain e ls' where lim: "Composite_Limit pkg (max now x) ls = (e, now', ls')" "b = (e = None)" "s' = (pkg, k, ls')"
    by (auto simp: composite_step_def split: prod.splits)
  from Composite_carries_on[OF _ _ 1(3) lim(1)] 1 s lim(2,3) show ?case
    by (force simp: composite_layer_def intro: carries_on_widen)
qed

interpretation endpoint: window_limiter endpoint_step "guarded endpoint_layer"
  "\<lambda>s. interval_window (layer_of endpoint_layer s)" "\<lambda>s. interval_cap (layer_of endpoint_layer s)"
  "\<lambda>s. il_interval (layer_of endpoint_layer s)"
proof (rule layer_window_limiter, goal_cases)
  case (1 s i x now b now' s')
  obtain pkg k a where s: "s = (pkg, k, a)" by (metis prod_cases3)
  with 1(4) obtain e a' where lim: "endpoint_Limit pkg (max now (fst x)) (snd x) a = (e, now', a')" "b = (e = None)"
    "s' = (pkg, k, a')" by (auto simp: endpoint_step_def split: prod.splits)
  from endpoint_carries_on[OF _ _ 1(3) lim(1)] 1 s lim(2,3) show ?case
    by (force simp: endpoint_layer_def intro: carries_on_widen)
qed

interpretation manager: window_limiter manager_step "guarded manager_layer"
  "\<lambda>s. interval_window (layer_of manager_layer s)" "\<lambda>s. interval_cap (layer_of manager_layer s)"
  "\<lambda>s. il_interval (layer_of manager_layer s)"
proof (rule layer_window_limiter, goal_cases)
  case (1 s i x now b now' s')
  obtain pkg k api r where s: "s = (pkg, k, api, r)" by (metis prod_cases4)
  with 1(4) obtain e r' where lim: "manager_Limit pkg (max now (fst x)) (snd x) r = (e, now', r')"
    "b = (e = None \<and> for_api api (snd x))" "s' = (pkg, k, api, r')"
    by (auto simp: manager_step_def split: prod.splits)
  from manager_carries_on[OF _ _ 1(3) lim(1), of k api] 1 s lim(2,3) show ?case
    by (force simp: manager_layer_def intro: carries_on_widen)
qed

text \<open>The requests for an API that a run admitted.\<close>

definition admitted :: "string \<Rightarrow> (int \<times> CallerInfo option) list \<Rightarrow> limit_error option list \<Rightarrow> nat" where
  "admitted api reqs errs = length (filter (\<lambda>((_, info), e). e = None \<and> for_api api info) (zip reqs errs))"

lemma serve_accepted:
  "serve pkg reqs (now, r) = (errs, now', r')
   \<Longrightarrow> accepted manager_step reqs (now, pkg, k, api, r) = (admitted api reqs errs, now', pkg, k, api, r')"
proof (induction reqs arbitrary: now r errs)
  case (Cons req reqs)
  obtain arrival info where req: "req = (arrival, info)" by (cases req)
  obtain e now1 r1 where s: "manager_Limit pkg (max now arrival) info r = (e, now1, r1)" by (metis prod_cases3)
  with Cons.prems req obtain es where "serve pkg reqs (now1, r1) = (es, now', r')" "errs = e # es"
    by (auto split: prod.splits)
  with Cons.IH s req show ?case by (auto simp: admitted_def manager_step_def)
qed (simp add: admitted_def)

lemma nth_interval_mem: "IntervalL i \<in> set ls \<Longrightarrow> \<exists>k. nth_interval k ls = Some i"
proof (induction ls)
  case (Cons l ls)
  show ?case
  proof (cases "l = IntervalL i")
    case True
    then have "nth_interval 0 (l # ls) = Some i" by simp
    then show ?thesis ..
  next
    case False
    with Cons obtain k where "nth_interval k ls = Some i" by auto
    then have "nth_interval (Suc k) (l # ls) = Some i" by simp
    then show ?thesis ..
  qed
qed simp

lemma getLimiters_window:
  "(name, m) \<in> set (rs_MaxReqsSettings s) \<Longrightarrow> ms_MaxReqsAlgorithm m = FIXED_WINDOW_ALGORITHM
   \<Longrightarrow> IntervalL (NewIntervalLimiter now (ms_MaxRequests m) (ms_Interval m))
       \<in> set (getLimitersFromRateLimitSettings pkg now (Some s))"
  by (force simp: getLimitersFromRateLimitSettings_def)

lemma update_mem: "(k, v) \<in> set (AList.update k v m)"
  by (induction m) auto

lemma UpdateMaxReqs_window:
  assumes "\<not> disableRateLimit r" "rk_RateLimitTarget (mk_RateLimitKey (mr_Key m)) = ALL_REQUESTS"
    "ms_MaxReqsAlgorithm (mr_Settings m) = FIXED_WINDOW_ALGORITHM"
  shows "\<exists>k. manager_interval k (rk_ApiName (mk_RateLimitKey (mr_Key m))) (UpdateMaxReqsRateLimitSettings pkg now m r)
             = Some (NewIntervalLimiter now (ms_MaxRequests (mr_Settings m)) (ms_Interval (mr_Settings m)))"
proof -
  define s where "s = UpdateMaxReqsSettings (or_new (mk_RateLimitKey (mr_Key m)) (AllRequestsRateLimitSettings
      (rlSettings (limiter_or_new pkg now (rk_ApiName (mk_RateLimitKey (mr_Key m))) r)))) m"
  have "(mk_MaxReqsSettingsName (mr_Key m), mr_Settings m) \<in> set (rs_MaxReqsSettings s)"
    by (simp add: s_def UpdateMaxReqsSettings_def update_mem)
  from nth_interval_mem[OF getLimiters_window[OF this assms(3)]] assms(1,2) show ?thesis
    by (simp add: UpdateMaxReqsRateLimitSettings_def updateMaxReqsRateLimitSettings_def manager_interval_def
        endpoint_interval_def doesLimitByAllRequests_def set_all_def Let_def s_def)
qed

text \<open>
  (C5) Once a fixed-window limit on all requests of an API has been set, the requests of that API that are admitted before the
  window ends are at most \<^verbatim>\<open>MaxRequests\<close>, and at any later moment any stretch of requests served within one
  \<^verbatim>\<open>Interval\<close> admits at most twice as many, whatever other APIs, callers, users and further limiters are involved.
\<close>

theorem RateLimitManager_window_bound:
  assumes "waits_forward pkg" "\<not> disableRateLimit r" "rk_RateLimitTarget (mk_RateLimitKey (mr_Key m)) = ALL_REQUESTS"
    "MaxReqsSettings_Validate (mr_Settings m) = None"
    "serve pkg reqs (t0, UpdateMaxReqsRateLimitSettings pkg now m r) = (errs, t1, r1)"
    "serve pkg reqs' (t1, r1) = (errs', t2, r2)"
  shows "(t1 \<le> now + ms_Interval (mr_Settings m) \<longrightarrow>
            int (admitted (rk_ApiName (mk_RateLimitKey (mr_Key m))) reqs errs) \<le> ms_MaxRequests (mr_Settings m)) \<and>
         (t2 \<le> t1 + ms_Interval (mr_Settings m) \<longrightarrow>
            int (admitted (rk_ApiName (mk_RateLimitKey (mr_Key m))) reqs' errs') \<le> 2 * ms_MaxRequests (mr_Settings m))"
proof -
  let ?api = "rk_ApiName (mk_RateLimitKey (mr_Key m))" and ?N = "ms_MaxRequests (mr_Settings m)"
  from assms(4) have v: "ms_MaxReqsAlgorithm (mr_Settings m) = FIXED_WINDOW_ALGORITHM" "0 < ?N"
    by (auto simp: MaxReqsSettings_Validate_def split: if_splits)
  obtain k where k: "manager_interval k ?api (UpdateMaxReqsRateLimitSettings pkg now m r)
      = Some (NewIntervalLimiter now ?N (ms_Interval (mr_Settings m)))"
    using UpdateMaxReqs_window[OF assms(2,3) v(1)] by blast
  let ?s0 = "(pkg, k, ?api, UpdateMaxReqsRateLimitSettings pkg now m r)" and ?s1 = "(pkg, k, ?api, r1)"
  have l: "layer_of manager_layer ?s0 = NewIntervalLimiter now ?N (ms_Interval (mr_Settings m))"
    by (simp add: layer_of_def manager_layer_def k interval_of_def)
  have ok: "guarded manager_layer ?s0"
    using assms(1) v(2) by (simp add: guarded_def manager_layer_def k interval_ok_def NewIntervalLimiter_def)
  note run = serve_accepted[OF assms(5), of k ?api] and run' = serve_accepted[OF assms(6), of k ?api]
  note same = manager.run_ok[OF ok run]
  have "t1 \<le> now + ms_Interval (mr_Settings m) \<Longrightarrow> int (admitted ?api reqs errs) \<le> ?N"
    using manager.within_window[OF ok run] v(2) by (simp add: l interval_window_def NewIntervalLimiter_def)
  moreover have "t2 \<le> t1 + ms_Interval (mr_Settings m) \<Longrightarrow> int (admitted ?api reqs' errs') \<le> 2 * ?N"
    using manager.any_window_twice[OF conjunct1[OF same] run'] same v(2)
    by (simp add: l interval_cap_def NewIntervalLimiter_def)
  ultimately show ?thesis by blast
qed

definition free_pkg :: "unit rate_pkg" where
  "free_pkg = \<lparr>rate_NewLimiter = \<lambda>_ _. (), rate_Allow = \<lambda>_ l. (True, l), rate_Wait = \<lambda>now l. (True, now + 1, l)\<rparr>"

definition all_key :: RateLimitSettingsKey where
  "all_key = \<lparr>rk_ApiName = ''FindCloudlet'', rk_ApiEndpointType = DME, rk_RateLimitTarget = ALL_REQUESTS\<rparr>"

definition two_per_ten :: MaxReqsRateLimitSettings where
  "two_per_ten = \<lparr>mr_Key = \<lparr>mk_MaxReqsSettingsName = ''max'', mk_RateLimitKey = all_key\<rparr>,
     mr_Settings = \<lparr>ms_MaxReqsAlgorithm = FIXED_WINDOW_ALGORITHM, ms_MaxRequests = 2, ms_Interval = 10\<rparr>\<rparr>"

definition caller :: "string \<Rightarrow> CallerInfo option" where
  "caller ip = Some \<lparr>ci_Api = ''FindCloudlet'', ci_User = [], ci_Ip = ip\<rparr>"

definition three_calls :: "(int \<times> CallerInfo option) list" where
  "three_calls = [(1, caller ''a''), (2, caller ''b''), (3, caller ''a'')]"

lemma waits_forward_free: "waits_forward free_pkg"
  by (simp add: waits_forward_def free_pkg_def)

theorem RateLimitManager_window_bound_witness:
  "fst (serve free_pkg three_calls (0, UpdateMaxReqsRateLimitSettings free_pkg 0 two_per_ten (NewRateLimitManager False 5 5)))
     = [None, None, Some (ExceededLimit 2)]
   \<and> int (admitted ''FindCloudlet'' three_calls [None, None, Some (ExceededLimit 2)]) \<le> 2"
proof -
  let ?r0 = "UpdateMaxReqsRateLimitSettings free_pkg 0 two_per_ten (NewRateLimitManager False 5 5)"
  obtain errs t1 r1 where s: "serve free_pkg three_calls (0, ?r0) = (errs, t1, r1)" by (metis prod_cases3)
  have e: "fst (serve free_pkg three_calls (0, ?r0)) = [None, None, Some (ExceededLimit 2)]"
    and t: "fst (snd (serve free_pkg three_calls (0, ?r0))) = 3" by code_simp+
  have "serve free_pkg [] (t1, r1) = ([], t1, r1)" by simp
  moreover have "\<not> disableRateLimit (NewRateLimitManager False 5 5 :: unit RateLimitManager)"
    by (simp add: NewRateLimitManager_def)
  moreover have "rk_RateLimitTarget (mk_RateLimitKey (mr_Key two_per_ten)) = ALL_REQUESTS"
    "MaxReqsSettings_Validate (mr_Settings two_per_ten) = None" by code_simp+
  ultimately have "t1 \<le> 0 + ms_Interval (mr_Settings two_per_ten) \<longrightarrow>
      int (admitted (rk_ApiName (mk_RateLimitKey (mr_Key two_per_ten))) three_calls errs)
      \<le> ms_MaxRequests (mr_Settings two_per_ten)"
    using RateLimitManager_window_bound[OF waits_forward_free _ _ _ s] by blast
  then show ?thesis using e t s by (simp add: two_per_ten_def all_key_def)
qed

subsection \<open>Further properties\<close>

text \<open>
  An interval limiter is exact within its window: of any requests that arrive before the window ends, it admits
  precisely as many as the window has places left, and all of them if there are enough.
\<close>

theorem IntervalLimiter_exact:
  assumes "interval_ok i" "now \<le> il_intervalStartTime i + il_interval i"
    "\<forall>t\<in>set ts. t \<le> il_intervalStartTime i + il_interval i"
  shows "fst (accepted interval_step ts (now, i))
           = min (length ts) (nat (il_requestLimit i - il_currentNumberOfRequests i))"
  using assms
proof (induction ts arbitrary: now i)
  case (Cons t ts)
  let ?now = "max now t"
  have w: "\<not> ?now - il_intervalStartTime i > il_interval i" using Cons.prems by auto
  show ?case
  proof (cases "il_currentNumberOfRequests i \<ge> il_requestLimit i")
    case True
    then have "interval_step t (now, i) = (False, ?now, i)"
      using w Cons.prems(1) by (auto simp: interval_step_def Interval_Limit_def Let_def interval_ok_def)
    then show ?thesis using True Cons.IH[OF Cons.prems(1), of ?now] Cons.prems by (simp add: case_prod_unfold)
  next
    case False
    let ?i = "i\<lparr>il_currentNumberOfRequests := il_currentNumberOfRequests i + 1\<rparr>"
    have st: "interval_step t (now, i) = (True, ?now, ?i)"
      using w False by (auto simp: interval_step_def Interval_Limit_def Let_def)
    have "interval_ok ?i" using Cons.prems(1) False by (auto simp: interval_ok_def)
    from Cons.IH[OF this, of ?now] Cons.prems
    have "fst (accepted interval_step ts (?now, ?i))
        = min (length ts) (nat (il_requestLimit i - il_currentNumberOfRequests i - 1))" by simp
    then show ?thesis using False st by (simp add: case_prod_unfold)
  qed
qed simp

theorem IntervalLimiter_exact_witness:
  "fst (accepted interval_step [1, 2, 3] (0, NewIntervalLimiter 0 2 10)) = 2"
proof -
  have "interval_ok (NewIntervalLimiter 0 2 10)" by code_simp
  from IntervalLimiter_exact[OF this, of 0 "[1, 2, 3]"] show ?thesis by (simp add: NewIntervalLimiter_def)
qed

subsubsection \<open>How many callers are tracked\<close>

text \<open>
  The states a manager reaches by any sequence of calls, when the configured numbers of tracked addresses and users
  never exceed \<open>B\<close> and \<open>C\<close>.
\<close>

inductive reachable :: "'l rate_pkg \<Rightarrow> int \<Rightarrow> int \<Rightarrow> 'l RateLimitManager \<Rightarrow> bool" for pkg B C where
  New: "ips \<le> B \<Longrightarrow> users \<le> C \<Longrightarrow> reachable pkg B C (NewRateLimitManager dis ips users)"
| Create: "reachable pkg B C r \<Longrightarrow> reachable pkg B C (CreateApiEndpointLimiter pkg now api allReqs perIp perUser r)"
| UpdateFlow: "reachable pkg B C r \<Longrightarrow> reachable pkg B C (UpdateFlowRateLimitSettings pkg now f r)"
| UpdateMaxReqs: "reachable pkg B C r \<Longrightarrow> reachable pkg B C (UpdateMaxReqsRateLimitSettings pkg now m r)"
| RemoveFlow: "reachable pkg B C r \<Longrightarrow> RemoveFlowRateLimitSettings pkg now fkey r = Some r' \<Longrightarrow> reachable pkg B C r'"
| RemoveMaxReqs: "reachable pkg B C r \<Longrightarrow> RemoveMaxReqsRateLimitSettings pkg now mkey r = Some r' \<Longrightarrow> reachable pkg B C r'"
| PruneFlow: "reachable pkg B C r \<Longrightarrow> reachable pkg B C (PruneFlowRateLimitSettings pkg now fkeys r)"
| PruneMaxReqs: "reachable pkg B C r \<Longrightarrow> reachable pkg B C (PruneMaxReqsRateLimitSettings pkg now mkeys r)"
| Disable: "reachable pkg B C r \<Longrightarrow> reachable pkg B C (UpdateDisableRateLimit dis r)"
| MaxIps: "reachable pkg B C r \<Longrightarrow> mx \<le> B \<Longrightarrow> reachable pkg B C (UpdateMaxTrackedIps mx r)"
| MaxUsers: "reachable pkg B C r \<Longrightarrow> mx \<le> C \<Longrightarrow> reachable pkg B C (UpdateMaxTrackedUsers mx r)"
| Limit: "reachable pkg B C r \<Longrightarrow> manager_Limit pkg now info r = (e, now', r') \<Longrightarrow> reachable pkg B C r'"

definition tracked_ok :: "int \<Rightarrow> ('k, 'v) gomap \<Rightarrow> bool" where
  "tracked_ok B m = (go_map m \<and> int (length m) \<le> max 1 B)"

definition endpoint_ok :: "int \<Rightarrow> int \<Rightarrow> 'l apiEndpointLimiter \<Rightarrow> bool" where
  "endpoint_ok B C a = (maxNumIps a \<le> B \<and> maxNumUsers a \<le> C \<and> tracked_ok B (limitsPerIp a) \<and> tracked_ok C (limitsPerUser a))"

definition manager_ok :: "int \<Rightarrow> int \<Rightarrow> 'l RateLimitManager \<Rightarrow> bool" where
  "manager_ok B C r =
     (maxTrackedIps r \<le> B \<and> maxTrackedUsers r \<le> C \<and> go_map (limitsPerApi r) \<and>
      list_all (\<lambda>(_, a). endpoint_ok B C a) (limitsPerApi r))"

lemma tracked_ok_Nil [simp]: "tracked_ok B []"
  by (simp add: tracked_ok_def)

lemma length_update: "length (AList.update k v m) = (if k \<in> set (keys m) then length m else Suc (length m))"
  by (induction m) auto

lemma remove_excess_suffix: "suffix (remove_excess mx m) m"
  by (induction m) (auto intro: suffix_ConsI)

lemma remove_excess_length: "int (length (remove_excess mx m)) < max 1 mx"
  by (induction m) auto

lemma remove_excess_go_map: "go_map m \<Longrightarrow> go_map (remove_excess mx m)"
proof (induction m)
  case (Cons e m)
  then show ?case by (cases e) auto
qed simp

lemma tracked_ok_known:
  "tracked_ok B m \<Longrightarrow> map_of m k = Some v \<Longrightarrow> tracked_ok B (AList.update k w m)"
  using map_of_SomeD_keys[of m k v] by (simp add: tracked_ok_def length_update)

lemma tracked_ok_new:
  assumes "tracked_ok B m" "mx \<le> B"
  shows "tracked_ok B (AList.update k v (remove_excess mx m))"
  using remove_excess_length[of mx m] remove_excess_go_map[of m mx] assms
  by (auto simp: tracked_ok_def length_update)

lemma limit_by_ip_ok:
  assumes "endpoint_ok B C a" "limit_by_ip pkg now ip a = (e, now', a')"
  shows "endpoint_ok B C a'"
proof (cases "doesLimitByIp a \<and> ip \<noteq> []")
  case True
  show ?thesis
  proof (cases "map_of (limitsPerIp a) ip")
    case None
    then show ?thesis
      using assms True tracked_ok_new[of B "limitsPerIp a" "maxNumIps a" ip]
      by (auto simp: limit_by_ip_def removeExcessIps_def endpoint_ok_def split: prod.splits)
  next
    case (Some l)
    then show ?thesis
      using assms True tracked_ok_known[of B "limitsPerIp a" ip l]
      by (auto simp: limit_by_ip_def endpoint_ok_def split: prod.splits)
  qed
qed (use assms in \<open>auto simp: limit_by_ip_def\<close>)

lemma limit_by_user_ok:
  assumes "endpoint_ok B C a" "limit_by_user pkg now user a = (e, now', a')"
  shows "endpoint_ok B C a'"
proof (cases "doesLimitByUser a \<and> user \<noteq> []")
  case True
  show ?thesis
  proof (cases "map_of (limitsPerUser a) user")
    case None
    then show ?thesis
      using assms True tracked_ok_new[of C "limitsPerUser a" "maxNumUsers a" user]
      by (auto simp: limit_by_user_def removeExcessUsers_def endpoint_ok_def split: prod.splits)
  next
    case (Some l)
    then show ?thesis
      using assms True tracked_ok_known[of C "limitsPerUser a" user l]
      by (auto simp: limit_by_user_def endpoint_ok_def split: prod.splits)
  qed
qed (use assms in \<open>auto simp: limit_by_user_def\<close>)

lemma endpoint_Limit_ok:
  assumes "endpoint_ok B C a" "endpoint_Limit pkg now info a = (e, now', a')"
  shows "endpoint_ok B C a'"
proof (cases info)
  case (Some c)
  obtain e1 now1 a1 where s1: "limit_by_ip pkg now (ci_Ip c) a = (e1, now1, a1)" by (metis prod_cases3)
  obtain e2 now2 a2 where s2: "limit_by_user pkg now1 (ci_User c) a1 = (e2, now2, a2)" by (metis prod_cases3)
  obtain e3 now3 a3 where s3: "limit_all pkg now2 a2 = (e3, now3, a3)" by (metis prod_cases3)
  have a1: "endpoint_ok B C a1" by (rule limit_by_ip_ok[OF assms(1) s1])
  have a2: "endpoint_ok B C a2" by (rule limit_by_user_ok[OF a1 s2])
  have "endpoint_ok B C a3" using a2 s3
    by (auto simp: limit_all_def endpoint_ok_def Let_def split: if_splits prod.splits)
  with a1 a2 assms(2) Some s1 s2 s3 show ?thesis by (auto simp: endpoint_Limit_def split: option.splits)
qed (use assms in \<open>auto simp: endpoint_Limit_def\<close>)

lemma set_ok [wf_intros]:
  "endpoint_ok B C a \<Longrightarrow> endpoint_ok B C (set_all pkg now s a)"
  "endpoint_ok B C a \<Longrightarrow> endpoint_ok B C (set_ip s a)"
  "endpoint_ok B C a \<Longrightarrow> endpoint_ok B C (set_user s a)"
  "endpoint_ok B C a \<Longrightarrow> endpoint_ok B C (drop_all_setting pkg now rm a)"
  "endpoint_ok B C a \<Longrightarrow> endpoint_ok B C (drop_ip_setting rm a)"
  "endpoint_ok B C a \<Longrightarrow> endpoint_ok B C (drop_user_setting rm a)"
  by (auto simp: endpoint_ok_def set_all_def set_ip_def set_user_def drop_all_setting_def drop_ip_setting_def
      drop_user_setting_def split: option.splits)

lemma fold_ok: "(\<And>x a. P a \<Longrightarrow> P (f x a)) \<Longrightarrow> P a \<Longrightarrow> P (fold f xs a)"
  by (induction xs arbitrary: a) auto

lemma update_settings_ok:
  assumes "endpoint_ok B C a"
  shows "endpoint_ok B C (updateFlowRateLimitSettings pkg now f a)"
    "endpoint_ok B C (updateMaxReqsRateLimitSettings pkg now m a)"
  using assms set_ok(1-3)[OF assms]
  by (simp_all add: updateFlowRateLimitSettings_def updateMaxReqsRateLimitSettings_def Let_def
      split: option.split RateLimitTarget.split)

lemma prune_settings_ok:
  assumes "endpoint_ok B C a"
  shows "endpoint_ok B C (pruneFlowRateLimitSettings pkg now fks a)"
    "endpoint_ok B C (pruneMaxReqsRateLimitSettings pkg now mks a)"
  unfolding pruneFlowRateLimitSettings_def pruneMaxReqsRateLimitSettings_def Let_def
  by (intro fold_ok[where P = "endpoint_ok B C"] set_ok assms; assumption?)+

lemma remove_ok:
  "endpoint_ok B C a \<Longrightarrow> removeFlowRateLimitSettings pkg now t name a = Some a' \<Longrightarrow> endpoint_ok B C a'"
  "endpoint_ok B C a \<Longrightarrow> removeMaxReqsRateLimitSettings pkg now t name a = Some a' \<Longrightarrow> endpoint_ok B C a'"
  by (auto simp: removeFlowRateLimitSettings_def removeMaxReqsRateLimitSettings_def Let_def intro: wf_intros
      split: RateLimitTarget.splits)

lemma set_update_subset: "set (AList.update k v m) \<subseteq> insert (k, v) (set m)"
  by (induction m) auto

lemma set_delete_subset: "set (AList.delete k m) \<subseteq> set m"
  by (auto simp: AList.delete_eq)

lemma manager_ok_update:
  "manager_ok B C r \<Longrightarrow> endpoint_ok B C a \<Longrightarrow> manager_ok B C (r\<lparr>limitsPerApi := AList.update api a (limitsPerApi r)\<rparr>)"
  using set_update_subset[of api a "limitsPerApi r"] by (auto simp: manager_ok_def list_all_iff)

lemma manager_ok_put_or_drop: "manager_ok B C r \<Longrightarrow> endpoint_ok B C a \<Longrightarrow> manager_ok B C (put_or_drop api a r)"
  using set_delete_subset[of api "limitsPerApi r"]
  by (auto simp: put_or_drop_def manager_ok_update) (auto simp: manager_ok_def list_all_iff)

lemma manager_ok_entry: "manager_ok B C r \<Longrightarrow> map_of (limitsPerApi r) api = Some a \<Longrightarrow> endpoint_ok B C a"
proof -
  assume r: "manager_ok B C r" and "map_of (limitsPerApi r) api = Some a"
  then have "(api, a) \<in> set (limitsPerApi r)" by (intro map_of_SomeD)
  with r show ?thesis by (force simp: manager_ok_def list_all_iff)
qed

lemma newApiEndpointLimiter_ok:
  "manager_ok B C r \<Longrightarrow> endpoint_ok B C (newApiEndpointLimiter pkg now api st (maxTrackedIps r) (maxTrackedUsers r))"
  by (simp add: manager_ok_def endpoint_ok_def newApiEndpointLimiter_def)

lemma limiter_or_new_ok: "manager_ok B C r \<Longrightarrow> endpoint_ok B C (limiter_or_new pkg now api r)"
proof (cases "map_of (limitsPerApi r) api")
  case (Some a)
  moreover assume "manager_ok B C r"
  ultimately show ?thesis using manager_ok_entry by (simp add: limiter_or_new_def)
qed (simp add: limiter_or_new_def newApiEndpointLimiter_ok del: map_of_eq_None_keys)

lemma manager_ok_fold:
  "manager_ok B C r \<Longrightarrow> list_all (\<lambda>(_, a). endpoint_ok B C a) es \<Longrightarrow> (\<And>a. endpoint_ok B C a \<Longrightarrow> endpoint_ok B C (f a))
   \<Longrightarrow> manager_ok B C (fold (\<lambda>(api, a). put_or_drop api (f a)) es r)"
  by (induction es arbitrary: r) (auto intro: manager_ok_put_or_drop)

lemma reachable_ok: "reachable pkg B C r \<Longrightarrow> manager_ok B C r"
proof (induction rule: reachable.induct)
  case (New ips users dis)
  then show ?case by (simp add: manager_ok_def NewRateLimitManager_def)
next
  case (Create r now api allReqs perIp perUser)
  then show ?case
    by (simp add: CreateApiEndpointLimiter_def Let_def manager_ok_update newApiEndpointLimiter_ok)
next
  case (UpdateFlow r now f)
  then show ?case
    by (simp add: UpdateFlowRateLimitSettings_def Let_def manager_ok_update limiter_or_new_ok update_settings_ok)
next
  case (UpdateMaxReqs r now m)
  then show ?case
    by (simp add: UpdateMaxReqsRateLimitSettings_def Let_def manager_ok_update limiter_or_new_ok update_settings_ok)
next
  case (RemoveFlow r now fkey r')
  then show ?case
    by (auto simp: RemoveFlowRateLimitSettings_def Let_def split: option.splits
        intro: manager_ok_put_or_drop remove_ok(1)[OF manager_ok_entry])
next
  case (RemoveMaxReqs r now mkey r')
  then show ?case
    by (auto simp: RemoveMaxReqsRateLimitSettings_def Let_def split: option.splits
        intro: manager_ok_put_or_drop remove_ok(2)[OF manager_ok_entry])
next
  case (PruneFlow r now fkeys)
  then show ?case unfolding PruneFlowRateLimitSettings_def
    by (intro manager_ok_fold prune_settings_ok) (auto simp: manager_ok_def)
next
  case (PruneMaxReqs r now mkeys)
  then show ?case unfolding PruneMaxReqsRateLimitSettings_def
    by (intro manager_ok_fold prune_settings_ok) (auto simp: manager_ok_def)
next
  case (Disable r dis)
  then show ?case by (simp add: UpdateDisableRateLimit_def manager_ok_def)
next
  case (MaxIps r mx)
  then show ?case
    by (auto simp: UpdateMaxTrackedIps_def manager_ok_def list_all_iff updateMaxNumIps_def endpoint_ok_def comp_def
        case_prod_unfold)
next
  case (MaxUsers r mx)
  then show ?case
    by (auto simp: UpdateMaxTrackedUsers_def manager_ok_def list_all_iff updateMaxNumUsers_def endpoint_ok_def comp_def
        case_prod_unfold)
next
  case (Limit r now info e now' r')
  then show ?case
    by (auto simp: manager_Limit_def Let_def split: if_splits option.splits prod.splits
        intro: manager_ok_update endpoint_Limit_ok[OF manager_ok_entry[OF _ responsible_entry]])
qed

text \<open>
  However many distinct addresses and users call, and whatever settings are changed in between, the manager
  never tracks more of them per API than the largest maximum ever configured (one, if that is not positive), and its
  maps stay well formed.
\<close>

theorem RateLimitManager_tracking_bounded:
  assumes "reachable pkg B C r" "map_of (limitsPerApi r) api = Some a"
  shows "int (length (limitsPerIp a)) \<le> max 1 B \<and> int (length (limitsPerUser a)) \<le> max 1 C \<and>
         go_map (limitsPerIp a) \<and> go_map (limitsPerUser a)"
  using manager_ok_entry[OF reachable_ok[OF assms(1)] assms(2)] by (simp add: endpoint_ok_def tracked_ok_def)

definition ip_mgr :: "unit RateLimitManager" where
  "ip_mgr = UpdateMaxReqsRateLimitSettings free_pkg 0
     (two_per_ten\<lparr>mr_Key := (mr_Key two_per_ten)\<lparr>mk_RateLimitKey := all_key\<lparr>rk_RateLimitTarget := PER_IP\<rparr>\<rparr>\<rparr>)
     (NewRateLimitManager False 1 1)"

lemma reachable_Limit: "reachable pkg B C r \<Longrightarrow> reachable pkg B C (snd (snd (manager_Limit pkg now info r)))"
  by (cases "manager_Limit pkg now info r") (auto intro: reachable.Limit)

definition ip_mgr_called :: "unit RateLimitManager" where
  "ip_mgr_called = snd (snd (manager_Limit free_pkg 2 (caller ''b'') (snd (snd (manager_Limit free_pkg 1 (caller ''a'') ip_mgr)))))"

theorem RateLimitManager_tracking_bounded_witness:
  "map (\<lambda>(_, a). keys (limitsPerIp a)) (limitsPerApi ip_mgr_called) = [[''b'']]
   \<and> int (length (limitsPerIp (snd (hd (limitsPerApi ip_mgr_called))))) \<le> 1"
proof -
  let ?r1 = "snd (snd (manager_Limit free_pkg 1 (caller ''a'') ip_mgr))"
  have "reachable free_pkg 1 1 ip_mgr" unfolding ip_mgr_def by (intro reachable.UpdateMaxReqs reachable.New) simp_all
  then have "reachable free_pkg 1 1 ?r1" by (rule reachable_Limit)
  then have r: "reachable free_pkg 1 1 ip_mgr_called"
    unfolding ip_mgr_called_def by (rule reachable_Limit)
  have k: "map (\<lambda>(_, a). keys (limitsPerIp a)) (limitsPerApi ip_mgr_called) = [[''b'']]" by code_simp
  have m: "map_of (limitsPerApi ip_mgr_called) ''FindCloudlet'' = Some (snd (hd (limitsPerApi ip_mgr_called)))" by code_simp
  from RateLimitManager_tracking_bounded[OF r m] k show ?thesis by simp
qed

subsubsection \<open>Conversions\<close>

text \<open>
  A store whose insertions overwrite at one key: after inserting a list with distinct keys, exactly its elements are found.
\<close>

locale keyed_store =
  fixes add :: "'f \<Rightarrow> 'm \<Rightarrow> 'm"
    and look :: "'m \<Rightarrow> 'k \<Rightarrow> 'v option"
    and kf :: "'f \<Rightarrow> 'k"
    and vf :: "'f \<Rightarrow> 'v"
  assumes look_add: "look (add f m) k = (if k = kf f then Some (vf f) else look m k)"
begin

lemma look_fold_other: "k \<notin> kf ` set fs \<Longrightarrow> look (fold add fs m) k = look m k"
  by (induction fs arbitrary: m) (auto simp: look_add)

lemma look_fold_mem: "distinct (map kf fs) \<Longrightarrow> f \<in> set fs \<Longrightarrow> look (fold add fs m) (kf f) = Some (vf f)"
  by (induction fs arbitrary: m) (auto simp: look_add look_fold_other)

lemma look_fold_iff:
  assumes "distinct (map kf fs)" "look m k = None"
  shows "look (fold add fs m) k = Some v \<longleftrightarrow> (\<exists>f\<in>set fs. kf f = k \<and> vf f = v)"
proof
  assume l: "look (fold add fs m) k = Some v"
  then have "k \<in> kf ` set fs" using look_fold_other[of k fs m] assms(2) by force
  then show "\<exists>f\<in>set fs. kf f = k \<and> vf f = v" using look_fold_mem[OF assms(1), of _ m] l by force
qed (use look_fold_mem[OF assms(1), of _ m] in auto)

end

definition look_flow :: "settingsmap \<Rightarrow> FlowRateLimitSettingsKey \<Rightarrow> FlowSettings option" where
  "look_flow m k = map_of (rs_FlowSettings (settings_for m (fk_RateLimitKey k))) (fk_FlowSettingsName k)"

definition look_maxreqs :: "settingsmap \<Rightarrow> MaxReqsRateLimitSettingsKey \<Rightarrow> MaxReqsSettings option" where
  "look_maxreqs m k = map_of (rs_MaxReqsSettings (settings_for m (mk_RateLimitKey k))) (mk_MaxReqsSettingsName k)"

lemma settings_for_update: "settings_for (AList.update k s m) k' = (if k' = k then s else settings_for m k')"
  by (simp add: settings_for_def)

interpretation flow_store: keyed_store add_flow look_flow fr_Key fr_Settings
proof
  fix f m and k :: FlowRateLimitSettingsKey
  show "look_flow (add_flow f m) k = (if k = fr_Key f then Some (fr_Settings f) else look_flow m k)"
    by (cases k; cases "fr_Key f")
      (auto simp: look_flow_def add_flow_def Let_def settings_for_update UpdateFlowSettings_def)
qed

interpretation maxreqs_store: keyed_store add_maxreqs look_maxreqs mr_Key mr_Settings
proof
  fix r m and k :: MaxReqsRateLimitSettingsKey
  show "look_maxreqs (add_maxreqs r m) k = (if k = mr_Key r then Some (mr_Settings r) else look_maxreqs m k)"
    by (cases k; cases "mr_Key r")
      (auto simp: look_maxreqs_def add_maxreqs_def Let_def settings_for_update UpdateMaxReqsSettings_def)
qed

lemma look_flow_maxreqs: "look_flow (fold add_maxreqs ms m) k = look_flow m k"
  by (induction ms arbitrary: m)
    (auto simp: look_flow_def add_maxreqs_def Let_def settings_for_update UpdateMaxReqsSettings_def)

lemma look_maxreqs_flow: "look_maxreqs (fold add_flow fs m) k = look_maxreqs m k"
  by (induction fs arbitrary: m)
    (auto simp: look_maxreqs_def add_flow_def Let_def settings_for_update UpdateFlowSettings_def)

text \<open>The settings map under construction: keys agree with the entries and the inner maps are maps.\<close>

definition settings_entry_ok :: "RateLimitSettingsKey \<Rightarrow> RateLimitSettings \<Rightarrow> bool" where
  "settings_entry_ok k s = (rs_Key s = k \<and> go_map (rs_FlowSettings s) \<and> go_map (rs_MaxReqsSettings s))"

definition settingsmap_ok :: "settingsmap \<Rightarrow> bool" where
  "settingsmap_ok m = (go_map m \<and> (\<forall>k s. map_of m k = Some s \<longrightarrow> settings_entry_ok k s))"

lemma settings_for_ok: "settingsmap_ok m \<Longrightarrow> settings_entry_ok k (settings_for m k)"
proof (cases "map_of m k")
  case None
  then show ?thesis by (simp add: settings_for_def new_settings_def settings_entry_ok_def del: map_of_eq_None_keys)
qed (simp add: settings_for_def settingsmap_ok_def)

lemma settingsmap_ok_update:
  "settingsmap_ok m \<Longrightarrow> settings_entry_ok k s \<Longrightarrow> settingsmap_ok (AList.update k s m)"
  by (simp add: settingsmap_ok_def)

lemma settingsmap_ok_add:
  assumes "settingsmap_ok m"
  shows "settingsmap_ok (add_flow f m)" "settingsmap_ok (add_maxreqs r m)"
  using settings_for_ok[OF assms]
  by (auto simp: add_flow_def add_maxreqs_def Let_def settings_entry_ok_def UpdateFlowSettings_def UpdateMaxReqsSettings_def
      intro!: settingsmap_ok_update[OF assms])

lemma settingsmap_ok_built: "settingsmap_ok (fold add_maxreqs ms (fold add_flow fs []))"
proof -
  have "settingsmap_ok []" by (simp add: settingsmap_ok_def)
  then have "settingsmap_ok (fold add_flow fs [])" using fold_ok[of settingsmap_ok add_flow] settingsmap_ok_add(1) by blast
  then show ?thesis using fold_ok[of settingsmap_ok add_maxreqs] settingsmap_ok_add(2) by blast
qed

lemma settings_for_entry:
  assumes "settingsmap_ok m" "(k, s) \<in> set m"
  shows "settings_for m k = s \<and> settings_entry_ok k s"
proof -
  from assms have "map_of m k = Some s" unfolding settingsmap_ok_def by (blast intro: map_of_is_SomeI)
  with assms(1) show ?thesis unfolding settingsmap_ok_def by (metis option.simps(5) settings_for_def)
qed

lemma mem_flows_of:
  "f \<in> set (flows_of s) \<longleftrightarrow> fk_RateLimitKey (fr_Key f) = rs_Key s \<and> (fk_FlowSettingsName (fr_Key f), fr_Settings f) \<in> set (rs_FlowSettings s)"
  by (cases f; cases "fr_Key f") (force simp: flows_of_def image_iff)

lemma mem_maxreqs_of:
  "f \<in> set (maxreqs_of s) \<longleftrightarrow> mk_RateLimitKey (mr_Key f) = rs_Key s \<and> (mk_MaxReqsSettingsName (mr_Key f), mr_Settings f) \<in> set (rs_MaxReqsSettings s)"
  by (cases f; cases "mr_Key f") (force simp: maxreqs_of_def image_iff)

lemma settings_for_mem: "x \<in> set (rs_FlowSettings (settings_for m k)) \<or> y \<in> set (rs_MaxReqsSettings (settings_for m k))
   \<Longrightarrow> (k, settings_for m k) \<in> set m"
  by (cases "map_of m k") (auto simp: settings_for_def new_settings_def dest: map_of_SomeD simp del: map_of_eq_None_keys)

lemma mem_all_flows:
  assumes "settingsmap_ok m"
  shows "f \<in> set (concat (map flows_of (map snd m))) \<longleftrightarrow> look_flow m (fr_Key f) = Some (fr_Settings f)"
proof
  assume "f \<in> set (concat (map flows_of (map snd m)))"
  then obtain k s where ks: "(k, s) \<in> set m" "f \<in> set (flows_of s)" by auto
  with settings_for_entry[OF assms ks(1)] show "look_flow m (fr_Key f) = Some (fr_Settings f)"
    by (auto simp: mem_flows_of look_flow_def settings_entry_ok_def intro: map_of_is_SomeI)
next
  let ?k = "fk_RateLimitKey (fr_Key f)"
  assume "look_flow m (fr_Key f) = Some (fr_Settings f)"
  then have mem: "(fk_FlowSettingsName (fr_Key f), fr_Settings f) \<in> set (rs_FlowSettings (settings_for m ?k))"
    unfolding look_flow_def by (rule map_of_SomeD)
  then have "(?k, settings_for m ?k) \<in> set m" using settings_for_mem by blast
  moreover have "f \<in> set (flows_of (settings_for m ?k))"
    using mem settings_for_ok[OF assms, of ?k] by (simp add: mem_flows_of settings_entry_ok_def)
  ultimately show "f \<in> set (concat (map flows_of (map snd m)))" by force
qed

lemma mem_all_maxreqs:
  assumes "settingsmap_ok m"
  shows "f \<in> set (concat (map maxreqs_of (map snd m))) \<longleftrightarrow> look_maxreqs m (mr_Key f) = Some (mr_Settings f)"
proof
  assume "f \<in> set (concat (map maxreqs_of (map snd m)))"
  then obtain k s where ks: "(k, s) \<in> set m" "f \<in> set (maxreqs_of s)" by auto
  with settings_for_entry[OF assms ks(1)] show "look_maxreqs m (mr_Key f) = Some (mr_Settings f)"
    by (auto simp: mem_maxreqs_of look_maxreqs_def settings_entry_ok_def intro: map_of_is_SomeI)
next
  let ?k = "mk_RateLimitKey (mr_Key f)"
  assume "look_maxreqs m (mr_Key f) = Some (mr_Settings f)"
  then have mem: "(mk_MaxReqsSettingsName (mr_Key f), mr_Settings f) \<in> set (rs_MaxReqsSettings (settings_for m ?k))"
    unfolding look_maxreqs_def by (rule map_of_SomeD)
  then have "(?k, settings_for m ?k) \<in> set m" using settings_for_mem by blast
  moreover have "f \<in> set (maxreqs_of (settings_for m ?k))"
    using mem settings_for_ok[OF assms, of ?k] by (simp add: mem_maxreqs_of settings_entry_ok_def)
  ultimately show "f \<in> set (concat (map maxreqs_of (map snd m)))" by force
qed

lemma look_Nil: "look_flow [] k = None" "look_maxreqs [] k' = None"
  by (simp_all add: look_flow_def look_maxreqs_def settings_for_def new_settings_def)

text \<open>
  Grouping the database's rate limit records by key for the user and splitting them again loses nothing and
  adds nothing: with distinct record keys, exactly the original flow records and the original max-request records come back.
\<close>

theorem DbToUserSettings_roundtrip:
  assumes "distinct (map fr_Key fs)" "distinct (map mr_Key ms)"
  shows "set (fst (UserToDbSettings (DbToUserSettings fs ms))) = set fs \<and>
         set (snd (UserToDbSettings (DbToUserSettings fs ms))) = set ms"
proof -
  let ?m = "fold add_maxreqs ms (fold add_flow fs [])"
  have "f \<in> set (concat (map flows_of (map snd ?m))) \<longleftrightarrow> f \<in> set fs" for f
    unfolding mem_all_flows[OF settingsmap_ok_built] look_flow_maxreqs flow_store.look_fold_iff[OF assms(1) look_Nil(1)]
    by (metis FlowRateLimitSettings.equality old.unit.exhaust)
  moreover have "f \<in> set (concat (map maxreqs_of (map snd ?m))) \<longleftrightarrow> f \<in> set ms" for f
    unfolding mem_all_maxreqs[OF settingsmap_ok_built]
      maxreqs_store.look_fold_iff[OF assms(2) trans[OF look_maxreqs_flow look_Nil(2)]]
    by (metis MaxReqsRateLimitSettings.equality old.unit.exhaust)
  ultimately show ?thesis unfolding UserToDbSettings_def DbToUserSettings_def fst_conv snd_conv by blast
qed

definition one_flow :: FlowRateLimitSettings where
  "one_flow = \<lparr>fr_Key = \<lparr>fk_FlowSettingsName = ''f'', fk_RateLimitKey = all_key\<rparr>,
     fr_Settings = \<lparr>fs_FlowAlgorithm = TOKEN_BUCKET_ALGORITHM, fs_ReqsPerSecond = 100, fs_BurstSize = 10\<rparr>\<rparr>"

theorem DbToUserSettings_roundtrip_witness:
  "length (DbToUserSettings [one_flow] [two_per_ten]) = 1 \<and>
   set (fst (UserToDbSettings (DbToUserSettings [one_flow] [two_per_ten]))) = {one_flow}"
proof
  show "length (DbToUserSettings [one_flow] [two_per_ten]) = 1" by code_simp
  show "set (fst (UserToDbSettings (DbToUserSettings [one_flow] [two_per_ten]))) = {one_flow}"
    using DbToUserSettings_roundtrip[of "[one_flow]" "[two_per_ten]"] by simp
qed

subsubsection \<open>Pruning and removing settings\<close>

lemma prune_keeps_users:
  "limitsPerUser (drop_all_setting pkg now rm a) = limitsPerUser a"
  "limitsPerUser (drop_ip_setting rm a) = limitsPerUser a"
  "limitsPerUser (drop_user_setting rm a) = limitsPerUser a"
  by (simp_all add: drop_all_setting_def drop_ip_setting_def drop_user_setting_def set_all_def set_ip_def split: option.split)

lemma fold_keeps_value: "(\<And>x a. g (f x a) = g a) \<Longrightarrow> g (fold f xs a) = g a"
  by (induction xs arbitrary: a) auto

lemma prune_limitsPerUser:
  "limitsPerUser (pruneFlowRateLimitSettings pkg now fks a) = limitsPerUser a"
  "limitsPerUser (pruneMaxReqsRateLimitSettings pkg now mks a) = limitsPerUser a"
  by (simp_all add: pruneFlowRateLimitSettings_def pruneMaxReqsRateLimitSettings_def Let_def prune_keeps_users
      fold_keeps_value[where g = limitsPerUser])

definition user_endpoint :: "unit apiEndpointLimiter" where
  "user_endpoint = updateMaxReqsRateLimitSettings free_pkg 0
     (Some (two_per_ten\<lparr>mr_Key := (mr_Key two_per_ten)\<lparr>mk_RateLimitKey := all_key\<lparr>rk_RateLimitTarget := PER_USER\<rparr>\<rparr>,
        mr_Settings := (mr_Settings two_per_ten)\<lparr>ms_MaxRequests := 1\<rparr>\<rparr>))
     (newApiEndpointLimiter free_pkg 0 ''FindCloudlet'' no_settings 5 5)"

definition user_call :: "CallerInfo option" where
  "user_call = Some \<lparr>ci_Api = ''FindCloudlet'', ci_User = ''u'', ci_Ip = []\<rparr>"

text \<open>
  Pruning never renews the limiters of users: both prunes leave \<^verbatim>\<open>limitsPerUser\<close> as it was, because the
  per-user section renews \<^verbatim>\<open>limitsPerIp\<close> instead. So a user whose only limit has been pruned away is still rejected
  by it, as the last line shows on a concrete endpoint.
\<close>

theorem prune_leaves_user_limiters:
  "limitsPerUser (pruneFlowRateLimitSettings pkg now fks a) = limitsPerUser a \<and>
   limitsPerUser (pruneMaxReqsRateLimitSettings pkg now mks a) = limitsPerUser a \<and>
   (let used = snd (snd (endpoint_Limit free_pkg 1 user_call user_endpoint)); pruned = pruneMaxReqsRateLimitSettings free_pkg 2 [] used
    in isEmpty pruned \<and> fst (endpoint_Limit free_pkg 3 user_call pruned) = Some (PerUserExceeded (ExceededLimit 1)))"
proof -
  have "let used = snd (snd (endpoint_Limit free_pkg 1 user_call user_endpoint)); pruned = pruneMaxReqsRateLimitSettings free_pkg 2 [] used
    in isEmpty pruned \<and> fst (endpoint_Limit free_pkg 3 user_call pruned) = Some (PerUserExceeded (ExceededLimit 1))"
    by code_simp
  then show ?thesis by (simp only: prune_limitsPerUser)
qed

definition settings_of_target :: "RateLimitTarget \<Rightarrow> apiEndpointRateLimitSettings \<Rightarrow> RateLimitSettings option" where
  "settings_of_target t st =
     (case t of ALL_REQUESTS \<Rightarrow> AllRequestsRateLimitSettings st | PER_IP \<Rightarrow> PerIpRateLimitSettings st
      | PER_USER \<Rightarrow> PerUserRateLimitSettings st | UNKNOWN_TARGET \<Rightarrow> None)"

text \<open>
  Removing a flow setting panics on a nil pointer exactly when the API has a limiter that has no settings at all for the
  removed key's target.
\<close>

theorem RemoveFlow_panics_iff:
  "RemoveFlowRateLimitSettings pkg now key r = None \<longleftrightarrow>
     rk_RateLimitTarget (fk_RateLimitKey key) \<noteq> UNKNOWN_TARGET \<and>
     (\<exists>a. map_of (limitsPerApi r) (rk_ApiName (fk_RateLimitKey key)) = Some a \<and>
          settings_of_target (rk_RateLimitTarget (fk_RateLimitKey key)) (rlSettings a) = None)"
proof (cases "map_of (limitsPerApi r) (rk_ApiName (fk_RateLimitKey key))")
  case None
  then show ?thesis unfolding RemoveFlowRateLimitSettings_def Let_def None by (simp del: map_of_eq_None_keys)
next
  case (Some a)
  then show ?thesis unfolding RemoveFlowRateLimitSettings_def Let_def Some
    by (cases "rk_RateLimitTarget (fk_RateLimitKey key)")
      (simp_all add: removeFlowRateLimitSettings_def settings_of_target_def)
qed


end
