(* ===== verification/KeyWorkers.thy ===== *)
theory KeyWorkers
  imports Prelude
begin

text \<open>
  \<^verbatim>\<open>pkg/util/tasks/keyworkers.go\<close>: worker threads by key. A method that holds the mutex is one step; a worker thread
  is a program counter per goroutine, and the steps of all threads and callers interleave freely. The contexts, the
  channel closed at the end and the wait group counters are left out: nothing in this file reads them. The
  trace records requests and the runs of the work function, so that the theorems can speak about their order.
\<close>

subsection \<open>The model\<close>

text \<open>A goroutine waits for the pause to end, then takes the mutex, then runs the work function.\<close>

datatype thread_pc = Waiting | Resumed | Working

record keyWorker =
  needsWork :: bool

datatype 'k kw_event = Requested 'k | Started 'k | Finished 'k

record 'k KeyWorkers =
  workers :: "('k, keyWorker) gomap"
  paused :: bool
  threads :: "('k \<times> thread_pc) list"
  kw_trace :: "'k kw_event list"

definition InitKW :: "'k KeyWorkers" where
  "InitKW = \<lparr>workers = [], paused = False, threads = [], kw_trace = []\<rparr>"

definition NeedsWork :: "'k \<Rightarrow> 'k KeyWorkers \<Rightarrow> 'k KeyWorkers" where
  "NeedsWork key s =
     (let s = s\<lparr>kw_trace := kw_trace s @ [Requested key]\<rparr>
      in case map_of (workers s) key of
           None \<Rightarrow> s\<lparr>workers := AList.update key \<lparr>needsWork = True\<rparr> (workers s), threads := threads s @ [(key, Waiting)]\<rparr>
         | Some worker \<Rightarrow> s\<lparr>workers := AList.update key (worker\<lparr>needsWork := True\<rparr>) (workers s)\<rparr>)"

definition WorkerCount :: "'k KeyWorkers \<Rightarrow> nat" where
  "WorkerCount s = length (workers s)"

definition Pause :: "'k KeyWorkers \<Rightarrow> 'k KeyWorkers" where
  "Pause s = (if paused s then s else s\<lparr>paused := True\<rparr>)"

definition Resume :: "'k KeyWorkers \<Rightarrow> 'k KeyWorkers" where
  "Resume s = (if \<not> paused s then s else s\<lparr>paused := False\<rparr>)"

text \<open>
  One step of the goroutine at position \<open>i\<close>. \<open>None\<close>: it cannot move, because of the pause. The section under the
  mutex either ends the thread or starts the work function.
\<close>

definition drop_nth :: "nat \<Rightarrow> 'a list \<Rightarrow> 'a list" where
  "drop_nth i xs = take i xs @ drop (Suc i) xs"

definition runWorker :: "nat \<Rightarrow> 'k KeyWorkers \<Rightarrow> 'k KeyWorkers option" where
  "runWorker i s =
     (case threads s ! i of (key, pc) \<Rightarrow>
        (case pc of
           Waiting \<Rightarrow> if paused s then None else Some (s\<lparr>threads := (threads s)[i := (key, Resumed)]\<rparr>)
         | Resumed \<Rightarrow>
             (case map_of (workers s) key of
                None \<Rightarrow> None
              | Some worker \<Rightarrow>
                  if \<not> needsWork worker
                  then Some (s\<lparr>workers := AList.delete key (workers s), threads := drop_nth i (threads s)\<rparr>)
                  else Some (s\<lparr>workers := AList.update key (worker\<lparr>needsWork := False\<rparr>) (workers s),
                         threads := (threads s)[i := (key, Working)], kw_trace := kw_trace s @ [Started key]\<rparr>))
         | Working \<Rightarrow> Some (s\<lparr>threads := (threads s)[i := (key, Waiting)], kw_trace := kw_trace s @ [Finished key]\<rparr>)))"

inductive kw_step :: "'k KeyWorkers \<Rightarrow> 'k KeyWorkers \<Rightarrow> bool" where
  kw_needs: "kw_step s (NeedsWork key s)"
| kw_pause: "kw_step s (Pause s)"
| kw_resume: "kw_step s (Resume s)"
| kw_thread: "i < length (threads s) \<Longrightarrow> runWorker i s = Some s' \<Longrightarrow> kw_step s s'"

inductive kw_reachable :: "'k KeyWorkers \<Rightarrow> bool" where
  kw_init: "kw_reachable InitKW"
| kw_more: "kw_reachable s \<Longrightarrow> kw_step s s' \<Longrightarrow> kw_reachable s'"

text \<open>A request is open while no run of the work function has started since.\<close>

definition open_request :: "'k \<Rightarrow> 'k kw_event list \<Rightarrow> bool" where
  "open_request key tr = (\<exists>us vs. tr = us @ Requested key # vs \<and> Started key \<notin> set vs)"

text \<open>The runs of the work function for a key that have started and not ended.\<close>

definition running :: "'k \<Rightarrow> 'k kw_event list \<Rightarrow> int" where
  "running key tr = int (length (filter ((=) (Started key)) tr)) - int (length (filter ((=) (Finished key)) tr))"

subsection \<open>The invariant\<close>

definition kw_inv :: "'k KeyWorkers \<Rightarrow> bool" where
  "kw_inv s =
     (go_map (workers s) \<and> distinct (map fst (threads s)) \<and> set (map fst (threads s)) = set (keys (workers s))
      \<and> (\<forall>key. open_request key (kw_trace s) \<longrightarrow> map_of (workers s) key = Some \<lparr>needsWork = True\<rparr>)
      \<and> (\<forall>key. running key (kw_trace s) = (if (key, Working) \<in> set (threads s) then 1 else 0)))"

lemma open_request_snoc [simp]:
  "open_request key (tr @ [e]) \<longleftrightarrow> e = Requested key \<or> (open_request key tr \<and> e \<noteq> Started key)"
proof
  assume "open_request key (tr @ [e])"
  then obtain us vs where e: "tr @ [e] = us @ Requested key # vs" "Started key \<notin> set vs" by (auto simp: open_request_def)
  show "e = Requested key \<or> (open_request key tr \<and> e \<noteq> Started key)"
  proof (cases vs rule: rev_cases)
    case Nil
    then show ?thesis using e by simp
  next
    case (snoc ws w)
    then have "tr = us @ Requested key # ws" "e = w" using e(1) by auto
    with snoc e(2) show ?thesis by (auto simp: open_request_def)
  qed
next
  assume "e = Requested key \<or> (open_request key tr \<and> e \<noteq> Started key)"
  then show "open_request key (tr @ [e])"
    unfolding open_request_def by (metis append.assoc append_Cons empty_iff empty_set in_set_conv_decomp
        insert_iff list.set(2) rotate1.simps(2) set_rotate1)
qed

lemma open_request_Nil [simp]: "\<not> open_request key []"
  by (simp add: open_request_def)

lemma running_simps [simp]:
  "running key [] = 0"
  "running key (tr @ [e]) = running key tr + (if e = Started key then 1 else 0) - (if e = Finished key then 1 else 0)"
  by (simp_all add: running_def)

lemma kw_inv_Init: "kw_inv InitKW"
  by (simp add: kw_inv_def InitKW_def)

lemma kw_inv_Pause: "kw_inv s \<Longrightarrow> kw_inv (Pause s)" "kw_inv s \<Longrightarrow> kw_inv (Resume s)"
  by (simp_all only: kw_inv_def Pause_def Resume_def KeyWorkers.simps split: if_split) simp_all

lemma kw_inv_NeedsWork:
  assumes "kw_inv s"
  shows "kw_inv (NeedsWork key s)"
proof (cases "map_of (workers s) key")
  case None
  then have "key \<notin> set (map fst (threads s))" using assms by (simp add: kw_inv_def)
  then show ?thesis using assms None by (auto simp: kw_inv_def NeedsWork_def Let_def simp del: map_of_eq_None_keys)
next
  case (Some w)
  have "w\<lparr>needsWork := True\<rparr> = \<lparr>needsWork = True\<rparr>" by (cases w) simp
  moreover have "key \<in> set (keys (workers s))" using map_of_SomeD_keys[OF Some] .
  ultimately show ?thesis using assms Some by (auto simp: kw_inv_def NeedsWork_def Let_def)
qed

lemma set_update_fst:
  assumes "distinct (map fst xs)" "i < length xs" "xs ! i = (k, p)"
  shows "(j, q) \<in> set (xs[i := (k, p')]) \<longleftrightarrow> (if j = k then q = p' else (j, q) \<in> set xs)"
proof -
  have x: "xs = take i xs @ (k, p) # drop (Suc i) xs" using assms(2,3) by (metis id_take_nth_drop)
  then have "distinct (map fst (take i xs @ (k, p) # drop (Suc i) xs))" using assms(1) by metis
  then have n: "k \<notin> fst ` set (take i xs)" "k \<notin> fst ` set (drop (Suc i) xs)" by auto
  have "set (xs[i := (k, p')]) = insert (k, p') (set (take i xs) \<union> set (drop (Suc i) xs))"
    using assms(2) by (simp add: upd_conv_take_nth_drop)
  moreover have "set xs = insert (k, p) (set (take i xs) \<union> set (drop (Suc i) xs))" by (subst x) simp
  ultimately show ?thesis using n by (force simp: image_iff)
qed

lemma keys_update_same: "i < length xs \<Longrightarrow> xs ! i = (k, p) \<Longrightarrow> map fst (xs[i := (k, p')]) = map fst xs"
  by (metis fst_conv list_update_id map_update)

lemma drop_nth_fst:
  assumes "distinct (map fst xs)" "i < length xs" "xs ! i = (k, p)"
  shows "distinct (map fst (drop_nth i xs))" "set (drop_nth i xs) = set xs - {(k, p)}" "set (map fst (drop_nth i xs)) = set (map fst xs) - {k}"
proof -
  have x: "xs = take i xs @ (k, p) # drop (Suc i) xs" using assms(2,3) by (metis id_take_nth_drop)
  then have d: "distinct (map fst (take i xs @ (k, p) # drop (Suc i) xs))" using assms(1) by metis
  then show "distinct (map fst (drop_nth i xs))" by (simp add: drop_nth_def)
  from d have "(k, p) \<notin> set (take i xs)" "(k, p) \<notin> set (drop (Suc i) xs)" by (force simp: image_iff)+
  then show "set (drop_nth i xs) = set xs - {(k, p)}"
    unfolding drop_nth_def by (subst (3) x) auto
  from d have "k \<notin> fst ` set (take i xs)" "k \<notin> fst ` set (drop (Suc i) xs)" by auto
  then show "set (map fst (drop_nth i xs)) = set (map fst xs) - {k}"
    unfolding drop_nth_def by (subst (3) x) auto
qed

lemma kw_inv_runWorker:
  assumes inv: "kw_inv s" and i: "i < length (threads s)" and run: "runWorker i s = Some s'"
  shows "kw_inv s'"
proof -
  obtain k pc where t: "threads s ! i = (k, pc)" by (cases "threads s ! i")
  have g: "go_map (workers s)" and d: "distinct (map fst (threads s))"
    and e: "set (map fst (threads s)) = set (keys (workers s))"
    and o: "\<And>key. open_request key (kw_trace s) \<Longrightarrow> map_of (workers s) key = Some \<lparr>needsWork = True\<rparr>"
    and r: "\<And>key. running key (kw_trace s) = (if (key, Working) \<in> set (threads s) then 1 else 0)"
    using inv unfolding kw_inv_def by blast+
  note upd = set_update_fst[OF d i t] and same = keys_update_same[OF i t]
  have mem: "(k, pc) \<in> set (threads s)" using i t by (metis nth_mem)
  have only: "(k, q) \<in> set (threads s) \<longleftrightarrow> q = pc" for q
    using upd[of k q pc] i t by (metis list_update_id)
  show ?thesis
  proof (cases pc)
    case Waiting
    then have s': "s' = s\<lparr>threads := (threads s)[i := (k, Resumed)]\<rparr>"
      using run t by (simp add: runWorker_def split: if_splits)
    have "(key, Working) \<in> set (threads s') \<longleftrightarrow> (key, Working) \<in> set (threads s)" for key
      using only[of Working] Waiting by (simp add: s' upd)
    then show ?thesis using g d e o r same unfolding kw_inv_def s' by simp
  next
    case Working
    then have s': "s' = s\<lparr>threads := (threads s)[i := (k, Waiting)], kw_trace := kw_trace s @ [Finished k]\<rparr>"
      using run t by (simp add: runWorker_def)
    have "(key, Working) \<in> set (threads s') \<longleftrightarrow> key \<noteq> k \<and> (key, Working) \<in> set (threads s)" for key
      by (simp add: s' upd)
    moreover have "(k, Working) \<in> set (threads s)" using mem Working by simp
    ultimately show ?thesis using g d e o r same unfolding kw_inv_def s' by simp
  next
    case Resumed
    then obtain w where w: "map_of (workers s) k = Some w"
      using run t by (cases "map_of (workers s) k") (simp_all add: runWorker_def del: map_of_eq_None_keys)
    show ?thesis
    proof (cases "needsWork w")
      case False
      then have s': "s' = s\<lparr>workers := AList.delete k (workers s), threads := drop_nth i (threads s)\<rparr>"
        using run t Resumed w by (simp add: runWorker_def)
      note drop = drop_nth_fst[OF d i t]
      have "set (keys (workers s')) = set (keys (workers s)) - {k}" unfolding s' by (simp add: AList.delete_keys)
      moreover have "open_request key (kw_trace s) \<Longrightarrow> key \<noteq> k" for key using o[of key] w False by auto
      moreover have "(key, Working) \<in> set (threads s') \<longleftrightarrow> (key, Working) \<in> set (threads s)" for key
        using Resumed by (auto simp: s' drop(2))
      ultimately show ?thesis using g d e o r drop(1,3) unfolding kw_inv_def s' by auto
    next
      case True
      then have s': "s' = s\<lparr>workers := AList.update k (w\<lparr>needsWork := False\<rparr>) (workers s),
          threads := (threads s)[i := (k, Working)], kw_trace := kw_trace s @ [Started k]\<rparr>"
        using run t Resumed w by (simp add: runWorker_def)
      have "running k (kw_trace s) = 0" using r[of k] only[of Working] Resumed by simp
      moreover have "k \<in> set (keys (workers s))" using map_of_SomeD_keys[OF w] .
      ultimately show ?thesis using g d e o r same upd unfolding kw_inv_def s' by (auto simp: insert_absorb)
    qed
  qed
qed

lemma kw_inv_reachable: "kw_reachable s \<Longrightarrow> kw_inv s"
proof (induction rule: kw_reachable.induct)
  case (kw_more s s')
  from kw_more.hyps(2) kw_more.IH show ?case
    by (cases rule: kw_step.cases) (auto intro: kw_inv_NeedsWork kw_inv_Pause kw_inv_runWorker)
qed (rule kw_inv_Init)

subsection \<open>Properties\<close>

text \<open>A step of the thread of one key.\<close>

definition own_step :: "'k \<Rightarrow> 'k KeyWorkers \<Rightarrow> 'k KeyWorkers \<Rightarrow> bool" where
  "own_step key s s' = (\<exists>i < length (threads s). fst (threads s ! i) = key \<and> runWorker i s = Some s')"

text \<open>
  (C30) Work is never lost and never doubled. In every interleaving of requests, pauses and worker threads: a key
  has at most one thread, the work function for a key runs at most once at a time, and as long as no run has
  started after the latest request for a key, its worker is there with the request recorded. When no worker is left, every request has
  been followed by the start of a run and all runs are over.
\<close>

theorem KeyWorkers_no_lost_work:
  assumes "kw_reachable s"
  shows "distinct (map fst (threads s))
    \<and> (\<forall>key. running key (kw_trace s) \<in> {0, 1})
    \<and> (\<forall>key. open_request key (kw_trace s) \<longrightarrow>
         map_of (workers s) key = Some \<lparr>needsWork = True\<rparr> \<and> key \<in> set (map fst (threads s)))
    \<and> (WorkerCount s = 0 \<longrightarrow> (\<forall>key. \<not> open_request key (kw_trace s) \<and> running key (kw_trace s) = 0))"
proof -
  note inv = kw_inv_reachable[OF assms, unfolded kw_inv_def]
  then have r: "running key (kw_trace s) = (if (key, Working) \<in> set (threads s) then 1 else 0)"
    and o: "open_request key (kw_trace s) \<Longrightarrow> map_of (workers s) key = Some \<lparr>needsWork = True\<rparr>"
    and e: "set (map fst (threads s)) = set (keys (workers s))" for key by blast+
  have "key \<in> set (map fst (threads s))" if "open_request key (kw_trace s)" for key
    using map_of_SomeD_keys[OF o[OF that]] e by simp
  moreover have "\<not> open_request key (kw_trace s) \<and> running key (kw_trace s) = 0" if "WorkerCount s = 0" for key
  proof -
    have "workers s = []" "threads s = []" using that e by (simp_all add: WorkerCount_def)
    then show ?thesis using o[of key] r[of key] by auto
  qed
  ultimately show ?thesis using inv r o by simp
qed

lemma own_start:
  assumes "kw_inv s" "\<not> paused s" "open_request key (kw_trace s)"
  shows "\<exists>n \<le> 3. \<exists>s'. (own_step key ^^ n) s s' \<and> (\<exists>tr. kw_trace s' = tr @ [Started key])"
proof -
  have resumed: "\<exists>s'. own_step key s s' \<and> (\<exists>tr. kw_trace s' = tr @ [Started key])"
    if "kw_inv s" "open_request key (kw_trace s)" "i < length (threads s)" "threads s ! i = (key, Resumed)" for s :: "'a KeyWorkers" and i
  proof -
    have "map_of (workers s) key = Some \<lparr>needsWork = True\<rparr>" using that(1,2) by (simp add: kw_inv_def)
    then show ?thesis using that(3,4) by (auto simp: own_step_def runWorker_def intro!: exI[of _ i])
  qed
  have waiting: "\<exists>s'. (own_step key ^^ 2) s s' \<and> (\<exists>tr. kw_trace s' = tr @ [Started key])"
    if s: "kw_inv s" "open_request key (kw_trace s)" "\<not> paused s" "i < length (threads s)" "threads s ! i = (key, Waiting)"
    for s :: "'a KeyWorkers" and i
  proof -
    let ?s = "s\<lparr>threads := (threads s)[i := (key, Resumed)]\<rparr>"
    have r: "runWorker i s = Some ?s" using s by (simp add: runWorker_def)
    then have own: "own_step key s ?s" using s by (auto simp: own_step_def)
    have "kw_inv ?s" using kw_inv_runWorker[OF s(1,4) r] .
    with resumed[of ?s i] s own show ?thesis by (auto simp: numeral_2_eq_2 intro: relcomppI)
  qed
  have "map_of (workers s) key = Some \<lparr>needsWork = True\<rparr>" using assms(1,3) by (simp add: kw_inv_def)
  then have "key \<in> set (keys (workers s))" by (rule map_of_SomeD_keys)
  then have "key \<in> set (map fst (threads s))" using assms(1) unfolding kw_inv_def by blast
  then obtain i where "i < length (threads s)" "fst (threads s ! i) = key" unfolding in_set_conv_nth by auto
  then obtain pc where i: "i < length (threads s)" "threads s ! i = (key, pc)" by (cases "threads s ! i") auto
  show ?thesis
  proof (cases pc)
    case Working
    let ?s = "s\<lparr>threads := (threads s)[i := (key, Waiting)], kw_trace := kw_trace s @ [Finished key]\<rparr>"
    have r: "runWorker i s = Some ?s" using i Working by (simp add: runWorker_def)
    then have own: "own_step key s ?s" using i by (auto simp: own_step_def)
    have "kw_inv ?s" using kw_inv_runWorker[OF assms(1) i(1) r] .
    with waiting[of ?s i] i assms obtain s' where "(own_step key ^^ 2) ?s s'" "\<exists>tr. kw_trace s' = tr @ [Started key]" by auto
    with own have "(own_step key ^^ 3) s s'" using relpowp_Suc_I2[of "own_step key" s ?s 2 s'] by (simp add: numeral_3_eq_3 numeral_2_eq_2)
    with \<open>\<exists>tr. kw_trace s' = tr @ [Started key]\<close> show ?thesis by blast
  next
    case Waiting
    then obtain s' where "(own_step key ^^ 2) s s'" "\<exists>tr. kw_trace s' = tr @ [Started key]"
      using waiting[of s i] assms i by auto
    then show ?thesis by (intro exI[of _ "2 :: nat"]) auto
  next
    case Resumed
    then obtain s' where "own_step key s s'" "\<exists>tr. kw_trace s' = tr @ [Started key]" using resumed[of s i] assms i by auto
    then show ?thesis by (intro exI[of _ "1 :: nat"]) auto
  qed
qed

text \<open>
  (C31) An open request is served: while the workers are not paused, at most three steps of the key's own
  thread start a new run of the work function, whatever state the thread is in.
\<close>

theorem KeyWorkers_serves_requests:
  assumes "kw_reachable s" "\<not> paused s" "open_request key (kw_trace s)"
  shows "\<exists>n \<le> 3. \<exists>s'. (own_step key ^^ n) s s' \<and> (\<exists>tr. kw_trace s' = tr @ [Started key])"
  using own_start[OF kw_inv_reachable[OF assms(1)] assms(2,3)] .

lemma ex_kw: "kw_reachable (NeedsWork (7 :: nat) InitKW)"
  by (rule kw_more[OF kw_init kw_needs])

theorem KeyWorkers_no_lost_work_witness:
  "map_of (workers (NeedsWork (7 :: nat) InitKW)) 7 = Some \<lparr>needsWork = True\<rparr>
   \<and> 7 \<in> set (map fst (threads (NeedsWork (7 :: nat) InitKW)))"
proof -
  have "open_request 7 (kw_trace (NeedsWork (7 :: nat) InitKW))"
    using open_request_snoc[of 7 "[]" "Requested (7 :: nat)"] by (simp add: NeedsWork_def InitKW_def)
  then show ?thesis using KeyWorkers_no_lost_work[OF ex_kw] by blast
qed

theorem KeyWorkers_serves_requests_witness:
  "\<exists>n \<le> 3. \<exists>s'. (own_step 7 ^^ n) (NeedsWork (7 :: nat) InitKW) s' \<and> (\<exists>tr. kw_trace s' = tr @ [Started 7])"
proof (rule KeyWorkers_serves_requests[OF ex_kw])
  show "\<not> paused (NeedsWork (7 :: nat) InitKW)" by (simp add: NeedsWork_def InitKW_def)
  show "open_request 7 (kw_trace (NeedsWork (7 :: nat) InitKW))"
    using open_request_snoc[of 7 "[]" "Requested (7 :: nat)"] by (simp add: NeedsWork_def InitKW_def)
qed
end
