(* ===== verification/LookupIndex.thy ===== *)
theory LookupIndex
  imports Prelude
begin

text \<open>
  Reverse indexes: for each lookup value, the keys of the objects that carry it. The generator emits the same code for
  several object types; this theory models it once for any key and lookup types, from
  \<^verbatim>\<open>AutoProvPolicyByZoneKey\<close> in \<^verbatim>\<open>api/edgeproto/autoprovpolicy.pb.go\<close> (an object with a set of lookup
  values; \<^verbatim>\<open>AppByAutoProvPolicy\<close> and \<^verbatim>\<open>ZonePoolByZoneKey\<close> are the same) and from \<^verbatim>\<open>AppInstLookup2ByCloudletKey\<close> in
  \<^verbatim>\<open>appinst.pb.go\<close> (an object with one). The locale \<open>reverse_index\<close> states what the
  two primitive operations promise and derives that an index fed with every change mirrors the objects.
\<close>

subsection \<open>The model\<close>

type_synonym ('l, 'k) lookup_index = "('l, 'k list) gomap"

definition addRef :: "'l \<Rightarrow> 'k \<Rightarrow> ('l, 'k) lookup_index \<Rightarrow> ('l, 'k) lookup_index" where
  "addRef lookup key s = AList.update lookup (List.insert key (get_or [] s lookup)) s"

definition removeRef :: "'l \<Rightarrow> 'k \<Rightarrow> ('l, 'k) lookup_index \<Rightarrow> ('l, 'k) lookup_index" where
  "removeRef lookup key s =
     (case map_of s lookup of None \<Rightarrow> s
      | Some ks \<Rightarrow>
          let ks = removeAll key ks
          in if ks = [] then AList.delete lookup s else AList.update lookup ks s)"

definition FindIndex :: "('l, 'k) lookup_index \<Rightarrow> 'l \<Rightarrow> 'k list" where
  "FindIndex s lookup = get_or [] s lookup"

definition HasRef :: "('l, 'k) lookup_index \<Rightarrow> 'l \<Rightarrow> bool" where
  "HasRef s lookup = (map_of s lookup \<noteq> None)"

text \<open>The lookups of the old object (none when there was none) and of the new one; the result also names what changed.\<close>

definition UpdatedIndex :: "'k \<Rightarrow> 'l list \<Rightarrow> 'l list \<Rightarrow> ('l, 'k) lookup_index \<Rightarrow> ('l, 'k) lookup_index \<times> 'l list" where
  "UpdatedIndex key oldKeys newKeys s =
     (let gone = filter (\<lambda>l. l \<notin> set newKeys) oldKeys; fresh = filter (\<lambda>l. l \<notin> set oldKeys) newKeys
      in (fold (\<lambda>l. addRef l key) fresh (fold (\<lambda>l. removeRef l key) gone s), gone @ fresh))"

definition DeletedIndex :: "'k \<Rightarrow> 'l list \<Rightarrow> ('l, 'k) lookup_index \<Rightarrow> ('l, 'k) lookup_index" where
  "DeletedIndex key oldKeys s = fold (\<lambda>l. removeRef l key) oldKeys s"

text \<open>The index over a single lookup value is told only the new object.\<close>

definition UpdatedOne :: "'k \<Rightarrow> 'l \<Rightarrow> ('l, 'k) lookup_index \<Rightarrow> ('l, 'k) lookup_index" where
  "UpdatedOne key lookup s = addRef lookup key s"

definition DeletedOne :: "'k \<Rightarrow> 'l \<Rightarrow> ('l, 'k) lookup_index \<Rightarrow> ('l, 'k) lookup_index" where
  "DeletedOne key lookup s = removeRef lookup key s"

subsection \<open>The interface\<close>

locale reverse_index =
  fixes wf :: "'s \<Rightarrow> bool" and find :: "'s \<Rightarrow> 'l \<Rightarrow> 'k set" and put :: "'l \<Rightarrow> 'k \<Rightarrow> 's \<Rightarrow> 's" and cut :: "'l \<Rightarrow> 'k \<Rightarrow> 's \<Rightarrow> 's"
  assumes wf_put: "wf s \<Longrightarrow> wf (put l k s)" and wf_cut: "wf s \<Longrightarrow> wf (cut l k s)"
    and find_put: "wf s \<Longrightarrow> find (put l k s) l' = (if l' = l then insert k (find s l') else find s l')"
    and find_cut: "wf s \<Longrightarrow> find (cut l k s) l' = (if l' = l then find s l' - {k} else find s l')"
begin

definition mirrors :: "'s \<Rightarrow> ('k \<Rightarrow> 'l list option) \<Rightarrow> bool" where
  "mirrors s objs = (wf s \<and> (\<forall>l k. k \<in> find s l \<longleftrightarrow> (\<exists>ls. objs k = Some ls \<and> l \<in> set ls)))"

lemma puts: "wf s \<Longrightarrow> wf (fold (\<lambda>l. put l k) ls s) \<and>
    find (fold (\<lambda>l. put l k) ls s) l = (if l \<in> set ls then insert k (find s l) else find s l)"
  by (induction ls arbitrary: s) (auto simp: wf_put find_put)

lemma cuts: "wf s \<Longrightarrow> wf (fold (\<lambda>l. cut l k) ls s) \<and>
    find (fold (\<lambda>l. cut l k) ls s) l = (if l \<in> set ls then find s l - {k} else find s l)"
  by (induction ls arbitrary: s) (auto simp: wf_cut find_cut)

lemma mirrors_update:
  assumes "mirrors s objs"
  shows "mirrors (fold (\<lambda>l. put l k) (filter (\<lambda>l. l \<notin> set (case objs k of None \<Rightarrow> [] | Some ls \<Rightarrow> ls)) new)
      (fold (\<lambda>l. cut l k) (filter (\<lambda>l. l \<notin> set new) (case objs k of None \<Rightarrow> [] | Some ls \<Rightarrow> ls)) s)) (objs(k \<mapsto> new))"
proof -
  let ?old = "case objs k of None \<Rightarrow> [] | Some ls \<Rightarrow> ls"
  let ?s = "fold (\<lambda>l. cut l k) (filter (\<lambda>l. l \<notin> set new) ?old) s"
  have wf: "wf s" and rest: "\<And>l j. j \<in> find s l \<longleftrightarrow> (\<exists>ls. objs j = Some ls \<and> l \<in> set ls)"
    using assms by (auto simp: mirrors_def)
  have old: "k \<in> find s l \<longleftrightarrow> l \<in> set ?old" for l using rest[of k l] by (cases "objs k") simp_all
  show ?thesis unfolding mirrors_def
    using puts[of ?s k "filter (\<lambda>l. l \<notin> set ?old) new"] cuts[OF wf, of k "filter (\<lambda>l. l \<notin> set new) ?old"] old rest
    by (auto split: if_splits)
qed

lemma mirrors_delete:
  assumes "mirrors s objs" "objs k = Some old"
  shows "mirrors (fold (\<lambda>l. cut l k) old s) (objs(k := None))"
  using assms cuts[of s k old] by (auto simp: mirrors_def split: if_splits)

end

subsection \<open>The index is one\<close>

definition index_wf :: "('l, 'k) lookup_index \<Rightarrow> bool" where
  "index_wf s = (go_map s \<and> (\<forall>l ks. map_of s l = Some ks \<longrightarrow> ks \<noteq> [] \<and> distinct ks))"

lemma index_wf_Nil: "index_wf []"
  by (simp add: index_wf_def)

lemma get_or_distinct: "index_wf s \<Longrightarrow> distinct (get_or [] s l)"
  unfolding index_wf_def get_or_def by (metis distinct.simps(1) option.case_eq_if option.collapse)

lemma index_wf_addRef: "index_wf s \<Longrightarrow> index_wf (addRef l k s)"
  using get_or_distinct[of s l] unfolding index_wf_def addRef_def by (simp add: List.insert_def) (metis empty_iff set_empty)

lemma index_wf_removeRef: "index_wf s \<Longrightarrow> index_wf (removeRef l k s)"
  unfolding index_wf_def removeRef_def
  by (cases "map_of s l")
    (simp_all add: Let_def distinct_removeAll del: map_of_eq_None_keys map_of_eq_Some_iff)

lemma find_addRef: "set (FindIndex (addRef l k s) l') = (if l' = l then insert k (set (FindIndex s l')) else set (FindIndex s l'))"
  by (simp add: FindIndex_def addRef_def)

lemma find_removeRef:
  "index_wf s \<Longrightarrow> set (FindIndex (removeRef l k s) l') = (if l' = l then set (FindIndex s l') - {k} else set (FindIndex s l'))"
proof (cases "map_of s l")
  case None
  then show ?thesis by (simp add: FindIndex_def removeRef_def get_or_def del: map_of_eq_None_keys)
next
  case (Some ks)
  have "removeAll k ks = [] \<longleftrightarrow> set ks - {k} = {}" by (metis set_empty set_removeAll)
  then show ?thesis using Some by (auto simp: FindIndex_def removeRef_def get_or_def Let_def)
qed

interpretation by_lookup: reverse_index index_wf "\<lambda>s l. set (FindIndex s l)" addRef removeRef
  by unfold_locales (simp_all add: index_wf_addRef index_wf_removeRef find_addRef find_removeRef)

subsection \<open>Properties\<close>

text \<open>Changes of a cache, as the callbacks report them.\<close>

datatype ('k, 'l) change = Stored 'k "'l list" | Removed 'k

fun apply_change :: "('k, 'l) change \<Rightarrow> ('k \<Rightarrow> 'l list option) \<times> ('l, 'k) lookup_index \<Rightarrow> ('k \<Rightarrow> 'l list option) \<times> ('l, 'k) lookup_index" where
  "apply_change (Stored k new) (objs, s) =
     (objs(k \<mapsto> new), fst (UpdatedIndex k (case objs k of None \<Rightarrow> [] | Some ls \<Rightarrow> ls) new s))"
| "apply_change (Removed k) (objs, s) =
     (case objs k of None \<Rightarrow> (objs, s) | Some old \<Rightarrow> (objs(k := None), DeletedIndex k old s))"

lemma changes_mirror:
  "by_lookup.mirrors s objs \<Longrightarrow> by_lookup.mirrors (snd (fold apply_change cs (objs, s))) (fst (fold apply_change cs (objs, s)))"
proof (induction cs arbitrary: objs s)
  case (Cons c cs)
  have "by_lookup.mirrors (snd (apply_change c (objs, s))) (fst (apply_change c (objs, s)))"
  proof (cases c)
    case (Stored k new)
    then show ?thesis using by_lookup.mirrors_update[OF Cons.prems, of k new] by (simp add: UpdatedIndex_def Let_def)
  next
    case (Removed k)
    then show ?thesis using by_lookup.mirrors_delete[OF Cons.prems, of k] Cons.prems
      by (cases "objs k") (simp_all add: DeletedIndex_def)
  qed
  then show ?case using Cons.IH by (cases "apply_change c (objs, s)") simp
qed simp

text \<open>
  (C32) A reverse index that starts empty and is told of every stored and removed object finds, for each lookup
  value, exactly the objects that currently carry it, each once, and has a reference for a value exactly when
  some object carries it.
\<close>

theorem lookup_index_refines_objects:
  "case fold apply_change cs (Map.empty, []) of (objs, s) \<Rightarrow>
     (\<forall>l k. k \<in> set (FindIndex s l) \<longleftrightarrow> (\<exists>ls. objs k = Some ls \<and> l \<in> set ls))
     \<and> (\<forall>l. distinct (FindIndex s l))
     \<and> (\<forall>l. HasRef s l \<longleftrightarrow> (\<exists>k ls. objs k = Some ls \<and> l \<in> set ls))"
proof -
  obtain objs s where r: "fold apply_change cs (Map.empty, []) = (objs, s)" by (cases "fold apply_change cs (Map.empty, [])")
  have "by_lookup.mirrors [] Map.empty" unfolding by_lookup.mirrors_def by (simp add: index_wf_Nil FindIndex_def)
  from changes_mirror[OF this, of cs] have m: "index_wf s" "\<And>l k. k \<in> set (FindIndex s l) \<longleftrightarrow> (\<exists>ls. objs k = Some ls \<and> l \<in> set ls)"
    by (simp_all add: r by_lookup.mirrors_def)
  have "HasRef s l \<longleftrightarrow> set (FindIndex s l) \<noteq> {}" for l
    using m(1) unfolding HasRef_def FindIndex_def get_or_def index_wf_def by (cases "map_of s l") auto
  then have "HasRef s l \<longleftrightarrow> (\<exists>k ls. objs k = Some ls \<and> l \<in> set ls)" for l by (metis m(2) ex_in_conv)
  then show ?thesis using m get_or_distinct[OF m(1)] by (simp add: r FindIndex_def)
qed

text \<open>
  The index over a single lookup value forgets nothing: an object that moves from one value to another and is
  then removed is still found under the first one.
\<close>

theorem single_index_stale:
  assumes "l \<noteq> l'"
  shows "k \<in> set (FindIndex (DeletedOne k l' (UpdatedOne k l' (UpdatedOne k l []))) l)"
  using assms by (simp add: DeletedOne_def UpdatedOne_def FindIndex_def addRef_def removeRef_def get_or_def Let_def List.insert_def)

theorem single_index_stale_witness:
  "(1 :: nat) \<noteq> 2 \<and> ''inst'' \<in> set (FindIndex (DeletedOne ''inst'' 2 (UpdatedOne ''inst'' 2 (UpdatedOne ''inst'' 1 []))) (1 :: nat))"
  using single_index_stale[of "1 :: nat" "2 :: nat" "''inst''"] by simp

end
