(* ===== verification/AutoProv.thy ===== *)
theory AutoProv
  imports LookupIndex KeyWorkers Names "HOL-Library.Multiset"
begin

text \<open>
  Auto-provisioning: the service under \<^verbatim>\<open>pkg/autoprov\<close> keeps the number of instances of an application within the bounds of
  its policies (\<^verbatim>\<open>autoprov_minmax.go\<close>), deploys on demand (\<^verbatim>\<open>autoprov_aggr.go\<close>) and tracks failures
  (\<^verbatim>\<open>autoprov_retry.go\<close>); the controller checks the intent of every such call (\<^verbatim>\<open>pkg/controller/autoprovpolicy_api.go\<close>). Caches are
  tables. Calls to the controller API are returned as lists of actions, their outcome is an argument. The
  search for a free reservable cluster, the hash of a zone and \<^verbatim>\<open>sort.Slice\<close> are arguments.
\<close>

subsection \<open>Data\<close>

type_synonym ZoneKey = "string \<times> string \<times> string"
type_synonym CloudletKey = "string \<times> string \<times> string"
type_synonym AppKey = "string \<times> string \<times> string"
type_synonym AppInstKey = "string \<times> string"
type_synonym PolicyKey = "string \<times> string"

datatype CloudletState =
    CLOUDLET_STATE_UNKNOWN | CLOUDLET_STATE_ERRORS | CLOUDLET_STATE_READY | CLOUDLET_STATE_OFFLINE
  | CLOUDLET_STATE_NOT_PRESENT | CLOUDLET_STATE_INIT | CLOUDLET_STATE_UPGRADE | CLOUDLET_STATE_NEED_SYNC

datatype MaintenanceState =
    NORMAL_OPERATION | MAINTENANCE_START | FAILOVER_REQUESTED | FAILOVER_DONE | FAILOVER_ERROR
  | MAINTENANCE_START_NO_FAILOVER | CRM_REQUESTED | CRM_UNDER_MAINTENANCE | CRM_ERROR | NORMAL_OPERATION_INIT
  | UNDER_MAINTENANCE

datatype HealthCheck =
    HEALTH_CHECK_UNKNOWN | HEALTH_CHECK_ROOTLB_OFFLINE | HEALTH_CHECK_SERVER_FAIL | HEALTH_CHECK_OK
  | HEALTH_CHECK_CLOUDLET_OFFLINE

datatype TrackedState =
    TRACKED_STATE_UNKNOWN | NOT_PRESENT | CREATE_REQUESTED | CREATING | CREATE_ERROR | READY | UPDATE_REQUESTED | UPDATING
  | UPDATE_ERROR | DELETE_REQUESTED | DELETING | DELETE_ERROR | DELETE_PREPARE | CRM_INITOK | CREATING_DEPENDENCIES | DELETE_DONE

datatype Liveness = LIVENESS_UNKNOWN | LIVENESS_STATIC | LIVENESS_DYNAMIC | LIVENESS_AUTOPROV

record App =
  app_Key :: AppKey
  app_AutoProvPolicy :: string
  app_AutoProvPolicies :: "string list"

record AppInst =
  ai_Key :: AppInstKey
  ai_AppKey :: AppKey
  ai_CloudletKey :: CloudletKey
  ai_ZoneKey :: ZoneKey
  ai_State :: TrackedState
  ai_HealthCheck :: HealthCheck
  ai_Liveness :: Liveness

record Cloudlet =
  cl_Key :: CloudletKey
  cl_Zone :: string
  cl_MaintenanceState :: MaintenanceState

record CloudletInfo =
  cli_State :: CloudletState

record AutoProvPolicy =
  pol_Key :: PolicyKey
  pol_DeployClientCount :: uint32
  pol_DeployIntervalCount :: uint32
  pol_Zones :: "ZoneKey list"
  pol_MinActiveInstances :: uint32
  pol_MaxInstances :: uint32

record CacheData =
  appCache :: "(AppKey, App) gomap"
  appInstCache :: "(AppInstKey, AppInst) gomap"
  appInstRefsCache :: "(AppKey, AppInstKey list) gomap"
  autoProvPolicyCache :: "(PolicyKey, AutoProvPolicy) gomap"
  cloudletCache :: "(CloudletKey, Cloudlet) gomap"
  cloudletInfoCache :: "(CloudletKey, CloudletInfo) gomap"

text \<open>
  The organization comes first in the keys of applications, the name first in all others; the third part of the key of a zone or a cloudlet
  is the federated organization.
\<close>

abbreviation app_org :: "AppKey \<Rightarrow> string" where "app_org k \<equiv> fst k"

definition GetZone :: "Cloudlet \<Rightarrow> ZoneKey" where
  "GetZone s = (if cl_Zone s = [] then ([], [], []) else (cl_Zone s, snd (cl_Key s)))"

definition GetAutoProvPolicies :: "App \<Rightarrow> string list" where
  "GetAutoProvPolicies s =
     remdups ((if app_AutoProvPolicy s \<noteq> [] then [app_AutoProvPolicy s] else []) @ app_AutoProvPolicies s)"

definition GetAutoProvPolicys :: "App \<Rightarrow> PolicyKey list" where
  "GetAutoProvPolicys s =
     remdups ((if app_AutoProvPolicy s \<noteq> [] then [(app_AutoProvPolicy s, app_org (app_Key s))] else [])
       @ map (\<lambda>name. (name, app_org (app_Key s))) (app_AutoProvPolicies s))"

definition GetZoneKeys :: "AutoProvPolicy \<Rightarrow> ZoneKey list" where
  "GetZoneKeys s = remdups (pol_Zones s)"

definition CloudletsForZone :: "CacheData \<Rightarrow> ZoneKey \<Rightarrow> CloudletKey list" where
  "CloudletsForZone c zkey = map (\<lambda>(_, v). cl_Key v) (filter (\<lambda>(_, v). GetZone v = zkey) (cloudletCache c))"

definition AutoProvCloudletInfoOnline :: "CloudletInfo \<Rightarrow> bool" where
  "AutoProvCloudletInfoOnline cloudletInfo = (cli_State cloudletInfo \<noteq> CLOUDLET_STATE_OFFLINE)"

definition AutoProvCloudletOnline :: "Cloudlet \<Rightarrow> bool" where
  "AutoProvCloudletOnline cloudlet = (cl_MaintenanceState cloudlet = NORMAL_OPERATION)"

definition AutoProvAppInstOnline :: "AppInst \<Rightarrow> CloudletInfo \<Rightarrow> Cloudlet \<Rightarrow> bool" where
  "AutoProvAppInstOnline appInst cloudletInfo cloudlet =
     ((ai_HealthCheck appInst = HEALTH_CHECK_UNKNOWN \<or> ai_HealthCheck appInst = HEALTH_CHECK_OK)
      \<and> AutoProvCloudletInfoOnline cloudletInfo \<and> AutoProvCloudletOnline cloudlet)"

definition AutoProvAppInstGoingOnline :: "AppInst \<Rightarrow> CloudletInfo \<Rightarrow> Cloudlet \<Rightarrow> bool" where
  "AutoProvAppInstGoingOnline appInst cloudletInfo cloudlet =
     ((ai_State appInst = CREATE_REQUESTED \<or> ai_State appInst = CREATING \<or> ai_State appInst = CREATING_DEPENDENCIES)
      \<and> AutoProvCloudletInfoOnline cloudletInfo \<and> AutoProvCloudletOnline cloudlet)"

definition AppInstBeingDeleted :: "AppInst \<Rightarrow> bool" where
  "AppInstBeingDeleted inst =
     (ai_State inst = DELETE_REQUESTED \<or> ai_State inst = DELETING \<or> ai_State inst = DELETE_DONE \<or> ai_State inst = NOT_PRESENT)"

definition GetAutoProvAppInstKey :: "(ZoneKey \<Rightarrow> string) \<Rightarrow> AppKey \<Rightarrow> ZoneKey \<Rightarrow> AppInstKey" where
  "GetAutoProvAppInstKey zoneHash appKey zoneKey =
     (case appKey of (organization, name, version) \<Rightarrow>
        (DNSSanitize (''autoprov-'' @ name @ version @ ''-'' @ zoneHash zoneKey), organization))"

subsection \<open>The state of one application\<close>

definition isAutoProvInst :: "CacheData \<Rightarrow> AppInstKey \<Rightarrow> bool" where
  "isAutoProvInst c key =
     (case map_of (appInstCache c) key of None \<Rightarrow> False | Some inst \<Rightarrow> ai_Liveness inst = LIVENESS_AUTOPROV)"

definition appInstOnlineOrGoingOnline :: "CacheData \<Rightarrow> AppInstKey \<Rightarrow> bool" where
  "appInstOnlineOrGoingOnline c key =
     (case map_of (appInstCache c) key of None \<Rightarrow> False
      | Some appInst \<Rightarrow>
          (case map_of (cloudletInfoCache c) (ai_CloudletKey appInst) of None \<Rightarrow> False
           | Some cloudletInfo \<Rightarrow>
               (case map_of (cloudletCache c) (ai_CloudletKey appInst) of None \<Rightarrow> False
                | Some cloudlet \<Rightarrow>
                    AutoProvAppInstOnline appInst cloudletInfo cloudlet
                    \<or> AutoProvAppInstGoingOnline appInst cloudletInfo cloudlet)))"

definition cloudletOnline :: "CacheData \<Rightarrow> CloudletKey \<Rightarrow> bool" where
  "cloudletOnline c key =
     (case map_of (cloudletInfoCache c) key of None \<Rightarrow> False
      | Some info \<Rightarrow>
          (case map_of (cloudletCache c) key of None \<Rightarrow> False
           | Some cloudlet \<Rightarrow> AutoProvCloudletOnline cloudlet \<and> AutoProvCloudletInfoOnline info))"

text \<open>The cache's filter ignores fields of the filter that are empty.\<close>

definition zoneOnline :: "CacheData \<Rightarrow> ZoneKey \<Rightarrow> bool" where
  "zoneOnline c key =
     list_ex (cloudletOnline c) (map (\<lambda>(_, v). cl_Key v)
       (filter (\<lambda>(_, v). (fst (snd key) = [] \<or> fst (snd (cl_Key v)) = fst (snd key)) \<and> (fst key = [] \<or> cl_Zone v = fst key)) (cloudletCache c)))"

type_synonym zone_insts = "(ZoneKey, (AppInstKey, CloudletKey) gomap) gomap"

definition zoneInsts :: "CacheData \<Rightarrow> AppInstKey list \<Rightarrow> zone_insts" where
  "zoneInsts c refs =
     fold (\<lambda>key zi. case map_of (appInstCache c) key of None \<Rightarrow> zi
        | Some inst \<Rightarrow> AList.update (ai_ZoneKey inst) (AList.update key (ai_CloudletKey inst) (get_or [] zi (ai_ZoneKey inst))) zi)
       refs []"

subsection \<open>Minimum and maximum\<close>

record potentialCreateSite =
  pcs_zoneKey :: ZoneKey
  pcs_hasFree :: bool

record policy_counts =
  pc_potentialDelete :: "AppInstKey list"
  pc_potentialCreate :: "potentialCreateSite list"
  pc_onlineCount :: int
  pc_totalCount :: int

definition count_inst :: "CacheData \<Rightarrow> AppInstKey \<Rightarrow> policy_counts \<Rightarrow> policy_counts" where
  "count_inst c key s =
     s\<lparr>pc_totalCount := pc_totalCount s + 1,
       pc_onlineCount := pc_onlineCount s + (if appInstOnlineOrGoingOnline c key then 1 else 0),
       pc_potentialDelete := pc_potentialDelete s @ (if isAutoProvInst c key then [key] else [])\<rparr>"

definition count_zone ::
  "CacheData \<Rightarrow> (ZoneKey \<Rightarrow> bool) \<Rightarrow> (CloudletKey \<Rightarrow> bool) \<Rightarrow> zone_insts \<Rightarrow> ZoneKey \<Rightarrow> policy_counts \<Rightarrow> policy_counts" where
  "count_zone c hasFailure freeClusts zi zkey s =
     (case map_of zi zkey of
        None \<Rightarrow>
          if \<not> zoneOnline c zkey \<or> hasFailure zkey then s
          else s\<lparr>pc_potentialCreate := pc_potentialCreate s @
            [\<lparr>pcs_zoneKey = zkey, pcs_hasFree = list_ex freeClusts (CloudletsForZone c zkey)\<rparr>]\<rparr>
      | Some insts \<Rightarrow> fold (count_inst c) (keys insts) s)"

definition policy_stats ::
  "CacheData \<Rightarrow> (ZoneKey \<Rightarrow> bool) \<Rightarrow> (CloudletKey \<Rightarrow> bool) \<Rightarrow> zone_insts \<Rightarrow> AutoProvPolicy \<Rightarrow> policy_counts" where
  "policy_stats c hasFailure freeClusts zi policy =
     fold (count_zone c hasFailure freeClusts zi) (pol_Zones policy)
       \<lparr>pc_potentialDelete = [], pc_potentialCreate = [], pc_onlineCount = 0, pc_totalCount = 0\<rparr>"

definition chooseDelete :: "'a list \<Rightarrow> int \<Rightarrow> 'a list" where
  "chooseDelete potential cnt =
     (if cnt \<le> 0 then []
      else let cnt = (if cnt \<ge> int (length potential) then int (length potential) else cnt)
           in drop (length potential - nat cnt) potential)"

text \<open>Which of two sites comes first: one with a free cluster, then the one with more new clients in the last interval.\<close>

definition site_less :: "(ZoneKey \<Rightarrow> uint64) option \<Rightarrow> potentialCreateSite \<Rightarrow> potentialCreateSite \<Rightarrow> bool" where
  "site_less incr p1 p2 =
     (if pcs_hasFree p1 \<noteq> pcs_hasFree p2 then pcs_hasFree p1
      else case incr of None \<Rightarrow> False | Some f \<Rightarrow> f (pcs_zoneKey p1) > f (pcs_zoneKey p2))"

type_synonym site_sort = "(potentialCreateSite \<Rightarrow> potentialCreateSite \<Rightarrow> bool) \<Rightarrow> potentialCreateSite list \<Rightarrow> potentialCreateSite list"

definition sortPotentialCreate ::
  "site_sort \<Rightarrow> (ZoneKey \<Rightarrow> uint64) option \<Rightarrow> potentialCreateSite list \<Rightarrow> potentialCreateSite list" where
  "sortPotentialCreate sort_slice incr potential =
     (if length potential \<le> 1 then potential else sort_slice (site_less incr) potential)"

text \<open>What one check of a policy sets off: deletions, and create workers that share a list of sites.\<close>

record policy_actions =
  pa_deletes :: "AppInstKey list"
  pa_workers :: nat
  pa_sites :: "ZoneKey list"
  pa_notEnough :: bool

definition checkPolicy ::
  "CacheData \<Rightarrow> (ZoneKey \<Rightarrow> bool) \<Rightarrow> (CloudletKey \<Rightarrow> bool) \<Rightarrow> site_sort \<Rightarrow> (ZoneKey \<Rightarrow> uint64) option \<Rightarrow> zone_insts \<Rightarrow> App \<Rightarrow> string
   \<Rightarrow> policy_actions" where
  "checkPolicy c hasFailure freeClusts sort_slice incr zi app pname =
     (let nothing = \<lparr>pa_deletes = [], pa_workers = 0, pa_sites = [], pa_notEnough = False\<rparr>
      in case map_of (autoProvPolicyCache c) (pname, app_org (app_Key app)) of
           None \<Rightarrow> nothing
         | Some policy \<Rightarrow>
             let st = policy_stats c hasFailure freeClusts zi policy;
                 mx = int (unat (pol_MaxInstances policy));
                 deletes = (if mx > 0 then chooseDelete (pc_potentialDelete st) (pc_totalCount st - mx) else [])
             in if mx > 0 \<and> pc_totalCount st \<ge> mx then nothing\<lparr>pa_deletes := deletes\<rparr>
                else
                  let needCreateCount = int (unat (pol_MinActiveInstances policy)) - pc_onlineCount st;
                      potentialCreate = sortPotentialCreate sort_slice incr (pc_potentialCreate st)
                  in \<lparr>pa_deletes = deletes, pa_workers = min (nat needCreateCount) (length potentialCreate),
                      pa_sites = map pcs_zoneKey potentialCreate,
                      pa_notEnough = (int (length potentialCreate) < needCreateCount)\<rparr>)"

text \<open>
  \<^verbatim>\<open>AppChecker.Check\<close>: the actions of every policy, and the auto-provisioned instances on zones no policy
  covers. \<open>None\<close> when the application or its references are not known yet.
\<close>

definition CheckAppChecker ::
  "CacheData \<Rightarrow> (AppKey \<Rightarrow> ZoneKey \<Rightarrow> bool) \<Rightarrow> (CloudletKey \<Rightarrow> bool) \<Rightarrow> site_sort \<Rightarrow> (ZoneKey \<Rightarrow> uint64) option \<Rightarrow> AppKey
   \<Rightarrow> ((string \<times> policy_actions) list \<times> AppInstKey list) option" where
  "CheckAppChecker c hasFailure freeClusts sort_slice incr appKey =
     (case map_of (appCache c) appKey of None \<Rightarrow> None
      | Some app \<Rightarrow>
          (case map_of (appInstRefsCache c) appKey of None \<Rightarrow> None
           | Some refs \<Rightarrow>
               let zi = zoneInsts c refs;
                   policies = GetAutoProvPolicies app;
                   policyZones = concat (map (\<lambda>pname.
                     case map_of (autoProvPolicyCache c) (pname, app_org appKey) of None \<Rightarrow> [] | Some p \<Rightarrow> pol_Zones p) policies);
                   orphans = concat (map (\<lambda>(zkey, insts). filter (isAutoProvInst c) (keys insts))
                     (filter (\<lambda>(zkey, _). zkey \<notin> set policyZones) zi))
               in Some (map (\<lambda>pname. (pname, checkPolicy c (hasFailure appKey) freeClusts sort_slice incr zi app pname)) policies,
                        orphans)))"


subsection \<open>Create workers\<close>

text \<open>
  The workers of one policy check share the cursor \<open>cs_next\<close>. \<open>getNext\<close> takes no lock, so its test, its read and its
  increment are separate steps. A worker tries one site after the other until a create succeeds or is no
  real failure. \<open>ok\<close> says which sites succeed.
\<close>

datatype worker_pc = Fetch | Fetched ZoneKey | Trying ZoneKey | WorkerDone

record create_state =
  cs_next :: nat
  cs_workers :: "worker_pc list"
  cs_attempts :: "ZoneKey list"
  cs_created :: "ZoneKey list"

definition start_workers :: "nat \<Rightarrow> create_state" where
  "start_workers n = \<lparr>cs_next = 0, cs_workers = replicate n Fetch, cs_attempts = [], cs_created = []\<rparr>"

definition worker_run :: "ZoneKey list \<Rightarrow> (ZoneKey \<Rightarrow> bool) \<Rightarrow> nat \<Rightarrow> create_state \<Rightarrow> create_state" where
  "worker_run sites ok i s =
     (case cs_workers s ! i of
        Fetch \<Rightarrow>
          if cs_next s < length sites then s\<lparr>cs_workers := (cs_workers s)[i := Fetched (sites ! cs_next s)]\<rparr>
          else s\<lparr>cs_workers := (cs_workers s)[i := WorkerDone]\<rparr>
      | Fetched site \<Rightarrow>
          s\<lparr>cs_next := cs_next s + 1, cs_workers := (cs_workers s)[i := Trying site], cs_attempts := cs_attempts s @ [site]\<rparr>
      | Trying site \<Rightarrow>
          if ok site then s\<lparr>cs_workers := (cs_workers s)[i := WorkerDone], cs_created := cs_created s @ [site]\<rparr>
          else s\<lparr>cs_workers := (cs_workers s)[i := Fetch]\<rparr>
      | WorkerDone \<Rightarrow> s)"

text \<open>With \<open>getNext\<close> as one step: the worker that fetched a site moves on at once.\<close>

definition worker_run_atomic :: "ZoneKey list \<Rightarrow> (ZoneKey \<Rightarrow> bool) \<Rightarrow> nat \<Rightarrow> create_state \<Rightarrow> create_state" where
  "worker_run_atomic sites ok i s =
     (let t = worker_run sites ok i s
      in case cs_workers t ! i of Fetched _ \<Rightarrow> worker_run sites ok i t | _ \<Rightarrow> t)"

subsection \<open>Failures and retries\<close>

datatype deploy_result =
    DeployOk | BeingCreated | BeingDeleted | InstExists | MinAlreadyMet | AppBeingDeleted | DeployFailed

text \<open>The code recognises the harmless errors by their texts.\<close>

definition ignoreDeployError :: "deploy_result \<Rightarrow> bool" where
  "ignoreDeployError r = (r \<noteq> DeployFailed)"

type_synonym RetryTracker = "(AppKey \<times> ZoneKey) list"

definition registerDeployResult :: "AppKey \<Rightarrow> ZoneKey \<Rightarrow> deploy_result \<Rightarrow> RetryTracker \<Rightarrow> RetryTracker" where
  "registerDeployResult appKey zoneKey r s =
     (if ignoreDeployError r then removeAll (appKey, zoneKey) s else List.insert (appKey, zoneKey) s)"

definition hasFailure :: "RetryTracker \<Rightarrow> AppKey \<Rightarrow> ZoneKey \<Rightarrow> bool" where
  "hasFailure s appKey zoneKey = ((appKey, zoneKey) \<in> set s)"

definition doRetry :: "RetryTracker \<Rightarrow> AppKey KeyWorkers \<Rightarrow> RetryTracker \<times> AppKey KeyWorkers" where
  "doRetry s w = ([], fold (\<lambda>k. NeedsWork (fst k)) s w)"

subsection \<open>Failover requests\<close>

record failoverReq =
  fr_appsToCheck :: "AppKey list"
  fr_Completed :: "string list"
  fr_Errors :: "string list"

record AutoProvInfo =
  api_Key :: CloudletKey
  api_MaintenanceState :: MaintenanceState
  api_Completed :: "string list"
  api_Errors :: "string list"

record MinMaxChecker =
  mm_failoverRequests :: "(CloudletKey, failoverReq) gomap"
  mm_policiesByZone :: "(ZoneKey, PolicyKey) lookup_index"
  mm_appsByPolicy :: "(PolicyKey, AppKey) lookup_index"
  mm_autoprovInstsByCloudlet :: "(CloudletKey, AppInstKey) lookup_index"
  mm_workers :: "AppKey KeyWorkers"
  mm_autoProvInfo :: "AutoProvInfo list"

definition addCompleted :: "string \<Rightarrow> failoverReq \<Rightarrow> failoverReq" where
  "addCompleted msg s = s\<lparr>fr_Completed := fr_Completed s @ [msg]\<rparr>"

definition addError :: "string \<Rightarrow> failoverReq \<Rightarrow> failoverReq" where
  "addError err s = s\<lparr>fr_Errors := fr_Errors s @ [err]\<rparr>"

definition appDone :: "AppKey \<Rightarrow> failoverReq \<Rightarrow> failoverReq \<times> bool" where
  "appDone key s =
     (if key \<notin> set (fr_appsToCheck s) then (s, False)
      else let s = s\<lparr>fr_appsToCheck := removeAll key (fr_appsToCheck s)\<rparr> in (s, fr_appsToCheck s = []))"

definition needs_work :: "AppKey list \<Rightarrow> MinMaxChecker \<Rightarrow> MinMaxChecker" where
  "needs_work ks s = s\<lparr>mm_workers := fold NeedsWork ks (mm_workers s)\<rparr>"

definition cloudletNeedsCheck :: "CacheData \<Rightarrow> CloudletKey \<Rightarrow> MinMaxChecker \<Rightarrow> AppKey list" where
  "cloudletNeedsCheck c key s =
     (case map_of (cloudletCache c) key of None \<Rightarrow> []
      | Some cloudlet \<Rightarrow>
          remdups (concat (map (FindIndex (mm_appsByPolicy s)) (FindIndex (mm_policiesByZone s) (GetZone cloudlet)))
            @ concat (map (\<lambda>k. case map_of (appInstCache c) k of None \<Rightarrow> [] | Some inst \<Rightarrow> [ai_AppKey inst])
                (FindIndex (mm_autoprovInstsByCloudlet s) key))))"

definition handleFailoverReq :: "Cloudlet \<Rightarrow> AppKey list \<Rightarrow> MinMaxChecker \<Rightarrow> MinMaxChecker" where
  "handleFailoverReq cloudlet appsToCheck s =
     (if cl_MaintenanceState cloudlet \<noteq> FAILOVER_REQUESTED then s
      else if appsToCheck = [] then
        s\<lparr>mm_autoProvInfo := mm_autoProvInfo s @ [\<lparr>api_Key = cl_Key cloudlet, api_MaintenanceState = FAILOVER_DONE,
             api_Completed = [], api_Errors = []\<rparr>]\<rparr>
      else
        let req = get_or \<lparr>fr_appsToCheck = [], fr_Completed = [], fr_Errors = []\<rparr> (mm_failoverRequests s) (cl_Key cloudlet);
            req = req\<lparr>fr_appsToCheck := fold List.insert appsToCheck (fr_appsToCheck req)\<rparr>
        in s\<lparr>mm_failoverRequests := AList.update (cl_Key cloudlet) req (mm_failoverRequests s)\<rparr>)"

definition UpdatedCloudlet :: "CacheData \<Rightarrow> Cloudlet option \<Rightarrow> Cloudlet \<Rightarrow> MinMaxChecker \<Rightarrow> MinMaxChecker" where
  "UpdatedCloudlet c old new s =
     (case old of None \<Rightarrow> s
      | Some o' \<Rightarrow>
          if AutoProvCloudletOnline o' = AutoProvCloudletOnline new then handleFailoverReq new [] s
          else let appsToCheck = cloudletNeedsCheck c (cl_Key new) s
               in needs_work appsToCheck (handleFailoverReq new appsToCheck s))"

definition UpdatedCloudletInfo :: "CacheData \<Rightarrow> CloudletInfo option \<Rightarrow> CloudletKey \<Rightarrow> CloudletInfo \<Rightarrow> MinMaxChecker \<Rightarrow> MinMaxChecker" where
  "UpdatedCloudletInfo c old key new s =
     (if (case old of None \<Rightarrow> False | Some o' \<Rightarrow> AutoProvCloudletInfoOnline o' = AutoProvCloudletInfoOnline new) then s
      else needs_work (cloudletNeedsCheck c key s) s)"

definition UpdatedPolicy :: "AutoProvPolicy option \<Rightarrow> AutoProvPolicy \<Rightarrow> MinMaxChecker \<Rightarrow> MinMaxChecker" where
  "UpdatedPolicy old new s =
     (let s = s\<lparr>mm_policiesByZone := fst (UpdatedIndex (pol_Key new)
            (case old of None \<Rightarrow> [] | Some p \<Rightarrow> GetZoneKeys p) (GetZoneKeys new) (mm_policiesByZone s))\<rparr>
      in needs_work (FindIndex (mm_appsByPolicy s) (pol_Key new)) s)"

definition DeletedPolicy :: "AutoProvPolicy \<Rightarrow> MinMaxChecker \<Rightarrow> MinMaxChecker" where
  "DeletedPolicy old s = s\<lparr>mm_policiesByZone := DeletedIndex (pol_Key old) (GetZoneKeys old) (mm_policiesByZone s)\<rparr>"

definition UpdatedApp :: "App option \<Rightarrow> App \<Rightarrow> MinMaxChecker \<Rightarrow> MinMaxChecker" where
  "UpdatedApp old new s =
     (let (idx, changed) = UpdatedIndex (app_Key new)
            (case old of None \<Rightarrow> [] | Some a \<Rightarrow> GetAutoProvPolicys a) (GetAutoProvPolicys new) (mm_appsByPolicy s);
          s = s\<lparr>mm_appsByPolicy := idx\<rparr>
      in if changed \<noteq> [] then needs_work [app_Key new] s else s)"

definition DeletedApp :: "App \<Rightarrow> MinMaxChecker \<Rightarrow> MinMaxChecker" where
  "DeletedApp old s = s\<lparr>mm_appsByPolicy := DeletedIndex (app_Key old) (GetAutoProvPolicys old) (mm_appsByPolicy s)\<rparr>"

definition isAutoProvApp :: "CacheData \<Rightarrow> AppKey \<Rightarrow> bool" where
  "isAutoProvApp c key =
     (case map_of (appCache c) key of None \<Rightarrow> False | Some a \<Rightarrow> app_AutoProvPolicy a \<noteq> [] \<or> app_AutoProvPolicies a \<noteq> [])"

definition UpdatedAppInst :: "CacheData \<Rightarrow> AppInst option \<Rightarrow> AppInst \<Rightarrow> MinMaxChecker \<Rightarrow> MinMaxChecker" where
  "UpdatedAppInst c old new s =
     (if \<not> isAutoProvApp c (ai_AppKey new) then s
      else
        let s = s\<lparr>mm_autoprovInstsByCloudlet := UpdatedOne (ai_Key new) (ai_CloudletKey new) (mm_autoprovInstsByCloudlet s)\<rparr>
        in case old of None \<Rightarrow> needs_work [ai_AppKey new] s
           | Some o' \<Rightarrow>
               (case map_of (cloudletInfoCache c) (ai_CloudletKey new) of None \<Rightarrow> s
                | Some info \<Rightarrow>
                    (case map_of (cloudletCache c) (ai_CloudletKey new) of None \<Rightarrow> s
                     | Some cloudlet \<Rightarrow>
                         if AutoProvAppInstOnline o' info cloudlet = AutoProvAppInstOnline new info cloudlet then s
                         else needs_work [ai_AppKey new] s)))"

definition DeletedAppInst :: "CacheData \<Rightarrow> AppInst \<Rightarrow> MinMaxChecker \<Rightarrow> MinMaxChecker" where
  "DeletedAppInst c inst s =
     (if \<not> isAutoProvApp c (ai_AppKey inst) then s
      else needs_work [ai_AppKey inst]
        (s\<lparr>mm_autoprovInstsByCloudlet := DeletedOne (ai_Key inst) (ai_CloudletKey inst) (mm_autoprovInstsByCloudlet s)\<rparr>))"

definition UpdatedAppInstRefs :: "CacheData \<Rightarrow> AppKey \<Rightarrow> MinMaxChecker \<Rightarrow> MinMaxChecker" where
  "UpdatedAppInstRefs c key s = (if \<not> isAutoProvApp c key then s else needs_work [key] s)"

text \<open>
  The two ends of \<^verbatim>\<open>CheckApp\<close>: the requests that wait for the application, taken before it is checked, and, after, the requests
  it completes. A completed request leaves the table; its reply waits for the API calls to finish.
\<close>

definition waiting_reqs :: "AppKey \<Rightarrow> MinMaxChecker \<Rightarrow> CloudletKey list" where
  "waiting_reqs key s = map fst (filter (\<lambda>(_, req). key \<in> set (fr_appsToCheck req)) (mm_failoverRequests s))"

definition finish_req :: "AppKey \<Rightarrow> CloudletKey \<Rightarrow> MinMaxChecker \<times> (CloudletKey \<times> failoverReq) list \<Rightarrow> MinMaxChecker \<times> (CloudletKey \<times> failoverReq) list" where
  "finish_req key ck sd =
     (case sd of (s, finished) \<Rightarrow>
        (case map_of (mm_failoverRequests s) ck of None \<Rightarrow> (s, finished)
         | Some req \<Rightarrow>
             (case appDone key req of
                (req', False) \<Rightarrow> (s\<lparr>mm_failoverRequests := AList.update ck req' (mm_failoverRequests s)\<rparr>, finished)
              | (req', True) \<Rightarrow> (s\<lparr>mm_failoverRequests := AList.delete ck (mm_failoverRequests s)\<rparr>, finished @ [(ck, req')]))))"

definition failover_reply :: "CloudletKey \<Rightarrow> failoverReq \<Rightarrow> MinMaxChecker \<Rightarrow> MinMaxChecker" where
  "failover_reply ck req s =
     s\<lparr>mm_autoProvInfo := mm_autoProvInfo s @ [\<lparr>api_Key = ck,
        api_MaintenanceState = (if fr_Errors req = [] then FAILOVER_DONE else FAILOVER_ERROR),
        api_Completed = fr_Completed req, api_Errors = fr_Errors req\<rparr>]\<rparr>"

definition CheckAppDone :: "AppKey \<Rightarrow> CloudletKey list \<Rightarrow> MinMaxChecker \<Rightarrow> MinMaxChecker \<times> (CloudletKey \<times> failoverReq) list" where
  "CheckAppDone key reqs s = fold (finish_req key) reqs (s, [])"


subsection \<open>Deployment on demand\<close>

record apCloudletStats =
  as_count :: uint64
  as_lastCount :: uint64
  as_intervalNum :: uint64

record apPolicyTracker =
  pt_deployClientCount :: uint32
  pt_deployIntervalCount :: uint32
  pt_zoneTrackers :: "(ZoneKey, uint32) gomap"

record apAppStats =
  ap_policies :: "(string, apPolicyTracker) gomap"
  ap_zones :: "(ZoneKey, apCloudletStats) gomap"

record AutoProvAggr =
  ag_allStats :: "(AppKey, apAppStats) gomap"
  ag_intervalNum :: uint64

text \<open>Client counts as the database returns them, one row per application, zone and reporting server, added up.\<close>

definition aggregate :: "(AppKey \<times> ZoneKey \<times> uint64) list \<Rightarrow> (AppKey, (ZoneKey, uint64) gomap) gomap" where
  "aggregate rows =
     fold (\<lambda>(appKey, zoneKey, cnt) stats.
       let zs = get_or [] stats appKey
       in AList.update appKey (AList.update zoneKey (get_or 0 zs zoneKey + cnt) zs) stats) rows []"

text \<open>One policy and one zone in one interval: the new counter, or no change where the zone is not the policy's.\<close>

definition track :: "bool \<Rightarrow> uint64 \<Rightarrow> ZoneKey \<Rightarrow> apPolicyTracker \<Rightarrow> apPolicyTracker \<times> bool" where
  "track resetIntervalsMet increment zkey ap =
     (case map_of (pt_zoneTrackers ap) zkey of None \<Rightarrow> (ap, False)
      | Some intervalsMet \<Rightarrow>
          let met = (if resetIntervalsMet then 0 else intervalsMet);
              met = (if increment \<ge> ucast (pt_deployClientCount ap) then met + 1 else 0)
          in (ap\<lparr>pt_zoneTrackers := AList.update zkey met (pt_zoneTrackers ap)\<rparr>, met \<ge> pt_deployIntervalCount ap))"

definition iter_zone :: "bool \<Rightarrow> uint64 \<Rightarrow> ZoneKey \<Rightarrow> uint64 \<Rightarrow> apAppStats \<Rightarrow> apAppStats \<times> bool" where
  "iter_zone ini intervalNum zkey cnt st =
     (let cstats = get_or \<lparr>as_count = 0, as_lastCount = 0, as_intervalNum = intervalNum - 1\<rparr> (ap_zones st) zkey
      in if ini then
           (st\<lparr>ap_zones := AList.update zkey (cstats\<lparr>as_count := cnt, as_intervalNum := intervalNum\<rparr>) (ap_zones st)\<rparr>, False)
         else
           let resetIntervalsMet = (intervalNum - 1 \<noteq> as_intervalNum cstats);
               r = map (\<lambda>(name, ap). (name, track resetIntervalsMet (cnt - as_count cstats) zkey ap)) (ap_policies st)
           in (st\<lparr>ap_policies := map (\<lambda>(name, ap, _). (name, ap)) r,
                 ap_zones := AList.update zkey \<lparr>as_count = cnt, as_lastCount = as_count cstats, as_intervalNum = intervalNum\<rparr>
                   (ap_zones st)\<rparr>,
               list_ex (\<lambda>(_, _, doDeploy). doDeploy) r))"

definition iter_app ::
  "CacheData \<Rightarrow> bool \<Rightarrow> AppKey \<times> (ZoneKey, uint64) gomap \<Rightarrow> AutoProvAggr \<times> (AppKey \<times> ZoneKey) list \<Rightarrow> AutoProvAggr \<times> (AppKey \<times> ZoneKey) list" where
  "iter_app c ini az acc =
     (case az of (appKey, zones) \<Rightarrow> case acc of (s, deploys) \<Rightarrow>
        (case map_of (ag_allStats s) appKey of None \<Rightarrow> (s, deploys)
         | Some st \<Rightarrow>
             if map_of (appCache c) appKey = None then (s, deploys)
             else
               let (st', ds) = fold (\<lambda>(zkey, cnt) (st, ds).
                      case iter_zone ini (ag_intervalNum s) zkey cnt st of
                        (st', dep) \<Rightarrow> (st', if dep then ds @ [(appKey, zkey)] else ds)) zones (st, [])
               in (s\<lparr>ag_allStats := AList.update appKey st' (ag_allStats s)\<rparr>, deploys @ ds)))"

text \<open>The instances to deploy are returned next to the new state.\<close>

definition runIter ::
  "CacheData \<Rightarrow> bool \<Rightarrow> (AppKey \<times> ZoneKey \<times> uint64) list \<Rightarrow> AutoProvAggr \<Rightarrow> AutoProvAggr \<times> (AppKey \<times> ZoneKey) list" where
  "runIter c ini rows s =
     (let s = s\<lparr>ag_intervalNum := ag_intervalNum s + 1\<rparr>;
          (s, deploys) = fold (iter_app c ini) (aggregate rows) (s, [])
      in (if ini then s\<lparr>ag_intervalNum := ag_intervalNum s - 1\<rparr> else s, deploys))"

definition updatePolicyTracker :: "AutoProvPolicy \<Rightarrow> apPolicyTracker \<Rightarrow> apPolicyTracker" where
  "updatePolicyTracker policy ap =
     \<lparr>pt_deployClientCount = pol_DeployClientCount policy, pt_deployIntervalCount = pol_DeployIntervalCount policy,
      pt_zoneTrackers = fold (\<lambda>key m. AList.update key (get_or 0 (pt_zoneTrackers ap) key) m) (pol_Zones policy) []\<rparr>"

definition DeleteAppAggr :: "AppKey \<Rightarrow> AutoProvAggr \<Rightarrow> AutoProvAggr" where
  "DeleteAppAggr appKey s = s\<lparr>ag_allStats := AList.delete appKey (ag_allStats s)\<rparr>"

definition UpdateAppAggr :: "CacheData \<Rightarrow> AppKey \<Rightarrow> AutoProvAggr \<Rightarrow> AutoProvAggr" where
  "UpdateAppAggr c appKey s =
     (case map_of (appCache c) appKey of
        None \<Rightarrow> DeleteAppAggr appKey s
      | Some app \<Rightarrow>
          let inAP = GetAutoProvPolicies app
          in if inAP = [] then DeleteAppAggr (app_Key app) s
             else
               let st = get_or \<lparr>ap_policies = [], ap_zones = []\<rparr> (ag_allStats s) (app_Key app);
                   kept = filter (\<lambda>(name, _). name \<in> set inAP) (ap_policies st);
                   ps = fold (\<lambda>name m. if map_of m name \<noteq> None then m
                          else case map_of (autoProvPolicyCache c) (name, app_org appKey) of None \<Rightarrow> m
                            | Some policy \<Rightarrow> AList.update name
                                (updatePolicyTracker policy \<lparr>pt_deployClientCount = 0, pt_deployIntervalCount = 0, pt_zoneTrackers = []\<rparr>) m)
                        inAP kept
               in s\<lparr>ag_allStats := AList.update (app_Key app) (st\<lparr>ap_policies := ps\<rparr>) (ag_allStats s)\<rparr>)"

definition UpdatePolicyAggr :: "CacheData \<Rightarrow> PolicyKey \<Rightarrow> AutoProvAggr \<Rightarrow> AutoProvAggr" where
  "UpdatePolicyAggr c key s =
     (case map_of (autoProvPolicyCache c) key of None \<Rightarrow> s
      | Some policy \<Rightarrow>
          s\<lparr>ag_allStats := map (\<lambda>(appKey, st).
              (appKey,
               if app_org appKey \<noteq> snd (pol_Key policy) then st
               else case map_of (ap_policies st) (fst (pol_Key policy)) of None \<Rightarrow> st
                 | Some ap \<Rightarrow> st\<lparr>ap_policies := AList.update (fst (pol_Key policy)) (updatePolicyTracker policy ap) (ap_policies st)\<rparr>))
              (ag_allStats s)\<rparr>)"

subsection \<open>A check of an application\<close>

text \<open>The new clients of a zone in the last interval, when the application has statistics.\<close>

definition site_incr :: "AutoProvAggr \<Rightarrow> AppKey \<Rightarrow> (ZoneKey \<Rightarrow> uint64) option" where
  "site_incr s appKey =
     (case map_of (ag_allStats s) appKey of None \<Rightarrow> None
      | Some st \<Rightarrow> Some (\<lambda>zkey. case map_of (ap_zones st) zkey of None \<Rightarrow> 0
          | Some cstats \<Rightarrow> if as_intervalNum cstats = ag_intervalNum s then as_count cstats - as_lastCount cstats else 0))"

text \<open>A policy with too few sites is an error of every waiting request. The name of the policy stands for the message.\<close>

definition add_errors :: "string list \<Rightarrow> CloudletKey \<Rightarrow> MinMaxChecker \<Rightarrow> MinMaxChecker" where
  "add_errors msgs ck s =
     (case map_of (mm_failoverRequests s) ck of None \<Rightarrow> s
      | Some req \<Rightarrow> s\<lparr>mm_failoverRequests := AList.update ck (fold addError msgs req) (mm_failoverRequests s)\<rparr>)"

text \<open>
  \<^verbatim>\<open>MinMaxChecker.CheckApp\<close>: the new state, the actions of the check and the requests it finished. Results of the create workers
  reach a request later, through \<open>addCompleted\<close> and \<open>addError\<close>, before \<open>failover_reply\<close>.
\<close>

definition CheckApp ::
  "CacheData \<Rightarrow> RetryTracker \<Rightarrow> (CloudletKey \<Rightarrow> bool) \<Rightarrow> site_sort \<Rightarrow> AutoProvAggr \<Rightarrow> AppKey \<Rightarrow> MinMaxChecker
   \<Rightarrow> MinMaxChecker \<times> ((string \<times> policy_actions) list \<times> AppInstKey list) option \<times> (CloudletKey \<times> failoverReq) list" where
  "CheckApp c retries freeClusts sort_slice aggr key s =
     (let reqs = waiting_reqs key s;
          acts = CheckAppChecker c (hasFailure retries) freeClusts sort_slice (site_incr aggr key) key;
          short = (case acts of None \<Rightarrow> [] | Some (ps, _) \<Rightarrow> map fst (filter (pa_notEnough \<circ> snd) ps));
          (s', finished) = CheckAppDone key reqs (fold (add_errors short) reqs s)
      in (s', acts, finished))"

subsection \<open>The controller's checks\<close>

datatype Action = Create | Delete

datatype autoprov_error =
    ApInstNotFound AppInstKey | ApCloudletNotFound CloudletKey | PolicyNotFound PolicyKey | AlreadyOnZone ZoneKey | ExceedsMax uint32 string
  | ViolatesMin uint32 string | MinMet | MaxMet | NotOrphaned string | ReservedPrefix

definition autoProvAppInstOnline :: "CacheData \<Rightarrow> AppInstKey \<Rightarrow> (autoprov_error, bool) result" where
  "autoProvAppInstOnline c key =
     (case map_of (appInstCache c) key of None \<Rightarrow> Err (ApInstNotFound key)
      | Some appInst \<Rightarrow>
          (case map_of (cloudletInfoCache c) (ai_CloudletKey appInst) of None \<Rightarrow> Err (ApCloudletNotFound (ai_CloudletKey appInst))
           | Some info \<Rightarrow>
               (case map_of (cloudletCache c) (ai_CloudletKey appInst) of None \<Rightarrow> Err (ApCloudletNotFound (ai_CloudletKey appInst))
                | Some cloudlet \<Rightarrow> Ok (AutoProvAppInstOnline appInst info cloudlet))))"

fun count_refs :: "CacheData \<Rightarrow> bool \<Rightarrow> AppInstKey list \<Rightarrow> (ZoneKey, int) gomap \<Rightarrow> (autoprov_error, (ZoneKey, int) gomap) result" where
  "count_refs c onlineOnly [] counts = Ok counts"
| "count_refs c onlineOnly (key # refs) counts =
     (case map_of (appInstCache c) key of None \<Rightarrow> count_refs c onlineOnly refs counts
      | Some inst \<Rightarrow>
          if AppInstBeingDeleted inst then count_refs c onlineOnly refs counts
          else
            let bump = AList.update (ai_ZoneKey inst) (get_or 0 counts (ai_ZoneKey inst) + 1) counts
            in if \<not> onlineOnly then count_refs c onlineOnly refs bump
               else case autoProvAppInstOnline c key of
                 Inl e \<Rightarrow> Err e
               | Inr online \<Rightarrow> count_refs c onlineOnly refs (if online then bump else counts))"

definition getAppInstCountsForAutoProv :: "CacheData \<Rightarrow> AppInstKey list \<Rightarrow> bool \<Rightarrow> (autoprov_error, (ZoneKey, int) gomap) result" where
  "getAppInstCountsForAutoProv c refs onlineOnly = count_refs c onlineOnly refs []"

definition policy_count :: "(ZoneKey, int) gomap \<Rightarrow> AutoProvPolicy \<Rightarrow> int" where
  "policy_count counts policy = (\<Sum>zoneKey\<leftarrow>pol_Zones policy. get_or 0 counts zoneKey)"

definition demand_verdict :: "Action \<Rightarrow> ZoneKey \<Rightarrow> (ZoneKey, int) gomap \<Rightarrow> AutoProvPolicy \<Rightarrow> autoprov_error option" where
  "demand_verdict action zone counts policy =
     (if zone \<notin> set (pol_Zones policy) then None
      else if action = Create \<and> pol_MaxInstances policy > 0 \<and> policy_count counts policy \<ge> int (unat (pol_MaxInstances policy))
        then Some (ExceedsMax (pol_MaxInstances policy) (fst (pol_Key policy)))
      else if action = Delete \<and> pol_MinActiveInstances policy > 0
          \<and> policy_count counts policy \<le> int (unat (pol_MinActiveInstances policy))
        then Some (ViolatesMin (pol_MinActiveInstances policy) (fst (pol_Key policy)))
      else None)"

fun demand_loop :: "CacheData \<Rightarrow> Action \<Rightarrow> string \<Rightarrow> ZoneKey \<Rightarrow> (ZoneKey, int) gomap \<Rightarrow> string list \<Rightarrow> autoprov_error option" where
  "demand_loop c action org zone counts [] = None"
| "demand_loop c action org zone counts (pname # ps) =
     (case map_of (autoProvPolicyCache c) (pname, org) of None \<Rightarrow> Some (PolicyNotFound (pname, org))
      | Some policy \<Rightarrow>
          (case demand_verdict action zone counts policy of Some e \<Rightarrow> Some e
           | None \<Rightarrow> demand_loop c action org zone counts ps))"

definition checkDemand :: "CacheData \<Rightarrow> Action \<Rightarrow> App \<Rightarrow> AppInst \<Rightarrow> AppInstKey list \<Rightarrow> autoprov_error option" where
  "checkDemand c action app inst refs =
     (let proceed = (\<lambda>onlineOnly.
            case getAppInstCountsForAutoProv c refs onlineOnly of Inl e \<Rightarrow> Some e
            | Inr counts \<Rightarrow> demand_loop c action (app_org (app_Key app)) (ai_ZoneKey inst) counts (GetAutoProvPolicies app))
      in if action = Delete then
           (case autoProvAppInstOnline c (ai_Key inst) of Inl e \<Rightarrow> Some e
            | Inr online \<Rightarrow> if \<not> online then None else proceed True)
         else proceed False)"

definition checkMinMax :: "CacheData \<Rightarrow> Action \<Rightarrow> App \<Rightarrow> AppInstKey list \<Rightarrow> string \<Rightarrow> autoprov_error option" where
  "checkMinMax c action app refs policyName =
     (case getAppInstCountsForAutoProv c refs (action = Create) of Inl e \<Rightarrow> Some e
      | Inr counts \<Rightarrow>
          (case map_of (autoProvPolicyCache c) (policyName, app_org (app_Key app)) of
             None \<Rightarrow> Some (PolicyNotFound (policyName, app_org (app_Key app)))
           | Some policy \<Rightarrow>
               if action = Create \<and> pol_MinActiveInstances policy > 0
                   \<and> policy_count counts policy \<ge> int (unat (pol_MinActiveInstances policy)) then Some MinMet
               else if action = Delete \<and> pol_MaxInstances policy > 0
                   \<and> policy_count counts policy \<le> int (unat (pol_MaxInstances policy)) then Some MaxMet
               else None))"

fun orphan_loop :: "CacheData \<Rightarrow> string \<Rightarrow> ZoneKey \<Rightarrow> string list \<Rightarrow> autoprov_error option" where
  "orphan_loop c org zone [] = None"
| "orphan_loop c org zone (pname # ps) =
     (case map_of (autoProvPolicyCache c) (pname, org) of None \<Rightarrow> orphan_loop c org zone ps
      | Some policy \<Rightarrow> if zone \<in> set (pol_Zones policy) then Some (NotOrphaned pname) else orphan_loop c org zone ps)"

definition checkOrphaned :: "CacheData \<Rightarrow> Action \<Rightarrow> App \<Rightarrow> AppInst \<Rightarrow> autoprov_error option" where
  "checkOrphaned c action app inst =
     (if action \<noteq> Delete then None else orphan_loop c (app_org (app_Key app)) (ai_ZoneKey inst) (GetAutoProvPolicies app))"

text \<open>
  The metadata of a call: absent, or whether the caller is the auto-provisioning service, with the reasons and the policy names it
  gives. The result also has the instance, marked as auto-provisioned where the code marks it.
\<close>

record call_metadata =
  md_caller :: bool
  md_reasons :: "string list option"
  md_policyNames :: "string list option"

fun zone_taken :: "CacheData \<Rightarrow> ZoneKey \<Rightarrow> AppInstKey list \<Rightarrow> bool" where
  "zone_taken c zone [] = False"
| "zone_taken c zone (k # ks) =
     (case map_of (appInstCache c) k of None \<Rightarrow> zone_taken c zone ks
      | Some ref \<Rightarrow> zone = ai_ZoneKey ref \<or> zone_taken c zone ks)"

definition appInstCheck :: "CacheData \<Rightarrow> call_metadata option \<Rightarrow> Action \<Rightarrow> App \<Rightarrow> AppInst \<Rightarrow> AppInst \<times> autoprov_error option" where
  "appInstCheck c md action app inst =
     (case md of
        None \<Rightarrow> (inst, if HasPrefix (fst (ai_Key inst)) ''autoprov-'' then Some ReservedPrefix else None)
      | Some m \<Rightarrow>
          (case (md_caller m, md_reasons m, md_policyNames m) of
             (True, Some (reason # _), Some (policyName # _)) \<Rightarrow>
               let inst = (if action = Create then inst\<lparr>ai_Liveness := LIVENESS_AUTOPROV\<rparr> else inst);
                   refs = get_or [] (appInstRefsCache c) (app_Key app)
               in if action = Create \<and> zone_taken c (ai_ZoneKey inst) refs then (inst, Some (AlreadyOnZone (ai_ZoneKey inst)))
                  else (inst,
                    if reason = ''demand'' then checkDemand c action app inst refs
                    else if reason = ''minmax'' then checkMinMax c action app refs policyName
                    else if reason = ''orphaned'' then checkOrphaned c action app inst
                    else None)
           | _ \<Rightarrow> (inst, None)))"


subsection \<open>What a check of a policy decides\<close>

definition policy_insts :: "zone_insts \<Rightarrow> AutoProvPolicy \<Rightarrow> AppInstKey list" where
  "policy_insts zi policy = concat (map (\<lambda>z. keys (get_or [] zi z)) (pol_Zones policy))"

definition open_sites :: "CacheData \<Rightarrow> (ZoneKey \<Rightarrow> bool) \<Rightarrow> zone_insts \<Rightarrow> AutoProvPolicy \<Rightarrow> ZoneKey list" where
  "open_sites c failed zi policy =
     filter (\<lambda>z. map_of zi z = None \<and> zoneOnline c z \<and> \<not> failed z) (pol_Zones policy)"

lemma count_insts:
  "fold (count_inst c) ks s = s\<lparr>pc_totalCount := pc_totalCount s + int (length ks),
     pc_onlineCount := pc_onlineCount s + int (length (filter (appInstOnlineOrGoingOnline c) ks)),
     pc_potentialDelete := pc_potentialDelete s @ filter (isAutoProvInst c) ks\<rparr>"
  by (induction ks arbitrary: s) (simp_all add: count_inst_def)

lemma count_zones:
  fixes c failed free zi
  defines "step \<equiv> fold (count_zone c failed free zi)"
  shows "pc_totalCount (step zs s) = pc_totalCount s + int (length (concat (map (\<lambda>z. keys (get_or [] zi z)) zs)))
    \<and> pc_onlineCount (step zs s) = pc_onlineCount s
        + int (length (filter (appInstOnlineOrGoingOnline c) (concat (map (\<lambda>z. keys (get_or [] zi z)) zs))))
    \<and> pc_potentialDelete (step zs s) = pc_potentialDelete s @ filter (isAutoProvInst c) (concat (map (\<lambda>z. keys (get_or [] zi z)) zs))
    \<and> map pcs_zoneKey (pc_potentialCreate (step zs s)) = map pcs_zoneKey (pc_potentialCreate s)
        @ filter (\<lambda>z. map_of zi z = None \<and> zoneOnline c z \<and> \<not> failed z) zs"
  unfolding step_def
proof (induction zs arbitrary: s)
  case (Cons z zs)
  show ?case
  proof (cases "map_of zi z")
    case None
    then have "get_or [] zi z = []" by (simp add: get_or_def del: map_of_eq_None_keys)
    then show ?thesis using None Cons.IH[of "count_zone c failed free zi z s"]
      by (auto simp: count_zone_def simp del: map_of_eq_None_keys)
  next
    case (Some insts)
    then have "get_or [] zi z = insts" "count_zone c failed free zi z s = fold (count_inst c) (keys insts) s"
      by (simp_all add: get_or_def count_zone_def)
    then show ?thesis using Some Cons.IH[of "count_zone c failed free zi z s"]
      by (simp add: count_insts del: map_of_eq_None_keys)
  qed
qed simp

lemma policy_stats_spec:
  "pc_totalCount (policy_stats c failed free zi p) = int (length (policy_insts zi p))"
  "pc_onlineCount (policy_stats c failed free zi p) = int (length (filter (appInstOnlineOrGoingOnline c) (policy_insts zi p)))"
  "pc_potentialDelete (policy_stats c failed free zi p) = filter (isAutoProvInst c) (policy_insts zi p)"
  "map pcs_zoneKey (pc_potentialCreate (policy_stats c failed free zi p)) = open_sites c failed zi p"
  using count_zones[of c failed free zi "pol_Zones p"] by (simp_all add: policy_stats_def policy_insts_def open_sites_def)

lemma chooseDelete_length: "length (chooseDelete xs n) = min (length xs) (nat n)"
  by (auto simp: chooseDelete_def Let_def)

lemma chooseDelete_suffix: "\<exists>ys. xs = ys @ chooseDelete xs n"
proof -
  have "\<exists>ys. xs = ys @ drop k xs" for k by (metis append_take_drop_id)
  then show ?thesis by (auto simp: chooseDelete_def Let_def)
qed

definition permutes_sites :: "site_sort \<Rightarrow> bool" where
  "permutes_sites srt = (\<forall>less xs. mset (srt less xs) = mset xs)"

lemma mset_sortPotentialCreate: "permutes_sites srt \<Longrightarrow> mset (sortPotentialCreate srt incr xs) = mset xs"
  by (simp add: sortPotentialCreate_def permutes_sites_def)

text \<open>
  (C33) A policy check acts exactly on the counts. With as many instances as the maximum or more, it creates nothing and deletes the
  surplus, as far as it consists of auto-provisioned instances, from the end of the policy's list; so it never deletes below the
  maximum nor deletes an instance it did not create. Below the maximum, or without one, it deletes nothing and starts one
  create worker for each instance missing for the minimum, as far as there are sites: zones of the policy
  that are online, have no instance and no recorded failure.
\<close>

theorem checkPolicy_acts_on_counts:
  fixes c failed free srt incr zi app pname
  defines "act \<equiv> checkPolicy c failed free srt incr zi app pname"
  assumes policy: "map_of (autoProvPolicyCache c) (pname, app_org (app_Key app)) = Some p" and "permutes_sites srt"
  shows "if 0 < pol_MaxInstances p \<and> unat (pol_MaxInstances p) \<le> length (policy_insts zi p)
    then pa_workers act = 0
      \<and> length (pa_deletes act) = min (length (filter (isAutoProvInst c) (policy_insts zi p)))
          (length (policy_insts zi p) - unat (pol_MaxInstances p))
      \<and> (\<exists>ys. filter (isAutoProvInst c) (policy_insts zi p) = ys @ pa_deletes act)
    else pa_deletes act = [] \<and> mset (pa_sites act) = mset (open_sites c failed zi p)
      \<and> pa_workers act = min (unat (pol_MinActiveInstances p)
          - length (filter (appInstOnlineOrGoingOnline c) (policy_insts zi p))) (length (open_sites c failed zi p))"
proof -
  let ?st = "policy_stats c failed free zi p" and ?mx = "unat (pol_MaxInstances p)" and ?n = "length (policy_insts zi p)"
  have mx: "0 < pol_MaxInstances p \<longleftrightarrow> 0 < ?mx" by (simp add: word_less_nat_alt)
  let ?pot = "sortPotentialCreate srt incr (pc_potentialCreate ?st)"
  have "mset (map pcs_zoneKey ?pot) = mset (map pcs_zoneKey (pc_potentialCreate ?st))"
    using mset_sortPotentialCreate[OF assms(3)] by (metis mset_map)
  then have sites: "mset (map pcs_zoneKey ?pot) = mset (open_sites c failed zi p)" by (simp add: policy_stats_spec)
  then have len: "length ?pot = length (open_sites c failed zi p)" by (metis length_map mset_eq_length)
  show ?thesis
  proof (cases "0 < ?mx \<and> ?mx \<le> ?n")
    case True
    then have "act = \<lparr>pa_deletes = chooseDelete (pc_potentialDelete ?st) (pc_totalCount ?st - int ?mx), pa_workers = 0, pa_sites = [],
        pa_notEnough = False\<rparr>"
      by (simp add: act_def checkPolicy_def policy Let_def policy_stats_spec del: of_nat_unat)
    moreover have "nat (int ?n - int ?mx) = ?n - ?mx" by (simp del: of_nat_unat)
    ultimately show ?thesis using True mx chooseDelete_suffix
      by (simp add: policy_stats_spec chooseDelete_length del: of_nat_unat)
  next
    case False
    then have "pa_deletes act = []" "pa_sites act = map pcs_zoneKey ?pot"
      "pa_workers act = min (nat (int (unat (pol_MinActiveInstances p)) - pc_onlineCount ?st)) (length ?pot)"
      by (auto simp: act_def checkPolicy_def policy Let_def policy_stats_spec chooseDelete_def simp del: of_nat_unat)
    moreover have "nat (int m - int k) = m - k" for m k by simp
    ultimately show ?thesis using False mx sites len by (auto simp: policy_stats_spec simp del: of_nat_unat)
  qed
qed

subsection \<open>What the controller lets through\<close>

definition live_on :: "CacheData \<Rightarrow> (AppInstKey \<Rightarrow> bool) \<Rightarrow> ZoneKey \<Rightarrow> AppInstKey \<Rightarrow> bool" where
  "live_on c P z k =
     (case map_of (appInstCache c) k of None \<Rightarrow> False
      | Some inst \<Rightarrow> \<not> AppInstBeingDeleted inst \<and> ai_ZoneKey inst = z \<and> P k)"

text \<open>The instances of an application on the zones of a policy that are not being deleted and satisfy \<open>P\<close>.\<close>

definition live_count :: "CacheData \<Rightarrow> (AppInstKey \<Rightarrow> bool) \<Rightarrow> AppInstKey list \<Rightarrow> AutoProvPolicy \<Rightarrow> nat" where
  "live_count c P refs p = (\<Sum>z\<leftarrow>pol_Zones p. length (filter (live_on c P z) refs))"

abbreviation is_online :: "CacheData \<Rightarrow> AppInstKey \<Rightarrow> bool" where
  "is_online c k \<equiv> autoProvAppInstOnline c k = Inr True"

lemma count_refs_spec:
  assumes "count_refs c on refs counts = Inr counts'"
  shows "get_or 0 counts' z = get_or 0 counts z + int (length (filter (live_on c (\<lambda>k. on \<longrightarrow> is_online c k) z) refs))"
  using assms
proof (induction refs arbitrary: counts)
  case (Cons k refs)
  show ?case
  proof (cases "map_of (appInstCache c) k")
    case None
    then show ?thesis using Cons by (simp add: live_on_def del: map_of_eq_None_keys)
  next
    case (Some inst)
    show ?thesis
    proof (cases "AppInstBeingDeleted inst")
      case True
      then show ?thesis using Cons Some by (simp add: live_on_def)
    next
      case False
      let ?b = "AList.update (ai_ZoneKey inst) (get_or 0 counts (ai_ZoneKey inst) + 1) counts"
      have b: "get_or 0 ?b z = get_or 0 counts z + (if ai_ZoneKey inst = z then 1 else 0)" by (simp add: get_or_def)
      show ?thesis
      proof (cases "\<not> on \<or> is_online c k")
        case True
        then have "count_refs c on refs ?b = Inr counts'" using Cons.prems Some False by (cases on) (simp_all add: Let_def)
        from Cons.IH[OF this] show ?thesis using Some False True by (auto simp: live_on_def b)
      next
        case off: False
        then have "count_refs c on refs counts = Inr counts'" using Cons.prems Some False by (auto simp: Let_def split: sum.splits)
        moreover have "\<not> live_on c (\<lambda>k. on \<longrightarrow> is_online c k) z k" using Some off by (simp add: live_on_def)
        ultimately show ?thesis using Cons.IH by simp
      qed
    qed
  qed
qed simp

lemma counts_spec:
  assumes "getAppInstCountsForAutoProv c refs on = Inr counts"
  shows "policy_count counts p = int (live_count c (\<lambda>k. on \<longrightarrow> is_online c k) refs p)"
proof -
  have g: "get_or 0 counts z = int (length (filter (live_on c (\<lambda>k. on \<longrightarrow> is_online c k) z) refs))" for z
    using count_refs_spec[OF assms[unfolded getAppInstCountsForAutoProv_def]] by (simp add: get_or_def)
  have "(\<Sum>z\<leftarrow>zs. get_or 0 counts z) = int (\<Sum>z\<leftarrow>zs. length (filter (live_on c (\<lambda>k. on \<longrightarrow> is_online c k) z) refs))" for zs
    by (induction zs) (simp_all add: g)
  then show ?thesis by (simp add: policy_count_def live_count_def)
qed

lemma demand_loop_None:
  "demand_loop c action org zone counts ps = None \<longleftrightarrow>
   (\<forall>pname \<in> set ps. \<exists>p. map_of (autoProvPolicyCache c) (pname, org) = Some p \<and> demand_verdict action zone counts p = None)"
  by (induction ps) (auto split: option.splits simp del: map_of_eq_Some_iff map_of_eq_None_keys)

lemma zone_taken_iff: "zone_taken c z ks \<longleftrightarrow> (\<exists>k \<in> set ks. \<exists>ref. map_of (appInstCache c) k = Some ref \<and> ai_ZoneKey ref = z)"
  by (induction ks) (auto split: option.splits simp del: map_of_eq_Some_iff map_of_eq_None_keys)

lemma demand_verdict_None:
  assumes "demand_verdict action z counts p = None" "z \<in> set (pol_Zones p)"
  shows "action = Create \<and> 0 < pol_MaxInstances p \<longrightarrow> policy_count counts p < int (unat (pol_MaxInstances p))"
    "action = Delete \<and> 0 < pol_MinActiveInstances p \<longrightarrow> int (unat (pol_MinActiveInstances p)) < policy_count counts p"
  using assms by (auto simp: demand_verdict_def simp del: of_nat_unat split: if_splits)

lemma proceed_None:
  assumes "(case getAppInstCountsForAutoProv c refs on of Inl e \<Rightarrow> Some e
      | Inr counts \<Rightarrow> demand_loop c action org z counts ps) = None" and "pname \<in> set ps"
  obtains counts p where "getAppInstCountsForAutoProv c refs on = Inr counts" "map_of (autoProvPolicyCache c) (pname, org) = Some p"
    "demand_verdict action z counts p = None"
  using assms by (cases "getAppInstCountsForAutoProv c refs on") (auto simp: demand_loop_None)

lemma checkDemand_Create:
  assumes "checkDemand c Create app inst refs = None" "pname \<in> set (GetAutoProvPolicies app)"
  shows "\<exists>p. map_of (autoProvPolicyCache c) (pname, app_org (app_Key app)) = Some p \<and>
    (ai_ZoneKey inst \<in> set (pol_Zones p) \<and> 0 < pol_MaxInstances p \<longrightarrow> live_count c (\<lambda>_. True) refs p < unat (pol_MaxInstances p))"
proof -
  have "(case getAppInstCountsForAutoProv c refs False of Inl e \<Rightarrow> Some e
      | Inr counts \<Rightarrow> demand_loop c Create (app_org (app_Key app)) (ai_ZoneKey inst) counts (GetAutoProvPolicies app)) = None"
    using assms(1) by (simp add: checkDemand_def Let_def)
  then show ?thesis
  proof (rule proceed_None[OF _ assms(2)])
    fix counts p
    assume h: "getAppInstCountsForAutoProv c refs False = Inr counts"
      "map_of (autoProvPolicyCache c) (pname, app_org (app_Key app)) = Some p" "demand_verdict Create (ai_ZoneKey inst) counts p = None"
    show ?thesis using h(2) demand_verdict_None(1)[OF h(3)] counts_spec[OF h(1), of p] by (auto simp del: of_nat_unat)
  qed
qed

lemma checkDemand_Delete:
  assumes "checkDemand c Delete app inst refs = None" "pname \<in> set (GetAutoProvPolicies app)" "is_online c (ai_Key inst)"
  shows "\<exists>p. map_of (autoProvPolicyCache c) (pname, app_org (app_Key app)) = Some p \<and>
    (ai_ZoneKey inst \<in> set (pol_Zones p) \<and> 0 < pol_MinActiveInstances p
       \<longrightarrow> unat (pol_MinActiveInstances p) < live_count c (is_online c) refs p)"
proof -
  have "(case getAppInstCountsForAutoProv c refs True of Inl e \<Rightarrow> Some e
      | Inr counts \<Rightarrow> demand_loop c Delete (app_org (app_Key app)) (ai_ZoneKey inst) counts (GetAutoProvPolicies app)) = None"
    using assms(1,3) by (simp add: checkDemand_def Let_def)
  then show ?thesis
  proof (rule proceed_None[OF _ assms(2)])
    fix counts p
    assume h: "getAppInstCountsForAutoProv c refs True = Inr counts"
      "map_of (autoProvPolicyCache c) (pname, app_org (app_Key app)) = Some p" "demand_verdict Delete (ai_ZoneKey inst) counts p = None"
    show ?thesis using h(2) demand_verdict_None(2)[OF h(3)] counts_spec[OF h(1), of p] by (auto simp del: of_nat_unat)
  qed
qed

definition demand_call :: "string \<Rightarrow> call_metadata" where
  "demand_call policyName = \<lparr>md_caller = True, md_reasons = Some [''demand''], md_policyNames = Some [policyName]\<rparr>"

text \<open>
  (C34) A call of the auto-provisioning service on demand that the controller lets through keeps the bounds of every policy of the
  application, and all of them exist. After a create, the zone has this one instance, and no policy that covers the zone counts more than
  its maximum; after the deletion of an online instance, each still has its minimum of active instances.
\<close>

theorem demand_call_keeps_bounds:
  fixes c app inst action n
  defines "refs \<equiv> get_or [] (appInstRefsCache c) (app_Key app)"
  assumes "snd (appInstCheck c (Some (demand_call n)) action app inst) = None"
    and "pname \<in> set (GetAutoProvPolicies app)" and "action = Delete \<longrightarrow> is_online c (ai_Key inst)"
  shows "\<exists>p. map_of (autoProvPolicyCache c) (pname, app_org (app_Key app)) = Some p \<and>
    (case action of
       Create \<Rightarrow> (\<forall>k \<in> set refs. \<forall>ref. map_of (appInstCache c) k = Some ref \<longrightarrow> ai_ZoneKey ref \<noteq> ai_ZoneKey inst)
         \<and> (ai_ZoneKey inst \<in> set (pol_Zones p) \<and> 0 < pol_MaxInstances p
              \<longrightarrow> live_count c (\<lambda>_. True) refs p + 1 \<le> unat (pol_MaxInstances p))
     | Delete \<Rightarrow> ai_ZoneKey inst \<in> set (pol_Zones p) \<and> 0 < pol_MinActiveInstances p
         \<longrightarrow> unat (pol_MinActiveInstances p) \<le> live_count c (is_online c) refs p - 1)"
proof (cases action)
  case Create
  then have "\<not> zone_taken c (ai_ZoneKey inst) refs" "checkDemand c Create app (inst\<lparr>ai_Liveness := LIVENESS_AUTOPROV\<rparr>) refs = None"
    using assms(2) by (auto simp: appInstCheck_def demand_call_def Let_def refs_def split: if_splits)
  with checkDemand_Create[OF this(2) assms(3)] show ?thesis using Create by (auto simp: zone_taken_iff Suc_le_eq simp del: map_of_eq_Some_iff)
next
  case Delete
  then have "checkDemand c Delete app inst refs = None"
    using assms(2) by (auto simp: appInstCheck_def demand_call_def Let_def refs_def split: if_splits)
  from checkDemand_Delete[OF this assms(3)] Delete assms(4) show ?thesis by auto
qed

subsection \<open>An application on three zones\<close>

definition ex_zone :: "string \<Rightarrow> ZoneKey" where "ex_zone z = (z, ''oper'', [])"

definition ex_policy :: "uint32 \<Rightarrow> uint32 \<Rightarrow> AutoProvPolicy" where
  "ex_policy mn mx = \<lparr>pol_Key = (''pol'', ''dev''), pol_DeployClientCount = 1, pol_DeployIntervalCount = 2,
     pol_Zones = map ex_zone [''A'', ''B'', ''C''], pol_MinActiveInstances = mn, pol_MaxInstances = mx\<rparr>"

definition ex_inst :: "string \<Rightarrow> HealthCheck \<Rightarrow> AppInst" where
  "ex_inst z h = \<lparr>ai_Key = (z, ''dev''), ai_AppKey = (''dev'', ''app'', ''1''), ai_CloudletKey = ex_zone z, ai_ZoneKey = ex_zone z,
     ai_State = READY, ai_HealthCheck = h, ai_Liveness = LIVENESS_AUTOPROV\<rparr>"

definition ex_app :: App where
  "ex_app = \<lparr>app_Key = (''dev'', ''app'', ''1''), app_AutoProvPolicy = [], app_AutoProvPolicies = [''pol'']\<rparr>"

text \<open>Each zone has one cloudlet, online and of the same name.\<close>

definition ex_caches :: "AutoProvPolicy \<Rightarrow> AppInst list \<Rightarrow> CacheData" where
  "ex_caches p insts = \<lparr>appCache = [(app_Key ex_app, ex_app)], appInstCache = map (\<lambda>i. (ai_Key i, i)) insts,
     appInstRefsCache = [(app_Key ex_app, map ai_Key insts)], autoProvPolicyCache = [(pol_Key p, p)],
     cloudletCache = map (\<lambda>z. (ex_zone z, \<lparr>cl_Key = ex_zone z, cl_Zone = z, cl_MaintenanceState = NORMAL_OPERATION\<rparr>)) [''A'', ''B'', ''C''],
     cloudletInfoCache = map (\<lambda>z. (ex_zone z, \<lparr>cli_State = CLOUDLET_STATE_READY\<rparr>)) [''A'', ''B'', ''C'']\<rparr>"

theorem demand_call_keeps_bounds_witness:
  "live_count (ex_caches (ex_policy 1 2) [ex_inst ''A'' HEALTH_CHECK_OK]) (\<lambda>_. True) [(''A'', ''dev'')] (ex_policy 1 2) + 1 \<le> unat (2 :: uint32)"
  using demand_call_keeps_bounds[of "ex_caches (ex_policy 1 2) [ex_inst ''A'' HEALTH_CHECK_OK]" "''pol''" Create ex_app
      "ex_inst ''B'' HEALTH_CHECK_OK" "''pol''"]
  by (simp add: ex_caches_def ex_app_def ex_policy_def ex_inst_def ex_zone_def appInstCheck_def demand_call_def checkDemand_def
      GetAutoProvPolicies_def getAppInstCountsForAutoProv_def AppInstBeingDeleted_def demand_verdict_def policy_count_def get_or_def Let_def)

theorem checkPolicy_acts_on_counts_witness:
  "pa_workers (checkPolicy (ex_caches (ex_policy 2 3) [ex_inst ''A'' HEALTH_CHECK_OK]) (\<lambda>_. False) (\<lambda>_. False) (\<lambda>_ xs. xs) None
     (zoneInsts (ex_caches (ex_policy 2 3) [ex_inst ''A'' HEALTH_CHECK_OK]) [(''A'', ''dev'')]) ex_app ''pol'') = 1"
proof -
  let ?c = "ex_caches (ex_policy 2 3) [ex_inst ''A'' HEALTH_CHECK_OK]"
  let ?zi = "zoneInsts ?c [(''A'', ''dev'')]"
  have 1: "policy_insts ?zi (ex_policy 2 3) = [(''A'', ''dev'')]" by code_simp
  have 2: "appInstOnlineOrGoingOnline ?c (''A'', ''dev'')" by code_simp
  have 3: "open_sites ?c (\<lambda>_. False) ?zi (ex_policy 2 3) = [ex_zone ''B'', ex_zone ''C'']" by code_simp
  have 4: "map_of (autoProvPolicyCache ?c) (''pol'', app_org (app_Key ex_app)) = Some (ex_policy 2 3)" by code_simp
  have 5: "permutes_sites (\<lambda>_ xs. xs)" by (simp add: permutes_sites_def)
  show ?thesis using checkPolicy_acts_on_counts[OF 4 5, where failed = "\<lambda>_. False" and free = "\<lambda>_. False" and incr = None and zi = ?zi] 1 2 3 by (simp add: ex_policy_def)
qed

text \<open>
  The minimum can drive the number of instances past the maximum. Three zones, minimum and maximum two, and an instance on zone A that
  is down: the check sees one instance, none active, and starts two workers on the other zones; the
  controller lets both creates through, since for the minimum it looks at active instances only. With the third instance in place the next
  check deletes the last one in the list, which is active, and then, with two instances, no check acts any more: one active instance is left.
\<close>

theorem minimum_overshoots_maximum:
  "let A = ex_inst ''A'' HEALTH_CHECK_SERVER_FAIL; B = ex_inst ''B'' HEALTH_CHECK_OK; C = ex_inst ''C'' HEALTH_CHECK_OK;
       caches = ex_caches (ex_policy 2 2);
       chk = (\<lambda>insts. checkPolicy (caches insts) (\<lambda>_. False) (\<lambda>_. False) (\<lambda>_ xs. xs) None
         (zoneInsts (caches insts) (map ai_Key insts)) ex_app ''pol'')
   in pa_workers (chk [A]) = 2 \<and> pa_sites (chk [A]) = [ex_zone ''B'', ex_zone ''C'']
    \<and> checkMinMax (caches [A]) Create ex_app [ai_Key A] ''pol'' = None
    \<and> checkMinMax (caches [A, B]) Create ex_app [ai_Key A, ai_Key B] ''pol'' = None
    \<and> pa_deletes (chk [A, B, C]) = [ai_Key C]
    \<and> checkMinMax (caches [A, B, C]) Delete ex_app [ai_Key A, ai_Key B, ai_Key C] ''pol'' = None
    \<and> pa_workers (chk [A, B]) = 0 \<and> pa_deletes (chk [A, B]) = []
    \<and> filter (appInstOnlineOrGoingOnline (caches [A, B])) [ai_Key A, ai_Key B] = [ai_Key B]"
  by code_simp

text \<open>
  The name of an auto-provisioned instance does not determine the application: name and version are joined without a separator,
  so that version 11 of \<open>a\<close> and version 1 of \<open>a1\<close> get the same key on every zone.
\<close>

theorem autoprov_key_collision:
  "GetAutoProvAppInstKey zoneHash (org, ''a'', ''11'') z = GetAutoProvAppInstKey zoneHash (org, ''a1'', ''1'') z"
  by (simp add: GetAutoProvAppInstKey_def)


subsection \<open>Workers that share the sites\<close>

definition run_workers :: "ZoneKey list \<Rightarrow> (ZoneKey \<Rightarrow> bool) \<Rightarrow> nat list \<Rightarrow> create_state \<Rightarrow> create_state" where
  "run_workers sites ok schedule s = fold (worker_run_atomic sites ok) schedule s"

definition trying :: "worker_pc list \<Rightarrow> ZoneKey multiset" where
  "trying ws = (\<Sum>w\<leftarrow>ws. case w of Trying z \<Rightarrow> {#z#} | _ \<Rightarrow> {#})"

definition n_done :: "worker_pc list \<Rightarrow> nat" where
  "n_done ws = (\<Sum>w\<leftarrow>ws. if w = WorkerDone then 1 else 0)"

fun worker_rank :: "worker_pc \<Rightarrow> nat" where
  "worker_rank WorkerDone = 0"
| "worker_rank Fetch = 1"
| "worker_rank _ = 2"

definition workers_inv :: "ZoneKey list \<Rightarrow> (ZoneKey \<Rightarrow> bool) \<Rightarrow> create_state \<Rightarrow> bool" where
  "workers_inv sites ok s \<longleftrightarrow>
     cs_next s \<le> length sites \<and> cs_attempts s = take (cs_next s) sites \<and> (\<forall>z. Fetched z \<notin> set (cs_workers s))
     \<and> mset (filter ok (take (cs_next s) sites)) = mset (cs_created s) + filter_mset ok (trying (cs_workers s))
     \<and> length (cs_created s) \<le> n_done (cs_workers s)
     \<and> (length (cs_created s) < n_done (cs_workers s) \<longrightarrow> cs_next s = length sites)"

lemma sum_list_update_add:
  fixes f :: "'a \<Rightarrow> 'b :: cancel_comm_monoid_add"
  assumes "i < length xs"
  shows "(\<Sum>x\<leftarrow>xs[i := y]. f x) + f (xs ! i) = (\<Sum>x\<leftarrow>xs. f x) + f y"
  using assms by (induction xs arbitrary: i) (auto simp: ac_simps split: nat.splits)

lemma worker_run_atomic_cases:
  assumes "i < length (cs_workers s)"
  shows "worker_run_atomic sites ok i s =
    (case cs_workers s ! i of
       Fetch \<Rightarrow>
         if cs_next s < length sites
         then s\<lparr>cs_next := cs_next s + 1, cs_workers := (cs_workers s)[i := Trying (sites ! cs_next s)],
                cs_attempts := cs_attempts s @ [sites ! cs_next s]\<rparr>
         else s\<lparr>cs_workers := (cs_workers s)[i := WorkerDone]\<rparr>
     | Fetched z \<Rightarrow> worker_run sites ok i s
     | Trying z \<Rightarrow> worker_run sites ok i s
     | WorkerDone \<Rightarrow> s)"
  using assms by (auto simp: worker_run_atomic_def worker_run_def Let_def split: worker_pc.splits)

lemma trying_update:
  assumes "i < length ws"
  shows "trying (ws[i := y]) + (case ws ! i of Trying z \<Rightarrow> {#z#} | _ \<Rightarrow> {#}) = trying ws + (case y of Trying z \<Rightarrow> {#z#} | _ \<Rightarrow> {#})"
  unfolding trying_def by (rule sum_list_update_add[OF assms])

lemma n_done_update:
  assumes "i < length ws"
  shows "n_done (ws[i := y]) + (if ws ! i = WorkerDone then 1 else 0) = n_done ws + (if y = WorkerDone then 1 else 0)"
  unfolding n_done_def by (rule sum_list_update_add[OF assms])

lemma workers_inv_step:
  assumes inv: "workers_inv sites ok s" and i: "i < length (cs_workers s)"
  shows "workers_inv sites ok (worker_run_atomic sites ok i s)"
proof (cases "cs_workers s ! i")
  case Fetch
  show ?thesis
  proof (cases "cs_next s < length sites")
    case True
    let ?w = "(cs_workers s)[i := Trying (sites ! cs_next s)]"
    have "trying ?w = trying (cs_workers s) + {#sites ! cs_next s#}" "n_done ?w = n_done (cs_workers s)"
      using trying_update[OF i, of "Trying (sites ! cs_next s)"] n_done_update[OF i, of "Trying (sites ! cs_next s)"] Fetch by simp_all
    moreover have "\<forall>z. Fetched z \<notin> set ?w" using inv by (auto simp: workers_inv_def dest!: set_update_subset_insert[THEN subsetD])
    ultimately show ?thesis using inv True Fetch i
      by (simp add: worker_run_atomic_cases workers_inv_def take_Suc_conv_app_nth)
  next
    case False
    let ?w = "(cs_workers s)[i := WorkerDone]"
    have "trying ?w = trying (cs_workers s)" "n_done ?w = n_done (cs_workers s) + 1"
      using trying_update[OF i, of WorkerDone] n_done_update[OF i, of WorkerDone] Fetch by simp_all
    moreover have "\<forall>z. Fetched z \<notin> set ?w" using inv by (auto simp: workers_inv_def dest!: set_update_subset_insert[THEN subsetD])
    ultimately show ?thesis using inv False Fetch i by (simp add: worker_run_atomic_cases workers_inv_def)
  qed
next
  case (Trying z)
  let ?y = "if ok z then WorkerDone else Fetch"
  let ?w = "(cs_workers s)[i := ?y]"
  have t: "trying (cs_workers s) = trying ?w + {#z#}" "n_done ?w = n_done (cs_workers s) + (if ok z then 1 else 0)"
    using trying_update[OF i, of ?y] n_done_update[OF i, of ?y] Trying by (simp_all split: if_splits)
  have f: "\<forall>z. Fetched z \<notin> set ?w" using inv by (auto simp: workers_inv_def dest!: set_update_subset_insert[THEN subsetD])
  show ?thesis using inv Trying i t f by (cases "ok z") (simp_all add: worker_run_atomic_cases worker_run_def workers_inv_def)
next
  case (Fetched z)
  then show ?thesis using inv i by (metis nth_mem workers_inv_def)
next
  case WorkerDone
  then show ?thesis using inv i by (simp add: worker_run_atomic_cases)
qed

lemma worker_run_atomic_length [simp]: "length (cs_workers (worker_run_atomic sites ok i s)) = length (cs_workers s)"
  by (auto simp: worker_run_atomic_def worker_run_def Let_def split: worker_pc.splits)

lemma run_workers_length [simp]: "length (cs_workers (run_workers sites ok schedule s)) = length (cs_workers s)"
  by (induction schedule arbitrary: s) (simp_all add: run_workers_def)

lemma workers_inv_run:
  assumes "workers_inv sites ok s" "\<forall>i \<in> set schedule. i < length (cs_workers s)"
  shows "workers_inv sites ok (run_workers sites ok schedule s)"
  using assms by (induction schedule arbitrary: s) (simp_all add: run_workers_def workers_inv_step)

lemma workers_inv_start: "workers_inv sites ok (start_workers n)"
  by (induction n) (simp_all add: workers_inv_def start_workers_def trying_def n_done_def)

lemma all_done:
  assumes "\<forall>w \<in> set ws. w = WorkerDone"
  shows "n_done ws = length ws" "trying ws = {#}"
  using assms by (induction ws) (simp_all add: n_done_def trying_def)


definition workers_measure :: "ZoneKey list \<Rightarrow> create_state \<Rightarrow> nat" where
  "workers_measure sites s = 2 * (length sites - cs_next s) + (\<Sum>w\<leftarrow>cs_workers s. worker_rank w)"

lemma workers_progress:
  assumes "workers_inv sites ok s" "i < length (cs_workers s)" "cs_workers s ! i \<noteq> WorkerDone"
  shows "workers_measure sites (worker_run_atomic sites ok i s) < workers_measure sites s"
proof -
  have "cs_workers s ! i \<noteq> Fetched z" for z using assms(1,2) by (metis nth_mem workers_inv_def)
  then show ?thesis
  proof (cases "cs_workers s ! i")
    case Fetch
    then show ?thesis
      using sum_list_update_add[OF assms(2), of worker_rank "Trying (sites ! cs_next s)"] sum_list_update_add[OF assms(2), of worker_rank WorkerDone]
      by (auto simp: worker_run_atomic_cases[OF assms(2)] workers_measure_def)
  next
    case (Trying z)
    then show ?thesis
      using sum_list_update_add[OF assms(2), of worker_rank Fetch] sum_list_update_add[OF assms(2), of worker_rank WorkerDone]
      by (simp add: worker_run_atomic_cases[OF assms(2)] worker_run_def workers_measure_def)
  qed (use assms(3) in auto)
qed

lemma workers_measure_mono:
  assumes "workers_inv sites ok s" "i < length (cs_workers s)"
  shows "workers_measure sites (worker_run_atomic sites ok i s) \<le> workers_measure sites s"
  using workers_progress[OF assms] worker_run_atomic_cases[OF assms(2), of sites ok] by (cases "cs_workers s ! i = WorkerDone") auto

lemma run_workers_Cons: "run_workers sites ok (i # schedule) s = run_workers sites ok schedule (worker_run_atomic sites ok i s)"
  by (simp add: run_workers_def)

lemma run_workers_mono:
  assumes "workers_inv sites ok s" "\<forall>i \<in> set schedule. i < length (cs_workers s)"
  shows "workers_measure sites (run_workers sites ok schedule s) \<le> workers_measure sites s"
  using assms
proof (induction schedule arbitrary: s)
  case (Cons i schedule)
  have "workers_measure sites (run_workers sites ok (i # schedule) s) \<le> workers_measure sites (worker_run_atomic sites ok i s)"
    unfolding run_workers_Cons using Cons.prems by (intro Cons.IH workers_inv_step) simp_all
  also have "\<dots> \<le> workers_measure sites s" using Cons.prems by (intro workers_measure_mono) simp_all
  finally show ?case .
qed (simp add: run_workers_def)

lemma run_workers_progress:
  assumes "workers_inv sites ok s" "\<forall>i \<in> set schedule. i < length (cs_workers s)" "\<exists>i \<in> set schedule. cs_workers s ! i \<noteq> WorkerDone"
  shows "workers_measure sites (run_workers sites ok schedule s) < workers_measure sites s"
  using assms
proof (induction schedule arbitrary: s)
  case (Cons i schedule)
  show ?case
  proof (cases "cs_workers s ! i = WorkerDone")
    case True
    then have "worker_run_atomic sites ok i s = s" using Cons.prems by (simp add: worker_run_atomic_cases)
    then show ?thesis using Cons True by (simp add: run_workers_Cons)
  next
    case False
    have "workers_measure sites (run_workers sites ok (i # schedule) s) \<le> workers_measure sites (worker_run_atomic sites ok i s)"
      unfolding run_workers_Cons using Cons.prems by (intro run_workers_mono workers_inv_step) simp_all
    also have "\<dots> < workers_measure sites s" using Cons.prems False by (intro workers_progress) simp_all
    finally show ?thesis .
  qed
qed simp

text \<open>One round runs every worker once.\<close>

definition rounds :: "nat \<Rightarrow> nat \<Rightarrow> nat list" where
  "rounds k n = concat (replicate k [0..<n])"

lemma rounds_finish:
  assumes "workers_inv sites ok s" "length (cs_workers s) = n" "workers_measure sites s \<le> k"
  shows "\<forall>w \<in> set (cs_workers (run_workers sites ok (rounds k n) s)). w = WorkerDone"
  using assms
proof (induction k arbitrary: s)
  case 0
  then have "\<forall>w \<in> set (cs_workers s). worker_rank w = 0" by (simp add: workers_measure_def sum_list_eq_0_iff)
  moreover have "worker_rank w = 0 \<longleftrightarrow> w = WorkerDone" for w by (cases w) simp_all
  ultimately show ?case by (simp add: rounds_def run_workers_def)
next
  case (Suc k)
  let ?t = "run_workers sites ok [0..<n] s"
  have t: "workers_inv sites ok ?t" "length (cs_workers ?t) = n" using Suc.prems by (auto intro: workers_inv_run)
  have eq: "run_workers sites ok (rounds (Suc k) n) s = run_workers sites ok (rounds k n) ?t"
    by (simp add: run_workers_def rounds_def)
  show ?case
  proof (cases "\<exists>i < n. cs_workers s ! i \<noteq> WorkerDone")
    case True
    then have "workers_measure sites ?t < workers_measure sites s" using Suc.prems by (intro run_workers_progress) auto
    then show ?thesis using Suc.IH[OF t] Suc.prems(3) by (simp add: eq)
  next
    case False
    then have d: "\<forall>w \<in> set (cs_workers s). w = WorkerDone" using Suc.prems(2) by (auto simp: in_set_conv_nth)
    have "run_workers sites ok sch s = s" if "\<forall>i \<in> set sch. i < n" for sch
      using that False Suc.prems(2) by (induction sch) (simp_all add: run_workers_Cons worker_run_atomic_cases run_workers_def)
    from this[of "rounds (Suc k) n"] d show ?thesis by (simp add: rounds_def)
  qed
qed

text \<open>
  Every round-robin run of the workers ends: twice the number of sites plus the number of workers is rounds enough, however many
  creates fail.
\<close>

theorem create_workers_terminate:
  assumes "2 * length sites + n \<le> k"
  shows "\<forall>w \<in> set (cs_workers (run_workers sites ok (rounds k n) (start_workers n))). w = WorkerDone"
  using assms by (intro rounds_finish workers_inv_start)
    (simp_all add: start_workers_def workers_measure_def sum_list_replicate)

text \<open>
  The code does not hold the lock of the list in \<^verbatim>\<open>getNext\<close>. Two workers that both read the cursor before either moves it
  try the same site; the cursor moves twice, and the next site is tried by nobody: one instance is
  created where two were wanted and both sites would have accepted one.
\<close>

theorem getNext_race_skips_site:
  "let s = fold (worker_run [(''B'', ''o'', []), (''C'', ''o'', [])] (\<lambda>_. True)) [0, 1, 0, 1, 0, 1] (start_workers 2)
   in cs_workers s = [WorkerDone, WorkerDone] \<and> cs_attempts s = [(''B'', ''o'', []), (''B'', ''o'', [])]"
  by code_simp


theorem create_workers_terminate_witness:
  "list_all (\<lambda>w. w = WorkerDone)
     (cs_workers (run_workers [(''B'', ''o'', []), (''C'', ''o'', [])] (\<lambda>z. fst z = ''C'') (rounds 6 2) (start_workers 2)))"
  using create_workers_terminate[of "[(''B'', ''o'', []), (''C'', ''o'', [])]" 2 6] by (simp add: list_all_iff)


subsection \<open>Failover\<close>

lemma finish_reqs:
  assumes "distinct cks"
  shows "map_of (mm_failoverRequests (fst (fold (finish_req key) cks (s, fin)))) ck =
      (case map_of (mm_failoverRequests s) ck of None \<Rightarrow> None
       | Some r \<Rightarrow> if ck \<notin> set cks then Some r else if snd (appDone key r) then None else Some (fst (appDone key r)))
    \<and> ((ck, r') \<in> set (snd (fold (finish_req key) cks (s, fin))) \<longleftrightarrow> (ck, r') \<in> set fin \<or>
      (ck \<in> set cks \<and> (\<exists>r. map_of (mm_failoverRequests s) ck = Some r \<and> appDone key r = (r', True))))"
  using assms
proof (induction cks arbitrary: s fin)
  case Nil
  show ?case by (cases "map_of (mm_failoverRequests s) ck") simp_all
next
  case (Cons c cks)
  obtain s1 fin1 where one: "finish_req key c (s, fin) = (s1, fin1)" by (cases "finish_req key c (s, fin)")
  have same: "map_of (mm_failoverRequests s1) ck' = map_of (mm_failoverRequests s) ck'" if "ck' \<noteq> c" for ck'
    using one that by (auto simp: finish_req_def split: option.splits prod.splits bool.splits)
  have this_one: "map_of (mm_failoverRequests s1) c = (case map_of (mm_failoverRequests s) c of None \<Rightarrow> None
      | Some r \<Rightarrow> if snd (appDone key r) then None else Some (fst (appDone key r)))"
    using one by (auto simp: finish_req_def split: option.splits prod.splits bool.splits simp del: map_of_eq_None_keys map_of_eq_Some_iff)
  have fin1: "(ck, r') \<in> set fin1 \<longleftrightarrow> (ck, r') \<in> set fin
      \<or> (ck = c \<and> (\<exists>r. map_of (mm_failoverRequests s) ck = Some r \<and> appDone key r = (r', True)))"
    using one by (auto simp: finish_req_def split: option.splits prod.splits bool.splits simp del: map_of_eq_Some_iff map_of_eq_None_keys)
  show ?case using Cons.IH[of s1 fin1] Cons.prems same this_one fin1 one
    by (cases "ck = c") (auto simp del: map_of_eq_Some_iff map_of_eq_None_keys split: option.splits)
qed

lemma appDone_cases:
  "appDone key r = (if key \<notin> set (fr_appsToCheck r) then (r, False)
     else (r\<lparr>fr_appsToCheck := removeAll key (fr_appsToCheck r)\<rparr>, set (fr_appsToCheck r) = {key}))"
proof -
  have "removeAll key xs = [] \<longleftrightarrow> set xs = {key}" if "key \<in> set xs" for xs
    using that by (metis Diff_insert_absorb insert_Diff set_empty set_removeAll Diff_eq_empty_iff subset_singletonD empty_iff)
  then show ?thesis by (simp add: appDone_def Let_def)
qed

lemma add_errors_all:
  assumes "distinct cks"
  shows "map_of (mm_failoverRequests (fold (add_errors msgs) cks s)) ck =
    (if ck \<in> set cks then map_option (fold addError msgs) (map_of (mm_failoverRequests s) ck) else map_of (mm_failoverRequests s) ck)"
  using assms
proof (induction cks arbitrary: s)
  case (Cons k cks)
  have "map_of (mm_failoverRequests (add_errors msgs k s)) ck =
      (if ck = k then map_option (fold addError msgs) (map_of (mm_failoverRequests s) ck) else map_of (mm_failoverRequests s) ck)"
    by (cases "map_of (mm_failoverRequests s) k") (simp_all add: add_errors_def del: map_of_eq_None_keys)
  then show ?case using Cons by (auto simp del: map_of_eq_None_keys)
qed simp

lemma fold_addError: "fold addError msgs r = r\<lparr>fr_Errors := fr_Errors r @ msgs\<rparr>"
  by (induction msgs arbitrary: r) (simp_all add: addError_def)

text \<open>
  A failover request is answered when, and only when, the last of its applications has been checked. After a check of one application,
  a request that waited for it alone is finished and gone from the table, with the messages it collected and one error for
  each policy of the application without enough sites; every other request is still there, waiting for its other applications.
\<close>

theorem failover_finishes_with_last_app:
  fixes c retries freeClusts srt aggr key s
  defines "reqs \<equiv> mm_failoverRequests s"
  assumes "go_map reqs" and "map_of reqs ck = Some r"
    and run: "CheckApp c retries freeClusts srt aggr key s = (s', Some (ps, orphans), finished)"
  shows "if set (fr_appsToCheck r) = {key}
    then map_of (mm_failoverRequests s') ck = None \<and>
      (ck, r\<lparr>fr_appsToCheck := [], fr_Errors := fr_Errors r @ map fst (filter (pa_notEnough \<circ> snd) ps)\<rparr>) \<in> set finished
    else (\<exists>r'. map_of (mm_failoverRequests s') ck = Some r' \<and> set (fr_appsToCheck r') = set (fr_appsToCheck r) - {key}
        \<and> fr_Completed r' = fr_Completed r)
      \<and> (\<forall>r'. (ck, r') \<notin> set finished)"
proof -
  let ?short = "map fst (filter (pa_notEnough \<circ> snd) ps)"
  define t where "t = fold (add_errors ?short) (waiting_reqs key s) s"
  have eq: "(s', finished) = CheckAppDone key (waiting_reqs key s) t"
    using run by (auto simp: CheckApp_def Let_def t_def split: prod.splits)
  have d: "distinct (waiting_reqs key s)" using assms(2) by (simp add: waiting_reqs_def reqs_def distinct_map_filter)
  note f = finish_reqs[OF d, of key t "[]" ck, folded CheckAppDone_def eq]
  have w: "ck \<in> set (waiting_reqs key s) \<longleftrightarrow> key \<in> set (fr_appsToCheck r)"
    using go_map_entry[OF assms(2), of ck] assms(3) by (force simp: waiting_reqs_def reqs_def)
  have t: "map_of (mm_failoverRequests t) ck = Some (if key \<in> set (fr_appsToCheck r) then r\<lparr>fr_Errors := fr_Errors r @ ?short\<rparr> else r)"
    using assms(3) w by (simp add: t_def add_errors_all[OF d] fold_addError reqs_def)
  have e: "removeAll key xs = []" if "set xs = {key}" for xs using that by (metis Diff_cancel set_empty set_removeAll)
  show ?thesis
  proof (cases "key \<in> set (fr_appsToCheck r)")
    case True
    then show ?thesis using f t w e[of "fr_appsToCheck r"] by (simp add: appDone_cases)
  next
    case False
    then show ?thesis using f t w by (auto simp: appDone_cases)
  qed
qed

text \<open>
  A cloudlet that is updated while its failover request is pending, without coming back online, is reported as
  done at once, although the request still waits for applications.
\<close>

theorem failover_done_prematurely:
  assumes "cl_MaintenanceState old = FAILOVER_REQUESTED" "cl_MaintenanceState new = FAILOVER_REQUESTED"
    and "map_of (mm_failoverRequests s) (cl_Key new) = Some req" "fr_appsToCheck req \<noteq> []"
  shows "\<exists>info. mm_autoProvInfo (UpdatedCloudlet c (Some old) new s) = mm_autoProvInfo s @ [info]
      \<and> api_Key info = cl_Key new \<and> api_MaintenanceState info = FAILOVER_DONE
    \<and> map_of (mm_failoverRequests (UpdatedCloudlet c (Some old) new s)) (cl_Key new) = Some req"
  using assms by (simp add: UpdatedCloudlet_def handleFailoverReq_def AutoProvCloudletOnline_def)

subsection \<open>Changes reach the applications\<close>

lemma open_request_mono: "open_request k (kw_trace w) \<Longrightarrow> open_request k (kw_trace (NeedsWork j w))"
  by (auto simp: NeedsWork_def Let_def split: option.splits)

lemma open_request_NeedsWork: "open_request k (kw_trace (NeedsWork k w))"
  by (auto simp: NeedsWork_def Let_def split: option.splits)

lemma NeedsWork_all: "k \<in> set ks \<or> open_request k (kw_trace w) \<Longrightarrow> open_request k (kw_trace (fold NeedsWork ks w))"
  by (induction ks arbitrary: w) (auto simp: open_request_mono open_request_NeedsWork)

lemma set_fold_insert: "set (fold List.insert xs ys) = set xs \<union> set ys"
  by (induction xs arbitrary: ys) auto

text \<open>
  A cloudlet that goes offline or comes back reaches every application with a policy on its zone, as long as the two indexes
  agree with the caches: a check of the application is requested, and when the cloudlet asks for a failover,
  its request waits for the application.
\<close>

theorem cloudlet_change_reaches_apps:
  fixes c old new s
  defines "s' \<equiv> UpdatedCloudlet c (Some old) new s"
  assumes policies: "\<And>z pk. pk \<in> set (FindIndex (mm_policiesByZone s) z) \<longleftrightarrow>
      (\<exists>p. map_of (autoProvPolicyCache c) pk = Some p \<and> z \<in> set (GetZoneKeys p))"
    and apps: "\<And>pk ak. ak \<in> set (FindIndex (mm_appsByPolicy s) pk) \<longleftrightarrow>
      (\<exists>app. map_of (appCache c) ak = Some app \<and> pk \<in> set (GetAutoProvPolicys app))"
    and cloudlet: "map_of (cloudletCache c) (cl_Key new) = Some new" "AutoProvCloudletOnline old \<noteq> AutoProvCloudletOnline new"
    and app: "map_of (appCache c) ak = Some app" "pk \<in> set (GetAutoProvPolicys app)"
      "map_of (autoProvPolicyCache c) pk = Some p" "GetZone new \<in> set (pol_Zones p)"
  shows "open_request ak (kw_trace (mm_workers s'))
    \<and> (cl_MaintenanceState new = FAILOVER_REQUESTED \<longrightarrow>
       (\<exists>r. map_of (mm_failoverRequests s') (cl_Key new) = Some r \<and> ak \<in> set (fr_appsToCheck r)))"
proof -
  let ?ks = "cloudletNeedsCheck c (cl_Key new) s"
  have "pk \<in> set (FindIndex (mm_policiesByZone s) (GetZone new))" using policies app(3,4) by (auto simp: GetZoneKeys_def)
  moreover have "ak \<in> set (FindIndex (mm_appsByPolicy s) pk)" using apps app(1,2) by blast
  ultimately have ak: "ak \<in> set ?ks" using cloudlet(1) by (auto simp: cloudletNeedsCheck_def)
  have s': "s' = needs_work ?ks (handleFailoverReq new ?ks s)" using cloudlet(2) by (simp add: s'_def UpdatedCloudlet_def Let_def)
  have "open_request ak (kw_trace (mm_workers s'))" unfolding s' using ak by (simp add: needs_work_def NeedsWork_all)
  moreover have "ak \<in> set (fr_appsToCheck r)"
    if "cl_MaintenanceState new = FAILOVER_REQUESTED" "map_of (mm_failoverRequests s') (cl_Key new) = Some r" for r
    using that ak unfolding s' by (auto simp: needs_work_def handleFailoverReq_def Let_def set_fold_insert split: if_splits)
  moreover have "map_of (mm_failoverRequests s') (cl_Key new) \<noteq> None" if "cl_MaintenanceState new = FAILOVER_REQUESTED"
    using that ak unfolding s' by (auto simp: needs_work_def handleFailoverReq_def Let_def)
  ultimately show ?thesis by (auto simp del: map_of_eq_None_keys)
qed

text \<open>
  A zone on which a deployment failed is no site of a policy check until the retry; the retry makes every such zone a site
  again and requests a check of its application. Errors that only say that there is nothing to do are no failures.
\<close>

theorem failed_zone_waits_for_retry:
  "z \<notin> set (open_sites c (hasFailure (registerDeployResult ak z DeployFailed t) ak) zi p) \<and>
   (hasFailure t ak z \<longrightarrow> open_request ak (kw_trace (snd (doRetry t w))) \<and>
     set (open_sites c (hasFailure (fst (doRetry t w)) ak) zi p) = {z \<in> set (pol_Zones p). map_of zi z = None \<and> zoneOnline c z})"
proof -
  have "fold (\<lambda>k. NeedsWork (fst k)) t w = fold NeedsWork (map fst t) w" by (simp add: fold_map comp_def)
  then have "hasFailure t ak z \<longrightarrow> open_request ak (kw_trace (snd (doRetry t w))) \<and>
     set (open_sites c (hasFailure (fst (doRetry t w)) ak) zi p) = {z \<in> set (pol_Zones p). map_of zi z = None \<and> zoneOnline c z}"
    using NeedsWork_all[of ak "map fst t" w] by (force simp: hasFailure_def doRetry_def open_sites_def)
  then show ?thesis by (simp add: open_sites_def hasFailure_def registerDeployResult_def ignoreDeployError_def)
qed

theorem failed_zone_waits_for_retry_witness:
  "open_request (''dev'', ''app'', ''1'') (kw_trace (snd (doRetry [((''dev'', ''app'', ''1''), (''A'', ''oper'', []))] InitKW)))"
  using failed_zone_waits_for_retry[where t = "[((''dev'', ''app'', ''1''), (''A'', ''oper'', []))]" and ak = "(''dev'', ''app'', ''1'')"
      and z = "(''A'', ''oper'', [])" and w = InitKW] by (simp add: hasFailure_def)

definition ex_checker :: MinMaxChecker where
  "ex_checker = \<lparr>mm_failoverRequests = [(ex_zone ''A'', \<lparr>fr_appsToCheck = [app_Key ex_app], fr_Completed = [], fr_Errors = [''e'']\<rparr>)],
     mm_policiesByZone = map (\<lambda>z. (ex_zone z, [(''pol'', ''dev'')])) [''A'', ''B'', ''C''],
     mm_appsByPolicy = [((''pol'', ''dev''), [app_Key ex_app])], mm_autoprovInstsByCloudlet = [], mm_workers = InitKW, mm_autoProvInfo = []\<rparr>"

definition ex_cloudlet :: "MaintenanceState \<Rightarrow> Cloudlet" where
  "ex_cloudlet m = \<lparr>cl_Key = ex_zone ''A'', cl_Zone = ''A'', cl_MaintenanceState = m\<rparr>"

theorem failover_finishes_with_last_app_witness:
  "map_of (mm_failoverRequests (fst (CheckApp (ex_caches (ex_policy 1 2) []) [] (\<lambda>_. False) (\<lambda>_ xs. xs) \<lparr>ag_allStats = [], ag_intervalNum = 0\<rparr>
     (app_Key ex_app) ex_checker))) (ex_zone ''A'') = None"
proof -
  let ?run = "CheckApp (ex_caches (ex_policy 1 2) []) [] (\<lambda>_. False) (\<lambda>_ xs. xs) \<lparr>ag_allStats = [], ag_intervalNum = 0\<rparr> (app_Key ex_app) ex_checker"
  have "fst (snd ?run) \<noteq> None" by code_simp
  then obtain s' ps os fin where "?run = (s', Some (ps, os), fin)" by (cases ?run) auto
  from failover_finishes_with_last_app[OF _ _ this, of "ex_zone ''A''" "\<lparr>fr_appsToCheck = [app_Key ex_app], fr_Completed = [], fr_Errors = [''e'']\<rparr>"]
  show ?thesis using \<open>?run = (s', Some (ps, os), fin)\<close> by (simp add: ex_checker_def)
qed

theorem failover_done_prematurely_witness:
  "map api_MaintenanceState (mm_autoProvInfo (UpdatedCloudlet (ex_caches (ex_policy 1 2) []) (Some (ex_cloudlet FAILOVER_REQUESTED))
     (ex_cloudlet FAILOVER_REQUESTED) ex_checker)) = [FAILOVER_DONE]"
proof -
  have m: "map_of (mm_failoverRequests ex_checker) (cl_Key (ex_cloudlet FAILOVER_REQUESTED)) =
      Some \<lparr>fr_appsToCheck = [app_Key ex_app], fr_Completed = [], fr_Errors = [''e'']\<rparr>"
    by (simp add: ex_checker_def ex_cloudlet_def)
  show ?thesis using failover_done_prematurely[OF _ _ m, of "ex_cloudlet FAILOVER_REQUESTED" "ex_caches (ex_policy 1 2) []"]
    by (auto simp: ex_checker_def ex_cloudlet_def)
qed

theorem cloudlet_change_reaches_apps_witness:
  "open_request (app_Key ex_app) (kw_trace (mm_workers (UpdatedCloudlet
     ((ex_caches (ex_policy 1 2) [])\<lparr>cloudletCache := [(ex_zone ''A'', ex_cloudlet FAILOVER_REQUESTED)]\<rparr>)
     (Some (ex_cloudlet NORMAL_OPERATION)) (ex_cloudlet FAILOVER_REQUESTED) ex_checker)))"
proof -
  let ?c = "(ex_caches (ex_policy 1 2) [])\<lparr>cloudletCache := [(ex_zone ''A'', ex_cloudlet FAILOVER_REQUESTED)]\<rparr>"
  have 1: "pk \<in> set (FindIndex (mm_policiesByZone ex_checker) z) \<longleftrightarrow>
      (\<exists>p. map_of (autoProvPolicyCache ?c) pk = Some p \<and> z \<in> set (GetZoneKeys p))" for z pk
    by (auto simp: ex_checker_def ex_caches_def ex_policy_def ex_zone_def FindIndex_def get_or_def GetZoneKeys_def)
  have 2: "ak \<in> set (FindIndex (mm_appsByPolicy ex_checker) pk) \<longleftrightarrow>
      (\<exists>app. map_of (appCache ?c) ak = Some app \<and> pk \<in> set (GetAutoProvPolicys app))" for pk ak
    by (auto simp: ex_checker_def ex_caches_def ex_app_def FindIndex_def get_or_def GetAutoProvPolicys_def)
  show ?thesis
    using cloudlet_change_reaches_apps[OF 1 2, of "ex_cloudlet FAILOVER_REQUESTED" "ex_cloudlet NORMAL_OPERATION" "app_Key ex_app" ex_app
        "(''pol'', ''dev'')" "ex_policy 1 2"]
    by (simp add: ex_caches_def ex_policy_def ex_zone_def ex_cloudlet_def ex_app_def GetAutoProvPolicys_def GetZone_def AutoProvCloudletOnline_def)
qed


subsection \<open>Demand\<close>

text \<open>Consecutive intervals in which the database has a count for the zone.\<close>

definition run_intervals :: "ZoneKey \<Rightarrow> uint64 \<Rightarrow> uint64 list \<Rightarrow> apAppStats \<Rightarrow> uint64 \<times> apAppStats \<times> bool" where
  "run_intervals z n counts st = fold (\<lambda>cnt (n, st, _). (n + 1, iter_zone False (n + 1) z cnt st)) counts (n, st, False)"

definition increments :: "uint64 \<Rightarrow> uint64 list \<Rightarrow> uint64 list" where
  "increments prev counts = map2 (\<lambda>a b. b - a) (prev # counts) counts"

definition streak :: "apPolicyTracker \<Rightarrow> uint64 list \<Rightarrow> nat" where
  "streak ap incs = length (takeWhile (\<lambda>i. ucast (pt_deployClientCount ap) \<le> i) (rev incs))"

definition tracked :: "ZoneKey \<Rightarrow> uint64 list \<Rightarrow> string \<times> apPolicyTracker \<Rightarrow> string \<times> apPolicyTracker \<Rightarrow> bool" where
  "tracked z incs np np' \<longleftrightarrow> fst np' = fst np \<and> pt_deployClientCount (snd np') = pt_deployClientCount (snd np)
     \<and> pt_deployIntervalCount (snd np') = pt_deployIntervalCount (snd np)
     \<and> map_of (pt_zoneTrackers (snd np')) z =
         (if map_of (pt_zoneTrackers (snd np)) z = None then None else Some (of_nat (streak (snd np) incs)))"

lemma increments_snoc: "increments prev (counts @ [cnt]) = increments prev counts @ [cnt - last (prev # counts)]"
proof -
  have "map2 (\<lambda>a b. b - a) ((prev # counts) @ [cnt]) (counts @ [cnt]) = map2 (\<lambda>a b. b - a) (prev # counts) counts @ [cnt - last (prev # counts)]"
    for prev by (induction counts arbitrary: prev) simp_all
  then show ?thesis by (simp add: increments_def)
qed

lemma streak_snoc: "streak ap (incs @ [i]) = (if ucast (pt_deployClientCount ap) \<le> i then streak ap incs + 1 else 0)"
  by (simp add: streak_def)

lemma track_tracked:
  assumes "tracked z incs np np'"
  shows "tracked z (incs @ [i]) np (fst np', fst (track False i z (snd np')))"
    and "snd (track False i z (snd np')) \<longleftrightarrow> map_of (pt_zoneTrackers (snd np)) z \<noteq> None
      \<and> pt_deployIntervalCount (snd np) \<le> of_nat (streak (snd np) (incs @ [i]))"
  using assms by (cases "map_of (pt_zoneTrackers (snd np)) z"; simp add: tracked_def track_def Let_def streak_snoc add.commute del: map_of_eq_None_keys)+

lemma iter_zone_tracked:
  fixes cnt
  assumes "map_of (ap_zones st) z = Some cs" "as_intervalNum cs = n" "list_all2 (tracked z incs) ps (ap_policies st)"
  defines "i \<equiv> cnt - as_count cs"
  shows "\<exists>cs'. map_of (ap_zones (fst (iter_zone False (n + 1) z cnt st))) z = Some cs' \<and> as_intervalNum cs' = n + 1 \<and> as_count cs' = cnt"
    and "list_all2 (tracked z (incs @ [i])) ps (ap_policies (fst (iter_zone False (n + 1) z cnt st)))"
    and "snd (iter_zone False (n + 1) z cnt st) \<longleftrightarrow> (\<exists>(name, ap) \<in> set ps. map_of (pt_zoneTrackers ap) z \<noteq> None
      \<and> pt_deployIntervalCount ap \<le> of_nat (streak ap (incs @ [i])))"
proof -
  let ?r = "map (\<lambda>(name, ap). (name, track False i z ap)) (ap_policies st)"
  have it: "iter_zone False (n + 1) z cnt st = (st\<lparr>ap_policies := map (\<lambda>(name, ap, _). (name, ap)) ?r,
      ap_zones := AList.update z \<lparr>as_count = cnt, as_lastCount = as_count cs, as_intervalNum = n + 1\<rparr> (ap_zones st)\<rparr>,
      list_ex (\<lambda>(_, _, doDeploy). doDeploy) ?r)"
    using assms(1,2) by (simp add: iter_zone_def get_or_def Let_def i_def)
  show "\<exists>cs'. map_of (ap_zones (fst (iter_zone False (n + 1) z cnt st))) z = Some cs' \<and> as_intervalNum cs' = n + 1 \<and> as_count cs' = cnt"
    by (simp add: it)
  have "ap_policies (fst (iter_zone False (n + 1) z cnt st)) = map (\<lambda>np'. (fst np', fst (track False i z (snd np')))) (ap_policies st)"
    by (simp add: it comp_def case_prod_beta)
  then show "list_all2 (tracked z (incs @ [i])) ps (ap_policies (fst (iter_zone False (n + 1) z cnt st)))"
    using list_all2_mono[OF assms(3) track_tracked(1)] by (simp add: list_all2_map2)
  have "snd (iter_zone False (n + 1) z cnt st) \<longleftrightarrow> (\<exists>np' \<in> set (ap_policies st). snd (track False i z (snd np')))"
    by (simp add: it list_ex_iff case_prod_beta)
  also have "\<dots> \<longleftrightarrow> (\<exists>np \<in> set ps. map_of (pt_zoneTrackers (snd np)) z \<noteq> None
      \<and> pt_deployIntervalCount (snd np) \<le> of_nat (streak (snd np) (incs @ [i])))"
    using assms(3) by (induction rule: list_all2_induct) (simp_all add: track_tracked(2) del: map_of_eq_None_keys)
  finally show "snd (iter_zone False (n + 1) z cnt st) \<longleftrightarrow> (\<exists>(name, ap) \<in> set ps. map_of (pt_zoneTrackers ap) z \<noteq> None
      \<and> pt_deployIntervalCount ap \<le> of_nat (streak ap (incs @ [i])))" by force
qed

lemma run_intervals_tracked:
  assumes "map_of (ap_zones st) z = Some cs" "as_intervalNum cs = n"
    and "\<forall>(name, ap) \<in> set (ap_policies st). map_of (pt_zoneTrackers ap) z \<in> {None, Some 0}"
  shows "case run_intervals z n counts st of (n', st', dep) \<Rightarrow>
    n' = n + of_nat (length counts)
    \<and> (\<exists>cs'. map_of (ap_zones st') z = Some cs' \<and> as_intervalNum cs' = n' \<and> as_count cs' = last (as_count cs # counts))
    \<and> list_all2 (tracked z (increments (as_count cs) counts)) (ap_policies st) (ap_policies st')
    \<and> (counts \<noteq> [] \<longrightarrow> (dep \<longleftrightarrow> (\<exists>(name, ap) \<in> set (ap_policies st). map_of (pt_zoneTrackers ap) z \<noteq> None
         \<and> pt_deployIntervalCount ap \<le> of_nat (streak ap (increments (as_count cs) counts)))))"
proof (induction counts rule: rev_induct)
  case Nil
  have "list_all2 (tracked z []) (ap_policies st) (ap_policies st)"
    using assms(3) by (auto simp: list_all2_same tracked_def streak_def simp del: map_of_eq_None_keys)
  then show ?case using assms(1,2) by (simp add: run_intervals_def increments_def)
next
  case (snoc cnt counts)
  obtain n' st' dep where r: "run_intervals z n counts st = (n', st', dep)" by (cases "run_intervals z n counts st")
  then obtain cs' where cs': "map_of (ap_zones st') z = Some cs'" "as_intervalNum cs' = n'" "as_count cs' = last (as_count cs # counts)"
    and t: "list_all2 (tracked z (increments (as_count cs) counts)) (ap_policies st) (ap_policies st')"
    and n': "n' = n + of_nat (length counts)" using snoc.IH by auto
  have "run_intervals z n (counts @ [cnt]) st = (n' + 1, iter_zone False (n' + 1) z cnt st')"
    using r by (simp add: run_intervals_def)
  with iter_zone_tracked[OF cs'(1,2) t, of cnt] n' show ?case
    unfolding increments_snoc by (cases "iter_zone False (n' + 1) z cnt st'") (simp add: cs'(3) add.assoc add.commute)
qed


text \<open>
  A count that drops is taken for demand: below \<open>2 ^ 63\<close>, the difference wraps and satisfies every policy. Counts are added up over the
  reporting servers whose count changed in the interval, so a sum drops whenever a server reports nothing new.
\<close>

theorem count_drop_is_demand:
  assumes "cnt < as_count cs" "as_count cs < 2 ^ 63"
    and "map_of (ap_zones st) z = Some cs" "as_intervalNum cs = n" "(name, ap) \<in> set (ap_policies st)"
    and "map_of (pt_zoneTrackers ap) z = Some 0" "pt_deployIntervalCount ap = 1"
  shows "snd (iter_zone False (n + 1) z cnt st)"
proof -
  have w: "(2 :: uint64) ^ 32 \<le> cnt - as_count cs"
  proof -
    have "uint cnt < uint (as_count cs)" "uint (as_count cs) < 2 ^ 63" using assms(1,2) by (simp_all add: word_less_def)
    then have "uint (cnt - as_count cs) = uint cnt - uint (as_count cs) + 18446744073709551616" "uint (as_count cs) < 9223372036854775808"
      by (simp_all add: uint_sub_if')
    moreover have "0 \<le> uint cnt" by simp
    ultimately have "4294967296 \<le> uint (cnt - as_count cs)" by linarith
    then show ?thesis by (simp add: word_le_def)
  qed
  have "unat (pt_deployClientCount ap) < 2 ^ 32" using unsigned_less[of "pt_deployClientCount ap"] by simp
  moreover have "2 ^ 32 \<le> unat (cnt - as_count cs)" using w by (simp add: word_le_nat_alt)
  ultimately have "(ucast (pt_deployClientCount ap) :: uint64) \<le> cnt - as_count cs" unfolding word_le_nat_alt unat_ucast_32_64 by linarith
  then have "snd (track False (cnt - as_count cs) z ap)" using assms(6,7) by (simp add: track_def Let_def)
  then show ?thesis using assms(3,4,5) by (auto simp: iter_zone_def get_or_def Let_def list_ex_iff intro!: bexI[of _ "(name, ap)"])
qed

definition ex_stats :: "uint64 \<Rightarrow> uint32 \<Rightarrow> apAppStats" where
  "ex_stats start intervals =
     \<lparr>ap_policies = [(''pol'', \<lparr>pt_deployClientCount = 5, pt_deployIntervalCount = intervals, pt_zoneTrackers = [((''A'', ''o'', []), 0)]\<rparr>)],
      ap_zones = [((''A'', ''o'', []), \<lparr>as_count = start, as_lastCount = 0, as_intervalNum = 3\<rparr>)]\<rparr>"


theorem count_drop_is_demand_witness: "snd (iter_zone False 4 (''A'', ''o'', []) 9 (ex_stats 10 1))"
  using count_drop_is_demand[of 9 "\<lparr>as_count = 10, as_lastCount = 0, as_intervalNum = 3\<rparr>" "ex_stats 10 1" "(''A'', ''o'', [])" 3 "''pol''"
     "\<lparr>pt_deployClientCount = 5, pt_deployIntervalCount = 1, pt_zoneTrackers = [((''A'', ''o'', []), 0)]\<rparr>"]
  by (simp add: ex_stats_def)


end
