(* ===== verification/NotifyOrder.thy ===== *)
theory NotifyOrder
  imports Prelude
begin

text \<open>
  The order in which kinds of objects are sent to other services, \<^verbatim>\<open>api/edgeproto/notify_order.go\<close>: a kind comes after the
  kinds it refers to. References are added one at a time; raising the order of a kind raises the kinds that depend on it, by
  recursion over the graph, which ends only when the graph has no cycle: the recursion is a partial function. The references are the
  generated table \<^verbatim>\<open>GetReferencesMap\<close>.
\<close>

subsection \<open>The model\<close>

text \<open>Pointers to nodes are names of types: the table has one node for each.\<close>

record NotifyOrderNode =
  nn_order :: nat
  dependsOn :: "string list"
  dependedOnBy :: "string list"

type_synonym NotifyOrder = "(string, NotifyOrderNode) gomap"

definition node_of :: "NotifyOrder \<Rightarrow> string \<Rightarrow> NotifyOrderNode" where
  "node_of s = get_or \<lparr>nn_order = 0, dependsOn = [], dependedOnBy = []\<rparr> s"

abbreviation ord_of :: "NotifyOrder \<Rightarrow> string \<Rightarrow> nat" where "ord_of s n \<equiv> nn_order (node_of s n)"
abbreviation users_of :: "NotifyOrder \<Rightarrow> string \<Rightarrow> string list" where "users_of s n \<equiv> dependedOnBy (node_of s n)"

definition getNode :: "string \<Rightarrow> NotifyOrder \<Rightarrow> NotifyOrder" where
  "getNode obj s = (if map_of s obj = None then AList.update obj (node_of s obj) s else s)"

definition set_order :: "string \<Rightarrow> nat \<Rightarrow> NotifyOrder \<Rightarrow> NotifyOrder" where
  "set_order n k s = AList.update n ((node_of s n)\<lparr>nn_order := k\<rparr>) s"

partial_function (option) order_loop :: "string \<Rightarrow> string list \<Rightarrow> NotifyOrder \<Rightarrow> NotifyOrder option" where
  "order_loop n ds s =
     (case ds of [] \<Rightarrow> Some s
      | d # rest \<Rightarrow>
          if ord_of s n < ord_of s d then order_loop n rest s
          else Option.bind (order_loop d (users_of s d) (set_order d (ord_of s n + 1) s)) (order_loop n rest))"

definition orderUpdated :: "string \<Rightarrow> NotifyOrder \<Rightarrow> NotifyOrder option" where
  "orderUpdated n s = order_loop n (users_of s n) s"

definition addObjectDep :: "string \<Rightarrow> string \<Rightarrow> NotifyOrder \<Rightarrow> NotifyOrder option" where
  "addObjectDep obj dep s =
     (let s = getNode dep (getNode obj s);
          s = AList.update obj ((node_of s obj)\<lparr>dependsOn := dependsOn (node_of s obj) @ [dep]\<rparr>) s;
          s = AList.update dep ((node_of s dep)\<lparr>dependedOnBy := dependedOnBy (node_of s dep) @ [obj]\<rparr>) s
      in if ord_of s dep < ord_of s obj then Some s
         else orderUpdated obj (set_order obj (ord_of s dep + 1) s))"

fun add_deps :: "(string \<times> string) list \<Rightarrow> NotifyOrder \<Rightarrow> NotifyOrder option" where
  "add_deps [] s = Some s"
| "add_deps ((obj, ref) # rest) s = Option.bind (addObjectDep obj ref s) (add_deps rest)"

definition references :: "(string, string list) gomap \<Rightarrow> (string \<times> string) list" where
  "references m = concat (map (\<lambda>(obj, refs). map (Pair obj) refs) m)"

definition NewNotifyOrder :: "(string, string list) gomap \<Rightarrow> NotifyOrder option" where
  "NewNotifyOrder m = add_deps (references m) []"

definition Less :: "NotifyOrder \<Rightarrow> string \<Rightarrow> string \<Rightarrow> bool" where
  "Less s t1 t2 \<longleftrightarrow> ord_of s t1 < ord_of s t2"

definition GetReferencesMap :: "(string, string list) gomap" where
  "GetReferencesMap = [
     (''AllData'', [''AlertPolicy'', ''App'', ''AutoProvPolicy'', ''AutoScalePolicy'', ''Cloudlet'', ''ClusterInst'', ''Flavor'', ''GPUDriver'',
        ''Network'', ''PlatformFeatures'', ''ResTagTable'', ''TrustPolicy'', ''VMPool'', ''Zone'', ''ZonePool'']),
     (''App'', [''AlertPolicy'', ''AutoProvPolicy'', ''Flavor'']),
     (''AppAlertPolicy'', [''AlertPolicy'', ''App'']),
     (''AppAutoProvPolicy'', [''App'', ''AutoProvPolicy'']),
     (''AppInst'', [''App'', ''Cloudlet'', ''ClusterInst'', ''Flavor'']),
     (''AppInstKeyV1'', [''ClusterInst'']),
     (''AppInstKeyV2'', [''Cloudlet'']),
     (''AppInstRefs'', [''AppInst'']),
     (''AutoProvPolicy'', [''Zone'']),
     (''AutoProvPolicyZone'', [''AutoProvPolicy'', ''Zone'']),
     (''Cloudlet'', [''Flavor'', ''GPUDriver'', ''PlatformFeatures'', ''ResTagTable'', ''TrustPolicy'', ''VMPool'']),
     (''CloudletRefs'', [''AppInst'', ''ClusterInst'']),
     (''CloudletResMap'', [''Cloudlet'', ''ResTagTable'']),
     (''ClusterInst'', [''AutoScalePolicy'', ''Cloudlet'', ''Network'']),
     (''ClusterInstKeyV1'', [''Cloudlet'']),
     (''ClusterInstKeyV2'', [''Cloudlet'']),
     (''ClusterRefs'', [''AppInst'']),
     (''DeploymentZoneRequest'', [''AlertPolicy'', ''AutoProvPolicy'', ''Flavor'']),
     (''GPUConfig'', [''GPUDriver'']),
     (''Network'', [''Cloudlet'']),
     (''NetworkKey'', [''Cloudlet'']),
     (''TPEInstanceKey'', [''App'', ''ZonePool'']),
     (''TrustPolicyException'', [''App'', ''ZonePool'']),
     (''TrustPolicyExceptionKey'', [''App'', ''ZonePool'']),
     (''ZonePool'', [''Zone'']),
     (''ZonePoolMember'', [''Zone'', ''ZonePool''])]"

subsection \<open>The recursion\<close>

text \<open>
  \<open>rk\<close> bounds the depth below a node. The loop ends, changes nothing at or above the node it starts from, repairs the edges it is given,
  breaks no other edge and stays below every order that respects the references.
\<close>

lemma node_of_update: "node_of (AList.update n v s) = (node_of s)(n := v)"
  by (auto simp: node_of_def get_or_def fun_eq_iff)

lemma node_of_set_order: "node_of (set_order n k s) = (node_of s)(n := (node_of s n)\<lparr>nn_order := k\<rparr>)"
  by (simp add: set_order_def node_of_update)

lemma node_of_getNode [simp]: "node_of (getNode n s) = node_of s"
  by (simp add: getNode_def node_of_update fun_upd_triv)

definition raised :: "string \<Rightarrow> string list \<Rightarrow> (string \<Rightarrow> nat) \<Rightarrow> NotifyOrder \<Rightarrow> NotifyOrder \<Rightarrow> bool" where
  "raised n ds rk s s' \<longleftrightarrow>
     (\<forall>x. users_of s' x = users_of s x) \<and> (\<forall>x. ord_of s x \<le> ord_of s' x) \<and> (\<forall>x. rk n \<le> rk x \<longrightarrow> ord_of s' x = ord_of s x)
     \<and> (\<forall>d \<in> set ds. ord_of s' n < ord_of s' d)
     \<and> (\<forall>a. \<forall>b \<in> set (users_of s a). ord_of s a < ord_of s b \<longrightarrow> ord_of s' a < ord_of s' b)
     \<and> (\<forall>f :: string \<Rightarrow> nat. (\<forall>x. ord_of s x \<le> f x) \<longrightarrow> (\<forall>a. \<forall>b \<in> set (users_of s a). f a < f b) \<longrightarrow> (\<forall>d \<in> set ds. f n < f d)
          \<longrightarrow> (\<forall>x. ord_of s' x \<le> f x))"

lemma raised_step:
  assumes "n \<noteq> d" "rk d < rk n" "\<not> ord_of s n < ord_of s d"
    and r2: "raised d (users_of s d) rk (set_order d (ord_of s n + 1) s) s2" and r': "raised n rest rk s2 s'"
  shows "raised n (d # rest) rk s s'"
proof -
  let ?s1 = "set_order d (ord_of s n + 1) s"
  have u1: "users_of ?s1 x = users_of s x" and o1: "ord_of ?s1 x = (if x = d then ord_of s n + 1 else ord_of s x)" for x
    by (simp_all add: node_of_set_order)
  have u2: "users_of s2 x = users_of s x" and le2: "ord_of ?s1 x \<le> ord_of s2 x" and same2: "rk d \<le> rk x \<Longrightarrow> ord_of s2 x = ord_of ?s1 x"
    and own2: "b \<in> set (users_of s d) \<Longrightarrow> ord_of s2 d < ord_of s2 b"
    and keep2: "b \<in> set (users_of s a) \<Longrightarrow> ord_of ?s1 a < ord_of ?s1 b \<Longrightarrow> ord_of s2 a < ord_of s2 b" for x a b
    using r2 unfolding raised_def u1 by blast+
  have u': "users_of s' x = users_of s2 x" and le': "ord_of s2 x \<le> ord_of s' x" and same': "rk n \<le> rk x \<Longrightarrow> ord_of s' x = ord_of s2 x"
    and own': "b \<in> set rest \<Longrightarrow> ord_of s' n < ord_of s' b"
    and keep': "b \<in> set (users_of s2 a) \<Longrightarrow> ord_of s2 a < ord_of s2 b \<Longrightarrow> ord_of s' a < ord_of s' b" for x a b
    using r' unfolding raised_def by blast+
  have le: "ord_of s x \<le> ord_of s2 x" for x using le2[of x] assms(3) o1[of x] by (cases "x = d") auto
  have n2: "ord_of s2 n = ord_of s n" "ord_of s2 d = ord_of s n + 1" using same2[of n] same2[of d] assms(1,2) o1[of n] o1[of d] by simp_all
  then have nd: "ord_of s' n < ord_of s' d" using le'[of d] same'[of n] by simp
  have keep: "ord_of s2 a < ord_of s2 b" if "b \<in> set (users_of s a)" "ord_of s a < ord_of s b" for a b
  proof (cases "a = d")
    case True
    then show ?thesis using own2 that(1) by simp
  next
    case False
    then have "ord_of ?s1 a < ord_of ?s1 b" using that(2) assms(3) unfolding o1 by auto
    then show ?thesis by (rule keep2[OF that(1)])
  qed
  have "ord_of s' x \<le> f x" if f: "\<forall>x. ord_of s x \<le> f x" "\<forall>a. \<forall>b \<in> set (users_of s a). f a < f b" "\<forall>d \<in> set (d # rest). f n < f d"
    for x and f :: "string \<Rightarrow> nat"
  proof -
    have "\<forall>x. ord_of ?s1 x \<le> f x"
    proof
      fix x
      have "f n < f d" "ord_of s n \<le> f n" "ord_of s x \<le> f x" using f(1,3) by simp_all
      then show "ord_of ?s1 x \<le> f x" unfolding o1 by simp
    qed
    then have "\<forall>x. ord_of s2 x \<le> f x" using r2 f(2) unfolding raised_def u1 by blast
    then show ?thesis using r' f(2,3) unfolding raised_def u2 by auto
  qed
  moreover have "ord_of s' x = ord_of s x" if "rk n \<le> rk x" for x
    using same'[OF that] same2[of x] that assms(2) o1[of x] by (cases "x = d") auto
  moreover have "ord_of s x \<le> ord_of s' x" for x using le le' by (rule order_trans)
  ultimately show ?thesis unfolding raised_def using u' u2 nd own' keep keep' by auto
qed

lemma order_loop_raises:
  fixes rk :: "string \<Rightarrow> nat"
  assumes "\<forall>a. \<forall>b \<in> set (users_of s a). rk b < rk a" "\<forall>d \<in> set ds. rk d < rk n"
  shows "\<exists>s'. order_loop n ds s = Some s' \<and> raised n ds rk s s'"
  using assms
proof (induction "rk n" arbitrary: n ds s rule: less_induct)
  case outer: less
  show ?case using outer.prems
  proof (induction ds arbitrary: s)
    case Nil
    then show ?case by (subst order_loop.simps) (auto simp: raised_def)
  next
    case (Cons d rest)
    show ?case
    proof (cases "ord_of s n < ord_of s d")
      case True
      then obtain s' where "order_loop n rest s = Some s'" "raised n rest rk s s'" using Cons.IH[of s] Cons.prems by auto
      moreover from this(2) have "ord_of s' n < ord_of s' d" using True by (metis order_less_le_trans order_refl raised_def)
      ultimately show ?thesis using True by (subst order_loop.simps) (auto simp: raised_def)
    next
      case False
      let ?s1 = "set_order d (ord_of s n + 1) s"
      have rd: "rk d < rk n" and nd: "n \<noteq> d" using Cons.prems(2) by auto
      have u1: "users_of ?s1 x = users_of s x" and o1: "ord_of ?s1 x = (if x = d then ord_of s n + 1 else ord_of s x)" for x
        by (simp_all add: node_of_set_order)
      obtain s2 where s2: "order_loop d (users_of s d) ?s1 = Some s2" "raised d (users_of s d) rk ?s1 s2"
        using outer.hyps[OF rd, of ?s1 "users_of s d"] Cons.prems(1) unfolding u1 by blast
      note r2 = s2(2)[unfolded raised_def u1]
      obtain s' where s': "order_loop n rest s2 = Some s'" "raised n rest rk s2 s'"
        using Cons.IH[of s2] Cons.prems r2 by auto
      note r' = s'(2)[unfolded raised_def]
      have "order_loop n (d # rest) s = Some s'" using False s2(1) s'(1) by (subst order_loop.simps) simp
      moreover have "raised n (d # rest) rk s s'" by (rule raised_step[OF nd rd False s2(2) s'(2)])
      ultimately show ?thesis by blast
    qed
  qed
qed

subsection \<open>Properties\<close>

text \<open>The graph has the references added so far, every kind comes after the kinds it refers to, and no order is larger than it has to be.\<close>

definition orders :: "(string \<times> string) set \<Rightarrow> (string \<Rightarrow> nat) \<Rightarrow> NotifyOrder \<Rightarrow> bool" where
  "orders E f s \<longleftrightarrow> (\<forall>a b. b \<in> set (users_of s a) \<longleftrightarrow> (b, a) \<in> E) \<and> (\<forall>(b, a) \<in> E. ord_of s a < ord_of s b) \<and> (\<forall>x. ord_of s x \<le> f x)"

lemma addObjectDep_orders:
  assumes o: "orders E f s" and f: "\<And>b a. (b, a) \<in> insert (obj, dep) E \<Longrightarrow> f a < f b \<and> f b \<le> M"
  shows "\<exists>s'. addObjectDep obj dep s = Some s' \<and> orders (insert (obj, dep) E) f s'"
proof -
  define t1 where "t1 = (let t = getNode dep (getNode obj s) in AList.update obj ((node_of t obj)\<lparr>dependsOn := dependsOn (node_of t obj) @ [dep]\<rparr>) t)"
  define t2 where "t2 = AList.update dep ((node_of t1 dep)\<lparr>dependedOnBy := dependedOnBy (node_of t1 dep) @ [obj]\<rparr>) t1"
  let ?rk = "\<lambda>x. M - f x"
  have neq: "obj \<noteq> dep" using f[of obj dep] by auto
  have u: "users_of t2 x = users_of s x @ (if x = dep then [obj] else [])" and k: "ord_of t2 x = ord_of s x" for x
    using neq by (simp_all add: t1_def t2_def Let_def node_of_update)
  have E: "b \<in> set (users_of t2 a) \<longleftrightarrow> (b, a) \<in> insert (obj, dep) E" for a b using o by (auto simp: orders_def u)
  have rk: "?rk b < ?rk a" if "(b, a) \<in> insert (obj, dep) E" for a b using f[OF that] by auto
  have "addObjectDep obj dep s = (if ord_of t2 dep < ord_of t2 obj then Some t2 else orderUpdated obj (set_order obj (ord_of t2 dep + 1) t2))"
    by (simp add: addObjectDep_def Let_def t1_def t2_def)
  also have "\<dots> = order_loop dep [obj] t2"
  proof -
    have "order_loop dep [] = Some" by (rule ext) (subst order_loop.simps, simp)
    then show ?thesis by (subst order_loop.simps[of dep]) (simp add: orderUpdated_def node_of_set_order)
  qed
  finally have "addObjectDep obj dep s = order_loop dep [obj] t2" .
  moreover obtain s' where s': "order_loop dep [obj] t2 = Some s'" "raised dep [obj] ?rk t2 s'"
    using order_loop_raises[of t2 ?rk "[obj]" dep] rk E by auto
  moreover have "orders (insert (obj, dep) E) f s'"
  proof -
    note r = s'(2)[unfolded raised_def]
    have "\<forall>(b, a) \<in> insert (obj, dep) E. ord_of s' a < ord_of s' b"
      using r E o by (fastforce simp: orders_def k)
    moreover have "\<forall>x. ord_of s' x \<le> f x"
      using r f E o unfolding orders_def k by (metis list.set(1) list.set(2) singletonD insertI1)
    ultimately show ?thesis unfolding orders_def using r E by metis
  qed
  ultimately show ?thesis by auto
qed

lemma add_deps_orders:
  assumes "orders E f s" "\<And>b a. (b, a) \<in> E \<union> set es \<Longrightarrow> f a < f b \<and> f b \<le> M"
  shows "\<exists>s'. add_deps es s = Some s' \<and> orders (E \<union> set es) f s'"
  using assms
proof (induction es arbitrary: E s)
  case (Cons e es)
  obtain obj dep where e: "e = (obj, dep)" by (cases e)
  obtain s1 where s1: "addObjectDep obj dep s = Some s1" "orders (insert (obj, dep) E) f s1"
    using addObjectDep_orders[OF Cons.prems(1), of obj dep M] Cons.prems(2) by (auto simp: e)
  have "insert (obj, dep) E \<union> set es = E \<union> set (e # es)" by (auto simp: e)
  then show ?case using Cons.IH[OF s1(2)] Cons.prems(2) s1(1) by (simp add: e)
qed simp

lemma NewNotifyOrder_orders:
  assumes "\<And>obj ref. (obj, ref) \<in> set (references m) \<Longrightarrow> f ref < f obj"
  shows "\<exists>s. NewNotifyOrder m = Some s \<and> orders (set (references m)) f s"
proof -
  let ?M = "\<Sum>(b, a) \<leftarrow> references m. f b"
  have "f b \<le> ?M" if "(b, a) \<in> set (references m)" for a b
    using member_le_sum_list[of "f b" "map (\<lambda>(b, a). f b) (references m)"] that by force
  moreover have "orders {} f []" by (simp add: orders_def node_of_def)
  ultimately show ?thesis using add_deps_orders[of "{}" f "[]" "references m" ?M] assms by (auto simp: NewNotifyOrder_def)
qed

text \<open>
  (C27) When the references have no cycle, shown by any numbering in which a kind is above the kinds it refers to, building the order
  ends, every kind comes after those it refers to, and the orders are the least possible. They do not depend
  on the order in which Go visits the table of references.
\<close>

theorem NewNotifyOrder_least_order:
  assumes "\<forall>(obj, ref) \<in> set (references m). f ref < (f obj :: nat)"
  shows "\<exists>s. NewNotifyOrder m = Some s \<and> (\<forall>(obj, ref) \<in> set (references m). Less s ref obj) \<and> (\<forall>x. ord_of s x \<le> f x)
    \<and> (\<forall>m' s'. set (references m') = set (references m) \<longrightarrow> NewNotifyOrder m' = Some s' \<longrightarrow> ord_of s' = ord_of s)"
proof -
  obtain s where s: "NewNotifyOrder m = Some s" "orders (set (references m)) f s" using NewNotifyOrder_orders[of m f] assms by auto
  have "ord_of s' = ord_of s" if m': "set (references m') = set (references m)" "NewNotifyOrder m' = Some s'" for m' s'
  proof
    fix x
    have "ord_of s a < ord_of s b" if "(b, a) \<in> set (references m')" for a b using that s(2) m'(1) by (auto simp: orders_def)
    from NewNotifyOrder_orders[of m' "ord_of s", OF this] have "orders (set (references m)) (ord_of s) s'" using m' by simp
    then have e: "\<forall>(b, a) \<in> set (references m). ord_of s' a < ord_of s' b" and "\<forall>x. ord_of s' x \<le> ord_of s x"
      by (simp_all add: orders_def)
    then have "ord_of s' x \<le> ord_of s x" by blast
    from e have "ord_of s' a < ord_of s' b" if "(b, a) \<in> set (references m)" for a b using that by auto
    from NewNotifyOrder_orders[of m "ord_of s'", OF this] have "orders (set (references m)) (ord_of s') s" using s(1) by simp
    then have "\<forall>x. ord_of s x \<le> ord_of s' x" unfolding orders_def by (elim conjE)
    then have "ord_of s x \<le> ord_of s' x" by (rule spec)
    with \<open>ord_of s' x \<le> ord_of s x\<close> show "ord_of s' x = ord_of s x" by simp
  qed
  moreover have "\<forall>(obj, ref) \<in> set (references m). Less s ref obj" "\<forall>x. ord_of s x \<le> f x"
    using s(2) by (simp_all add: orders_def Less_def)
  ultimately show ?thesis using s(1) by blast
qed

definition reference_level :: "string \<Rightarrow> nat" where
  "reference_level x =
     (if x \<in> {''AllData'', ''AppInst''} then 4 else if x \<in> {''AppInstRefs'', ''CloudletRefs'', ''ClusterRefs''} then 5
      else if x \<in> {''AppAlertPolicy'', ''AppAutoProvPolicy'', ''AppInstKeyV1'', ''TPEInstanceKey'', ''TrustPolicyException'', ''TrustPolicyExceptionKey''} then 4
      else if x = ''ClusterInst'' then 3
      else if x \<in> {''App'', ''Network'', ''NetworkKey'', ''AppInstKeyV2'', ''AutoProvPolicyZone'', ''CloudletResMap'', ''ClusterInstKeyV1'', ''ClusterInstKeyV2'',
          ''DeploymentZoneRequest'', ''ZonePoolMember''} then 2
      else if x \<in> {''AutoProvPolicy'', ''Cloudlet'', ''GPUConfig'', ''ZonePool''} then 1 else 0)"

theorem NewNotifyOrder_least_order_witness:
  "\<exists>s. NewNotifyOrder GetReferencesMap = Some s \<and> Less s ''Cloudlet'' ''ClusterInst'' \<and> Less s ''ClusterInst'' ''AppInst''"
proof -
  have "\<forall>(obj, ref) \<in> set (references GetReferencesMap). reference_level ref < reference_level obj" by code_simp
  moreover have "(''ClusterInst'', ''Cloudlet'') \<in> set (references GetReferencesMap)" "(''AppInst'', ''ClusterInst'') \<in> set (references GetReferencesMap)"
    by (code_simp, code_simp)
  ultimately show ?thesis using NewNotifyOrder_least_order[of GetReferencesMap reference_level] by blast
qed

end
