(* ===== verification/ObjCache.thy ===== *)
theory ObjCache
  imports MemStore NotifyOrder LookupIndex
begin

text \<open>
  The caches that every service keeps of the objects of the region, and their synchronization with the store. The cache code is
  generated once per kind of object; the model is generic in the key and the data of an object and follows the code generated for
  \<^verbatim>\<open>VMPool\<close> (\<^verbatim>\<open>api/edgeproto/vmpool.pb.go\<close>) and, for \<open>cache_Flush\<close>, for \<^verbatim>\<open>CloudletInfo\<close>. The synchronization is
  \<^verbatim>\<open>pkg/regiondata/sync.go\<close>; it feeds the events of a watcher of the store (theory \<open>MemStore\<close>) to the caches. Decoding of keys and
  values (JSON) is an argument.
\<close>

subsection \<open>Caches\<close>

text \<open>An object is its key with its data. Callbacks and watchers are numbers; an operation returns the calls it makes, in their order.\<close>

type_synonym ('k, 'd) obj = "'k \<times> 'd"

abbreviation GetKeyVal :: "('k, 'd) obj \<Rightarrow> 'k" where "GetKeyVal \<equiv> fst"

record ('k, 'd) CacheData =
  cd_Obj :: "('k, 'd) obj"
  cd_ModRev :: int

record ('k, 'd) ObjCache =
  Objs :: "('k, ('k, 'd) CacheData) gomap"
  ListKeys :: "'k list option"
  FlushAll :: bool
  NotifyCbs :: "nat list"
  UpdatedCbs :: "nat list"
  DeletedCbs :: "nat list"
  UpdatedKeyCbs :: "nat list"
  DeletedKeyCbs :: "nat list"
  KeyWatchers :: "('k, nat list) gomap"

datatype ('k, 'd) cb_call =
    NotifyCall nat "('k, 'd) obj" int
  | UpdatedCall nat "('k, 'd) obj option" "('k, 'd) obj"
  | DeletedCall nat "('k, 'd) obj"
  | UpdatedKeyCall nat 'k
  | DeletedKeyCall nat 'k
  | WatcherCall nat

definition InitCache :: "('k, 'd) ObjCache" where
  "InitCache = \<lparr>Objs = [], ListKeys = None, FlushAll = False, NotifyCbs = [], UpdatedCbs = [], DeletedCbs = [], UpdatedKeyCbs = [],
     DeletedKeyCbs = [], KeyWatchers = []\<rparr>"

definition GetWithRev :: "('k, 'd) ObjCache \<Rightarrow> 'k \<Rightarrow> (('k, 'd) obj \<times> int) option" where
  "GetWithRev c key = map_option (\<lambda>inst. (cd_Obj inst, cd_ModRev inst)) (map_of (Objs c) key)"

definition cache_Get :: "('k, 'd) ObjCache \<Rightarrow> 'k \<Rightarrow> ('k, 'd) obj option" where
  "cache_Get c key = map_option fst (GetWithRev c key)"

definition HasKey :: "('k, 'd) ObjCache \<Rightarrow> 'k \<Rightarrow> bool" where
  "HasKey c key = (map_of (Objs c) key \<noteq> None)"

definition GetAllLocked :: "('k, 'd) ObjCache \<Rightarrow> (('k, 'd) obj \<times> int) list" where
  "GetAllLocked c = map (\<lambda>(_, data). (cd_Obj data, cd_ModRev data)) (Objs c)"

definition TriggerKeyWatchers :: "('k, 'd) ObjCache \<Rightarrow> 'k \<Rightarrow> ('k, 'd) cb_call list" where
  "TriggerKeyWatchers c key = map WatcherCall (get_or [] (KeyWatchers c) key)"

text \<open>The callbacks of an update are deferred: they run last, in the reverse of the order in which they were deferred.\<close>

definition UpdateModFunc ::
  "'k \<Rightarrow> int \<Rightarrow> (('k, 'd) obj option \<Rightarrow> ('k, 'd) obj \<times> bool) \<Rightarrow> ('k, 'd) ObjCache \<Rightarrow> ('k, 'd) ObjCache \<times> ('k, 'd) cb_call list" where
  "UpdateModFunc key modRev modFunc c =
     (let old = map_option cd_Obj (map_of (Objs c) key);
          (new, changed) = modFunc old
      in if \<not> changed then (c, [])
         else (c\<lparr>Objs := AList.update (GetKeyVal new) \<lparr>cd_Obj = new, cd_ModRev = modRev\<rparr> (Objs c)\<rparr>,
               TriggerKeyWatchers c (GetKeyVal new)
               @ rev (map (\<lambda>cb. UpdatedCall cb old new) (UpdatedCbs c) @ map (\<lambda>cb. NotifyCall cb new modRev) (NotifyCbs c)
                  @ map (\<lambda>cb. UpdatedKeyCall cb key) (UpdatedKeyCbs c))))"

definition cache_Update :: "('k, 'd) obj \<Rightarrow> int \<Rightarrow> ('k, 'd) ObjCache \<Rightarrow> ('k, 'd) ObjCache \<times> ('k, 'd) cb_call list" where
  "cache_Update obj modRev = UpdateModFunc (GetKeyVal obj) modRev (\<lambda>_. (obj, True))"

definition DeleteCondFunc ::
  "('k, 'd) obj \<Rightarrow> int \<Rightarrow> (('k, 'd) obj \<Rightarrow> bool) \<Rightarrow> ('k, 'd) ObjCache \<Rightarrow> ('k, 'd) ObjCache \<times> ('k, 'd) cb_call list" where
  "DeleteCondFunc obj modRev condFunc c =
     (let old = map_option cd_Obj (map_of (Objs c) (GetKeyVal obj))
      in if (case old of None \<Rightarrow> False | Some o' \<Rightarrow> \<not> condFunc o') then (c, [])
         else (c\<lparr>Objs := AList.delete (GetKeyVal obj) (Objs c)\<rparr>,
               map (\<lambda>cb. NotifyCall cb (case old of None \<Rightarrow> obj | Some o' \<Rightarrow> o') modRev) (NotifyCbs c)
               @ (case old of None \<Rightarrow> [] | Some o' \<Rightarrow> map (\<lambda>cb. DeletedCall cb o') (DeletedCbs c))
               @ map (\<lambda>cb. DeletedKeyCall cb (GetKeyVal obj)) (DeletedKeyCbs c)
               @ TriggerKeyWatchers c (GetKeyVal obj)))"

definition cache_Delete :: "('k, 'd) obj \<Rightarrow> int \<Rightarrow> ('k, 'd) ObjCache \<Rightarrow> ('k, 'd) ObjCache \<times> ('k, 'd) cb_call list" where
  "cache_Delete obj modRev = DeleteCondFunc obj modRev (\<lambda>_. True)"

text \<open>The calls for an object that is removed by the operations below.\<close>

definition removal_calls :: "('k, 'd) ObjCache \<Rightarrow> 'k \<times> ('k, 'd) CacheData \<Rightarrow> ('k, 'd) cb_call list" where
  "removal_calls c e =
     (case e of (key, old) \<Rightarrow>
        map (\<lambda>cb. NotifyCall cb (cd_Obj old) (cd_ModRev old)) (NotifyCbs c) @ map (\<lambda>cb. DeletedKeyCall cb key) (DeletedKeyCbs c)
        @ map (\<lambda>cb. DeletedCall cb (cd_Obj old)) (DeletedCbs c) @ TriggerKeyWatchers c key)"

text \<open>Removed objects are only reported at all when some callback is registered; key watchers do not count.\<close>

definition cache_Prune :: "'k list \<Rightarrow> ('k, 'd) ObjCache \<Rightarrow> ('k, 'd) ObjCache \<times> ('k, 'd) cb_call list" where
  "cache_Prune validKeys c =
     (c\<lparr>Objs := filter (\<lambda>(key, _). key \<in> set validKeys) (Objs c)\<rparr>,
      if NotifyCbs c = [] \<and> DeletedKeyCbs c = [] \<and> DeletedCbs c = [] then []
      else concat (map (removal_calls c) (filter (\<lambda>(key, _). key \<notin> set validKeys) (Objs c))))"

text \<open>Objects record the connection they came from; \<open>notifyIdOf\<close> reads it.\<close>

definition cache_Flush :: "(('k, 'd) obj \<Rightarrow> int) \<Rightarrow> int \<Rightarrow> ('k, 'd) ObjCache \<Rightarrow> ('k, 'd) ObjCache \<times> ('k, 'd) cb_call list" where
  "cache_Flush notifyIdOf notifyId c =
     (let stay = (\<lambda>(_, val). \<not> FlushAll c \<and> notifyIdOf (cd_Obj val) \<noteq> notifyId)
      in (c\<lparr>Objs := filter stay (Objs c)\<rparr>, concat (map (removal_calls c) (filter (\<lambda>e. \<not> stay e) (Objs c)))))"

definition WatchKey :: "'k \<Rightarrow> nat \<Rightarrow> ('k, 'd) ObjCache \<Rightarrow> ('k, 'd) ObjCache" where
  "WatchKey key w c = c\<lparr>KeyWatchers := AList.update key (get_or [] (KeyWatchers c) key @ [w]) (KeyWatchers c)\<rparr>"

text \<open>The function that \<^verbatim>\<open>WatchKey\<close> returns: the last watcher takes the place of the one that leaves.\<close>

definition cancel_watch :: "'k \<Rightarrow> nat \<Rightarrow> ('k, 'd) ObjCache \<Rightarrow> ('k, 'd) ObjCache" where
  "cancel_watch key w c =
     (case map_of (KeyWatchers c) key of None \<Rightarrow> c
      | Some ws \<Rightarrow>
          if w \<notin> set ws then c
          else if length ws = 1 then c\<lparr>KeyWatchers := AList.delete key (KeyWatchers c)\<rparr>
          else let ii = length (takeWhile (\<lambda>i. i \<noteq> w) ws)
               in c\<lparr>KeyWatchers := AList.update key (butlast (ws[ii := last ws])) (KeyWatchers c)\<rparr>)"

definition AddNotifyCb :: "nat \<Rightarrow> ('k, 'd) ObjCache \<Rightarrow> ('k, 'd) ObjCache" where
  "AddNotifyCb cb c = c\<lparr>NotifyCbs := NotifyCbs c @ [cb]\<rparr>"

definition AddUpdatedCb :: "nat \<Rightarrow> ('k, 'd) ObjCache \<Rightarrow> ('k, 'd) ObjCache" where
  "AddUpdatedCb cb c = c\<lparr>UpdatedCbs := UpdatedCbs c @ [cb]\<rparr>"

definition AddDeletedCb :: "nat \<Rightarrow> ('k, 'd) ObjCache \<Rightarrow> ('k, 'd) ObjCache" where
  "AddDeletedCb cb c = c\<lparr>DeletedCbs := DeletedCbs c @ [cb]\<rparr>"

definition AddUpdatedKeyCb :: "nat \<Rightarrow> ('k, 'd) ObjCache \<Rightarrow> ('k, 'd) ObjCache" where
  "AddUpdatedKeyCb cb c = c\<lparr>UpdatedKeyCbs := UpdatedKeyCbs c @ [cb]\<rparr>"

definition AddDeletedKeyCb :: "nat \<Rightarrow> ('k, 'd) ObjCache \<Rightarrow> ('k, 'd) ObjCache" where
  "AddDeletedKeyCb cb c = c\<lparr>DeletedKeyCbs := DeletedKeyCbs c @ [cb]\<rparr>"

subsection \<open>Updates from the store\<close>

text \<open>\<open>unmarshal\<close> decodes a value; \<open>keyParse\<close> decodes the key that is left without its prefix. The data of a deleted object is empty.\<close>

record ('k, 'd) codec =
  unmarshal :: "string \<Rightarrow> ('k, 'd) obj option"
  keyParse :: "string \<Rightarrow> 'k"
  zeroData :: 'd

definition DbKeyPrefixRemove :: "string \<Rightarrow> string" where
  "DbKeyPrefixRemove key =
     (let rest = (\<lambda>s. if CHR ''/'' \<in> set s then tl (dropWhile (\<lambda>ch. ch \<noteq> CHR ''/'') s) else s) in rest (rest key))"

definition DbKeyPrefixParse :: "string \<Rightarrow> (string \<times> string \<times> string) option" where
  "DbKeyPrefixParse inkey =
     (let upto = takeWhile (\<lambda>ch. ch \<noteq> CHR ''/''); rest = (\<lambda>s. tl (dropWhile (\<lambda>ch. ch \<noteq> CHR ''/'') s))
      in if CHR ''/'' \<notin> set inkey then None
         else let region = upto inkey; key = rest inkey
              in if CHR ''/'' \<notin> set key then Some (region, key, []) else Some (region, upto key, rest key))"

definition cache_SyncUpdate :: "('k, 'd) codec \<Rightarrow> string \<Rightarrow> int \<Rightarrow> ('k, 'd) ObjCache \<Rightarrow> ('k, 'd) ObjCache \<times> ('k, 'd) cb_call list" where
  "cache_SyncUpdate cd v modRev c =
     (case unmarshal cd v of None \<Rightarrow> (c, [])
      | Some obj \<Rightarrow>
          let (c, calls) = cache_Update obj modRev c
          in (c\<lparr>ListKeys := map_option (List.insert (GetKeyVal obj)) (ListKeys c)\<rparr>, calls))"

definition cache_SyncDelete :: "('k, 'd) codec \<Rightarrow> string \<Rightarrow> int \<Rightarrow> ('k, 'd) ObjCache \<Rightarrow> ('k, 'd) ObjCache \<times> ('k, 'd) cb_call list" where
  "cache_SyncDelete cd key modRev = cache_Delete (keyParse cd (DbKeyPrefixRemove key), zeroData cd) modRev"

definition cache_SyncListStart :: "('k, 'd) ObjCache \<Rightarrow> ('k, 'd) ObjCache" where
  "cache_SyncListStart c = c\<lparr>ListKeys := Some []\<rparr>"

definition cache_SyncListEnd :: "('k, 'd) ObjCache \<Rightarrow> ('k, 'd) ObjCache \<times> ('k, 'd) cb_call list" where
  "cache_SyncListEnd c =
     (let listed = (case ListKeys c of None \<Rightarrow> [] | Some ks \<Rightarrow> ks)
      in (c\<lparr>Objs := filter (\<lambda>(key, _). key \<in> set listed) (Objs c), ListKeys := None\<rparr>,
          concat (map (removal_calls c) (filter (\<lambda>(key, _). key \<notin> set listed) (Objs c)))))"

subsection \<open>The synchronization thread\<close>

record ('k, 'd) Sync =
  sy_rev :: int
  initWait :: bool
  batch :: "(string \<times> SyncCbData) list"
  caches :: "(string, ('k, 'd) ObjCache) gomap"

definition InitSync :: "('k, 'd) Sync" where
  "InitSync = \<lparr>sy_rev = 1, initWait = True, batch = [], caches = []\<rparr>"

definition RegisterCache :: "string \<Rightarrow> ('k, 'd) ObjCache \<Rightarrow> ('k, 'd) Sync \<Rightarrow> ('k, 'd) Sync" where
  "RegisterCache typ c s = s\<lparr>caches := AList.update typ c (caches s)\<rparr>"

definition getSpanKey :: "nat \<Rightarrow> string" where
  "getSpanKey region = dec_str region @ ''/SpanEtcdKey''"

text \<open>The kind of object a key belongs to, when there is a cache for it.\<close>

definition GetCache :: "nat \<Rightarrow> string \<Rightarrow> ('k, 'd) Sync \<Rightarrow> string option" where
  "GetCache region key s =
     (if key = getSpanKey region then None
      else case DbKeyPrefixParse key of None \<Rightarrow> None
        | Some (_, typ, _) \<Rightarrow> if map_of (caches s) typ = None then None else Some typ)"

fun insertBatchData :: "NotifyOrder \<Rightarrow> string \<times> SyncCbData \<Rightarrow> (string \<times> SyncCbData) list \<Rightarrow> (string \<times> SyncCbData) list" where
  "insertBatchData no dat [] = [dat]"
| "insertBatchData no dat (d # ds) = (if Less no (fst dat) (fst d) then dat # d # ds else d # insertBatchData no dat ds)"

definition apply_one :: "('k, 'd) codec \<Rightarrow> SyncCbData \<Rightarrow> ('k, 'd) ObjCache \<Rightarrow> ('k, 'd) ObjCache" where
  "apply_one cd d c =
     (if cb_Action d = SyncUpdate \<or> cb_Action d = SyncList then fst (cache_SyncUpdate cd (cb_Value d) (cb_ModRev d) c)
      else if cb_Action d = SyncDelete then fst (cache_SyncDelete cd (cb_Key d) (cb_ModRev d) c)
      else c)"

definition apply_data :: "(string \<Rightarrow> ('k, 'd) codec) \<Rightarrow> string \<times> SyncCbData \<Rightarrow> (string, ('k, 'd) ObjCache) gomap \<Rightarrow> (string, ('k, 'd) ObjCache) gomap" where
  "apply_data cds td cs =
     (case td of (typ, d) \<Rightarrow>
        case map_of cs typ of None \<Rightarrow> cs
        | Some c \<Rightarrow> AList.update typ (apply_one (cds typ) d c) cs)"

text \<open>
  One event. \<open>moreEvents\<close>: further events of the same revision follow. The in-memory store sends each of its events without that mark.
\<close>

definition syncCb :: "nat \<Rightarrow> NotifyOrder \<Rightarrow> (string \<Rightarrow> ('k, 'd) codec) \<Rightarrow> bool \<Rightarrow> SyncCbData \<Rightarrow> ('k, 'd) Sync \<Rightarrow> ('k, 'd) Sync" where
  "syncCb region no cds moreEvents data s =
     (case cb_Action data of
        SyncListStart \<Rightarrow> s\<lparr>caches := map (\<lambda>(typ, c). (typ, cache_SyncListStart c)) (caches s)\<rparr>
      | SyncListEnd \<Rightarrow> s\<lparr>caches := map (\<lambda>(typ, c). (typ, fst (cache_SyncListEnd c))) (caches s), initWait := False\<rparr>
      | _ \<Rightarrow>
          let s = (case GetCache region (cb_Key data) s of None \<Rightarrow> s
                   | Some typ \<Rightarrow> s\<lparr>batch := insertBatchData no (typ, data) (batch s)\<rparr>)
          in if moreEvents then s
             else s\<lparr>caches := fold (apply_data cds) (batch s) (caches s), batch := [], sy_rev := cb_Rev data\<rparr>)"

text \<open>What \<^verbatim>\<open>SyncWait\<close> waits for.\<close>

definition SyncWait_done :: "int \<Rightarrow> bool \<Rightarrow> ('k, 'd) Sync \<Rightarrow> bool" where
  "SyncWait_done rv syncDone s = (rv \<le> sy_rev s \<or> syncDone)"

subsection \<open>Batches\<close>

lemma map_of_map_snd: "map_of (map (\<lambda>(k, v). (k, f v)) xs) t = map_option f (map_of xs t)"
  by (induction xs) auto

lemma map_of_apply_data:
  "map_of (fold (apply_data cds) b cs) t = map_option (fold (apply_one (cds t)) (map snd (filter (\<lambda>d. fst d = t) b))) (map_of cs t)"
proof (induction b arbitrary: cs)
  case (Cons d b)
  obtain t' x where d: "d = (t', x)" by (cases d)
  have "map_of (apply_data cds d cs) t = map_option (if t' = t then apply_one (cds t) x else id) (map_of cs t)"
    by (cases "map_of cs t'") (auto simp: d apply_data_def option.map_id simp del: map_of_eq_None_keys)
  then show ?case using Cons.IH[of "apply_data cds d cs"] by (simp add: d option.map_comp comp_def)
qed (simp add: option.map_id)

definition in_order :: "NotifyOrder \<Rightarrow> (string \<times> SyncCbData) list \<Rightarrow> bool" where
  "in_order no = sorted_wrt (\<lambda>a b. \<not> Less no (fst b) (fst a))"

lemma set_insertBatchData: "set (insertBatchData no x ds) = insert x (set ds)"
  by (induction ds) auto

lemma in_order_insert: "in_order no ds \<Longrightarrow> in_order no (insertBatchData no x ds)"
  unfolding in_order_def by (induction ds) (auto simp: set_insertBatchData Less_def)

lemma filter_insertBatchData:
  "in_order no ds \<Longrightarrow> filter (\<lambda>d. fst d = t) (insertBatchData no x ds) = filter (\<lambda>d. fst d = t) ds @ (if fst x = t then [x] else [])"
proof (induction ds)
  case (Cons d ds)
  show ?case
  proof (cases "Less no (fst x) (fst d)")
    case True
    then have "\<forall>y \<in> set (d # ds). fst y \<noteq> fst x" using Cons.prems by (auto simp: in_order_def Less_def)
    then have "fst x = t \<longrightarrow> filter (\<lambda>d. fst d = t) (d # ds) = []" by (auto simp: filter_empty_conv)
    then show ?thesis using True by auto
  next
    case False
    then show ?thesis using Cons by (simp add: in_order_def)
  qed
qed simp

definition is_change :: "SyncCbData \<Rightarrow> bool" where
  "is_change d \<longleftrightarrow> cb_Action d \<in> {SyncUpdate, SyncList, SyncDelete}"

definition event_kind :: "nat \<Rightarrow> string \<Rightarrow> string option" where
  "event_kind region key = (if key = getSpanKey region then None else map_option (fst \<circ> snd) (DbKeyPrefixParse key))"

lemma GetCache_kind:
  "GetCache region key s = (case event_kind region key of None \<Rightarrow> None | Some t \<Rightarrow> if map_of (caches s) t = None then None else Some t)"
  by (auto simp: GetCache_def event_kind_def split: option.split)

lemma syncCb_change:
  assumes "is_change d"
  shows "syncCb region no cds m d s =
    (let s = (case GetCache region (cb_Key d) s of None \<Rightarrow> s | Some typ \<Rightarrow> s\<lparr>batch := insertBatchData no (typ, d) (batch s)\<rparr>)
     in if m then s else s\<lparr>caches := fold (apply_data cds) (batch s) (caches s), batch := [], sy_rev := cb_Rev d\<rparr>)"
  using assms unfolding is_change_def syncCb_def by (cases "cb_Action d") (simp_all only: SyncCbAction.case, auto)

lemma collect_batch:
  fixes region and cds :: "string \<Rightarrow> ('k, 'd) codec"
  assumes "in_order no (batch s)" "\<forall>d \<in> set es. is_change d"
  defines "s' \<equiv> fold (syncCb region no cds True) es s"
  shows "caches s' = caches s \<and> in_order no (batch s') \<and> (map_of (caches s) t \<noteq> None \<longrightarrow>
    filter (\<lambda>d. fst d = t) (batch s') =
      filter (\<lambda>d. fst d = t) (batch s) @ map (Pair t) (filter (\<lambda>d. event_kind region (cb_Key d) = Some t) es))"
  unfolding s'_def using assms(1,2)
proof (induction es arbitrary: s)
  case (Cons d es)
  let ?s = "syncCb region no cds True d s"
  have "caches ?s = caches s" "in_order no (batch ?s)"
    "map_of (caches s) t \<noteq> None \<longrightarrow> filter (\<lambda>d. fst d = t) (batch ?s) =
       filter (\<lambda>d. fst d = t) (batch s) @ (if event_kind region (cb_Key d) = Some t then [(t, d)] else [])"
    using Cons.prems by (auto simp: syncCb_change Let_def GetCache_kind filter_insertBatchData in_order_insert split: option.split)
  then show ?case using Cons.IH[of ?s] Cons.prems by simp
qed simp

lemma single_events:
  assumes "batch s = []" "\<forall>d \<in> set es. is_change d"
  shows "batch (fold (syncCb region no cds False) es s) = [] \<and>
    map_of (caches (fold (syncCb region no cds False) es s)) t =
      map_option (fold (apply_one (cds t)) (filter (\<lambda>d. event_kind region (cb_Key d) = Some t) es)) (map_of (caches s) t)"
  using assms
proof (induction es arbitrary: s)
  case (Cons d es)
  let ?s = "syncCb region no cds False d s"
  have "batch ?s = []" "map_of (caches ?s) t =
      map_option (if event_kind region (cb_Key d) = Some t then apply_one (cds t) d else id) (map_of (caches s) t)"
    using Cons.prems by (auto simp: syncCb_change Let_def GetCache_kind map_of_apply_data option.map_id option.map_ident
        split: option.split)
  then show ?case using Cons.IH[of ?s] Cons.prems by (simp add: option.map_comp comp_def)
qed (simp add: option.map_id)

text \<open>
  (C28) Sorting the events of a transaction into the order in which kinds of objects are sent changes nothing for the caches: each cache
  ends up as if every event had been applied as it came.
\<close>

theorem sync_batch_keeps_content:
  assumes "batch s = []" "\<forall>d \<in> set (es @ [last_event]). is_change d"
  shows "map_of (caches (syncCb region no cds False last_event (fold (syncCb region no cds True) es s))) t
    = map_of (caches (fold (syncCb region no cds False) (es @ [last_event]) s)) t"
proof -
  let ?s = "fold (syncCb region no cds True) es s" and ?k = "\<lambda>d. event_kind region (cb_Key d) = Some t"
  let ?s1 = "fold (syncCb region no cds True) (es @ [last_event]) s"
  have "in_order no (batch s)" using assms(1) by (simp add: in_order_def)
  note b = collect_batch[OF this assms(2), of region cds t]
  have c: "is_change last_event" using assms(2) by simp
  have "caches (syncCb region no cds False last_event ?s) = fold (apply_data cds) (batch ?s1) (caches ?s1)"
    by (simp add: syncCb_change[OF c] Let_def split: option.split)
  then have "map_of (caches (syncCb region no cds False last_event ?s)) t =
    map_option (fold (apply_one (cds t)) (map snd (filter (\<lambda>d. fst d = t) (batch ?s1)))) (map_of (caches s) t)"
    using b by (simp only: map_of_apply_data)
  also have "\<dots> = map_option (fold (apply_one (cds t)) (filter ?k (es @ [last_event]))) (map_of (caches s) t)"
    using b assms(1) by (cases "map_of (caches s) t") (simp_all del: filter_append map_of_eq_None_keys add: comp_def)
  also have "\<dots> = map_of (caches (fold (syncCb region no cds False) (es @ [last_event]) s)) t"
    using single_events[OF assms, of region no cds t] by simp
  finally show ?thesis .
qed

definition demo_codec :: "(string, string) codec" where
  "demo_codec = \<lparr>unmarshal = (\<lambda>v. if v = [] then None else Some (takeWhile (\<lambda>ch. ch \<noteq> CHR ''='') v, v)), keyParse = id, zeroData = []\<rparr>"

definition demo_event :: "SyncCbAction \<Rightarrow> string \<Rightarrow> string \<Rightarrow> int \<Rightarrow> SyncCbData" where
  "demo_event a k v r = \<lparr>cb_Action = a, cb_Key = k, cb_Value = v, cb_Rev = r, cb_ModRev = r\<rparr>"

definition demo_sync :: "(string, string) Sync" where
  "demo_sync = RegisterCache ''AppInst'' InitCache (RegisterCache ''Cloudlet'' InitCache InitSync)"

theorem sync_batch_keeps_content_witness:
  "map_of (caches (syncCb 1 [] (\<lambda>_. demo_codec) False (demo_event SyncUpdate ''1/Cloudlet/c'' ''c=1'' 7)
      (fold (syncCb 1 [] (\<lambda>_. demo_codec) True)
        [demo_event SyncUpdate ''1/AppInst/a'' ''a=1'' 7, demo_event SyncDelete ''1/Cloudlet/d'' [] 7] demo_sync))) ''Cloudlet''
   = map_of (caches (fold (syncCb 1 [] (\<lambda>_. demo_codec) False)
        ([demo_event SyncUpdate ''1/AppInst/a'' ''a=1'' 7, demo_event SyncDelete ''1/Cloudlet/d'' [] 7]
         @ [demo_event SyncUpdate ''1/Cloudlet/c'' ''c=1'' 7]) demo_sync)) ''Cloudlet''"
  by (rule sync_batch_keeps_content)
    (simp_all add: demo_sync_def RegisterCache_def InitSync_def demo_event_def is_change_def)

subsection \<open>The caches follow the store\<close>

lemma cache_Get_Objs: "cache_Get c k = map_option cd_Obj (map_of (Objs c) k)"
  by (simp add: cache_Get_def GetWithRev_def option.map_comp comp_def)

lemma UpdateModFunc_Objs:
  "Objs (fst (cache_Update obj r c)) = AList.update (fst obj) \<lparr>cd_Obj = obj, cd_ModRev = r\<rparr> (Objs c)"
  "ListKeys (fst (cache_Update obj r c)) = ListKeys c"
  by (simp_all add: cache_Update_def UpdateModFunc_def Let_def)

lemma DeleteCondFunc_Objs:
  "Objs (fst (cache_Delete obj r c)) = AList.delete (fst obj) (Objs c)" "ListKeys (fst (cache_Delete obj r c)) = ListKeys c"
  by (simp_all add: cache_Delete_def DeleteCondFunc_def Let_def split: option.split)

lemma cache_Get_Update: "cache_Get (fst (cache_Update obj r c)) k = (if k = fst obj then Some obj else cache_Get c k)"
  by (simp add: cache_Get_Objs UpdateModFunc_Objs update_conv')

lemma cache_Get_Delete: "cache_Get (fst (cache_Delete obj r c)) k = (if k = fst obj then None else cache_Get c k)"
  by (simp add: cache_Get_Objs DeleteCondFunc_Objs delete_conv')

lemma map_of_filter_fst: "map_of (filter (\<lambda>(key, _). P key) xs) k = (if P k then map_of xs k else None)"
  by (induction xs) auto

lemma cache_Get_ListEnd:
  "ListKeys c = Some ks \<Longrightarrow> cache_Get (fst (cache_SyncListEnd c)) k = (if k \<in> set ks then cache_Get c k else None)"
  by (simp add: cache_Get_Objs cache_SyncListEnd_def Let_def map_of_filter_fst)

text \<open>What one event does to the cache of one kind of object.\<close>

definition cache_event :: "nat \<Rightarrow> string \<Rightarrow> ('k, 'd) codec \<Rightarrow> SyncCbData \<Rightarrow> ('k, 'd) ObjCache \<Rightarrow> ('k, 'd) ObjCache" where
  "cache_event region t cd d c =
     (if cb_Action d = SyncListStart then cache_SyncListStart c
      else if cb_Action d = SyncListEnd then fst (cache_SyncListEnd c)
      else if event_kind region (cb_Key d) = Some t then apply_one cd d c else c)"

lemma not_change: "\<not> is_change d \<longleftrightarrow> cb_Action d = SyncListStart \<or> cb_Action d = SyncListEnd"
  by (cases "cb_Action d") (simp_all add: is_change_def)

lemma syncCb_event:
  assumes "batch s = []"
  shows "batch (syncCb region no cds False d s) = []
    \<and> map_of (caches (syncCb region no cds False d s)) t = map_option (cache_event region t (cds t) d) (map_of (caches s) t)"
proof (cases "is_change d")
  case True
  then have "cb_Action d \<noteq> SyncListStart" "cb_Action d \<noteq> SyncListEnd" using not_change by blast+
  then have "cache_event region t (cds t) d = (if event_kind region (cb_Key d) = Some t then apply_one (cds t) d else id)"
    by (auto simp: cache_event_def)
  then show ?thesis using single_events[OF assms, of "[d]" region no cds t] True by simp
next
  case False
  then have "cb_Action d = SyncListStart \<or> cb_Action d = SyncListEnd" using not_change by blast
  then show ?thesis using assms
    by (cases "map_of (caches s) t") (auto simp: syncCb_def cache_event_def map_of_map_snd simp del: map_of_eq_None_keys map_of_eq_Some_iff)
qed

lemma syncCb_events:
  assumes "batch s = []"
  shows "map_of (caches (fold (syncCb region no cds False) es s)) t = map_option (fold (cache_event region t (cds t)) es) (map_of (caches s) t)"
  using assms
proof (induction es arbitrary: s)
  case (Cons d es)
  show ?case using Cons.IH[of "syncCb region no cds False d s"] syncCb_event[OF Cons.prems, of region no cds d]
    by (simp add: option.map_comp comp_def)
qed (simp add: option.map_id)

text \<open>
  What the caches rely on of the encoding, for the events of one kind: a value decodes to an object with the key of its entry, and no two
  entries have the same object key.
\<close>

definition keyOf :: "('k, 'd) codec \<Rightarrow> string \<Rightarrow> 'k" where
  "keyOf cd dk = keyParse cd (DbKeyPrefixRemove dk)"

definition kind_keys :: "nat \<Rightarrow> string \<Rightarrow> SyncCbData list \<Rightarrow> string list" where
  "kind_keys region t es = map cb_Key (filter (\<lambda>d. is_change d \<and> event_kind region (cb_Key d) = Some t) es)"

definition codec_ok :: "nat \<Rightarrow> string \<Rightarrow> ('k, 'd) codec \<Rightarrow> SyncCbData list \<Rightarrow> bool" where
  "codec_ok region t cd es \<longleftrightarrow>
     list_all (\<lambda>d. is_change d \<and> event_kind region (cb_Key d) = Some t \<and> cb_Action d \<noteq> SyncDelete \<longrightarrow>
        map_option fst (unmarshal cd (cb_Value d)) = Some (keyOf cd (cb_Key d))) es
     \<and> inj_on (keyOf cd) (set (kind_keys region t es))"

definition decoded :: "nat \<Rightarrow> string \<Rightarrow> ('k, 'd) codec \<Rightarrow> (string \<rightharpoonup> string) \<Rightarrow> ('k, 'd) obj \<Rightarrow> bool" where
  "decoded region t cd m obj \<longleftrightarrow> (\<exists>dk v. event_kind region dk = Some t \<and> m dk = Some v \<and> unmarshal cd v = Some obj)"

definition entries_ok :: "nat \<Rightarrow> string \<Rightarrow> ('k, 'd) codec \<Rightarrow> string set \<Rightarrow> (string \<rightharpoonup> string) \<Rightarrow> bool" where
  "entries_ok region t cd K m \<longleftrightarrow>
     (\<forall>dk v. event_kind region dk = Some t \<and> m dk = Some v \<longrightarrow> dk \<in> K \<and> map_option fst (unmarshal cd v) = Some (keyOf cd dk))"

lemma decoded_delete:
  assumes "entries_ok region t cd K m" "inj_on (keyOf cd) K" "dk \<in> K"
  shows "decoded region t cd (m(dk := None)) obj \<longleftrightarrow> fst obj \<noteq> keyOf cd dk \<and> decoded region t cd m obj"
proof -
  have "fst obj = keyOf cd dk' \<and> dk' \<in> K" if "event_kind region dk' = Some t" "m dk' = Some v" "unmarshal cd v = Some obj" for dk' v
    using assms(1) that unfolding entries_ok_def by (metis option.map(2) option.inject)
  note key = this
  have "dk' \<noteq> dk \<longleftrightarrow> fst obj \<noteq> keyOf cd dk" if "event_kind region dk' = Some t" "m dk' = Some v" "unmarshal cd v = Some obj" for dk' v
    using key[OF that] assms(2,3) by (metis inj_onD)
  then show ?thesis unfolding decoded_def by (simp add: fun_upd_apply) metis
qed

lemma decoded_update:
  assumes "entries_ok region t cd K m" "inj_on (keyOf cd) K" "dk \<in> K" "event_kind region dk = Some t"
    and "unmarshal cd v = Some new" "fst new = keyOf cd dk"
  shows "decoded region t cd (m(dk \<mapsto> v)) obj \<longleftrightarrow> obj = new \<or> fst obj \<noteq> fst new \<and> decoded region t cd m obj"
proof -
  have "decoded region t cd (m(dk \<mapsto> v)) obj \<longleftrightarrow> obj = new \<or> decoded region t cd (m(dk := None)) obj"
    using assms(4,5) unfolding decoded_def by (auto split: if_splits)
  then show ?thesis using decoded_delete[OF assms(1-3)] assms(6) by simp
qed

lemma decoded_other: "event_kind region dk \<noteq> Some t \<Longrightarrow> decoded region t cd (m(dk := x)) obj = decoded region t cd m obj"
  unfolding decoded_def by (metis fun_upd_other)

text \<open>
  A cache tracks the entries seen so far. During a listing this only holds for the keys listed since its start, and every entry has
  been listed.
\<close>

definition tracks :: "nat \<Rightarrow> string \<Rightarrow> ('k, 'd) codec \<Rightarrow> (string \<rightharpoonup> string) \<Rightarrow> ('k, 'd) ObjCache \<Rightarrow> bool" where
  "tracks region t cd m c \<longleftrightarrow>
     (case ListKeys c of
        None \<Rightarrow> \<forall>k obj. cache_Get c k = Some obj \<longleftrightarrow> decoded region t cd m obj \<and> fst obj = k
      | Some ks \<Rightarrow> (\<forall>k \<in> set ks. \<forall>obj. cache_Get c k = Some obj \<longleftrightarrow> decoded region t cd m obj \<and> fst obj = k)
          \<and> (\<forall>obj. decoded region t cd m obj \<longrightarrow> fst obj \<in> set ks))"

lemma apply_one_update:
  assumes "cb_Action d = SyncUpdate \<or> cb_Action d = SyncList" "unmarshal cd (cb_Value d) = Some obj"
  shows "cache_Get (apply_one cd d c) k = (if k = fst obj then Some obj else cache_Get c k)"
    "ListKeys (apply_one cd d c) = map_option (List.insert (fst obj)) (ListKeys c)"
proof -
  let ?c = "fst (cache_Update obj (cb_ModRev d) c)"
  have a: "apply_one cd d c = ?c\<lparr>ListKeys := map_option (List.insert (fst obj)) (ListKeys c)\<rparr>"
    using assms UpdateModFunc_Objs(2)[of obj "cb_ModRev d" c] by (auto simp: apply_one_def cache_SyncUpdate_def split: prod.split)
  show "cache_Get (apply_one cd d c) k = (if k = fst obj then Some obj else cache_Get c k)"
    using cache_Get_Update[of obj "cb_ModRev d" c k] by (simp add: a cache_Get_Objs)
  show "ListKeys (apply_one cd d c) = map_option (List.insert (fst obj)) (ListKeys c)" by (simp add: a)
qed

lemma apply_one_delete:
  assumes "cb_Action d = SyncDelete"
  shows "cache_Get (apply_one cd d c) k = (if k = keyOf cd (cb_Key d) then None else cache_Get c k)"
    "ListKeys (apply_one cd d c) = ListKeys c"
  using assms by (simp_all add: apply_one_def cache_SyncDelete_def cache_Get_Delete DeleteCondFunc_Objs keyOf_def)

lemma entries_ok_upd:
  "entries_ok region t cd K m \<Longrightarrow> entries_ok region t cd K (m(dk := None))"
  "entries_ok region t cd K m \<Longrightarrow> (event_kind region dk = Some t \<Longrightarrow> dk \<in> K \<and> map_option fst (unmarshal cd v) = Some (keyOf cd dk))
    \<Longrightarrow> entries_ok region t cd K (m(dk \<mapsto> v))"
  unfolding entries_ok_def by (auto split: if_splits)

lemma tracks_other: "event_kind region dk \<noteq> Some t \<Longrightarrow> tracks region t cd (m(dk := x)) c = tracks region t cd m c"
  by (simp add: tracks_def decoded_other cong: option.case_cong)

lemma tracks_change:
  assumes ok: "codec_ok region t cd es" "d \<in> set es" "is_change d"
    and m: "entries_ok region t cd (set (kind_keys region t es)) m" and tr: "tracks region t cd m c"
  shows "entries_ok region t cd (set (kind_keys region t es)) (apply_event d m)"
    and "tracks region t cd (apply_event d m) (cache_event region t cd d c)"
    and "ListKeys (cache_event region t cd d c) = None \<longleftrightarrow> ListKeys c = None"
proof -
  let ?K = "set (kind_keys region t es)" and ?kind = "event_kind region (cb_Key d) = Some t"
  let ?g = "entries_ok region t cd ?K (apply_event d m) \<and> tracks region t cd (apply_event d m) (cache_event region t cd d c)
    \<and> (ListKeys (cache_event region t cd d c) = None \<longleftrightarrow> ListKeys c = None)"
  have inj: "inj_on (keyOf cd) ?K" using ok(1) by (simp add: codec_ok_def)
  have K: "cb_Key d \<in> ?K" if ?kind using ok(2,3) that by (auto simp: kind_keys_def)
  have val: "map_option fst (unmarshal cd (cb_Value d)) = Some (keyOf cd (cb_Key d))" if ?kind "cb_Action d \<noteq> SyncDelete"
    using ok that by (auto simp: codec_ok_def list_all_iff)
  have c: "cache_event region t cd d c = (if ?kind then apply_one cd d c else c)"
    using ok(3) not_change by (auto simp: cache_event_def)
  have ?g
  proof (cases "cb_Action d = SyncDelete")
    case True
    then have a: "apply_event d m = m(cb_Key d := None)" by (simp add: apply_event_def)
    show ?thesis
    proof (cases ?kind)
      case k: True
      have "tracks region t cd (apply_event d m) (cache_event region t cd d c)" using tr unfolding a c tracks_def
        by (cases "ListKeys c") (simp_all add: k apply_one_delete[OF True] decoded_delete[OF m inj K[OF k]], blast+)
      then show ?thesis using entries_ok_upd(1)[OF m] by (simp add: a c k apply_one_delete[OF True])
    next
      case False
      then show ?thesis using tr entries_ok_upd(1)[OF m] by (simp add: a c tracks_other)
    qed
  next
    case False
    then have u: "cb_Action d = SyncUpdate \<or> cb_Action d = SyncList" using ok(3) by (simp add: is_change_def)
    then have a: "apply_event d m = m(cb_Key d \<mapsto> cb_Value d)" by (auto simp: apply_event_def)
    show ?thesis
    proof (cases ?kind)
      case k: True
      then obtain obj where o: "unmarshal cd (cb_Value d) = Some obj" "fst obj = keyOf cd (cb_Key d)" using val False by blast
      have "entries_ok region t cd ?K (apply_event d m)" using entries_ok_upd(2)[OF m] K val False by (simp add: a)
      moreover have "tracks region t cd (apply_event d m) (cache_event region t cd d c)"
        using tr unfolding a c tracks_def
        by (cases "ListKeys c")
          (simp_all add: k apply_one_update[OF u o(1)] decoded_update[OF m inj K[OF k] k o] del: split_paired_All split_paired_Ex, blast+)
      ultimately show ?thesis by (simp add: c k apply_one_update[OF u o(1)])
    next
      case k: False
      then show ?thesis using tr entries_ok_upd(2)[OF m, of "cb_Key d" "cb_Value d"] by (simp add: a c tracks_other)
    qed
  qed
  then show "entries_ok region t cd ?K (apply_event d m)" "tracks region t cd (apply_event d m) (cache_event region t cd d c)"
    "ListKeys (cache_event region t cd d c) = None \<longleftrightarrow> ListKeys c = None" by simp_all
qed

lemma tracks_changes:
  assumes "codec_ok region t cd es" "set ds \<subseteq> set es" "\<forall>d \<in> set ds. is_change d"
    and "entries_ok region t cd (set (kind_keys region t es)) m" "tracks region t cd m c"
  shows "entries_ok region t cd (set (kind_keys region t es)) (fold apply_event ds m)
    \<and> tracks region t cd (fold apply_event ds m) (fold (cache_event region t cd) ds c)
    \<and> (ListKeys (fold (cache_event region t cd) ds c) = None \<longleftrightarrow> ListKeys c = None)"
  using assms(2-5)
proof (induction ds arbitrary: m c)
  case (Cons d ds)
  have d: "d \<in> set es" "is_change d" using Cons.prems by simp_all
  note t = tracks_change[OF assms(1) d Cons.prems(3,4)]
  show ?case using Cons.IH[OF _ _ t(1,2)] Cons.prems t(3) by simp
qed simp

lemma tracks_listing:
  assumes es: "es = start # items @ [final] @ changes" "cb_Action start = SyncListStart" "cb_Action final = SyncListEnd"
    and ch: "\<forall>d \<in> set (items @ changes). is_change d" and ok: "codec_ok region t cd es"
  shows "tracks region t cd (fold apply_event es m) (fold (cache_event region t cd) es c)
    \<and> ListKeys (fold (cache_event region t cd) es c) = None"
proof -
  let ?ce = "cache_event region t cd" and ?K = "set (kind_keys region t es)"
  have s: "?ce start c = cache_SyncListStart c" "apply_event start m = Map.empty"
    using es(2) by (simp_all add: cache_event_def apply_event_def)
  let ?c1 = "fold ?ce items (cache_SyncListStart c)" and ?m1 = "fold apply_event items Map.empty"
  have "entries_ok region t cd ?K Map.empty" "tracks region t cd Map.empty (cache_SyncListStart c)"
    by (simp_all add: entries_ok_def tracks_def cache_SyncListStart_def decoded_def)
  from tracks_changes[OF ok _ _ this, of items]
  have 1: "entries_ok region t cd ?K ?m1" "tracks region t cd ?m1 ?c1" "ListKeys ?c1 \<noteq> None"
    using ch es(1) by (auto simp: cache_SyncListStart_def)
  then obtain ks where ks: "ListKeys ?c1 = Some ks" by blast
  have f: "?ce final ?c1 = fst (cache_SyncListEnd ?c1)" "apply_event final ?m1 = ?m1"
    using es(3) by (simp_all add: cache_event_def apply_event_def)
  have "ListKeys (fst (cache_SyncListEnd ?c1)) = None" by (simp add: cache_SyncListEnd_def Let_def)
  moreover from this have "tracks region t cd ?m1 (fst (cache_SyncListEnd ?c1))"
    using 1(2) by (auto simp: tracks_def ks cache_Get_ListEnd[OF ks] split: if_splits)
  moreover have "set changes \<subseteq> set es" "\<forall>d \<in> set changes. is_change d" using ch es(1) by auto
  ultimately have "tracks region t cd (fold apply_event changes ?m1) (fold ?ce changes (fst (cache_SyncListEnd ?c1)))
    \<and> ListKeys (fold ?ce changes (fst (cache_SyncListEnd ?c1))) = None"
    using tracks_changes[OF ok _ _ 1(1), of changes "fst (cache_SyncListEnd ?c1)"] by blast
  then show ?thesis using s f by (simp add: es(1))
qed

lemma trigger_changes:
  assumes "watching w p e" "a \<in> {SyncUpdate, SyncDelete}" "st_events e1 = st_events e" "st_watchers e1 = st_watchers e"
  shows "\<exists>ds. events_of w (st_events (triggerWatcher a k v rv e1)) = events_of w (st_events e) @ ds \<and> (\<forall>d \<in> set ds. is_change d)"
proof -
  have "watching w p e1" using assms(1,4) watching_cong by blast
  from trigger_events[OF this, of a k v rv] show ?thesis using assms(2,3) by (auto simp: is_change_def)
qed

lemma commit_writes_changes:
  "commit_writes ws e = Some e' \<Longrightarrow> watching w p e \<Longrightarrow>
    \<exists>ds. events_of w (st_events e') = events_of w (st_events e) @ ds \<and> (\<forall>d \<in> set ds. is_change d)"
proof (induction ws arbitrary: e)
  case (Cons kv ws)
  then obtain e1 where e1: "commit_write kv e = Some e1" "commit_writes ws e1 = Some e'" by (auto split: option.splits)
  have "watching w p e1" using commit_write_result[OF e1(1)] Cons.prems(2) watching_cong by blast
  from Cons.IH[OF e1(2) this] obtain ds where ds: "events_of w (st_events e') = events_of w (st_events e1) @ ds" "\<forall>d \<in> set ds. is_change d"
    by blast
  have "\<exists>ds1. events_of w (st_events e1) = events_of w (st_events e) @ ds1 \<and> (\<forall>d \<in> set ds1. is_change d)"
    using e1(1) trigger_changes[OF Cons.prems(2)]
    by (auto simp: commit_write_def Let_def split: prod.splits option.splits if_splits)
  then obtain ds1 where "events_of w (st_events e1) = events_of w (st_events e) @ ds1" "\<forall>d \<in> set ds1. is_change d" by blast
  then show ?case using ds by (intro exI[of _ "ds1 @ ds"]) auto
qed simp

lemma step_changes:
  assumes "store_step e e'" "watching w p e" "watching w p e'"
  shows "\<exists>ds. events_of w (st_events e') = events_of w (st_events e) @ ds \<and> (\<forall>d \<in> set ds. is_change d)"
  using assms
proof (induction rule: store_step.induct)
  case (step_create e key v)
  then show ?case using trigger_changes[OF step_create(1)] by (auto simp: Create_def Let_def split: option.split)
next
  case (step_update e key v version)
  then show ?case using trigger_changes[OF step_update(1)] by (auto simp: Update_def Let_def split: option.split)
next
  case (step_put e key v)
  then show ?case using trigger_changes[OF step_put(1)] by (auto simp: Put_def Let_def split: option.split)
next
  case (step_delete e key)
  then show ?case using trigger_changes[OF step_delete(1)] by (auto simp: Delete_def Let_def split: option.split)
next
  case (step_commit e stm e' r)
  from step_commit(1) show ?case
  proof (cases rule: commit_cases)
    case (committed rv)
    have "watching w p (e\<lparr>st_rev := st_rev e + 1\<rparr>)" using step_commit.prems(1) by (simp add: watching_def)
    from commit_writes_changes[OF committed(4) this] show ?thesis by simp
  qed (use step_commit in simp_all)
next
  case (step_sync_begin e prfx w')
  then have "w \<noteq> w'" using watching_begin_self by blast
  then show ?case by (simp add: Sync_begin_def Let_def events_of_other del: list.map(2))
next
  case (step_sync_end e prfx w')
  show ?case by (simp add: Sync_end_def Let_def split: option.split)
qed

lemma run_listing:
  assumes "store_wf e" "unused_watcher w e" "(\<lambda>s s'. store_step s s' \<and> watching w p s')\<^sup>*\<^sup>* (Sync_begin e p w) e'"
  shows "watching w p e' \<and> replay w e' = view p e' \<and> (\<exists>start items final changes.
    events_of w (st_events e') = start # items @ [final] @ changes \<and> cb_Action start = SyncListStart \<and>
    cb_Action final = SyncListEnd \<and> (\<forall>d \<in> set (items @ changes). is_change d))"
  using assms(3)
proof (induction rule: rtranclp_induct)
  case base
  have "events_of w (st_events e) = []"
    using assms(2) by (auto simp: unused_watcher_def list_all_iff events_of_def filter_empty_conv)
  then have "\<exists>start items final. events_of w (st_events (Sync_begin e p w)) = start # items @ [final] \<and>
      cb_Action start = SyncListStart \<and> cb_Action final = SyncListEnd \<and> (\<forall>d \<in> set items. is_change d)"
    by (auto simp: Sync_begin_def Let_def events_of_self is_change_def simp del: list.map(2) last.simps)
  then show ?case using Sync_begin_watching[OF assms(2)] Sync_begin_mirror[OF assms(1,2)] by (metis append_Nil2)
next
  case (step e1 e2)
  then have st: "store_step e1 e2" "watching w p e1" "watching w p e2" by simp_all
  obtain ds where ds: "events_of w (st_events e2) = events_of w (st_events e1) @ ds" "\<forall>d \<in> set ds. is_change d"
    using step_changes[OF st] by blast
  obtain start items final changes where l: "events_of w (st_events e1) = start # items @ [final] @ changes"
      "cb_Action start = SyncListStart" "cb_Action final = SyncListEnd" "\<forall>d \<in> set (items @ changes). is_change d"
    using step.IH by blast
  have "events_of w (st_events e2) = start # items @ [final] @ (changes @ ds)" "\<forall>d \<in> set (items @ (changes @ ds)). is_change d"
    using ds l(1,4) by auto
  then show ?case using l(2,3) st(3) mirror_step[OF st] step.IH by blast
qed

text \<open>
  (C15) Through the whole chain, from a write in the store over the watcher's events to the cache: whatever the calls of all clients since
  the synchronization started, once the events sent so far are consumed, the cache of a kind of object holds exactly the objects that the
  entries of that kind in the store decode to, each under its key, no matter what the cache held before.
\<close>

theorem sync_caches_mirror_store:
  assumes "store_wf e" "unused_watcher w e" "(\<lambda>s s'. store_step s s' \<and> watching w p s')\<^sup>*\<^sup>* (Sync_begin e p w) e'"
    and "batch s = []" "map_of (caches s) t = Some c0" "codec_ok region t (cds t) (events_of w (st_events e'))"
  shows "\<exists>c. map_of (caches (fold (syncCb region no cds False) (events_of w (st_events e')) s)) t = Some c \<and>
    (\<forall>k obj. cache_Get c k = Some obj \<longleftrightarrow> decoded region t (cds t) (view p e') obj \<and> GetKeyVal obj = k)"
proof -
  let ?es = "events_of w (st_events e')" and ?c = "fold (cache_event region t (cds t)) (events_of w (st_events e')) c0"
  have "tracks region t (cds t) (fold apply_event ?es Map.empty) ?c \<and> ListKeys ?c = None"
    using run_listing[OF assms(1-3)] tracks_listing[OF _ _ _ _ assms(6)] by blast
  moreover have "fold apply_event ?es Map.empty = view p e'" using run_listing[OF assms(1-3)] by (simp add: replay_def)
  ultimately have "\<forall>k obj. cache_Get ?c k = Some obj \<longleftrightarrow> decoded region t (cds t) (view p e') obj \<and> fst obj = k"
    by (elim conjE) (simp only: tracks_def option.case, blast)
  then show ?thesis using syncCb_events[OF assms(4), of region no cds ?es t] assms(5) by auto
qed

definition demo_store :: InMemoryStore where
  "demo_store = fst (Put empty_store ''1/Cloudlet/a'' ''a=1'')"

definition demo_store' :: InMemoryStore where
  "demo_store' = fst (Delete (fst (Put (Sync_begin demo_store ''1/'' 4) ''1/Cloudlet/b'' ''b=2'')) ''1/Cloudlet/a'')"

lemma demo_run: "(\<lambda>s s'. store_step s s' \<and> watching 4 ''1/'' s')\<^sup>*\<^sup>* (Sync_begin demo_store ''1/'' 4) demo_store'"
proof -
  let ?b = "Sync_begin demo_store ''1/'' 4"
  have "watching 4 ''1/'' (fst (Put ?b ''1/Cloudlet/b'' ''b=2''))" "watching 4 ''1/'' demo_store'" unfolding demo_store'_def by code_simp+
  moreover have "store_step ?b (fst (Put ?b ''1/Cloudlet/b'' ''b=2''))" by (rule step_put)
  moreover have "store_step (fst (Put ?b ''1/Cloudlet/b'' ''b=2'')) demo_store'" unfolding demo_store'_def by (rule step_delete)
  ultimately show ?thesis
    by (intro rtranclp.rtrancl_into_rtrancl[OF rtranclp.rtrancl_into_rtrancl[OF rtranclp.rtrancl_refl]] conjI)
qed

theorem sync_caches_mirror_store_witness:
  "\<exists>c. map_of (caches (fold (syncCb 1 [] (\<lambda>_. demo_codec) False) (events_of 4 (st_events demo_store')) demo_sync)) ''Cloudlet'' = Some c \<and>
    cache_Get c ''b'' = Some (''b'', ''b=2'') \<and> cache_Get c ''a'' = None"
proof -
  have 1: "store_wf demo_store" "unused_watcher 4 demo_store" by code_simp+
  have 2: "batch demo_sync = []" "map_of (caches demo_sync) ''Cloudlet'' = Some InitCache" by code_simp+
  have "list_all (\<lambda>d. is_change d \<and> event_kind 1 (cb_Key d) = Some ''Cloudlet'' \<and> cb_Action d \<noteq> SyncDelete \<longrightarrow>
      map_option fst (unmarshal demo_codec (cb_Value d)) = Some (keyOf demo_codec (cb_Key d))) (events_of 4 (st_events demo_store'))"
    "list_all (\<lambda>a. list_all (\<lambda>b. keyOf demo_codec a = keyOf demo_codec b \<longrightarrow> a = b)
      (kind_keys 1 ''Cloudlet'' (events_of 4 (st_events demo_store')))) (kind_keys 1 ''Cloudlet'' (events_of 4 (st_events demo_store')))"
    by code_simp+
  then have 3: "codec_ok 1 ''Cloudlet'' demo_codec (events_of 4 (st_events demo_store'))"
    unfolding codec_ok_def list_all_iff inj_on_def by blast
  have d: "event_kind 1 ''1/Cloudlet/b'' = Some ''Cloudlet''" "unmarshal demo_codec ''b=2'' = Some (''b'', ''b=2'')"
    "view ''1/'' demo_store' ''1/Cloudlet/b'' = Some ''b=2''" by code_simp+
  have "map_of (db demo_store') = [''1/Cloudlet/b'' \<mapsto> \<lparr>md_val = ''b=2'', md_vers = 1, md_modRev = 3\<rparr>]"
    by (rule ext) (simp add: demo_store'_def demo_store_def Put_def Delete_def Sync_begin_def Let_def empty_store_def Start_def db_def)
  then have n: "\<not> (decoded 1 ''Cloudlet'' demo_codec (view ''1/'' demo_store') obj \<and> fst obj = ''a'')" for obj
    by (auto simp: decoded_def view_def demo_codec_def split: if_splits)
  obtain c where c: "map_of (caches (fold (syncCb 1 [] (\<lambda>_. demo_codec) False) (events_of 4 (st_events demo_store')) demo_sync)) ''Cloudlet'' = Some c"
      "\<And>k obj. cache_Get c k = Some obj \<longleftrightarrow> decoded 1 ''Cloudlet'' demo_codec (view ''1/'' demo_store') obj \<and> fst obj = k"
    using sync_caches_mirror_store[OF 1 demo_run 2, of 1 "\<lambda>_. demo_codec" "[]"] 3 by blast
  have "cache_Get c ''b'' = Some (''b'', ''b=2'')" using c(2) d unfolding decoded_def by force
  moreover have "cache_Get c ''a'' = None" using c(2) n by (metis not_Some_eq)
  ultimately show ?thesis using c(1) by blast
qed

subsection \<open>Callbacks\<close>

text \<open>Entries are stored under the keys of their objects.\<close>

definition cache_wf :: "('k, 'd) ObjCache \<Rightarrow> bool" where
  "cache_wf c \<longleftrightarrow> go_map (Objs c) \<and> list_all (\<lambda>(key, data). GetKeyVal (cd_Obj data) = key) (Objs c)"

text \<open>The operations of a cache; those that the store or a connection drives take what they decode.\<close>

datatype ('k, 'd) cache_op =
    OpUpdateMod 'k int "('k, 'd) obj option \<Rightarrow> ('k, 'd) obj \<times> bool"
  | OpDeleteCond "('k, 'd) obj" int "('k, 'd) obj \<Rightarrow> bool"
  | OpPrune "'k list"
  | OpFlush "('k, 'd) obj \<Rightarrow> int" int
  | OpSyncUpdate "('k, 'd) codec" string int
  | OpSyncDelete "('k, 'd) codec" string int
  | OpListStart
  | OpListEnd

primrec run_op :: "('k, 'd) cache_op \<Rightarrow> ('k, 'd) ObjCache \<Rightarrow> ('k, 'd) ObjCache \<times> ('k, 'd) cb_call list" where
  "run_op (OpUpdateMod key r f) c = UpdateModFunc key r f c"
| "run_op (OpDeleteCond obj r f) c = DeleteCondFunc obj r f c"
| "run_op (OpPrune ks) c = cache_Prune ks c"
| "run_op (OpFlush idOf n) c = cache_Flush idOf n c"
| "run_op (OpSyncUpdate cd v r) c = cache_SyncUpdate cd v r c"
| "run_op (OpSyncDelete cd key r) c = cache_SyncDelete cd key r c"
| "run_op OpListStart c = (cache_SyncListStart c, [])"
| "run_op OpListEnd c = cache_SyncListEnd c"

primrec run_ops :: "('k, 'd) cache_op list \<Rightarrow> ('k, 'd) ObjCache \<Rightarrow> ('k, 'd) ObjCache \<times> ('k, 'd) cb_call list" where
  "run_ops [] c = (c, [])"
| "run_ops (x # xs) c = (let (c1, calls1) = run_op x c; (c2, calls2) = run_ops xs c1 in (c2, calls1 @ calls2))"

text \<open>A modification keeps the key it was asked for.\<close>

primrec op_ok :: "('k, 'd) cache_op \<Rightarrow> bool" where
  "op_ok (OpUpdateMod key r f) = (\<forall>old. GetKeyVal (fst (f old)) = key)"
| "op_ok (OpDeleteCond obj r f) = True"
| "op_ok (OpPrune ks) = True"
| "op_ok (OpFlush idOf n) = True"
| "op_ok (OpSyncUpdate cd v r) = True"
| "op_ok (OpSyncDelete cd key r) = True"
| "op_ok OpListStart = True"
| "op_ok OpListEnd = True"

definition registered :: "nat \<Rightarrow> ('k, 'd) ObjCache \<Rightarrow> bool" where
  "registered cb c \<longleftrightarrow> filter (\<lambda>i. i = cb) (UpdatedCbs c) = [cb] \<and> filter (\<lambda>i. i = cb) (DeletedCbs c) = [cb]"

text \<open>
  What a component knows that only hears the calls of its callback \<open>cb\<close>: it stops (\<open>None\<close>) when a call disagrees with what it knows.
\<close>

definition follow :: "nat \<Rightarrow> ('k, 'd) cb_call \<Rightarrow> ('k \<rightharpoonup> ('k, 'd) obj) option \<Rightarrow> ('k \<rightharpoonup> ('k, 'd) obj) option" where
  "follow cb call = (\<lambda>known.
     case known of None \<Rightarrow> None
     | Some m \<Rightarrow>
         (case call of
            UpdatedCall i old new \<Rightarrow> if i \<noteq> cb then known else if m (GetKeyVal new) = old then Some (m(GetKeyVal new \<mapsto> new)) else None
          | DeletedCall i old \<Rightarrow> if i \<noteq> cb then known else if m (GetKeyVal old) = Some old then Some (m(GetKeyVal old := None)) else None
          | _ \<Rightarrow> known))"

definition is_for :: "nat \<Rightarrow> ('k, 'd) cb_call \<Rightarrow> bool" where
  "is_for cb call = (case call of UpdatedCall i _ _ \<Rightarrow> i = cb | DeletedCall i _ \<Rightarrow> i = cb | _ \<Rightarrow> False)"

lemma follow_other: "\<not> is_for cb call \<Longrightarrow> follow cb call m = m"
  by (cases call) (auto simp: is_for_def follow_def split: option.split)

lemma follow_filter: "fold (follow cb) calls m = fold (follow cb) (filter (is_for cb) calls) m"
  by (induction calls arbitrary: m) (simp_all add: follow_other)

lemma is_for_map:
  "filter (is_for cb) (map (\<lambda>i. UpdatedCall i x y) cbs) = map (\<lambda>i. UpdatedCall i x y) (filter (\<lambda>i. i = cb) cbs)"
  "filter (is_for cb) (map (\<lambda>i. DeletedCall i y) cbs) = map (\<lambda>i. DeletedCall i y) (filter (\<lambda>i. i = cb) cbs)"
  "filter (is_for cb) (map (\<lambda>i. NotifyCall i y n) cbs) = []" "filter (is_for cb) (map (\<lambda>i. UpdatedKeyCall i k) cbs) = []"
  "filter (is_for cb) (map (\<lambda>i. DeletedKeyCall i k) cbs) = []" "filter (is_for cb) (TriggerKeyWatchers c k) = []"
  by (induction cbs) (simp_all add: is_for_def TriggerKeyWatchers_def filter_map comp_def)

lemma follow_removals:
  assumes "registered cb c" "go_map R" "\<forall>(k, d) \<in> set R. m k = Some (cd_Obj d) \<and> fst (cd_Obj d) = k"
  shows "fold (follow cb) (concat (map (removal_calls c) R)) (Some m) = Some (\<lambda>k. if k \<in> set (keys R) then None else m k)"
  using assms(2,3)
proof (induction R arbitrary: m)
  case (Cons e R)
  obtain k d where e: "e = (k, d)" by (cases e)
  have "filter (is_for cb) (removal_calls c (k, d)) = [DeletedCall cb (cd_Obj d)]"
    using assms(1) by (simp add: removal_calls_def is_for_map registered_def)
  then have "fold (follow cb) (removal_calls c e) (Some m) = Some (m(k := None))"
    using Cons.prems follow_filter[of cb "removal_calls c (k, d)" "Some m"] by (simp add: e follow_def)
  moreover have "\<forall>(k', d') \<in> set R. (m(k := None)) k' = Some (cd_Obj d') \<and> fst (cd_Obj d') = k'"
    using Cons.prems by (force simp: e)
  moreover have "(\<lambda>x. if x \<in> set (keys R) then None else (m(k := None)) x) = (\<lambda>x. if x \<in> set (keys (e # R)) then None else m x)"
    by (auto simp: e fun_eq_iff)
  moreover have "go_map R" using Cons.prems(1) by simp
  ultimately show ?case using Cons.IH[of "m(k := None)"] by (simp only: list.map concat.simps fold_append comp_def)
qed simp

lemma map_of_filter_distinct:
  assumes "go_map xs"
  shows "map_of (filter P xs) k = (if k \<in> set (keys (filter (\<lambda>e. \<not> P e) xs)) then None else map_of xs k)"
proof (cases "map_of (filter P xs) k")
  case None
  then show ?thesis using assms by (cases "map_of xs k") (force simp: map_of_eq_None_iff)+
next
  case (Some v)
  then have "(k, v) \<in> set xs" "P (k, v)" by (auto dest!: map_of_SomeD)
  then show ?thesis using Some assms by (auto dest: eq_key_imp_eq_value)
qed

lemma follow_filtered:
  assumes "registered cb c" "cache_wf c" "Objs c' = filter P (Objs c)"
  shows "fold (follow cb) (concat (map (removal_calls c) (filter (\<lambda>e. \<not> P e) (Objs c)))) (Some (cache_Get c)) = Some (cache_Get c')"
    and "cache_wf c'"
proof -
  have "\<forall>(k, d) \<in> set (filter (\<lambda>e. \<not> P e) (Objs c)). cache_Get c k = Some (cd_Obj d) \<and> fst (cd_Obj d) = k"
    using assms(2) by (auto simp: cache_wf_def list_all_iff cache_Get_Objs)
  moreover have "cache_Get c' = (\<lambda>k. if k \<in> set (keys (filter (\<lambda>e. \<not> P e) (Objs c))) then None else cache_Get c k)"
    using assms(2) by (simp add: cache_wf_def cache_Get_Objs assms(3) map_of_filter_distinct fun_eq_iff del: set_map set_filter)
  ultimately
  show "fold (follow cb) (concat (map (removal_calls c) (filter (\<lambda>e. \<not> P e) (Objs c)))) (Some (cache_Get c)) = Some (cache_Get c')"
    using follow_removals[OF assms(1), of "filter (\<lambda>e. \<not> P e) (Objs c)" "cache_Get c"] assms(2)
    by (simp only: cache_wf_def distinct_map_filter simp_thms)
  show "cache_wf c'" using assms(2) by (auto simp: cache_wf_def assms(3) distinct_map_filter list_all_iff)
qed

definition followed :: "nat \<Rightarrow> ('k, 'd) ObjCache \<Rightarrow> ('k, 'd) ObjCache \<times> ('k, 'd) cb_call list \<Rightarrow> bool" where
  "followed cb c r \<longleftrightarrow>
     fold (follow cb) (snd r) (Some (cache_Get c)) = Some (cache_Get (fst r)) \<and> cache_wf (fst r) \<and> registered cb (fst r)"

lemma followed_refl: "cache_wf c \<Longrightarrow> registered cb c \<Longrightarrow> followed cb c (c, [])"
  by (simp add: followed_def)

lemma cache_wf_alt: "cache_wf c \<longleftrightarrow> go_map (Objs c) \<and> (\<forall>k d. map_of (Objs c) k = Some d \<longrightarrow> fst (cd_Obj d) = k)"
  by (auto simp: cache_wf_def list_all_iff)

lemma cache_wf_update: "cache_wf c \<Longrightarrow> fst (cd_Obj dat) = k \<Longrightarrow> cache_wf (c\<lparr>Objs := AList.update k dat (Objs c)\<rparr>)"
  unfolding cache_wf_alt by (simp add: update_conv' del: map_of_eq_Some_iff)

lemma cache_wf_delete: "cache_wf c \<Longrightarrow> cache_wf (c\<lparr>Objs := AList.delete k (Objs c)\<rparr>)"
  unfolding cache_wf_alt by (simp add: delete_conv' del: map_of_eq_Some_iff)

lemma followed_UpdateModFunc:
  assumes "cache_wf c" "registered cb c" "fst (fst (f (map_option cd_Obj (map_of (Objs c) key)))) = key"
  shows "followed cb c (UpdateModFunc key r f c)"
proof -
  let ?old = "map_option cd_Obj (map_of (Objs c) key)"
  obtain new changed where f: "f ?old = (new, changed)" by (cases "f ?old")
  have k: "fst new = key" using assms(3) f by simp
  let ?c = "c\<lparr>Objs := AList.update (fst new) \<lparr>cd_Obj = new, cd_ModRev = r\<rparr> (Objs c)\<rparr>"
  show ?thesis
  proof (cases changed)
    case True
    let ?calls = "snd (UpdateModFunc key r f c)"
    have "filter (is_for cb) ?calls = [UpdatedCall cb ?old new]"
      using assms(2) f True by (simp add: UpdateModFunc_def Let_def is_for_map rev_filter[symmetric] registered_def)
    then have "fold (follow cb) ?calls (Some (cache_Get c)) = Some ((cache_Get c)(key \<mapsto> new))"
      using follow_filter[of cb ?calls "Some (cache_Get c)"] k by (simp add: follow_def cache_Get_Objs)
    moreover have "cache_Get ?c = (cache_Get c)(key \<mapsto> new)" using k by (simp add: cache_Get_Objs update_conv' fun_eq_iff)
    moreover have "cache_wf ?c" using cache_wf_update[OF assms(1), of "\<lparr>cd_Obj = new, cd_ModRev = r\<rparr>"] by simp
    moreover have "fst (UpdateModFunc key r f c) = ?c" using f True by (simp add: UpdateModFunc_def Let_def)
    ultimately show ?thesis using assms(2) by (simp add: followed_def registered_def)
  next
    case False
    then show ?thesis using f followed_refl[OF assms(1,2)] by (simp add: UpdateModFunc_def Let_def)
  qed
qed

lemma followed_DeleteCondFunc:
  assumes "cache_wf c" "registered cb c"
  shows "followed cb c (DeleteCondFunc obj r f c)"
proof -
  let ?key = "fst obj" and ?r = "DeleteCondFunc obj r f c"
  let ?c = "c\<lparr>Objs := AList.delete ?key (Objs c)\<rparr>"
  have wf: "cache_wf ?c" "registered cb ?c" using cache_wf_delete assms by (auto simp: registered_def)
  have get: "cache_Get ?c = (cache_Get c)(?key := None)" by (simp add: cache_Get_Objs delete_conv' fun_eq_iff)
  show ?thesis
  proof (cases "map_of (Objs c) ?key")
    case None
    then have "fst ?r = ?c" "filter (is_for cb) (snd ?r) = []" "cache_Get c ?key = None"
      by (simp_all add: DeleteCondFunc_def Let_def is_for_map cache_Get_Objs del: map_of_eq_None_keys)
    then show ?thesis using follow_filter[of cb "snd ?r" "Some (cache_Get c)"] wf get
      by (simp add: followed_def fun_upd_idem)
  next
    case (Some dat)
    then have o: "cache_Get c ?key = Some (cd_Obj dat)" "fst (cd_Obj dat) = ?key"
      using assms(1) map_of_SomeD[OF Some] by (auto simp: cache_Get_Objs cache_wf_def list_all_iff)
    show ?thesis
    proof (cases "f (cd_Obj dat)")
      case True
      then have "fst ?r = ?c" "filter (is_for cb) (snd ?r) = [DeletedCall cb (cd_Obj dat)]"
        using Some assms(2) by (simp_all add: DeleteCondFunc_def Let_def is_for_map registered_def del: map_of_eq_Some_iff)
      then show ?thesis using follow_filter[of cb "snd ?r" "Some (cache_Get c)"] wf get o
        by (simp add: followed_def follow_def)
    next
      case False
      then show ?thesis using Some followed_refl[OF assms] by (simp add: DeleteCondFunc_def Let_def del: map_of_eq_Some_iff)
    qed
  qed
qed

lemma followed_ListKeys: "followed cb c (c', calls) \<Longrightarrow> followed cb c (c'\<lparr>ListKeys := l\<rparr>, calls)"
proof -
  have "cache_Get (c'\<lparr>ListKeys := l\<rparr>) = cache_Get c'" by (simp add: cache_Get_Objs fun_eq_iff)
  moreover assume "followed cb c (c', calls)"
  ultimately show ?thesis by (simp add: followed_def cache_wf_def registered_def)
qed

lemma followed_filter:
  assumes "cache_wf c" "registered cb c" "Objs c' = filter P (Objs c)" "registered cb c'"
  shows "followed cb c (c', concat (map (removal_calls c) (filter (\<lambda>e. \<not> P e) (Objs c))))"
  using follow_filtered[OF assms(2,1,3)] assms(4) by (simp add: followed_def)

lemma followed_op:
  assumes "cache_wf c" "registered cb c" "op_ok x"
  shows "followed cb c (run_op x c)"
proof (cases x)
  case (OpUpdateMod key r f)
  then show ?thesis using followed_UpdateModFunc[OF assms(1,2)] assms(3) by simp
next
  case (OpDeleteCond obj r f)
  then show ?thesis using followed_DeleteCondFunc[OF assms(1,2)] by simp
next
  case (OpPrune ks)
  have "DeletedCbs c \<noteq> []" using assms(2) by (auto simp: registered_def)
  moreover have "(\<lambda>(key, _). key \<notin> set ks) = (\<lambda>e. fst e \<notin> set ks)" by auto
  ultimately show ?thesis
    using followed_filter[OF assms(1,2), of "fst (cache_Prune ks c)" "\<lambda>e. fst e \<in> set ks"] assms(2)
    by (simp add: OpPrune cache_Prune_def registered_def case_prod_beta')
next
  case (OpFlush idOf n)
  then show ?thesis
    using followed_filter[OF assms(1,2), of "fst (cache_Flush idOf n c)" "\<lambda>(_, val). \<not> FlushAll c \<and> idOf (cd_Obj val) \<noteq> n"] assms(2)
    by (simp add: cache_Flush_def Let_def registered_def case_prod_beta)
next
  case (OpSyncUpdate cd v r)
  have "followed cb c (cache_Update obj r c)" for obj
    unfolding cache_Update_def by (rule followed_UpdateModFunc[OF assms(1,2)]) simp
  then have "followed cb c (c'\<lparr>ListKeys := l\<rparr>, calls)" if "cache_Update obj r c = (c', calls)" for obj c' calls l
    using that followed_ListKeys by metis
  then show ?thesis using followed_refl[OF assms(1,2)]
    by (simp add: OpSyncUpdate cache_SyncUpdate_def split: option.split prod.split)
next
  case (OpSyncDelete cd key r)
  then show ?thesis using followed_DeleteCondFunc[OF assms(1,2)] by (simp add: cache_SyncDelete_def cache_Delete_def)
next
  case OpListStart
  then show ?thesis using followed_ListKeys[OF followed_refl[OF assms(1,2)]] by (simp add: cache_SyncListStart_def)
next
  case OpListEnd
  then show ?thesis
    using followed_filter[OF assms(1,2), of "fst (cache_SyncListEnd c)"
        "\<lambda>e. fst e \<in> set (case ListKeys c of None \<Rightarrow> [] | Some ks \<Rightarrow> ks)"] assms(2)
    by (simp add: cache_SyncListEnd_def Let_def registered_def case_prod_beta')
qed

text \<open>
  (C16) A component that is registered for the updates and the removals of a cache, and only hears its callbacks, always knows the content of
  the cache: whatever the operations (updates, conditional and unconditional deletions, prunes, flushes, synchronization), the reported old
  values are the ones it knows, no change goes unreported and nothing else is reported.
\<close>

theorem callbacks_report_every_change:
  assumes "cache_wf c" "registered cb c" "list_all op_ok ops"
  shows "fold (follow cb) (snd (run_ops ops c)) (Some (cache_Get c)) = Some (cache_Get (fst (run_ops ops c)))"
  using assms
proof (induction ops arbitrary: c)
  case (Cons x xs)
  obtain c1 calls1 where 1: "run_op x c = (c1, calls1)" by (cases "run_op x c")
  obtain c2 calls2 where 2: "run_ops xs c1 = (c2, calls2)" by (cases "run_ops xs c1")
  have "followed cb c (c1, calls1)" using followed_op[OF Cons.prems(1,2), of x] Cons.prems(3) 1 by simp
  then show ?case using Cons.IH[of c1] Cons.prems(3) 1 2 by (simp add: followed_def)
qed simp

theorem callbacks_report_every_change_witness:
  "let c = AddDeletedCb 3 (AddUpdatedCb 3 (InitCache :: (string, nat) ObjCache));
       ops = [OpUpdateMod ''a'' 1 (\<lambda>_. ((''a'', 5), True)), OpUpdateMod ''b'' 2 (\<lambda>_. ((''b'', 6), True)), OpPrune [''b''],
              OpUpdateMod ''b'' 3 (\<lambda>old. ((''b'', case old of None \<Rightarrow> 0 | Some (_, n) \<Rightarrow> n + 1), True))]
   in fold (follow 3) (snd (run_ops ops c)) (Some (cache_Get c)) = Some (cache_Get (fst (run_ops ops c)))"
  unfolding Let_def
  by (rule callbacks_report_every_change)
    (simp_all add: cache_wf_def registered_def InitCache_def AddDeletedCb_def AddUpdatedCb_def)

text \<open>A prune that removes an object somebody only watches by its key tells nobody; a deletion does.\<close>

theorem prune_forgets_watchers:
  "let c = WatchKey (fst obj) w (fst (cache_Update obj r InitCache))
   in cache_Prune [] c = (c\<lparr>Objs := []\<rparr>, []) \<and> WatcherCall w \<in> set (snd (cache_Delete obj r c))"
  by (simp add: Let_def cache_Prune_def cache_Delete_def DeleteCondFunc_def cache_Update_def UpdateModFunc_def WatchKey_def InitCache_def
      TriggerKeyWatchers_def get_or_def)

end
