(* ===== verification/Notify.thy ===== *)
theory Notify
  imports ObjCache
begin

text \<open>
  The notify framework (\<^verbatim>\<open>pkg/notify\<close>) keeps the caches of a downstream service in step with those of an upstream one. The send and
  receive code is generated per kind of object (\<^verbatim>\<open>vmpool.notify.go\<close>); here all kinds share a type of keys and of data. The state of one
  connection joins both ends: the sender's caches, the notify callbacks that are due, the send loop of \<^verbatim>\<open>notify_sendrecv.go\<close> with its
  position, the stream, and the receiver. Its steps interleave changes of the sender's caches with all of these.
\<close>

subsection \<open>Sending one kind of object\<close>

record SendContext =
  sc_modRev :: int
  sc_forceDelete :: bool

record ('k, 'd) ObjSend =
  snd_Name :: string
  snd_handler :: "('k, 'd) ObjCache"
  snd_Keys :: "('k, SendContext) gomap"
  keysToSend :: "('k, SendContext) gomap"
  SendCount :: nat

datatype ('k, 'd) Notice =
    NoticeUpdate string "('k, 'd) obj" int
  | NoticeDelete string "('k, 'd) obj" int
  | NoticeSendAllEnd

definition NewSend :: "string \<Rightarrow> ('k, 'd) ObjCache \<Rightarrow> ('k, 'd) ObjSend" where
  "NewSend name handler = \<lparr>snd_Name = name, snd_handler = handler, snd_Keys = [], keysToSend = [], SendCount = 0\<rparr>"

definition send_updateInternal :: "'k \<Rightarrow> int \<Rightarrow> bool \<Rightarrow> ('k, 'd) ObjSend \<Rightarrow> ('k, 'd) ObjSend" where
  "send_updateInternal key modRev forceDelete s =
     s\<lparr>snd_Keys := AList.update key \<lparr>sc_modRev = modRev, sc_forceDelete = forceDelete\<rparr> (snd_Keys s)\<rparr>"

text \<open>What the connection has negotiated: the kinds the remote side wants and which objects of a kind pass the filter.\<close>

record 'k SendFilter =
  remoteWanted :: "string list"
  updateOk :: "string \<Rightarrow> 'k \<Rightarrow> bool"

definition isRemoteWanted :: "'k SendFilter \<Rightarrow> string \<Rightarrow> bool" where
  "isRemoteWanted f name \<longleftrightarrow> name \<in> set (remoteWanted f)"

definition send_UpdateAll :: "'k SendFilter \<Rightarrow> ('k, 'd) ObjSend \<Rightarrow> ('k, 'd) ObjSend" where
  "send_UpdateAll f s =
     (if \<not> isRemoteWanted f (snd_Name s) then s
      else fold (\<lambda>(obj, modRev) s. if \<not> updateOk f (snd_Name s) (GetKeyVal obj) then s
                  else s\<lparr>snd_Keys := AList.update (GetKeyVal obj) \<lparr>sc_modRev = modRev, sc_forceDelete = False\<rparr> (snd_Keys s)\<rparr>)
             (GetAllLocked (snd_handler s)) s)"

text \<open>The callback of the cache; the second result says that the send thread is to be woken up.\<close>

definition send_Update :: "'k SendFilter \<Rightarrow> ('k, 'd) obj \<Rightarrow> int \<Rightarrow> ('k, 'd) ObjSend \<Rightarrow> ('k, 'd) ObjSend \<times> bool" where
  "send_Update f obj modRev s =
     (if \<not> isRemoteWanted f (snd_Name s) then (s, False)
      else if \<not> updateOk f (snd_Name s) (GetKeyVal obj) then (s, False)
      else (send_updateInternal (GetKeyVal obj) modRev False s, True))"

definition send_ForceDelete :: "'k \<Rightarrow> int \<Rightarrow> ('k, 'd) ObjSend \<Rightarrow> ('k, 'd) ObjSend \<times> bool" where
  "send_ForceDelete key modRev s = (send_updateInternal key modRev True s, True)"

definition send_PrepData :: "('k, 'd) ObjSend \<Rightarrow> ('k, 'd) ObjSend \<times> bool" where
  "send_PrepData s = (if snd_Keys s \<noteq> [] then (s\<lparr>keysToSend := snd_Keys s, snd_Keys := []\<rparr>, True) else (s, False))"

text \<open>\<^verbatim>\<open>Send\<close> takes the keys, then looks up and sends one after the other, in any order.\<close>

definition send_take :: "('k, 'd) ObjSend \<Rightarrow> ('k, 'd) ObjSend \<times> ('k, SendContext) gomap" where
  "send_take s = (s\<lparr>keysToSend := []\<rparr>, keysToSend s)"

definition send_notice :: "'d \<Rightarrow> ('k, 'd) ObjSend \<Rightarrow> 'k \<times> SendContext \<Rightarrow> ('k, 'd) Notice" where
  "send_notice zero s kc =
     (case kc of (key, sendContext) \<Rightarrow>
        case GetWithRev (snd_handler s) key of
          Some (obj, modRev) \<Rightarrow>
            if \<not> sc_forceDelete sendContext then NoticeUpdate (snd_Name s) obj modRev
            else NoticeDelete (snd_Name s) (key, zero) (sc_modRev sendContext)
        | None \<Rightarrow> NoticeDelete (snd_Name s) (key, zero) (sc_modRev sendContext))"

subsection \<open>Receiving one kind of object\<close>

datatype Cleanup = CleanupPrune | CleanupFlush

record ('k, 'd) ObjRecv =
  rcv_handler :: "('k, 'd) ObjCache"
  sendAllKeys :: "'k list option"
  RecvCount :: nat

definition RecvAllStart :: "('k, 'd) ObjRecv \<Rightarrow> ('k, 'd) ObjRecv" where
  "RecvAllStart r = r\<lparr>sendAllKeys := Some []\<rparr>"

definition RecvAllEnd :: "Cleanup \<Rightarrow> ('k, 'd) ObjRecv \<Rightarrow> ('k, 'd) ObjRecv" where
  "RecvAllEnd cleanup r =
     (let validKeys = (case sendAllKeys r of None \<Rightarrow> [] | Some ks \<Rightarrow> ks);
          r = r\<lparr>sendAllKeys := None\<rparr>
      in if cleanup = CleanupPrune then r\<lparr>rcv_handler := fst (cache_Prune validKeys (rcv_handler r))\<rparr> else r)"

definition recv_Update :: "('k, 'd) obj \<Rightarrow> int \<Rightarrow> ('k, 'd) ObjRecv \<Rightarrow> ('k, 'd) ObjRecv" where
  "recv_Update obj modRev r =
     r\<lparr>rcv_handler := fst (cache_Update obj modRev (rcv_handler r)),
       sendAllKeys := map_option (List.insert (GetKeyVal obj)) (sendAllKeys r), RecvCount := RecvCount r + 1\<rparr>"

definition recv_Delete :: "('k, 'd) obj \<Rightarrow> int \<Rightarrow> ('k, 'd) ObjRecv \<Rightarrow> ('k, 'd) ObjRecv" where
  "recv_Delete obj modRev r = r\<lparr>rcv_handler := fst (cache_Delete obj modRev (rcv_handler r)), RecvCount := RecvCount r + 1\<rparr>"

text \<open>One message at the receiving end: the receivers by kind, and whether the end of the initial send is still to come.\<close>

definition recv_notice ::
  "Cleanup \<Rightarrow> ('k, 'd) Notice \<Rightarrow> (string, ('k, 'd) ObjRecv) gomap \<times> bool \<Rightarrow> (string, ('k, 'd) ObjRecv) gomap \<times> bool" where
  "recv_notice cleanup n rs =
     (case rs of (recvmap, recvAll) \<Rightarrow>
        case n of
          NoticeSendAllEnd \<Rightarrow>
            if recvAll then (map (\<lambda>(name, r). (name, RecvAllEnd cleanup r)) recvmap, False) else rs
        | NoticeUpdate name obj modRev \<Rightarrow>
            (case map_of recvmap name of None \<Rightarrow> rs
             | Some r \<Rightarrow> (AList.update name (recv_Update obj modRev r) recvmap, recvAll))
        | NoticeDelete name obj modRev \<Rightarrow>
            (case map_of recvmap name of None \<Rightarrow> rs
             | Some r \<Rightarrow> (AList.update name (recv_Delete obj modRev r) recvmap, recvAll)))"

subsection \<open>The connection\<close>

text \<open>Where the send loop stands: at its select, before \<open>UpdateAll\<close> or \<open>PrepData\<close> of a kind, before or within \<open>Send\<close> of a kind, after the last one.\<close>

datatype 'k loop_pc = AtSelect | AtUpdateAll nat | AtPrepData nat | AtTake nat | AtSend nat "('k, SendContext) gomap" | AtEnd

record ('k, 'd) SendRecv =
  sendlist :: "('k, 'd) ObjSend list"
  signal :: bool
  sr_sendAllEnd :: bool
  manualSendAllEnd :: bool
  pc :: "'k loop_pc"
  sendAll :: bool
  sampledEnd :: bool
  hasData :: bool
  due :: "(nat \<times> ('k, 'd) obj \<times> int) list"
  wakers :: nat
  stream :: "('k, 'd) Notice list"
  receiver :: "(string, ('k, 'd) ObjRecv) gomap \<times> bool"

definition wakeup :: "('k, 'd) SendRecv \<Rightarrow> ('k, 'd) SendRecv" where
  "wakeup s = s\<lparr>signal := True\<rparr>"

definition triggerSendAllEnd :: "('k, 'd) SendRecv \<Rightarrow> ('k, 'd) SendRecv" where
  "triggerSendAllEnd s = (if manualSendAllEnd s then wakeup (s\<lparr>sr_sendAllEnd := True, manualSendAllEnd := False\<rparr>) else s)"

text \<open>
  One step of the send loop; \<open>None\<close> while it waits in its select. \<open>jj\<close> is the key that the range over the map visits next.
\<close>

definition loop_step :: "'k SendFilter \<Rightarrow> 'd \<Rightarrow> nat \<Rightarrow> ('k, 'd) SendRecv \<Rightarrow> ('k, 'd) SendRecv option" where
  "loop_step f zero jj s =
     (case pc s of
        AtSelect \<Rightarrow>
          if signal s then Some (s\<lparr>signal := False, sampledEnd := sr_sendAllEnd s, hasData := False, pc := AtUpdateAll (length (sendlist s))\<rparr>)
          else None
      | AtUpdateAll 0 \<Rightarrow>
          Some (s\<lparr>pc := if \<not> hasData s \<and> \<not> sendAll s \<and> \<not> sampledEnd s then AtSelect else AtTake 0\<rparr>)
      | AtUpdateAll (Suc ii) \<Rightarrow>
          Some (s\<lparr>sendlist := if sendAll s then (sendlist s)[ii := send_UpdateAll f (sendlist s ! ii)] else sendlist s, pc := AtPrepData ii\<rparr>)
      | AtPrepData ii \<Rightarrow>
          (let (snd', has) = send_PrepData (sendlist s ! ii)
           in Some (s\<lparr>sendlist := (sendlist s)[ii := snd'], hasData := (hasData s \<or> has), pc := AtUpdateAll ii\<rparr>))
      | AtTake ii \<Rightarrow>
          if ii < length (sendlist s) then
            let (snd', todo) = send_take (sendlist s ! ii) in Some (s\<lparr>sendlist := (sendlist s)[ii := snd'], pc := AtSend ii todo\<rparr>)
          else Some (s\<lparr>pc := AtEnd\<rparr>)
      | AtSend ii todo \<Rightarrow>
          if todo = [] then Some (s\<lparr>pc := AtTake (ii + 1)\<rparr>)
          else if jj < length todo then
            Some (s\<lparr>sendlist := (sendlist s)[ii := (sendlist s ! ii)\<lparr>SendCount := SendCount (sendlist s ! ii) + 1\<rparr>],
                    stream := stream s @ [send_notice zero (sendlist s ! ii) (todo ! jj)], pc := AtSend ii (take jj todo @ drop (jj + 1) todo)\<rparr>)
          else None
      | AtEnd \<Rightarrow>
          let s = (if sampledEnd s then s\<lparr>sr_sendAllEnd := False, stream := stream s @ [NoticeSendAllEnd]\<rparr> else s)
          in Some (s\<lparr>sendAll := False, pc := AtSelect\<rparr>))"

text \<open>
  What can happen on a connection: a change of a sender's cache, a due callback (it adds the key, and wakes the loop in a step of its
  own), a step of the loop, the arrival of a message, the manual end of the initial send. Callback 0 of a cache is that of the connection.
\<close>

datatype ('k, 'd) event = Change nat "('k, 'd) cache_op" | Notified nat | Wake | Loop nat | Deliver | Trigger

definition due_calls :: "nat \<Rightarrow> ('k, 'd) cb_call list \<Rightarrow> (nat \<times> ('k, 'd) obj \<times> int) list" where
  "due_calls ii calls = concat (map (\<lambda>call. case call of NotifyCall cb obj modRev \<Rightarrow> if cb = 0 then [(ii, obj, modRev)] else [] | _ \<Rightarrow> []) calls)"

definition happen :: "'k SendFilter \<Rightarrow> 'd \<Rightarrow> ('k, 'd) event \<Rightarrow> ('k, 'd) SendRecv \<Rightarrow> ('k, 'd) SendRecv option" where
  "happen f zero e s =
     (case e of
        Change ii x \<Rightarrow>
          if ii < length (sendlist s) then
            let (c, calls) = run_op x (snd_handler (sendlist s ! ii))
            in Some (s\<lparr>sendlist := (sendlist s)[ii := (sendlist s ! ii)\<lparr>snd_handler := c\<rparr>], due := due s @ due_calls ii calls\<rparr>)
          else None
      | Notified jj \<Rightarrow>
          if jj < length (due s) then
            let (ii, obj, modRev) = due s ! jj;
                (snd', woken) = send_Update f obj modRev (sendlist s ! ii)
            in Some (s\<lparr>sendlist := (sendlist s)[ii := snd'], due := take jj (due s) @ drop (jj + 1) (due s),
                       wakers := wakers s + (if woken then 1 else 0)\<rparr>)
          else None
      | Wake \<Rightarrow> if 0 < wakers s then Some (wakeup (s\<lparr>wakers := wakers s - 1\<rparr>)) else None
      | Loop jj \<Rightarrow> loop_step f zero jj s
      | Deliver \<Rightarrow>
          (case stream s of [] \<Rightarrow> None
           | n # ns \<Rightarrow> Some (s\<lparr>stream := ns, receiver := recv_notice CleanupPrune n (receiver s)\<rparr>))
      | Trigger \<Rightarrow> Some (triggerSendAllEnd s))"

text \<open>A new connection: what the receiver's caches hold may be left over from an earlier one.\<close>

definition start :: "bool \<Rightarrow> (string \<times> ('k, 'd) ObjCache) list \<Rightarrow> (string \<times> ('k, 'd) ObjCache) list \<Rightarrow> ('k, 'd) SendRecv" where
  "start manual senders receivers =
     \<lparr>sendlist = map (\<lambda>(name, c). NewSend name c) senders, signal = True, sr_sendAllEnd = (\<not> manual), manualSendAllEnd = manual,
      pc = AtSelect, sendAll = True, sampledEnd = False, hasData = False, due = [], wakers = 0, stream = [],
      receiver = (map (\<lambda>(name, c). (name, RecvAllStart \<lparr>rcv_handler = c, sendAllKeys = None, RecvCount = 0\<rparr>)) receivers, True)\<rparr>"

subsection \<open>Changes of a cache are notified\<close>

declare split_paired_All [simp del] split_paired_Ex [simp del]

lemma GetWithRev_cong: "map_of (Objs c) k = map_of (Objs c') k \<Longrightarrow> GetWithRev c k = GetWithRev c' k"
  by (simp add: GetWithRev_def)

lemma GetWithRev_key: "cache_wf c \<Longrightarrow> GetWithRev c k = Some (obj, modRev) \<Longrightarrow> fst obj = k"
  unfolding cache_wf_alt GetWithRev_def by (auto simp del: map_of_eq_Some_iff)

lemma GetWithRev_Update: "GetWithRev (fst (cache_Update obj r c)) k = (if k = fst obj then Some (obj, r) else GetWithRev c k)"
  by (simp add: GetWithRev_def UpdateModFunc_Objs update_conv')

lemma GetWithRev_Delete: "GetWithRev (fst (cache_Delete obj r c)) k = (if k = fst obj then None else GetWithRev c k)"
  by (simp add: GetWithRev_def DeleteCondFunc_Objs delete_conv')

lemma GetWithRev_Prune: "GetWithRev (fst (cache_Prune ks c)) k = (if k \<in> set ks then GetWithRev c k else None)"
  by (simp add: GetWithRev_def cache_Prune_def map_of_filter_fst)

definition notifies :: "('k, 'd) ObjCache \<Rightarrow> ('k, 'd) ObjCache \<times> ('k, 'd) cb_call list \<Rightarrow> bool" where
  "notifies c r \<longleftrightarrow> cache_wf (fst r) \<and> NotifyCbs (fst r) = NotifyCbs c \<and>
     (\<forall>k. GetWithRev (fst r) k \<noteq> GetWithRev c k \<longrightarrow> (\<exists>obj modRev. NotifyCall 0 obj modRev \<in> set (snd r) \<and> fst obj = k))"

lemma notifies_refl: "cache_wf c \<Longrightarrow> notifies c (c, [])"
  by (simp add: notifies_def)

lemma notifies_ListKeys: "notifies c (c', calls) \<Longrightarrow> notifies c (c'\<lparr>ListKeys := l\<rparr>, calls)"
  by (simp add: notifies_def cache_wf_def GetWithRev_def)

lemma notifies_UpdateModFunc:
  assumes "cache_wf c" "0 \<in> set (NotifyCbs c)" "fst (fst (f (map_option cd_Obj (map_of (Objs c) key)))) = key"
  shows "notifies c (UpdateModFunc key r f c)"
proof -
  obtain new changed where f: "f (map_option cd_Obj (map_of (Objs c) key)) = (new, changed)" by (meson surj_pair)
  have k: "fst new = key" using assms(3) f by simp
  show ?thesis
  proof (cases changed)
    case True
    let ?c = "c\<lparr>Objs := AList.update (fst new) \<lparr>cd_Obj = new, cd_ModRev = r\<rparr> (Objs c)\<rparr>"
    have "fst (UpdateModFunc key r f c) = ?c" "NotifyCall 0 new r \<in> set (snd (UpdateModFunc key r f c))"
      using f True assms(2) by (simp_all add: UpdateModFunc_def Let_def)
    moreover have "cache_wf ?c" using cache_wf_update[OF assms(1), of "\<lparr>cd_Obj = new, cd_ModRev = r\<rparr>"] by simp
    moreover have "GetWithRev ?c k = GetWithRev c k" if "k \<noteq> fst new" for k
      by (rule GetWithRev_cong) (use that in \<open>simp add: update_conv'\<close>)
    ultimately show ?thesis unfolding notifies_def by (simp del: split_paired_Ex) metis
  next
    case False
    then show ?thesis using f notifies_refl[OF assms(1)] by (simp add: UpdateModFunc_def Let_def)
  qed
qed

lemma notifies_DeleteCondFunc:
  assumes "cache_wf c" "0 \<in> set (NotifyCbs c)"
  shows "notifies c (DeleteCondFunc obj r f c)"
proof (cases "\<exists>dat. map_of (Objs c) (fst obj) = Some dat \<and> \<not> f (cd_Obj dat)")
  case True
  then show ?thesis using notifies_refl[OF assms(1)] by (auto simp: DeleteCondFunc_def Let_def simp del: map_of_eq_Some_iff)
next
  case False
  let ?r = "DeleteCondFunc obj r f c" and ?c = "c\<lparr>Objs := AList.delete (fst obj) (Objs c)\<rparr>"
  have c: "fst ?r = ?c" using False by (auto simp: DeleteCondFunc_def Let_def split: option.split simp del: map_of_eq_Some_iff)
  have "\<exists>o' modRev. NotifyCall 0 o' modRev \<in> set (snd ?r) \<and> fst o' = fst obj" if "map_of (Objs c) (fst obj) = Some dat" for dat
  proof -
    have "NotifyCall 0 (cd_Obj dat) r \<in> set (snd ?r)"
      using False that assms(2) by (auto simp: DeleteCondFunc_def Let_def simp del: map_of_eq_Some_iff)
    moreover have "fst (cd_Obj dat) = fst obj" using assms(1) that by (simp add: cache_wf_alt del: map_of_eq_Some_iff)
    ultimately show ?thesis by blast
  qed
  moreover have "GetWithRev ?c k = GetWithRev c k" if "k \<noteq> fst obj \<or> map_of (Objs c) (fst obj) = None" for k
    by (rule GetWithRev_cong) (use that in \<open>auto simp: delete_conv' simp del: map_of_eq_None_keys\<close>)
  moreover have "cache_wf ?c" using cache_wf_delete[OF assms(1)] .
  moreover have "NotifyCbs ?c = NotifyCbs c" by simp
  ultimately show ?thesis unfolding notifies_def c by (metis option.exhaust)
qed

lemma notifies_filter:
  assumes "cache_wf c" "0 \<in> set (NotifyCbs c)" "Objs c' = filter P (Objs c)" "NotifyCbs c' = NotifyCbs c"
  shows "notifies c (c', concat (map (removal_calls c) (filter (\<lambda>e. \<not> P e) (Objs c))))"
proof -
  let ?calls = "concat (map (removal_calls c) (filter (\<lambda>e. \<not> P e) (Objs c)))"
  have "cache_wf c'" using assms(1) by (auto simp: cache_wf_def assms(3) distinct_map_filter list_all_iff)
  moreover have "\<exists>obj modRev. NotifyCall 0 obj modRev \<in> set ?calls \<and> fst obj = k" if "GetWithRev c' k \<noteq> GetWithRev c k" for k
  proof -
    have "map_of (filter P (Objs c)) k \<noteq> map_of (Objs c) k" using that by (auto simp: GetWithRev_def assms(3))
    then have "k \<in> set (keys (filter (\<lambda>e. \<not> P e) (Objs c)))"
      using map_of_filter_distinct[of "Objs c" P k] assms(1) by (auto simp: cache_wf_def split: if_splits)
    then obtain d where d: "(k, d) \<in> set (filter (\<lambda>e. \<not> P e) (Objs c))" by auto
    then have "NotifyCall 0 (cd_Obj d) (cd_ModRev d) \<in> set (removal_calls c (k, d))" "fst (cd_Obj d) = k"
      using assms(1,2) by (auto simp: removal_calls_def cache_wf_def list_all_iff)
    moreover from this have "NotifyCall 0 (cd_Obj d) (cd_ModRev d) \<in> set ?calls"
      using d by (auto simp only: set_concat set_map UN_iff)
    ultimately show ?thesis by blast
  qed
  ultimately show ?thesis using assms(4) by (simp add: notifies_def)
qed

lemma notifies_op:
  assumes "cache_wf c" "0 \<in> set (NotifyCbs c)" "op_ok x"
  shows "notifies c (run_op x c)"
proof (cases x)
  case (OpUpdateMod key r f)
  then show ?thesis using notifies_UpdateModFunc[OF assms(1,2)] assms(3) by simp
next
  case (OpDeleteCond obj r f)
  then show ?thesis using notifies_DeleteCondFunc[OF assms(1,2)] by simp
next
  case (OpPrune ks)
  then show ?thesis using notifies_filter[OF assms(1,2), of "fst (cache_Prune ks c)" "\<lambda>e. fst e \<in> set ks"] assms(2)
    by (auto simp add: cache_Prune_def case_prod_beta')
next
  case (OpFlush idOf n)
  then show ?thesis
    using notifies_filter[OF assms(1,2), of "fst (cache_Flush idOf n c)" "\<lambda>(_, val). \<not> FlushAll c \<and> idOf (cd_Obj val) \<noteq> n"]
    by (simp add: cache_Flush_def Let_def case_prod_beta)
next
  case (OpSyncUpdate cd v r)
  have "notifies c (cache_Update obj r c)" for obj
    unfolding cache_Update_def by (rule notifies_UpdateModFunc[OF assms(1,2)]) simp
  then have "notifies c (c'\<lparr>ListKeys := l\<rparr>, calls)" if "cache_Update obj r c = (c', calls)" for obj c' calls l
    using that notifies_ListKeys by metis
  then show ?thesis using notifies_refl[OF assms(1)] by (simp add: OpSyncUpdate cache_SyncUpdate_def split: option.split prod.split)
next
  case (OpSyncDelete cd key r)
  then show ?thesis using notifies_DeleteCondFunc[OF assms(1,2)] by (simp add: cache_SyncDelete_def cache_Delete_def)
next
  case OpListStart
  then show ?thesis using notifies_ListKeys[OF notifies_refl[OF assms(1)]] by (simp add: cache_SyncListStart_def)
next
  case OpListEnd
  then show ?thesis
    using notifies_filter[OF assms(1,2), of "fst (cache_SyncListEnd c)"
        "\<lambda>e. fst e \<in> set (case ListKeys c of None \<Rightarrow> [] | Some ks \<Rightarrow> ks)"]
    by (simp add: cache_SyncListEnd_def Let_def case_prod_beta')
qed

subsection \<open>The receiver\<close>

definition agrees :: "(('k, 'd) obj \<times> int) option \<Rightarrow> 'k \<Rightarrow> ('k, 'd) ObjRecv \<Rightarrow> bool" where
  "agrees loc k r \<longleftrightarrow>
     (case loc of
        Some v \<Rightarrow> GetWithRev (rcv_handler r) k = Some v \<and> (\<forall>ks. sendAllKeys r = Some ks \<longrightarrow> k \<in> set ks)
      | None \<Rightarrow> GetWithRev (rcv_handler r) k = None \<or> (\<exists>ks. sendAllKeys r = Some ks \<and> k \<notin> set ks))"

lemma agrees_recv_other:
  "k \<noteq> fst obj \<Longrightarrow> agrees loc k r \<Longrightarrow> agrees loc k (recv_Update obj modRev r)"
  "k \<noteq> fst obj \<Longrightarrow> agrees loc k r \<Longrightarrow> agrees loc k (recv_Delete obj modRev r)"
  by (auto simp: agrees_def recv_Update_def recv_Delete_def GetWithRev_Update GetWithRev_Delete split: option.splits)

lemma agrees_recv_own:
  "agrees (Some (obj, modRev)) (fst obj) (recv_Update obj modRev r)" "agrees None (fst obj) (recv_Delete obj modRev r)"
  by (auto simp: agrees_def recv_Update_def recv_Delete_def GetWithRev_Update GetWithRev_Delete)

lemma agrees_RecvAllEnd: "agrees loc k r \<Longrightarrow> sendAllKeys r \<noteq> None \<Longrightarrow> agrees loc k (RecvAllEnd CleanupPrune r)"
  by (auto simp: agrees_def RecvAllEnd_def Let_def GetWithRev_Prune split: option.splits)

text \<open>The receiver of a kind after a message.\<close>

lemma recv_notice_receiver:
  "map_of (fst (recv_notice cl n R)) name =
     (case n of
        NoticeSendAllEnd \<Rightarrow> if snd R then map_option (RecvAllEnd cl) (map_of (fst R) name) else map_of (fst R) name
      | NoticeUpdate name' obj modRev \<Rightarrow> if name' = name then map_option (recv_Update obj modRev) (map_of (fst R) name) else map_of (fst R) name
      | NoticeDelete name' obj modRev \<Rightarrow> if name' = name then map_option (recv_Delete obj modRev) (map_of (fst R) name) else map_of (fst R) name)"
  by (cases R; cases n)
    (auto simp: recv_notice_def map_of_map_snd update_conv' split: option.split simp del: map_of_eq_None_keys map_of_eq_Some_iff)

lemma recv_notice_end: "snd (recv_notice cl n R) \<longleftrightarrow> snd R \<and> n \<noteq> NoticeSendAllEnd"
  by (cases R; cases n) (auto simp: recv_notice_def split: option.split)

text \<open>A receiver collects the keys of the initial send exactly until its end.\<close>

definition collecting :: "(string, ('k, 'd) ObjRecv) gomap \<times> bool \<Rightarrow> bool" where
  "collecting R \<longleftrightarrow> (\<forall>name r. map_of (fst R) name = Some r \<longrightarrow> (sendAllKeys r = None \<longleftrightarrow> \<not> snd R))"

lemma collecting_recv: "collecting R \<Longrightarrow> collecting (recv_notice cl n R)"
  unfolding collecting_def recv_notice_end
proof (intro allI impI)
  fix name r
  assume R: "\<forall>name r. map_of (fst R) name = Some r \<longrightarrow> (sendAllKeys r = None \<longleftrightarrow> \<not> snd R)"
    and r: "map_of (fst (recv_notice cl n R)) name = Some r"
  then obtain r0 where r0: "map_of (fst R) name = Some r0"
    by (cases "map_of (fst R) name") (auto simp: recv_notice_receiver split: Notice.splits if_splits simp del: map_of_eq_None_keys)
  then have "sendAllKeys r0 = None \<longleftrightarrow> \<not> snd R" using R by blast
  then show "sendAllKeys r = None \<longleftrightarrow> \<not> (snd R \<and> n \<noteq> NoticeSendAllEnd)" using r r0
    by (cases n)
      (auto simp: recv_notice_receiver RecvAllEnd_def recv_Update_def recv_Delete_def Let_def split: if_splits simp del: map_of_eq_Some_iff)
qed

subsection \<open>The invariant\<close>

text \<open>The state of the receiver once everything in the stream has arrived.\<close>

definition drained :: "('k, 'd) SendRecv \<Rightarrow> (string, ('k, 'd) ObjRecv) gomap \<times> bool" where
  "drained s = fold (recv_notice CleanupPrune) (stream s) (receiver s)"

definition local_value :: "('k, 'd) SendRecv \<Rightarrow> nat \<Rightarrow> 'k \<Rightarrow> (('k, 'd) obj \<times> int) option" where
  "local_value s ii k = GetWithRev (snd_handler (sendlist s ! ii)) k"

text \<open>The key of kind \<open>ii\<close> is still to be sent: its callback is due, or it is in one of the maps of keys.\<close>

definition sending :: "('k, 'd) SendRecv \<Rightarrow> nat \<Rightarrow> 'k set" where
  "sending s ii = (case pc s of AtSend jj todo \<Rightarrow> if jj = ii then set (keys todo) else {} | _ \<Rightarrow> {})"

definition dirty :: "('k, 'd) SendRecv \<Rightarrow> nat \<Rightarrow> 'k set" where
  "dirty s ii = {k. \<exists>obj modRev. (ii, obj, modRev) \<in> set (due s) \<and> fst obj = k} \<union> set (keys (snd_Keys (sendlist s ! ii)))
     \<union> set (keys (keysToSend (sendlist s ! ii))) \<union> sending s ii"

text \<open>The kind has not been gathered yet for the initial send.\<close>

definition uncovered :: "('k, 'd) SendRecv \<Rightarrow> nat \<Rightarrow> bool" where
  "uncovered s ii \<longleftrightarrow>
     sendAll s \<and> (case pc s of AtSelect \<Rightarrow> True | AtUpdateAll n \<Rightarrow> ii < n | AtPrepData n \<Rightarrow> ii < n | _ \<Rightarrow> False)"

definition gathering :: "('k, 'd) SendRecv \<Rightarrow> bool" where
  "gathering s \<longleftrightarrow> (case pc s of AtUpdateAll n \<Rightarrow> True | AtPrepData n \<Rightarrow> True | _ \<Rightarrow> False)"

definition will_prep :: "('k, 'd) SendRecv \<Rightarrow> nat \<Rightarrow> bool" where
  "will_prep s ii \<longleftrightarrow> (case pc s of AtUpdateAll n \<Rightarrow> ii < n | AtPrepData n \<Rightarrow> ii \<le> n | _ \<Rightarrow> False)"

definition will_take :: "('k, 'd) SendRecv \<Rightarrow> nat \<Rightarrow> bool" where
  "will_take s ii \<longleftrightarrow>
     (case pc s of AtUpdateAll n \<Rightarrow> n \<le> ii \<and> hasData s | AtPrepData n \<Rightarrow> n < ii \<and> hasData s | AtTake n \<Rightarrow> n \<le> ii | AtSend n _ \<Rightarrow> n < ii | _ \<Rightarrow> False)"

definition pc_ok :: "('k, 'd) SendRecv \<Rightarrow> bool" where
  "pc_ok s \<longleftrightarrow>
     (case pc s of AtUpdateAll n \<Rightarrow> n \<le> length (sendlist s) | AtPrepData n \<Rightarrow> n < length (sendlist s) | AtSend n _ \<Rightarrow> n < length (sendlist s) | _ \<Rightarrow> True)"

text \<open>Control: nobody waits with work left, and no deletion is forced.\<close>

definition unforced :: "('k, SendContext) gomap \<Rightarrow> bool" where
  "unforced ks \<longleftrightarrow> (\<forall>c \<in> snd ` set ks. \<not> sc_forceDelete c)"

definition control :: "('k, 'd) SendRecv \<Rightarrow> bool" where
  "control s \<longleftrightarrow> pc_ok s
     \<and> (\<forall>ii < length (sendlist s). snd_Keys (sendlist s ! ii) \<noteq> [] \<longrightarrow> signal s \<or> 0 < wakers s \<or> will_prep s ii)
     \<and> (\<forall>ii < length (sendlist s). keysToSend (sendlist s ! ii) \<noteq> [] \<longrightarrow> will_take s ii)
     \<and> (sendAll s \<longrightarrow> pc s = AtSelect \<longrightarrow> signal s)
     \<and> (sr_sendAllEnd s \<longrightarrow> signal s \<or> pc s \<noteq> AtSelect \<and> sampledEnd s)
     \<and> (snd (drained s) \<longrightarrow> manualSendAllEnd s \<or> sr_sendAllEnd s)"

definition no_force :: "('k, 'd) SendRecv \<Rightarrow> bool" where
  "no_force s \<longleftrightarrow>
     (\<forall>ii < length (sendlist s). unforced (snd_Keys (sendlist s ! ii)) \<and> unforced (keysToSend (sendlist s ! ii)))
     \<and> (case pc s of AtSend _ todo \<Rightarrow> unforced todo | _ \<Rightarrow> True)"

text \<open>Before everything has been gathered for the initial send, nothing has been sent.\<close>

definition fresh :: "('k, 'd) SendRecv \<Rightarrow> bool" where
  "fresh s \<longleftrightarrow> sendAll s \<and> (pc s = AtSelect \<or> gathering s) \<longrightarrow>
     stream s = [] \<and> snd (receiver s) \<and> (\<forall>name r. map_of (fst (receiver s)) name = Some r \<longrightarrow> sendAllKeys r = Some [])"

definition handlers_ok :: "('k, 'd) SendRecv \<Rightarrow> bool" where
  "handlers_ok s \<longleftrightarrow> (\<forall>ii < length (sendlist s). cache_wf (snd_handler (sendlist s ! ii)) \<and> 0 \<in> set (NotifyCbs (snd_handler (sendlist s ! ii))))"

text \<open>Data: what is not to be sent has been sent.\<close>

definition in_step :: "'k SendFilter \<Rightarrow> ('k, 'd) SendRecv \<Rightarrow> bool" where
  "in_step f s \<longleftrightarrow> (\<forall>ii < length (sendlist s). isRemoteWanted f (snd_Name (sendlist s ! ii)) \<longrightarrow>
     (\<exists>r. map_of (fst (drained s)) (snd_Name (sendlist s ! ii)) = Some r \<and>
       (\<forall>k. updateOk f (snd_Name (sendlist s ! ii)) k \<longrightarrow> \<not> uncovered s ii \<longrightarrow> k \<notin> dirty s ii \<longrightarrow> agrees (local_value s ii k) k r)))"

definition notify_inv :: "'k SendFilter \<Rightarrow> ('k, 'd) SendRecv \<Rightarrow> bool" where
  "notify_inv f s \<longleftrightarrow> distinct (map snd_Name (sendlist s)) \<and> control s \<and> no_force s \<and> fresh s \<and> handlers_ok s
     \<and> collecting (drained s) \<and> in_step f s"

lemma nth_upd: "kk < length xs \<Longrightarrow> xs[ii := v] ! kk = (if kk = ii then v else xs ! kk)"
  by auto

lemma in_step_mono:
  assumes "in_step f s" "map snd_Name (sendlist s') = map snd_Name (sendlist s)" "fst (drained s') = fst (drained s)"
    and "\<And>ii. ii < length (sendlist s) \<Longrightarrow> snd_handler (sendlist s' ! ii) = snd_handler (sendlist s ! ii)"
    and "\<And>ii k. ii < length (sendlist s) \<Longrightarrow> isRemoteWanted f (snd_Name (sendlist s ! ii)) \<Longrightarrow> updateOk f (snd_Name (sendlist s ! ii)) k \<Longrightarrow>
      \<not> uncovered s' ii \<Longrightarrow> k \<notin> dirty s' ii \<Longrightarrow> \<not> uncovered s ii \<and> k \<notin> dirty s ii"
  shows "in_step f s'"
proof -
  have l: "length (sendlist s') = length (sendlist s)" using map_eq_imp_length_eq[OF assms(2)] .
  have n: "snd_Name (sendlist s' ! ii) = snd_Name (sendlist s ! ii)" if "ii < length (sendlist s)" for ii
    using assms(2) that l by (metis nth_map)
  show ?thesis unfolding in_step_def l
  proof (intro allI impI)
    fix ii assume ii: "ii < length (sendlist s)" and w: "isRemoteWanted f (snd_Name (sendlist s' ! ii))"
    have w': "isRemoteWanted f (snd_Name (sendlist s ! ii))" using w n[OF ii] by simp
    then obtain r where r: "map_of (fst (drained s)) (snd_Name (sendlist s ! ii)) = Some r"
      "\<And>k. updateOk f (snd_Name (sendlist s ! ii)) k \<Longrightarrow> \<not> uncovered s ii \<Longrightarrow> k \<notin> dirty s ii \<Longrightarrow> agrees (local_value s ii k) k r"
      using assms(1) ii unfolding in_step_def by blast
    have "local_value s' ii k = local_value s ii k" for k using assms(4)[OF ii] by (simp add: local_value_def)
    then show "\<exists>r. map_of (fst (drained s')) (snd_Name (sendlist s' ! ii)) = Some r \<and>
       (\<forall>k. updateOk f (snd_Name (sendlist s' ! ii)) k \<longrightarrow> \<not> uncovered s' ii \<longrightarrow> k \<notin> dirty s' ii \<longrightarrow> agrees (local_value s' ii k) k r)"
      using r n[OF ii] assms(3) assms(5)[OF ii w'] by (metis (no_types, lifting))
  qed
qed

text \<open>A change of the sender's cache.\<close>

lemma set_due_calls: "(jj, obj, modRev) \<in> set (due_calls ii calls) \<longleftrightarrow> jj = ii \<and> NotifyCall 0 obj modRev \<in> set calls"
  by (induction calls) (auto simp: due_calls_def split: cb_call.splits)

lemma inv_Change:
  assumes "notify_inv f s" "op_ok x" "ii < length (sendlist s)" "run_op x (snd_handler (sendlist s ! ii)) = (c, calls)"
    and s': "s' = s\<lparr>sendlist := (sendlist s)[ii := (sendlist s ! ii)\<lparr>snd_handler := c\<rparr>], due := due s @ due_calls ii calls\<rparr>"
  shows "notify_inv f s'"
proof -
  note inv = assms(1)[unfolded notify_inv_def]
  let ?h = "snd_handler (sendlist s ! ii)"
  have "notifies ?h (c, calls)" using notifies_op[of ?h x] inv assms(2-4) by (simp add: handlers_ok_def)
  then have c: "cache_wf c" "NotifyCbs c = NotifyCbs ?h"
    "\<And>k. GetWithRev c k \<noteq> GetWithRev ?h k \<Longrightarrow> \<exists>obj modRev. NotifyCall 0 obj modRev \<in> set calls \<and> fst obj = k"
    by (simp_all add: notifies_def)
  have nm: "map snd_Name (sendlist s') = map snd_Name (sendlist s)" using assms(3) by (simp add: s' map_update list_update_same_conv)
  have f: "drained s' = drained s" "pc_ok s' = pc_ok s" "will_prep s' = will_prep s" "will_take s' = will_take s" "uncovered s' = uncovered s"
    by (auto simp: s' drained_def pc_ok_def will_prep_def will_take_def uncovered_def fun_eq_iff split: loop_pc.split)
  have k: "snd_Keys (sendlist s' ! jj) = snd_Keys (sendlist s ! jj)" "keysToSend (sendlist s' ! jj) = keysToSend (sendlist s ! jj)"
    "snd_Name (sendlist s' ! jj) = snd_Name (sendlist s ! jj)" for jj
    using assms(3) by (simp_all add: s' nth_list_update)
  have l: "length (sendlist s') = length (sendlist s)" by (simp add: s')
  have "control s'" using inv f k unfolding control_def l by (simp add: s')
  moreover have "no_force s'" using inv k unfolding no_force_def l by (simp add: s')
  moreover have "fresh s'" using inv by (simp add: fresh_def gathering_def s')
  moreover have "handlers_ok s'" using inv c(1,2) assms(3) by (auto simp: handlers_ok_def s' nth_list_update)
  moreover have "in_step f s'"
    unfolding in_step_def l
  proof (intro allI impI)
    fix jj assume jj: "jj < length (sendlist s)" and w: "isRemoteWanted f (snd_Name (sendlist s' ! jj))"
    then obtain r where r: "map_of (fst (drained s)) (snd_Name (sendlist s ! jj)) = Some r"
      "\<And>k. updateOk f (snd_Name (sendlist s ! jj)) k \<Longrightarrow> \<not> uncovered s jj \<Longrightarrow> k \<notin> dirty s jj \<Longrightarrow> agrees (local_value s jj k) k r"
      using inv k(3) unfolding in_step_def by metis
    have d: "k \<notin> dirty s jj \<and> local_value s' jj k = local_value s jj k" if "k \<notin> dirty s' jj" for k
    proof -
      have sub: "dirty s jj \<subseteq> dirty s' jj" using k by (auto simp: dirty_def sending_def s' split: loop_pc.splits)
      have "\<not> (\<exists>obj modRev. NotifyCall 0 obj modRev \<in> set calls \<and> fst obj = k)" if "jj = ii"
        using \<open>k \<notin> dirty s' jj\<close> that set_due_calls[of ii _ _ ii calls] by (auto simp: dirty_def s')
      then have "jj = ii \<Longrightarrow> GetWithRev c k = GetWithRev ?h k" using c(3) by blast
      then show ?thesis using that sub assms(3) by (auto simp: local_value_def s' nth_list_update)
    qed
    show "\<exists>r. map_of (fst (drained s')) (snd_Name (sendlist s' ! jj)) = Some r \<and>
       (\<forall>k. updateOk f (snd_Name (sendlist s' ! jj)) k \<longrightarrow> \<not> uncovered s' jj \<longrightarrow> k \<notin> dirty s' jj \<longrightarrow> agrees (local_value s' jj k) k r)"
      using r d unfolding f k by metis
  qed
  ultimately show ?thesis using inv nm f(1) by (simp add: notify_inv_def)
qed

text \<open>A due callback.\<close>

lemma send_Update_cases:
  "send_Update f obj modRev x =
     (if isRemoteWanted f (snd_Name x) \<and> updateOk f (snd_Name x) (fst obj) then (send_updateInternal (fst obj) modRev False x, True)
      else (x, False))"
  by (simp add: send_Update_def)

lemma snd_update_subset: "snd ` set (AList.update k v m) \<subseteq> insert v (snd ` set m)"
proof (induction m)
  case (Cons e m)
  then show ?case by (cases e) auto
qed simp

lemma unforced_update: "unforced ks \<Longrightarrow> \<not> b \<Longrightarrow> unforced (AList.update k \<lparr>sc_modRev = n, sc_forceDelete = b\<rparr> ks)"
  using snd_update_subset[of k "\<lparr>sc_modRev = n, sc_forceDelete = b\<rparr>" ks] unfolding unforced_def by fastforce

lemma update_not_Nil: "AList.update k v m \<noteq> []"
  by (cases m) (auto split: prod.splits)

lemma set_drop_nth: "jj < length xs \<Longrightarrow> set xs = insert (xs ! jj) (set (take jj xs @ drop (jj + 1) xs))"
proof -
  assume "jj < length xs"
  then have "set xs = set (take jj xs @ xs ! jj # drop (Suc jj) xs)" by (metis id_take_nth_drop)
  then show ?thesis by simp
qed

lemma inv_Notified:
  assumes "notify_inv f s" "jj < length (due s)" "due s ! jj = (ii, obj, modRev)"
    and "send_Update f obj modRev (sendlist s ! ii) = (snd', woken)"
    and s': "s' = s\<lparr>sendlist := (sendlist s)[ii := snd'], due := take jj (due s) @ drop (jj + 1) (due s),
      wakers := wakers s + (if woken then 1 else 0)\<rparr>"
  shows "notify_inv f s'"
proof -
  note inv = assms(1)[unfolded notify_inv_def]
  let ?snd = "sendlist s ! ii" and ?w = "isRemoteWanted f (snd_Name (sendlist s ! ii)) \<and> updateOk f (snd_Name (sendlist s ! ii)) (fst obj)"
  have snd': "snd' = (if ?w then send_updateInternal (fst obj) modRev False ?snd else ?snd)" "woken = ?w"
    using assms(4) by (auto simp: send_Update_cases split: if_splits)
  have l: "length (sendlist s') = length (sendlist s)" by (simp add: s')
  have nm: "snd_Name (sendlist s' ! kk) = snd_Name (sendlist s ! kk)" "snd_handler (sendlist s' ! kk) = snd_handler (sendlist s ! kk)"
    "keysToSend (sendlist s' ! kk) = keysToSend (sendlist s ! kk)" if "kk < length (sendlist s)" for kk
    using that by (auto simp: s' snd' nth_upd send_updateInternal_def)
  have map: "map snd_Name (sendlist s') = map snd_Name (sendlist s)" by (rule nth_equalityI) (simp_all add: l nm)
  have f: "drained s' = drained s" "pc_ok s' = pc_ok s" "will_prep s' = will_prep s" "will_take s' = will_take s" "uncovered s' = uncovered s"
    by (auto simp: s' drained_def pc_ok_def will_prep_def will_take_def uncovered_def fun_eq_iff split: loop_pc.split)
  have keys: "snd_Keys (sendlist s' ! kk) = (if kk = ii \<and> ?w then AList.update (fst obj) \<lparr>sc_modRev = modRev, sc_forceDelete = False\<rparr> (snd_Keys ?snd)
      else snd_Keys (sendlist s ! kk))" if "kk < length (sendlist s)" for kk
    using that by (auto simp: s' snd' nth_upd send_updateInternal_def)
  have s'': "signal s' = signal s" "sendAll s' = sendAll s" "pc s' = pc s" "sr_sendAllEnd s' = sr_sendAllEnd s" "sampledEnd s' = sampledEnd s"
    "manualSendAllEnd s' = manualSendAllEnd s" by (simp_all add: s')
  have "signal s' \<or> 0 < wakers s' \<or> will_prep s' kk" if kk: "kk < length (sendlist s)" "snd_Keys (sendlist s' ! kk) \<noteq> []" for kk
  proof (cases "kk = ii \<and> ?w")
    case True
    then have "0 < wakers s'" by (simp add: s' snd')
    then show ?thesis by simp
  next
    case False
    then have "snd_Keys (sendlist s' ! kk) = snd_Keys (sendlist s ! kk)" using keys[OF kk(1)] by (simp only: if_False)
    then have "signal s \<or> 0 < wakers s \<or> will_prep s kk" using inv kk by (simp add: control_def)
    moreover have "wakers s \<le> wakers s'" by (simp add: s')
    ultimately show ?thesis using f(3) s'' by auto
  qed
  then have "control s'" using inv unfolding control_def l s'' f by (simp add: nm)
  moreover have "unforced (snd_Keys (sendlist s' ! kk))" if "kk < length (sendlist s)" for kk
    using inv that keys[OF that] by (simp add: no_force_def unforced_update)
  then have "no_force s'" using inv unfolding no_force_def l s'' by (simp add: nm)
  moreover have "fresh s'" using inv by (simp add: fresh_def gathering_def s')
  moreover have "handlers_ok s'" using inv nm by (simp add: handlers_ok_def l)
  moreover have "in_step f s'"
  proof (rule in_step_mono[OF _ map])
    fix kk k assume kk: "kk < length (sendlist s)" and w: "isRemoteWanted f (snd_Name (sendlist s ! kk))"
      "updateOk f (snd_Name (sendlist s ! kk)) k" and n: "\<not> uncovered s' kk" "k \<notin> dirty s' kk"
    have due: "set (due s) = insert (ii, obj, modRev) (set (due s'))" using set_drop_nth[OF assms(2)] by (simp add: s' assms(3))
    have snd: "sending s' kk = sending s kk" by (simp add: sending_def s')
    have k': "k \<notin> set (keys (snd_Keys (sendlist s' ! kk)))" "k \<notin> set (keys (keysToSend (sendlist s ! kk)))" "k \<notin> sending s kk"
      "\<And>o' r. (kk, o', r) \<in> set (due s') \<Longrightarrow> fst o' \<noteq> k"
      using n(2) unfolding dirty_def nm(3)[OF kk] snd by blast+
    have "kk = ii \<Longrightarrow> k \<noteq> fst obj" using k'(1) w unfolding keys[OF kk] by (auto split: if_splits)
    moreover have "k \<notin> set (keys (snd_Keys (sendlist s ! kk)))" using k'(1) unfolding keys[OF kk] by (auto split: if_splits)
    ultimately have "k \<notin> dirty s kk" using k'(2-4) unfolding dirty_def due by blast
    then show "\<not> uncovered s kk \<and> k \<notin> dirty s kk" using n(1) f(5) by simp
  qed (use inv f nm in simp_all)
  ultimately show ?thesis using inv map f(1) by (simp add: notify_inv_def)
qed

text \<open>Steps that leave all keys alone.\<close>

lemma inv_Wake:
  assumes "notify_inv f s" "s' = wakeup (s\<lparr>wakers := wakers s - 1\<rparr>)"
  shows "notify_inv f s'"
proof -
  note inv = assms(1)[unfolded notify_inv_def]
  have f: "drained s' = drained s" "pc_ok s' = pc_ok s" "will_prep s' = will_prep s" "will_take s' = will_take s" "uncovered s' = uncovered s"
    "dirty s' = dirty s" "local_value s' = local_value s"
    by (auto simp: assms(2) wakeup_def drained_def pc_ok_def will_prep_def will_take_def uncovered_def dirty_def sending_def local_value_def fun_eq_iff
        split: loop_pc.split)
  have "control s'" using inv f unfolding control_def by (simp add: assms(2) wakeup_def)
  moreover have "in_step f s'" using inv f unfolding in_step_def by (simp add: assms(2) wakeup_def)
  ultimately show ?thesis using inv f
    by (simp add: notify_inv_def no_force_def fresh_def handlers_ok_def gathering_def assms(2) wakeup_def)
qed

lemma inv_Trigger:
  assumes "notify_inv f s" "s' = triggerSendAllEnd s"
  shows "notify_inv f s'"
proof (cases "manualSendAllEnd s")
  case True
  note inv = assms(1)[unfolded notify_inv_def]
  have s': "s' = s\<lparr>sr_sendAllEnd := True, manualSendAllEnd := False, signal := True\<rparr>"
    using True by (simp add: assms(2) triggerSendAllEnd_def wakeup_def)
  have f: "drained s' = drained s" "pc_ok s' = pc_ok s" "will_prep s' = will_prep s" "will_take s' = will_take s" "uncovered s' = uncovered s"
    "dirty s' = dirty s" "local_value s' = local_value s"
    by (auto simp: s' drained_def pc_ok_def will_prep_def will_take_def uncovered_def dirty_def sending_def local_value_def fun_eq_iff
        split: loop_pc.split)
  have "control s'" using inv f unfolding control_def by (simp add: s')
  moreover have "in_step f s'" using inv f unfolding in_step_def by (simp add: s')
  ultimately show ?thesis using inv f by (simp add: notify_inv_def no_force_def fresh_def handlers_ok_def gathering_def s')
next
  case False
  then show ?thesis using assms by (simp add: triggerSendAllEnd_def)
qed

lemma inv_Deliver:
  assumes "notify_inv f s" "stream s = n # ns" "s' = s\<lparr>stream := ns, receiver := recv_notice CleanupPrune n (receiver s)\<rparr>"
  shows "notify_inv f s'"
proof -
  note inv = assms(1)[unfolded notify_inv_def]
  have f: "drained s' = drained s" "pc_ok s' = pc_ok s" "will_prep s' = will_prep s" "will_take s' = will_take s" "uncovered s' = uncovered s"
    "dirty s' = dirty s" "local_value s' = local_value s"
    by (auto simp: assms(2,3) drained_def pc_ok_def will_prep_def will_take_def uncovered_def dirty_def sending_def local_value_def fun_eq_iff
        split: loop_pc.split)
  have "control s'" using inv f unfolding control_def by (simp add: assms(3))
  moreover have "in_step f s'" using inv f unfolding in_step_def by (simp add: assms(3))
  moreover have "gathering s' = gathering s" "sendAll s' = sendAll s" "pc s' = pc s" by (simp_all add: gathering_def assms(3))
  then have "fresh s'" using inv assms(2) by (auto simp: fresh_def)
  ultimately show ?thesis using inv f by (simp add: notify_inv_def no_force_def handlers_ok_def assms(3))
qed

text \<open>Steps of the loop that only move on.\<close>

lemma inv_move:
  assumes "notify_inv f s" "sendlist s' = sendlist s" "due s' = due s" "stream s' = stream s" "receiver s' = receiver s" "handlers_ok s'"
    and "control s'" "fresh s'" "sending s' = sending s" "case pc s' of AtSend _ todo \<Rightarrow> unforced todo | _ \<Rightarrow> True"
    and "\<And>ii. ii < length (sendlist s) \<Longrightarrow> uncovered s ii \<Longrightarrow> uncovered s' ii"
  shows "notify_inv f s'"
proof -
  note inv = assms(1)[unfolded notify_inv_def]
  have d: "drained s' = drained s" by (simp add: drained_def assms)
  have "in_step f s'"
    by (rule in_step_mono[of f s]) (use inv d assms in \<open>auto simp: dirty_def\<close>)
  moreover have "no_force s'" using inv assms(2,10) by (simp add: no_force_def)
  ultimately show ?thesis using inv assms(2,6-8) d by (simp add: notify_inv_def)
qed

lemma inv_AtSelect:
  assumes "notify_inv f s" "pc s = AtSelect"
    and s': "s' = s\<lparr>signal := False, sampledEnd := sr_sendAllEnd s, hasData := False, pc := AtUpdateAll (length (sendlist s))\<rparr>"
  shows "notify_inv f s'"
proof (rule inv_move[OF assms(1)])
  note inv = assms(1)[unfolded notify_inv_def]
  have "drained s' = drained s" by (simp add: drained_def s')
  then show "control s'" using inv assms(2)
    by (auto simp: control_def pc_ok_def will_prep_def will_take_def s')
  show "fresh s'" using inv assms(2) by (simp add: fresh_def gathering_def s')
  show "handlers_ok s'" using inv by (simp add: handlers_ok_def s')
qed (use assms(2) in \<open>auto simp: s' sending_def uncovered_def fun_eq_iff\<close>)

lemma inv_AtUpdateAll_0:
  assumes "notify_inv f s" "pc s = AtUpdateAll 0"
    and s': "s' = s\<lparr>pc := if \<not> hasData s \<and> \<not> sendAll s \<and> \<not> sampledEnd s then AtSelect else AtTake 0\<rparr>"
  shows "notify_inv f s'"
proof (rule inv_move[OF assms(1)])
  note inv = assms(1)[unfolded notify_inv_def]
  have "drained s' = drained s" by (simp add: drained_def s')
  then show "control s'" using inv assms(2)
    by (auto simp: control_def pc_ok_def will_prep_def will_take_def s')
  show "fresh s'" using inv assms(2) by (simp add: fresh_def gathering_def s')
  show "handlers_ok s'" using inv by (simp add: handlers_ok_def s')
qed (use assms(2) in \<open>auto simp: s' sending_def uncovered_def fun_eq_iff\<close>)

lemma inv_AtUpdateAll_skip:
  assumes "notify_inv f s" "pc s = AtUpdateAll (Suc ii)" "\<not> sendAll s" and s': "s' = s\<lparr>pc := AtPrepData ii\<rparr>"
  shows "notify_inv f s'"
proof (rule inv_move[OF assms(1)])
  note inv = assms(1)[unfolded notify_inv_def]
  have "drained s' = drained s" by (simp add: drained_def s')
  then show "control s'" using inv assms(2)
    by (auto simp: control_def pc_ok_def will_prep_def will_take_def s' less_Suc_eq_le Suc_le_eq)
  show "fresh s'" using assms(3) by (simp add: fresh_def s')
  show "handlers_ok s'" using inv by (simp add: handlers_ok_def s')
qed (use assms(2,3) in \<open>auto simp: s' sending_def uncovered_def fun_eq_iff\<close>)

lemma inv_AtTake_last:
  assumes "notify_inv f s" "pc s = AtTake ii" "\<not> ii < length (sendlist s)" and s': "s' = s\<lparr>pc := AtEnd\<rparr>"
  shows "notify_inv f s'"
proof (rule inv_move[OF assms(1)])
  note inv = assms(1)[unfolded notify_inv_def]
  have "drained s' = drained s" by (simp add: drained_def s')
  then show "control s'" using inv assms(2,3)
    by (auto simp: control_def pc_ok_def will_prep_def will_take_def s')
  show "fresh s'" by (simp add: fresh_def gathering_def s')
  show "handlers_ok s'" using inv by (simp add: handlers_ok_def s')
qed (use assms(2,3) in \<open>auto simp: s' sending_def uncovered_def fun_eq_iff\<close>)

lemma inv_AtSend_next:
  assumes "notify_inv f s" "pc s = AtSend ii []" and s': "s' = s\<lparr>pc := AtTake (ii + 1)\<rparr>"
  shows "notify_inv f s'"
proof (rule inv_move[OF assms(1)])
  note inv = assms(1)[unfolded notify_inv_def]
  have "drained s' = drained s" by (simp add: drained_def s')
  then show "control s'" using inv assms(2)
    by (auto simp: control_def pc_ok_def will_prep_def will_take_def s')
  show "fresh s'" by (simp add: fresh_def gathering_def s')
  show "handlers_ok s'" using inv by (simp add: handlers_ok_def s')
qed (use assms(2) in \<open>auto simp: s' sending_def uncovered_def fun_eq_iff\<close>)

text \<open>Gathering for the initial send.\<close>

lemma UpdateAll_fold:
  "let r = fold (\<lambda>(obj, modRev) s. if \<not> updateOk f (snd_Name s) (fst obj) then s
        else s\<lparr>snd_Keys := AList.update (fst obj) \<lparr>sc_modRev = modRev, sc_forceDelete = False\<rparr> (snd_Keys s)\<rparr>) xs x
   in snd_Name r = snd_Name x \<and> snd_handler r = snd_handler x \<and> keysToSend r = keysToSend x
    \<and> set (keys (snd_Keys r)) = set (keys (snd_Keys x)) \<union> {k. updateOk f (snd_Name x) k \<and> k \<in> fst ` fst ` set xs}
    \<and> (unforced (snd_Keys x) \<longrightarrow> unforced (snd_Keys r))"
proof (induction xs arbitrary: x)
  case (Cons e xs)
  obtain obj modRev where e: "e = (obj, modRev)" by (cases e)
  show ?case
  proof (cases "updateOk f (snd_Name x) (fst obj)")
    case True
    let ?x = "x\<lparr>snd_Keys := AList.update (fst obj) \<lparr>sc_modRev = modRev, sc_forceDelete = False\<rparr> (snd_Keys x)\<rparr>"
    show ?thesis using Cons.IH[of ?x] True unforced_update[of "snd_Keys x" False "fst obj" modRev] by (auto simp: e Let_def set_keys_update)
  next
    case False
    then show ?thesis using Cons.IH[of x] by (auto simp: e Let_def)
  qed
qed simp

lemma GetAllLocked_keys: "cache_wf c \<Longrightarrow> k \<in> fst ` fst ` set (GetAllLocked c) \<longleftrightarrow> GetWithRev c k \<noteq> None"
proof -
  assume wf: "cache_wf c"
  have "fst ` fst ` set (GetAllLocked c) = set (keys (Objs c))"
    using wf by (force simp: GetAllLocked_def cache_wf_def list_all_iff image_iff)
  then show ?thesis by (simp add: GetWithRev_def map_of_eq_None_iff)
qed

lemma send_UpdateAll_result:
  assumes "cache_wf (snd_handler x)" and r: "r = send_UpdateAll f x"
  shows "snd_Name r = snd_Name x" "snd_handler r = snd_handler x" "keysToSend r = keysToSend x"
    "unforced (snd_Keys x) \<Longrightarrow> unforced (snd_Keys r)"
    "set (keys (snd_Keys r)) = set (keys (snd_Keys x)) \<union>
      {k. isRemoteWanted f (snd_Name x) \<and> updateOk f (snd_Name x) k \<and> GetWithRev (snd_handler x) k \<noteq> None}"
  using UpdateAll_fold[of f "GetAllLocked (snd_handler x)" x] GetAllLocked_keys[OF assms(1)]
  by (simp_all add: r send_UpdateAll_def Let_def)

lemma inv_AtUpdateAll:
  assumes "notify_inv f s" "pc s = AtUpdateAll (Suc ii)" "sendAll s"
    and s': "s' = s\<lparr>sendlist := (sendlist s)[ii := send_UpdateAll f (sendlist s ! ii)], pc := AtPrepData ii\<rparr>"
  shows "notify_inv f s'"
proof -
  note inv = assms(1)[unfolded notify_inv_def]
  let ?x = "sendlist s ! ii"
  have ii: "ii < length (sendlist s)" using inv assms(2) by (simp add: control_def pc_ok_def)
  then have wf: "cache_wf (snd_handler ?x)" using inv by (simp add: handlers_ok_def)
  note r = send_UpdateAll_result[OF wf refl, of f]
  have l: "length (sendlist s') = length (sendlist s)" by (simp add: s')
  have d: "drained s' = drained s" by (simp add: s' drained_def)
  have nm: "snd_Name (sendlist s' ! kk) = snd_Name (sendlist s ! kk)" "snd_handler (sendlist s' ! kk) = snd_handler (sendlist s ! kk)"
    "keysToSend (sendlist s' ! kk) = keysToSend (sendlist s ! kk)"
    "kk \<noteq> ii \<Longrightarrow> snd_Keys (sendlist s' ! kk) = snd_Keys (sendlist s ! kk)"
    "unforced (snd_Keys (sendlist s ! kk)) \<Longrightarrow> unforced (snd_Keys (sendlist s' ! kk))" if "kk < length (sendlist s)" for kk
    using that r by (auto simp: s' nth_upd)
  have map: "map snd_Name (sendlist s') = map snd_Name (sendlist s)" by (rule nth_equalityI) (simp_all add: l nm)
  have p: "will_prep s' kk = will_prep s kk" "will_take s' kk = will_take s kk" "uncovered s' kk \<longleftrightarrow> uncovered s kk \<and> kk \<noteq> ii" for kk
    using assms(2,3) by (auto simp: s' will_prep_def will_take_def uncovered_def)
  have "snd_Keys (sendlist s' ! kk) \<noteq> [] \<longrightarrow> signal s \<or> 0 < wakers s \<or> will_prep s kk" if "kk < length (sendlist s)" for kk
    using inv that nm(4)[OF that] assms(2) by (cases "kk = ii") (auto simp: control_def will_prep_def)
  moreover have fld: "signal s' = signal s" "wakers s' = wakers s" "pc s' = AtPrepData ii" "sr_sendAllEnd s' = sr_sendAllEnd s"
    "sampledEnd s' = sampledEnd s" "manualSendAllEnd s' = manualSendAllEnd s" by (simp_all add: s')
  moreover have "pc_ok s'" using ii by (simp add: pc_ok_def s')
  ultimately have "control s'" using inv assms(2) unfolding control_def l p d fld by (simp add: nm)
  moreover have "no_force s'" using inv unfolding no_force_def l fld by (simp add: nm)
  moreover have fr: "stream s = []" "snd (receiver s)" "\<And>name r. map_of (fst (receiver s)) name = Some r \<Longrightarrow> sendAllKeys r = Some []"
    using inv assms(2,3) by (simp_all add: fresh_def gathering_def)
  then have "fresh s'" by (simp add: fresh_def s')
  moreover have "handlers_ok s'" using inv nm by (simp add: handlers_ok_def l)
  moreover have "in_step f s'"
    unfolding in_step_def l
  proof (intro allI impI)
    fix kk assume kk: "kk < length (sendlist s)" and w: "isRemoteWanted f (snd_Name (sendlist s' ! kk))"
    obtain r where r1: "map_of (fst (drained s)) (snd_Name (sendlist s ! kk)) = Some r" and
      r2: "\<And>k. updateOk f (snd_Name (sendlist s ! kk)) k \<Longrightarrow> \<not> uncovered s kk \<Longrightarrow> k \<notin> dirty s kk \<Longrightarrow> agrees (local_value s kk k) k r"
      using inv w kk unfolding in_step_def nm(1)[OF kk] by blast
    have "sendAllKeys r = Some []" using r1 fr by (simp add: drained_def)
    then have ag: "agrees None k r" for k by (simp add: agrees_def)
    have "agrees (local_value s' kk k) k r"
      if k: "updateOk f (snd_Name (sendlist s ! kk)) k" "\<not> uncovered s' kk" "k \<notin> dirty s' kk" for k
    proof (cases "kk = ii")
      case True
      have "k \<notin> set (keys (snd_Keys (send_UpdateAll f ?x)))" using k(3) ii by (simp add: dirty_def s' True)
      then have "local_value s' kk k = None" using r(5) w k(1) ii by (simp add: local_value_def nm True s' r)
      then show ?thesis using ag by simp
    next
      case False
      then have "dirty s' kk = dirty s kk" using nm(3,4)[OF kk] assms(2) by (simp add: dirty_def sending_def s')
      then show ?thesis using r2 k p(3) False nm(2)[OF kk] by (simp add: local_value_def)
    qed
    then show "\<exists>r. map_of (fst (drained s')) (snd_Name (sendlist s' ! kk)) = Some r \<and>
       (\<forall>k. updateOk f (snd_Name (sendlist s' ! kk)) k \<longrightarrow> \<not> uncovered s' kk \<longrightarrow> k \<notin> dirty s' kk \<longrightarrow> agrees (local_value s' kk k) k r)"
      using r1 unfolding d nm(1)[OF kk] by blast
  qed
  ultimately show ?thesis using inv map d by (simp add: notify_inv_def)
qed

lemma inv_AtPrepData:
  assumes "notify_inv f s" "pc s = AtPrepData ii" "send_PrepData (sendlist s ! ii) = (snd', has)"
    and s': "s' = s\<lparr>sendlist := (sendlist s)[ii := snd'], hasData := (hasData s \<or> has), pc := AtUpdateAll ii\<rparr>"
  shows "notify_inv f s'"
proof -
  note inv = assms(1)[unfolded notify_inv_def]
  let ?x = "sendlist s ! ii"
  have ii: "ii < length (sendlist s)" using inv assms(2) by (simp add: control_def pc_ok_def)
  have empty: "keysToSend ?x = []" using inv assms(2) ii by (auto simp: control_def will_take_def)
  have x: "snd_Name snd' = snd_Name ?x" "snd_handler snd' = snd_handler ?x" "snd_Keys snd' = []" "keysToSend snd' = snd_Keys ?x"
    "has \<longleftrightarrow> snd_Keys ?x \<noteq> []"
    using assms(3) empty by (auto simp: send_PrepData_def split: if_splits)
  have l: "length (sendlist s') = length (sendlist s)" by (simp add: s')
  have d: "drained s' = drained s" by (simp add: s' drained_def)
  have nm: "snd_Name (sendlist s' ! kk) = snd_Name (sendlist s ! kk)" "snd_handler (sendlist s' ! kk) = snd_handler (sendlist s ! kk)"
    "snd_Keys (sendlist s' ! kk) = (if kk = ii then [] else snd_Keys (sendlist s ! kk))"
    "keysToSend (sendlist s' ! kk) = (if kk = ii then snd_Keys ?x else keysToSend (sendlist s ! kk))" if "kk < length (sendlist s)" for kk
    using that x by (auto simp: s' nth_upd)
  have map: "map snd_Name (sendlist s') = map snd_Name (sendlist s)" by (rule nth_equalityI) (simp_all add: l nm)
  have fld: "signal s' = signal s" "wakers s' = wakers s" "pc s' = AtUpdateAll ii" "sr_sendAllEnd s' = sr_sendAllEnd s"
    "sampledEnd s' = sampledEnd s" "manualSendAllEnd s' = manualSendAllEnd s" "sendAll s' = sendAll s" "stream s' = stream s" "receiver s' = receiver s"
    by (simp_all add: s')
  have p: "uncovered s' = uncovered s" using assms(2) by (simp add: uncovered_def s' fun_eq_iff)
  have "keysToSend (sendlist s' ! kk) \<noteq> [] \<longrightarrow> will_take s' kk" if "kk < length (sendlist s)" for kk
    using inv that nm(4)[OF that] x(5) assms(2) by (cases "kk = ii") (auto simp: control_def will_take_def s')
  moreover have "snd_Keys (sendlist s' ! kk) \<noteq> [] \<longrightarrow> signal s \<or> 0 < wakers s \<or> will_prep s' kk" if "kk < length (sendlist s)" for kk
    using inv that nm(3)[OF that] assms(2) by (cases "kk = ii") (auto simp: control_def will_prep_def s')
  moreover have "pc_ok s'" using ii by (simp add: pc_ok_def s')
  ultimately have "control s'" using inv assms(2) unfolding control_def l d fld by simp
  moreover have "no_force s'" using inv ii unfolding no_force_def l fld by (simp add: nm unforced_def)
  moreover have "fresh s'" using inv assms(2) by (simp add: fresh_def gathering_def s')
  moreover have "handlers_ok s'" using inv nm by (simp add: handlers_ok_def l)
  moreover have "dirty s' kk = dirty s kk" if "kk < length (sendlist s)" for kk
    using nm(3,4)[OF that] empty assms(2) by (auto simp: dirty_def sending_def s')
  then have "in_step f s'" by (intro in_step_mono[OF _ map]) (use inv d p in \<open>simp_all add: nm\<close>)
  ultimately show ?thesis using inv map d by (simp add: notify_inv_def)
qed

lemma inv_AtTake:
  assumes "notify_inv f s" "pc s = AtTake ii" "ii < length (sendlist s)"
    and s': "s' = s\<lparr>sendlist := (sendlist s)[ii := (sendlist s ! ii)\<lparr>keysToSend := []\<rparr>], pc := AtSend ii (keysToSend (sendlist s ! ii))\<rparr>"
  shows "notify_inv f s'"
proof -
  note inv = assms(1)[unfolded notify_inv_def]
  let ?x = "sendlist s ! ii"
  have l: "length (sendlist s') = length (sendlist s)" by (simp add: s')
  have d: "drained s' = drained s" by (simp add: s' drained_def)
  have nm: "snd_Name (sendlist s' ! kk) = snd_Name (sendlist s ! kk)" "snd_handler (sendlist s' ! kk) = snd_handler (sendlist s ! kk)"
    "snd_Keys (sendlist s' ! kk) = snd_Keys (sendlist s ! kk)"
    "keysToSend (sendlist s' ! kk) = (if kk = ii then [] else keysToSend (sendlist s ! kk))" if "kk < length (sendlist s)" for kk
    using that by (auto simp: s' nth_upd)
  have map: "map snd_Name (sendlist s') = map snd_Name (sendlist s)" by (rule nth_equalityI) (simp_all add: l nm)
  have fld: "signal s' = signal s" "wakers s' = wakers s" "pc s' = AtSend ii (keysToSend ?x)" "sr_sendAllEnd s' = sr_sendAllEnd s"
    "sampledEnd s' = sampledEnd s" "manualSendAllEnd s' = manualSendAllEnd s" "sendAll s' = sendAll s"
    by (simp_all add: s')
  have p: "uncovered s' = uncovered s" using assms(2) by (simp add: uncovered_def s' fun_eq_iff)
  have "keysToSend (sendlist s' ! kk) \<noteq> [] \<longrightarrow> will_take s' kk" if "kk < length (sendlist s)" for kk
    using inv that nm(4)[OF that] assms(2) by (cases "kk = ii") (auto simp: control_def will_take_def s')
  moreover have "will_prep s' kk = will_prep s kk" for kk using assms(2) by (simp add: will_prep_def s')
  moreover have "pc_ok s'" using assms(3) by (simp add: pc_ok_def s')
  ultimately have "control s'" using inv assms(2) unfolding control_def l d fld by (simp add: nm)
  moreover have "no_force s'" using inv assms(3) unfolding no_force_def l fld by (simp add: nm unforced_def)
  moreover have "fresh s'" by (simp add: fresh_def gathering_def s')
  moreover have "handlers_ok s'" using inv nm by (simp add: handlers_ok_def l)
  moreover have "dirty s' kk = dirty s kk" if "kk < length (sendlist s)" for kk
    using nm(3,4)[OF that] assms(2) by (auto simp: dirty_def sending_def s')
  then have "in_step f s'" by (intro in_step_mono[OF _ map]) (use inv d p in \<open>simp_all add: nm\<close>)
  ultimately show ?thesis using inv map d by (simp add: notify_inv_def)
qed

lemma inv_AtEnd:
  assumes "notify_inv f s" "pc s = AtEnd"
    and s': "s' = (if sampledEnd s then s\<lparr>sr_sendAllEnd := False, stream := stream s @ [NoticeSendAllEnd]\<rparr> else s)\<lparr>sendAll := False, pc := AtSelect\<rparr>"
  shows "notify_inv f s'"
proof -
  note inv = assms(1)[unfolded notify_inv_def]
  have d: "drained s' = (if sampledEnd s then recv_notice CleanupPrune NoticeSendAllEnd (drained s) else drained s)" by (simp add: s' drained_def)
  have fld: "sendlist s' = sendlist s" "signal s' = signal s" "wakers s' = wakers s" "pc s' = AtSelect" "sendAll s' = False"
    "sampledEnd s' = sampledEnd s" "manualSendAllEnd s' = manualSendAllEnd s" "sr_sendAllEnd s' = (\<not> sampledEnd s \<and> sr_sendAllEnd s)"
    by (auto simp: s')
  have none: "\<not> uncovered s kk" "\<not> uncovered s' kk" for kk using assms(2) by (simp_all add: uncovered_def fld)
  have dirty: "dirty s' kk = dirty s kk" for kk using assms(2) by (simp add: dirty_def sending_def s')
  have "pc_ok s'" by (simp add: pc_ok_def fld)
  moreover have "\<not> will_prep s kk" "\<not> will_take s kk" for kk using assms(2) by (simp_all add: will_prep_def will_take_def)
  moreover have "snd (drained s') \<longrightarrow> snd (drained s) \<and> \<not> sampledEnd s" by (auto simp: d recv_notice_end)
  ultimately have "control s'" using inv assms(2) unfolding control_def fld by auto
  moreover have "no_force s'" using inv assms(2) by (simp add: no_force_def fld)
  moreover have "fresh s'" by (simp add: fresh_def fld)
  moreover have "handlers_ok s'" using inv by (simp add: handlers_ok_def fld)
  moreover have "collecting (drained s')" using inv collecting_recv[of "drained s"] by (simp add: d)
  moreover have "in_step f s'"
    unfolding in_step_def fld
  proof (intro allI impI)
    fix kk assume kk: "kk < length (sendlist s)" and w: "isRemoteWanted f (snd_Name (sendlist s ! kk))"
    obtain r where r1: "map_of (fst (drained s)) (snd_Name (sendlist s ! kk)) = Some r" and
      r2: "\<And>k. updateOk f (snd_Name (sendlist s ! kk)) k \<Longrightarrow> k \<notin> dirty s kk \<Longrightarrow> agrees (local_value s kk k) k r"
      using inv w kk none(1) unfolding in_step_def by blast
    let ?r = "if sampledEnd s \<and> snd (drained s) then RecvAllEnd CleanupPrune r else r"
    have "map_of (fst (drained s')) (snd_Name (sendlist s ! kk)) = Some ?r" using r1 by (simp add: d recv_notice_receiver del: map_of_eq_Some_iff)
    moreover have "agrees (local_value s' kk k) k ?r" if "updateOk f (snd_Name (sendlist s ! kk)) k" "k \<notin> dirty s' kk" for k
    proof -
      have "agrees (local_value s' kk k) k r" using r2 that dirty by (simp add: local_value_def fld)
      moreover have "snd (drained s) \<Longrightarrow> sendAllKeys r \<noteq> None" using inv r1 by (simp add: collecting_def del: map_of_eq_Some_iff)
      ultimately show ?thesis using agrees_RecvAllEnd[of "local_value s' kk k" k r] by auto
    qed
    ultimately show "\<exists>r. map_of (fst (drained s')) (snd_Name (sendlist s ! kk)) = Some r \<and>
       (\<forall>k. updateOk f (snd_Name (sendlist s ! kk)) k \<longrightarrow> \<not> uncovered s' kk \<longrightarrow> k \<notin> dirty s' kk \<longrightarrow> agrees (local_value s' kk k) k r)"
      by blast
  qed
  ultimately show ?thesis using inv by (simp add: notify_inv_def fld)
qed

text \<open>The receiver agrees on a key once it has been sent.\<close>

lemma agrees_sent:
  assumes "cache_wf (snd_handler x)" "\<not> sc_forceDelete ctx" "map_of (fst R) (snd_Name x) = Some r"
  shows "\<exists>r'. map_of (fst (recv_notice CleanupPrune (send_notice zero x (key, ctx)) R)) (snd_Name x) = Some r' \<and>
    (\<forall>k. k = key \<or> agrees (GetWithRev (snd_handler x) k) k r \<longrightarrow> agrees (GetWithRev (snd_handler x) k) k r')"
proof (cases "GetWithRev (snd_handler x) key")
  case None
  then have "map_of (fst (recv_notice CleanupPrune (send_notice zero x (key, ctx)) R)) (snd_Name x) = Some (recv_Delete (key, zero) (sc_modRev ctx) r)"
    using assms(3) by (simp add: send_notice_def recv_notice_receiver del: map_of_eq_Some_iff)
  moreover have "agrees (GetWithRev (snd_handler x) k) k (recv_Delete (key, zero) (sc_modRev ctx) r)"
    if "k = key \<or> agrees (GetWithRev (snd_handler x) k) k r" for k
    using that None agrees_recv_other(2)[of k "(key, zero)"] agrees_recv_own(2)[of "(key, zero)"] by (cases "k = key") simp_all
  ultimately show ?thesis by blast
next
  case (Some v)
  obtain obj modRev where v: "v = (obj, modRev)" by (cases v)
  have o: "fst obj = key" using GetWithRev_key[OF assms(1)] Some v by simp
  have "map_of (fst (recv_notice CleanupPrune (send_notice zero x (key, ctx)) R)) (snd_Name x) = Some (recv_Update obj modRev r)"
    using assms(2,3) Some v by (simp add: send_notice_def recv_notice_receiver del: map_of_eq_Some_iff)
  moreover have "agrees (GetWithRev (snd_handler x) k) k (recv_Update obj modRev r)"
    if "k = key \<or> agrees (GetWithRev (snd_handler x) k) k r" for k
    using that Some v o agrees_recv_other(1)[of k obj] agrees_recv_own(1)[of obj] by (cases "k = key") simp_all
  ultimately show ?thesis by blast
qed

lemma inv_AtSend:
  assumes "notify_inv f s" "pc s = AtSend ii todo" "jj < length todo"
    and s': "s' = s\<lparr>sendlist := (sendlist s)[ii := (sendlist s ! ii)\<lparr>SendCount := SendCount (sendlist s ! ii) + 1\<rparr>],
      stream := stream s @ [send_notice zero (sendlist s ! ii) (todo ! jj)], pc := AtSend ii (take jj todo @ drop (jj + 1) todo)\<rparr>"
  shows "notify_inv f s'"
proof -
  note inv = assms(1)[unfolded notify_inv_def]
  let ?x = "sendlist s ! ii" and ?rest = "take jj todo @ drop (jj + 1) todo"
  obtain key ctx where kc: "todo ! jj = (key, ctx)" by (cases "todo ! jj")
  let ?n = "send_notice zero ?x (key, ctx)"
  have ii: "ii < length (sendlist s)" using inv assms(2) by (simp add: control_def pc_ok_def)
  have mem: "set todo = insert (key, ctx) (set ?rest)" using set_drop_nth[OF assms(3)] kc by simp
  have ctx: "\<not> sc_forceDelete ctx" using inv assms(2) mem by (auto simp: no_force_def unforced_def)
  have wf: "cache_wf (snd_handler ?x)" using inv ii by (simp add: handlers_ok_def)
  have l: "length (sendlist s') = length (sendlist s)" by (simp add: s')
  have d: "drained s' = recv_notice CleanupPrune ?n (drained s)" by (simp add: s' drained_def kc)
  have nm: "snd_Name (sendlist s' ! kk) = snd_Name (sendlist s ! kk)" "snd_handler (sendlist s' ! kk) = snd_handler (sendlist s ! kk)"
    "snd_Keys (sendlist s' ! kk) = snd_Keys (sendlist s ! kk)" "keysToSend (sendlist s' ! kk) = keysToSend (sendlist s ! kk)"
    if "kk < length (sendlist s)" for kk
    using that by (auto simp: s' nth_upd)
  have map: "map snd_Name (sendlist s') = map snd_Name (sendlist s)" by (rule nth_equalityI) (simp_all add: l nm)
  have fld: "signal s' = signal s" "wakers s' = wakers s" "pc s' = AtSend ii ?rest" "sr_sendAllEnd s' = sr_sendAllEnd s"
    "sampledEnd s' = sampledEnd s" "manualSendAllEnd s' = manualSendAllEnd s" "sendAll s' = sendAll s"
    by (simp_all add: s')
  have p: "\<not> uncovered s kk" "\<not> uncovered s' kk" "will_prep s' = will_prep s" "will_take s' = will_take s" for kk
    using assms(2) by (simp_all add: uncovered_def will_prep_def will_take_def s' fun_eq_iff)
  have n: "?n = (case local_value s ii key of Some (obj, modRev) \<Rightarrow> NoticeUpdate (snd_Name ?x) obj modRev
      | None \<Rightarrow> NoticeDelete (snd_Name ?x) (key, zero) (sc_modRev ctx))"
    using ctx by (simp add: send_notice_def local_value_def split: option.split)
  have "?n \<noteq> NoticeSendAllEnd" by (auto simp: n split: option.split)
  then have sd: "snd (drained s') = snd (drained s)" by (simp add: d recv_notice_end)
  have "pc_ok s'" using ii by (simp add: pc_ok_def s')
  then have "control s'" using inv assms(2) unfolding control_def l p fld sd by (simp add: nm)
  moreover have "no_force s'" using inv assms(2) mem unfolding no_force_def l fld unforced_def by (simp add: nm)
  moreover have "fresh s'" by (simp add: fresh_def gathering_def s')
  moreover have "handlers_ok s'" using inv nm by (simp add: handlers_ok_def l)
  moreover have "collecting (drained s')" using inv collecting_recv[of "drained s"] by (simp add: d)
  moreover have "in_step f s'"
    unfolding in_step_def l
  proof (intro allI impI)
    fix kk assume kk: "kk < length (sendlist s)" and w: "isRemoteWanted f (snd_Name (sendlist s' ! kk))"
    obtain r where r1: "map_of (fst (drained s)) (snd_Name (sendlist s ! kk)) = Some r" and
      r2: "\<And>k. updateOk f (snd_Name (sendlist s ! kk)) k \<Longrightarrow> k \<notin> dirty s kk \<Longrightarrow> agrees (local_value s kk k) k r"
      using inv w kk p(1) unfolding in_step_def nm(1)[OF kk] by blast
    have lv: "local_value s' kk k = local_value s kk k" for k using nm(2)[OF kk] by (simp add: local_value_def)
    have "\<exists>r'. map_of (fst (drained s')) (snd_Name (sendlist s ! kk)) = Some r' \<and>
       (\<forall>k. updateOk f (snd_Name (sendlist s ! kk)) k \<longrightarrow> k \<notin> dirty s' kk \<longrightarrow> agrees (local_value s kk k) k r')"
    proof (cases "kk = ii")
      case False
      then have ne: "snd_Name ?x \<noteq> snd_Name (sendlist s ! kk)" using inv kk ii by (simp add: distinct_conv_nth)
      have "map_of (fst (drained s')) (snd_Name (sendlist s ! kk)) = Some r"
        using ne r1 by (auto simp: d n recv_notice_receiver split: option.split simp del: map_of_eq_Some_iff)
      moreover have "dirty s' kk = dirty s kk" using nm(3,4)[OF kk] assms(2) False by (simp add: dirty_def sending_def s')
      ultimately show ?thesis using r2 by blast
    next
      case True
      have dirty: "k \<notin> dirty s ii" if "k \<notin> dirty s' ii" "k \<noteq> key" for k
      proof -
        have "sending s ii = insert key (sending s' ii)" using assms(2) mem by (simp add: sending_def fld)
        then show ?thesis using that nm(3,4)[OF ii] by (simp add: dirty_def s')
      qed
      obtain r' where "map_of (fst (drained s')) (snd_Name ?x) = Some r'"
        "\<And>k. k = key \<or> agrees (local_value s ii k) k r \<Longrightarrow> agrees (local_value s ii k) k r'"
        using agrees_sent[OF wf ctx, of "drained s" r zero key] r1 True unfolding d local_value_def by auto
      then show ?thesis using True r2 dirty by metis
    qed
    then show "\<exists>r. map_of (fst (drained s')) (snd_Name (sendlist s' ! kk)) = Some r \<and>
       (\<forall>k. updateOk f (snd_Name (sendlist s' ! kk)) k \<longrightarrow> \<not> uncovered s' kk \<longrightarrow> k \<notin> dirty s' kk \<longrightarrow> agrees (local_value s' kk k) k r)"
      unfolding nm(1)[OF kk] lv using p(2) by blast
  qed
  ultimately show ?thesis using inv map by (simp add: notify_inv_def)
qed

subsection \<open>Runs of a connection\<close>

definition event_ok :: "('k, 'd) event \<Rightarrow> bool" where
  "event_ok e = (case e of Change _ x \<Rightarrow> op_ok x | _ \<Rightarrow> True)"

inductive conn_run :: "'k SendFilter \<Rightarrow> 'd \<Rightarrow> ('k, 'd) SendRecv \<Rightarrow> ('k, 'd) SendRecv \<Rightarrow> bool" for f zero s0 where
  connect: "conn_run f zero s0 s0"
| event: "conn_run f zero s0 s \<Longrightarrow> event_ok e \<Longrightarrow> happen f zero e s = Some s' \<Longrightarrow> conn_run f zero s0 s'"

lemma inv_loop_step:
  assumes "notify_inv f s" "loop_step f zero jj s = Some s'"
  shows "notify_inv f s'"
proof (cases "pc s")
  case AtSelect
  then show ?thesis using assms inv_AtSelect[OF assms(1) AtSelect] by (simp add: loop_step_def split: if_splits)
next
  case (AtUpdateAll n)
  show ?thesis
  proof (cases n)
    case 0
    then show ?thesis using assms inv_AtUpdateAll_0[of f s s'] AtUpdateAll by (simp add: loop_step_def)
  next
    case (Suc ii)
    then show ?thesis using assms inv_AtUpdateAll[of f s ii s'] inv_AtUpdateAll_skip[of f s ii s'] AtUpdateAll
      by (cases "sendAll s") (simp_all add: loop_step_def)
  qed
next
  case (AtPrepData ii)
  obtain snd' has where p: "send_PrepData (sendlist s ! ii) = (snd', has)" by (meson surj_pair)
  show ?thesis using assms(2) inv_AtPrepData[OF assms(1) AtPrepData p refl] AtPrepData p by (simp add: loop_step_def)
next
  case (AtTake ii)
  then show ?thesis using assms inv_AtTake[OF assms(1) AtTake] inv_AtTake_last[OF assms(1) AtTake]
    by (simp add: loop_step_def send_take_def split: if_splits)
next
  case (AtSend ii todo)
  show ?thesis
  proof (cases "todo = []")
    case True
    then show ?thesis using assms inv_AtSend_next[of f s ii s'] AtSend by (simp add: loop_step_def)
  next
    case False
    then show ?thesis using assms(2) inv_AtSend[OF assms(1) AtSend _ refl, of jj zero] AtSend by (simp add: loop_step_def split: if_splits)
  qed
next
  case AtEnd
  then show ?thesis using assms inv_AtEnd[OF assms(1) AtEnd] by (simp add: loop_step_def Let_def)
qed

lemma inv_happen:
  assumes "notify_inv f s" "event_ok e" "happen f zero e s = Some s'"
  shows "notify_inv f s'"
proof (cases e)
  case (Change ii x)
  obtain c calls where r: "run_op x (snd_handler (sendlist s ! ii)) = (c, calls)" by (meson surj_pair)
  show ?thesis using assms(2,3) inv_Change[OF assms(1) _ _ r refl] Change r
    by (simp add: happen_def event_ok_def split: if_splits)
next
  case (Notified jj)
  obtain ii obj modRev where d: "due s ! jj = (ii, obj, modRev)" by (cases "due s ! jj")
  obtain snd' woken where u: "send_Update f obj modRev (sendlist s ! ii) = (snd', woken)" by (meson surj_pair)
  show ?thesis using assms(3) d u inv_Notified[OF assms(1) _ d u refl] Notified by (simp add: happen_def split: if_splits)
next
  case Wake
  then show ?thesis using assms(3) inv_Wake[OF assms(1)] by (simp add: happen_def split: if_splits)
next
  case (Loop jj)
  then show ?thesis using assms inv_loop_step by (simp add: happen_def)
next
  case Deliver
  then show ?thesis using assms(3) inv_Deliver[OF assms(1) _ refl] by (simp add: happen_def split: list.splits)
next
  case Trigger
  then show ?thesis using assms(3) inv_Trigger[OF assms(1)] by (simp add: happen_def)
qed

lemma inv_connected: "conn_run f zero s0 s \<Longrightarrow> notify_inv f s0 \<Longrightarrow> notify_inv f s"
  by (induction rule: conn_run.induct) (auto intro: inv_happen)

text \<open>What a connection starts from: each kind is registered once, the sender's caches notify it, and the remote side receives what it wants.\<close>

definition start_ok :: "'k SendFilter \<Rightarrow> (string \<times> ('k, 'd) ObjCache) list \<Rightarrow> (string \<times> ('k, 'd) ObjCache) list \<Rightarrow> bool" where
  "start_ok f senders receivers \<longleftrightarrow> distinct (map fst senders)
     \<and> list_all (\<lambda>(_, c). cache_wf c \<and> 0 \<in> set (NotifyCbs c)) senders \<and> list_all (\<lambda>name. name \<in> fst ` set receivers) (remoteWanted f)"

lemma inv_start:
  assumes "start_ok f senders receivers"
  shows "notify_inv f (start manual senders receivers)"
proof -
  let ?s = "start manual senders receivers"
  have nth: "sendlist ?s ! ii = NewSend (fst (senders ! ii)) (snd (senders ! ii))" if "ii < length senders" for ii
    using that by (simp add: start_def case_prod_beta)
  have l: "length (sendlist ?s) = length senders" by (simp add: start_def)
  have "distinct (map snd_Name (sendlist ?s))" using assms by (simp add: start_ok_def start_def comp_def case_prod_beta NewSend_def)
  moreover have "control ?s" unfolding control_def l
    by (simp add: nth NewSend_def pc_ok_def) (simp add: start_def)
  moreover have "no_force ?s" unfolding no_force_def l by (simp add: nth NewSend_def unforced_def) (simp add: start_def)
  moreover have rcv: "sendAllKeys r = Some []" if "map_of (fst (receiver ?s)) name = Some r" for name r
    using that by (auto simp: start_def RecvAllStart_def map_of_map_snd simp del: map_of_eq_Some_iff)
  then have "fresh ?s" by (simp add: fresh_def start_def del: map_of_eq_Some_iff)
  moreover have "handlers_ok ?s" using assms nth by (auto simp: handlers_ok_def l start_ok_def list_all_length NewSend_def case_prod_beta)
  moreover have "drained ?s = receiver ?s" by (simp add: drained_def start_def)
  moreover have "snd (receiver ?s)" by (simp add: start_def)
  then have "collecting (receiver ?s)" using rcv unfolding collecting_def by auto
  moreover have "\<exists>r. map_of (fst (receiver ?s)) name = Some r" if "isRemoteWanted f name" for name
  proof -
    have "map_of receivers name \<noteq> None" using assms that by (auto simp: start_ok_def isRemoteWanted_def list_all_iff map_of_eq_None_iff)
    then show ?thesis by (auto simp: start_def map_of_map_snd simp del: map_of_eq_None_keys)
  qed
  moreover have "uncovered ?s ii" for ii by (simp add: uncovered_def start_def)
  ultimately show ?thesis unfolding notify_inv_def in_step_def by simp
qed

subsection \<open>Properties\<close>

text \<open>Nothing is left to do: no callback is due, nobody is about to wake the loop, which waits, and the stream is empty.\<close>

definition idle :: "('k, 'd) SendRecv \<Rightarrow> bool" where
  "idle s \<longleftrightarrow> due s = [] \<and> wakers s = 0 \<and> pc s = AtSelect \<and> \<not> signal s \<and> stream s = []"

lemma idle_in_step:
  assumes "notify_inv f s" "idle s" "ii < length (sendlist s)" "isRemoteWanted f (snd_Name (sendlist s ! ii))"
    and "updateOk f (snd_Name (sendlist s ! ii)) k"
  shows "\<exists>r. map_of (fst (receiver s)) (snd_Name (sendlist s ! ii)) = Some r \<and>
    (case local_value s ii k of Some v \<Rightarrow> GetWithRev (rcv_handler r) k = Some v
     | None \<Rightarrow> GetWithRev (rcv_handler r) k = None \<or> manualSendAllEnd s)"
proof -
  note inv = assms(1)[unfolded notify_inv_def]
  have i: "due s = []" "wakers s = 0" "pc s = AtSelect" "\<not> signal s" "stream s = []" using assms(2) by (simp_all add: idle_def)
  have d: "drained s = receiver s" by (simp add: drained_def i)
  have c: "snd_Keys (sendlist s ! ii) = []" "keysToSend (sendlist s ! ii) = []" "\<not> sendAll s" "snd (receiver s) \<Longrightarrow> manualSendAllEnd s"
    using inv assms(3) i d by (auto simp: control_def will_prep_def will_take_def)
  then have clean: "k \<notin> dirty s ii" "\<not> uncovered s ii" by (simp_all add: dirty_def i sending_def uncovered_def)
  then obtain r where r: "map_of (fst (receiver s)) (snd_Name (sendlist s ! ii)) = Some r" "agrees (local_value s ii k) k r"
    using inv assms(3-5) unfolding in_step_def d by blast
  have "sendAllKeys r = None \<or> manualSendAllEnd s" using inv r(1) c(4) unfolding collecting_def d by blast
  then show ?thesis using r by (auto simp: agrees_def split: option.splits)
qed


text \<open>The steps the connection takes by itself, and how far it has got.\<close>

definition own_step :: "'k SendFilter \<Rightarrow> 'd \<Rightarrow> ('k, 'd) SendRecv \<Rightarrow> ('k, 'd) SendRecv \<Rightarrow> bool" where
  "own_step f zero s s' \<longleftrightarrow> (\<exists>e. (case e of Change _ _ \<Rightarrow> False | Trigger \<Rightarrow> False | _ \<Rightarrow> True) \<and> happen f zero e s = Some s')"

definition loop_left :: "('k, 'd) SendRecv \<Rightarrow> nat" where
  "loop_left s = (let n = length (sendlist s) in
     case pc s of AtSelect \<Rightarrow> 0 | AtEnd \<Rightarrow> 1 | AtTake m \<Rightarrow> 2 + 2 * (n - m) | AtSend m _ \<Rightarrow> 1 + 2 * (n - m)
     | AtUpdateAll m \<Rightarrow> 3 + 2 * n + 2 * m | AtPrepData m \<Rightarrow> 4 + 2 * n + 2 * m)"

definition progress :: "(('k, 'd) SendRecv \<times> ('k, 'd) SendRecv) set" where
  "progress = measures [\<lambda>s. length (due s), wakers, \<lambda>s. if signal s then 1 else 0, loop_left,
     \<lambda>s. case pc s of AtSend _ todo \<Rightarrow> length todo | _ \<Rightarrow> 0, \<lambda>s. length (stream s)]"

lemma loop_step_progress:
  assumes "pc_ok s" "loop_step f zero jj s = Some s'"
  shows "(s', s) \<in> progress"
proof (cases "pc s")
  case (AtUpdateAll n)
  then show ?thesis using assms
    by (cases n; cases "sendAll s"; cases "hasData s"; cases "sampledEnd s") (auto simp: loop_step_def progress_def loop_left_def Let_def)
next
  case (AtSend ii todo)
  then show ?thesis using assms
    by (cases "todo = []") (auto simp: loop_step_def progress_def loop_left_def pc_ok_def Let_def split: if_splits)
qed (use assms in \<open>auto simp: loop_step_def progress_def loop_left_def pc_ok_def Let_def send_take_def send_PrepData_def split: if_splits\<close>)

lemma own_step_progress:
  assumes "notify_inv f s" "own_step f zero s s'"
  shows "(s', s) \<in> progress"
proof -
  obtain e where e: "case e of Change _ _ \<Rightarrow> False | Trigger \<Rightarrow> False | _ \<Rightarrow> True" "happen f zero e s = Some s'"
    using assms(2) unfolding own_step_def by blast
  then show ?thesis
  proof (cases e)
    case (Loop jj)
    have "pc_ok s" using assms(1) by (simp add: notify_inv_def control_def)
    moreover have "loop_step f zero jj s = Some s'" using e Loop by (simp add: happen_def)
    ultimately show ?thesis by (rule loop_step_progress)
  next
    case Deliver
    then show ?thesis using e by (auto simp: happen_def progress_def loop_left_def split: list.splits)
  next
    case (Notified jj)
    then show ?thesis using e by (auto simp: happen_def progress_def split: if_splits prod.splits)
  next
    case Wake
    then show ?thesis using e by (auto simp: happen_def progress_def wakeup_def split: if_splits)
  qed auto
qed

lemma own_step_inv: "notify_inv f s \<Longrightarrow> own_step f zero s s' \<Longrightarrow> notify_inv f s'"
proof -
  assume inv: "notify_inv f s" and "own_step f zero s s'"
  then obtain e where "case e of Change _ _ \<Rightarrow> False | Trigger \<Rightarrow> False | _ \<Rightarrow> True" "happen f zero e s = Some s'"
    unfolding own_step_def by blast
  moreover from this have "event_ok e" by (simp add: event_ok_def split: event.splits)
  ultimately show ?thesis using inv_happen[OF inv] by blast
qed

lemma not_idle_steps:
  assumes "\<not> idle s"
  shows "\<exists>s'. own_step f zero s s'"
proof -
  have "\<exists>e s'. (case e of Change _ _ \<Rightarrow> False | Trigger \<Rightarrow> False | _ \<Rightarrow> True) \<and> happen f zero e s = Some s'"
  proof (cases "due s = [] \<and> wakers s = 0 \<and> stream s = []")
    case True
    then have "pc s \<noteq> AtSelect \<or> signal s" using assms by (auto simp: idle_def)
    then have "\<exists>s'. loop_step f zero 0 s = Some s'"
      by (cases "pc s") (auto simp: loop_step_def Let_def split: nat.splits prod.splits)
    then show ?thesis by (intro exI[of _ "Loop 0"]) (auto simp: happen_def)
  next
    case False
    then consider "due s \<noteq> []" | "0 < wakers s" | "stream s \<noteq> []" by blast
    then show ?thesis
    proof cases
      case 1
      then show ?thesis by (intro exI[of _ "Notified 0"]) (auto simp: happen_def split: prod.splits)
    next
      case 2
      then show ?thesis by (intro exI[of _ Wake]) (auto simp: happen_def)
    next
      case 3
      then show ?thesis by (intro exI[of _ Deliver]) (auto simp: happen_def split: list.splits)
    qed
  qed
  then show ?thesis unfolding own_step_def by blast
qed


subsection \<open>Concrete runs\<close>

fun run_events :: "'k SendFilter \<Rightarrow> 'd \<Rightarrow> ('k, 'd) event list \<Rightarrow> ('k, 'd) SendRecv \<Rightarrow> ('k, 'd) SendRecv option" where
  "run_events f zero [] s = Some s"
| "run_events f zero (e # es) s = (case happen f zero e s of None \<Rightarrow> None | Some s' \<Rightarrow> run_events f zero es s')"

lemma run_events_connected:
  "run_events f zero es s = Some s' \<Longrightarrow> conn_run f zero s0 s \<Longrightarrow> list_all event_ok es \<Longrightarrow> conn_run f zero s0 s'"
proof (induction es arbitrary: s)
  case (Cons e es)
  then obtain s1 where "happen f zero e s = Some s1" "run_events f zero es s1 = Some s'" by (auto split: option.splits)
  then show ?case using Cons.IH[of s1] Cons.prems conn_run.event[of f zero s0 s e s1] by simp
qed simp

definition put :: "string \<Rightarrow> nat \<Rightarrow> (string, nat) cache_op" where
  "put k n = OpUpdateMod k (int n) (\<lambda>_. ((k, n), True))"

lemma op_ok_put [simp]: "op_ok (put k n)"
  by (simp add: put_def)

definition demo_filter :: "string SendFilter" where
  "demo_filter = \<lparr>remoteWanted = [''App'', ''AppInst''], updateOk = (\<lambda>_ _. True)\<rparr>"

definition demo_senders :: "(string \<times> (string, nat) ObjCache) list" where
  "demo_senders = [(''App'', fst (cache_Update (''a'', 5) 1 (AddNotifyCb 0 InitCache))), (''AppInst'', AddNotifyCb 0 InitCache)]"

definition demo_receivers :: "(string \<times> (string, nat) ObjCache) list" where
  "demo_receivers = [(''App'', fst (cache_Update (''old'', 3) 1 InitCache)), (''AppInst'', InitCache)]"

lemma demo_start_ok: "start_ok demo_filter demo_senders demo_receivers"
  by code_simp

text \<open>The initial send, then an update.\<close>

definition demo_events :: "(string, nat) event list" where
  "demo_events = replicate 13 (Loop 0) @ [Deliver, Deliver, Change 0 (put ''a'' 6), Notified 0, Wake] @ replicate 13 (Loop 0) @ [Deliver]"

definition demo_end :: "(string, nat) SendRecv option" where
  "demo_end = run_events demo_filter 0 demo_events (start False demo_senders demo_receivers)"



text \<open>A run in which an instance overtakes its application.\<close>

definition overtake :: "(string, nat) SendRecv option" where
  "overtake = run_events demo_filter 0
     (replicate 13 (Loop 0) @ [Change 1 (put ''i'' 1), Notified 0, Wake] @ replicate 5 (Loop 0)
      @ [Change 0 (put ''n'' 1), Notified 0, Wake, Change 1 (put ''i'' 2), Notified 0, Wake] @ replicate 6 (Loop 0) @ replicate 3 Deliver)
     (start False demo_senders demo_receivers)"

text \<open>
  The send order does not protect dependencies. \<open>AppInst\<close> is sent after \<open>App\<close>, and the keys are gathered in the reverse order, yet an
  instance can reach the receiver before the application it was created for: the values are read when they are sent, not when their
  keys are gathered. In this run the application \<open>a\<close> is stored and notified before the instance is updated to refer to it (value 2).
\<close>

theorem dependent_sent_first:
  "\<exists>s app inst. overtake = Some s \<and> map_of (fst (receiver s)) ''App'' = Some app \<and> map_of (fst (receiver s)) ''AppInst'' = Some inst
    \<and> cache_Get (rcv_handler inst) ''i'' = Some (''i'', 2) \<and> cache_Get (rcv_handler app) ''n'' = None
    \<and> cache_Get (snd_handler (sendlist s ! 0)) ''n'' = Some (''n'', 1)"
proof -
  have "map_option (\<lambda>s. (map_option (\<lambda>r. cache_Get (rcv_handler r) ''n'') (map_of (fst (receiver s)) ''App''),
      map_option (\<lambda>r. cache_Get (rcv_handler r) ''i'') (map_of (fst (receiver s)) ''AppInst''), cache_Get (snd_handler (sendlist s ! 0)) ''n'')) overtake
    = Some (Some None, Some (Some (''i'', 2)), Some (''n'', 1))" by code_simp
  then show ?thesis by (auto simp: map_option_eq_Some)
qed

subsection \<open>Filters\<close>

text \<open>\<^verbatim>\<open>notify_customupdate.go\<close>: which updates pass, and which sends of other kinds they trigger.\<close>

record NotifyCloudletKey =
  nck_Organization :: string
  nck_Name :: string
  nck_FederatedOrganization :: string

record NotifyCloudlet =
  nc_Key :: NotifyCloudletKey
  nc_VmPool :: string
  nc_DriverName :: string
  nc_DriverOrganization :: string

record CloudletFilter =
  filterCloudletKeys :: bool
  filterFederatedCloudlet :: bool
  cloudletKeys :: "NotifyCloudletKey list"
  cloudletReady :: bool

definition hasCloudletKey :: "CloudletFilter \<Rightarrow> NotifyCloudletKey \<Rightarrow> bool" where
  "hasCloudletKey s key \<longleftrightarrow> key \<in> set (cloudletKeys s)"

definition updateCloudletKey :: "bool \<Rightarrow> NotifyCloudletKey \<Rightarrow> CloudletFilter \<Rightarrow> CloudletFilter" where
  "updateCloudletKey is_update key s =
     s\<lparr>cloudletKeys := if is_update then List.insert key (cloudletKeys s) else removeAll key (cloudletKeys s)\<rparr>"

text \<open>Cluster instances, exec requests and policy exception states, by the cloudlet they are on.\<close>

definition ClusterInst_UpdateOk :: "CloudletFilter \<Rightarrow> NotifyCloudletKey \<Rightarrow> bool" where
  "ClusterInst_UpdateOk s key =
     (if filterCloudletKeys s \<and> \<not> cloudletReady s then False
      else if filterCloudletKeys s \<and> \<not> hasCloudletKey s key then False
      else if filterFederatedCloudlet s \<and> nck_FederatedOrganization key = [] then False
      else True)"

definition AppInst_UpdateOk :: "CloudletFilter \<Rightarrow> NotifyCloudletKey \<Rightarrow> 'a \<Rightarrow> bool \<times> 'a list" where
  "AppInst_UpdateOk s key appKey =
     (if filterCloudletKeys s \<and> (\<not> cloudletReady s \<or> \<not> hasCloudletKey s key) then (False, [])
      else if filterFederatedCloudlet s \<and> nck_FederatedOrganization key = [] then (False, [])
      else (True, if filterCloudletKeys s \<or> filterFederatedCloudlet s then [appKey] else []))"

text \<open>The triggered sends are computed from a new empty cloudlet that hides the argument.\<close>

definition Cloudlet_UpdateOk :: "CloudletFilter \<Rightarrow> NotifyCloudlet \<Rightarrow> bool \<times> (string \<times> string) list \<times> (string \<times> string) list" where
  "Cloudlet_UpdateOk s cloudlet =
     (let triggerSend = filterCloudletKeys s;
          none = \<lparr>nc_Key = \<lparr>nck_Organization = [], nck_Name = [], nck_FederatedOrganization = []\<rparr>, nc_VmPool = [], nc_DriverName = [],
                  nc_DriverOrganization = []\<rparr>
      in if filterCloudletKeys s \<and> \<not> hasCloudletKey s (nc_Key cloudlet) then (False, [], [])
         else if filterFederatedCloudlet s \<and> nck_FederatedOrganization (nc_Key cloudlet) = [] then (False, [], [])
         else if triggerSend then
           let cloudlet = none
           in (True, if nc_VmPool cloudlet \<noteq> [] then [(nck_Organization (nc_Key cloudlet), nc_VmPool cloudlet)] else [],
               if nc_DriverName cloudlet \<noteq> [] then [(nc_DriverOrganization cloudlet, nc_DriverName cloudlet)] else [])
         else (True, [], []))"

definition VMPool_UpdateOk :: "CloudletFilter \<Rightarrow> (NotifyCloudletKey \<Rightarrow> NotifyCloudlet option) \<Rightarrow> string \<times> string \<Rightarrow> bool" where
  "VMPool_UpdateOk s cloudlets pool =
     (if filterCloudletKeys s then
        list_ex (\<lambda>cKey. nck_Organization cKey = fst pool \<and> (case cloudlets cKey of None \<Rightarrow> False | Some c \<Rightarrow> nc_VmPool c = snd pool)) (cloudletKeys s)
      else True)"

definition TrustPolicyException_UpdateOk :: "CloudletFilter \<Rightarrow> string \<Rightarrow> bool" where
  "TrustPolicyException_UpdateOk s org = (if filterCloudletKeys s then list_ex (\<lambda>cKey. nck_Organization cKey = org) (cloudletKeys s) else True)"

text \<open>For the initial send: objects on cloudlets, and the kinds a filtered connection never gets at once.\<close>

definition Cloudlet_UpdateAllOk :: "CloudletFilter \<Rightarrow> NotifyCloudletKey \<Rightarrow> bool" where
  "Cloudlet_UpdateAllOk s key =
     (if filterCloudletKeys s then False
      else if filterFederatedCloudlet s \<and> nck_FederatedOrganization key = [] then False
      else True)"

definition VMPool_UpdateAllOk :: "CloudletFilter \<Rightarrow> bool" where
  "VMPool_UpdateAllOk s \<longleftrightarrow> \<not> filterCloudletKeys s"

text \<open>
  An update of a cloudlet never triggers the send of its VM pool and of its GPU driver, as the comment in the code wants: a
  connection that is filtered by cloudlets and whose cloudlet comes to refer to another pool does not get that pool.
\<close>

theorem cloudlet_update_triggers_nothing:
  "snd (Cloudlet_UpdateOk s cloudlet) = ([], [])"
  by (simp add: Cloudlet_UpdateOk_def Let_def)

theorem filtered_pool_not_sent:
  "\<exists>s cloudlet. filterCloudletKeys s \<and> fst (Cloudlet_UpdateOk s cloudlet) \<and> nc_VmPool cloudlet \<noteq> []
    \<and> VMPool_UpdateOk s (\<lambda>_. Some cloudlet) (nck_Organization (nc_Key cloudlet), nc_VmPool cloudlet)
    \<and> snd (Cloudlet_UpdateOk s cloudlet) = ([], [])"
proof -
  let ?k = "\<lparr>nck_Organization = ''o'', nck_Name = ''c'', nck_FederatedOrganization = []\<rparr>"
  let ?s = "\<lparr>filterCloudletKeys = True, filterFederatedCloudlet = False, cloudletKeys = [?k], cloudletReady = True\<rparr>"
  let ?c = "\<lparr>nc_Key = ?k, nc_VmPool = ''pool'', nc_DriverName = [], nc_DriverOrganization = []\<rparr>"
  show ?thesis
    by (intro exI[of _ ?s] exI[of _ ?c]) (simp add: Cloudlet_UpdateOk_def VMPool_UpdateOk_def hasCloudletKey_def Let_def)
qed

subsection \<open>Servers\<close>

text \<open>The version the server settles on, and the flags for the end of the initial send (\<^verbatim>\<open>notify_server.go\<close>, \<^verbatim>\<open>notify_client.go\<close>).\<close>

definition NotifyVersion :: nat where "NotifyVersion = 1"

definition server_negotiate :: "nat \<Rightarrow> bool \<Rightarrow> nat \<times> bool \<times> bool" where
  "server_negotiate reqVersion filterCloudletKey =
     ((if reqVersion > NotifyVersion then reqVersion else NotifyVersion), \<not> filterCloudletKey, filterCloudletKey)"

definition client_version :: "nat \<Rightarrow> nat \<Rightarrow> nat" where
  "client_version requestVersion replyVersion = (if requestVersion > replyVersion then replyVersion else requestVersion)"

text \<open>The comment promises the lowest common version; a newer client is answered with its own version.\<close>

theorem server_takes_highest_version:
  "fst (server_negotiate v b) = max v NotifyVersion \<and> client_version v (fst (server_negotiate v b)) = v \<or> v < NotifyVersion"
  by (auto simp: server_negotiate_def client_version_def)

text \<open>
  The sends of a server for one kind, by peer: the number of the connection, the send, and its connection once it is registered there.
\<close>

type_synonym ('k, 'd) SendMany = "(string, nat \<times> ('k, 'd) ObjSend \<times> 'k SendFilter option) gomap"

definition SendMany_NewSend :: "string \<Rightarrow> ('k, 'd) ObjCache \<Rightarrow> string \<Rightarrow> nat \<Rightarrow> ('k, 'd) SendMany \<Rightarrow> ('k, 'd) SendMany" where
  "SendMany_NewSend name handler peerAddr notifyId sends = AList.update peerAddr (notifyId, NewSend name handler, None) sends"

definition registerSend :: "string \<Rightarrow> 'k SendFilter \<Rightarrow> ('k, 'd) SendMany \<Rightarrow> ('k, 'd) SendMany" where
  "registerSend peerAddr f sends =
     (case map_of sends peerAddr of None \<Rightarrow> sends | Some (notifyId, s, _) \<Rightarrow> AList.update peerAddr (notifyId, s, Some f) sends)"

definition SendMany_DoneSend :: "string \<Rightarrow> nat \<Rightarrow> ('k, 'd) SendMany \<Rightarrow> ('k, 'd) SendMany" where
  "SendMany_DoneSend peerAddr notifyId sends =
     (case map_of sends peerAddr of None \<Rightarrow> sends | Some (n, _) \<Rightarrow> if n = notifyId then AList.delete peerAddr sends else sends)"

text \<open>A send that is not registered yet has no connection: its \<^verbatim>\<open>Update\<close> dereferences a nil pointer (\<open>None\<close>).\<close>

definition SendMany_Update :: "('k, 'd) obj \<Rightarrow> int \<Rightarrow> ('k, 'd) SendMany \<Rightarrow> ('k, 'd) SendMany option" where
  "SendMany_Update obj modRev sends =
     (if list_ex (\<lambda>(_, _, _, conn). conn = None) sends then None
      else Some (map (\<lambda>(peer, n, s, conn). (peer, n, fst (send_Update (the conn) obj modRev s), conn)) sends))"

lemma update_keeps_mem: "(k, v) \<in> set (AList.update k v m)"
  by (induction m) auto

text \<open>
  The server puts the send of a new connection among those that get the updates of the cache before it registers it with the
  connection: an update of the cache in between panics.
\<close>

theorem update_of_new_send_panics:
  "SendMany_Update obj modRev (SendMany_NewSend name handler peerAddr notifyId sends) = None"
  using update_keeps_mem[of peerAddr "(notifyId, NewSend name handler, None)" sends]
  by (auto simp: SendMany_Update_def SendMany_NewSend_def list_ex_iff intro!: bexI)

end
