(* ===== verification/HAManager.thy ===== *)
theory HAManager
  imports Prelude
begin

text \<open>
  High availability of the platform services (\<^verbatim>\<open>pkg/redundancy/ha_manager.go\<close>): a primary and a secondary node compete for a lease, a
  key in redis that names the active role and expires. Redis, the clock and the callbacks of the platform are outside the repository:
  they are an argument, functions on the state of the world around the node. What happens elsewhere while the node sleeps or waits
  is a change of that state. Theorems about the lease assume what redis documents of its commands (\<open>redis_lease\<close>).
\<close>

subsection \<open>The node\<close>

text \<open>A command yields \<open>None\<close> when redis cannot be reached. The value \<open>Some None\<close> of a get is \<^verbatim>\<open>redis.Nil\<close>.\<close>

record 'w world =
  w_now :: "'w \<Rightarrow> int"
  w_sleep :: "int \<Rightarrow> 'w \<Rightarrow> 'w"
  w_Ping :: "'w \<Rightarrow> 'w \<times> bool"
  w_Get :: "'w \<Rightarrow> 'w \<times> string option option"
  w_SetNX :: "string \<Rightarrow> int \<Rightarrow> 'w \<Rightarrow> 'w \<times> bool option"
  w_Set :: "string \<Rightarrow> int \<Rightarrow> 'w \<Rightarrow> 'w \<times> bool"
  w_PreSwitch :: "'w \<Rightarrow> 'w \<times> bool"
  w_PostSwitch :: "'w \<Rightarrow> 'w \<times> bool"

definition HARolePrimary :: string where "HARolePrimary = ''primary''"
definition HARoleSecondary :: string where "HARoleSecondary = ''secondary''"

definition MaxRedisUnreachableRetries :: nat where "MaxRedisUnreachableRetries = 3"

text \<open>The last two fields are variables of the loop.\<close>

record HighAvailabilityManager =
  HARole :: string
  HAEnabled :: bool
  activeDuration :: int
  activePollInterval :: int
  PlatformInstanceActive :: bool
  ActiveTransitionInProgress :: bool
  RedisConnectionFailed :: bool
  timeLastBumpActive :: int
  timeLastCheckActive :: int

definition CheckActive :: "'w world \<Rightarrow> HighAvailabilityManager \<Rightarrow> 'w \<Rightarrow> 'w \<times> bool option" where
  "CheckActive W s w = (case w_Get W w of (w, r) \<Rightarrow> (w, map_option (\<lambda>v. v = Some (HARole s)) r))"

definition BumpActiveExpire :: "'w world \<Rightarrow> HighAvailabilityManager \<Rightarrow> 'w \<Rightarrow> 'w \<times> bool" where
  "BumpActiveExpire W s w = w_Set W (HARole s) (activeDuration s) w"

text \<open>The outer \<open>None\<close> is the end of the process (\<^verbatim>\<open>log.FatalLog\<close>), the inner one an error of redis.\<close>

definition tryActive :: "'w world \<Rightarrow> HighAvailabilityManager \<Rightarrow> 'w \<Rightarrow> 'w \<times> bool option option" where
  "tryActive W s w =
     (if \<not> RedisConnectionFailed s \<and> (PlatformInstanceActive s \<or> ActiveTransitionInProgress s) then (w, None)
      else case (if RedisConnectionFailed s then (w, Some False) else CheckActive W s w) of
          (w, None) \<Rightarrow> (w, Some None)
        | (w, Some alreadyActive) \<Rightarrow>
            if alreadyActive then (fst (BumpActiveExpire W s w), Some (Some True))
            else (case w_SetNX W (HARole s) (activeDuration s) w of (w, v) \<Rightarrow> (w, Some v)))"

fun tryActive_retry :: "'w world \<Rightarrow> HighAvailabilityManager \<Rightarrow> nat \<Rightarrow> 'w \<Rightarrow> 'w \<times> bool option option" where
  "tryActive_retry W s 0 w = (w, Some None)"
| "tryActive_retry W s (Suc n) w =
     (case tryActive W s w of
        (w, Some None) \<Rightarrow> tryActive_retry W s n (w_sleep W (activePollInterval s) w)
      | r \<Rightarrow> r)"

fun bump_retry :: "'w world \<Rightarrow> HighAvailabilityManager \<Rightarrow> nat \<Rightarrow> 'w \<Rightarrow> 'w \<times> bool" where
  "bump_retry W s 0 w = (w, False)"
| "bump_retry W s (Suc n) w = (case BumpActiveExpire W s w of (w, ok) \<Rightarrow> if ok then (w, True) else bump_retry W s n w)"

definition updateRedisFailed :: "bool \<Rightarrow> HighAvailabilityManager \<Rightarrow> HighAvailabilityManager" where
  "updateRedisFailed failed s = (if failed = RedisConnectionFailed s then s else s\<lparr>RedisConnectionFailed := failed\<rparr>)"

text \<open>Startup, as far as redis is concerned. \<open>redisUp\<close>: the connection could be made; the second result is an error.\<close>

definition ha_Init :: "'w world \<Rightarrow> string \<Rightarrow> bool \<Rightarrow> string \<Rightarrow> bool \<Rightarrow> int \<Rightarrow> int \<Rightarrow> 'w \<Rightarrow> 'w \<times> HighAvailabilityManager option \<times> bool" where
  "ha_Init W role addrSpecified nodeGroupKey redisUp duration poll w =
     (let s = \<lparr>HARole = role, HAEnabled = False, activeDuration = duration, activePollInterval = poll, PlatformInstanceActive = False,
              ActiveTransitionInProgress = False, RedisConnectionFailed = False, timeLastBumpActive = w_now W w, timeLastCheckActive = w_now W w\<rparr>
      in if role \<noteq> HARolePrimary \<and> role \<noteq> HARoleSecondary then (w, Some s, False)
         else if \<not> addrSpecified then (w, Some (s\<lparr>PlatformInstanceActive := True\<rparr>), False)
         else if nodeGroupKey = [] then (w, Some s, False)
         else let s = s\<lparr>HAEnabled := True\<rparr>
              in if \<not> redisUp then
                   let s = updateRedisFailed True s
                   in (w, Some (if role = HARolePrimary then s\<lparr>PlatformInstanceActive := True\<rparr> else s), True)
                 else (case tryActive W s w of
                         (w, None) \<Rightarrow> (w, None, False)
                       | (w, Some None) \<Rightarrow> (w, Some s, False)
                       | (w, Some (Some active)) \<Rightarrow> (w, Some (s\<lparr>PlatformInstanceActive := active\<rparr>), True)))"

text \<open>The switchover; the result of the second callback is ignored, the test after it looks at the error of the first.\<close>

definition switchover :: "'w world \<Rightarrow> HighAvailabilityManager \<Rightarrow> 'w \<Rightarrow> 'w \<times> HighAvailabilityManager option" where
  "switchover W s w =
     (let s = s\<lparr>timeLastBumpActive := w_now W w, ActiveTransitionInProgress := True\<rparr>;
          (w, ok) = w_PreSwitch W w
      in if \<not> ok then (w, None)
         else (fst (w_PostSwitch W w), Some (s\<lparr>PlatformInstanceActive := True, ActiveTransitionInProgress := False\<rparr>)))"

text \<open>One pass of \<^verbatim>\<open>CheckActiveLoop\<close> up to its sleep at the end, which is the \<open>int\<close> of the result. \<open>None\<close> ends the process.\<close>

definition inactive_pass :: "'w world \<Rightarrow> HighAvailabilityManager \<Rightarrow> 'w \<Rightarrow> 'w \<times> (HighAvailabilityManager \<times> int) option" where
  "inactive_pass W s w =
     (if RedisConnectionFailed s \<and> HARole s = HARoleSecondary then
        (case w_Ping W w of (w, ok) \<Rightarrow> (w, Some (if ok then updateRedisFailed False s else s, activePollInterval s * 2)))
      else
        case tryActive_retry W s MaxRedisUnreachableRetries w of
          (w, None) \<Rightarrow> (w, None)
        | (w, Some r) \<Rightarrow>
            let s = updateRedisFailed (r = None) s;
                transitionToActive = (case r of None \<Rightarrow> HARole s = HARolePrimary | Some active \<Rightarrow> active)
            in if transitionToActive then
                 (case switchover W s w of (w, r) \<Rightarrow> (w, map_option (\<lambda>s. (s, activePollInterval s)) r))
               else (w, Some (s, activePollInterval s)))"

definition keep_active :: "'w world \<Rightarrow> int \<Rightarrow> int \<Rightarrow> HighAvailabilityManager \<Rightarrow> 'w \<Rightarrow> 'w \<times> (HighAvailabilityManager \<times> int) option" where
  "keep_active W elapsedSinceBumpActive elapsedSinceCheckActive s w =
     (let checkStillActive = (elapsedSinceBumpActive \<ge> activePollInterval s * 2 \<or> elapsedSinceCheckActive > activeDuration s);
          failed = updateRedisFailed True s;
          bump = (\<lambda>s w. case bump_retry W s MaxRedisUnreachableRetries w of
                    (w, True) \<Rightarrow> (w, Some (s\<lparr>timeLastBumpActive := w_now W w\<rparr>, activePollInterval s))
                  | (w, False) \<Rightarrow> (w, if HARole s = HARolePrimary then Some (updateRedisFailed True s, activePollInterval s) else None))
      in if \<not> checkStillActive then bump s w
         else case CheckActive W s w of
             (w, None) \<Rightarrow> (w, if HARole s = HARolePrimary then Some (failed, activePollInterval s) else None)
           | (w, Some False) \<Rightarrow> (w, None)
           | (w, Some True) \<Rightarrow> bump (s\<lparr>timeLastCheckActive := w_now W w\<rparr>) w)"

definition active_pass :: "'w world \<Rightarrow> HighAvailabilityManager \<Rightarrow> 'w \<Rightarrow> 'w \<times> (HighAvailabilityManager \<times> int) option" where
  "active_pass W s w =
     (let elapsedSinceBumpActive = w_now W w - timeLastBumpActive s;
          elapsedSinceCheckActive = w_now W w - timeLastCheckActive s
      in if \<not> RedisConnectionFailed s then keep_active W elapsedSinceBumpActive elapsedSinceCheckActive s w
         else case tryActive W s w of
             (w, None) \<Rightarrow> (w, None)
           | (w, Some None) \<Rightarrow> (w, Some (s, activePollInterval s))
           | (w, Some (Some active)) \<Rightarrow>
               let s = updateRedisFailed False s
               in if \<not> active then (w, None) else keep_active W 0 elapsedSinceCheckActive s w)"

definition loop_pass :: "'w world \<Rightarrow> HighAvailabilityManager \<Rightarrow> 'w \<Rightarrow> 'w \<times> (HighAvailabilityManager \<times> int) option" where
  "loop_pass W s w = (if PlatformInstanceActive s \<or> ActiveTransitionInProgress s then active_pass W s w else inactive_pass W s w)"

subsection \<open>What redis documents\<close>

text \<open>The lease is the value of the key with the time it expires. Commands reach redis, the clock goes forward, callbacks leave the lease alone.\<close>

definition holder :: "'w world \<Rightarrow> ('w \<Rightarrow> (string \<times> int) option) \<Rightarrow> 'w \<Rightarrow> string option" where
  "holder W lease w = (case lease w of None \<Rightarrow> None | Some (v, expires) \<Rightarrow> if w_now W w < expires then Some v else None)"

definition redis_lease :: "'w world \<Rightarrow> ('w \<Rightarrow> (string \<times> int) option) \<Rightarrow> bool" where
  "redis_lease W lease \<longleftrightarrow> (\<forall>w role d.
     lease (fst (w_Get W w)) = lease w \<and> w_now W (fst (w_Get W w)) = w_now W w \<and> snd (w_Get W w) = Some (holder W lease w)
     \<and> lease (fst (w_SetNX W role d w)) = (if holder W lease w = None then Some (role, w_now W w + d) else lease w)
     \<and> w_now W (fst (w_SetNX W role d w)) = w_now W w \<and> snd (w_SetNX W role d w) = Some (holder W lease w = None)
     \<and> lease (fst (w_Set W role d w)) = Some (role, w_now W w + d) \<and> w_now W (fst (w_Set W role d w)) = w_now W w \<and> snd (w_Set W role d w)
     \<and> lease (fst (w_Ping W w)) = lease w \<and> w_now W (fst (w_Ping W w)) = w_now W w \<and> snd (w_Ping W w)
     \<and> lease (fst (w_PreSwitch W w)) = lease w \<and> w_now W w \<le> w_now W (fst (w_PreSwitch W w))
     \<and> lease (fst (w_PostSwitch W w)) = lease w \<and> w_now W w \<le> w_now W (fst (w_PostSwitch W w))
     \<and> lease (w_sleep W d w) = lease w \<and> w_now W (w_sleep W d w) = w_now W w + max 0 d)"

definition redis_down :: "'w world \<Rightarrow> bool" where
  "redis_down W \<longleftrightarrow> (\<forall>w role d. snd (w_Get W w) = None \<and> snd (w_SetNX W role d w) = None \<and> \<not> snd (w_Set W role d w) \<and> \<not> snd (w_Ping W w))"

lemma CheckActive_lease:
  assumes "redis_lease W lease"
  shows "\<exists>w'. CheckActive W s w = (w', Some (holder W lease w = Some (HARole s))) \<and> lease w' = lease w \<and> w_now W w' = w_now W w"
proof -
  obtain w' r where "w_Get W w = (w', r)" by (cases "w_Get W w")
  moreover have "lease (fst (w_Get W w)) = lease w \<and> w_now W (fst (w_Get W w)) = w_now W w \<and> snd (w_Get W w) = Some (holder W lease w)"
    using assms unfolding redis_lease_def by blast
  ultimately show ?thesis by (simp add: CheckActive_def)
qed

lemma BumpActiveExpire_lease:
  assumes "redis_lease W lease"
  shows "\<exists>w'. BumpActiveExpire W s w = (w', True) \<and> lease w' = Some (HARole s, w_now W w + activeDuration s) \<and> w_now W w' = w_now W w"
proof -
  obtain w' r where "w_Set W (HARole s) (activeDuration s) w = (w', r)" by (cases "w_Set W (HARole s) (activeDuration s) w")
  moreover have "lease (fst (w_Set W (HARole s) (activeDuration s) w)) = Some (HARole s, w_now W w + activeDuration s)
      \<and> w_now W (fst (w_Set W (HARole s) (activeDuration s) w)) = w_now W w \<and> snd (w_Set W (HARole s) (activeDuration s) w)"
    using assms unfolding redis_lease_def by blast
  ultimately show ?thesis by (simp add: BumpActiveExpire_def)
qed

lemma SetNX_lease:
  assumes "redis_lease W lease"
  shows "\<exists>w'. w_SetNX W role d w = (w', Some (holder W lease w = None)) \<and> w_now W w' = w_now W w \<and>
    lease w' = (if holder W lease w = None then Some (role, w_now W w + d) else lease w)"
proof -
  obtain w' r where "w_SetNX W role d w = (w', r)" by (cases "w_SetNX W role d w")
  moreover have "lease (fst (w_SetNX W role d w)) = (if holder W lease w = None then Some (role, w_now W w + d) else lease w)
     \<and> w_now W (fst (w_SetNX W role d w)) = w_now W w \<and> snd (w_SetNX W role d w) = Some (holder W lease w = None)"
    using assms unfolding redis_lease_def by blast
  ultimately show ?thesis by simp
qed

text \<open>An attempt gets the lease when it is free, or when the node holds it and does not come back from an outage.\<close>

lemma tryActive_lease:
  fixes w :: 'w
  assumes "redis_lease W lease" "RedisConnectionFailed s \<or> \<not> PlatformInstanceActive s \<and> \<not> ActiveTransitionInProgress s"
  defines "got \<equiv> holder W lease w = None \<or> \<not> RedisConnectionFailed s \<and> holder W lease w = Some (HARole s)"
  shows "\<exists>w'. tryActive W s w = (w', Some (Some got)) \<and> w_now W w' = w_now W w \<and>
    lease w' = (if got then Some (HARole s, w_now W w + activeDuration s) else lease w)"
proof (cases "RedisConnectionFailed s")
  case True
  then show ?thesis using SetNX_lease[OF assms(1), of "HARole s" "activeDuration s" w] by (auto simp: tryActive_def got_def)
next
  case False
  obtain w1 where w1: "CheckActive W s w = (w1, Some (holder W lease w = Some (HARole s)))" "lease w1 = lease w" "w_now W w1 = w_now W w"
    using CheckActive_lease[OF assms(1)] by blast
  then have h: "holder W lease w1 = holder W lease w" by (cases "lease w") (auto simp: holder_def)
  show ?thesis
  proof (cases "holder W lease w = Some (HARole s)")
    case True
    then show ?thesis using False assms(2) w1 BumpActiveExpire_lease[OF assms(1), of s w1] by (auto simp: tryActive_def got_def)
  next
    case nh: False
    then show ?thesis using False assms(2) w1 h SetNX_lease[OF assms(1), of "HARole s" "activeDuration s" w1]
      by (auto simp: tryActive_def got_def)
  qed
qed

lemma switchover_lease:
  assumes "redis_lease W lease" "switchover W s w = (w', r)"
  shows "lease w' = lease w \<and> w_now W w \<le> w_now W w' \<and>
    (r = None \<or> r = Some (s\<lparr>timeLastBumpActive := w_now W w, PlatformInstanceActive := True, ActiveTransitionInProgress := False\<rparr>))"
proof -
  obtain w1 ok where p: "w_PreSwitch W w = (w1, ok)" by (cases "w_PreSwitch W w")
  have 1: "lease (fst (w_PreSwitch W w)) = lease w" "w_now W w \<le> w_now W (fst (w_PreSwitch W w))"
    using assms(1) unfolding redis_lease_def by blast+
  have 2: "lease (fst (w_PostSwitch W w1)) = lease w1" "w_now W w1 \<le> w_now W (fst (w_PostSwitch W w1))"
    using assms(1) unfolding redis_lease_def by blast+
  show ?thesis using assms(2) p 1 2 by (auto simp: switchover_def split: if_splits)
qed

subsection \<open>One pass with redis online\<close>

definition node_ok :: "'w world \<Rightarrow> ('w \<Rightarrow> (string \<times> int) option) \<Rightarrow> HighAvailabilityManager \<Rightarrow> 'w \<Rightarrow> bool" where
  "node_ok W lease s w \<longleftrightarrow> \<not> ActiveTransitionInProgress s \<and> \<not> RedisConnectionFailed s \<and> 0 < activePollInterval s
     \<and> activePollInterval s * 2 \<le> activeDuration s
     \<and> (PlatformInstanceActive s \<longrightarrow> timeLastBumpActive s \<le> w_now W w \<and>
          (w_now W w < timeLastBumpActive s + activeDuration s \<longrightarrow>
             (\<exists>expires. lease w = Some (HARole s, expires) \<and> timeLastBumpActive s + activeDuration s \<le> expires)))"

definition same_node :: "HighAvailabilityManager \<Rightarrow> HighAvailabilityManager \<Rightarrow> bool" where
  "same_node s s' \<longleftrightarrow> HARole s' = HARole s \<and> activeDuration s' = activeDuration s \<and> activePollInterval s' = activePollInterval s"

text \<open>A pass leaves the lease alone, or takes or renews it when it is free or the node's own.\<close>

definition pass_ok :: "'w world \<Rightarrow> ('w \<Rightarrow> (string \<times> int) option) \<Rightarrow> HighAvailabilityManager \<Rightarrow> 'w \<Rightarrow> 'w \<times> (HighAvailabilityManager \<times> int) option \<Rightarrow> bool" where
  "pass_ok W lease s w r \<longleftrightarrow> w_now W w \<le> w_now W (fst r)
     \<and> (lease (fst r) = lease w \<or> holder W lease w \<in> {None, Some (HARole s)} \<and> lease (fst r) = Some (HARole s, w_now W w + activeDuration s))
     \<and> (\<forall>s' d. snd r = Some (s', d) \<longrightarrow> node_ok W lease s' (fst r) \<and> same_node s s')"

lemma inactive_pass_ok:
  assumes "redis_lease W lease" "node_ok W lease s w" "\<not> PlatformInstanceActive s"
  shows "pass_ok W lease s w (inactive_pass W s w)"
proof -
  have s: "\<not> ActiveTransitionInProgress s" "\<not> RedisConnectionFailed s" "0 < activePollInterval s" "activePollInterval s * 2 \<le> activeDuration s"
    using assms(2) by (simp_all add: node_ok_def)
  let ?got = "holder W lease w = None \<or> holder W lease w = Some (HARole s)"
  obtain w1 where w1: "tryActive W s w = (w1, Some (Some ?got))" "w_now W w1 = w_now W w"
      "lease w1 = (if ?got then Some (HARole s, w_now W w + activeDuration s) else lease w)"
    using tryActive_lease[OF assms(1), of s w] s(1,2) assms(3) by auto
  have r: "tryActive_retry W s MaxRedisUnreachableRetries w = (w1, Some (Some ?got))"
    using w1(1) by (simp add: MaxRedisUnreachableRetries_def numeral_3_eq_3)
  show ?thesis
  proof (cases ?got)
    case False
    then have "tryActive_retry W s MaxRedisUnreachableRetries w = (w1, Some (Some False))" using r by simp
    then have "inactive_pass W s w = (w1, Some (s, activePollInterval s))"
      using s by (simp add: inactive_pass_def updateRedisFailed_def)
    then show ?thesis using w1(2,3) False s assms(3) by (simp add: pass_ok_def node_ok_def same_node_def)
  next
    case True
    obtain w2 o2 where sw: "switchover W s w1 = (w2, o2)" by (cases "switchover W s w1")
    have p: "inactive_pass W s w = (w2, map_option (\<lambda>s. (s, activePollInterval s)) o2)"
      using r s sw True by (auto simp: inactive_pass_def updateRedisFailed_def)
    have "lease w2 = Some (HARole s, w_now W w + activeDuration s)" using switchover_lease[OF assms(1) sw] w1(3) True by simp
    then show ?thesis using switchover_lease[OF assms(1) sw] w1 s True by (auto simp: p pass_ok_def node_ok_def same_node_def)
  qed
qed

lemma active_pass_ok:
  assumes "redis_lease W lease" "node_ok W lease s w" "PlatformInstanceActive s"
  shows "pass_ok W lease s w (active_pass W s w)"
proof -
  have s: "\<not> ActiveTransitionInProgress s" "\<not> RedisConnectionFailed s" "0 < activePollInterval s" "activePollInterval s * 2 \<le> activeDuration s"
    "timeLastBumpActive s \<le> w_now W w"
    "w_now W w < timeLastBumpActive s + activeDuration s \<Longrightarrow> \<exists>e. lease w = Some (HARole s, e) \<and> timeLastBumpActive s + activeDuration s \<le> e"
    using assms(2,3) by (simp_all add: node_ok_def)
  have bump: "\<exists>w2. bump_retry W s' MaxRedisUnreachableRetries w1 = (w2, True) \<and> lease w2 = Some (HARole s', w_now W w1 + activeDuration s')
      \<and> w_now W w2 = w_now W w1" for s' w1
    using BumpActiveExpire_lease[OF assms(1), of s' w1] by (auto simp: MaxRedisUnreachableRetries_def numeral_3_eq_3)
  let ?check = "w_now W w - timeLastBumpActive s \<ge> activePollInterval s * 2 \<or> w_now W w - timeLastCheckActive s > activeDuration s"
  show ?thesis
  proof (cases ?check)
    case False
    then have "w_now W w < timeLastBumpActive s + activeDuration s" using s(4) by linarith
    then have h: "holder W lease w = Some (HARole s)" using s(6) by (force simp: holder_def)
    obtain w2 where w2: "bump_retry W s MaxRedisUnreachableRetries w = (w2, True)" "lease w2 = Some (HARole s, w_now W w + activeDuration s)"
      "w_now W w2 = w_now W w" using bump by blast
    have "active_pass W s w = (w2, Some (s\<lparr>timeLastBumpActive := w_now W w2\<rparr>, activePollInterval s))"
      using False s(2) w2(1) by (simp add: active_pass_def keep_active_def)
    then show ?thesis using w2 h s(1-4) by (simp add: pass_ok_def node_ok_def same_node_def)
  next
    case True
    obtain w1 where w1: "CheckActive W s w = (w1, Some (holder W lease w = Some (HARole s)))" "lease w1 = lease w" "w_now W w1 = w_now W w"
      using CheckActive_lease[OF assms(1)] by blast
    let ?s = "s\<lparr>timeLastCheckActive := w_now W w1\<rparr>"
    show ?thesis
    proof (cases "holder W lease w = Some (HARole s)")
      case False
      then have "CheckActive W s w = (w1, Some False)" using w1(1) by simp
      then have "active_pass W s w = (w1, None)" using True s(2) by (auto simp: active_pass_def keep_active_def Let_def)
      then show ?thesis using w1 by (simp add: pass_ok_def)
    next
      case h: True
      obtain w2 where w2: "bump_retry W ?s MaxRedisUnreachableRetries w1 = (w2, True)" "lease w2 = Some (HARole s, w_now W w1 + activeDuration s)"
        "w_now W w2 = w_now W w1" using bump[of ?s w1] by auto
      have "CheckActive W s w = (w1, Some True)" using w1(1) h by simp
      then have "active_pass W s w = (w2, Some (?s\<lparr>timeLastBumpActive := w_now W w2\<rparr>, activePollInterval s))"
        using True s(2) w2(1) by (auto simp: active_pass_def keep_active_def Let_def)
      then show ?thesis using w1 w2 h s(1-4) by (simp add: pass_ok_def node_ok_def same_node_def)
    qed
  qed
qed

lemma loop_pass_ok: "redis_lease W lease \<Longrightarrow> node_ok W lease s w \<Longrightarrow> pass_ok W lease s w (loop_pass W s w)"
  using inactive_pass_ok[of W lease s w] active_pass_ok[of W lease s w] by (auto simp: loop_pass_def node_ok_def)

text \<open>What a pass of another node leaves of a node.\<close>

lemma node_ok_other:
  assumes "node_ok W lease q w" "pass_ok W lease p w (w', r)" "HARole p \<noteq> HARole q"
  shows "node_ok W lease q w'"
proof -
  have w: "w_now W w \<le> w_now W w'" "lease w' = lease w \<or> holder W lease w \<in> {None, Some (HARole p)}"
    using assms(2) by (auto simp: pass_ok_def)
  have "holder W lease w = Some (HARole q)" if "lease w = Some (HARole q, e)" "w_now W w < e" for e
    using that by (simp add: holder_def)
  then show ?thesis using assms(1,3) w unfolding node_ok_def by fastforce
qed

subsection \<open>Two nodes\<close>

text \<open>Passes of both nodes and the time between them. A node that ends its process is gone.\<close>

inductive ha_run ::
  "'w world \<Rightarrow> HighAvailabilityManager option \<times> HighAvailabilityManager option \<times> 'w \<Rightarrow> HighAvailabilityManager option \<times> HighAvailabilityManager option \<times> 'w \<Rightarrow> bool"
  for W i where
  ha_start: "ha_run W i i"
| ha_first: "ha_run W i (Some p, q, w) \<Longrightarrow> loop_pass W p w = (w', r) \<Longrightarrow> ha_run W i (map_option fst r, q, w')"
| ha_second: "ha_run W i (p, Some q, w) \<Longrightarrow> loop_pass W q w = (w', r) \<Longrightarrow> ha_run W i (p, map_option fst r, w')"
| ha_time: "ha_run W i (p, q, w) \<Longrightarrow> ha_run W i (p, q, w_sleep W d w)"

definition ha_ok :: "'w world \<Rightarrow> ('w \<Rightarrow> (string \<times> int) option) \<Rightarrow> HighAvailabilityManager option \<times> HighAvailabilityManager option \<times> 'w \<Rightarrow> bool" where
  "ha_ok W lease st \<longleftrightarrow> (case st of (p, q, w) \<Rightarrow>
     (\<forall>s. p = Some s \<longrightarrow> node_ok W lease s w \<and> HARole s = HARolePrimary)
     \<and> (\<forall>s. q = Some s \<longrightarrow> node_ok W lease s w \<and> HARole s = HARoleSecondary))"

lemma roles_differ: "HARolePrimary \<noteq> HARoleSecondary"
  by (simp add: HARolePrimary_def HARoleSecondary_def)

lemma node_ok_time:
  assumes "redis_lease W lease" "node_ok W lease s w"
  shows "node_ok W lease s (w_sleep W d w)"
proof -
  have "lease (w_sleep W d w) = lease w" "w_now W (w_sleep W d w) = w_now W w + max 0 d"
    using assms(1) unfolding redis_lease_def by blast+
  then show ?thesis using assms(2) by (auto simp: node_ok_def)
qed

lemma pass_result:
  assumes "pass_ok W lease p w (w', r)" "map_option fst r = Some s"
  shows "node_ok W lease s w'" "HARole s = HARole p"
proof -
  obtain d where "r = Some (s, d)" using assms(2) by (cases r) auto
  then show "node_ok W lease s w'" "HARole s = HARole p" using assms(1) unfolding pass_ok_def same_node_def by simp_all
qed

lemma ha_run_ok:
  assumes "redis_lease W lease" "ha_ok W lease i" "ha_run W i st"
  shows "ha_ok W lease st"
  using assms(3)
proof (induction rule: ha_run.induct)
  case ha_start
  then show ?case using assms(2) .
next
  case (ha_first p q w w' r)
  then have p: "node_ok W lease p w" "HARole p = HARolePrimary" by (simp_all add: ha_ok_def)
  have ps: "pass_ok W lease p w (w', r)" using loop_pass_ok[OF assms(1) p(1)] ha_first by simp
  have "node_ok W lease s w' \<and> HARole s = HARoleSecondary" if "q = Some s" for s
  proof -
    have q: "node_ok W lease s w" "HARole s = HARoleSecondary" using ha_first.IH that by (simp_all add: ha_ok_def)
    then show ?thesis using node_ok_other[OF q(1) ps] p(2) roles_differ by simp
  qed
  moreover have "node_ok W lease s w' \<and> HARole s = HARolePrimary" if "map_option fst r = Some s" for s
    using pass_result[OF ps that] p(2) by simp
  ultimately show ?case unfolding ha_ok_def prod.case by blast
next
  case (ha_second p q w w' r)
  then have q: "node_ok W lease q w" "HARole q = HARoleSecondary" by (simp_all add: ha_ok_def)
  have ps: "pass_ok W lease q w (w', r)" using loop_pass_ok[OF assms(1) q(1)] ha_second by simp
  have "node_ok W lease s w' \<and> HARole s = HARolePrimary" if "p = Some s" for s
  proof -
    have p: "node_ok W lease s w" "HARole s = HARolePrimary" using ha_second.IH that by (simp_all add: ha_ok_def)
    then show ?thesis using node_ok_other[OF p(1) ps] q(2) roles_differ by simp
  qed
  moreover have "node_ok W lease s w' \<and> HARole s = HARoleSecondary" if "map_option fst r = Some s" for s
    using pass_result[OF ps that] q(2) by simp
  ultimately show ?case unfolding ha_ok_def prod.case by blast
next
  case (ha_time p q w d)
  then show ?case using node_ok_time[OF assms(1)] by (auto simp: ha_ok_def)
qed

text \<open>A node is active in time when it believes to be active and its last renewal of the lease is not older than the lease lasts.\<close>

definition active_in_time :: "'w world \<Rightarrow> HighAvailabilityManager option \<Rightarrow> 'w \<Rightarrow> bool" where
  "active_in_time W s w \<longleftrightarrow>
     (case s of None \<Rightarrow> False | Some s \<Rightarrow> PlatformInstanceActive s \<and> w_now W w < timeLastBumpActive s + activeDuration s)"

definition new_node :: "string \<Rightarrow> int \<Rightarrow> int \<Rightarrow> HighAvailabilityManager" where
  "new_node role duration poll = \<lparr>HARole = role, HAEnabled = True, activeDuration = duration, activePollInterval = poll,
     PlatformInstanceActive = False, ActiveTransitionInProgress = False, RedisConnectionFailed = False, timeLastBumpActive = 0, timeLastCheckActive = 0\<rparr>"


lemma tryActive_down:
  assumes "redis_down W" "RedisConnectionFailed s \<or> \<not> PlatformInstanceActive s \<and> \<not> ActiveTransitionInProgress s"
  shows "\<exists>w'. tryActive W s w = (w', Some None)"
proof (cases "RedisConnectionFailed s")
  case True
  have "snd (w_SetNX W (HARole s) (activeDuration s) w) = None" using assms(1) unfolding redis_down_def by blast
  then show ?thesis using True by (cases "w_SetNX W (HARole s) (activeDuration s) w") (simp add: tryActive_def)
next
  case False
  have "snd (w_Get W w) = None" using assms(1) unfolding redis_down_def by blast
  then show ?thesis using False assms(2) by (cases "w_Get W w") (simp add: tryActive_def CheckActive_def)
qed

lemma tryActive_retry_down:
  assumes "redis_down W" "RedisConnectionFailed s \<or> \<not> PlatformInstanceActive s \<and> \<not> ActiveTransitionInProgress s"
  shows "\<exists>w'. tryActive_retry W s n w = (w', Some None)"
proof (induction n arbitrary: w)
  case (Suc n)
  obtain w1 where "tryActive W s w = (w1, Some None)" using tryActive_down[OF assms] by blast
  then show ?case using Suc.IH by simp
qed simp

lemma bump_retry_down: "redis_down W \<Longrightarrow> \<exists>w'. bump_retry W s n w = (w', False)"
proof (induction n arbitrary: w)
  case (Suc n)
  have "\<not> snd (BumpActiveExpire W s w)" using Suc.prems unfolding redis_down_def BumpActiveExpire_def by blast
  then show ?case using Suc by (cases "BumpActiveExpire W s w") simp
qed simp

lemma CheckActive_down: "redis_down W \<Longrightarrow> \<exists>w'. CheckActive W s w = (w', None)"
proof -
  assume "redis_down W"
  then have "snd (w_Get W w) = None" unfolding redis_down_def by blast
  then show ?thesis by (cases "w_Get W w") (simp add: CheckActive_def)
qed

definition outage_outcome :: "HighAvailabilityManager \<Rightarrow> (HighAvailabilityManager \<times> int) option \<Rightarrow> bool" where
  "outage_outcome s r =
     (case r of
        None \<Rightarrow> HARole s \<noteq> HARolePrimary \<and> PlatformInstanceActive s \<and> \<not> RedisConnectionFailed s
          \<or> HARole s = HARolePrimary \<and> \<not> PlatformInstanceActive s
      | Some (s', _) \<Rightarrow> RedisConnectionFailed s' \<and> (PlatformInstanceActive s' \<longleftrightarrow> HARole s = HARolePrimary \<or> PlatformInstanceActive s))"

lemma keep_active_down:
  assumes "redis_down W" "PlatformInstanceActive s" "\<not> RedisConnectionFailed s"
  shows "outage_outcome s (snd (keep_active W a b s w))"
proof -
  obtain w1 where c: "CheckActive W s w = (w1, None)" using CheckActive_down[OF assms(1)] by blast
  obtain w2 where "bump_retry W s MaxRedisUnreachableRetries w = (w2, False)" using bump_retry_down[OF assms(1)] by blast
  then show ?thesis using c assms(2,3) by (auto simp: keep_active_def Let_def outage_outcome_def updateRedisFailed_def)
qed

lemma inactive_pass_down:
  assumes "redis_down W" "\<not> PlatformInstanceActive s" "\<not> ActiveTransitionInProgress s" "HARole s = HARolePrimary \<or> HARole s = HARoleSecondary"
  shows "outage_outcome s (snd (inactive_pass W s w))"
proof (cases "RedisConnectionFailed s \<and> HARole s = HARoleSecondary")
  case True
  have "\<not> snd (w_Ping W w)" using assms(1) unfolding redis_down_def by blast
  then show ?thesis using True assms(2) roles_differ
    by (cases "w_Ping W w") (auto simp: inactive_pass_def outage_outcome_def)
next
  case False
  obtain w1 where t: "tryActive_retry W s MaxRedisUnreachableRetries w = (w1, Some None)"
    using tryActive_retry_down[OF assms(1)] assms(2,3) by blast
  let ?s = "updateRedisFailed True s"
  have s: "RedisConnectionFailed ?s" "HARole ?s = HARole s" "PlatformInstanceActive ?s = PlatformInstanceActive s"
    by (simp_all add: updateRedisFailed_def)
  obtain w2 r where "switchover W ?s w1 = (w2, r)" by (cases "switchover W ?s w1")
  moreover from this have "r = None \<or> (\<exists>s'. r = Some s' \<and> RedisConnectionFailed s' \<and> PlatformInstanceActive s')"
    using s(1) by (auto simp: switchover_def Let_def split: prod.splits if_splits)
  ultimately show ?thesis using False t s assms(2) roles_differ by (auto simp: inactive_pass_def outage_outcome_def Let_def)
qed

text \<open>
  What the roles do in an outage: when redis cannot be reached, a node that is inactive becomes active within one pass if it is the primary
  (only a failed switchover ends it) and stays inactive if it is the secondary; an active primary stays active; a secondary that is
  active ends its process when it notices. Whoever goes on knows of the outage.
\<close>

theorem ha_outage_roles:
  assumes "redis_down W" "\<not> ActiveTransitionInProgress s" "HARole s = HARolePrimary \<or> HARole s = HARoleSecondary"
  shows "case snd (loop_pass W s w) of
      None \<Rightarrow> HARole s \<noteq> HARolePrimary \<and> PlatformInstanceActive s \<and> \<not> RedisConnectionFailed s
        \<or> HARole s = HARolePrimary \<and> \<not> PlatformInstanceActive s
    | Some (s', _) \<Rightarrow> RedisConnectionFailed s' \<and> (PlatformInstanceActive s' \<longleftrightarrow> HARole s = HARolePrimary \<or> PlatformInstanceActive s)"
proof -
  have "outage_outcome s (snd (loop_pass W s w))"
  proof (cases "PlatformInstanceActive s")
    case True
    obtain w1 where "RedisConnectionFailed s \<longrightarrow> tryActive W s w = (w1, Some None)" using tryActive_down[OF assms(1), of s w] by blast
    then show ?thesis using True keep_active_down[OF assms(1) True]
      by (cases "RedisConnectionFailed s") (simp_all add: loop_pass_def active_pass_def outage_outcome_def)
  next
    case False
    then show ?thesis using inactive_pass_down[OF assms(1) False assms(2,3)] assms(2) by (simp add: loop_pass_def)
  qed
  then show ?thesis by (simp add: outage_outcome_def)
qed

text \<open>
  An outage that is shorter than the lease ends the node it should have left alone: a primary that stayed active without redis tries to
  set the key anew when redis is back, finds its own lease still there, and takes this for the activity of the other node.
\<close>

theorem short_outage_ends_active_node:
  assumes "redis_lease W lease" "PlatformInstanceActive s" "RedisConnectionFailed s" "holder W lease w = Some (HARole s)"
  shows "snd (loop_pass W s w) = None"
proof -
  obtain w1 where "tryActive W s w = (w1, Some (Some False))"
    using tryActive_lease[OF assms(1), of s w] assms(3,4) by auto
  then show ?thesis using assms(2,3) by (simp add: loop_pass_def active_pass_def updateRedisFailed_def Let_def)
qed

subsection \<open>A concrete world\<close>

text \<open>The time and the lease; switchovers succeed at once.\<close>

definition demo_world :: "bool \<Rightarrow> (int \<times> (string \<times> int) option) world" where
  "demo_world up =
     (let holds = (\<lambda>(t, l). case l of None \<Rightarrow> None | Some (v, e) \<Rightarrow> if t < e then Some v else None)
      in \<lparr>w_now = fst, w_sleep = (\<lambda>d (t, l). (t + max 0 d, l)), w_Ping = (\<lambda>w. (w, up)),
          w_Get = (\<lambda>w. (w, if up then Some (holds w) else None)),
          w_SetNX = (\<lambda>role d w. (if up \<and> holds w = None then (fst w, Some (role, fst w + d)) else w, if up then Some (holds w = None) else None)),
          w_Set = (\<lambda>role d w. (if up then (fst w, Some (role, fst w + d)) else w, up)),
          w_PreSwitch = (\<lambda>w. (w, True)), w_PostSwitch = (\<lambda>w. (w, True))\<rparr>)"

lemma demo_lease: "redis_lease (demo_world True) snd"
  unfolding redis_lease_def demo_world_def holder_def Let_def by (auto split: option.split)

lemma demo_down: "redis_down (demo_world False)"
  by (simp add: redis_down_def demo_world_def Let_def)

definition demo_primary :: HighAvailabilityManager where "demo_primary = new_node HARolePrimary 10 2"
definition demo_secondary :: HighAvailabilityManager where "demo_secondary = new_node HARoleSecondary 10 2"


theorem ha_outage_roles_witness:
  "case snd (loop_pass (demo_world False) demo_primary (100, None)) of
     None \<Rightarrow> False | Some (s', _) \<Rightarrow> RedisConnectionFailed s' \<and> PlatformInstanceActive s'"
proof -
  have "\<not> ActiveTransitionInProgress demo_primary" "HARole demo_primary = HARolePrimary" by (simp_all add: demo_primary_def new_node_def)
  moreover have "snd (loop_pass (demo_world False) demo_primary (100, None)) \<noteq> None" by code_simp
  ultimately show ?thesis using ha_outage_roles[OF demo_down, of demo_primary "(100, None)"] by (auto split: option.splits)
qed

theorem short_outage_ends_active_node_witness:
  "snd (loop_pass (demo_world True) (demo_primary\<lparr>PlatformInstanceActive := True, RedisConnectionFailed := True\<rparr>) (105, Some (HARolePrimary, 110))) = None"
  by (rule short_outage_ends_active_node[OF demo_lease]) (simp_all add: demo_primary_def new_node_def holder_def demo_world_def Let_def)

end
