(* ===== verification/DmeCaches.thy ===== *)
theory DmeCaches
  imports AutoProv
begin

text \<open>
  Two stores the matching engine consults. The table of free reservable clusters
  (\<^verbatim>\<open>api/edgeproto/free_reservable_clusterinsts.go\<close>) tells it whether a cloudlet could start an
  application at once; a cluster is stored under its cloudlet, a second table leads from a deleted cluster
  back to the cloudlet. The client counters (\<^verbatim>\<open>pkg/uaem-common/autoprov-stats.go\<close>) collect the requests
  that auto-provisioning decides on: they are spread over shards by a hash of the key, which is an argument,
  and every message to the controller is appended to the list of messages sent.
\<close>

subsection \<open>Free reservable clusters\<close>

type_synonym ClusterKey = "string \<times> string"

record ReservableClusterInst =
  ci_Key :: ClusterKey
  ci_CloudletKey :: CloudletKey
  ci_Reservable :: bool
  ci_ReservedBy :: string
  ci_Deployment :: string

record FreeReservableClusterInstCache =
  InstsByCloudlet :: "(CloudletKey, (ClusterKey, ReservableClusterInst) gomap) gomap"
  KeyToCloudlet :: "(ClusterKey, CloudletKey) gomap"

definition free_Init :: FreeReservableClusterInstCache where
  "free_Init = \<lparr>InstsByCloudlet = [], KeyToCloudlet = []\<rparr>"

definition free_Update :: "ReservableClusterInst \<Rightarrow> FreeReservableClusterInstCache \<Rightarrow> FreeReservableClusterInstCache" where
  "free_Update inst s =
     (if \<not> ci_Reservable inst then s
      else
        let cinsts = get_or [] (InstsByCloudlet s) (ci_CloudletKey inst)
        in if ci_ReservedBy inst \<noteq> [] then
             s\<lparr>InstsByCloudlet := AList.update (ci_CloudletKey inst) (AList.delete (ci_Key inst) cinsts) (InstsByCloudlet s),
               KeyToCloudlet := AList.delete (ci_Key inst) (KeyToCloudlet s)\<rparr>
           else
             s\<lparr>InstsByCloudlet := AList.update (ci_CloudletKey inst) (AList.update (ci_Key inst) inst cinsts) (InstsByCloudlet s),
               KeyToCloudlet := AList.update (ci_Key inst) (ci_CloudletKey inst) (KeyToCloudlet s)\<rparr>)"

text \<open>The message of a deletion is only sure to carry the key; its cloudlet key is the zero value then.\<close>

definition free_Delete :: "ReservableClusterInst \<Rightarrow> FreeReservableClusterInstCache \<Rightarrow> FreeReservableClusterInstCache" where
  "free_Delete inst s =
     (case map_of (KeyToCloudlet s) (ci_Key inst) of None \<Rightarrow> s
      | Some cloudletKey \<Rightarrow>
          (case map_of (InstsByCloudlet s) cloudletKey of None \<Rightarrow> s
           | Some cinsts \<Rightarrow>
               let cinsts = AList.delete (ci_Key inst) cinsts;
                   insts = AList.update cloudletKey cinsts (InstsByCloudlet s)
               in s\<lparr>InstsByCloudlet := (if cinsts = [] then AList.delete (ci_CloudletKey inst) insts else insts),
                    KeyToCloudlet := AList.delete (ci_Key inst) (KeyToCloudlet s)\<rparr>))"

definition free_prune_cloudlet ::
  "ClusterKey list \<Rightarrow> CloudletKey \<times> (ClusterKey, ReservableClusterInst) gomap \<Rightarrow> FreeReservableClusterInstCache \<Rightarrow> FreeReservableClusterInstCache" where
  "free_prune_cloudlet validKeys e s =
     (case e of (cloudletKey, cmap) \<Rightarrow>
        let gone = filter (\<lambda>k. k \<notin> set validKeys) (keys cmap);
            cmap = fold AList.delete gone cmap
        in s\<lparr>InstsByCloudlet := (if cmap = [] then AList.delete cloudletKey (InstsByCloudlet s)
                                else AList.update cloudletKey cmap (InstsByCloudlet s)),
             KeyToCloudlet := fold AList.delete gone (KeyToCloudlet s)\<rparr>)"

definition free_Prune :: "ClusterKey list \<Rightarrow> FreeReservableClusterInstCache \<Rightarrow> FreeReservableClusterInstCache" where
  "free_Prune validKeys s = fold (free_prune_cloudlet validKeys) (InstsByCloudlet s) s"

definition AppInstToClusterDeployment :: "string \<Rightarrow> string" where
  "AppInstToClusterDeployment deployment = (if deployment = ''helm'' then ''kubernetes'' else deployment)"

definition GetForCloudlet ::
  "CloudletKey \<Rightarrow> string \<Rightarrow> (string \<Rightarrow> string) \<Rightarrow> FreeReservableClusterInstCache \<Rightarrow> ReservableClusterInst list" where
  "GetForCloudlet key deployment deploymentTransformFunc s =
     (case map_of (InstsByCloudlet s) key of None \<Rightarrow> []
      | Some cinsts \<Rightarrow> filter (\<lambda>clust. deploymentTransformFunc deployment = ci_Deployment clust) (map snd cinsts))"

definition free_GetCount :: "FreeReservableClusterInstCache \<Rightarrow> nat" where
  "free_GetCount s = fold (\<lambda>(_, m) count. count + length m) (InstsByCloudlet s) 0"

datatype free_op = FreeUpdate ReservableClusterInst | FreeDelete ReservableClusterInst | FreePrune "ClusterKey list"

fun free_op_run :: "free_op \<Rightarrow> FreeReservableClusterInstCache \<Rightarrow> FreeReservableClusterInstCache" where
  "free_op_run (FreeUpdate inst) s = free_Update inst s"
| "free_op_run (FreeDelete inst) s = free_Delete inst s"
| "free_op_run (FreePrune ks) s = free_Prune ks s"

text \<open>The specification: one table of the clusters that are free.\<close>

fun free_op_spec :: "free_op \<Rightarrow> (ClusterKey \<rightharpoonup> ReservableClusterInst) \<Rightarrow> (ClusterKey \<rightharpoonup> ReservableClusterInst)" where
  "free_op_spec (FreeUpdate inst) f =
     (if \<not> ci_Reservable inst then f
      else f(ci_Key inst := if ci_ReservedBy inst \<noteq> [] then None else Some inst))"
| "free_op_spec (FreeDelete inst) f = f(ci_Key inst := None)"
| "free_op_spec (FreePrune ks) f = f |` set ks"

text \<open>
  A cluster stays on its cloudlet, every cloudlet has a name, and the message of a deletion carries the cluster's
  cloudlet or none.
\<close>

fun free_op_ok :: "(ClusterKey \<Rightarrow> CloudletKey) \<Rightarrow> free_op \<Rightarrow> bool" where
  "free_op_ok place (FreeUpdate inst) = (ci_CloudletKey inst = place (ci_Key inst) \<and> place (ci_Key inst) \<noteq> ([], [], []))"
| "free_op_ok place (FreeDelete inst) =
     ((ci_CloudletKey inst = ([], [], []) \<or> ci_CloudletKey inst = place (ci_Key inst)) \<and> place (ci_Key inst) \<noteq> ([], [], []))"
| "free_op_ok place (FreePrune ks) = True"

definition free_inv :: "(ClusterKey \<Rightarrow> CloudletKey) \<Rightarrow> (ClusterKey \<rightharpoonup> ReservableClusterInst) \<Rightarrow> FreeReservableClusterInstCache \<Rightarrow> bool" where
  "free_inv place f s \<longleftrightarrow>
     go_map (InstsByCloudlet s)
     \<and> (\<forall>ck. go_map (get_or [] (InstsByCloudlet s) ck)
          \<and> (\<forall>k. map_of (get_or [] (InstsByCloudlet s) ck) k = (if place k = ck then f k else None)))
     \<and> (\<forall>k. map_of (KeyToCloudlet s) k = map_option (\<lambda>_. place k) (f k))
     \<and> (\<forall>k. f k \<noteq> None \<longrightarrow> place k \<noteq> ([], [], []))"

lemma get_or_delete [simp]:
  "get_or z (AList.delete k m) k' = (if k' = k then z else get_or z m k')"
  by (simp add: get_or_def)

lemma map_of_fold_AList_delete: "map_of (fold AList.delete ks m) k = (if k \<in> set ks then None else map_of m k)"
  by (induction ks arbitrary: m) auto

lemma go_map_fold_delete: "go_map m \<Longrightarrow> go_map (fold AList.delete ks m)"
  by (induction ks arbitrary: m) auto

declare split_paired_All [simp del] split_paired_Ex [simp del]

lemma free_invI:
  assumes "go_map (InstsByCloudlet s)" "\<And>ck. go_map (get_or [] (InstsByCloudlet s) ck)"
    and "\<And>ck k. map_of (get_or [] (InstsByCloudlet s) ck) k = (if place k = ck then f k else None)"
    and "\<And>k. map_of (KeyToCloudlet s) k = map_option (\<lambda>_. place k) (f k)"
    and "\<And>k. f k \<noteq> None \<Longrightarrow> place k \<noteq> ([], [], [])"
  shows "free_inv place f s"
  using assms by (simp add: free_inv_def)

lemma free_invD:
  assumes "free_inv place f s"
  shows "go_map (InstsByCloudlet s)" "go_map (get_or [] (InstsByCloudlet s) ck)"
    and "map_of (get_or [] (InstsByCloudlet s) ck) k = (if place k = ck then f k else None)"
    and "map_of (KeyToCloudlet s) k = map_option (\<lambda>_. place k) (f k)"
    and "f k \<noteq> None \<Longrightarrow> place k \<noteq> ([], [], [])"
  using assms by (simp_all add: free_inv_def del: map_of_eq_None_keys)

lemma free_inv_Update:
  assumes "free_inv place f s" "free_op_ok place (FreeUpdate inst)"
  shows "free_inv place (free_op_spec (FreeUpdate inst) f) (free_Update inst s)"
  using assms(2) free_invD[OF assms(1)]
  by (intro free_invI) (auto simp: free_Update_def Let_def simp del: map_of_eq_None_keys split: if_splits)

lemma free_inv_Delete:
  assumes "free_inv place f s" "free_op_ok place (FreeDelete inst)"
  shows "free_inv place (free_op_spec (FreeDelete inst) f) (free_Delete inst s)"
proof (cases "f (ci_Key inst)")
  case None
  then have "map_of (KeyToCloudlet s) (ci_Key inst) = None"
    using free_invD(4)[OF assms(1), of "ci_Key inst"] by (simp del: map_of_eq_None_keys)
  then have "free_Delete inst s = s" by (simp add: free_Delete_def del: map_of_eq_None_keys)
  moreover have "free_op_spec (FreeDelete inst) f = f" using None by auto
  ultimately show ?thesis using assms(1) by simp
next
  case (Some ci)
  let ?ck = "place (ci_Key inst)"
  have K: "map_of (KeyToCloudlet s) (ci_Key inst) = Some ?ck" using free_invD(4)[OF assms(1)] Some by simp
  obtain cinsts where C: "map_of (InstsByCloudlet s) ?ck = Some cinsts"
    using free_invD(3)[OF assms(1), of ?ck "ci_Key inst"] Some
    by (cases "map_of (InstsByCloudlet s) ?ck") (simp_all add: get_or_def del: map_of_eq_None_keys)
  define m where "m = AList.delete (ci_Key inst) cinsts"
  have "map_of (get_or [] (InstsByCloudlet s) ([], [], [])) = Map.empty"
    using free_invD(3)[OF assms(1), of "([], [], [])"] free_invD(5)[OF assms(1)] by (fastforce simp: fun_eq_iff)
  then have E: "get_or [] (InstsByCloudlet s) ([], [], []) = []" by simp
  have F: "get_or [] (InstsByCloudlet (free_Delete inst s)) ck = (if ck = ?ck then m else get_or [] (InstsByCloudlet s) ck)" for ck
    using K C E assms(2) unfolding free_Delete_def m_def by (auto simp: Let_def)
  have G: "get_or [] (InstsByCloudlet s) ?ck = cinsts" using C by (simp add: get_or_def)
  have H: "KeyToCloudlet (free_Delete inst s) = AList.delete (ci_Key inst) (KeyToCloudlet s)"
    "go_map (InstsByCloudlet (free_Delete inst s))"
    using K C free_invD(1)[OF assms(1)] by (simp_all add: free_Delete_def Let_def)
  show ?thesis
    using free_invD[OF assms(1)] free_invD(2)[OF assms(1), of ?ck] free_invD(3)[OF assms(1), of ?ck]
    by (intro free_invI) (auto simp: F G H m_def simp del: map_of_eq_None_keys split: if_splits)
qed

lemma free_prune_insts:
  "go_map xs \<Longrightarrow>
   get_or [] (InstsByCloudlet (fold (free_prune_cloudlet ks) xs s)) ck =
     (case map_of xs ck of None \<Rightarrow> get_or [] (InstsByCloudlet s) ck
      | Some cmap \<Rightarrow> fold AList.delete (filter (\<lambda>k. k \<notin> set ks) (keys cmap)) cmap)"
proof (induction xs arbitrary: s)
  case (Cons x xs)
  obtain c m where x: "x = (c, m)" by (cases x)
  have step: "get_or [] (InstsByCloudlet (free_prune_cloudlet ks x s)) ck =
      (if ck = c then fold AList.delete (filter (\<lambda>k. k \<notin> set ks) (keys m)) m else get_or [] (InstsByCloudlet s) ck)"
    by (simp add: x free_prune_cloudlet_def Let_def)
  have "map_of xs c = None" "go_map xs" using Cons.prems x by simp_all
  then show ?case unfolding fold_simps Cons.IH[OF \<open>go_map xs\<close>] step by (simp add: x split: option.split)
qed simp

lemma free_prune_keys:
  "map_of (KeyToCloudlet (fold (free_prune_cloudlet ks) xs s)) k =
     (if k \<notin> set ks \<and> (\<exists>(c, m) \<in> set xs. k \<in> set (keys m)) then None else map_of (KeyToCloudlet s) k)"
proof (induction xs arbitrary: s)
  case (Cons x xs)
  obtain c m where x: "x = (c, m)" by (cases x)
  show ?case unfolding x fold_simps Cons.IH
    by (auto simp: free_prune_cloudlet_def Let_def map_of_fold_AList_delete simp del: map_of_eq_None_keys)
qed simp

lemma free_prune_go_map: "go_map (InstsByCloudlet s) \<Longrightarrow> go_map (InstsByCloudlet (fold (free_prune_cloudlet ks) xs s))"
proof (induction xs arbitrary: s)
  case (Cons x xs)
  obtain c m where x: "x = (c, m)" by (cases x)
  show ?case unfolding x fold_simps by (rule Cons.IH) (use Cons.prems in \<open>simp add: free_prune_cloudlet_def Let_def\<close>)
qed simp

lemma free_inv_Prune:
  assumes "free_inv place f s"
  shows "free_inv place (free_op_spec (FreePrune ks) f) (free_Prune ks s)"
proof (rule free_invI)
  note inv = free_invD[OF assms]
  show "go_map (InstsByCloudlet (free_Prune ks s))" unfolding free_Prune_def by (rule free_prune_go_map) (rule inv)
  have I: "get_or [] (InstsByCloudlet (free_Prune ks s)) ck =
      fold AList.delete (filter (\<lambda>k. k \<notin> set ks) (keys (get_or [] (InstsByCloudlet s) ck))) (get_or [] (InstsByCloudlet s) ck)" for ck
    unfolding free_Prune_def free_prune_insts[OF inv(1)] by (cases "map_of (InstsByCloudlet s) ck") (simp_all add: get_or_def)
  show "go_map (get_or [] (InstsByCloudlet (free_Prune ks s)) ck)" for ck
    unfolding I by (rule go_map_fold_delete) (rule inv)
  show "map_of (get_or [] (InstsByCloudlet (free_Prune ks s)) ck) k = (if place k = ck then free_op_spec (FreePrune ks) f k else None)" for ck k
    unfolding I map_of_fold_AList_delete using inv(3)[of ck k] map_of_SomeD_keys[of "get_or [] (InstsByCloudlet s) ck" k]
    by (cases "map_of (get_or [] (InstsByCloudlet s) ck) k")
      (auto simp: restrict_map_def simp del: map_of_eq_None_keys split: if_splits)
  have E: "(\<exists>(c, m) \<in> set (InstsByCloudlet s). k \<in> set (keys m)) \<longleftrightarrow> f k \<noteq> None" for k
  proof
    assume "\<exists>(c, m) \<in> set (InstsByCloudlet s). k \<in> set (keys m)"
    then obtain c m where cm: "(c, m) \<in> set (InstsByCloudlet s)" "k \<in> set (keys m)" by blast
    then have "get_or [] (InstsByCloudlet s) c = m" using go_map_entry[OF inv(1)] by (simp add: get_or_def)
    with cm(2) inv(3)[of c k] show "f k \<noteq> None" by (metis map_of_eq_None_keys)
  next
    assume "f k \<noteq> None"
    then have S: "map_of (get_or [] (InstsByCloudlet s) (place k)) k \<noteq> None" using inv(3)[of "place k" k] by metis
    then obtain m where m: "map_of (InstsByCloudlet s) (place k) = Some m"
      by (cases "map_of (InstsByCloudlet s) (place k)") (auto simp: get_or_def)
    with S have "k \<in> set (keys m)" by (simp add: get_or_def)
    with map_of_SomeD[OF m] show "\<exists>(c, m) \<in> set (InstsByCloudlet s). k \<in> set (keys m)" by blast
  qed
  show "map_of (KeyToCloudlet (free_Prune ks s)) k = map_option (\<lambda>_. place k) (free_op_spec (FreePrune ks) f k)" for k
    unfolding free_Prune_def free_prune_keys E inv(4) by (simp add: restrict_map_def)
  show "place k \<noteq> ([], [], [])" if "free_op_spec (FreePrune ks) f k \<noteq> None" for k
    using that inv(5)[of k] by (simp add: restrict_map_def split: if_splits)
qed

lemma free_inv_run:
  assumes "free_inv place f s" "free_op_ok place c"
  shows "free_inv place (free_op_spec c f) (free_op_run c s)"
  using assms free_inv_Update free_inv_Delete free_inv_Prune by (cases c) (simp_all del: free_op_spec.simps free_op_ok.simps)

lemma free_inv_fold:
  "free_inv place f s \<Longrightarrow> list_all (free_op_ok place) ops \<Longrightarrow> free_inv place (fold free_op_spec ops f) (fold free_op_run ops s)"
  by (induction ops arbitrary: f s) (auto intro: free_inv_run)

text \<open>
  (C38) Whatever updates, deletions and prunings the table of free clusters has seen, the clusters it offers for a cloudlet are exactly
  those the specification has as free there, of the deployment that was asked for, provided that clusters stay on their
  cloudlet.
\<close>

theorem free_clusters_refine:
  assumes "list_all (free_op_ok place) ops"
  shows "set (GetForCloudlet key deployment tf (fold free_op_run ops free_Init)) =
         {clust. \<exists>k. fold free_op_spec ops Map.empty k = Some clust \<and> place k = key \<and> ci_Deployment clust = tf deployment}"
proof -
  let ?s = "fold free_op_run ops free_Init" and ?f = "fold free_op_spec ops Map.empty"
  have "free_inv place Map.empty free_Init" by (simp add: free_inv_def free_Init_def)
  from free_invD[OF free_inv_fold[OF this assms]]
  have G: "go_map (get_or [] (InstsByCloudlet ?s) key)"
    and M: "map_of (get_or [] (InstsByCloudlet ?s) key) k = (if place k = key then ?f k else None)" for k by blast+
  have "GetForCloudlet key deployment tf ?s =
      filter (\<lambda>clust. tf deployment = ci_Deployment clust) (map snd (get_or [] (InstsByCloudlet ?s) key))"
    by (simp add: GetForCloudlet_def get_or_def split: option.splits)
  then have "clust \<in> set (GetForCloudlet key deployment tf ?s) \<longleftrightarrow>
      (\<exists>k. map_of (get_or [] (InstsByCloudlet ?s) key) k = Some clust) \<and> ci_Deployment clust = tf deployment" for clust
    by (force simp flip: go_map_entry[OF G])
  then show ?thesis unfolding M by (auto split: if_splits)
qed

definition ex_free :: "string \<Rightarrow> string \<Rightarrow> ReservableClusterInst" where
  "ex_free name reservedBy =
     \<lparr>ci_Key = (name, ''dev''), ci_CloudletKey = (''site'', ''oper'', []), ci_Reservable = True, ci_ReservedBy = reservedBy,
      ci_Deployment = ''kubernetes''\<rparr>"

theorem free_clusters_refine_witness:
  "set (GetForCloudlet (''site'', ''oper'', []) ''helm'' AppInstToClusterDeployment
     (fold free_op_run [FreeUpdate (ex_free ''a'' []), FreeUpdate (ex_free ''b'' []), FreeUpdate (ex_free ''a'' ''app'')] free_Init)) =
   {ex_free ''b'' []}"
proof -
  let ?ops = "[FreeUpdate (ex_free ''a'' []), FreeUpdate (ex_free ''b'' []), FreeUpdate (ex_free ''a'' ''app'')]"
  have "list_all (free_op_ok (\<lambda>_. (''site'', ''oper'', []))) ?ops" by (simp add: ex_free_def)
  note free_clusters_refine[OF this, of "(''site'', ''oper'', [])" "''helm''" AppInstToClusterDeployment]
  moreover have "fold free_op_spec ?ops Map.empty = [(''b'', ''dev'') \<mapsto> ex_free ''b'' []]"
    by (auto simp: ex_free_def fun_eq_iff)
  ultimately show ?thesis by (auto simp: ex_free_def AppInstToClusterDeployment_def)
qed

text \<open>
  The last deletion under a cloudlet leaves the cloudlet's empty table behind: the code removes the table of the cloudlet that the
  deletion message names, and that message has no cloudlet.
\<close>

lemma emptied_cloudlet_stays:
  "map_of (InstsByCloudlet (free_Delete \<lparr>ci_Key = (''a'', ''dev''), ci_CloudletKey = ([], [], []), ci_Reservable = False, ci_ReservedBy = [],
      ci_Deployment = []\<rparr> (free_Update (ex_free ''a'' []) free_Init))) (''site'', ''oper'', []) = Some []"
  by (simp add: ex_free_def free_Update_def free_Delete_def free_Init_def Let_def)

subsection \<open>Client counters\<close>

record ClientCounts =
  cc_count :: uint64
  cc_lastCount :: uint64

record AutoProvCount =
  pc_AppKey :: AppKey
  pc_ZoneKey :: ZoneKey
  pc_Count :: uint64
  pc_ProcessNow :: bool

record AutoProvStats =
  shards :: "(AppKey \<times> ZoneKey, ClientCounts) gomap list"
  sent :: "AutoProvCount list list"

text \<open>The policy as the matching engine keeps it; the zones are listed by operator.\<close>

record DmePolicy =
  dp_Name :: string
  dp_DeployClientCount :: uint32
  dp_IntervalCount :: uint32
  dp_Zones :: "(string, ZoneKey list) gomap"

definition InitAutoProvStats :: "nat \<Rightarrow> AutoProvStats" where
  "InitAutoProvStats numShards = \<lparr>shards = replicate numShards [], sent = []\<rparr>"

definition GetShardIndex :: "(AppKey \<times> ZoneKey \<Rightarrow> nat) \<Rightarrow> AppKey \<times> ZoneKey \<Rightarrow> nat \<Rightarrow> nat" where
  "GetShardIndex hash key numShards = hash key mod numShards"

text \<open>
  The difference is cut to 32 bits before it is compared. The policy is passed for its two thresholds only.
\<close>

definition stats_Increment :: "(AppKey \<times> ZoneKey \<Rightarrow> nat) \<Rightarrow> AppKey \<Rightarrow> ZoneKey \<Rightarrow> DmePolicy \<Rightarrow> AutoProvStats \<Rightarrow> AutoProvStats" where
  "stats_Increment hash appKey zoneKey policy s =
     (let key = (appKey, zoneKey);
          idx = GetShardIndex hash key (length (shards s));
          stats = get_or \<lparr>cc_count = 0, cc_lastCount = 0\<rparr> (shards s ! idx) key;
          stats = stats\<lparr>cc_count := cc_count stats + 1\<rparr>;
          s = s\<lparr>shards := (shards s)[idx := AList.update key stats (shards s ! idx)]\<rparr>
      in if (ucast (cc_count stats - cc_lastCount stats) :: uint32) \<ge> dp_DeployClientCount policy \<and> dp_IntervalCount policy \<le> 1 then
           s\<lparr>sent := sent s @ [[\<lparr>pc_AppKey = appKey, pc_ZoneKey = zoneKey, pc_Count = cc_count stats, pc_ProcessNow = True\<rparr>]]\<rparr>
         else s)"

text \<open>One interval of \<^verbatim>\<open>RunNotify\<close>.\<close>

definition changed_counts :: "(AppKey \<times> ZoneKey, ClientCounts) gomap \<Rightarrow> AutoProvCount list" where
  "changed_counts m =
     map (\<lambda>((appKey, zoneKey), stats). \<lparr>pc_AppKey = appKey, pc_ZoneKey = zoneKey, pc_Count = cc_count stats, pc_ProcessNow = False\<rparr>)
       (filter (\<lambda>(_, stats). cc_count stats \<noteq> cc_lastCount stats) m)"

definition stats_RunNotify :: "AutoProvStats \<Rightarrow> AutoProvStats" where
  "stats_RunNotify s =
     (let counts = concat (map changed_counts (shards s));
          s = s\<lparr>shards := map (map (\<lambda>(key, stats). (key, stats\<lparr>cc_lastCount := cc_count stats\<rparr>))) (shards s)\<rparr>
      in if counts \<noteq> [] then s\<lparr>sent := sent s @ [counts]\<rparr> else s)"

text \<open>The name of the policy is not used: all counters of the application go.\<close>

definition stats_Clear :: "AppKey \<Rightarrow> string \<Rightarrow> AutoProvStats \<Rightarrow> AutoProvStats" where
  "stats_Clear appKey policy s = s\<lparr>shards := map (filter (\<lambda>((a, _), _). a \<noteq> appKey)) (shards s)\<rparr>"

definition stats_Prune :: "AppKey list \<Rightarrow> AutoProvStats \<Rightarrow> AutoProvStats" where
  "stats_Prune apps s = s\<lparr>shards := map (filter (\<lambda>((a, _), _). a \<in> set apps)) (shards s)\<rparr>"

datatype stats_op =
    OpIncrement AppKey ZoneKey DmePolicy
  | OpRunNotify
  | OpClear AppKey string
  | OpPrune "AppKey list"

fun stats_op_run :: "(AppKey \<times> ZoneKey \<Rightarrow> nat) \<Rightarrow> stats_op \<Rightarrow> AutoProvStats \<Rightarrow> AutoProvStats" where
  "stats_op_run hash (OpIncrement a z p) s = stats_Increment hash a z p s"
| "stats_op_run hash OpRunNotify s = stats_RunNotify s"
| "stats_op_run hash (OpClear a p) s = stats_Clear a p s"
| "stats_op_run hash (OpPrune as) s = stats_Prune as s"

text \<open>The specification: the requests for one key since its counters were last dropped, and what the controller was last told.\<close>

fun key_history :: "AppKey \<times> ZoneKey \<Rightarrow> stats_op \<Rightarrow> (uint64 \<times> uint64) option \<Rightarrow> (uint64 \<times> uint64) option" where
  "key_history key (OpIncrement a z p) h =
     (if (a, z) = key then Some (case h of None \<Rightarrow> (1, 0) | Some (n, told) \<Rightarrow> (n + 1, told)) else h)"
| "key_history key OpRunNotify h = map_option (\<lambda>(n, told). (n, n)) h"
| "key_history key (OpClear a p) h = (if a = fst key then None else h)"
| "key_history key (OpPrune as) h = (if fst key \<in> set as then h else None)"

definition counts_of :: "(AppKey \<times> ZoneKey \<Rightarrow> nat) \<Rightarrow> AutoProvStats \<Rightarrow> AppKey \<times> ZoneKey \<Rightarrow> ClientCounts option" where
  "counts_of hash s key = map_of (shards s ! GetShardIndex hash key (length (shards s))) key"

definition shard_ok :: "(AppKey \<times> ZoneKey \<Rightarrow> nat) \<Rightarrow> nat \<Rightarrow> nat \<Rightarrow> (AppKey \<times> ZoneKey, ClientCounts) gomap \<Rightarrow> bool" where
  "shard_ok hash n i m \<longleftrightarrow> go_map m \<and> (\<forall>key \<in> dom (map_of m). GetShardIndex hash key n = i)"

definition stats_wf :: "(AppKey \<times> ZoneKey \<Rightarrow> nat) \<Rightarrow> AutoProvStats \<Rightarrow> bool" where
  "stats_wf hash s \<longleftrightarrow> shards s \<noteq> [] \<and> (\<forall>i < length (shards s). shard_ok hash (length (shards s)) i (shards s ! i))"

lemma shard_bound: "shards s \<noteq> [] \<Longrightarrow> GetShardIndex hash key (length (shards s)) < length (shards s)"
  by (simp add: GetShardIndex_def)

lemma map_of_filter_by_key: "map_of (filter (\<lambda>(k, _). P k) m) k = (if P k then map_of m k else None)"
  by (induction m) auto

lemma filter_app: "(\<lambda>((a, z), _). P a) = (\<lambda>(k, _). P (fst k))"
  by (auto simp: fun_eq_iff)

lemma map_of_map_value: "map_of (map (\<lambda>(k, v). (k, g v)) m) k = map_option g (map_of m k)"
  by (induction m) auto

lemma counts_step:
  assumes "stats_wf hash s"
  shows "map_option (\<lambda>c. (cc_count c, cc_lastCount c)) (counts_of hash (stats_op_run hash c s) key) =
         key_history key c (map_option (\<lambda>c. (cc_count c, cc_lastCount c)) (counts_of hash s key))"
proof -
  have ne: "shards s \<noteq> []" using assms by (simp add: stats_wf_def)
  note bound = shard_bound[OF ne, of hash]
  show ?thesis
  proof (cases c)
    case (OpIncrement a z p)
    then show ?thesis using bound[of key] bound[of "(a, z)"]
      by (cases "counts_of hash s (a, z)")
        (auto simp: counts_of_def stats_Increment_def Let_def get_or_def nth_list_update simp del: map_of_eq_None_keys)
  next
    case OpRunNotify
    then show ?thesis using bound[of key]
      by (auto simp: counts_of_def stats_RunNotify_def Let_def map_of_map_value option.map_comp comp_def)
  next
    case (OpClear a p)
    then show ?thesis using bound[of key]
      by (auto simp: counts_of_def stats_Clear_def filter_app map_of_filter_by_key simp del: map_of_eq_None_keys)
  next
    case (OpPrune as)
    then show ?thesis using bound[of key]
      by (auto simp: counts_of_def stats_Prune_def filter_app map_of_filter_by_key simp del: map_of_eq_None_keys)
  qed
qed

lemma stats_wf_map:
  assumes "stats_wf hash s" "\<And>m. go_map m \<Longrightarrow> go_map (f m)" "\<And>m. dom (map_of (f m)) \<subseteq> dom (map_of m)"
  shows "stats_wf hash (s\<lparr>shards := map f (shards s)\<rparr>)"
proof -
  have "shard_ok hash n i (f m)" if "shard_ok hash n i m" for n i m
    using that assms(2)[of m] assms(3)[of m] unfolding shard_ok_def Ball_def by blast
  then show ?thesis using assms(1) by (simp add: stats_wf_def)
qed

lemma stats_wf_sent [simp]: "stats_wf hash (s\<lparr>sent := x\<rparr>) = stats_wf hash s"
  by (simp add: stats_wf_def)

lemma go_map_filter: "go_map m \<Longrightarrow> go_map (filter P m)"
  by (simp add: distinct_map_filter)

lemma stats_wf_step:
  assumes "stats_wf hash s"
  shows "stats_wf hash (stats_op_run hash c s)"
proof (cases c)
  case (OpIncrement a z p)
  let ?i = "GetShardIndex hash (a, z) (length (shards s))"
  have "shards s \<noteq> []" using assms by (simp add: stats_wf_def)
  then have "shard_ok hash (length (shards s)) ?i (shards s ! ?i)"
    using assms shard_bound[of s hash "(a, z)"] by (simp add: stats_wf_def)
  then have "shard_ok hash (length (shards s)) ?i (AList.update (a, z) v (shards s ! ?i))" for v
    by (simp add: shard_ok_def)
  then have "stats_wf hash (s\<lparr>shards := (shards s)[?i := AList.update (a, z) v (shards s ! ?i)]\<rparr>)" for v
    using assms shard_bound[of s hash "(a, z)"] \<open>shards s \<noteq> []\<close> by (simp add: stats_wf_def nth_list_update)
  then show ?thesis using OpIncrement by (simp add: stats_Increment_def Let_def)
next
  case OpRunNotify
  have "stats_wf hash (s\<lparr>shards := map (map (\<lambda>(key, stats). (key, stats\<lparr>cc_lastCount := cc_count stats\<rparr>))) (shards s)\<rparr>)"
    by (rule stats_wf_map[OF assms]) (simp_all add: comp_def case_prod_unfold dom_map_of_conv_image_fst image_image)
  then show ?thesis using OpRunNotify by (simp add: stats_RunNotify_def Let_def)
next
  case (OpClear a p)
  show ?thesis unfolding OpClear stats_op_run.simps stats_Clear_def filter_app
    by (rule stats_wf_map[OF assms]) (auto simp: go_map_filter dom_map_of_conv_image_fst)
next
  case (OpPrune as)
  show ?thesis unfolding OpPrune stats_op_run.simps stats_Prune_def filter_app
    by (rule stats_wf_map[OF assms]) (auto simp: go_map_filter dom_map_of_conv_image_fst)
qed

lemma stats_run:
  "stats_wf hash s \<Longrightarrow>
   stats_wf hash (fold (stats_op_run hash) ops s)
   \<and> map_option (\<lambda>c. (cc_count c, cc_lastCount c)) (counts_of hash (fold (stats_op_run hash) ops s) key) =
     fold (key_history key) ops (map_option (\<lambda>c. (cc_count c, cc_lastCount c)) (counts_of hash s key))"
proof (induction ops arbitrary: s)
  case (Cons c ops)
  show ?case using Cons.IH[OF stats_wf_step[OF Cons.prems, of c]] by (simp add: counts_step[OF Cons.prems])
qed simp

lemma stats_start:
  "0 < n \<Longrightarrow> stats_wf hash (InitAutoProvStats n)" "0 < n \<Longrightarrow> counts_of hash (InitAutoProvStats n) key = None"
  using shard_bound[of "InitAutoProvStats n" hash] by (auto simp: stats_wf_def shard_ok_def counts_of_def InitAutoProvStats_def)

lemma in_changed_counts:
  "go_map m \<Longrightarrow> x \<in> set (changed_counts m) \<longleftrightarrow>
     (\<exists>c. map_of m (pc_AppKey x, pc_ZoneKey x) = Some c \<and> cc_count c \<noteq> cc_lastCount c \<and> pc_Count x = cc_count c \<and> \<not> pc_ProcessNow x)"
  by (cases x) (auto simp: changed_counts_def simp flip: go_map_entry intro!: image_eqI)

abbreviation pc_key :: "AutoProvCount \<Rightarrow> AppKey \<times> ZoneKey" where
  "pc_key x \<equiv> (pc_AppKey x, pc_ZoneKey x)"

lemma in_all_changed:
  assumes "stats_wf hash s"
  shows "x \<in> set (concat (map changed_counts (shards s))) \<longleftrightarrow>
     (\<exists>c. counts_of hash s (pc_key x) = Some c \<and> cc_count c \<noteq> cc_lastCount c \<and> pc_Count x = cc_count c \<and> \<not> pc_ProcessNow x)"
    (is "?l \<longleftrightarrow> ?r")
proof -
  have ok: "shard_ok hash (length (shards s)) i (shards s ! i)" if "i < length (shards s)" for i
    using assms that by (simp add: stats_wf_def)
  note bound = shard_bound[of s hash "pc_key x"]
  have ne: "shards s \<noteq> []" using assms by (simp add: stats_wf_def)
  have "?l \<longleftrightarrow> (\<exists>i < length (shards s). x \<in> set (changed_counts (shards s ! i)))"
    unfolding set_concat set_map by (auto simp: set_conv_nth[of "shards s"])
  also have "\<dots> \<longleftrightarrow> ?r"
  proof
    assume "\<exists>i < length (shards s). x \<in> set (changed_counts (shards s ! i))"
    then obtain i where i: "i < length (shards s)" "x \<in> set (changed_counts (shards s ! i))" by blast
    have g: "go_map (shards s ! i)" using ok[OF i(1)] by (simp add: shard_ok_def)
    obtain c where c: "map_of (shards s ! i) (pc_key x) = Some c" "cc_count c \<noteq> cc_lastCount c" "pc_Count x = cc_count c" "\<not> pc_ProcessNow x"
      using i(2) unfolding in_changed_counts[OF g] by blast
    have "GetShardIndex hash (pc_key x) (length (shards s)) = i" using ok[OF i(1)] c(1) unfolding shard_ok_def dom_def by blast
    with c show ?r by (auto simp: counts_of_def)
  next
    assume ?r
    with in_changed_counts ok[OF bound[OF ne]] bound[OF ne]
    show "\<exists>i < length (shards s). x \<in> set (changed_counts (shards s ! i))"
      unfolding counts_of_def shard_ok_def by blast
  qed
  finally show ?thesis .
qed

text \<open>
  (C39) The message of an interval lists, for every application and zone, the number of requests since the counter was last dropped,
  exactly when that number is not the one reported last; it depends neither on the number of shards nor on the hash.
\<close>

theorem notify_reports_counts:
  assumes "0 < n" and s: "s = fold (stats_op_run hash) ops (InitAutoProvStats n)"
  shows "\<exists>counts. sent (stats_RunNotify s) = sent s @ (if counts = [] then [] else [counts])
     \<and> set counts = {x. \<not> pc_ProcessNow x \<and> (\<exists>told. told \<noteq> pc_Count x
          \<and> fold (key_history (pc_AppKey x, pc_ZoneKey x)) ops None = Some (pc_Count x, told))}"
proof (intro exI conjI)
  let ?counts = "concat (map changed_counts (shards s))"
  show "sent (stats_RunNotify s) = sent s @ (if ?counts = [] then [] else [?counts])"
    by (simp add: stats_RunNotify_def Let_def)
  have run: "stats_wf hash s" "map_option (\<lambda>c. (cc_count c, cc_lastCount c)) (counts_of hash s key) = fold (key_history key) ops None" for key
    using stats_run[OF stats_start(1)[OF assms(1)], of hash ops key] stats_start(2)[OF assms(1)] unfolding s by simp_all
  show "set ?counts = {x. \<not> pc_ProcessNow x \<and> (\<exists>told. told \<noteq> pc_Count x
          \<and> fold (key_history (pc_AppKey x, pc_ZoneKey x)) ops None = Some (pc_Count x, told))}"
    unfolding run(2)[symmetric] by (rule set_eqI) (simp only: in_all_changed[OF run(1)] mem_Collect_eq, auto)
qed

definition ex_site :: ZoneKey where "ex_site = (''zone'', ''oper'', [])"

definition ex_dme_app :: AppKey where "ex_dme_app = (''dev'', ''app'', ''1.0'')"

definition ex_requests :: "stats_op list" where
  "ex_requests =
     (let r = OpIncrement ex_dme_app ex_site \<lparr>dp_Name = ''pol'', dp_DeployClientCount = 9, dp_IntervalCount = 3, dp_Zones = []\<rparr>
      in [r, r])"

theorem notify_reports_counts_witness:
  "\<exists>counts. sent (stats_RunNotify (fold (stats_op_run (\<lambda>_. 5)) ex_requests (InitAutoProvStats 3))) = (if counts = [] then [] else [counts])
     \<and> \<lparr>pc_AppKey = ex_dme_app, pc_ZoneKey = ex_site, pc_Count = 2, pc_ProcessNow = False\<rparr> \<in> set counts"
proof -
  let ?s = "fold (stats_op_run (\<lambda>_. 5)) ex_requests (InitAutoProvStats 3)"
  have "fold (key_history (ex_dme_app, ex_site)) ex_requests None = Some (2, 0)"
    by (simp add: ex_requests_def Let_def)
  moreover have "sent ?s = []"
    by (simp add: ex_requests_def stats_Increment_def InitAutoProvStats_def Let_def word_le_nat_alt[of 3])
  ultimately show ?thesis
    using notify_reports_counts[of 3 ?s "\<lambda>_. 5" ex_requests] by fastforce
qed

end
