(* ===== verification/MatchEngine.thy ===== *)
theory MatchEngine
  imports DmeCaches Ports
begin

text \<open>
  The tables of the distributed matching engine (\<^verbatim>\<open>pkg/uaem-common/match-engine.go\<close>) and the handlers of
  \<^verbatim>\<open>cmd/uaem/dme/dme-notify.go\<close> that keep them in step with the controller. An instance is one object that the table of its own
  operator and the tables of allied operators share, and a policy is shared by the table of policies and the applications that use it,
  so both live in a heap: an address is an index into a list, and a table holds addresses. An application and a cloudlet have one
  owner each and are values. A location in the table of zones is the location of the cloudlet: both are only ever
  written together, so the table holds values.

  Every handler runs under the lock of the table, hence is one step. What it starts in the background (the calls of the plugin for
  edge events, the purge of tracked clients) is appended to a list of events. The resources of an application, which no
  lookup reads, are left out. The counters of clients are absent until the process has set them up.
\<close>

subsection \<open>Messages of the controller\<close>

record Loc =
  Latitude :: rat
  Longitude :: rat

record MappedPort = InstPort +
  mp_PublicPort :: int
  mp_FqdnPrefix :: string

record DmeAppMsg = App +
  am_AuthPublicKey :: string
  am_AndroidPackageName :: string
  am_OfficialFqdn :: string
  am_Deployment :: string
  am_AccessPorts :: string
  am_QosSessionProfile :: string
  am_QosSessionDuration :: int

record AppInstMsg = AppInst +
  im_ClusterKey :: ClusterKey
  im_Uri :: string
  im_CloudletLoc :: Loc
  im_MappedPorts :: "MappedPort list"

record CloudletMsg = Cloudlet +
  cm_Location :: Loc
  cm_AllianceOrgs :: "string list"

record CloudletInfoMsg = CloudletInfo +
  cim_Key :: CloudletKey
  cim_MaintenanceState :: MaintenanceState

subsection \<open>Tables\<close>

record DmeAppInst =
  di_key :: AppInstKey
  di_clusterKey :: ClusterKey
  di_cloudletKey :: CloudletKey
  di_zoneKey :: ZoneKey
  di_Uri :: string
  di_Location :: Loc
  di_ports :: "MappedPort list"
  di_CloudletState :: CloudletState
  di_MaintenanceState :: MaintenanceState
  di_AppInstHealth :: HealthCheck
  di_TrackedState :: TrackedState

record DmeAppInstState =
  st_CloudletState :: CloudletState
  st_MaintenanceState :: MaintenanceState
  st_AppInstHealth :: HealthCheck

record DmeAppInsts =
  Insts :: "(AppInstKey, nat) gomap"
  AllianceInsts :: "(AppInstKey, nat) gomap"

record DmeApp =
  da_AppKey :: AppKey
  da_Carriers :: "(string, DmeAppInsts) gomap"
  da_AuthPublicKey :: string
  da_AndroidPackageName :: string
  da_OfficialFqdn :: string
  da_AutoProvPolicies :: "(string, nat) gomap"
  da_Deployment :: string
  da_QosSessionProfile :: string
  da_QosSessionDuration :: int
  da_Ports :: "InstPort list"

record DmeCloudlet =
  dc_CloudletKey :: CloudletKey
  dc_State :: CloudletState
  dc_MaintenanceState :: MaintenanceState
  dc_GpsLocation :: Loc
  dc_AllianceCarriers :: "string list"
  dc_AppInstKeys :: "(AppInstKey, AppKey) gomap"
  dc_ZoneKey :: ZoneKey

datatype ServerEventType = EVENT_APPINST_HEALTH | EVENT_CLOUDLET_STATE

datatype edge_event =
    SendAvailableAppInst AppKey AppInstKey string
  | SendAppInstStateEdgeEvent DmeAppInstState AppInstKey AppKey ServerEventType
  | EE_RemoveAppInst AppInstKey
  | SendCloudletMaintenanceStateEdgeEvent DmeAppInstState CloudletKey
  | SendCloudletStateEdgeEvent DmeAppInstState CloudletKey
  | PurgeAppInstClients AppInstKey AppKey

record DmeApps =
  Apps :: "(AppKey, DmeApp) gomap"
  AppInstApps :: "(AppInstKey, AppKey) gomap"
  Cloudlets :: "(CloudletKey, DmeCloudlet) gomap"
  CarriersByAppInst :: "(AppInstKey, CloudletKey) gomap"
  AutoProvPolicies :: "(PolicyKey, nat) gomap"
  CloudletLocsByZone :: "(ZoneKey, (CloudletKey, Loc) gomap) gomap"
  FreeReservableClusterInsts :: FreeReservableClusterInstCache
  OperatorCodes :: "(string, string) gomap"
  inst_heap :: "DmeAppInst list"
  policy_heap :: "DmePolicy list"
  autoProvStats :: "AutoProvStats option"
  events :: "edge_event list"

definition SetupMatchEngine :: DmeApps where
  "SetupMatchEngine =
     \<lparr>Apps = [], AppInstApps = [], Cloudlets = [], CarriersByAppInst = [], AutoProvPolicies = [], CloudletLocsByZone = [],
      FreeReservableClusterInsts = free_Init, OperatorCodes = [], inst_heap = [], policy_heap = [], autoProvStats = None, events = []\<rparr>"

abbreviation cloudlet_org :: "CloudletKey \<Rightarrow> string" where "cloudlet_org k \<equiv> fst (snd k)"

abbreviation inst :: "DmeApps \<Rightarrow> nat \<Rightarrow> DmeAppInst" where "inst t a \<equiv> inst_heap t ! a"

definition set_inst :: "nat \<Rightarrow> (DmeAppInst \<Rightarrow> DmeAppInst) \<Rightarrow> DmeApps \<Rightarrow> DmeApps" where
  "set_inst a f t = t\<lparr>inst_heap := (inst_heap t)[a := f (inst_heap t ! a)]\<rparr>"

definition set_app :: "AppKey \<Rightarrow> (DmeApp \<Rightarrow> DmeApp) \<Rightarrow> DmeApps \<Rightarrow> DmeApps" where
  "set_app appKey f t =
     (case map_of (Apps t) appKey of None \<Rightarrow> t | Some app \<Rightarrow> t\<lparr>Apps := AList.update appKey (f app) (Apps t)\<rparr>)"

definition emit :: "edge_event \<Rightarrow> DmeApps \<Rightarrow> DmeApps" where
  "emit e t = t\<lparr>events := events t @ [e]\<rparr>"

definition no_state :: DmeAppInstState where
  "no_state = \<lparr>st_CloudletState = CLOUDLET_STATE_UNKNOWN, st_MaintenanceState = NORMAL_OPERATION, st_AppInstHealth = HEALTH_CHECK_UNKNOWN\<rparr>"

definition AreStatesUsable :: "MaintenanceState \<Rightarrow> CloudletState \<Rightarrow> HealthCheck \<Rightarrow> bool" where
  "AreStatesUsable maintenanceState cloudletState appInstHealth =
     (if maintenanceState = UNDER_MAINTENANCE then False
      else if cloudletState = CLOUDLET_STATE_READY then appInstHealth = HEALTH_CHECK_OK \<or> appInstHealth = HEALTH_CHECK_UNKNOWN
      else False)"

definition IsAppInstUsable :: "DmeAppInst \<Rightarrow> bool" where
  "IsAppInstUsable appInst =
     (if di_TrackedState appInst \<noteq> READY then False
      else AreStatesUsable (di_MaintenanceState appInst) (di_CloudletState appInst) (di_AppInstHealth appInst))"

subsection \<open>Applications\<close>

text \<open>
  The policies of the application: those it has and the message still names, then those the message adds and the table
  knows. Dropping one clears the counters of the application; without counters that is a nil dereference and the result
  is \<^const>\<open>None\<close>.
\<close>

definition msg_policies :: "'a App_scheme \<Rightarrow> string list" where
  "msg_policies m = remdups ((if app_AutoProvPolicy m \<noteq> [] then [app_AutoProvPolicy m] else []) @ app_AutoProvPolicies m)"

definition add_policies :: "DmeApps \<Rightarrow> string \<Rightarrow> string list \<Rightarrow> (string, nat) gomap \<Rightarrow> (string, nat) gomap" where
  "add_policies t organization inAP m =
     fold (\<lambda>name m. if map_of m name \<noteq> None then m
        else case map_of (AutoProvPolicies t) (name, organization) of None \<Rightarrow> m | Some pp \<Rightarrow> AList.update name pp m) inAP m"

definition AddApp :: "DmeAppMsg \<Rightarrow> DmeApps \<Rightarrow> DmeApps option" where
  "AddApp m t =
     (let key = app_Key m;
          app = (case map_of (Apps t) key of Some app \<Rightarrow> app
             | None \<Rightarrow> \<lparr>da_AppKey = key, da_Carriers = [], da_AuthPublicKey = [], da_AndroidPackageName = [], da_OfficialFqdn = [],
                        da_AutoProvPolicies = [], da_Deployment = [], da_QosSessionProfile = [], da_QosSessionDuration = 0, da_Ports = []\<rparr>);
          app = app\<lparr>da_AuthPublicKey := am_AuthPublicKey m, da_AndroidPackageName := am_AndroidPackageName m,
                    da_OfficialFqdn := am_OfficialFqdn m, da_Deployment := am_Deployment m,
                    da_Ports := (case ParseAppPorts (am_AccessPorts m) of Inl _ \<Rightarrow> [] | Inr ports \<Rightarrow> ports),
                    da_QosSessionProfile := am_QosSessionProfile m, da_QosSessionDuration := am_QosSessionDuration m\<rparr>;
          inAP = msg_policies m;
          clearAutoProvStats = filter (\<lambda>name. name \<notin> set inAP) (keys (da_AutoProvPolicies app));
          kept = filter (\<lambda>(name, _). name \<in> set inAP) (da_AutoProvPolicies app);
          app = app\<lparr>da_AutoProvPolicies := add_policies t (app_org key) inAP kept\<rparr>;
          t = t\<lparr>Apps := AList.update key app (Apps t)\<rparr>
      in if clearAutoProvStats = [] then Some t
         else case autoProvStats t of None \<Rightarrow> None
           | Some stats \<Rightarrow> Some (t\<lparr>autoProvStats := Some (fold (stats_Clear key) clearAutoProvStats stats)\<rparr>))"

definition RemoveApp :: "AppKey \<Rightarrow> DmeApps \<Rightarrow> DmeApps" where
  "RemoveApp key t =
     (case map_of (Apps t) key of None \<Rightarrow> t
      | Some app \<Rightarrow>
          t\<lparr>Apps := AList.delete key (Apps t),
            autoProvStats := map_option (fold (stats_Clear key) (keys (da_AutoProvPolicies app))) (autoProvStats t)\<rparr>)"

definition PruneApps :: "AppKey list \<Rightarrow> DmeApps \<Rightarrow> DmeApps" where
  "PruneApps apps t =
     t\<lparr>Apps := filter (\<lambda>(key, _). key \<in> set apps) (Apps t), autoProvStats := map_option (stats_Prune apps) (autoProvStats t)\<rparr>"

subsection \<open>Instances\<close>

definition newDmeAppInsts :: DmeAppInsts where
  "newDmeAppInsts = \<lparr>Insts = [], AllianceInsts = []\<rparr>"

definition addAppInstAlliance :: "AppKey \<Rightarrow> AppInstKey \<Rightarrow> nat \<Rightarrow> string \<Rightarrow> DmeApps \<Rightarrow> DmeApps" where
  "addAppInstAlliance appKey instKey a allianceCarrier t =
     set_app appKey (\<lambda>app.
       let insts = get_or newDmeAppInsts (da_Carriers app) allianceCarrier
       in app\<lparr>da_Carriers := AList.update allianceCarrier
            (insts\<lparr>AllianceInsts := AList.update instKey a (AllianceInsts insts)\<rparr>) (da_Carriers app)\<rparr>) t"

definition removeAppInstAlliance :: "AppKey \<Rightarrow> AppInstKey \<Rightarrow> string \<Rightarrow> DmeApps \<Rightarrow> DmeApps" where
  "removeAppInstAlliance appKey instKey allianceCarrier t =
     set_app appKey (\<lambda>app.
       case map_of (da_Carriers app) allianceCarrier of None \<Rightarrow> app
       | Some insts \<Rightarrow>
           let insts = insts\<lparr>AllianceInsts := AList.delete instKey (AllianceInsts insts)\<rparr>
           in app\<lparr>da_Carriers :=
                (if Insts insts = [] \<and> AllianceInsts insts = [] then AList.delete allianceCarrier (da_Carriers app)
                 else AList.update allianceCarrier insts (da_Carriers app))\<rparr>) t"

definition new_inst :: "AppInstKey \<Rightarrow> DmeAppInst" where
  "new_inst key =
     \<lparr>di_key = key, di_clusterKey = ([], []), di_cloudletKey = ([], [], []), di_zoneKey = ([], [], []), di_Uri = [],
      di_Location = \<lparr>Latitude = 0, Longitude = 0\<rparr>, di_ports = [], di_CloudletState = CLOUDLET_STATE_UNKNOWN,
      di_MaintenanceState = NORMAL_OPERATION, di_AppInstHealth = HEALTH_CHECK_UNKNOWN, di_TrackedState = TRACKED_STATE_UNKNOWN\<rparr>"

text \<open>The object of the instance in the table of its operator, made when it is not there yet; with the address, whether it was there.\<close>

definition find_or_add_inst :: "AppInstMsg \<Rightarrow> DmeApp \<Rightarrow> DmeApps \<Rightarrow> DmeApps \<times> nat \<times> bool" where
  "find_or_add_inst m app t =
     (let carrierName = cloudlet_org (ai_CloudletKey m);
          insts = get_or newDmeAppInsts (da_Carriers app) carrierName
      in case map_of (Insts insts) (ai_Key m) of
           Some a \<Rightarrow> (set_app (ai_AppKey m) (\<lambda>app. app\<lparr>da_Carriers := AList.update carrierName insts (da_Carriers app)\<rparr>) t, a, True)
         | None \<Rightarrow>
             (let a = length (inst_heap t); insts = insts\<lparr>Insts := AList.update (ai_Key m) a (Insts insts)\<rparr>
              in (set_app (ai_AppKey m) (\<lambda>app. app\<lparr>da_Carriers := AList.update carrierName insts (da_Carriers app)\<rparr>)
                    (t\<lparr>inst_heap := inst_heap t @ [new_inst (ai_Key m)]\<rparr>), a, False)))"

definition AddAppInst :: "AppInstMsg \<Rightarrow> DmeApps \<Rightarrow> DmeApps" where
  "AddAppInst m t =
     (let key = ai_Key m; appkey = ai_AppKey m in
      case map_of (Apps t) appkey of None \<Rightarrow> t
      | Some app \<Rightarrow>
          let t = t\<lparr>AppInstApps := AList.update key appkey (AppInstApps t),
                    CarriersByAppInst := AList.update key (ai_CloudletKey m) (CarriersByAppInst t)\<rparr>;
              (t, a, foundAppInst) = find_or_add_inst m app t;
              t = set_inst a (\<lambda>i. i\<lparr>di_clusterKey := im_ClusterKey m, di_cloudletKey := ai_CloudletKey m, di_zoneKey := ai_ZoneKey m,
                     di_Uri := im_Uri m, di_Location := im_CloudletLoc m, di_ports := im_MappedPorts m, di_TrackedState := ai_State m\<rparr>) t;
              healthChanged = (di_AppInstHealth (inst t a) \<noteq> ai_HealthCheck m \<and> foundAppInst);
              t = (if healthChanged then set_inst a (\<lambda>i. i\<lparr>di_AppInstHealth := ai_HealthCheck m\<rparr>) t else t);
              sendAvailableAppInst = (\<not> foundAppInst \<or> healthChanged \<and> ai_HealthCheck m = HEALTH_CHECK_OK);
              t = (if healthChanged \<and> ai_HealthCheck m \<noteq> HEALTH_CHECK_OK then
                     emit (SendAppInstStateEdgeEvent (no_state\<lparr>st_AppInstHealth := ai_HealthCheck m\<rparr>) key appkey EVENT_APPINST_HEALTH) t
                   else t)
          in case map_of (Cloudlets t) (ai_CloudletKey m) of None \<Rightarrow> t
             | Some cloudlet \<Rightarrow>
                 let t = t\<lparr>Cloudlets := AList.update (ai_CloudletKey m)
                           (cloudlet\<lparr>dc_AppInstKeys := AList.update key appkey (dc_AppInstKeys cloudlet)\<rparr>) (Cloudlets t)\<rparr>;
                     t = set_inst a (\<lambda>i. i\<lparr>di_CloudletState := dc_State cloudlet, di_MaintenanceState := dc_MaintenanceState cloudlet\<rparr>) t;
                     t = fold (addAppInstAlliance appkey key a) (dc_AllianceCarriers cloudlet) t
                 in if sendAvailableAppInst \<and> IsAppInstUsable (inst t a)
                    then emit (SendAvailableAppInst appkey key (cloudlet_org (ai_CloudletKey m))) t else t)"

text \<open>The tracked clients are purged after the lock is released, whenever the application of the instance is known.\<close>

definition drop_inst :: "AppInstKey \<Rightarrow> AppKey \<Rightarrow> string \<Rightarrow> DmeApps \<Rightarrow> DmeApps" where
  "drop_inst key appkey carrierName t =
     (case map_of (Apps t) appkey of None \<Rightarrow> t
      | Some app \<Rightarrow>
          case map_of (da_Carriers app) carrierName of None \<Rightarrow> t
          | Some c \<Rightarrow>
              let t = (case map_of (Insts c) key of None \<Rightarrow> t
                       | Some a \<Rightarrow>
                           emit (EE_RemoveAppInst key)
                             (emit (SendAppInstStateEdgeEvent (no_state\<lparr>st_AppInstHealth := HEALTH_CHECK_SERVER_FAIL\<rparr>) key appkey EVENT_APPINST_HEALTH)
                               (set_inst a (\<lambda>i. i\<lparr>di_AppInstHealth := HEALTH_CHECK_SERVER_FAIL\<rparr>) t)));
                  c = c\<lparr>Insts := AList.delete key (Insts c)\<rparr>
              in set_app appkey (\<lambda>app. app\<lparr>da_Carriers :=
                   (if Insts c = [] \<and> AllianceInsts c = [] then AList.delete carrierName (da_Carriers app)
                    else AList.update carrierName c (da_Carriers app))\<rparr>) t)"

definition RemoveAppInst :: "AppInstKey \<Rightarrow> DmeApps \<Rightarrow> DmeApps" where
  "RemoveAppInst key t =
     (case map_of (AppInstApps t) key of None \<Rightarrow> t
      | Some appkey \<Rightarrow>
          emit (PurgeAppInstClients key appkey)
            (case map_of (Apps t) appkey of None \<Rightarrow> t
             | Some app \<Rightarrow>
                 case map_of (CarriersByAppInst t) key of None \<Rightarrow> t
                 | Some cloudletKey \<Rightarrow>
                     let t = t\<lparr>AppInstApps := AList.delete key (AppInstApps t), CarriersByAppInst := AList.delete key (CarriersByAppInst t)\<rparr>;
                         t = drop_inst key appkey (cloudlet_org cloudletKey) t
                     in case map_of (Cloudlets t) cloudletKey of None \<Rightarrow> t
                        | Some cloudlet \<Rightarrow> fold (removeAppInstAlliance appkey key) (dc_AllianceCarriers cloudlet) t))"

text \<open>The instances of one carrier that the controller did not send. The instances of allies in the same carrier are not looked at.\<close>

definition prune_carrier :: "AppInstKey list \<Rightarrow> AppKey \<Rightarrow> string \<times> DmeAppInsts \<Rightarrow> DmeApps \<Rightarrow> DmeApps" where
  "prune_carrier appInsts appkey e t =
     (case e of (c, carr) \<Rightarrow>
        let t = fold (\<lambda>(key, a) t. if key \<in> set appInsts then t
                  else emit (EE_RemoveAppInst key)
                    (emit (SendAppInstStateEdgeEvent (no_state\<lparr>st_AppInstHealth := di_AppInstHealth (inst t a)\<rparr>) key appkey EVENT_APPINST_HEALTH) t))
                (Insts carr) t;
            carr = carr\<lparr>Insts := filter (\<lambda>(key, _). key \<in> set appInsts) (Insts carr)\<rparr>
        in set_app appkey (\<lambda>app. app\<lparr>da_Carriers :=
             (if Insts carr = [] then AList.delete c (da_Carriers app) else AList.update c carr (da_Carriers app))\<rparr>) t)"

definition PruneAppInsts :: "AppInstKey list \<Rightarrow> DmeApps \<Rightarrow> DmeApps" where
  "PruneAppInsts appInsts t =
     (let t = fold (\<lambda>(appkey, app). fold (prune_carrier appInsts appkey) (da_Carriers app)) (Apps t) t
      in t\<lparr>Cloudlets := map (\<lambda>(ck, cl). (ck, cl\<lparr>dc_AppInstKeys := filter (\<lambda>(key, _). key \<in> set appInsts) (dc_AppInstKeys cl)\<rparr>)) (Cloudlets t),
           AppInstApps := filter (\<lambda>(key, _). key \<in> set appInsts) (AppInstApps t)\<rparr>)"

subsection \<open>Cloudlets\<close>

text \<open>
  The instances of the table of one carrier whose cloudlet satisfies a condition are marked as being on no cloudlet; when the
  maintenance state is reset too, an event is sent for each.
\<close>

definition reset_insts :: "(CloudletKey \<Rightarrow> bool) \<Rightarrow> bool \<Rightarrow> AppKey \<Rightarrow> DmeAppInsts \<Rightarrow> DmeApps \<Rightarrow> DmeApps" where
  "reset_insts gone full appkey carr t =
     fold (\<lambda>(key, a) t.
       if gone (di_cloudletKey (inst t a)) then
         if full then
           emit (SendAppInstStateEdgeEvent (no_state\<lparr>st_CloudletState := CLOUDLET_STATE_NOT_PRESENT\<rparr>) key appkey EVENT_CLOUDLET_STATE)
             (set_inst a (\<lambda>i. i\<lparr>di_CloudletState := CLOUDLET_STATE_NOT_PRESENT, di_MaintenanceState := NORMAL_OPERATION\<rparr>) t)
         else set_inst a (\<lambda>i. i\<lparr>di_CloudletState := CLOUDLET_STATE_NOT_PRESENT\<rparr>) t
       else t) (Insts carr) t"

definition DeleteCloudletInfo :: "(CloudletKey \<Rightarrow> string) \<Rightarrow> CloudletKey \<Rightarrow> DmeApps \<Rightarrow> DmeApps" where
  "DeleteCloudletInfo keyString cloudletKey t =
     (let carrier = cloudlet_org cloudletKey;
          t = fold (\<lambda>(appkey, app) t. case map_of (da_Carriers app) carrier of None \<Rightarrow> t
                 | Some c \<Rightarrow> reset_insts (\<lambda>k. keyString k = keyString cloudletKey) True appkey c t) (Apps t) t
      in t\<lparr>Cloudlets := AList.delete cloudletKey (Cloudlets t),
           CloudletLocsByZone := filter (\<lambda>(_, cbyz). cbyz \<noteq> [])
             (map (\<lambda>(zkey, cbyz). (zkey, AList.delete cloudletKey cbyz)) (CloudletLocsByZone t))\<rparr>)"

text \<open>The last loop deletes the cloudlets that were sent and are not in the table.\<close>

definition PruneCloudlets :: "CloudletKey list \<Rightarrow> DmeApps \<Rightarrow> DmeApps" where
  "PruneCloudlets cloudlets t =
     (let t = fold (\<lambda>(appkey, app). fold (\<lambda>(_, carr). reset_insts (\<lambda>k. k \<notin> set cloudlets) True appkey carr) (da_Carriers app)) (Apps t) t
      in t\<lparr>Cloudlets := fold (\<lambda>cloudlet m. if map_of m cloudlet = None then AList.delete cloudlet m else m) cloudlets (Cloudlets t)\<rparr>)"

definition PruneInstsCloudletState :: "CloudletKey list \<Rightarrow> DmeApps \<Rightarrow> DmeApps" where
  "PruneInstsCloudletState cloudlets t =
     fold (\<lambda>(appkey, app). fold (\<lambda>(_, carr). reset_insts (\<lambda>k. k \<notin> set cloudlets) False appkey carr) (da_Carriers app)) (Apps t) t"

datatype lookup_error = AppNotFound | CarrierNotFound | AppInstNotFound

definition getTableAppInstAndLock :: "AppKey \<Rightarrow> AppInstKey \<Rightarrow> string \<Rightarrow> DmeApps \<Rightarrow> (lookup_error, nat) result" where
  "getTableAppInstAndLock appKey appInstKey carrier t =
     (case map_of (Apps t) appKey of None \<Rightarrow> Err AppNotFound
      | Some app \<Rightarrow>
          case map_of (da_Carriers app) carrier of None \<Rightarrow> Err CarrierNotFound
          | Some insts \<Rightarrow> case map_of (Insts insts) appInstKey of None \<Rightarrow> Err AppInstNotFound | Some a \<Rightarrow> Ok a)"

definition send_if_usable :: "bool \<Rightarrow> AppKey \<Rightarrow> AppInstKey \<Rightarrow> nat \<Rightarrow> string \<Rightarrow> DmeApps \<Rightarrow> DmeApps" where
  "send_if_usable sendAvailableAppInst appKey key a carrier t =
     (if sendAvailableAppInst \<and> IsAppInstUsable (inst t a) then emit (SendAvailableAppInst appKey key carrier) t else t)"

definition track_location :: "CloudletKey \<Rightarrow> ZoneKey option \<Rightarrow> ZoneKey \<Rightarrow> Loc \<Rightarrow> DmeApps \<Rightarrow> DmeApps" where
  "track_location cloudletKey oldZone zoneKey loc t =
     (let locs = CloudletLocsByZone t;
          locs = (case oldZone of None \<Rightarrow> locs
            | Some old \<Rightarrow>
                if old = zoneKey then locs
                else case map_of locs old of None \<Rightarrow> locs
                  | Some cbyz \<Rightarrow>
                      let cbyz = AList.delete cloudletKey cbyz
                      in if cbyz = [] then AList.delete old locs else AList.update old cbyz locs)
      in t\<lparr>CloudletLocsByZone := AList.update zoneKey (AList.update cloudletKey loc (get_or [] locs zoneKey)) locs\<rparr>)"

text \<open>One instance of the cloudlet: its maintenance state and the allies that may use it.\<close>

definition update_cloudlet_inst ::
  "MaintenanceState \<Rightarrow> bool \<Rightarrow> string \<Rightarrow> string list \<Rightarrow> string list \<Rightarrow> AppInstKey \<times> AppKey \<Rightarrow> DmeApps \<Rightarrow> DmeApps" where
  "update_cloudlet_inst maintenance sendAvailableAppInst carrier newAllianceCarriers oldAllianceCarriers e t =
     (case e of (appInstKey, appKey) \<Rightarrow>
        case getTableAppInstAndLock appKey appInstKey carrier t of Inl _ \<Rightarrow> t
        | Inr a \<Rightarrow>
            let t = set_inst a (\<lambda>i. i\<lparr>di_MaintenanceState := maintenance\<rparr>) t;
                t = send_if_usable sendAvailableAppInst appKey appInstKey a carrier t;
                t = fold (addAppInstAlliance appKey appInstKey a) newAllianceCarriers t
            in fold (removeAppInstAlliance appKey appInstKey) oldAllianceCarriers t)"

text \<open>
  The loop over the allied organizations also takes each out of the old set as it goes: a name that is listed twice counts as new the
  second time.
\<close>

definition alliance_changes :: "string list \<Rightarrow> string list \<Rightarrow> string list \<times> string list \<times> string list" where
  "alliance_changes orgs old =
     fold (\<lambda>org (cur, new, old). (List.insert org cur, if org \<in> set old then new else List.insert org new, removeAll org old))
       orgs ([], [], old)"

definition SetInstStateFromCloudlet :: "CloudletMsg \<Rightarrow> DmeApps \<Rightarrow> DmeApps" where
  "SetInstStateFromCloudlet m t =
     (let key = cl_Key m; carrier = cloudlet_org key;
          (cloudlet, oldZone, foundCloudlet) = (case map_of (Cloudlets t) key of
              Some cloudlet \<Rightarrow> (cloudlet, Some (dc_ZoneKey cloudlet), True)
            | None \<Rightarrow> (\<lparr>dc_CloudletKey = key, dc_State = CLOUDLET_STATE_UNKNOWN, dc_MaintenanceState = NORMAL_OPERATION,
                        dc_GpsLocation = \<lparr>Latitude = 0, Longitude = 0\<rparr>, dc_AllianceCarriers = [], dc_AppInstKeys = [],
                        dc_ZoneKey = ([], [], [])\<rparr>, None, False));
          changed = (dc_MaintenanceState cloudlet \<noteq> cl_MaintenanceState m \<and> foundCloudlet);
          cloudlet = (if changed then cloudlet\<lparr>dc_MaintenanceState := cl_MaintenanceState m\<rparr> else cloudlet);
          sendAvailableAppInst = (changed \<and> cl_MaintenanceState m = NORMAL_OPERATION);
          t = (if changed \<and> cl_MaintenanceState m \<noteq> NORMAL_OPERATION
               then emit (SendCloudletMaintenanceStateEdgeEvent (no_state\<lparr>st_MaintenanceState := cl_MaintenanceState m\<rparr>) key) t else t);
          (allianceCarriers, newAllianceCarriers, oldAllianceCarriers) = alliance_changes (cm_AllianceOrgs m) (dc_AllianceCarriers cloudlet);
          cloudlet = cloudlet\<lparr>dc_GpsLocation := cm_Location m, dc_ZoneKey := GetZone (Cloudlet.truncate m), dc_AllianceCarriers := allianceCarriers\<rparr>;
          t = t\<lparr>Cloudlets := AList.update key cloudlet (Cloudlets t)\<rparr>;
          t = track_location key oldZone (dc_ZoneKey cloudlet) (cm_Location m) t
      in fold (update_cloudlet_inst (cl_MaintenanceState m) sendAvailableAppInst carrier newAllianceCarriers oldAllianceCarriers)
           (dc_AppInstKeys cloudlet) t)"

definition info_cloudlet_inst :: "CloudletState \<Rightarrow> MaintenanceState \<Rightarrow> bool \<Rightarrow> string \<Rightarrow> AppInstKey \<times> AppKey \<Rightarrow> DmeApps \<Rightarrow> DmeApps" where
  "info_cloudlet_inst state maintenance sendAvailableAppInst carrier e t =
     (case e of (appInstKey, appKey) \<Rightarrow>
        case getTableAppInstAndLock appKey appInstKey carrier t of Inl _ \<Rightarrow> t
        | Inr a \<Rightarrow>
            send_if_usable sendAvailableAppInst appKey appInstKey a carrier
              (set_inst a (\<lambda>i. i\<lparr>di_CloudletState := state, di_MaintenanceState := maintenance\<rparr>) t))"

definition SetInstStateFromCloudletInfo :: "CloudletInfoMsg \<Rightarrow> DmeApps \<Rightarrow> DmeApps" where
  "SetInstStateFromCloudletInfo info t =
     (let key = cim_Key info; carrier = cloudlet_org key in
      case map_of (Cloudlets t) key of None \<Rightarrow> t
      | Some cloudlet \<Rightarrow>
          let changed = (dc_State cloudlet \<noteq> cli_State info);
              t = (if changed then t\<lparr>Cloudlets := AList.update key (cloudlet\<lparr>dc_State := cli_State info\<rparr>) (Cloudlets t)\<rparr> else t);
              sendAvailableAppInst = (changed \<and> cli_State info = CLOUDLET_STATE_READY);
              t = (if changed \<and> cli_State info \<noteq> CLOUDLET_STATE_READY
                   then emit (SendCloudletStateEdgeEvent (no_state\<lparr>st_CloudletState := cli_State info\<rparr>) key) t else t)
          in fold (info_cloudlet_inst (cli_State info) (cim_MaintenanceState info) sendAvailableAppInst carrier) (dc_AppInstKeys cloudlet) t)"

text \<open>A deleted report of a cloudlet counts as one that says the cloudlet is not there.\<close>

definition CloudletInfoHandler_Delete :: "CloudletInfoMsg \<Rightarrow> DmeApps \<Rightarrow> DmeApps" where
  "CloudletInfoHandler_Delete info t = SetInstStateFromCloudletInfo (info\<lparr>cli_State := CLOUDLET_STATE_NOT_PRESENT\<rparr>) t"

subsection \<open>Policies\<close>

definition zones_by_carrier :: "ZoneKey list \<Rightarrow> (string, ZoneKey list) gomap" where
  "zones_by_carrier zs =
     fold (\<lambda>zkey m. AList.update (cloudlet_org zkey) (get_or [] m (cloudlet_org zkey) @ [zkey]) m) zs []"

definition policy_Update :: "AutoProvPolicy \<Rightarrow> DmeApps \<Rightarrow> DmeApps" where
  "policy_Update m t =
     (let pp = \<lparr>dp_Name = fst (pol_Key m), dp_DeployClientCount = pol_DeployClientCount m, dp_IntervalCount = pol_DeployIntervalCount m,
                dp_Zones = zones_by_carrier (pol_Zones m)\<rparr>
      in case map_of (AutoProvPolicies t) (pol_Key m) of
           Some a \<Rightarrow> t\<lparr>policy_heap := (policy_heap t)[a := pp]\<rparr>
         | None \<Rightarrow> t\<lparr>policy_heap := policy_heap t @ [pp],
                     AutoProvPolicies := AList.update (pol_Key m) (length (policy_heap t)) (AutoProvPolicies t)\<rparr>)"

definition policy_Delete :: "PolicyKey \<Rightarrow> DmeApps \<Rightarrow> DmeApps" where
  "policy_Delete key t = t\<lparr>AutoProvPolicies := AList.delete key (AutoProvPolicies t)\<rparr>"

definition policy_Prune :: "PolicyKey list \<Rightarrow> DmeApps \<Rightarrow> DmeApps" where
  "policy_Prune ks t = t\<lparr>AutoProvPolicies := filter (\<lambda>(key, _). key \<in> set ks) (AutoProvPolicies t)\<rparr>"

subsection \<open>Runs\<close>

text \<open>The messages of the controller, in the order in which the handlers see them.\<close>

datatype dme_op =
    AppUpdate DmeAppMsg
  | AppDelete AppKey
  | AppPrune "AppKey list"
  | AppInstUpdate AppInstMsg
  | AppInstDelete AppInstKey
  | AppInstPrune "AppInstKey list"
  | CloudletUpdate CloudletMsg
  | CloudletDelete CloudletKey
  | CloudletPrune "CloudletKey list"
  | CloudletInfoUpdate CloudletInfoMsg
  | CloudletInfoDelete CloudletInfoMsg
  | CloudletInfoPrune "CloudletKey list"
  | PolicyUpdate AutoProvPolicy
  | PolicyDelete PolicyKey
  | PolicyPrune "PolicyKey list"
  | ClusterOp free_op
  | StatsInit nat

fun dme_step :: "(CloudletKey \<Rightarrow> string) \<Rightarrow> dme_op \<Rightarrow> DmeApps \<Rightarrow> DmeApps option" where
  "dme_step ks (AppUpdate m) t = AddApp m t"
| "dme_step ks (AppDelete key) t = Some (RemoveApp key t)"
| "dme_step ks (AppPrune apps) t = Some (PruneApps apps t)"
| "dme_step ks (AppInstUpdate m) t = Some (AddAppInst m t)"
| "dme_step ks (AppInstDelete key) t = Some (RemoveAppInst key t)"
| "dme_step ks (AppInstPrune insts) t = Some (PruneAppInsts insts t)"
| "dme_step ks (CloudletUpdate m) t = Some (SetInstStateFromCloudlet m t)"
| "dme_step ks (CloudletDelete key) t = Some (DeleteCloudletInfo ks key t)"
| "dme_step ks (CloudletPrune cs) t = Some (PruneCloudlets cs t)"
| "dme_step ks (CloudletInfoUpdate m) t = Some (SetInstStateFromCloudletInfo m t)"
| "dme_step ks (CloudletInfoDelete m) t = Some (CloudletInfoHandler_Delete m t)"
| "dme_step ks (CloudletInfoPrune cs) t = Some (PruneInstsCloudletState cs t)"
| "dme_step ks (PolicyUpdate m) t = Some (policy_Update m t)"
| "dme_step ks (PolicyDelete key) t = Some (policy_Delete key t)"
| "dme_step ks (PolicyPrune pks) t = Some (policy_Prune pks t)"
| "dme_step ks (ClusterOp c) t = Some (t\<lparr>FreeReservableClusterInsts := free_op_run c (FreeReservableClusterInsts t)\<rparr>)"
| "dme_step ks (StatsInit n) t = Some (t\<lparr>autoProvStats := Some (InitAutoProvStats n)\<rparr>)"

fun dme_run :: "(CloudletKey \<Rightarrow> string) \<Rightarrow> dme_op list \<Rightarrow> DmeApps \<Rightarrow> DmeApps option" where
  "dme_run ks [] t = Some t"
| "dme_run ks (c # cs) t = (case dme_step ks c t of None \<Rightarrow> None | Some t \<Rightarrow> dme_run ks cs t)"

subsection \<open>Lookups\<close>

definition carrier_at :: "DmeApps \<Rightarrow> AppKey \<Rightarrow> string \<Rightarrow> DmeAppInsts option" where
  "carrier_at t ak c = (case map_of (Apps t) ak of None \<Rightarrow> None | Some app \<Rightarrow> map_of (da_Carriers app) c)"

definition has_app :: "DmeApps \<Rightarrow> AppKey \<Rightarrow> bool" where
  "has_app t ak = (map_of (Apps t) ak \<noteq> None)"

definition inst_at :: "DmeApps \<Rightarrow> AppKey \<Rightarrow> string \<Rightarrow> AppInstKey \<Rightarrow> nat option" where
  "inst_at t ak c k = (case carrier_at t ak c of None \<Rightarrow> None | Some insts \<Rightarrow> map_of (Insts insts) k)"

definition alliance_at :: "DmeApps \<Rightarrow> AppKey \<Rightarrow> string \<Rightarrow> AppInstKey \<Rightarrow> nat option" where
  "alliance_at t ak c k = (case carrier_at t ak c of None \<Rightarrow> None | Some insts \<Rightarrow> map_of (AllianceInsts insts) k)"

text \<open>What a handler leaves alone. The table of applications is only compared through the lookups.\<close>

definition same_tables :: "DmeApps \<Rightarrow> DmeApps \<Rightarrow> bool" where
  "same_tables t t' \<longleftrightarrow> Cloudlets t' = Cloudlets t \<and> AppInstApps t' = AppInstApps t \<and> CarriersByAppInst t' = CarriersByAppInst t"

lemma same_tables_trans: "same_tables t u \<Longrightarrow> same_tables u v \<Longrightarrow> same_tables t v"
  by (simp add: same_tables_def)

lemma emit_simps [simp]:
  "Apps (emit e t) = Apps t" "AppInstApps (emit e t) = AppInstApps t" "Cloudlets (emit e t) = Cloudlets t"
  "CarriersByAppInst (emit e t) = CarriersByAppInst t" "inst_heap (emit e t) = inst_heap t"
  "CloudletLocsByZone (emit e t) = CloudletLocsByZone t"
  by (simp_all add: emit_def)

lemma set_inst_simps [simp]:
  "Apps (set_inst a f t) = Apps t" "AppInstApps (set_inst a f t) = AppInstApps t" "Cloudlets (set_inst a f t) = Cloudlets t"
  "CarriersByAppInst (set_inst a f t) = CarriersByAppInst t" "length (inst_heap (set_inst a f t)) = length (inst_heap t)"
  "CloudletLocsByZone (set_inst a f t) = CloudletLocsByZone t"
  by (simp_all add: set_inst_def)

lemma inst_set_inst: "b < length (inst_heap t) \<Longrightarrow> inst (set_inst a f t) b = (if a = b then f (inst t b) else inst t b)"
  by (simp add: set_inst_def nth_list_update)

lemma set_app_simps [simp]:
  "AppInstApps (set_app k f t) = AppInstApps t" "Cloudlets (set_app k f t) = Cloudlets t"
  "CarriersByAppInst (set_app k f t) = CarriersByAppInst t" "inst_heap (set_app k f t) = inst_heap t"
  "CloudletLocsByZone (set_app k f t) = CloudletLocsByZone t"
  by (simp_all add: set_app_def split: option.split)

lemma map_of_set_app: "map_of (Apps (set_app k f t)) k' = (if k' = k then map_option f (map_of (Apps t) k) else map_of (Apps t) k')"
  by (auto simp: set_app_def simp del: map_of_eq_None_keys split: option.split)

lemma lookups_Apps: "Apps t = Apps t' \<Longrightarrow> inst_at t = inst_at t' \<and> alliance_at t = alliance_at t'"
  by (simp add: inst_at_def alliance_at_def carrier_at_def fun_eq_iff)

lemma lookups_simps [simp]:
  "inst_at (emit e t) = inst_at t" "alliance_at (emit e t) = alliance_at t"
  "inst_at (set_inst a f t) = inst_at t" "alliance_at (set_inst a f t) = alliance_at t"
  "inst_at (t\<lparr>Cloudlets := x\<rparr>) = inst_at t" "alliance_at (t\<lparr>Cloudlets := x\<rparr>) = alliance_at t"
  "inst_at (t\<lparr>CloudletLocsByZone := y\<rparr>) = inst_at t" "alliance_at (t\<lparr>CloudletLocsByZone := y\<rparr>) = alliance_at t"
  by (simp_all add: inst_at_def alliance_at_def carrier_at_def fun_eq_iff)

lemma getTable_iff:
  "getTableAppInstAndLock ak k c t = Inr a \<longleftrightarrow> inst_at t ak c k = Some a"
  "getTableAppInstAndLock ak k c t = Inl e \<Longrightarrow> inst_at t ak c k = None"
  by (auto simp: getTableAppInstAndLock_def inst_at_def carrier_at_def split: option.splits)

lemma inst_at_app: "inst_at t ak c k = Some a \<Longrightarrow> has_app t ak"
  by (auto simp: inst_at_def carrier_at_def has_app_def simp del: map_of_eq_None_keys split: option.splits)

subsubsection \<open>Allies\<close>

lemma addAppInstAlliance_simps [simp]:
  "AppInstApps (addAppInstAlliance ak k a c t) = AppInstApps t" "Cloudlets (addAppInstAlliance ak k a c t) = Cloudlets t"
  "CarriersByAppInst (addAppInstAlliance ak k a c t) = CarriersByAppInst t" "inst_heap (addAppInstAlliance ak k a c t) = inst_heap t"
  "CloudletLocsByZone (addAppInstAlliance ak k a c t) = CloudletLocsByZone t"
  by (simp_all add: addAppInstAlliance_def)

lemma removeAppInstAlliance_simps [simp]:
  "AppInstApps (removeAppInstAlliance ak k c t) = AppInstApps t" "Cloudlets (removeAppInstAlliance ak k c t) = Cloudlets t"
  "CarriersByAppInst (removeAppInstAlliance ak k c t) = CarriersByAppInst t" "inst_heap (removeAppInstAlliance ak k c t) = inst_heap t"
  "CloudletLocsByZone (removeAppInstAlliance ak k c t) = CloudletLocsByZone t"
  by (simp_all add: removeAppInstAlliance_def)

lemma lookups_addAppInstAlliance:
  "inst_at (addAppInstAlliance ak k a c t) ak' c' k' = inst_at t ak' c' k'"
  "alliance_at (addAppInstAlliance ak k a c t) ak' c' k' =
     (if ak' = ak \<and> c' = c \<and> k' = k \<and> has_app t ak then Some a else alliance_at t ak' c' k')"
  "has_app (addAppInstAlliance ak k a c t) ak' = has_app t ak'"
  by (auto simp: inst_at_def alliance_at_def carrier_at_def has_app_def addAppInstAlliance_def map_of_set_app Let_def newDmeAppInsts_def get_or_def
      simp del: map_of_eq_None_keys split: option.splits)

lemma delete_NilD: "AList.delete k m = [] \<Longrightarrow> k' \<noteq> k \<Longrightarrow> map_of m k' = None"
  using map_of_delete[of k m] by (metis fun_upd_apply map_of.simps(1))

lemma lookups_removeAppInstAlliance:
  "inst_at (removeAppInstAlliance ak k c t) ak' c' k' = inst_at t ak' c' k'"
  "alliance_at (removeAppInstAlliance ak k c t) ak' c' k' =
     (if ak' = ak \<and> c' = c \<and> k' = k then None else alliance_at t ak' c' k')"
  "has_app (removeAppInstAlliance ak k c t) ak' = has_app t ak'"
  by (auto simp: inst_at_def alliance_at_def carrier_at_def has_app_def removeAppInstAlliance_def map_of_set_app Let_def
      simp del: map_of_eq_None_keys dest: delete_NilD split: option.splits)

lemma fold_addAppInstAlliance:
  "inst_at (fold (addAppInstAlliance ak k a) cs t) ak' c' k' = inst_at t ak' c' k'"
  "alliance_at (fold (addAppInstAlliance ak k a) cs t) ak' c' k' =
     (if ak' = ak \<and> c' \<in> set cs \<and> k' = k \<and> has_app t ak then Some a else alliance_at t ak' c' k')"
  "has_app (fold (addAppInstAlliance ak k a) cs t) ak' = has_app t ak'"
  "AppInstApps (fold (addAppInstAlliance ak k a) cs t) = AppInstApps t" "Cloudlets (fold (addAppInstAlliance ak k a) cs t) = Cloudlets t"
  "CarriersByAppInst (fold (addAppInstAlliance ak k a) cs t) = CarriersByAppInst t"
  "inst_heap (fold (addAppInstAlliance ak k a) cs t) = inst_heap t"
  "CloudletLocsByZone (fold (addAppInstAlliance ak k a) cs t) = CloudletLocsByZone t"
  by (induction cs arbitrary: t) (auto simp: lookups_addAppInstAlliance simp del: map_of_eq_None_keys)

lemma fold_removeAppInstAlliance:
  "inst_at (fold (removeAppInstAlliance ak k) cs t) ak' c' k' = inst_at t ak' c' k'"
  "alliance_at (fold (removeAppInstAlliance ak k) cs t) ak' c' k' =
     (if ak' = ak \<and> c' \<in> set cs \<and> k' = k then None else alliance_at t ak' c' k')"
  "has_app (fold (removeAppInstAlliance ak k) cs t) ak' = has_app t ak'"
  "AppInstApps (fold (removeAppInstAlliance ak k) cs t) = AppInstApps t" "Cloudlets (fold (removeAppInstAlliance ak k) cs t) = Cloudlets t"
  "CarriersByAppInst (fold (removeAppInstAlliance ak k) cs t) = CarriersByAppInst t"
  "inst_heap (fold (removeAppInstAlliance ak k) cs t) = inst_heap t"
  "CloudletLocsByZone (fold (removeAppInstAlliance ak k) cs t) = CloudletLocsByZone t"
  by (induction cs arbitrary: t) (auto simp: lookups_removeAppInstAlliance simp del: map_of_eq_None_keys)

end
