(* ===== verification/MatchTables.thy ===== *)
theory MatchTables
  imports MatchEngine
begin

text \<open>
  The invariant of the matching engine's tables and what each handler does to the lookups: an instance in the table of its operator is
  the object the controller named, an ally's table holds the same object or a dead one, an instance that counts as being on a ready
  cloudlet is tracked by a ready cloudlet, and every allied organization of a cloudlet sees the instances on it. The
  handler that prunes instances breaks the invariant, which the theory shows on two runs.
\<close>

declare split_paired_All [simp del] split_paired_Ex [simp del]

subsection \<open>Effect of the handlers on the lookups\<close>

lemma carrier_at_put:
  "carrier_at (set_app ak (\<lambda>app. app\<lparr>da_Carriers := AList.update c x (da_Carriers app)\<rparr>) u) ak' c' =
     (if ak' = ak \<and> c' = c \<and> has_app u ak then Some x else carrier_at u ak' c')"
  "has_app (set_app ak (\<lambda>app. app\<lparr>da_Carriers := g (da_Carriers app)\<rparr>) u) ak' = has_app u ak'"
  by (auto simp: carrier_at_def has_app_def map_of_set_app simp del: map_of_eq_None_keys split: option.splits)

lemma carrier_at_heap [simp]: "carrier_at (t\<lparr>inst_heap := x\<rparr>) = carrier_at t" "has_app (t\<lparr>inst_heap := x\<rparr>) = has_app t"
  by (simp_all add: carrier_at_def has_app_def fun_eq_iff)

lemma get_carrier:
  assumes "map_of (Apps t) ak = Some app"
  shows "map_of (Insts (get_or newDmeAppInsts (da_Carriers app) c)) k = inst_at t ak c k"
    and "map_of (AllianceInsts (get_or newDmeAppInsts (da_Carriers app) c)) k = alliance_at t ak c k"
  using assms by (simp_all add: inst_at_def alliance_at_def carrier_at_def get_or_def newDmeAppInsts_def split: option.split)

lemma find_or_add_inst_effect:
  fixes m t
  defines "ak \<equiv> ai_AppKey m" and "c \<equiv> cloudlet_org (ai_CloudletKey m)" and "k \<equiv> ai_Key m"
  assumes app: "map_of (Apps t) ak = Some app" and r: "find_or_add_inst m app t = (t', a, found)"
  shows "a = (case inst_at t ak c k of Some a \<Rightarrow> a | None \<Rightarrow> length (inst_heap t))"
    and "found = (inst_at t ak c k \<noteq> None)"
    and "inst_at t' ak' c' k' = (if ak' = ak \<and> c' = c \<and> k' = k then Some a else inst_at t ak' c' k')"
    and "alliance_at t' ak' c' k' = alliance_at t ak' c' k'"
    and "inst_heap t' = (if found then inst_heap t else inst_heap t @ [new_inst k])"
    and "has_app t' ak' = has_app t ak'" and "same_tables t t'" and "CloudletLocsByZone t' = CloudletLocsByZone t"
proof -
  let ?i = "get_or newDmeAppInsts (da_Carriers app) c"
  have h: "has_app t ak" using app by (simp add: has_app_def)
  have "(a = (case inst_at t ak c k of Some a \<Rightarrow> a | None \<Rightarrow> length (inst_heap t)) \<and> found = (inst_at t ak c k \<noteq> None)
     \<and> (\<forall>ak' c' k'. inst_at t' ak' c' k' = (if ak' = ak \<and> c' = c \<and> k' = k then Some a else inst_at t ak' c' k')
         \<and> alliance_at t' ak' c' k' = alliance_at t ak' c' k' \<and> has_app t' ak' = has_app t ak')
     \<and> inst_heap t' = (if found then inst_heap t else inst_heap t @ [new_inst k])
     \<and> same_tables t t' \<and> CloudletLocsByZone t' = CloudletLocsByZone t)"
  proof (cases "inst_at t ak c k")
    case None
    then have e: "map_of (Insts ?i) k = None" using get_carrier(1)[OF app] by simp
    show ?thesis
      using r e None h get_carrier[OF app, of c]
      unfolding find_or_add_inst_def c_def[symmetric] k_def[symmetric] ak_def[symmetric] Let_def
      by (auto simp: carrier_at_put inst_at_def[of t'] alliance_at_def[of t'] same_tables_def simp del: map_of_eq_None_keys)
        (auto simp: inst_at_def alliance_at_def carrier_at_put simp del: map_of_eq_None_keys)
  next
    case (Some b)
    then have e: "map_of (Insts ?i) k = Some b" using get_carrier(1)[OF app] by simp
    show ?thesis
      using r e Some h get_carrier[OF app, of c]
      unfolding find_or_add_inst_def c_def[symmetric] k_def[symmetric] ak_def[symmetric] Let_def
      by (auto simp: carrier_at_put inst_at_def[of t'] alliance_at_def[of t'] same_tables_def simp del: map_of_eq_None_keys)
        (auto simp: inst_at_def alliance_at_def carrier_at_put simp del: map_of_eq_None_keys)
  qed
  then show "a = (case inst_at t ak c k of Some a \<Rightarrow> a | None \<Rightarrow> length (inst_heap t))" "found = (inst_at t ak c k \<noteq> None)"
    "inst_at t' ak' c' k' = (if ak' = ak \<and> c' = c \<and> k' = k then Some a else inst_at t ak' c' k')"
    "alliance_at t' ak' c' k' = alliance_at t ak' c' k'"
    "inst_heap t' = (if found then inst_heap t else inst_heap t @ [new_inst k])"
    "has_app t' ak' = has_app t ak'" "same_tables t t'" "CloudletLocsByZone t' = CloudletLocsByZone t"
    by blast+
qed

lemma has_app_simps [simp]:
  "has_app (emit e t) = has_app t" "has_app (set_inst a f t) = has_app t"
  "has_app (t\<lparr>Cloudlets := x\<rparr>) = has_app t" "has_app (t\<lparr>CloudletLocsByZone := y\<rparr>) = has_app t"
  by (simp_all add: has_app_def fun_eq_iff)

lemma lookups_keys [simp]:
  "inst_at (t\<lparr>AppInstApps := x, CarriersByAppInst := y\<rparr>) = inst_at t" "alliance_at (t\<lparr>AppInstApps := x, CarriersByAppInst := y\<rparr>) = alliance_at t"
  "has_app (t\<lparr>AppInstApps := x, CarriersByAppInst := y\<rparr>) = has_app t"
  by (simp_all add: inst_at_def alliance_at_def carrier_at_def has_app_def fun_eq_iff)

lemma AddAppInst_no_app: "\<not> has_app t (ai_AppKey m) \<Longrightarrow> AddAppInst m t = t"
  by (simp add: AddAppInst_def has_app_def Let_def del: map_of_eq_None_keys)

lemma heap_set_inst: "inst_heap (set_inst a f t) = (inst_heap t)[a := f (inst_heap t ! a)]"
  by (simp add: set_inst_def)

lemma AddAppInst_effect:
  fixes m t
  defines "ak \<equiv> ai_AppKey m" and "ck \<equiv> ai_CloudletKey m" and "k \<equiv> ai_Key m" and "t' \<equiv> AddAppInst m t"
  defines "c \<equiv> cloudlet_org ck"
  defines "found \<equiv> inst_at t ak c k \<noteq> None"
    and "a \<equiv> (case inst_at t ak c k of Some a \<Rightarrow> a | None \<Rightarrow> length (inst_heap t))"
  defines "old \<equiv> if found then inst t a else new_inst k"
  assumes app: "has_app t ak" and bound: "found \<Longrightarrow> a < length (inst_heap t)"
  shows "inst_at t' ak' c' k' = (if ak' = ak \<and> c' = c \<and> k' = k then Some a else inst_at t ak' c' k')"
    and "alliance_at t' ak' c' k' =
      (if ak' = ak \<and> k' = k \<and> (\<exists>cl. map_of (Cloudlets t) ck = Some cl \<and> c' \<in> set (dc_AllianceCarriers cl)) then Some a
       else alliance_at t ak' c' k')"
    and "length (inst_heap t') = length (inst_heap t) + (if found then 0 else 1)" and "a < length (inst_heap t')"
    and "b < length (inst_heap t) \<Longrightarrow> b \<noteq> a \<Longrightarrow> inst t' b = inst t b"
    and "di_key (inst t' a) = di_key old" and "di_cloudletKey (inst t' a) = ck"
    and "di_CloudletState (inst t' a) = (case map_of (Cloudlets t) ck of None \<Rightarrow> di_CloudletState old | Some cl \<Rightarrow> dc_State cl)"
    and "di_AppInstHealth (inst t' a) = (if found then ai_HealthCheck m else HEALTH_CHECK_UNKNOWN)"
    and "di_MaintenanceState (inst t' a) = (case map_of (Cloudlets t) ck of None \<Rightarrow> di_MaintenanceState old | Some cl \<Rightarrow> dc_MaintenanceState cl)"
    and "di_TrackedState (inst t' a) = ai_State m"
    and "AppInstApps t' = AList.update k ak (AppInstApps t)" and "CarriersByAppInst t' = AList.update k ck (CarriersByAppInst t)"
    and "Cloudlets t' = (case map_of (Cloudlets t) ck of None \<Rightarrow> Cloudlets t
          | Some cl \<Rightarrow> AList.update ck (cl\<lparr>dc_AppInstKeys := AList.update k ak (dc_AppInstKeys cl)\<rparr>) (Cloudlets t))"
    and "CloudletLocsByZone t' = CloudletLocsByZone t" and "has_app t' ak' = has_app t ak'"
proof -
  define t0 where "t0 = t\<lparr>AppInstApps := AList.update k ak (AppInstApps t), CarriersByAppInst := AList.update k ck (CarriersByAppInst t)\<rparr>"
  obtain app where A: "map_of (Apps t) ak = Some app" using app by (auto simp: has_app_def simp del: map_of_eq_None_keys)
  obtain t1 a1 f1 where R: "find_or_add_inst m app t0 = (t1, a1, f1)" by (metis prod_cases3)
  have A0: "map_of (Apps t0) (ai_AppKey m) = Some app" using A by (simp add: t0_def ak_def)
  note E = find_or_add_inst_effect[OF A0 R, folded ak_def k_def ck_def, folded c_def]
  have t0: "inst_at t0 = inst_at t" "alliance_at t0 = alliance_at t" "has_app t0 = has_app t" "inst_heap t0 = inst_heap t" "Cloudlets t0 = Cloudlets t"
    "CloudletLocsByZone t0 = CloudletLocsByZone t"
    by (simp_all add: t0_def)
  have a1: "a1 = a" "f1 = found" using E(1,2) unfolding a_def found_def t0 by simp_all
  have heap1: "inst_heap t1 = (if found then inst_heap t else inst_heap t @ [new_inst k])" using E(5) unfolding t0 a1 .
  have al: "a < length (inst_heap t1)" using bound unfolding heap1 by (auto simp: a_def found_def split: option.splits)
  have old: "inst t1 a = old" using bound unfolding heap1 old_def by (auto simp: a_def found_def split: option.splits)
  define F :: "DmeAppInst \<Rightarrow> DmeAppInst" where "F = (\<lambda>i. i\<lparr>di_clusterKey := im_ClusterKey m, di_cloudletKey := ck, di_zoneKey := ai_ZoneKey m,
     di_Uri := im_Uri m, di_Location := im_CloudletLoc m, di_ports := im_MappedPorts m, di_TrackedState := ai_State m\<rparr>)"
  define t2 where "t2 = set_inst a F t1"
  define hc where "hc = (di_AppInstHealth (inst t2 a) \<noteq> ai_HealthCheck m \<and> found)"
  define t3 where "t3 = (if hc then set_inst a (\<lambda>i. i\<lparr>di_AppInstHealth := ai_HealthCheck m\<rparr>) t2 else t2)"
  define t4 where "t4 = (if hc \<and> ai_HealthCheck m \<noteq> HEALTH_CHECK_OK then
     emit (SendAppInstStateEdgeEvent (no_state\<lparr>st_AppInstHealth := ai_HealthCheck m\<rparr>) k ak EVENT_APPINST_HEALTH) t3 else t3)"
  define sa where "sa = (\<not> found \<or> hc \<and> ai_HealthCheck m = HEALTH_CHECK_OK)"
  have T: "t' = (case map_of (Cloudlets t4) ck of None \<Rightarrow> t4 | Some cloudlet \<Rightarrow>
      let t = t4\<lparr>Cloudlets := AList.update ck (cloudlet\<lparr>dc_AppInstKeys := AList.update k ak (dc_AppInstKeys cloudlet)\<rparr>) (Cloudlets t4)\<rparr>;
          t = set_inst a (\<lambda>i. i\<lparr>di_CloudletState := dc_State cloudlet, di_MaintenanceState := dc_MaintenanceState cloudlet\<rparr>) t;
          t = fold (addAppInstAlliance ak k a) (dc_AllianceCarriers cloudlet) t
      in if sa \<and> IsAppInstUsable (inst t a) then emit (SendAvailableAppInst ak k (cloudlet_org ck)) t else t)"
    unfolding t'_def AddAppInst_def Let_def k_def[symmetric] ak_def[symmetric] ck_def[symmetric] A option.case t0_def[symmetric] R prod.case a1
      F_def[symmetric] t2_def[symmetric] hc_def[symmetric] t3_def[symmetric] t4_def[symmetric] sa_def[symmetric] ..
  have heap2: "inst_heap t2 = (inst_heap t1)[a := F old]" using old by (simp add: t2_def heap_set_inst)
  have heap4: "inst_heap t4 = (inst_heap t1)[a := (F old)\<lparr>di_AppInstHealth := (if found then ai_HealthCheck m else di_AppInstHealth old)\<rparr>]"
    using al by (cases old) (auto simp: t4_def t3_def hc_def heap_set_inst heap2 F_def)
  have t4: "inst_at t4 = inst_at t1" "alliance_at t4 = alliance_at t1" "has_app t4 = has_app t1" "Cloudlets t4 = Cloudlets t"
    "AppInstApps t4 = AppInstApps t0" "CarriersByAppInst t4 = CarriersByAppInst t0" "CloudletLocsByZone t4 = CloudletLocsByZone t"
    using E(7,8) t0 by (simp_all add: t4_def t3_def t2_def same_tables_def)
  have keys0: "AppInstApps t0 = AList.update k ak (AppInstApps t)" "CarriersByAppInst t0 = AList.update k ck (CarriersByAppInst t)"
    by (simp_all add: t0_def)
  have new: "di_AppInstHealth old = HEALTH_CHECK_UNKNOWN" if "\<not> found" using that by (simp add: old_def new_inst_def)
  note all = T t4 E(3,4,6) a1 t0 keys0 heap4 app fold_addAppInstAlliance Let_def heap_set_inst
  show "inst_at t' ak' c' k' = (if ak' = ak \<and> c' = c \<and> k' = k then Some a else inst_at t ak' c' k')"
    "AppInstApps t' = AList.update k ak (AppInstApps t)" "CarriersByAppInst t' = AList.update k ck (CarriersByAppInst t)"
    "CloudletLocsByZone t' = CloudletLocsByZone t" "has_app t' ak' = has_app t ak'"
    "Cloudlets t' = (case map_of (Cloudlets t) ck of None \<Rightarrow> Cloudlets t
          | Some cl \<Rightarrow> AList.update ck (cl\<lparr>dc_AppInstKeys := AList.update k ak (dc_AppInstKeys cl)\<rparr>) (Cloudlets t))"
    by (cases "map_of (Cloudlets t) ck"; simp add: all del: map_of_eq_None_keys)+
  show "alliance_at t' ak' c' k' =
      (if ak' = ak \<and> k' = k \<and> (\<exists>cl. map_of (Cloudlets t) ck = Some cl \<and> c' \<in> set (dc_AllianceCarriers cl)) then Some a
       else alliance_at t ak' c' k')"
    by (cases "map_of (Cloudlets t) ck") (simp_all add: all del: map_of_eq_None_keys)
  have heap: "inst_heap t' = (inst_heap t1)[a := inst t' a]"
    "inst t' a = (case map_of (Cloudlets t) ck of
        None \<Rightarrow> (F old)\<lparr>di_AppInstHealth := (if found then ai_HealthCheck m else di_AppInstHealth old)\<rparr>
      | Some cl \<Rightarrow> (F old)\<lparr>di_AppInstHealth := (if found then ai_HealthCheck m else di_AppInstHealth old),
           di_CloudletState := dc_State cl, di_MaintenanceState := dc_MaintenanceState cl\<rparr>)"
    using al by (cases "map_of (Cloudlets t) ck"; simp add: all del: map_of_eq_None_keys)+
  have len: "length (inst_heap t') = length (inst_heap t1)" by (subst heap(1)) simp
  show "length (inst_heap t') = length (inst_heap t) + (if found then 0 else 1)" using len heap1 by simp
  show "a < length (inst_heap t')" using len al by simp
  show "inst t' b = inst t b" if "b < length (inst_heap t)" "b \<noteq> a"
    using that by (subst heap(1)) (simp add: heap1 nth_append)
  show "di_key (inst t' a) = di_key old" "di_cloudletKey (inst t' a) = ck" "di_TrackedState (inst t' a) = ai_State m"
    "di_CloudletState (inst t' a) = (case map_of (Cloudlets t) ck of None \<Rightarrow> di_CloudletState old | Some cl \<Rightarrow> dc_State cl)"
    "di_MaintenanceState (inst t' a) = (case map_of (Cloudlets t) ck of None \<Rightarrow> di_MaintenanceState old | Some cl \<Rightarrow> dc_MaintenanceState cl)"
    "di_AppInstHealth (inst t' a) = (if found then ai_HealthCheck m else HEALTH_CHECK_UNKNOWN)"
    unfolding heap(2) using new by (simp_all add: F_def split: option.split)
qed

lemma carrier_at_drop:
  "carrier_at (set_app ak (\<lambda>app. app\<lparr>da_Carriers := AList.delete c (da_Carriers app)\<rparr>) u) ak' c' =
     (if ak' = ak \<and> c' = c then None else carrier_at u ak' c')"
  by (auto simp: carrier_at_def map_of_set_app simp del: map_of_eq_None_keys split: option.splits)

lemma carrier_at_simps [simp]:
  "carrier_at (emit e t) = carrier_at t" "carrier_at (set_inst b f t) = carrier_at t"
  by (simp_all add: carrier_at_def fun_eq_iff)

lemma drop_inst_effect:
  assumes t': "t' = drop_inst k ak c t"
  shows "inst_at t' ak' c' k' = (if ak' = ak \<and> c' = c \<and> k' = k then None else inst_at t ak' c' k')"
    and "alliance_at t' ak' c' k' = alliance_at t ak' c' k'"
    and "inst_heap t' = (case inst_at t ak c k of None \<Rightarrow> inst_heap t
          | Some a \<Rightarrow> (inst_heap t)[a := (inst t a)\<lparr>di_AppInstHealth := HEALTH_CHECK_SERVER_FAIL\<rparr>])"
    and "same_tables t t'" and "CloudletLocsByZone t' = CloudletLocsByZone t" and "has_app t' ak' = has_app t ak'"
proof -
  have "(inst_at t' ak' c' k' = (if ak' = ak \<and> c' = c \<and> k' = k then None else inst_at t ak' c' k')
     \<and> alliance_at t' ak' c' k' = alliance_at t ak' c' k'
     \<and> inst_heap t' = (case inst_at t ak c k of None \<Rightarrow> inst_heap t
          | Some a \<Rightarrow> (inst_heap t)[a := (inst t a)\<lparr>di_AppInstHealth := HEALTH_CHECK_SERVER_FAIL\<rparr>])
     \<and> same_tables t t' \<and> CloudletLocsByZone t' = CloudletLocsByZone t \<and> has_app t' ak' = has_app t ak')"
  proof (cases "carrier_at t ak c")
    case None
    then have "t' = t" unfolding t' drop_inst_def carrier_at_def by (auto simp del: map_of_eq_None_keys split: option.splits)
    then show ?thesis using None by (simp add: inst_at_def same_tables_def)
  next
    case (Some insts)
    then obtain app where app: "map_of (Apps t) ak = Some app" "map_of (da_Carriers app) c = Some insts"
      by (auto simp: carrier_at_def split: option.splits)
    let ?insts = "insts\<lparr>Insts := AList.delete k (Insts insts)\<rparr>"
    define t1 where "t1 = (case map_of (Insts insts) k of None \<Rightarrow> t
         | Some a \<Rightarrow> emit (EE_RemoveAppInst k)
             (emit (SendAppInstStateEdgeEvent (no_state\<lparr>st_AppInstHealth := HEALTH_CHECK_SERVER_FAIL\<rparr>) k ak EVENT_APPINST_HEALTH)
               (set_inst a (\<lambda>i. i\<lparr>di_AppInstHealth := HEALTH_CHECK_SERVER_FAIL\<rparr>) t)))"
    define g where "g = (if Insts ?insts = [] \<and> AllianceInsts ?insts = [] then AList.delete c else AList.update c ?insts)"
    have T: "t' = set_app ak (\<lambda>app. app\<lparr>da_Carriers := g (da_Carriers app)\<rparr>) t1"
      unfolding t' drop_inst_def app option.case Let_def t1_def[symmetric] g_def
      by (cases "AList.delete k (Insts insts) = []"; cases "AllianceInsts insts = []") simp_all
    have t1: "carrier_at t1 = carrier_at t" "has_app t1 = has_app t" "same_tables t t1" "CloudletLocsByZone t1 = CloudletLocsByZone t"
      "inst_heap t1 = (case inst_at t ak c k of None \<Rightarrow> inst_heap t
          | Some a \<Rightarrow> (inst_heap t)[a := (inst t a)\<lparr>di_AppInstHealth := HEALTH_CHECK_SERVER_FAIL\<rparr>])"
      using Some by (simp_all add: t1_def inst_at_def same_tables_def heap_set_inst split: option.splits)
    have h: "has_app t ak" using app by (simp add: has_app_def)
    have C: "carrier_at t' ak' c' = (if ak' = ak \<and> c' = c then (if Insts ?insts = [] \<and> AllianceInsts ?insts = [] then None else Some ?insts)
        else carrier_at t ak' c')" for ak' c'
      using h by (simp add: T g_def carrier_at_put carrier_at_drop t1)
    show ?thesis
    proof (intro conjI)
      show "inst_at t' ak' c' k' = (if ak' = ak \<and> c' = c \<and> k' = k then None else inst_at t ak' c' k')"
        using Some delete_NilD[of k "Insts insts" k'] by (auto simp: inst_at_def C simp del: map_of_eq_None_keys)
      show "alliance_at t' ak' c' k' = alliance_at t ak' c' k'"
        using Some by (auto simp: alliance_at_def C simp del: map_of_eq_None_keys)
    qed (use t1 in \<open>auto simp: T same_tables_def carrier_at_put(2)\<close>)
  qed
  then show "inst_at t' ak' c' k' = (if ak' = ak \<and> c' = c \<and> k' = k then None else inst_at t ak' c' k')"
    "alliance_at t' ak' c' k' = alliance_at t ak' c' k'"
    "inst_heap t' = (case inst_at t ak c k of None \<Rightarrow> inst_heap t
          | Some a \<Rightarrow> (inst_heap t)[a := (inst t a)\<lparr>di_AppInstHealth := HEALTH_CHECK_SERVER_FAIL\<rparr>])"
    "same_tables t t'" "CloudletLocsByZone t' = CloudletLocsByZone t" "has_app t' ak' = has_app t ak'"
    by blast+
qed

definition known :: "DmeApps \<Rightarrow> AppInstKey \<Rightarrow> AppKey \<Rightarrow> CloudletKey \<Rightarrow> bool" where
  "known t k ak ck \<longleftrightarrow> map_of (AppInstApps t) k = Some ak \<and> has_app t ak \<and> map_of (CarriersByAppInst t) k = Some ck"

lemma RemoveAppInst_unknown:
  assumes "\<And>ak ck. \<not> known t k ak ck" and t': "t' = RemoveAppInst k t"
  shows "inst_at t' = inst_at t" "alliance_at t' = alliance_at t" "inst_heap t' = inst_heap t" "same_tables t t'"
    "CloudletLocsByZone t' = CloudletLocsByZone t"
proof -
  have "RemoveAppInst k t = t \<or> (\<exists>ak. RemoveAppInst k t = emit (PurgeAppInstClients k ak) t)"
  proof (cases "map_of (AppInstApps t) k")
    case (Some ak)
    then have "map_of (Apps t) ak = None \<or> map_of (CarriersByAppInst t) k = None"
      using assms(1)[of ak] by (cases "map_of (CarriersByAppInst t) k") (auto simp: known_def has_app_def simp del: map_of_eq_None_keys)
    then show ?thesis using Some by (auto simp: RemoveAppInst_def simp del: map_of_eq_None_keys split: option.split)
  qed (simp add: RemoveAppInst_def del: map_of_eq_None_keys)
  then show "inst_at t' = inst_at t" "alliance_at t' = alliance_at t" "inst_heap t' = inst_heap t" "same_tables t t'"
    "CloudletLocsByZone t' = CloudletLocsByZone t"
    unfolding t' same_tables_def by auto
qed

lemma RemoveAppInst_effect:
  assumes "known t k ak ck" and t': "t' = RemoveAppInst k t"
  shows "inst_at t' ak' c' k' = (if ak' = ak \<and> c' = cloudlet_org ck \<and> k' = k then None else inst_at t ak' c' k')"
    and "alliance_at t' ak' c' k' =
      (if ak' = ak \<and> k' = k \<and> (\<exists>cl. map_of (Cloudlets t) ck = Some cl \<and> c' \<in> set (dc_AllianceCarriers cl)) then None
       else alliance_at t ak' c' k')"
    and "inst_heap t' = (case inst_at t ak (cloudlet_org ck) k of None \<Rightarrow> inst_heap t
          | Some a \<Rightarrow> (inst_heap t)[a := (inst t a)\<lparr>di_AppInstHealth := HEALTH_CHECK_SERVER_FAIL\<rparr>])"
    and "Cloudlets t' = Cloudlets t" and "CloudletLocsByZone t' = CloudletLocsByZone t"
    and "AppInstApps t' = AList.delete k (AppInstApps t)" and "CarriersByAppInst t' = AList.delete k (CarriersByAppInst t)"
proof -
  define t0 where "t0 = t\<lparr>AppInstApps := AList.delete k (AppInstApps t), CarriersByAppInst := AList.delete k (CarriersByAppInst t)\<rparr>"
  define t1 where "t1 = drop_inst k ak (cloudlet_org ck) t0"
  note E = drop_inst_effect[OF t1_def]
  have T: "t' = emit (PurgeAppInstClients k ak)
      (case map_of (Cloudlets t1) ck of None \<Rightarrow> t1 | Some cl \<Rightarrow> fold (removeAppInstAlliance ak k) (dc_AllianceCarriers cl) t1)"
  proof -
    obtain app where "map_of (AppInstApps t) k = Some ak" "map_of (Apps t) ak = Some app" "map_of (CarriersByAppInst t) k = Some ck"
      using assms(1) by (auto simp: known_def has_app_def simp del: map_of_eq_None_keys)
    note eqs = this
    show ?thesis unfolding t' RemoveAppInst_def eqs option.case Let_def t0_def[symmetric] t1_def[symmetric] ..
  qed
  have t0: "inst_at t0 = inst_at t" "alliance_at t0 = alliance_at t" "inst_heap t0 = inst_heap t" "Cloudlets t0 = Cloudlets t"
    "CloudletLocsByZone t0 = CloudletLocsByZone t" "AppInstApps t0 = AList.delete k (AppInstApps t)"
    "CarriersByAppInst t0 = AList.delete k (CarriersByAppInst t)"
    by (simp_all add: t0_def)
  have t1: "Cloudlets t1 = Cloudlets t" "AppInstApps t1 = AList.delete k (AppInstApps t)" "CarriersByAppInst t1 = AList.delete k (CarriersByAppInst t)"
    "CloudletLocsByZone t1 = CloudletLocsByZone t"
    using E(4,5) t0 by (simp_all add: same_tables_def)
  define cs where "cs = (case map_of (Cloudlets t) ck of None \<Rightarrow> [] | Some cl \<Rightarrow> dc_AllianceCarriers cl)"
  have T': "t' = emit (PurgeAppInstClients k ak) (fold (removeAppInstAlliance ak k) cs t1)"
    unfolding T t1 cs_def by (simp split: option.split)
  have cs: "c' \<in> set cs \<longleftrightarrow> (\<exists>cl. map_of (Cloudlets t) ck = Some cl \<and> c' \<in> set (dc_AllianceCarriers cl))"
    by (cases "map_of (Cloudlets t) ck") (simp_all add: cs_def del: map_of_eq_None_keys)
  show "inst_at t' ak' c' k' = (if ak' = ak \<and> c' = cloudlet_org ck \<and> k' = k then None else inst_at t ak' c' k')"
    unfolding T' by (simp add: fold_removeAppInstAlliance E(1) t0(1))
  show "alliance_at t' ak' c' k' =
      (if ak' = ak \<and> k' = k \<and> (\<exists>cl. map_of (Cloudlets t) ck = Some cl \<and> c' \<in> set (dc_AllianceCarriers cl)) then None
       else alliance_at t ak' c' k')"
    unfolding T' cs[symmetric] by (simp add: fold_removeAppInstAlliance E(2) t0(2))
  show "inst_heap t' = (case inst_at t ak (cloudlet_org ck) k of None \<Rightarrow> inst_heap t
          | Some a \<Rightarrow> (inst_heap t)[a := (inst t a)\<lparr>di_AppInstHealth := HEALTH_CHECK_SERVER_FAIL\<rparr>])"
    unfolding T' emit_simps fold_removeAppInstAlliance E(3) t0 ..
  show "Cloudlets t' = Cloudlets t" "CloudletLocsByZone t' = CloudletLocsByZone t"
    "AppInstApps t' = AList.delete k (AppInstApps t)" "CarriersByAppInst t' = AList.delete k (CarriersByAppInst t)"
    unfolding T' emit_simps fold_removeAppInstAlliance t1 by (rule refl)+
qed

subsubsection \<open>Instances of a cloudlet that is gone\<close>

text \<open>The handler marks instances in the heap and leaves everything else.\<close>

definition marks :: "DmeApps \<Rightarrow> DmeApps \<Rightarrow> bool" where
  "marks t t' \<longleftrightarrow>
     Apps t' = Apps t \<and> same_tables t t' \<and> CloudletLocsByZone t' = CloudletLocsByZone t \<and> length (inst_heap t') = length (inst_heap t)
     \<and> (\<forall>b < length (inst_heap t).
          di_key (inst t' b) = di_key (inst t b) \<and> di_cloudletKey (inst t' b) = di_cloudletKey (inst t b)
          \<and> di_AppInstHealth (inst t' b) = di_AppInstHealth (inst t b)
          \<and> (di_CloudletState (inst t' b) = di_CloudletState (inst t b) \<or> di_CloudletState (inst t' b) = CLOUDLET_STATE_NOT_PRESENT))"

lemma marks_refl: "marks t t"
  by (simp add: marks_def same_tables_def)

lemma marks_trans: "marks t u \<Longrightarrow> marks u v \<Longrightarrow> marks t v"
  unfolding marks_def same_tables_def by (metis (no_types, lifting))

lemma marks_fold: "(\<And>e u. e \<in> set es \<Longrightarrow> marks u (f e u)) \<Longrightarrow> marks t (fold f es t)"
proof (induction es arbitrary: t)
  case (Cons e es)
  have "marks (f e t) (fold f es (f e t))" using Cons.prems by (intro Cons.IH) simp
  with Cons.prems[of e t] show ?case by (auto intro: marks_trans)
qed (simp add: marks_refl)

lemma marks_set_inst:
  "(\<And>i. di_key (f i) = di_key i) \<Longrightarrow> (\<And>i. di_cloudletKey (f i) = di_cloudletKey i) \<Longrightarrow> (\<And>i. di_AppInstHealth (f i) = di_AppInstHealth i) \<Longrightarrow>
   (\<And>i. di_CloudletState (f i) = CLOUDLET_STATE_NOT_PRESENT) \<Longrightarrow> marks t (set_inst a f t)"
  by (auto simp: marks_def same_tables_def inst_set_inst)

lemma marks_emit: "marks t u \<Longrightarrow> marks t (emit e u)"
  by (simp add: marks_def same_tables_def)

lemma marks_reset_insts: "marks t (reset_insts gone full ak carr t)"
  unfolding reset_insts_def
  by (rule marks_fold) (auto intro!: marks_refl marks_emit marks_set_inst)

text \<open>Every instance of the table that is on such a cloudlet is marked, and stays so.\<close>

lemma fold_marks_mono:
  assumes "\<And>e u. e \<in> set es \<Longrightarrow> marks u (f e u)"
    and "e \<in> set es" "\<And>u. marks t u \<Longrightarrow> di_CloudletState (inst (f e u) a) = CLOUDLET_STATE_NOT_PRESENT" "a < length (inst_heap t)"
  shows "di_CloudletState (inst (fold f es t) a) = CLOUDLET_STATE_NOT_PRESENT"
proof -
  obtain es1 es2 where es: "es = es1 @ e # es2" using assms(2) by (meson split_list)
  have "marks t (fold f es1 t)" using assms(1) es by (intro marks_fold) simp
  then have "di_CloudletState (inst (f e (fold f es1 t)) a) = CLOUDLET_STATE_NOT_PRESENT" "marks t (f e (fold f es1 t))"
    using assms(1)[of e] assms(3) es by (auto intro: marks_trans)
  moreover have "marks (f e (fold f es1 t)) (fold f es2 (f e (fold f es1 t)))" using assms(1) es by (intro marks_fold) simp
  ultimately show ?thesis using assms(4) es by (auto simp: marks_def)
qed

lemma reset_insts_marked:
  assumes "(k, a) \<in> set (Insts carr)" "gone (di_cloudletKey (inst t a))" "a < length (inst_heap t)"
  shows "di_CloudletState (inst (reset_insts gone full ak carr t) a) = CLOUDLET_STATE_NOT_PRESENT"
proof -
  let ?f = "\<lambda>(key, a) t.
       if gone (di_cloudletKey (inst t a)) then
         if full then
           emit (SendAppInstStateEdgeEvent (no_state\<lparr>st_CloudletState := CLOUDLET_STATE_NOT_PRESENT\<rparr>) key ak EVENT_CLOUDLET_STATE)
             (set_inst a (\<lambda>i. i\<lparr>di_CloudletState := CLOUDLET_STATE_NOT_PRESENT, di_MaintenanceState := NORMAL_OPERATION\<rparr>) t)
         else set_inst a (\<lambda>i. i\<lparr>di_CloudletState := CLOUDLET_STATE_NOT_PRESENT\<rparr>) t
       else t"
  have m: "marks u (?f e u)" for e u by (cases e) (auto intro!: marks_refl marks_emit marks_set_inst)
  have "di_CloudletState (inst (?f (k, a) u) a) = CLOUDLET_STATE_NOT_PRESENT" if "marks t u" for u
    using that assms(2,3) by (simp add: marks_def inst_set_inst)
  then show ?thesis unfolding reset_insts_def using fold_marks_mono[of "Insts carr" ?f "(k, a)" t a] m assms(1,3) by blast
qed

lemma marks_PruneInstsCloudletState: "marks t (PruneInstsCloudletState cs t)"
  unfolding PruneInstsCloudletState_def by (auto intro!: marks_fold marks_reset_insts)

lemma PruneCloudlets_nothing: "fold (\<lambda>cloudlet m. if map_of m cloudlet = None then AList.delete cloudlet m else m) cs m = m"
  by (induction cs arbitrary: m) (auto simp: delete_id)

lemma marks_PruneCloudlets: "marks t (PruneCloudlets cs t)"
proof -
  have "marks t (fold (\<lambda>(ak, app). fold (\<lambda>(_, carr). reset_insts (\<lambda>k. k \<notin> set cs) True ak carr) (da_Carriers app)) (Apps t) t)"
    by (auto intro!: marks_fold marks_reset_insts)
  then show ?thesis unfolding PruneCloudlets_def PruneCloudlets_nothing by (simp add: marks_def same_tables_def)
qed

lemma DeleteCloudletInfo_effect:
  assumes t': "t' = DeleteCloudletInfo ks ck t"
  shows "\<exists>u. marks t u \<and> Apps t' = Apps u \<and> inst_heap t' = inst_heap u \<and> AppInstApps t' = AppInstApps u \<and> CarriersByAppInst t' = CarriersByAppInst u
     \<and> Cloudlets t' = AList.delete ck (Cloudlets t)
     \<and> (\<forall>ak k a. inst_at t ak (cloudlet_org ck) k = Some a \<longrightarrow> a < length (inst_heap t) \<longrightarrow> di_cloudletKey (inst t a) = ck
          \<longrightarrow> di_CloudletState (inst u a) = CLOUDLET_STATE_NOT_PRESENT)"
proof -
  let ?f = "\<lambda>(ak, app) t. case map_of (da_Carriers app) (cloudlet_org ck) of None \<Rightarrow> t
      | Some c \<Rightarrow> reset_insts (\<lambda>k. ks k = ks ck) True ak c t"
  have m: "marks u (?f e u)" for e u
    by (cases e) (auto intro: marks_refl marks_reset_insts split: option.split)
  have *: "di_CloudletState (inst (fold ?f (Apps t) t) a) = CLOUDLET_STATE_NOT_PRESENT"
    if a: "inst_at t ak (cloudlet_org ck) k = Some a" "a < length (inst_heap t)" "di_cloudletKey (inst t a) = ck" for ak k a
  proof -
    obtain app insts where app: "map_of (Apps t) ak = Some app" "map_of (da_Carriers app) (cloudlet_org ck) = Some insts"
      "map_of (Insts insts) k = Some a" using a(1) by (auto simp: inst_at_def carrier_at_def split: option.splits)
    show ?thesis
    proof (rule fold_marks_mono[where f = ?f and t = t, OF m map_of_SomeD[OF app(1)] _ a(2)])
      fix u assume u: "marks t u"
      then have "di_cloudletKey (inst u a) = ck" "a < length (inst_heap u)" using a by (simp_all add: marks_def)
      then show "di_CloudletState (inst (?f (ak, app) u) a) = CLOUDLET_STATE_NOT_PRESENT"
        using reset_insts_marked[OF map_of_SomeD[OF app(3)], of "\<lambda>k. ks k = ks ck" u] by (simp add: app)
    qed
  qed
  show ?thesis
  proof (intro exI[of _ "fold ?f (Apps t) t"] conjI)
    show marks: "marks t (fold ?f (Apps t) t)" by (rule marks_fold) (rule m)
    show "Cloudlets t' = AList.delete ck (Cloudlets t)"
      using marks by (simp add: t' DeleteCloudletInfo_def Let_def marks_def same_tables_def)
  qed (use * in \<open>auto simp: t' DeleteCloudletInfo_def Let_def\<close>)
qed

subsubsection \<open>Instances of a cloudlet that changed\<close>

lemma send_if_usable_simps [simp]:
  "inst_at (send_if_usable b ak k a c t) = inst_at t" "alliance_at (send_if_usable b ak k a c t) = alliance_at t"
  "has_app (send_if_usable b ak k a c t) = has_app t" "inst_heap (send_if_usable b ak k a c t) = inst_heap t"
  "Cloudlets (send_if_usable b ak k a c t) = Cloudlets t" "AppInstApps (send_if_usable b ak k a c t) = AppInstApps t"
  "CarriersByAppInst (send_if_usable b ak k a c t) = CarriersByAppInst t"
  "CloudletLocsByZone (send_if_usable b ak k a c t) = CloudletLocsByZone t"
  by (simp_all add: send_if_usable_def)

definition same_inst :: "DmeAppInst \<Rightarrow> DmeAppInst \<Rightarrow> bool" where
  "same_inst i j \<longleftrightarrow> di_key i = di_key j \<and> di_cloudletKey i = di_cloudletKey j \<and> di_AppInstHealth i = di_AppInstHealth j"

lemma same_inst_refl [simp]: "same_inst i i"
  by (simp add: same_inst_def)

lemma same_inst_trans: "same_inst i j \<Longrightarrow> same_inst j k \<Longrightarrow> same_inst i k"
  by (simp add: same_inst_def)

lemma info_fold:
  assumes "t' = fold (info_cloudlet_inst state maint sa carrier) es t"
  shows "inst_at t' = inst_at t" and "alliance_at t' = alliance_at t" and "same_tables t t'" and "CloudletLocsByZone t' = CloudletLocsByZone t"
    and "length (inst_heap t') = length (inst_heap t)" and "b < length (inst_heap t) \<Longrightarrow> same_inst (inst t' b) (inst t b)"
    and "b < length (inst_heap t) \<Longrightarrow>
      di_CloudletState (inst t' b) = (if \<exists>(k, ak) \<in> set es. inst_at t ak carrier k = Some b then state else di_CloudletState (inst t b))"
proof -
  have "inst_at t' = inst_at t \<and> alliance_at t' = alliance_at t \<and> same_tables t t' \<and> CloudletLocsByZone t' = CloudletLocsByZone t
     \<and> length (inst_heap t') = length (inst_heap t)
     \<and> (b < length (inst_heap t) \<longrightarrow> same_inst (inst t' b) (inst t b)
        \<and> di_CloudletState (inst t' b) = (if \<exists>(k, ak) \<in> set es. inst_at t ak carrier k = Some b then state else di_CloudletState (inst t b)))"
    using assms
  proof (induction es arbitrary: t)
    case Nil
    then show ?case by (simp add: same_tables_def)
  next
    case (Cons e es)
    obtain k ak where e: "e = (k, ak)" by (cases e)
    define u where "u = info_cloudlet_inst state maint sa carrier e t"
    have u: "inst_at u = inst_at t \<and> alliance_at u = alliance_at t \<and> same_tables t u \<and> CloudletLocsByZone u = CloudletLocsByZone t
      \<and> length (inst_heap u) = length (inst_heap t)
      \<and> (b < length (inst_heap t) \<longrightarrow> same_inst (inst u b) (inst t b)
         \<and> di_CloudletState (inst u b) = (if inst_at t ak carrier k = Some b then state else di_CloudletState (inst t b)))"
    proof (cases "inst_at t ak carrier k")
      case None
      then obtain x where "getTableAppInstAndLock ak k carrier t = Inl x"
        using getTable_iff(1)[of ak k carrier t] by (cases "getTableAppInstAndLock ak k carrier t") auto
      then show ?thesis using None by (simp add: u_def e info_cloudlet_inst_def same_tables_def)
    next
      case (Some a)
      then have "getTableAppInstAndLock ak k carrier t = Inr a" by (simp add: getTable_iff)
      then show ?thesis using Some by (simp add: u_def e info_cloudlet_inst_def same_tables_def inst_set_inst same_inst_def)
    qed
    have IH: "inst_at t' = inst_at u \<and> alliance_at t' = alliance_at u \<and> same_tables u t' \<and> CloudletLocsByZone t' = CloudletLocsByZone u
     \<and> length (inst_heap t') = length (inst_heap u)
     \<and> (b < length (inst_heap u) \<longrightarrow> same_inst (inst t' b) (inst u b)
        \<and> di_CloudletState (inst t' b) = (if \<exists>(k, ak) \<in> set es. inst_at u ak carrier k = Some b then state else di_CloudletState (inst u b)))"
      by (rule Cons.IH) (use Cons.prems in \<open>simp add: u_def\<close>)
    have "same_tables t t'" using IH u same_tables_trans by blast
    moreover have "same_inst (inst t' b) (inst t b)" if "b < length (inst_heap t)"
      using IH u that same_inst_trans by metis
    ultimately show ?case using IH u by (simp add: e)
  qed
  then show "inst_at t' = inst_at t" "alliance_at t' = alliance_at t" "same_tables t t'" "CloudletLocsByZone t' = CloudletLocsByZone t"
    "length (inst_heap t') = length (inst_heap t)" "b < length (inst_heap t) \<Longrightarrow> same_inst (inst t' b) (inst t b)"
    "b < length (inst_heap t) \<Longrightarrow>
      di_CloudletState (inst t' b) = (if \<exists>(k, ak) \<in> set es. inst_at t ak carrier k = Some b then state else di_CloudletState (inst t b))"
    by blast+
qed

lemma update_fold:
  assumes "t' = fold (update_cloudlet_inst maint sa carrier new old) es t"
  shows "inst_at t' = inst_at t" and "same_tables t t'" and "CloudletLocsByZone t' = CloudletLocsByZone t"
    and "length (inst_heap t') = length (inst_heap t)" and "b < length (inst_heap t) \<Longrightarrow> same_inst (inst t' b) (inst t b)"
    and "b < length (inst_heap t) \<Longrightarrow> di_CloudletState (inst t' b) = di_CloudletState (inst t b)"
    and "alliance_at t' ak c k =
      (if (k, ak) \<in> set es \<and> inst_at t ak carrier k \<noteq> None then
         if c \<in> set old then None else if c \<in> set new then inst_at t ak carrier k else alliance_at t ak c k
       else alliance_at t ak c k)"
proof -
  have "inst_at t' = inst_at t \<and> same_tables t t' \<and> CloudletLocsByZone t' = CloudletLocsByZone t
     \<and> length (inst_heap t') = length (inst_heap t)
     \<and> (b < length (inst_heap t) \<longrightarrow> same_inst (inst t' b) (inst t b) \<and> di_CloudletState (inst t' b) = di_CloudletState (inst t b))
     \<and> alliance_at t' ak c k =
      (if (k, ak) \<in> set es \<and> inst_at t ak carrier k \<noteq> None then
         if c \<in> set old then None else if c \<in> set new then inst_at t ak carrier k else alliance_at t ak c k
       else alliance_at t ak c k)"
    using assms
  proof (induction es arbitrary: t)
    case Nil
    then show ?case by (simp add: same_tables_def)
  next
    case (Cons e es)
    obtain k1 ak1 where e: "e = (k1, ak1)" by (cases e)
    define u where "u = update_cloudlet_inst maint sa carrier new old e t"
    have u: "inst_at u = inst_at t \<and> same_tables t u \<and> CloudletLocsByZone u = CloudletLocsByZone t
      \<and> length (inst_heap u) = length (inst_heap t)
      \<and> (b < length (inst_heap t) \<longrightarrow> same_inst (inst u b) (inst t b) \<and> di_CloudletState (inst u b) = di_CloudletState (inst t b))
      \<and> alliance_at u ak c k = (if k = k1 \<and> ak = ak1 \<and> inst_at t ak carrier k \<noteq> None then
           if c \<in> set old then None else if c \<in> set new then inst_at t ak carrier k else alliance_at t ak c k
         else alliance_at t ak c k)"
    proof (cases "getTableAppInstAndLock ak1 k1 carrier t")
      case (Inl x)
      then have "u = t" by (simp add: u_def e update_cloudlet_inst_def)
      moreover have "\<not> (k = k1 \<and> ak = ak1 \<and> inst_at t ak carrier k \<noteq> None)" using getTable_iff(2)[OF Inl] by blast
      ultimately show ?thesis by (simp only: if_False same_tables_def same_inst_refl simp_thms)
    next
      case (Inr a)
      then have a: "inst_at t ak1 carrier k1 = Some a" by (simp add: getTable_iff)
      show ?thesis using Inr a inst_at_app[OF a]
        by (auto simp: u_def e update_cloudlet_inst_def Let_def same_tables_def inst_set_inst same_inst_def
            fold_addAppInstAlliance fold_removeAppInstAlliance fun_eq_iff simp del: map_of_eq_None_keys)
    qed
    have IH: "inst_at t' = inst_at u \<and> same_tables u t' \<and> CloudletLocsByZone t' = CloudletLocsByZone u
     \<and> length (inst_heap t') = length (inst_heap u)
     \<and> (b < length (inst_heap u) \<longrightarrow> same_inst (inst t' b) (inst u b) \<and> di_CloudletState (inst t' b) = di_CloudletState (inst u b))
     \<and> alliance_at t' ak c k =
      (if (k, ak) \<in> set es \<and> inst_at u ak carrier k \<noteq> None then
         if c \<in> set old then None else if c \<in> set new then inst_at u ak carrier k else alliance_at u ak c k
       else alliance_at u ak c k)"
      by (rule Cons.IH) (use Cons.prems in \<open>simp add: u_def\<close>)
    have "same_tables t t'" using IH u same_tables_trans by blast
    moreover have "same_inst (inst t' b) (inst t b)" if "b < length (inst_heap t)"
      using IH u that same_inst_trans by metis
    moreover have "alliance_at t' ak c k =
      (if (k, ak) \<in> set (e # es) \<and> inst_at t ak carrier k \<noteq> None then
         if c \<in> set old then None else if c \<in> set new then inst_at t ak carrier k else alliance_at t ak c k
       else alliance_at t ak c k)"
    proof (cases "(k, ak) = e")
      case True
      then show ?thesis using IH u by (cases "inst_at t ak carrier k"; cases "c \<in> set old"; cases "c \<in> set new") (simp_all add: e)
    next
      case False
      then have "alliance_at u ak c k = alliance_at t ak c k" using u by (auto simp: e)
      then show ?thesis using IH u False
        by (cases "inst_at t ak carrier k"; cases "c \<in> set old"; cases "c \<in> set new"; cases "(k, ak) \<in> set es") simp_all
    qed
    ultimately show ?case using IH u by simp
  qed
  then show "inst_at t' = inst_at t" "same_tables t t'" "CloudletLocsByZone t' = CloudletLocsByZone t"
    "length (inst_heap t') = length (inst_heap t)" "b < length (inst_heap t) \<Longrightarrow> same_inst (inst t' b) (inst t b)"
    "b < length (inst_heap t) \<Longrightarrow> di_CloudletState (inst t' b) = di_CloudletState (inst t b)"
    "alliance_at t' ak c k =
      (if (k, ak) \<in> set es \<and> inst_at t ak carrier k \<noteq> None then
         if c \<in> set old then None else if c \<in> set new then inst_at t ak carrier k else alliance_at t ak c k
       else alliance_at t ak c k)"
    by blast+
qed

lemma alliance_changes_result:
  assumes "alliance_changes orgs old = (cur, new, old')"
  shows "set cur = set orgs" and "set old' = set old - set orgs" and "set orgs - set old \<subseteq> set new" and "set new \<subseteq> set orgs"
proof -
  define f where "f = (\<lambda>org (cur, new, old). (List.insert org cur, if org \<in> set old then new else List.insert org new, removeAll (org :: string) old))"
  have gen: "fold f orgs (cur0, new0, old0) = (cur, new, old') \<Longrightarrow>
     set cur = set cur0 \<union> set orgs \<and> set old' = set old0 - set orgs \<and> set new0 \<union> (set orgs - set old0) \<subseteq> set new \<and> set new \<subseteq> set new0 \<union> set orgs"
    for cur0 new0 old0
  proof (induction orgs arbitrary: cur0 new0 old0)
    case (Cons org orgs)
    have "fold f orgs (List.insert org cur0, if org \<in> set old0 then new0 else List.insert org new0, removeAll org old0) = (cur, new, old')"
      using Cons.prems by (simp add: f_def)
    from Cons.IH[OF this] show ?case by (cases "org \<in> set old0") auto
  qed simp
  have "fold f orgs ([], [], old) = (cur, new, old')" using assms by (simp add: alliance_changes_def f_def)
  from gen[OF this] show "set cur = set orgs" "set old' = set old - set orgs" "set orgs - set old \<subseteq> set new" "set new \<subseteq> set orgs" by auto
qed

subsection \<open>Invariant\<close>

text \<open>
  The controller never moves an instance: its key decides its cloudlet and its application. A table of an operator holds the object
  of an instance on one of its own cloudlets, and the tables for deletion lead back to it.
\<close>

definition insts_ok :: "(AppInstKey \<Rightarrow> CloudletKey) \<Rightarrow> (AppInstKey \<Rightarrow> AppKey) \<Rightarrow> DmeApps \<Rightarrow> bool" where
  "insts_ok place app_of t \<longleftrightarrow>
     (\<forall>ak c k a. inst_at t ak c k = Some a \<longrightarrow>
        a < length (inst_heap t) \<and> di_key (inst t a) = k \<and> di_cloudletKey (inst t a) = place k \<and> ak = app_of k
        \<and> c = cloudlet_org (place k) \<and> known t k ak (place k))"

text \<open>A table of an ally holds the object of the operator's table, or one that was removed and is marked as failed.\<close>

definition allies_ok :: "(AppInstKey \<Rightarrow> CloudletKey) \<Rightarrow> (AppInstKey \<Rightarrow> AppKey) \<Rightarrow> DmeApps \<Rightarrow> bool" where
  "allies_ok place app_of t \<longleftrightarrow>
     (\<forall>ak c k a. alliance_at t ak c k = Some a \<longrightarrow>
        a < length (inst_heap t) \<and> di_key (inst t a) = k \<and> ak = app_of k
        \<and> (inst_at t ak (cloudlet_org (place k)) k = Some a \<or> di_AppInstHealth (inst t a) = HEALTH_CHECK_SERVER_FAIL))"

text \<open>An instance that counts as being on a ready cloudlet is on one, and the cloudlet tracks it.\<close>

definition ready_ok :: "(AppInstKey \<Rightarrow> CloudletKey) \<Rightarrow> DmeApps \<Rightarrow> bool" where
  "ready_ok place t \<longleftrightarrow>
     (\<forall>ak c k a. inst_at t ak c k = Some a \<longrightarrow> di_CloudletState (inst t a) = CLOUDLET_STATE_READY \<longrightarrow>
        (\<exists>cl. map_of (Cloudlets t) (place k) = Some cl \<and> dc_State cl = CLOUDLET_STATE_READY \<and> map_of (dc_AppInstKeys cl) k = Some ak))"

definition cloudlets_ok :: "(AppInstKey \<Rightarrow> CloudletKey) \<Rightarrow> (AppInstKey \<Rightarrow> AppKey) \<Rightarrow> DmeApps \<Rightarrow> bool" where
  "cloudlets_ok place app_of t \<longleftrightarrow>
     (\<forall>ck cl k ak. map_of (Cloudlets t) ck = Some cl \<longrightarrow> (k, ak) \<in> set (dc_AppInstKeys cl) \<longrightarrow> ak = app_of k \<and> place k = ck)"

text \<open>Every allied organization of a cloudlet sees the instances that the cloudlet tracks.\<close>

definition alliance_ok :: "DmeApps \<Rightarrow> bool" where
  "alliance_ok t \<longleftrightarrow>
     (\<forall>ck cl k ak a c. map_of (Cloudlets t) ck = Some cl \<longrightarrow> map_of (dc_AppInstKeys cl) k = Some ak \<longrightarrow>
        inst_at t ak (cloudlet_org ck) k = Some a \<longrightarrow> c \<in> set (dc_AllianceCarriers cl) \<longrightarrow> alliance_at t ak c k = Some a)"

definition dme_inv :: "(AppInstKey \<Rightarrow> CloudletKey) \<Rightarrow> (AppInstKey \<Rightarrow> AppKey) \<Rightarrow> DmeApps \<Rightarrow> bool" where
  "dme_inv place app_of t \<longleftrightarrow>
     insts_ok place app_of t \<and> allies_ok place app_of t \<and> ready_ok place t \<and> cloudlets_ok place app_of t \<and> alliance_ok t"

fun dme_op_ok :: "(AppInstKey \<Rightarrow> CloudletKey) \<Rightarrow> (AppInstKey \<Rightarrow> AppKey) \<Rightarrow> dme_op \<Rightarrow> bool" where
  "dme_op_ok place app_of (AppInstUpdate m) = (ai_CloudletKey m = place (ai_Key m) \<and> ai_AppKey m = app_of (ai_Key m))"
| "dme_op_ok place app_of (AppInstPrune insts) = False"
| "dme_op_ok place app_of _ = True"

lemma dme_invI:
  assumes "insts_ok place app_of t" "allies_ok place app_of t" "ready_ok place t" "cloudlets_ok place app_of t" "alliance_ok t"
  shows "dme_inv place app_of t"
  using assms by (simp add: dme_inv_def)

lemma dme_invD:
  assumes "dme_inv place app_of t"
  shows "insts_ok place app_of t" "allies_ok place app_of t" "ready_ok place t" "cloudlets_ok place app_of t" "alliance_ok t"
  using assms by (simp_all add: dme_inv_def)

lemma insts_okD:
  assumes "insts_ok place app_of t" "inst_at t ak c k = Some a"
  shows "a < length (inst_heap t)" "di_key (inst t a) = k" "di_cloudletKey (inst t a) = place k" "ak = app_of k"
    "c = cloudlet_org (place k)" "known t k ak (place k)"
  using assms unfolding insts_ok_def by blast+

lemma known_iff: "known t k ak ck \<longleftrightarrow> map_of (AppInstApps t) k = Some ak \<and> has_app t ak \<and> map_of (CarriersByAppInst t) k = Some ck"
  by (simp add: known_def)

lemma ready_okD:
  assumes "ready_ok place t" "inst_at t ak c k = Some a" "di_CloudletState (inst t a) = CLOUDLET_STATE_READY"
  obtains cl where "map_of (Cloudlets t) (place k) = Some cl" "dc_State cl = CLOUDLET_STATE_READY" "map_of (dc_AppInstKeys cl) k = Some ak"
  using assms unfolding ready_ok_def by blast

text \<open>Applications come and go with their tables; nothing else changes.\<close>

lemma dme_inv_apps:
  assumes inv: "dme_inv place app_of t" and st: "same_tables t t'" and heap: "inst_heap t' = inst_heap t"
    and I: "\<And>ak c k. inst_at t' ak c k = (if P ak then inst_at t ak c k else None)"
    and A: "\<And>ak c k. alliance_at t' ak c k = (if P ak then alliance_at t ak c k else None)"
  shows "dme_inv place app_of t'"
proof (rule dme_invI)
  have tb: "AppInstApps t' = AppInstApps t" "CarriersByAppInst t' = CarriersByAppInst t" "Cloudlets t' = Cloudlets t"
    using st by (simp_all add: same_tables_def)
  show "insts_ok place app_of t'" unfolding insts_ok_def
  proof (intro allI impI)
    fix ak c k a assume a: "inst_at t' ak c k = Some a"
    then have "inst_at t ak c k = Some a" by (simp add: I split: if_splits)
    with inst_at_app[OF a] insts_okD[OF dme_invD(1)[OF inv] this]
    show "a < length (inst_heap t') \<and> di_key (inst t' a) = k \<and> di_cloudletKey (inst t' a) = place k \<and> ak = app_of k
        \<and> c = cloudlet_org (place k) \<and> known t' k ak (place k)"
      by (simp add: heap known_iff tb)
  qed
  show "allies_ok place app_of t'" using dme_invD(2)[OF inv] unfolding allies_ok_def heap I A by (simp split: if_splits)
  show "ready_ok place t'" using dme_invD(3)[OF inv] unfolding ready_ok_def heap I tb by (simp split: if_splits)
  show "cloudlets_ok place app_of t'" using dme_invD(4)[OF inv] unfolding cloudlets_ok_def tb .
  show "alliance_ok t'" using dme_invD(5)[OF inv] unfolding alliance_ok_def I A tb by (simp split: if_splits)
qed

lemma dme_inv_AddApp:
  assumes "dme_inv place app_of t" "AddApp m t = Some t'"
  shows "dme_inv place app_of t'"
proof (rule dme_inv_apps[OF assms(1), where P = "\<lambda>_. True"])
  have "carrier_at t' = carrier_at t \<and> same_tables t t' \<and> inst_heap t' = inst_heap t"
    using assms(2) by (auto simp: AddApp_def carrier_at_def same_tables_def Let_def fun_eq_iff simp del: map_of_eq_None_keys split: option.splits if_splits)
  then show "same_tables t t'" "inst_heap t' = inst_heap t" "\<And>ak c k. inst_at t' ak c k = (if True then inst_at t ak c k else None)"
    "\<And>ak c k. alliance_at t' ak c k = (if True then alliance_at t ak c k else None)"
    by (simp_all add: inst_at_def alliance_at_def)
qed

lemma dme_inv_RemoveApp:
  assumes "dme_inv place app_of t"
  shows "dme_inv place app_of (RemoveApp key t)"
  by (rule dme_inv_apps[OF assms, where P = "\<lambda>ak. ak \<noteq> key"])
    (auto simp: RemoveApp_def inst_at_def alliance_at_def carrier_at_def same_tables_def simp del: map_of_eq_None_keys split: option.split)

lemma dme_inv_PruneApps:
  assumes "dme_inv place app_of t"
  shows "dme_inv place app_of (PruneApps apps t)"
  by (rule dme_inv_apps[OF assms, where P = "\<lambda>ak. ak \<in> set apps"])
    (auto simp: PruneApps_def inst_at_def alliance_at_def carrier_at_def same_tables_def map_of_filter_by_key simp del: map_of_eq_None_keys split: option.split)

lemma dme_inv_same:
  assumes "dme_inv place app_of t" "Apps t' = Apps t" "same_tables t t'" "inst_heap t' = inst_heap t"
  shows "dme_inv place app_of t'"
  using lookups_Apps[OF assms(2)] by (intro dme_inv_apps[OF assms(1,3,4), where P = "\<lambda>_. True"]) simp_all

lemma dme_inv_marks:
  assumes inv: "dme_inv place app_of t" and m: "marks t t'"
  shows "dme_inv place app_of t'"
proof -
  have L: "inst_at t' = inst_at t" "alliance_at t' = alliance_at t" "known t' = known t" and tb: "Cloudlets t' = Cloudlets t"
    and H: "length (inst_heap t') = length (inst_heap t)"
    "\<And>b. b < length (inst_heap t) \<Longrightarrow> di_key (inst t' b) = di_key (inst t b) \<and> di_cloudletKey (inst t' b) = di_cloudletKey (inst t b)
          \<and> di_AppInstHealth (inst t' b) = di_AppInstHealth (inst t b)
          \<and> (di_CloudletState (inst t' b) = di_CloudletState (inst t b) \<or> di_CloudletState (inst t' b) = CLOUDLET_STATE_NOT_PRESENT)"
    using m lookups_Apps[of t' t] by (auto simp: marks_def same_tables_def known_def has_app_def fun_eq_iff simp del: map_of_eq_None_keys)
  note inv = dme_invD[OF inv]
  show ?thesis
  proof (rule dme_invI)
    show "insts_ok place app_of t'" using inv(1) H unfolding insts_ok_def L by metis
    show "allies_ok place app_of t'" using inv(2) H unfolding allies_ok_def L by metis
    show "ready_ok place t'" unfolding ready_ok_def L tb
    proof (intro allI impI)
      fix ak c k a assume a: "inst_at t ak c k = Some a" "di_CloudletState (inst t' a) = CLOUDLET_STATE_READY"
      then have "di_CloudletState (inst t a) = CLOUDLET_STATE_READY" using H(2)[OF insts_okD(1)[OF inv(1) a(1)]] by auto
      with inv(3) a(1) show "\<exists>cl. map_of (Cloudlets t) (place k) = Some cl \<and> dc_State cl = CLOUDLET_STATE_READY \<and> map_of (dc_AppInstKeys cl) k = Some ak"
        unfolding ready_ok_def by blast
    qed
    show "cloudlets_ok place app_of t'" using inv(4) unfolding cloudlets_ok_def tb .
    show "alliance_ok t'" using inv(5) unfolding alliance_ok_def L tb .
  qed
qed

lemma set_AList_update: "set (AList.update k v m) \<subseteq> insert (k, v) (set m)"
  by (induction m) auto

lemma dme_inv_AddAppInst:
  assumes inv: "dme_inv place app_of t" and m: "ai_CloudletKey m = place (ai_Key m)" "ai_AppKey m = app_of (ai_Key m)"
  shows "dme_inv place app_of (AddAppInst m t)"
proof (cases "has_app t (ai_AppKey m)")
  case False
  then show ?thesis using inv by (simp add: AddAppInst_no_app)
next
  case True
  define t' where "t' = AddAppInst m t"
  define k where "k = ai_Key m"
  define ck where "ck = ai_CloudletKey m"
  define ak where "ak = ai_AppKey m"
  define found where "found = (inst_at t ak (cloudlet_org ck) k \<noteq> None)"
  define a where "a = (case inst_at t ak (cloudlet_org ck) k of Some a \<Rightarrow> a | None \<Rightarrow> length (inst_heap t))"
  note inv = dme_invD[OF inv]
  have app: "has_app t ak" using True by (simp add: ak_def)
  have bound: "found \<Longrightarrow> a < length (inst_heap t)"
    using insts_okD(1)[OF inv(1)] by (auto simp: found_def a_def split: option.splits)
  note E = AddAppInst_effect[of t m, folded k_def ck_def ak_def, folded found_def, folded a_def t'_def, OF app bound, simplified]
  have pl: "place k = ck" "app_of k = ak" using m by (simp_all add: k_def ck_def ak_def)
  have a_new: "a = length (inst_heap t)" if "\<not> found" using that by (simp add: a_def found_def split: option.splits)
  have a_old: "inst_at t ak (cloudlet_org ck) k = Some a" if found using that by (auto simp: a_def found_def)
  have key: "di_key (inst t' a) = k" using E(6) a_old insts_okD(2)[OF inv(1)] by (cases found) (auto simp: new_inst_def)
  have others: "b \<noteq> a" if "inst_at t ak0 c0 k0 = Some b" "(ak0, c0, k0) \<noteq> (ak, cloudlet_org ck, k)" for ak0 c0 k0 b
  proof
    assume "b = a"
    have "found" using that(1) insts_okD(1)[OF inv(1) that(1)] a_new \<open>b = a\<close> by (cases found) auto
    then have "k0 = k" using insts_okD(2)[OF inv(1)] that(1) a_old \<open>b = a\<close> by metis
    then show False using that(2) insts_okD(4,5)[OF inv(1) that(1)] pl by simp
  qed
  have len: "length (inst_heap t) \<le> length (inst_heap t')" unfolding E(3) by simp
  have kn: "known t' k0 ak0 ck0 \<longleftrightarrow> (if k0 = k then ak0 = ak \<and> ck0 = ck else known t k0 ak0 ck0)" for k0 ak0 ck0
    using app by (auto simp: known_iff E)
  have cl': "map_of (Cloudlets t') ck0 = (if ck0 = ck then map_option (\<lambda>cl. cl\<lparr>dc_AppInstKeys := AList.update k ak (dc_AppInstKeys cl)\<rparr>) (map_of (Cloudlets t) ck)
      else map_of (Cloudlets t) ck0)" for ck0
    unfolding E(14) by (auto simp del: map_of_eq_None_keys split: option.split)
  show ?thesis unfolding t'_def[symmetric]
  proof (rule dme_invI)
    show "insts_ok place app_of t'" unfolding insts_ok_def
    proof (intro allI impI)
      fix ak0 c0 k0 b assume b: "inst_at t' ak0 c0 k0 = Some b"
      show "b < length (inst_heap t') \<and> di_key (inst t' b) = k0 \<and> di_cloudletKey (inst t' b) = place k0 \<and> ak0 = app_of k0
          \<and> c0 = cloudlet_org (place k0) \<and> known t' k0 ak0 (place k0)"
      proof (cases "(ak0, c0, k0) = (ak, cloudlet_org ck, k)")
        case True
        then show ?thesis using b E(1,4,7) key pl by (simp add: kn)
      next
        case False
        then have o: "inst_at t ak0 c0 k0 = Some b" using b E(1) by (auto split: if_splits)
        have n: "b \<noteq> a" using others[OF o False] .
        have kn0: "known t' k0 ak0 (place k0)" unfolding kn using insts_okD(4,6)[OF inv(1) o] pl by (cases "k0 = k") simp_all
        then show ?thesis using insts_okD[OF inv(1) o] E(5)[OF insts_okD(1)[OF inv(1) o] n] len by simp
      qed
    qed
    show "allies_ok place app_of t'" unfolding allies_ok_def
    proof (intro allI impI)
      fix ak0 c0 k0 b assume b: "alliance_at t' ak0 c0 k0 = Some b"
      show "b < length (inst_heap t') \<and> di_key (inst t' b) = k0 \<and> ak0 = app_of k0
        \<and> (inst_at t' ak0 (cloudlet_org (place k0)) k0 = Some b \<or> di_AppInstHealth (inst t' b) = HEALTH_CHECK_SERVER_FAIL)"
      proof (cases "b = a \<and> ak0 = ak \<and> k0 = k")
        case True
        then show ?thesis using E(1,4) key pl by simp
      next
        case False
        then have "alliance_at t ak0 c0 k0 = Some b" using b E(2) by (auto split: if_splits)
        then have o: "b < length (inst_heap t)" "di_key (inst t b) = k0" "ak0 = app_of k0"
          "inst_at t ak0 (cloudlet_org (place k0)) k0 = Some b \<or> di_AppInstHealth (inst t b) = HEALTH_CHECK_SERVER_FAIL"
          using inv(2) unfolding allies_ok_def by blast+
        have n: "b \<noteq> a"
        proof
          assume "b = a"
          then have found using o(1) a_new by (cases found) auto
          then have "k0 = k" using o(2) insts_okD(2)[OF inv(1)] a_old \<open>b = a\<close> by metis
          then show False using False \<open>b = a\<close> o(3) pl by simp
        qed
        have "inst_at t' ak0 (cloudlet_org (place k0)) k0 = Some b" if "inst_at t ak0 (cloudlet_org (place k0)) k0 = Some b"
        proof -
          have "(ak0, cloudlet_org (place k0), k0) \<noteq> (ak, cloudlet_org ck, k)" using that n a_old by (auto simp: a_def)
          then show ?thesis using that E(1) by auto
        qed
        then show ?thesis using o E(5)[OF o(1) n] len by auto
      qed
    qed
    show "ready_ok place t'" unfolding ready_ok_def
    proof (intro allI impI)
      fix ak0 c0 k0 b assume b: "inst_at t' ak0 c0 k0 = Some b" "di_CloudletState (inst t' b) = CLOUDLET_STATE_READY"
      show "\<exists>cl. map_of (Cloudlets t') (place k0) = Some cl \<and> dc_State cl = CLOUDLET_STATE_READY \<and> map_of (dc_AppInstKeys cl) k0 = Some ak0"
      proof (cases "(ak0, c0, k0) = (ak, cloudlet_org ck, k)")
        case True
        then have "b = a" using b(1) E(1) by simp
        show ?thesis
        proof (cases "map_of (Cloudlets t) ck")
          case None
          then have "di_CloudletState (inst t' a) \<noteq> CLOUDLET_STATE_READY"
            using E(8) inv(3) a_old pl unfolding ready_ok_def
            by (cases found) (simp_all add: new_inst_def del: map_of_eq_None_keys, metis option.distinct(1))
          then show ?thesis using b(2) \<open>b = a\<close> by simp
        next
          case (Some cl)
          then show ?thesis using b(2) \<open>b = a\<close> True E(8) pl by (simp add: cl')
        qed
      next
        case False
        then have o: "inst_at t ak0 c0 k0 = Some b" using b E(1) by (auto split: if_splits)
        then obtain cl where cl: "map_of (Cloudlets t) (place k0) = Some cl" "dc_State cl = CLOUDLET_STATE_READY" "map_of (dc_AppInstKeys cl) k0 = Some ak0"
          using ready_okD[OF inv(3) o] b(2) E(5)[OF insts_okD(1)[OF inv(1) o] others[OF o False]] by metis
        have "ak0 = ak" if "k0 = k" using that insts_okD(4)[OF inv(1) o] pl by simp
        with cl show ?thesis by (cases "place k0 = ck") (auto simp: cl')
      qed
    qed
    show "cloudlets_ok place app_of t'" unfolding cloudlets_ok_def
    proof (intro allI impI)
      fix ck0 cl0 k0 ak0 assume c: "map_of (Cloudlets t') ck0 = Some cl0" "(k0, ak0) \<in> set (dc_AppInstKeys cl0)"
      show "ak0 = app_of k0 \<and> place k0 = ck0"
      proof (cases "ck0 = ck")
        case True
        then obtain cl where cl: "map_of (Cloudlets t) ck = Some cl" "cl0 = cl\<lparr>dc_AppInstKeys := AList.update k ak (dc_AppInstKeys cl)\<rparr>"
          using c(1) by (auto simp: cl' simp del: map_of_eq_None_keys)
        have "(k0, ak0) = (k, ak) \<or> (k0, ak0) \<in> set (dc_AppInstKeys cl)"
          using c(2) cl(2) set_AList_update[of k ak "dc_AppInstKeys cl"] by auto
        then show ?thesis using inv(4) cl(1) pl True unfolding cloudlets_ok_def by blast
      next
        case False
        then show ?thesis using c inv(4) unfolding cloudlets_ok_def by (auto simp: cl')
      qed
    qed
    show "alliance_ok t'" unfolding alliance_ok_def
    proof (intro allI impI)
      fix ck0 cl0 k0 ak0 b c0
      assume c: "map_of (Cloudlets t') ck0 = Some cl0" "map_of (dc_AppInstKeys cl0) k0 = Some ak0"
        "inst_at t' ak0 (cloudlet_org ck0) k0 = Some b" "c0 \<in> set (dc_AllianceCarriers cl0)"
      obtain cl where cl: "map_of (Cloudlets t) ck0 = Some cl" "dc_AllianceCarriers cl0 = dc_AllianceCarriers cl"
        "map_of (dc_AppInstKeys cl0) k0 = (if ck0 = ck \<and> k0 = k then Some ak else map_of (dc_AppInstKeys cl) k0)"
        using c(1) by (cases "ck0 = ck") (auto simp: cl' simp del: map_of_eq_None_keys)
      show "alliance_at t' ak0 c0 k0 = Some b"
      proof (cases "k0 = k")
        case True
        have "ck0 = ck"
        proof (rule ccontr)
          assume "ck0 \<noteq> ck"
          then have "(k0, ak0) \<in> set (dc_AppInstKeys cl)" using c(2) cl(3) map_of_SomeD by fastforce
          then show False using inv(4) cl(1) pl True \<open>ck0 \<noteq> ck\<close> unfolding cloudlets_ok_def by blast
        qed
        moreover have "ak0 = ak" using c(2) cl(3) True calculation by simp
        ultimately show ?thesis using c cl True E(1,2) by auto
      next
        case False
        then have "alliance_at t ak0 c0 k0 = Some b"
          using inv(5) c cl E(1) unfolding alliance_ok_def by (auto split: if_splits)
        then show ?thesis using False E(2) by simp
      qed
    qed
  qed
qed

lemma dme_inv_RemoveAppInst:
  assumes inv: "dme_inv place app_of t"
  shows "dme_inv place app_of (RemoveAppInst k t)"
    and "inst_at (RemoveAppInst k t) ak c k = None"
proof -
  define t' where "t' = RemoveAppInst k t"
  note invs = dme_invD[OF inv]
  have "dme_inv place app_of t' \<and> inst_at t' ak c k = None"
  proof (cases "\<exists>ak ck. known t k ak ck")
    case False
    then have "\<And>ak ck. \<not> known t k ak ck" by blast
    note U = RemoveAppInst_unknown[OF this t'_def]
    have none: "inst_at t ak c k = None" for ak c using insts_okD(6)[OF invs(1)] False by (cases "inst_at t ak c k") blast+
    show ?thesis
      using dme_inv_apps[OF inv U(4,3), where P = "\<lambda>_. True"] U none by simp
  next
    case True
    then obtain ak0 ck where kn: "known t k ak0 ck" by blast
    note E = RemoveAppInst_effect[OF kn t'_def]
    have reg: "ak = ak0 \<and> place k = ck" if "inst_at t ak c k = Some a" for ak c a
      using insts_okD(6)[OF invs(1) that] kn by (simp add: known_def)
    have gone: "inst_at t' ak c k = None" for ak c
      using E(1)[of ak c k] reg[of ak c] insts_okD(5)[OF invs(1), of ak c k] by (cases "inst_at t ak c k") auto
    have I: "inst_at t' ak c k' = (if k' = k then None else inst_at t ak c k')" for ak c k'
      using gone E(1) by (cases "k' = k") auto
    have len: "length (inst_heap t') = length (inst_heap t)" unfolding E(3) by (simp split: option.split)
    have H: "inst t' b = inst t b" if "b < length (inst_heap t)" "inst_at t ak0 (cloudlet_org ck) k \<noteq> Some b" for b
      using that unfolding E(3) by (auto split: option.split)
    have dead: "di_AppInstHealth (inst t' b) = HEALTH_CHECK_SERVER_FAIL" "di_key (inst t' b) = di_key (inst t b)"
      if "inst_at t ak0 (cloudlet_org ck) k = Some b" for b
      using that insts_okD(1)[OF invs(1) that] unfolding E(3) by simp_all
    have kn': "known t' k' ak ck' \<longleftrightarrow> k' \<noteq> k \<and> known t k' ak ck'" if "has_app t' ak = has_app t ak" for k' ak ck'
      using that by (auto simp: known_iff E)
    have inv': "dme_inv place app_of t'"
    proof (rule dme_invI)
      show "insts_ok place app_of t'" unfolding insts_ok_def
      proof (intro allI impI)
        fix ak c k' a assume a: "inst_at t' ak c k' = Some a"
        then have k': "k' \<noteq> k" "inst_at t ak c k' = Some a" unfolding I by (auto split: if_splits)
        note o = insts_okD[OF invs(1) k'(2)]
        have "inst_at t ak0 (cloudlet_org ck) k \<noteq> Some a" using insts_okD(2)[OF invs(1)] o(2) k'(1) by metis
        with o inst_at_app[OF a] inst_at_app[OF k'(2)] H[OF o(1)] kn'[of ak] k'(1) len
        show "a < length (inst_heap t') \<and> di_key (inst t' a) = k' \<and> di_cloudletKey (inst t' a) = place k' \<and> ak = app_of k'
          \<and> c = cloudlet_org (place k') \<and> known t' k' ak (place k')" by simp
      qed
      show "allies_ok place app_of t'" unfolding allies_ok_def
      proof (intro allI impI)
        fix ak c k' a assume "alliance_at t' ak c k' = Some a"
        then have "alliance_at t ak c k' = Some a" unfolding E(2) by (auto split: if_splits)
        then have o: "a < length (inst_heap t)" "di_key (inst t a) = k'" "ak = app_of k'"
          "inst_at t ak (cloudlet_org (place k')) k' = Some a \<or> di_AppInstHealth (inst t a) = HEALTH_CHECK_SERVER_FAIL"
          using invs(2) unfolding allies_ok_def by blast+
        show "a < length (inst_heap t') \<and> di_key (inst t' a) = k' \<and> ak = app_of k'
          \<and> (inst_at t' ak (cloudlet_org (place k')) k' = Some a \<or> di_AppInstHealth (inst t' a) = HEALTH_CHECK_SERVER_FAIL)"
        proof (cases "inst_at t ak0 (cloudlet_org ck) k = Some a")
          case True
          then show ?thesis using o dead[OF True] len by simp
        next
          case False
          have "k' \<noteq> k \<or> di_AppInstHealth (inst t a) = HEALTH_CHECK_SERVER_FAIL"
            using o(4) False reg by metis
          then show ?thesis using o H[OF o(1) False] len I by auto
        qed
      qed
      show "ready_ok place t'" unfolding ready_ok_def
      proof (intro allI impI)
        fix ak c k' a assume a: "inst_at t' ak c k' = Some a" "di_CloudletState (inst t' a) = CLOUDLET_STATE_READY"
        then have k': "k' \<noteq> k" "inst_at t ak c k' = Some a" unfolding I by (auto split: if_splits)
        have "inst_at t ak0 (cloudlet_org ck) k \<noteq> Some a" using insts_okD(2)[OF invs(1)] k' by metis
        then have "inst t' a = inst t a" using H insts_okD(1)[OF invs(1) k'(2)] by blast
        with a(2) invs(3) k'(2)
        show "\<exists>cl. map_of (Cloudlets t') (place k') = Some cl \<and> dc_State cl = CLOUDLET_STATE_READY \<and> map_of (dc_AppInstKeys cl) k' = Some ak"
          unfolding ready_ok_def E(4) by metis
      qed
      show "cloudlets_ok place app_of t'" using invs(4) unfolding cloudlets_ok_def E(4) .
      show "alliance_ok t'" unfolding alliance_ok_def E(4)
      proof (intro allI impI)
        fix ck0 cl k' ak a c
        assume c: "map_of (Cloudlets t) ck0 = Some cl" "map_of (dc_AppInstKeys cl) k' = Some ak" "inst_at t' ak (cloudlet_org ck0) k' = Some a"
          "c \<in> set (dc_AllianceCarriers cl)"
        then have k': "k' \<noteq> k" "inst_at t ak (cloudlet_org ck0) k' = Some a" unfolding I by (auto split: if_splits)
        then show "alliance_at t' ak c k' = Some a" using invs(5) c unfolding alliance_ok_def E(2) by auto
      qed
    qed
    then show ?thesis using gone by blast
  qed
  then show "dme_inv place app_of (RemoveAppInst k t)" "inst_at (RemoveAppInst k t) ak c k = None" unfolding t'_def by blast+
qed

lemma dme_inv_DeleteCloudletInfo:
  assumes inv: "dme_inv place app_of t"
  shows "dme_inv place app_of (DeleteCloudletInfo ks ck t)"
proof -
  obtain u where u: "marks t u" "Apps (DeleteCloudletInfo ks ck t) = Apps u" "inst_heap (DeleteCloudletInfo ks ck t) = inst_heap u"
    "AppInstApps (DeleteCloudletInfo ks ck t) = AppInstApps u" "CarriersByAppInst (DeleteCloudletInfo ks ck t) = CarriersByAppInst u"
    "Cloudlets (DeleteCloudletInfo ks ck t) = AList.delete ck (Cloudlets t)"
    and reset: "\<And>ak k a. inst_at t ak (cloudlet_org ck) k = Some a \<Longrightarrow> a < length (inst_heap t) \<Longrightarrow> di_cloudletKey (inst t a) = ck \<Longrightarrow>
      di_CloudletState (inst u a) = CLOUDLET_STATE_NOT_PRESENT"
    using DeleteCloudletInfo_effect[of _ ks ck t, OF refl] by blast
  define t' where "t' = DeleteCloudletInfo ks ck t"
  note u = u[folded t'_def]
  have invu: "dme_inv place app_of u" by (rule dme_inv_marks[OF inv u(1)])
  note invu = dme_invD[OF invu]
  have L: "inst_at t' = inst_at u" "alliance_at t' = alliance_at u" using lookups_Apps[OF u(2)] by simp_all
  have Lt: "inst_at t = inst_at u" using u(1) lookups_Apps[of u t] by (auto simp: marks_def)
  have kn: "known t' = known u" by (simp add: known_def has_app_def u fun_eq_iff)
  have "Cloudlets u = Cloudlets t" using u(1) by (simp add: marks_def same_tables_def)
  then have cl: "map_of (Cloudlets t') ck0 = (if ck0 = ck then None else map_of (Cloudlets u) ck0)" for ck0 by (simp add: u(6))
  show ?thesis unfolding t'_def[symmetric]
  proof (rule dme_invI)
    show "insts_ok place app_of t'" using invu(1) unfolding insts_ok_def L u(3) kn .
    show "allies_ok place app_of t'" using invu(2) unfolding allies_ok_def L u(3) .
    show "ready_ok place t'" unfolding ready_ok_def L u(3)
    proof (intro allI impI)
      fix ak c k a assume a: "inst_at u ak c k = Some a" "di_CloudletState (inst u a) = CLOUDLET_STATE_READY"
      note o = insts_okD[OF dme_invD(1)[OF inv] a(1)[folded Lt]]
      have "place k \<noteq> ck"
      proof
        assume p: "place k = ck"
        have "inst_at t ak (cloudlet_org ck) k = Some a" using a(1) o(5) p Lt by simp
        from reset[OF this o(1)] o(3) p a(2) show False by simp
      qed
      with ready_okD[OF invu(3) a] show "\<exists>cl. map_of (Cloudlets t') (place k) = Some cl \<and> dc_State cl = CLOUDLET_STATE_READY \<and> map_of (dc_AppInstKeys cl) k = Some ak"
        unfolding cl by metis
    qed
    show "cloudlets_ok place app_of t'" using invu(4) unfolding cloudlets_ok_def cl by (simp del: map_of_eq_None_keys)
    show "alliance_ok t'" using invu(5) unfolding alliance_ok_def cl L by (simp del: map_of_eq_None_keys)
  qed
qed

lemma dme_inv_SetInstStateFromCloudletInfo:
  assumes inv: "dme_inv place app_of t"
  shows "dme_inv place app_of (SetInstStateFromCloudletInfo info t)"
proof (cases "map_of (Cloudlets t) (cim_Key info)")
  case None
  then show ?thesis using inv by (simp add: SetInstStateFromCloudletInfo_def Let_def del: map_of_eq_None_keys)
next
  case (Some cl)
  define ck where "ck = cim_Key info"
  define changed where "changed = (dc_State cl \<noteq> cli_State info)"
  define t1 where "t1 = (if changed then t\<lparr>Cloudlets := AList.update ck (cl\<lparr>dc_State := cli_State info\<rparr>) (Cloudlets t)\<rparr> else t)"
  define t2 where "t2 = (if changed \<and> cli_State info \<noteq> CLOUDLET_STATE_READY
     then emit (SendCloudletStateEdgeEvent (no_state\<lparr>st_CloudletState := cli_State info\<rparr>) ck) t1 else t1)"
  define t' where "t' = fold (info_cloudlet_inst (cli_State info) (cim_MaintenanceState info) (changed \<and> cli_State info = CLOUDLET_STATE_READY) (cloudlet_org ck))
     (dc_AppInstKeys cl) t2"
  have T: "SetInstStateFromCloudletInfo info t = t'"
    unfolding SetInstStateFromCloudletInfo_def Let_def Some option.case t'_def t2_def t1_def changed_def ck_def ..
  note F = info_fold[OF t'_def]
  have t2: "inst_at t2 = inst_at t" "alliance_at t2 = alliance_at t" "inst_heap t2 = inst_heap t" "has_app t2 = has_app t"
    "AppInstApps t2 = AppInstApps t" "CarriersByAppInst t2 = CarriersByAppInst t"
    "map_of (Cloudlets t2) = (map_of (Cloudlets t))(ck \<mapsto> cl\<lparr>dc_State := cli_State info\<rparr>)"
    using Some by (auto simp: t2_def t1_def known_def has_app_def changed_def ck_def fun_eq_iff simp del: map_of_eq_None_keys)
  have known_app: "known t' k ak0 ck0 = known t k ak0 ck0" if "has_app t' ak0" "has_app t ak0" for k ak0 ck0
    using that F(3) t2 by (simp add: known_def same_tables_def)
  have C: "map_of (Cloudlets t') = (map_of (Cloudlets t))(ck \<mapsto> cl\<lparr>dc_State := cli_State info\<rparr>)" using F(3) t2(7) by (simp add: same_tables_def)
  note inv = dme_invD[OF inv]
  note L = F(1,2)[unfolded t2]
  note H = F(5,6,7)[unfolded t2]
  show ?thesis unfolding T
  proof (rule dme_invI)
    show "insts_ok place app_of t'" unfolding insts_ok_def L
    proof (intro allI impI)
      fix ak c k a assume a: "inst_at t ak c k = Some a"
      note o = insts_okD[OF inv(1) a]
      show "a < length (inst_heap t') \<and> di_key (inst t' a) = k \<and> di_cloudletKey (inst t' a) = place k \<and> ak = app_of k
        \<and> c = cloudlet_org (place k) \<and> known t' k ak (place k)"
        using o H(1) H(2)[OF o(1)] known_app[of ak] inst_at_app[OF a] inst_at_app[of t' ak c k a] a L by (simp add: same_inst_def)
    qed
    show "allies_ok place app_of t'" using inv(2) H(1,2) unfolding allies_ok_def L same_inst_def by metis
    show "ready_ok place t'" unfolding ready_ok_def L
    proof (intro allI impI)
      fix ak c k a assume a: "inst_at t ak c k = Some a" "di_CloudletState (inst t' a) = CLOUDLET_STATE_READY"
      note o = insts_okD[OF inv(1) a(1)]
      show "\<exists>cl. map_of (Cloudlets t') (place k) = Some cl \<and> dc_State cl = CLOUDLET_STATE_READY \<and> map_of (dc_AppInstKeys cl) k = Some ak"
      proof (cases "\<exists>(k', ak') \<in> set (dc_AppInstKeys cl). inst_at t ak' (cloudlet_org ck) k' = Some a")
        case True
        then obtain k' ak' where k': "(k', ak') \<in> set (dc_AppInstKeys cl)" "inst_at t ak' (cloudlet_org ck) k' = Some a" by blast
        have kk: "k' = k" using insts_okD(2)[OF inv(1) k'(2)] o(2) by simp
        have p: "place k = ck" using inv(4) Some k'(1) kk unfolding cloudlets_ok_def ck_def by blast
        have st: "cli_State info = CLOUDLET_STATE_READY" using H(3)[OF o(1)] True a(2) by simp
        have ak': "ak' = ak" using insts_okD(4)[OF inv(1) k'(2)] o(4) kk by simp
        obtain ak1 where ak1: "map_of (dc_AppInstKeys cl) k = Some ak1"
          using k'(1) kk by (cases "map_of (dc_AppInstKeys cl) k") force+
        have "ak1 = ak" using inv(4) Some map_of_SomeD[OF ak1] o(4) unfolding cloudlets_ok_def by blast
        then show ?thesis using C p st ak1 by simp
      next
        case False
        then have "di_CloudletState (inst t a) = CLOUDLET_STATE_READY" using H(3)[OF o(1)] a(2) by simp
        from ready_okD[OF inv(3) a(1) this] obtain cl0 where cl0: "map_of (Cloudlets t) (place k) = Some cl0"
          "dc_State cl0 = CLOUDLET_STATE_READY" "map_of (dc_AppInstKeys cl0) k = Some ak" .
        have "place k \<noteq> ck"
        proof
          assume p: "place k = ck"
          then have "(k, ak) \<in> set (dc_AppInstKeys cl)" using cl0 Some map_of_SomeD by (fastforce simp: ck_def)
          moreover have "inst_at t ak (cloudlet_org ck) k = Some a" using a(1) o(5) p by simp
          ultimately show False using False by blast
        qed
        then show ?thesis using cl0 C by simp
      qed
    qed
    show "cloudlets_ok place app_of t'" using inv(4) Some unfolding cloudlets_ok_def C ck_def by simp
    show "alliance_ok t'" using inv(5) Some unfolding alliance_ok_def C ck_def L by simp
  qed
qed

lemma track_location_simps [simp]:
  "inst_at (track_location k z y l t) = inst_at t" "alliance_at (track_location k z y l t) = alliance_at t"
  "has_app (track_location k z y l t) = has_app t" "inst_heap (track_location k z y l t) = inst_heap t"
  "Cloudlets (track_location k z y l t) = Cloudlets t" "AppInstApps (track_location k z y l t) = AppInstApps t"
  "CarriersByAppInst (track_location k z y l t) = CarriersByAppInst t"
  by (simp_all add: track_location_def Let_def)

text \<open>The cloudlet as the handler leaves it, what it was before, and the state from which the loop over its instances starts.\<close>

lemma SetInstStateFromCloudlet_effect:
  fixes m t
  defines "ck \<equiv> cl_Key m"
  shows "\<exists>cl u new old sa.
     SetInstStateFromCloudlet m t = fold (update_cloudlet_inst (cl_MaintenanceState m) sa (cloudlet_org ck) new old) (dc_AppInstKeys cl) u
     \<and> inst_at u = inst_at t \<and> alliance_at u = alliance_at t \<and> has_app u = has_app t \<and> inst_heap u = inst_heap t
     \<and> AppInstApps u = AppInstApps t \<and> CarriersByAppInst u = CarriersByAppInst t
     \<and> Cloudlets u = AList.update ck cl (Cloudlets t)
     \<and> CloudletLocsByZone u = CloudletLocsByZone (track_location ck (map_option dc_ZoneKey (map_of (Cloudlets t) ck)) (dc_ZoneKey cl) (cm_Location m) t)
     \<and> dc_ZoneKey cl = GetZone (Cloudlet.truncate m) \<and> dc_GpsLocation cl = cm_Location m
     \<and> (case map_of (Cloudlets t) ck of
          None \<Rightarrow> dc_State cl = CLOUDLET_STATE_UNKNOWN \<and> dc_AppInstKeys cl = [] \<and> dc_MaintenanceState cl = NORMAL_OPERATION
        | Some c \<Rightarrow> dc_State cl = dc_State c \<and> dc_AppInstKeys cl = dc_AppInstKeys c
            \<and> set old = set (dc_AllianceCarriers c) - set (dc_AllianceCarriers cl)
            \<and> set (dc_AllianceCarriers cl) - set (dc_AllianceCarriers c) \<subseteq> set new)"
proof -
  define r where "r = (case map_of (Cloudlets t) ck of
              Some cloudlet \<Rightarrow> (cloudlet, Some (dc_ZoneKey cloudlet), True)
            | None \<Rightarrow> (\<lparr>dc_CloudletKey = ck, dc_State = CLOUDLET_STATE_UNKNOWN, dc_MaintenanceState = NORMAL_OPERATION,
                        dc_GpsLocation = \<lparr>Latitude = 0, Longitude = 0\<rparr>, dc_AllianceCarriers = [], dc_AppInstKeys = [],
                        dc_ZoneKey = ([], [], [])\<rparr>, None, False))"
  obtain c0 oz fd where r: "r = (c0, oz, fd)" by (cases r)
  define changed where "changed = (dc_MaintenanceState c0 \<noteq> cl_MaintenanceState m \<and> fd)"
  define c1 where "c1 = (if changed then c0\<lparr>dc_MaintenanceState := cl_MaintenanceState m\<rparr> else c0)"
  define t1 where "t1 = (if changed \<and> cl_MaintenanceState m \<noteq> NORMAL_OPERATION
     then emit (SendCloudletMaintenanceStateEdgeEvent (no_state\<lparr>st_MaintenanceState := cl_MaintenanceState m\<rparr>) ck) t else t)"
  obtain cur new old where ch: "alliance_changes (cm_AllianceOrgs m) (dc_AllianceCarriers c1) = (cur, new, old)" by (metis prod_cases3)
  define cl where "cl = c1\<lparr>dc_GpsLocation := cm_Location m, dc_ZoneKey := GetZone (Cloudlet.truncate m), dc_AllianceCarriers := cur\<rparr>"
  define u where "u = track_location ck oz (dc_ZoneKey cl) (cm_Location m) (t1\<lparr>Cloudlets := AList.update ck cl (Cloudlets t1)\<rparr>)"
  have T: "SetInstStateFromCloudlet m t =
     fold (update_cloudlet_inst (cl_MaintenanceState m) (changed \<and> cl_MaintenanceState m = NORMAL_OPERATION) (cloudlet_org ck) new old) (dc_AppInstKeys cl) u"
    unfolding SetInstStateFromCloudlet_def Let_def ck_def[symmetric] r_def[symmetric] r prod.case changed_def[symmetric] c1_def[symmetric] t1_def[symmetric]
      ch cl_def[symmetric] u_def[symmetric] ..
  have oz: "oz = map_option dc_ZoneKey (map_of (Cloudlets t) ck)" using r by (auto simp: r_def split: option.splits)
  have t1: "inst_at t1 = inst_at t" "alliance_at t1 = alliance_at t" "has_app t1 = has_app t" "inst_heap t1 = inst_heap t"
    "AppInstApps t1 = AppInstApps t" "CarriersByAppInst t1 = CarriersByAppInst t" "Cloudlets t1 = Cloudlets t"
    "CloudletLocsByZone t1 = CloudletLocsByZone t"
    by (simp_all add: t1_def)
  have c1: "dc_State c1 = dc_State c0" "dc_AppInstKeys c1 = dc_AppInstKeys c0" "dc_AllianceCarriers c1 = dc_AllianceCarriers c0"
    by (simp_all add: c1_def)
  note A = alliance_changes_result[OF ch, unfolded c1]
  have "dc_MaintenanceState cl = NORMAL_OPERATION" if "map_of (Cloudlets t) ck = None"
    using r that by (auto simp: r_def cl_def c1_def changed_def simp del: map_of_eq_None_keys)
  moreover have "c0 = c" if "map_of (Cloudlets t) ck = Some c" for c using r that by (simp add: r_def)
  moreover have "dc_State c0 = CLOUDLET_STATE_UNKNOWN \<and> dc_AppInstKeys c0 = []" if "map_of (Cloudlets t) ck = None"
    using r that by (auto simp: r_def simp del: map_of_eq_None_keys)
  ultimately have cases: "case map_of (Cloudlets t) ck of
          None \<Rightarrow> dc_State cl = CLOUDLET_STATE_UNKNOWN \<and> dc_AppInstKeys cl = [] \<and> dc_MaintenanceState cl = NORMAL_OPERATION
        | Some c \<Rightarrow> dc_State cl = dc_State c \<and> dc_AppInstKeys cl = dc_AppInstKeys c
            \<and> set old = set (dc_AllianceCarriers c) - set (dc_AllianceCarriers cl)
            \<and> set (dc_AllianceCarriers cl) - set (dc_AllianceCarriers c) \<subseteq> set new"
    using A by (cases "map_of (Cloudlets t) ck") (simp_all add: cl_def c1 del: map_of_eq_None_keys)
  show ?thesis
    by (rule exI[of _ cl], rule exI[of _ u], rule exI[of _ new], rule exI[of _ old], rule exI, intro conjI, rule T)
      (use cases in \<open>auto simp: u_def t1 cl_def oz track_location_def Let_def\<close>)
qed

lemma dme_inv_SetInstStateFromCloudlet:
  assumes inv: "dme_inv place app_of t"
  shows "dme_inv place app_of (SetInstStateFromCloudlet m t)"
proof -
  define ck where "ck = cl_Key m"
  define t' where "t' = SetInstStateFromCloudlet m t"
  obtain cl u new old sa where T: "t' = fold (update_cloudlet_inst (cl_MaintenanceState m) sa (cloudlet_org ck) new old) (dc_AppInstKeys cl) u"
    and u: "inst_at u = inst_at t" "alliance_at u = alliance_at t" "has_app u = has_app t" "inst_heap u = inst_heap t"
      "AppInstApps u = AppInstApps t" "CarriersByAppInst u = CarriersByAppInst t" "Cloudlets u = AList.update ck cl (Cloudlets t)"
    and cl: "case map_of (Cloudlets t) ck of
          None \<Rightarrow> dc_State cl = CLOUDLET_STATE_UNKNOWN \<and> dc_AppInstKeys cl = [] \<and> dc_MaintenanceState cl = NORMAL_OPERATION
        | Some c \<Rightarrow> dc_State cl = dc_State c \<and> dc_AppInstKeys cl = dc_AppInstKeys c
            \<and> set old = set (dc_AllianceCarriers c) - set (dc_AllianceCarriers cl)
            \<and> set (dc_AllianceCarriers cl) - set (dc_AllianceCarriers c) \<subseteq> set new"
    using SetInstStateFromCloudlet_effect[of m t] unfolding t'_def ck_def by blast
  note F = update_fold[OF T, unfolded u]
  have C: "map_of (Cloudlets t') = (map_of (Cloudlets t))(ck \<mapsto> cl)" using F(2) u(7) by (simp add: same_tables_def)
  have known_app: "known t' k ak0 ck0 = known t k ak0 ck0" if "has_app t' ak0" "has_app t ak0" for k ak0 ck0
    using that F(2) u by (simp add: known_def same_tables_def)
  note inv = dme_invD[OF inv]
  have keys: "(\<exists>c. map_of (Cloudlets t) ck = Some c \<and> dc_State cl = dc_State c \<and> dc_AppInstKeys cl = dc_AppInstKeys c
            \<and> set old = set (dc_AllianceCarriers c) - set (dc_AllianceCarriers cl)
            \<and> set (dc_AllianceCarriers cl) - set (dc_AllianceCarriers c) \<subseteq> set new) \<or> map_of (Cloudlets t) ck = None \<and> dc_AppInstKeys cl = []"
    using cl by (cases "map_of (Cloudlets t) ck") (simp_all del: map_of_eq_None_keys)
  show ?thesis unfolding t'_def[symmetric]
  proof (rule dme_invI)
    show "insts_ok place app_of t'" unfolding insts_ok_def F(1)
    proof (intro allI impI)
      fix ak c k a assume a: "inst_at t ak c k = Some a"
      note o = insts_okD[OF inv(1) a]
      show "a < length (inst_heap t') \<and> di_key (inst t' a) = k \<and> di_cloudletKey (inst t' a) = place k \<and> ak = app_of k
        \<and> c = cloudlet_org (place k) \<and> known t' k ak (place k)"
        using o F(4) F(5)[OF o(1)] known_app[of ak] inst_at_app[OF a] inst_at_app[of t' ak c k a] a F(1) by (simp add: same_inst_def)
    qed
    show "allies_ok place app_of t'" unfolding allies_ok_def F(1)
    proof (intro allI impI)
      fix ak c k a assume a: "alliance_at t' ak c k = Some a"
      show "a < length (inst_heap t') \<and> di_key (inst t' a) = k \<and> ak = app_of k
        \<and> (inst_at t ak (cloudlet_org (place k)) k = Some a \<or> di_AppInstHealth (inst t' a) = HEALTH_CHECK_SERVER_FAIL)"
      proof (cases "alliance_at t ak c k = Some a")
        case True
        then have "a < length (inst_heap t)" "di_key (inst t a) = k" "ak = app_of k"
          "inst_at t ak (cloudlet_org (place k)) k = Some a \<or> di_AppInstHealth (inst t a) = HEALTH_CHECK_SERVER_FAIL"
          using inv(2) unfolding allies_ok_def by blast+
        then show ?thesis using F(4,5) by (auto simp: same_inst_def)
      next
        case False
        then have i: "inst_at t ak (cloudlet_org ck) k = Some a" using a F(7)[of ak c k] by (auto split: if_splits)
        then show ?thesis using insts_okD[OF inv(1) i] F(4,5) by (simp add: same_inst_def)
      qed
    qed
    show "ready_ok place t'" unfolding ready_ok_def F(1)
    proof (intro allI impI)
      fix ak c k a assume a: "inst_at t ak c k = Some a" "di_CloudletState (inst t' a) = CLOUDLET_STATE_READY"
      then have "di_CloudletState (inst t a) = CLOUDLET_STATE_READY" using F(6)[OF insts_okD(1)[OF inv(1) a(1)]] by simp
      from ready_okD[OF inv(3) a(1) this] obtain c0 where c0: "map_of (Cloudlets t) (place k) = Some c0" "dc_State c0 = CLOUDLET_STATE_READY"
        "map_of (dc_AppInstKeys c0) k = Some ak" .
      then show "\<exists>cl. map_of (Cloudlets t') (place k) = Some cl \<and> dc_State cl = CLOUDLET_STATE_READY \<and> map_of (dc_AppInstKeys cl) k = Some ak"
        using keys unfolding C by (cases "place k = ck") auto
    qed
    show "cloudlets_ok place app_of t'" unfolding cloudlets_ok_def C
    proof (intro allI impI)
      fix ck0 cl0 k ak assume c: "((map_of (Cloudlets t))(ck \<mapsto> cl)) ck0 = Some cl0" "(k, ak) \<in> set (dc_AppInstKeys cl0)"
      show "ak = app_of k \<and> place k = ck0"
      proof (cases "ck0 = ck")
        case True
        then have "cl0 = cl" using c(1) by simp
        then show ?thesis using keys c(2) inv(4) True unfolding cloudlets_ok_def by (metis empty_iff list.set(1))
      next
        case False
        then show ?thesis using c inv(4) unfolding cloudlets_ok_def by simp
      qed
    qed
    show "alliance_ok t'" unfolding alliance_ok_def F(1) C
    proof (intro allI impI)
      fix ck0 cl0 k ak a c
      assume h: "((map_of (Cloudlets t))(ck \<mapsto> cl)) ck0 = Some cl0" "map_of (dc_AppInstKeys cl0) k = Some ak"
        "inst_at t ak (cloudlet_org ck0) k = Some a" "c \<in> set (dc_AllianceCarriers cl0)"
      show "alliance_at t' ak c k = Some a"
      proof (cases "ck0 = ck")
        case True
        then have "cl0 = cl" using h(1) by simp
        with keys h(2) obtain c0 where c0: "map_of (Cloudlets t) ck = Some c0" "dc_AppInstKeys cl = dc_AppInstKeys c0"
            "set old = set (dc_AllianceCarriers c0) - set (dc_AllianceCarriers cl)"
            "set (dc_AllianceCarriers cl) - set (dc_AllianceCarriers c0) \<subseteq> set new" by auto
        have e: "(k, ak) \<in> set (dc_AppInstKeys cl)" using h(2) \<open>cl0 = cl\<close> map_of_SomeD by fastforce
        have "c \<notin> set old" using c0(3) h(4) \<open>cl0 = cl\<close> by simp
        moreover have "alliance_at t ak c k = Some a" if "c \<notin> set new"
        proof -
          have "c \<in> set (dc_AllianceCarriers c0)" using that c0(4) h(4) \<open>cl0 = cl\<close> by auto
          then show ?thesis using inv(5) c0(1,2) h(2,3) True \<open>cl0 = cl\<close> unfolding alliance_ok_def by metis
        qed
        ultimately show ?thesis using F(7)[of ak c k] e h(3) True by auto
      next
        case False
        then have old: "alliance_at t ak c k = Some a" using h inv(5) unfolding alliance_ok_def by auto
        have "(k, ak) \<notin> set (dc_AppInstKeys cl)"
        proof
          assume e: "(k, ak) \<in> set (dc_AppInstKeys cl)"
          then have "place k = ck" using keys inv(4) unfolding cloudlets_ok_def by (metis empty_iff list.set(1))
          moreover have "place k = ck0" using h(1,2) False inv(4) map_of_SomeD[OF h(2)] unfolding cloudlets_ok_def by auto
          ultimately show False using False by simp
        qed
        then show ?thesis using F(7)[of ak c k] old by simp
      qed
    qed
  qed
qed

subsection \<open>Runs\<close>

lemma dme_inv_start: "dme_inv place app_of SetupMatchEngine"
  by (simp add: dme_inv_def insts_ok_def allies_ok_def ready_ok_def cloudlets_ok_def alliance_ok_def inst_at_def alliance_at_def carrier_at_def
      SetupMatchEngine_def)

lemma dme_inv_step:
  assumes "dme_inv place app_of t" "dme_op_ok place app_of c" "dme_step ks c t = Some t'"
  shows "dme_inv place app_of t'"
proof (cases c)
  case (AppUpdate m)
  then show ?thesis using dme_inv_AddApp assms by simp
next
  case (CloudletPrune cs)
  then show ?thesis using dme_inv_marks[OF assms(1) marks_PruneCloudlets] assms(3) by auto
next
  case (CloudletInfoPrune cs)
  then show ?thesis using dme_inv_marks[OF assms(1) marks_PruneInstsCloudletState] assms(3) by auto
next
  case (PolicyUpdate m)
  have "Apps (policy_Update m t) = Apps t \<and> same_tables t (policy_Update m t) \<and> inst_heap (policy_Update m t) = inst_heap t"
    by (simp add: policy_Update_def same_tables_def Let_def split: option.split)
  then show ?thesis using dme_inv_same[OF assms(1)] PolicyUpdate assms(3) by simp
next
  case (PolicyDelete k)
  then show ?thesis using dme_inv_same[OF assms(1), of t'] assms(3) by (auto simp: policy_Delete_def same_tables_def)
next
  case (PolicyPrune ps)
  then show ?thesis using dme_inv_same[OF assms(1), of t'] assms(3) by (auto simp: policy_Prune_def same_tables_def)
next
  case (ClusterOp x)
  then show ?thesis using dme_inv_same[OF assms(1), of t'] assms(3) by (auto simp: same_tables_def)
next
  case (StatsInit n)
  then show ?thesis using dme_inv_same[OF assms(1), of t'] assms(3) by (auto simp: same_tables_def)
qed (use assms dme_inv_RemoveApp dme_inv_PruneApps dme_inv_AddAppInst dme_inv_RemoveAppInst dme_inv_SetInstStateFromCloudlet
      dme_inv_DeleteCloudletInfo dme_inv_SetInstStateFromCloudletInfo in \<open>auto simp: CloudletInfoHandler_Delete_def\<close>)

lemma dme_inv_run:
  "dme_inv place app_of t \<Longrightarrow> list_all (dme_op_ok place app_of) ops \<Longrightarrow> dme_run ks ops t = Some t' \<Longrightarrow> dme_inv place app_of t'"
proof (induction ops arbitrary: t)
  case (Cons c ops)
  then obtain u where u: "dme_step ks c t = Some u" "dme_run ks ops u = Some t'" by (auto split: option.splits)
  have "dme_inv place app_of u" by (rule dme_inv_step[OF Cons.prems(1) _ u(1)]) (use Cons.prems(2) in simp)
  from Cons.IH[OF this _ u(2)] Cons.prems(2) show ?case by simp
qed simp

text \<open>The tables of applications, operators and instances have no key twice.\<close>

declare map_of_eq_Some_iff [simp del] Some_eq_map_of_iff [simp del] map_of_eq_None_keys [simp del]

definition app_ok :: "DmeApp \<Rightarrow> bool" where
  "app_ok app \<longleftrightarrow> go_map (da_Carriers app)
     \<and> (\<forall>c insts. map_of (da_Carriers app) c = Some insts \<longrightarrow> go_map (Insts insts) \<and> go_map (AllianceInsts insts))"

definition apps_ok :: "DmeApps \<Rightarrow> bool" where
  "apps_ok t \<longleftrightarrow> go_map (Apps t) \<and> (\<forall>ak app. map_of (Apps t) ak = Some app \<longrightarrow> app_ok app)"

lemma apps_ok_cong: "Apps t = Apps t' \<Longrightarrow> apps_ok t = apps_ok t'"
  by (simp add: apps_ok_def)

lemma apps_ok_set_app: "apps_ok t \<Longrightarrow> (\<And>app. map_of (Apps t) ak = Some app \<Longrightarrow> app_ok app \<Longrightarrow> app_ok (f app)) \<Longrightarrow> apps_ok (set_app ak f t)"
  by (auto simp: apps_ok_def set_app_def split: option.split)

lemma app_ok_put: "app_ok app \<Longrightarrow> go_map (Insts x) \<Longrightarrow> go_map (AllianceInsts x) \<Longrightarrow>
  app_ok (app\<lparr>da_Carriers := AList.update c x (da_Carriers app)\<rparr>)"
  by (auto simp: app_ok_def)

lemma app_ok_drop: "app_ok app \<Longrightarrow> app_ok (app\<lparr>da_Carriers := AList.delete c (da_Carriers app)\<rparr>)"
  by (auto simp: app_ok_def)

lemma app_ok_get: "app_ok app \<Longrightarrow> go_map (Insts (get_or newDmeAppInsts (da_Carriers app) c)) \<and> go_map (AllianceInsts (get_or newDmeAppInsts (da_Carriers app) c))"
  by (auto simp: app_ok_def get_or_def newDmeAppInsts_def split: option.split)

lemma app_okD: "app_ok app \<Longrightarrow> map_of (da_Carriers app) c = Some insts \<Longrightarrow> go_map (Insts insts)"
  "app_ok app \<Longrightarrow> map_of (da_Carriers app) c = Some insts \<Longrightarrow> go_map (AllianceInsts insts)"
  by (simp_all add: app_ok_def)

lemma apps_okD: "apps_ok t \<Longrightarrow> map_of (Apps t) ak = Some app \<Longrightarrow> app_ok app"
  by (simp add: apps_ok_def)

lemma apps_ok_addAppInstAlliance: "apps_ok t \<Longrightarrow> apps_ok (addAppInstAlliance ak k a c t)"
  unfolding addAppInstAlliance_def Let_def
  by (erule apps_ok_set_app) (use app_ok_get in \<open>auto intro!: app_ok_put\<close>)

lemma apps_ok_removeAppInstAlliance: "apps_ok t \<Longrightarrow> apps_ok (removeAppInstAlliance ak k c t)"
  unfolding removeAppInstAlliance_def Let_def
  by (erule apps_ok_set_app) (auto intro!: app_ok_put app_ok_drop simp: app_ok_def split: option.split)

lemma apps_ok_fold: "(\<And>e u. apps_ok u \<Longrightarrow> apps_ok (f e u)) \<Longrightarrow> apps_ok t \<Longrightarrow> apps_ok (fold f es t)"
  by (induction es arbitrary: t) auto

lemma apps_ok_simps [simp]:
  "apps_ok (emit e t) = apps_ok t" "apps_ok (set_inst a f t) = apps_ok t" "apps_ok (t\<lparr>Cloudlets := x\<rparr>) = apps_ok t"
  "apps_ok (track_location ck z y l t) = apps_ok t" "apps_ok (send_if_usable b ak k a c t) = apps_ok t"
  "apps_ok (t\<lparr>inst_heap := h\<rparr>) = apps_ok t" "apps_ok (t\<lparr>AppInstApps := v, CarriersByAppInst := w\<rparr>) = apps_ok t"
  by (auto intro!: apps_ok_cong simp: track_location_def send_if_usable_def Let_def)

lemma apps_ok_AddAppInst:
  assumes ok: "apps_ok t"
  shows "apps_ok (AddAppInst m t)"
proof (cases "map_of (Apps t) (ai_AppKey m)")
  case None
  then show ?thesis using ok by (simp add: AddAppInst_def Let_def)
next
  case (Some app)
  define t0 where "t0 = t\<lparr>AppInstApps := AList.update (ai_Key m) (ai_AppKey m) (AppInstApps t), CarriersByAppInst := AList.update (ai_Key m) (ai_CloudletKey m) (CarriersByAppInst t)\<rparr>"
  obtain t1 a f where R: "find_or_add_inst m app t0 = (t1, a, f)" by (metis prod_cases3)
  have "apps_ok t0" using ok by (simp add: t0_def)
  moreover have "app_ok app" using apps_okD[OF ok Some] .
  ultimately have ok1: "apps_ok t1" using R app_ok_get[of app]
    by (auto simp: find_or_add_inst_def Let_def split: option.splits intro!: apps_ok_set_app app_ok_put)
  show ?thesis unfolding AddAppInst_def Let_def Some option.case t0_def[symmetric] R prod.case
    by (auto simp: ok1 intro!: apps_ok_fold apps_ok_addAppInstAlliance split: option.split)
qed

lemma apps_ok_RemoveAppInst:
  assumes ok: "apps_ok t"
  shows "apps_ok (RemoveAppInst k t)"
proof -
  have drop: "apps_ok (drop_inst k ak c u)" if "apps_ok u" for ak c u
  proof (cases "carrier_at u ak c")
    case None
    then have "drop_inst k ak c u = u" unfolding drop_inst_def carrier_at_def by (auto split: option.splits)
    then show ?thesis using that by simp
  next
    case (Some insts)
    then obtain app where app: "map_of (Apps u) ak = Some app" "map_of (da_Carriers app) c = Some insts"
      by (auto simp: carrier_at_def split: option.splits)
    note ok = apps_okD[OF that app(1)] app_okD[OF apps_okD[OF that app(1)] app(2)]
    show ?thesis unfolding drop_inst_def app option.case Let_def
      by (rule apps_ok_set_app) (use that ok in \<open>auto intro!: app_ok_put app_ok_drop split: option.split\<close>)
  qed
  show ?thesis using ok unfolding RemoveAppInst_def Let_def
    by (auto intro!: apps_ok_fold apps_ok_removeAppInstAlliance drop split: option.split)
qed

lemma apps_ok_PruneAppInsts:
  assumes ok: "apps_ok t"
  shows "apps_ok (PruneAppInsts ks t)"
proof -
  have ev: "Apps (fold (\<lambda>(key, a) t. if key \<in> set ks then t
                  else emit (EE_RemoveAppInst key)
                    (emit (SendAppInstStateEdgeEvent (no_state\<lparr>st_AppInstHealth := di_AppInstHealth (inst t a)\<rparr>) key ak EVENT_APPINST_HEALTH) t)) xs u) = Apps u" for ak xs u
    by (induction xs arbitrary: u) auto
  have prune: "apps_ok (prune_carrier ks ak (c, carr) u)" if "apps_ok u" "go_map (Insts carr)" "go_map (AllianceInsts carr)" for ak c carr u
  proof -
    have "apps_ok (fold (\<lambda>(key, a) t. if key \<in> set ks then t
                  else emit (EE_RemoveAppInst key)
                    (emit (SendAppInstStateEdgeEvent (no_state\<lparr>st_AppInstHealth := di_AppInstHealth (inst t a)\<rparr>) key ak EVENT_APPINST_HEALTH) t)) (Insts carr) u)"
      using that(1) apps_ok_cong[OF ev] by blast
    from this show ?thesis unfolding prune_carrier_def Let_def prod.case
      by (rule apps_ok_set_app) (use go_map_filter[OF that(2)] that(3) in \<open>simp add: app_ok_put app_ok_drop\<close>)
  qed
  have pruned: "apps_ok (fold (prune_carrier ks ak) cs u)" if "apps_ok u" "\<forall>(c, carr) \<in> set cs. go_map (Insts carr) \<and> go_map (AllianceInsts carr)" for ak cs u
    using that
  proof (induction cs arbitrary: u)
    case (Cons x cs)
    obtain c carr where x: "x = (c, carr)" by (cases x)
    have g: "go_map (Insts carr)" "go_map (AllianceInsts carr)" "\<forall>(c, carr) \<in> set cs. go_map (Insts carr) \<and> go_map (AllianceInsts carr)"
      using Cons.prems(2) unfolding x by auto
    have "apps_ok (prune_carrier ks ak x u)" unfolding x by (rule prune[OF Cons.prems(1) g(1,2)])
    from Cons.IH[OF this g(3)] show ?case by (simp only: fold_simps)
  qed simp
  have all: "apps_ok (fold (\<lambda>(ak, app). fold (prune_carrier ks ak) (da_Carriers app)) as u)" if "apps_ok u" "\<forall>(ak, app) \<in> set as. app_ok app" for as u
    using that
  proof (induction as arbitrary: u)
    case (Cons x as)
    obtain ak app where x: "x = (ak, app)" by (cases x)
    have "\<forall>(c, carr) \<in> set (da_Carriers app). go_map (Insts carr) \<and> go_map (AllianceInsts carr)"
    proof clarify
      fix c carr assume "(c, carr) \<in> set (da_Carriers app)"
      moreover have ok: "app_ok app" using Cons.prems(2) by (simp add: x)
      ultimately have "map_of (da_Carriers app) c = Some carr" by (metis app_ok_def go_map_entry)
      then show "go_map (Insts carr) \<and> go_map (AllianceInsts carr)" using app_okD[OF ok] by blast
    qed
    from Cons.IH[OF pruned[OF Cons.prems(1) this]] Cons.prems(2) show ?case by (simp add: x)
  qed simp
  have "\<forall>(ak, app) \<in> set (Apps t). app_ok app"
  proof clarify
    fix ak app assume "(ak, app) \<in> set (Apps t)"
    then have "map_of (Apps t) ak = Some app" using ok by (metis apps_ok_def go_map_entry)
    then show "app_ok app" by (rule apps_okD[OF ok])
  qed
  from all[OF ok this] have "apps_ok (fold (\<lambda>(ak, app). fold (prune_carrier ks ak) (da_Carriers app)) (Apps t) t)" .
  then show ?thesis by (simp add: PruneAppInsts_def Let_def apps_ok_def)
qed

lemma apps_ok_AddApp:
  assumes ok: "apps_ok t" and r: "AddApp m t = Some t'"
  shows "apps_ok t'"
proof -
  obtain app where app: "Apps t' = AList.update (app_Key m) app (Apps t)"
    "da_Carriers app = (case map_of (Apps t) (app_Key m) of None \<Rightarrow> [] | Some app \<Rightarrow> da_Carriers app)"
    using r by (auto simp: AddApp_def Let_def split: option.splits if_splits)
  have "app_ok app" using apps_okD[OF ok, of "app_Key m"] app(2) by (auto simp: app_ok_def split: option.splits)
  then show ?thesis using ok by (simp add: apps_ok_def app(1))
qed

lemma apps_ok_subset: "apps_ok t \<Longrightarrow> go_map (Apps t') \<Longrightarrow> (\<And>ak app. map_of (Apps t') ak = Some app \<Longrightarrow> map_of (Apps t) ak = Some app) \<Longrightarrow> apps_ok t'"
  unfolding apps_ok_def by blast

lemma apps_ok_info: "apps_ok t \<Longrightarrow> apps_ok (SetInstStateFromCloudletInfo info t)"
proof -
  assume ok: "apps_ok t"
  have "apps_ok (info_cloudlet_inst st mt sa c e u)" if "apps_ok u" for st mt sa c e u
    using that by (simp add: info_cloudlet_inst_def split: prod.split sum.split)
  then show ?thesis using ok unfolding SetInstStateFromCloudletInfo_def Let_def by (auto intro!: apps_ok_fold split: option.split)
qed

lemma apps_ok_step:
  assumes ok: "apps_ok t" and r: "dme_step ks c t = Some t'"
  shows "apps_ok t'"
proof (cases c)
  case (AppUpdate m)
  then show ?thesis using apps_ok_AddApp ok r by simp
next
  case (AppDelete key)
  then have "t' = RemoveApp key t" using r by simp
  then show ?thesis using ok by (intro apps_ok_subset[OF ok]) (auto simp: RemoveApp_def apps_ok_def split: option.splits if_splits)
next
  case (AppPrune apps)
  then have "t' = PruneApps apps t" using r by simp
  then show ?thesis using ok
    by (intro apps_ok_subset[OF ok]) (auto simp: PruneApps_def apps_ok_def map_of_filter_by_key go_map_filter split: if_splits)
next
  case (AppInstUpdate m)
  then show ?thesis using apps_ok_AddAppInst[OF ok] r by auto
next
  case (AppInstDelete k)
  then have "t' = RemoveAppInst k t" using r by simp
  then show ?thesis using apps_ok_RemoveAppInst[OF ok, of k] by simp
next
  case (AppInstPrune ks)
  then show ?thesis using apps_ok_PruneAppInsts[OF ok] r by auto
next
  case (CloudletUpdate m)
  have upd: "apps_ok (update_cloudlet_inst mt sa c new old e u)" if "apps_ok u" for mt sa c new old e u
    using that unfolding update_cloudlet_inst_def Let_def
    by (auto intro!: apps_ok_fold apps_ok_addAppInstAlliance apps_ok_removeAppInstAlliance split: prod.split sum.split)
  have "apps_ok (SetInstStateFromCloudlet m t)" unfolding SetInstStateFromCloudlet_def Let_def
    by (auto intro!: apps_ok_fold upd simp: ok split: prod.split)
  then show ?thesis using CloudletUpdate r by auto
next
  case (CloudletDelete k)
  then have "Apps t' = Apps t" using r DeleteCloudletInfo_effect[of t' ks k t] by (auto simp: marks_def)
  then show ?thesis using apps_ok_cong ok by metis
next
  case (CloudletPrune cs)
  then have "Apps t' = Apps t" using r marks_PruneCloudlets[of t cs] by (auto simp: marks_def)
  then show ?thesis using apps_ok_cong ok by metis
next
  case (CloudletInfoPrune cs)
  then have "Apps t' = Apps t" using r marks_PruneInstsCloudletState[of t cs] by (auto simp: marks_def)
  then show ?thesis using apps_ok_cong ok by metis
next
  case (CloudletInfoUpdate m)
  then have "t' = SetInstStateFromCloudletInfo m t" using r by simp
  then show ?thesis using apps_ok_info[OF ok] by simp
next
  case (CloudletInfoDelete m)
  then have "t' = SetInstStateFromCloudletInfo (m\<lparr>cli_State := CLOUDLET_STATE_NOT_PRESENT\<rparr>) t" using r by (simp add: CloudletInfoHandler_Delete_def)
  then show ?thesis using apps_ok_info[OF ok] by simp
next
  case (PolicyUpdate m)
  then have "Apps t' = Apps t" using r by (auto simp: policy_Update_def Let_def split: option.splits)
  then show ?thesis using apps_ok_cong ok by metis
qed (use r ok in \<open>auto simp: policy_Delete_def policy_Prune_def apps_ok_def\<close>)

lemma apps_ok_run: "apps_ok t \<Longrightarrow> dme_run ks ops t = Some t' \<Longrightarrow> apps_ok t'"
proof (induction ops arbitrary: t)
  case (Cons c ops)
  then obtain u where u: "dme_step ks c t = Some u" "dme_run ks ops u = Some t'" by (auto split: option.splits)
  from Cons.IH[OF apps_ok_step[OF Cons.prems(1) u(1)] u(2)] show ?case .
qed simp

lemma apps_ok_start: "apps_ok SetupMatchEngine"
  by (simp add: apps_ok_def SetupMatchEngine_def)

subsection \<open>Locations by zone\<close>

definition zone_loc :: "DmeApps \<Rightarrow> CloudletKey \<Rightarrow> (ZoneKey \<times> Loc) option" where
  "zone_loc t k = map_option (\<lambda>cl. (dc_ZoneKey cl, dc_GpsLocation cl)) (map_of (Cloudlets t) k)"

definition locs_ok :: "DmeApps \<Rightarrow> bool" where
  "locs_ok t \<longleftrightarrow> go_map (CloudletLocsByZone t)
     \<and> (\<forall>z k. map_of (get_or [] (CloudletLocsByZone t) z) k =
          (case zone_loc t k of None \<Rightarrow> None | Some (z', l) \<Rightarrow> if z' = z then Some l else None))"

lemma locs_ok_same: "CloudletLocsByZone t' = CloudletLocsByZone t \<Longrightarrow> zone_loc t' = zone_loc t \<Longrightarrow> locs_ok t' = locs_ok t"
  by (simp add: locs_ok_def)

lemma zone_loc_Cloudlets: "Cloudlets t' = Cloudlets t \<Longrightarrow> zone_loc t' = zone_loc t"
  by (simp add: zone_loc_def fun_eq_iff)

lemma locs_ok_both: "CloudletLocsByZone t' = CloudletLocsByZone t \<Longrightarrow> Cloudlets t' = Cloudlets t \<Longrightarrow> locs_ok t \<Longrightarrow> locs_ok t'"
  using locs_ok_same[of t' t] zone_loc_Cloudlets[of t' t] by simp

lemma locs_AddAppInst: "CloudletLocsByZone (AddAppInst m t) = CloudletLocsByZone t \<and> zone_loc (AddAppInst m t) = zone_loc t"
proof (cases "map_of (Apps t) (ai_AppKey m)")
  case None
  then show ?thesis by (simp add: AddAppInst_def Let_def)
next
  case (Some app)
  define t0 where "t0 = t\<lparr>AppInstApps := AList.update (ai_Key m) (ai_AppKey m) (AppInstApps t), CarriersByAppInst := AList.update (ai_Key m) (ai_CloudletKey m) (CarriersByAppInst t)\<rparr>"
  obtain t1 a f where R: "find_or_add_inst m app t0 = (t1, a, f)" by (metis prod_cases3)
  have "map_of (Apps t0) (ai_AppKey m) = Some app" using Some by (simp add: t0_def)
  from find_or_add_inst_effect(7,8)[OF this R] have t1: "Cloudlets t1 = Cloudlets t" "CloudletLocsByZone t1 = CloudletLocsByZone t"
    by (simp_all add: same_tables_def t0_def)
  show ?thesis unfolding AddAppInst_def Let_def Some option.case t0_def[symmetric] R prod.case
    by (cases "map_of (Cloudlets t) (ai_CloudletKey m)") (auto simp: t1 fold_addAppInstAlliance zone_loc_def fun_eq_iff)
qed

lemma locs_prune: "CloudletLocsByZone (prune_carrier ks ak e t) = CloudletLocsByZone t \<and> Cloudlets (prune_carrier ks ak e t) = Cloudlets t"
proof -
  have "CloudletLocsByZone (fold (\<lambda>(key, a) t. if key \<in> set ks then t
                  else emit (EE_RemoveAppInst key)
                    (emit (SendAppInstStateEdgeEvent (no_state\<lparr>st_AppInstHealth := di_AppInstHealth (inst t a)\<rparr>) key ak EVENT_APPINST_HEALTH) t)) xs u)
      = CloudletLocsByZone u \<and> Cloudlets (fold (\<lambda>(key, a) t. if key \<in> set ks then t
                  else emit (EE_RemoveAppInst key)
                    (emit (SendAppInstStateEdgeEvent (no_state\<lparr>st_AppInstHealth := di_AppInstHealth (inst t a)\<rparr>) key ak EVENT_APPINST_HEALTH) t)) xs u)
      = Cloudlets u" for xs u
    by (induction xs arbitrary: u) auto
  then show ?thesis by (cases e) (simp add: prune_carrier_def Let_def)
qed

lemma fold_keeps_prop: "(\<And>e u. g (f e u) = g u) \<Longrightarrow> g (fold f es t) = g t"
  by (induction es arbitrary: t) auto

lemma locs_PruneAppInsts: "CloudletLocsByZone (PruneAppInsts ks t) = CloudletLocsByZone t \<and> zone_loc (PruneAppInsts ks t) = zone_loc t"
proof -
  have "CloudletLocsByZone (fold (\<lambda>(ak, app). fold (prune_carrier ks ak) (da_Carriers app)) (Apps t) t) = CloudletLocsByZone t
     \<and> Cloudlets (fold (\<lambda>(ak, app). fold (prune_carrier ks ak) (da_Carriers app)) (Apps t) t) = Cloudlets t"
    by (intro conjI fold_keeps_prop) (auto intro!: fold_keeps_prop simp: locs_prune)
  then show ?thesis by (auto simp: PruneAppInsts_def Let_def zone_loc_def fun_eq_iff map_of_map_value option.map_comp comp_def)
qed

lemma locs_ok_track:
  assumes ok: "locs_ok t" and z: "zone_loc t' = (zone_loc t)(k \<mapsto> (z, l))"
    and L: "CloudletLocsByZone t' = CloudletLocsByZone (track_location k (map_option dc_ZoneKey (map_of (Cloudlets t) k)) z l t)"
  shows "locs_ok t'"
proof -
  define L0 where "L0 = CloudletLocsByZone t"
  define L1 where "L1 = (case map_of (Cloudlets t) k of None \<Rightarrow> L0
     | Some cl \<Rightarrow> if dc_ZoneKey cl = z then L0 else case map_of L0 (dc_ZoneKey cl) of None \<Rightarrow> L0
          | Some cbyz \<Rightarrow> if AList.delete k cbyz = [] then AList.delete (dc_ZoneKey cl) L0 else AList.update (dc_ZoneKey cl) (AList.delete k cbyz) L0)"
  have L': "CloudletLocsByZone t' = AList.update z (AList.update k l (get_or [] L1 z)) L1"
    unfolding L track_location_def L1_def L0_def Let_def by (cases "map_of (Cloudlets t) k") simp_all
  have ok0: "go_map L0" "map_of (get_or [] L0 z0) k0 = (case zone_loc t k0 of None \<Rightarrow> None | Some (z', l) \<Rightarrow> if z' = z0 then Some l else None)" for z0 k0
    using ok unfolding locs_ok_def L0_def by blast+
  have g1: "go_map L1" using ok0(1) unfolding L1_def by (auto split: option.split)
  have L1: "map_of (get_or [] L1 z0) k0 = (if k0 = k \<and> z0 \<noteq> z then None else map_of (get_or [] L0 z0) k0)" for z0 k0
  proof (cases "map_of (Cloudlets t) k")
    case None
    then have "zone_loc t k = None" by (simp add: zone_loc_def)
    then show ?thesis using None ok0(2)[of z0 k] by (simp add: L1_def)
  next
    case (Some cl)
    then have zl: "zone_loc t k = Some (dc_ZoneKey cl, dc_GpsLocation cl)" by (simp add: zone_loc_def)
    show ?thesis
    proof (cases "z0 = dc_ZoneKey cl \<and> dc_ZoneKey cl \<noteq> z")
      case True
      then show ?thesis using Some
        by (cases "map_of L0 (dc_ZoneKey cl)")
          (use delete_NilD[of k "the (map_of L0 (dc_ZoneKey cl))" k0] in \<open>auto simp: L1_def get_or_def\<close>)
    next
      case False
      then have "get_or [] L1 z0 = get_or [] L0 z0" using Some by (auto simp: L1_def get_or_def split: option.split)
      moreover have "map_of (get_or [] L0 z0) k = None" if "z0 \<noteq> z" using ok0(2)[of z0 k] zl False that by auto
      ultimately show ?thesis by auto
    qed
  qed
  show ?thesis unfolding locs_ok_def L' z
    using g1 by (auto simp: L1 ok0(2) split: option.split)
qed

lemma locs_ok_Delete:
  assumes ok: "locs_ok t" and t': "t' = DeleteCloudletInfo ks ck t"
  shows "locs_ok t'"
proof -
  obtain u where u: "marks t u" "Cloudlets t' = AList.delete ck (Cloudlets t)" using DeleteCloudletInfo_effect[OF t'] by blast
  define L where "L = CloudletLocsByZone t"
  have "CloudletLocsByZone (fold (\<lambda>(ak, app) t. case map_of (da_Carriers app) (cloudlet_org ck) of None \<Rightarrow> t
      | Some c \<Rightarrow> reset_insts (\<lambda>k. ks k = ks ck) True ak c t) (Apps t) t) = L"
    unfolding L_def by (rule fold_keeps_prop) (use marks_reset_insts in \<open>auto simp: marks_def split: option.split\<close>)
  then have L': "CloudletLocsByZone t' = filter (\<lambda>(_, cbyz). cbyz \<noteq> []) (map (\<lambda>(z, cbyz). (z, AList.delete ck cbyz)) L)"
    by (simp add: t' DeleteCloudletInfo_def Let_def)
  have g: "go_map L" and ok0: "map_of (get_or [] L z) k = (case zone_loc t k of None \<Rightarrow> None | Some (z', l) \<Rightarrow> if z' = z then Some l else None)" for z k
    using ok unfolding locs_ok_def L_def by blast+
  have "map_of (filter (\<lambda>(_, c). c \<noteq> []) m) z = (case map_of m z of None \<Rightarrow> None | Some c \<Rightarrow> if c = [] then None else Some c)" if "go_map m"
    for m :: "(ZoneKey, (CloudletKey, Loc) gomap) gomap" and z
    using that
  proof (induction m)
    case (Cons x m)
    obtain z' c where x: "x = (z', c)" by (cases x)
    have "map_of m z' = None" using Cons.prems by (simp add: x map_of_eq_None_iff)
    then show ?case using Cons by (auto simp: x split: option.splits)
  qed simp
  moreover have "go_map (map (\<lambda>(z, cbyz). (z, AList.delete ck cbyz)) L)" using g by (simp add: comp_def case_prod_unfold)
  ultimately have G: "get_or [] (CloudletLocsByZone t') z = AList.delete ck (get_or [] L z)" for z
    unfolding L' by (auto simp: get_or_def map_of_map_value split: option.split)
  have "go_map (CloudletLocsByZone t')" unfolding L' using g by (intro go_map_filter) (simp add: comp_def case_prod_unfold)
  moreover have "zone_loc t' = (zone_loc t)(ck := None)" by (simp add: zone_loc_def u(2) fun_eq_iff)
  ultimately show ?thesis unfolding locs_ok_def G by (auto simp: ok0)
qed

lemma locs_ok_info:
  assumes ok: "locs_ok t"
  shows "locs_ok (SetInstStateFromCloudletInfo m t)"
proof -
  have "CloudletLocsByZone (SetInstStateFromCloudletInfo m t) = CloudletLocsByZone t \<and> zone_loc (SetInstStateFromCloudletInfo m t) = zone_loc t"
  proof (cases "map_of (Cloudlets t) (cim_Key m)")
    case None
    then show ?thesis by (simp add: SetInstStateFromCloudletInfo_def Let_def)
  next
    case (Some cl)
    then show ?thesis
      using info_fold(3,4)[OF refl] unfolding SetInstStateFromCloudletInfo_def Let_def Some option.case
      by (auto simp: same_tables_def zone_loc_def fun_eq_iff Some)
  qed
  then show ?thesis using locs_ok_same ok by blast
qed

lemma locs_ok_step:
  assumes ok: "locs_ok t" and r: "dme_step ks c t = Some t'"
  shows "locs_ok t'"
proof (cases c)
  case (CloudletUpdate m)
  then have t': "t' = SetInstStateFromCloudlet m t" using r by simp
  obtain cl u new old sa where T: "t' = fold (update_cloudlet_inst (cl_MaintenanceState m) sa (cloudlet_org (cl_Key m)) new old) (dc_AppInstKeys cl) u"
    and u: "Cloudlets u = AList.update (cl_Key m) cl (Cloudlets t)"
      "CloudletLocsByZone u = CloudletLocsByZone (track_location (cl_Key m) (map_option dc_ZoneKey (map_of (Cloudlets t) (cl_Key m))) (dc_ZoneKey cl) (cm_Location m) t)"
      "dc_GpsLocation cl = cm_Location m"
    using SetInstStateFromCloudlet_effect[of m t] unfolding t' by blast
  note F = update_fold(2,3)[OF T]
  have "zone_loc t' = (zone_loc t)(cl_Key m \<mapsto> (dc_ZoneKey cl, cm_Location m))"
    using F(1) u(1,3) by (simp add: same_tables_def zone_loc_def fun_eq_iff)
  then show ?thesis using F(2) u(2) locs_ok_track[OF ok] by simp
next
  case (CloudletDelete k)
  then have "t' = DeleteCloudletInfo ks k t" using r by simp
  then show ?thesis by (rule locs_ok_Delete[OF ok])
next
  case (CloudletInfoUpdate m)
  then have "t' = SetInstStateFromCloudletInfo m t" using r by simp
  then show ?thesis using locs_ok_info[OF ok] by simp
next
  case (CloudletInfoDelete m)
  then have "t' = SetInstStateFromCloudletInfo (m\<lparr>cli_State := CLOUDLET_STATE_NOT_PRESENT\<rparr>) t" using r by (simp add: CloudletInfoHandler_Delete_def)
  then show ?thesis using locs_ok_info[OF ok] by simp
next
  case (AppUpdate m)
  then have "CloudletLocsByZone t' = CloudletLocsByZone t \<and> Cloudlets t' = Cloudlets t"
    using r by (auto simp: AddApp_def Let_def split: option.splits if_splits)
  then show ?thesis using locs_ok_both[OF _ _ ok] by blast
next
  case (AppInstUpdate m)
  then show ?thesis using locs_AddAppInst[of m t] locs_ok_same[of t' t] r ok by auto
next
  case (AppInstPrune ps)
  then show ?thesis using locs_PruneAppInsts[of ps t] locs_ok_same[of t' t] r ok by auto
next
  case (AppInstDelete k)
  then have t': "t' = RemoveAppInst k t" using r by simp
  have "CloudletLocsByZone t' = CloudletLocsByZone t \<and> Cloudlets t' = Cloudlets t"
  proof (cases "\<exists>ak ck. known t k ak ck")
    case True
    then obtain ak ck where "known t k ak ck" by blast
    from RemoveAppInst_effect(4,5)[OF this t'] show ?thesis by simp
  next
    case False
    then have "\<And>ak ck. \<not> known t k ak ck" by blast
    from RemoveAppInst_unknown(4,5)[OF this t'] show ?thesis by (simp add: same_tables_def)
  qed
  then show ?thesis using locs_ok_both[OF _ _ ok] by blast
next
  case (CloudletPrune cs)
  then have "marks t t'" using marks_PruneCloudlets[of t cs] r by auto
  then have "CloudletLocsByZone t' = CloudletLocsByZone t \<and> Cloudlets t' = Cloudlets t" by (simp add: marks_def same_tables_def)
  then show ?thesis using locs_ok_both[OF _ _ ok] by blast
next
  case (CloudletInfoPrune cs)
  then have "marks t t'" using marks_PruneInstsCloudletState[of t cs] r by auto
  then have "CloudletLocsByZone t' = CloudletLocsByZone t \<and> Cloudlets t' = Cloudlets t" by (simp add: marks_def same_tables_def)
  then show ?thesis using locs_ok_both[OF _ _ ok] by blast
next
  case (PolicyUpdate m)
  then have "CloudletLocsByZone t' = CloudletLocsByZone t \<and> Cloudlets t' = Cloudlets t"
    using r by (auto simp: policy_Update_def Let_def split: option.splits)
  then show ?thesis using locs_ok_both[OF _ _ ok] by blast
qed (use r in \<open>auto intro!: locs_ok_both[OF _ _ ok] simp: RemoveApp_def PruneApps_def policy_Delete_def policy_Prune_def split: option.split\<close>)

lemma locs_ok_run: "locs_ok t \<Longrightarrow> dme_run ks ops t = Some t' \<Longrightarrow> locs_ok t'"
proof (induction ops arbitrary: t)
  case (Cons c ops)
  then obtain u where u: "dme_step ks c t = Some u" "dme_run ks ops u = Some t'" by (auto split: option.splits)
  from Cons.IH[OF locs_ok_step[OF Cons.prems(1) u(1)] u(2)] show ?case .
qed simp

text \<open>
  (C22) After any messages of the controller, the locations that the search for potential sites reads for a zone are those of
  exactly the cloudlets that the table has in that zone.
\<close>

theorem zone_locations_mirror_cloudlets:
  assumes "dme_run ks ops SetupMatchEngine = Some t"
  shows "map_of (get_or [] (CloudletLocsByZone t) z) k = Some l
     \<longleftrightarrow> (\<exists>cl. map_of (Cloudlets t) k = Some cl \<and> dc_ZoneKey cl = z \<and> dc_GpsLocation cl = l)"
proof -
  have "locs_ok SetupMatchEngine" by (simp add: locs_ok_def SetupMatchEngine_def zone_loc_def)
  from locs_ok_run[OF this assms]
  have "map_of (get_or [] (CloudletLocsByZone t) z) k = (case zone_loc t k of None \<Rightarrow> None | Some (z', l) \<Rightarrow> if z' = z then Some l else None)"
    unfolding locs_ok_def by blast
  then show ?thesis unfolding zone_loc_def by (cases "map_of (Cloudlets t) k") auto
qed

subsection \<open>Runs that go wrong\<close>

definition ex_app_msg :: DmeAppMsg where
  "ex_app_msg =
     \<lparr>app_Key = ex_dme_app, app_AutoProvPolicy = [], app_AutoProvPolicies = [], am_AuthPublicKey = [], am_AndroidPackageName = [],
      am_OfficialFqdn = [], am_Deployment = ''kubernetes'', am_AccessPorts = [], am_QosSessionProfile = [], am_QosSessionDuration = 0\<rparr>"

definition ex_loc :: "rat \<Rightarrow> Loc" where
  "ex_loc x = \<lparr>Latitude = x, Longitude = 0\<rparr>"

definition ex_cloudlet_msg :: "string \<Rightarrow> string \<Rightarrow> MaintenanceState \<Rightarrow> string list \<Rightarrow> CloudletMsg" where
  "ex_cloudlet_msg name org ms allies =
     \<lparr>cl_Key = (name, org, []), cl_Zone = ''zone'', cl_MaintenanceState = ms, cm_Location = ex_loc 0, cm_AllianceOrgs = allies\<rparr>"

definition ex_info_msg :: "string \<Rightarrow> string \<Rightarrow> CloudletInfoMsg" where
  "ex_info_msg name org = \<lparr>cli_State = CLOUDLET_STATE_READY, cim_Key = (name, org, []), cim_MaintenanceState = NORMAL_OPERATION\<rparr>"

definition ex_inst_msg :: "string \<Rightarrow> string \<Rightarrow> string \<Rightarrow> HealthCheck \<Rightarrow> AppInstMsg" where
  "ex_inst_msg name site org health =
     \<lparr>ai_Key = (name, ''dev''), ai_AppKey = ex_dme_app, ai_CloudletKey = (site, org, []), ai_ZoneKey = (''zone'', org, []), ai_State = READY,
      ai_HealthCheck = health, ai_Liveness = LIVENESS_STATIC, im_ClusterKey = (''clust'', ''dev''), im_Uri = name, im_CloudletLoc = ex_loc 0,
      im_MappedPorts = []\<rparr>"

text \<open>Two operators with one cloudlet and one instance each; the first is allied to the second.\<close>

definition ex_setup :: "dme_op list" where
  "ex_setup =
     [AppUpdate ex_app_msg,
      CloudletUpdate (ex_cloudlet_msg ''s1'' ''operA'' NORMAL_OPERATION [''operB'']), CloudletUpdate (ex_cloudlet_msg ''s2'' ''operB'' NORMAL_OPERATION []),
      CloudletInfoUpdate (ex_info_msg ''s1'' ''operA''), CloudletInfoUpdate (ex_info_msg ''s2'' ''operB''),
      AppInstUpdate (ex_inst_msg ''i1'' ''s1'' ''operA'' HEALTH_CHECK_OK)]"

definition ex_inst2 :: dme_op where "ex_inst2 = AppInstUpdate (ex_inst_msg ''i2'' ''s2'' ''operB'' HEALTH_CHECK_OK)"

definition ally_sees :: "dme_op list \<Rightarrow> string \<Rightarrow> AppInstKey \<Rightarrow> bool option" where
  "ally_sees ops c k =
     (case dme_run (\<lambda>_. []) ops SetupMatchEngine of None \<Rightarrow> None
      | Some t \<Rightarrow> Some (case alliance_at t ex_dme_app c k of None \<Rightarrow> False | Some a \<Rightarrow> IsAppInstUsable (inst t a)))"

theorem zone_locations_mirror_cloudlets_witness:
  "\<exists>t. dme_run (\<lambda>_. []) ex_setup SetupMatchEngine = Some t
     \<and> map_of (get_or [] (CloudletLocsByZone t) (''zone'', ''operA'', [])) (''s1'', ''operA'', []) = Some (ex_loc 0)"
proof -
  have "dme_run (\<lambda>_. []) ex_setup SetupMatchEngine \<noteq> None
     \<and> (\<lambda>cl. dc_ZoneKey cl = (''zone'', ''operA'', []) \<and> dc_GpsLocation cl = ex_loc 0)
         (the (map_of (Cloudlets (the (dme_run (\<lambda>_. []) ex_setup SetupMatchEngine))) (''s1'', ''operA'', [])))
     \<and> map_of (Cloudlets (the (dme_run (\<lambda>_. []) ex_setup SetupMatchEngine))) (''s1'', ''operA'', []) \<noteq> None"
    by code_simp
  then show ?thesis using zone_locations_mirror_cloudlets[of "\<lambda>_. []" ex_setup] by auto
qed


text \<open>A new cloudlet counts as in operation and a new instance as not known to be ill, whatever the message says.\<close>

lemma new_cloudlet_in_operation:
  assumes "map_of (Cloudlets t) (cl_Key m) = None"
  shows "\<exists>cl. map_of (Cloudlets (SetInstStateFromCloudlet m t)) (cl_Key m) = Some cl \<and> dc_MaintenanceState cl = NORMAL_OPERATION"
proof -
  obtain cl u new old sa where T: "SetInstStateFromCloudlet m t = fold (update_cloudlet_inst (cl_MaintenanceState m) sa (cloudlet_org (cl_Key m)) new old) (dc_AppInstKeys cl) u"
    and u: "Cloudlets u = AList.update (cl_Key m) cl (Cloudlets t)" "dc_MaintenanceState cl = NORMAL_OPERATION"
    using SetInstStateFromCloudlet_effect[of m t, unfolded assms option.case] by blast
  show ?thesis using update_fold(2)[OF T] u by (simp add: same_tables_def)
qed

lemma served_under_maintenance:
  "ally_sees [AppUpdate ex_app_msg, CloudletUpdate (ex_cloudlet_msg ''s1'' ''operA'' UNDER_MAINTENANCE [''operB'']),
     CloudletInfoUpdate (ex_info_msg ''s1'' ''operA''), AppInstUpdate (ex_inst_msg ''i1'' ''s1'' ''operA'' HEALTH_CHECK_SERVER_FAIL)]
     ''operB'' (''i1'', ''dev'') = Some True"
  by code_simp

end
