(* ===== verification/MatchTypes.thy ===== *)
theory MatchTypes
  imports MatchTables
begin

text \<open>
  The heap of the matching engine is typed: whatever messages arrive, in whatever order, every table refers to allocated objects only,
  and every object is stored under its own key. Objects are never freed and keep their keys, so the heap of a later state
  extends that of an earlier one.
\<close>

declare split_paired_All [simp del] split_paired_Ex [simp del]

subsection \<open>Typing\<close>

definition inst_typed :: "DmeApps \<Rightarrow> AppInstKey \<times> nat \<Rightarrow> bool" where
  "inst_typed t e \<longleftrightarrow> snd e < length (inst_heap t) \<and> di_key (inst t (snd e)) = fst e"

definition insts_typed :: "DmeApps \<Rightarrow> DmeAppInsts \<Rightarrow> bool" where
  "insts_typed t insts \<longleftrightarrow> (\<forall>e \<in> set (Insts insts). inst_typed t e) \<and> (\<forall>e \<in> set (AllianceInsts insts). inst_typed t e)"

definition policy_typed :: "DmeApps \<Rightarrow> string \<times> nat \<Rightarrow> bool" where
  "policy_typed t e \<longleftrightarrow> snd e < length (policy_heap t) \<and> dp_Name (policy_heap t ! snd e) = fst e"

definition app_typed :: "DmeApps \<Rightarrow> DmeApp \<Rightarrow> bool" where
  "app_typed t app \<longleftrightarrow> (\<forall>e \<in> set (da_Carriers app). insts_typed t (snd e)) \<and> (\<forall>e \<in> set (da_AutoProvPolicies app). policy_typed t e)"

definition tables_typed :: "DmeApps \<Rightarrow> bool" where
  "tables_typed t \<longleftrightarrow> (\<forall>e \<in> set (Apps t). app_typed t (snd e)) \<and> (\<forall>e \<in> set (AutoProvPolicies t). policy_typed t (fst (fst e), snd e))"

text \<open>The heap grows, and what is in it keeps its keys.\<close>

definition heap_extends :: "DmeApps \<Rightarrow> DmeApps \<Rightarrow> bool" where
  "heap_extends t t' \<longleftrightarrow>
     length (inst_heap t) \<le> length (inst_heap t') \<and> (\<forall>a < length (inst_heap t). di_key (inst t' a) = di_key (inst t a))
     \<and> length (policy_heap t) \<le> length (policy_heap t') \<and> (\<forall>p < length (policy_heap t). dp_Name (policy_heap t' ! p) = dp_Name (policy_heap t ! p))"

lemma heap_extends_refl [simp]: "heap_extends t t"
  by (simp add: heap_extends_def)

lemma heap_extends_same: "inst_heap t' = inst_heap t \<Longrightarrow> policy_heap t' = policy_heap t \<Longrightarrow> heap_extends t t'"
  by (simp add: heap_extends_def)

lemma typed_mono:
  assumes "heap_extends t t'"
  shows "inst_typed t e \<Longrightarrow> inst_typed t' e" and "insts_typed t i \<Longrightarrow> insts_typed t' i" and "policy_typed t p \<Longrightarrow> policy_typed t' p"
    and "app_typed t app \<Longrightarrow> app_typed t' app"
proof -
  show 1: "inst_typed t e \<Longrightarrow> inst_typed t' e" for e using assms by (auto simp: inst_typed_def heap_extends_def)
  show 2: "insts_typed t i \<Longrightarrow> insts_typed t' i" for i using 1 by (auto simp: insts_typed_def)
  show 3: "policy_typed t p \<Longrightarrow> policy_typed t' p" for p using assms by (auto simp: policy_typed_def heap_extends_def)
  show "app_typed t app \<Longrightarrow> app_typed t' app" using 2 3 by (auto simp: app_typed_def)
qed

text \<open>Only the entries that are new have to be looked at.\<close>

lemma tables_typed_step:
  assumes "tables_typed t" "heap_extends t t'"
    and "\<And>e. e \<in> set (Apps t') \<Longrightarrow> e \<notin> set (Apps t) \<Longrightarrow> app_typed t' (snd e)"
    and "\<And>e. e \<in> set (AutoProvPolicies t') \<Longrightarrow> e \<notin> set (AutoProvPolicies t) \<Longrightarrow> policy_typed t' (fst (fst e), snd e)"
  shows "tables_typed t'"
  unfolding tables_typed_def
proof (intro conjI ballI)
  fix e assume "e \<in> set (Apps t')"
  then show "app_typed t' (snd e)" using assms(1,3) typed_mono(4)[OF assms(2)] unfolding tables_typed_def by blast
next
  fix e assume "e \<in> set (AutoProvPolicies t')"
  then show "policy_typed t' (fst (fst e), snd e)" using assms(1,4) typed_mono(3)[OF assms(2)] unfolding tables_typed_def by blast
qed

lemma tables_typed_sub:
  "tables_typed t \<Longrightarrow> inst_heap t' = inst_heap t \<Longrightarrow> policy_heap t' = policy_heap t \<Longrightarrow> set (Apps t') \<subseteq> set (Apps t) \<Longrightarrow>
     set (AutoProvPolicies t') \<subseteq> set (AutoProvPolicies t) \<Longrightarrow> tables_typed t'"
  by (erule tables_typed_step) (auto intro: heap_extends_same)

lemma tables_typed_app: "tables_typed t \<Longrightarrow> map_of (Apps t) ak = Some app \<Longrightarrow> app_typed t app"
  unfolding tables_typed_def using map_of_SomeD by fastforce

subsection \<open>The steps of the handlers\<close>

lemma typed_emit [simp]: "tables_typed (emit e t) = tables_typed t"
  by (auto simp: emit_def elim: tables_typed_sub)

lemma typed_set_app:
  assumes "tables_typed t" "\<And>app. app_typed t app \<Longrightarrow> app_typed t (f app)"
  shows "tables_typed (set_app ak f t)"
proof (cases "map_of (Apps t) ak")
  case None
  then show ?thesis using assms(1) by (simp add: set_app_def)
next
  case (Some app)
  have "app_typed t (f app)" using assms(2)[OF tables_typed_app[OF assms(1) Some]] .
  then have "app_typed (set_app ak f t) (f app)" by (rule typed_mono(4)[rotated]) (simp add: set_app_def Some heap_extends_same)
  then show ?thesis
    using assms(1) set_AList_update[of ak "f app" "Apps t"]
    by (elim tables_typed_step) (auto simp: set_app_def Some intro: heap_extends_same)
qed

lemma typed_set_inst:
  assumes "tables_typed t" "\<And>i. di_key (f i) = di_key i"
  shows "tables_typed (set_inst a f t)"
proof -
  have "di_key ((inst_heap t)[a := f (inst t a)] ! b) = di_key (inst t b)" if "b < length (inst_heap t)" for b
    using that assms(2) by (cases "b = a") auto
  then show ?thesis using assms(1) by (elim tables_typed_step) (auto simp: set_inst_def heap_extends_def)
qed

lemma app_typed_put:
  assumes "app_typed t app" "insts_typed t x"
  shows "app_typed t (app\<lparr>da_Carriers := AList.update c x (da_Carriers app)\<rparr>)"
  using assms set_AList_update[of c x "da_Carriers app"] by (auto simp: app_typed_def)

lemma set_AList_delete: "set (AList.delete k m) \<subseteq> set m"
  by (auto simp: AList.delete_eq)

lemma app_typed_drop: "app_typed t app \<Longrightarrow> app_typed t (app\<lparr>da_Carriers := AList.delete c (da_Carriers app)\<rparr>)"
  using set_AList_delete[of c "da_Carriers app"] by (auto simp: app_typed_def)

lemma app_typed_get: "app_typed t app \<Longrightarrow> insts_typed t (get_or newDmeAppInsts (da_Carriers app) c)"
  unfolding get_or_def app_typed_def
  by (auto simp: newDmeAppInsts_def insts_typed_def split: option.split dest!: map_of_SomeD)

lemma app_typed_at: "app_typed t app \<Longrightarrow> map_of (da_Carriers app) c = Some x \<Longrightarrow> insts_typed t x"
  unfolding app_typed_def using map_of_SomeD by fastforce

lemma insts_typed_simps:
  "insts_typed t x \<Longrightarrow> insts_typed t (x\<lparr>AllianceInsts := AList.delete k (AllianceInsts x)\<rparr>)"
  "insts_typed t x \<Longrightarrow> insts_typed t (x\<lparr>Insts := AList.delete k (Insts x)\<rparr>)"
  "insts_typed t x \<Longrightarrow> insts_typed t (x\<lparr>Insts := filter P (Insts x)\<rparr>)"
  "insts_typed t x \<Longrightarrow> inst_typed t (k, a) \<Longrightarrow> insts_typed t (x\<lparr>AllianceInsts := AList.update k a (AllianceInsts x)\<rparr>)"
  "insts_typed t x \<Longrightarrow> inst_typed t (k, a) \<Longrightarrow> insts_typed t (x\<lparr>Insts := AList.update k a (Insts x)\<rparr>)"
  using set_AList_delete[of k "AllianceInsts x"] set_AList_delete[of k "Insts x"]
    set_AList_update[of k a "AllianceInsts x"] set_AList_update[of k a "Insts x"]
  by (auto simp: insts_typed_def)

lemma typed_fold: "(\<And>e u. e \<in> set es \<Longrightarrow> tables_typed u \<Longrightarrow> tables_typed (f e u)) \<Longrightarrow> tables_typed t \<Longrightarrow> tables_typed (fold f es t)"
  by (induction es arbitrary: t) auto

lemma set_app_heap [simp]: "inst_heap (set_app ak f t) = inst_heap t" "policy_heap (set_app ak f t) = policy_heap t"
  by (simp_all add: set_app_def split: option.split)

lemma inst_typed_heap: "inst_heap t' = inst_heap t \<Longrightarrow> inst_typed t' = inst_typed t"
  by (simp add: inst_typed_def fun_eq_iff)

lemma typed_addAppInstAlliance:
  assumes "tables_typed t" "inst_typed t (k, a)"
  shows "tables_typed (addAppInstAlliance ak k a c t)"
  unfolding addAppInstAlliance_def Let_def
  by (rule typed_set_app[OF assms(1)]) (intro app_typed_put insts_typed_simps app_typed_get assms(2))

lemma typed_fold_alliances:
  "tables_typed t \<Longrightarrow> inst_typed t (k, a) \<Longrightarrow> tables_typed (fold (addAppInstAlliance ak k a) cs t)"
proof (induction cs arbitrary: t)
  case (Cons c cs)
  have "inst_typed (addAppInstAlliance ak k a c t) = inst_typed t" by (rule inst_typed_heap) (simp add: addAppInstAlliance_def)
  then show ?case using Cons typed_addAppInstAlliance[OF Cons.prems] by simp
qed simp

lemma typed_removeAppInstAlliance:
  assumes "tables_typed t"
  shows "tables_typed (removeAppInstAlliance ak k c t)"
  unfolding removeAppInstAlliance_def
  by (rule typed_set_app[OF assms])
    (auto simp: Let_def split: option.split intro!: app_typed_put app_typed_drop insts_typed_simps elim: app_typed_at)

text \<open>What an operator's table holds is typed, so the marks of a handler keep the tables typed.\<close>

lemma typed_reset_insts: "tables_typed t \<Longrightarrow> tables_typed (reset_insts gone full ak carr t)"
  unfolding reset_insts_def by (rule typed_fold) (auto intro!: typed_set_inst split: prod.split)

lemma typed_send_if_usable [simp]: "tables_typed (send_if_usable send ak k a c t) = tables_typed t"
  by (simp add: send_if_usable_def)

subsection \<open>The handlers\<close>

lemma typed_add_policies:
  assumes "tables_typed t"
  shows "\<forall>e \<in> set m0. policy_typed t e \<Longrightarrow> \<forall>e \<in> set (add_policies t org names m0). policy_typed t e"
proof (induction names arbitrary: m0)
  case (Cons n names)
  have "policy_typed t (n, p)" if "map_of (AutoProvPolicies t) (n, org) = Some p" for p
    using map_of_SomeD[OF that] assms unfolding tables_typed_def by fastforce
  then have "\<forall>e \<in> set (if map_of m0 n \<noteq> None then m0 else case map_of (AutoProvPolicies t) (n, org) of None \<Rightarrow> m0 | Some pp \<Rightarrow> AList.update n pp m0). policy_typed t e"
    using Cons.prems set_AList_update[of n _ m0] by (auto split: option.split)
  from Cons.IH[OF this] show ?case by (simp add: add_policies_def)
qed (simp add: add_policies_def)

lemma typed_AddApp:
  assumes "tables_typed t" "AddApp m t = Some t'"
  shows "tables_typed t'"
proof -
  let ?old = "\<lambda>f. case map_of (Apps t) (app_Key m) of None \<Rightarrow> [] | Some app \<Rightarrow> f app"
  obtain app where app: "Apps t' = AList.update (app_Key m) app (Apps t)" "da_Carriers app = ?old da_Carriers"
    "da_AutoProvPolicies app = add_policies t (app_org (app_Key m)) (msg_policies m)
       (filter (\<lambda>(name, _). name \<in> set (msg_policies m)) (?old da_AutoProvPolicies))"
    using assms(2) by (auto simp: AddApp_def Let_def split: option.splits if_splits)
  have rest: "inst_heap t' = inst_heap t" "policy_heap t' = policy_heap t" "AutoProvPolicies t' = AutoProvPolicies t"
    using assms(2) by (auto simp: AddApp_def Let_def split: option.splits if_splits)
  have "\<forall>e \<in> set (?old da_Carriers). insts_typed t (snd e)" "\<forall>e \<in> set (?old da_AutoProvPolicies). policy_typed t e"
    using tables_typed_app[OF assms(1), of "app_Key m"]
    by (cases "map_of (Apps t) (app_Key m)"; simp add: app_typed_def)+
  then have "app_typed t app" unfolding app_typed_def app(2,3) by (intro conjI typed_add_policies[OF assms(1)]) (blast, fastforce)
  then have "app_typed t' app" by (rule typed_mono(4)[rotated]) (simp add: rest heap_extends_same)
  then show ?thesis using assms(1) set_AList_update[of "app_Key m" app "Apps t"]
    by (elim tables_typed_step) (auto simp: app(1) rest intro: heap_extends_same)
qed

lemma typed_RemoveApp: "tables_typed t \<Longrightarrow> tables_typed (RemoveApp k t)"
  using set_AList_delete[of k "Apps t"] by (auto simp: RemoveApp_def split: option.split elim!: tables_typed_sub)

lemma typed_PruneApps: "tables_typed t \<Longrightarrow> tables_typed (PruneApps ks t)"
  by (elim tables_typed_sub) (auto simp: PruneApps_def)

lemma tables_typed_cong:
  "Apps t' = Apps t \<Longrightarrow> AutoProvPolicies t' = AutoProvPolicies t \<Longrightarrow> inst_heap t' = inst_heap t \<Longrightarrow> policy_heap t' = policy_heap t \<Longrightarrow>
     tables_typed t' = tables_typed t"
  by (auto elim: tables_typed_sub)

lemma typed_fields [simp]:
  "tables_typed (t\<lparr>AppInstApps := x1\<rparr>) = tables_typed t" "tables_typed (t\<lparr>CarriersByAppInst := x2\<rparr>) = tables_typed t"
  "tables_typed (t\<lparr>Cloudlets := x3\<rparr>) = tables_typed t" "tables_typed (t\<lparr>CloudletLocsByZone := x4\<rparr>) = tables_typed t"
  "tables_typed (t\<lparr>FreeReservableClusterInsts := x5\<rparr>) = tables_typed t" "tables_typed (t\<lparr>autoProvStats := x6\<rparr>) = tables_typed t"
  by (rule tables_typed_cong; simp)+

lemma inst_typed_fields [simp]:
  "inst_typed (emit ev t) = inst_typed t" "inst_typed (t\<lparr>Cloudlets := x3\<rparr>) = inst_typed t"
  by (rule inst_typed_heap; simp add: emit_def)+

lemma inst_typed_set_inst [simp]: "(\<And>i. di_key (f i) = di_key i) \<Longrightarrow> inst_typed (set_inst a f t) e = inst_typed t e"
  by (cases "snd e = a") (auto simp: inst_typed_def set_inst_def nth_list_update)

lemma typed_find_or_add_inst:
  assumes "tables_typed t" "map_of (Apps t) (ai_AppKey m) = Some app" "find_or_add_inst m app t = (t', a, found)"
  shows "tables_typed t'" "inst_typed t' (ai_Key m, a)"
proof -
  let ?insts = "get_or newDmeAppInsts (da_Carriers app) (cloudlet_org (ai_CloudletKey m))"
  have i: "insts_typed t ?insts" by (rule app_typed_get[OF tables_typed_app[OF assms(1,2)]])
  have "tables_typed t' \<and> inst_typed t' (ai_Key m, a)"
  proof (cases "map_of (Insts ?insts) (ai_Key m)")
    case (Some b)
    then have "inst_typed t (ai_Key m, b)" using i map_of_SomeD[OF Some] by (auto simp: insts_typed_def)
    moreover have "t' = set_app (ai_AppKey m) (\<lambda>app. app\<lparr>da_Carriers := AList.update (cloudlet_org (ai_CloudletKey m)) ?insts (da_Carriers app)\<rparr>) t" "a = b"
      using assms(3) Some by (simp_all add: find_or_add_inst_def Let_def)
    ultimately show ?thesis using typed_set_app[OF assms(1) app_typed_put[OF _ i]] by (simp add: inst_typed_def)
  next
    case None
    let ?u = "t\<lparr>inst_heap := inst_heap t @ [new_inst (ai_Key m)]\<rparr>"
    let ?new = "?insts\<lparr>Insts := AList.update (ai_Key m) (length (inst_heap t)) (Insts ?insts)\<rparr>"
    have u: "heap_extends t ?u" by (auto simp: heap_extends_def nth_append)
    then have "tables_typed ?u" using assms(1) by (elim tables_typed_step) auto
    moreover have n: "inst_typed ?u (ai_Key m, length (inst_heap t))" by (simp add: inst_typed_def new_inst_def)
    then have "insts_typed ?u ?new" by (rule insts_typed_simps(5)[OF typed_mono(2)[OF u i]])
    moreover have "t' = set_app (ai_AppKey m) (\<lambda>app. app\<lparr>da_Carriers := AList.update (cloudlet_org (ai_CloudletKey m)) ?new (da_Carriers app)\<rparr>) ?u"
      "a = length (inst_heap t)"
      using assms(3) None by (auto simp: find_or_add_inst_def Let_def)
    ultimately show ?thesis using typed_set_app[of ?u] app_typed_put[of ?u] n by (simp add: inst_typed_def)
  qed
  then show "tables_typed t'" "inst_typed t' (ai_Key m, a)" by simp_all
qed

lemma typed_AddAppInst:
  assumes "tables_typed t"
  shows "tables_typed (AddAppInst m t)"
proof (cases "map_of (Apps t) (ai_AppKey m)")
  case None
  then show ?thesis using assms by (simp add: AddAppInst_def)
next
  case (Some app)
  let ?t0 = "t\<lparr>AppInstApps := AList.update (ai_Key m) (ai_AppKey m) (AppInstApps t),
               CarriersByAppInst := AList.update (ai_Key m) (ai_CloudletKey m) (CarriersByAppInst t)\<rparr>"
  obtain t1 a found where f: "find_or_add_inst m app ?t0 = (t1, a, found)" by (metis prod_cases3)
  have "tables_typed ?t0" "map_of (Apps ?t0) (ai_AppKey m) = Some app" using assms Some by simp_all
  note ty = typed_find_or_add_inst[OF this f]
  then show ?thesis
    by (simp add: AddAppInst_def Let_def Some f split: option.split)
      (auto intro!: typed_fold_alliances typed_set_inst ty)
qed

lemma insts_typed_fields [simp]:
  "insts_typed (emit ev t) = insts_typed t" "(\<And>i. di_key (f i) = di_key i) \<Longrightarrow> insts_typed (set_inst a f t) = insts_typed t"
  by (simp_all add: insts_typed_def fun_eq_iff)

lemma typed_drop_inst:
  assumes "tables_typed t"
  shows "tables_typed (drop_inst k ak c t)"
proof -
  have "insts_typed t x" if "map_of (Apps t) ak = Some app" "map_of (da_Carriers app) c = Some x" for app x
    by (rule app_typed_at[OF tables_typed_app[OF assms that(1)] that(2)])
  then show ?thesis using assms
    by (auto simp: drop_inst_def Let_def split: option.split
        intro!: typed_set_app typed_set_inst app_typed_put app_typed_drop insts_typed_simps)
qed

lemma typed_RemoveAppInst: "tables_typed t \<Longrightarrow> tables_typed (RemoveAppInst k t)"
  by (auto simp: RemoveAppInst_def Let_def split: option.split intro!: typed_fold typed_removeAppInstAlliance typed_drop_inst)

lemma fold_events: "(\<And>e u. f e u = u\<lparr>events := events (f e u)\<rparr>) \<Longrightarrow> fold f es t = t\<lparr>events := events (fold f es t)\<rparr>"
proof (induction es arbitrary: t)
  case (Cons e es)
  have "fold f es (f e t) = (f e t)\<lparr>events := events (fold f es (f e t))\<rparr>" by (rule Cons.IH[OF Cons.prems])
  also have "\<dots> = t\<lparr>events := events (fold f es (f e t))\<rparr>" by (subst Cons.prems) simp
  finally show ?case by simp
qed simp

lemma events_typed [simp]: "tables_typed (t\<lparr>events := x\<rparr>) = tables_typed t" "insts_typed (t\<lparr>events := x\<rparr>) = insts_typed t"
  by (rule tables_typed_cong) (simp_all add: insts_typed_def inst_typed_def fun_eq_iff)

lemma prune_carrier_effect:
  "\<exists>x. prune_carrier ks ak (c, carr) t = set_app ak (\<lambda>app. app\<lparr>da_Carriers :=
       (if filter (\<lambda>(key, _). key \<in> set ks) (Insts carr) = [] then AList.delete c (da_Carriers app)
        else AList.update c (carr\<lparr>Insts := filter (\<lambda>(key, _). key \<in> set ks) (Insts carr)\<rparr>) (da_Carriers app))\<rparr>) (t\<lparr>events := x\<rparr>)"
proof -
  let ?step = "\<lambda>(key, a) t. if key \<in> set ks then t
      else emit (EE_RemoveAppInst key) (emit (SendAppInstStateEdgeEvent (no_state\<lparr>st_AppInstHealth := di_AppInstHealth (inst t a)\<rparr>) key ak EVENT_APPINST_HEALTH) t)"
  have "fold ?step (Insts carr) t = t\<lparr>events := events (fold ?step (Insts carr) t)\<rparr>"
    by (rule fold_events) (simp add: emit_def split: prod.split)
  then obtain x where "fold ?step (Insts carr) t = t\<lparr>events := x\<rparr>" by blast
  then show ?thesis by (intro exI[of _ x]) (simp add: prune_carrier_def Let_def)
qed

lemma prune_carrier_heap: "inst_heap (prune_carrier ks ak e t) = inst_heap t"
  using prune_carrier_effect[of ks ak "fst e" "snd e" t] by auto

lemma typed_prune_carrier:
  assumes "tables_typed t" "insts_typed t (snd e)"
  shows "tables_typed (prune_carrier ks ak e t)"
proof -
  have "insts_typed (t\<lparr>events := x\<rparr>) ((snd e)\<lparr>Insts := filter (\<lambda>(key, _). key \<in> set ks) (Insts (snd e))\<rparr>)" for x
    using assms(2) by (simp add: insts_typed_simps)
  then show ?thesis using prune_carrier_effect[of ks ak "fst e" "snd e" t] assms(1)
    by (auto intro!: typed_set_app app_typed_put app_typed_drop)
qed

lemma typed_PruneAppInsts:
  assumes "tables_typed t"
  shows "tables_typed (PruneAppInsts ks t)"
proof -
  have carriers: "tables_typed (fold (prune_carrier ks ak) es u) \<and> inst_heap (fold (prune_carrier ks ak) es u) = inst_heap u"
    if "tables_typed u" "\<forall>e \<in> set es. insts_typed u (snd e)" for ak es u
    using that
  proof (induction es arbitrary: u)
    case (Cons e es)
    have "insts_typed (prune_carrier ks ak e u) = insts_typed u"
      by (auto simp: insts_typed_def inst_typed_heap[OF prune_carrier_heap] fun_eq_iff)
    then show ?case using Cons typed_prune_carrier[of u e ks ak] by (simp add: prune_carrier_heap)
  qed simp
  have apps: "tables_typed (fold (\<lambda>(ak, app). fold (prune_carrier ks ak) (da_Carriers app)) es u)"
    if "tables_typed u" "\<forall>e \<in> set es. app_typed t (snd e)" "inst_heap u = inst_heap t" for es u
    using that
  proof (induction es arbitrary: u)
    case (Cons e es)
    obtain ak app where e: "e = (ak, app)" by (cases e)
    have "insts_typed u = insts_typed t" by (auto simp: insts_typed_def inst_typed_heap[OF Cons.prems(3)] fun_eq_iff)
    then have "\<forall>x \<in> set (da_Carriers app). insts_typed u (snd x)" using Cons.prems(2) by (simp add: e app_typed_def)
    from carriers[OF Cons.prems(1) this, of ak] show ?case using Cons.IH Cons.prems(2,3) by (simp add: e)
  qed simp
  have "\<forall>e \<in> set (Apps t). app_typed t (snd e)" using assms by (simp add: tables_typed_def)
  from apps[OF assms this] show ?thesis by (simp add: PruneAppInsts_def Let_def)
qed

lemma typed_inst_at:
  assumes "tables_typed t" "inst_at t ak c k = Some a \<or> alliance_at t ak c k = Some a"
  shows "inst_typed t (k, a)"
proof -
  obtain app x where x: "map_of (Apps t) ak = Some app" "map_of (da_Carriers app) c = Some x"
    "map_of (Insts x) k = Some a \<or> map_of (AllianceInsts x) k = Some a"
    using assms(2) by (auto simp: inst_at_def alliance_at_def carrier_at_def split: option.splits)
  have "insts_typed t x" by (rule app_typed_at[OF tables_typed_app[OF assms(1) x(1)] x(2)])
  then show ?thesis using x(3) by (auto simp: insts_typed_def dest: map_of_SomeD)
qed

lemma typed_getTable: "tables_typed t \<Longrightarrow> getTableAppInstAndLock ak k c t = Inr a \<Longrightarrow> inst_typed t (k, a)"
  by (rule typed_inst_at[of t ak c]) (auto simp: getTableAppInstAndLock_def inst_at_def carrier_at_def split: option.splits)

lemma typed_update_cloudlet_inst: "tables_typed t \<Longrightarrow> tables_typed (update_cloudlet_inst ms send c new old e t)"
  by (auto simp: update_cloudlet_inst_def send_if_usable_def Let_def split: prod.split sum.split
      intro!: typed_fold[of old] typed_removeAppInstAlliance typed_fold_alliances typed_set_inst dest: typed_getTable)

lemma typed_info_cloudlet_inst: "tables_typed t \<Longrightarrow> tables_typed (info_cloudlet_inst st ms send c e t)"
  by (auto simp: info_cloudlet_inst_def split: prod.split sum.split intro!: typed_set_inst)

lemma typed_track_location [simp]: "tables_typed (track_location k z z' l t) = tables_typed t"
  by (simp add: track_location_def Let_def)

lemma typed_SetInstStateFromCloudlet: "tables_typed t \<Longrightarrow> tables_typed (SetInstStateFromCloudlet m t)"
  by (auto simp: SetInstStateFromCloudlet_def Let_def split: prod.split option.split intro!: typed_fold typed_update_cloudlet_inst)

lemma typed_SetInstStateFromCloudletInfo: "tables_typed t \<Longrightarrow> tables_typed (SetInstStateFromCloudletInfo m t)"
  by (auto simp: SetInstStateFromCloudletInfo_def Let_def split: prod.split option.split intro!: typed_fold typed_info_cloudlet_inst)

lemma typed_DeleteCloudletInfo: "tables_typed t \<Longrightarrow> tables_typed (DeleteCloudletInfo ks k t)"
  by (auto simp: DeleteCloudletInfo_def Let_def split: prod.split option.split intro!: typed_fold typed_reset_insts)

lemma typed_PruneCloudlets: "tables_typed t \<Longrightarrow> tables_typed (PruneCloudlets cs t)"
  by (auto simp: PruneCloudlets_def Let_def split: prod.split intro!: typed_fold typed_reset_insts)

lemma typed_PruneInstsCloudletState: "tables_typed t \<Longrightarrow> tables_typed (PruneInstsCloudletState cs t)"
  by (auto simp: PruneInstsCloudletState_def split: prod.split intro!: typed_fold typed_reset_insts)

lemma typed_policy_Update:
  assumes "tables_typed t"
  shows "tables_typed (policy_Update m t)"
proof (cases "map_of (AutoProvPolicies t) (pol_Key m)")
  case None
  then show ?thesis
    using assms set_AList_update[of "pol_Key m" "length (policy_heap t)" "AutoProvPolicies t"]
    by (elim tables_typed_step) (auto simp: policy_Update_def heap_extends_def nth_append policy_typed_def)
next
  case (Some a)
  have "policy_typed t (fst (pol_Key m), a)" using map_of_SomeD[OF Some] assms unfolding tables_typed_def by fastforce
  then have "heap_extends t (policy_Update m t)"
    by (auto simp: policy_Update_def Some heap_extends_def policy_typed_def nth_list_update)
  then show ?thesis using assms by (elim tables_typed_step) (auto simp: policy_Update_def Some)
qed

lemma typed_policy_Delete: "tables_typed t \<Longrightarrow> tables_typed (policy_Delete k t)"
  using set_AList_delete[of k "AutoProvPolicies t"] by (elim tables_typed_sub) (auto simp: policy_Delete_def)

lemma typed_policy_Prune: "tables_typed t \<Longrightarrow> tables_typed (policy_Prune ks t)"
  by (elim tables_typed_sub) (auto simp: policy_Prune_def)

lemmas typed_handlers =
  typed_AddApp typed_RemoveApp typed_PruneApps typed_AddAppInst typed_RemoveAppInst typed_PruneAppInsts typed_SetInstStateFromCloudlet
  typed_DeleteCloudletInfo typed_PruneCloudlets typed_SetInstStateFromCloudletInfo typed_PruneInstsCloudletState
  typed_policy_Update typed_policy_Delete typed_policy_Prune

lemma typed_step: "tables_typed t \<Longrightarrow> dme_step ks c t = Some t' \<Longrightarrow> tables_typed t'"
  by (cases c) (auto simp: CloudletInfoHandler_Delete_def intro: typed_handlers)

lemma typed_run: "tables_typed t \<Longrightarrow> dme_run ks ops t = Some t' \<Longrightarrow> tables_typed t'"
  by (induction ops arbitrary: t) (auto split: option.splits dest: typed_step)

text \<open>
  (C21) Whatever messages arrive, in whatever order, the tables stay typed: an instance found in the table of an operator or of an ally, and
  a policy found on an application, is an allocated object and carries the key it is stored under.
\<close>

theorem tables_hold_their_keys:
  assumes "dme_run ks ops SetupMatchEngine = Some t"
  shows "(inst_at t ak c k = Some a \<or> alliance_at t ak c k = Some a \<longrightarrow> a < length (inst_heap t) \<and> di_key (inst t a) = k)
    \<and> (map_of (Apps t) ak = Some app \<longrightarrow> map_of (da_AutoProvPolicies app) name = Some p \<longrightarrow>
         p < length (policy_heap t) \<and> dp_Name (policy_heap t ! p) = name)"
proof -
  have "tables_typed SetupMatchEngine" by (simp add: tables_typed_def SetupMatchEngine_def)
  from typed_run[OF this assms] have ty: "tables_typed t" .
  have "inst_typed t (k, a)" if "inst_at t ak c k = Some a \<or> alliance_at t ak c k = Some a"
    by (rule typed_inst_at[OF ty that])
  moreover have "policy_typed t (name, p)" if "map_of (Apps t) ak = Some app" "map_of (da_AutoProvPolicies app) name = Some p"
    using tables_typed_app[OF ty that(1)] map_of_SomeD[OF that(2)] unfolding app_typed_def by blast
  ultimately show ?thesis by (auto simp: inst_typed_def policy_typed_def)
qed

theorem tables_hold_their_keys_witness:
  "\<exists>t a. dme_run (\<lambda>_. []) ex_setup SetupMatchEngine = Some t \<and> alliance_at t ex_dme_app ''operB'' (''i1'', ''dev'') = Some a
     \<and> di_key (inst t a) = (''i1'', ''dev'')"
proof -
  let ?t = "the (dme_run (\<lambda>_. []) ex_setup SetupMatchEngine)"
  have "dme_run (\<lambda>_. []) ex_setup SetupMatchEngine \<noteq> None \<and> alliance_at ?t ex_dme_app ''operB'' (''i1'', ''dev'') \<noteq> None"
    by code_simp
  then have "dme_run (\<lambda>_. []) ex_setup SetupMatchEngine = Some ?t"
    "alliance_at ?t ex_dme_app ''operB'' (''i1'', ''dev'') = Some (the (alliance_at ?t ex_dme_app ''operB'' (''i1'', ''dev'')))"
    by (simp_all only: option.collapse simp_thms)
  with tables_hold_their_keys[OF this(1)] show ?thesis by blast
qed

end
