(* ===== verification/MatchSearch.thy ===== *)
theory MatchSearch
  imports MatchTables Float64 "HOL-Library.Product_Lexorder"
begin

text \<open>
  The searches of the matching engine (\<^verbatim>\<open>pkg/uaem-common/match-engine.go\<close>): the nearest instances of an application that a
  client of some operator may use, and the site where auto-provisioning should put one. Distances are floats, given as in
  \<open>Float64\<close> by the rational they denote; the great-circle distance of \<^verbatim>\<open>distance.go\<close>, which Go's trigonometric functions
  decide in the last bit, is an argument, as are the text of a key, the random draws, the hash of the counters and the signed
  cookie of a reply. Every search runs under the read lock of the tables, so the heap is fixed; the only thing it writes is a client counter.
\<close>

subsection \<open>Results\<close>

record search_env =
  DistanceBetween :: "Loc \<Rightarrow> Loc \<Rightarrow> rat"
  KeyString :: "AppInstKey \<Rightarrow> string"
  RandomizeVeryClose :: bool
  coin :: "nat \<Rightarrow> bool"
  stats_hash :: "AppKey \<times> ZoneKey \<Rightarrow> nat"

record foundAppInst =
  fi_distance :: rat
  fi_AppInst :: nat
  fi_appInstCarrier :: string

text \<open>The search with its results so far; \<open>sa_draws\<close> counts the random numbers drawn.\<close>

record searchAppInst =
  sa_loc :: Loc
  sa_reqCarrier :: string
  sa_results :: "foundAppInst list"
  sa_appDeployment :: string
  sa_resultDist :: rat
  sa_resultLimit :: nat
  sa_draws :: nat

definition VeryCloseDistanceKm :: rat where "VeryCloseDistanceKm = 1"

definition InfiniteDistance :: rat where "InfiniteDistance = 100000"

definition public_cloud :: "string \<Rightarrow> bool" where
  "public_cloud carrier = (carrier = ''azure'' \<or> carrier = ''gcp'' \<or> carrier = ''aws'')"

definition searchCarrier :: "string \<Rightarrow> string \<Rightarrow> bool" where
  "searchCarrier reqCarrier carrier = (if reqCarrier = [] then True else if public_cloud carrier then True else reqCarrier = carrier)"

definition padDistance :: "string \<Rightarrow> string \<Rightarrow> rat" where
  "padDistance reqCarrier carrier =
     (if public_cloud carrier then if reqCarrier = [] \<or> reqCarrier = carrier then 0 else 100 else 0)"

definition found_less :: "search_env \<Rightarrow> DmeApps \<Rightarrow> foundAppInst \<Rightarrow> foundAppInst \<Rightarrow> bool" where
  "found_less env t f1 f2 =
     (if fi_distance f1 = fi_distance f2
      then KeyString env (di_key (inst t (fi_AppInst f1))) < KeyString env (di_key (inst t (fi_AppInst f2)))
      else fi_distance f1 < fi_distance f2)"

definition veryClose :: "foundAppInst \<Rightarrow> foundAppInst \<Rightarrow> bool" where
  "veryClose f1 f2 =
     (if fi_distance f1 > fi_distance f2 then fl (fi_distance f1 - fi_distance f2) < VeryCloseDistanceKm
      else fl (fi_distance f2 - fi_distance f1) < VeryCloseDistanceKm)"

text \<open>The loop of \<^verbatim>\<open>insertResult\<close>: the index to insert at, and the random numbers drawn.\<close>

fun insert_slot :: "search_env \<Rightarrow> DmeApps \<Rightarrow> foundAppInst \<Rightarrow> foundAppInst list \<Rightarrow> nat \<Rightarrow> nat \<Rightarrow> nat option \<times> nat" where
  "insert_slot env t found [] ii n = (None, n)"
| "insert_slot env t found (ai # rest) ii n =
     (if veryClose found ai \<and> RandomizeVeryClose env then
        if coin env n then insert_slot env t found rest (Suc ii) (Suc n) else (Some ii, Suc n)
      else if \<not> found_less env t found ai then insert_slot env t found rest (Suc ii) n
      else (Some ii, n))"

definition insertResult :: "search_env \<Rightarrow> DmeApps \<Rightarrow> foundAppInst \<Rightarrow> searchAppInst \<Rightarrow> searchAppInst" where
  "insertResult env t found s =
     (let results = sa_results s; (slot, n) = insert_slot env t found results 0 (sa_draws s); s = s\<lparr>sa_draws := n\<rparr>
      in case slot of
           Some ii \<Rightarrow>
             (let count = (if length results \<ge> sa_resultLimit s then length results - 1 else length results);
                  shifted = take (Suc ii) results @ take (count - ii) (drop ii results)
              in s\<lparr>sa_results := shifted[ii := found]\<rparr>)
         | None \<Rightarrow> if length results < sa_resultLimit s then s\<lparr>sa_results := results @ [found]\<rparr> else s)"

definition candidate :: "search_env \<Rightarrow> DmeApps \<Rightarrow> Loc \<Rightarrow> string \<Rightarrow> string \<Rightarrow> nat \<Rightarrow> foundAppInst" where
  "candidate env t loc reqCarrier carrier a =
     \<lparr>fi_distance = fl (DistanceBetween env loc (di_Location (inst t a)) + padDistance reqCarrier carrier), fi_AppInst = a, fi_appInstCarrier = carrier\<rparr>"

definition searchAppInsts :: "search_env \<Rightarrow> DmeApps \<Rightarrow> string \<Rightarrow> (AppInstKey, nat) gomap \<Rightarrow> searchAppInst \<Rightarrow> searchAppInst" where
  "searchAppInsts env t carrier appInsts s =
     (if \<not> searchCarrier (sa_reqCarrier s) carrier then s
      else fold (\<lambda>(_, a) s.
        let found = candidate env t (sa_loc s) (sa_reqCarrier s) carrier a
        in if \<not> IsAppInstUsable (inst t a) then s else insertResult env t found s) appInsts s)"

subsection \<open>Potential sites\<close>

record policySearch =
  ps_distance :: rat
  ps_policy :: DmePolicy
  ps_zone :: "ZoneKey option"
  ps_freeInst :: bool
  ps_carrier :: string

definition searchPolicyCloudlet ::
  "search_env \<Rightarrow> DmeApps \<Rightarrow> searchAppInst \<Rightarrow> string \<Rightarrow> ZoneKey \<Rightarrow> CloudletKey \<times> Loc \<Rightarrow> policySearch \<Rightarrow> policySearch" where
  "searchPolicyCloudlet env t s carrier zkey e potential =
     (case e of (clkey, loc) \<Rightarrow>
        let pd = fl (DistanceBetween env (sa_loc s) loc + padDistance (sa_reqCarrier s) carrier)
        in if pd \<ge> sa_resultDist s then potential
           else
             let freeInst = (GetForCloudlet clkey (sa_appDeployment s) AppInstToClusterDeployment (FreeReservableClusterInsts t) \<noteq> [])
             in if ps_freeInst potential \<and> \<not> freeInst then potential
                else if ps_freeInst potential = freeInst \<and> pd > ps_distance potential then potential
                else potential\<lparr>ps_distance := pd, ps_freeInst := freeInst, ps_zone := Some zkey, ps_carrier := carrier\<rparr>)"

definition searchPolicyZones ::
  "search_env \<Rightarrow> DmeApps \<Rightarrow> searchAppInst \<Rightarrow> string \<times> ZoneKey list \<Rightarrow> policySearch \<Rightarrow> policySearch" where
  "searchPolicyZones env t s e potential =
     (case e of (carrier, zs) \<Rightarrow>
        if \<not> searchCarrier (sa_reqCarrier s) carrier then potential
        else fold (\<lambda>zkey potential. case map_of (CloudletLocsByZone t) zkey of None \<Rightarrow> potential
               | Some clist \<Rightarrow> fold (searchPolicyCloudlet env t s carrier zkey) clist potential) zs potential)"

definition intervalCount :: "DmePolicy \<Rightarrow> uint32" where
  "intervalCount policy = (if dp_IntervalCount policy = 0 then 1 else dp_IntervalCount policy)"

definition better_policy :: "policySearch \<Rightarrow> policySearch option \<Rightarrow> policySearch option" where
  "better_policy pc best =
     (case best of None \<Rightarrow> Some pc
      | Some b \<Rightarrow>
          if ps_distance pc > ps_distance b then best
          else if ps_distance pc = ps_distance b \<and> intervalCount (ps_policy pc) > intervalCount (ps_policy b) then best
          else if ps_distance pc = ps_distance b \<and> dp_DeployClientCount (ps_policy pc) > dp_DeployClientCount (ps_policy b) then best
          else Some pc)"

definition getBestPotentialCloudlet :: "policySearch list \<Rightarrow> policySearch option" where
  "getBestPotentialCloudlet ps = fold better_policy ps None"

definition search_policy :: "search_env \<Rightarrow> DmeApps \<Rightarrow> searchAppInst \<Rightarrow> DmePolicy \<Rightarrow> policySearch" where
  "search_policy env t s policy =
     fold (searchPolicyZones env t s) (dp_Zones policy)
       \<lparr>ps_distance = sa_resultDist s, ps_policy = policy, ps_zone = None, ps_freeInst = False, ps_carrier = []\<rparr>"

subsection \<open>The search\<close>

definition new_search :: "Loc \<Rightarrow> string \<Rightarrow> DmeApp \<Rightarrow> nat \<Rightarrow> searchAppInst" where
  "new_search loc carrierName app resultLimit =
     \<lparr>sa_loc = loc, sa_reqCarrier = carrierName, sa_results = [], sa_appDeployment = da_Deployment app, sa_resultDist = 0,
      sa_resultLimit = resultLimit, sa_draws = 0\<rparr>"

definition search_carriers :: "search_env \<Rightarrow> DmeApps \<Rightarrow> string \<Rightarrow> DmeApp \<Rightarrow> searchAppInst \<Rightarrow> searchAppInst" where
  "search_carriers env t carrierName app s =
     fold (\<lambda>(cname, carrierData) s.
       let s = searchAppInsts env t cname (Insts carrierData) s
       in if carrierName \<noteq> [] then searchAppInsts env t cname (AllianceInsts carrierData) s else s) (da_Carriers app) s"

definition SearchAppInsts :: "search_env \<Rightarrow> string \<Rightarrow> DmeApp \<Rightarrow> Loc \<Rightarrow> nat \<Rightarrow> DmeApps \<Rightarrow> foundAppInst list \<times> DmeApps" where
  "SearchAppInsts env carrierName app loc resultLimit t =
     (let s = search_carriers env t carrierName app (new_search loc carrierName app resultLimit);
          results = sa_results s
      in if da_AutoProvPolicies app = [] then (results, t)
         else
           let s = s\<lparr>sa_resultDist := (case results of [] \<Rightarrow> InfiniteDistance | f # _ \<Rightarrow> fi_distance f)\<rparr>;
               policies = filter (\<lambda>policy. dp_DeployClientCount policy \<noteq> 0) (map (\<lambda>(_, p). policy_heap t ! p) (da_AutoProvPolicies app));
               potential = getBestPotentialCloudlet (map (search_policy env t s) policies)
           in (results,
               case potential of None \<Rightarrow> t
               | Some pc \<Rightarrow>
                   (case ps_zone pc of None \<Rightarrow> t
                    | Some z \<Rightarrow> t\<lparr>autoProvStats :=
                        map_option (stats_Increment (stats_hash env) (da_AppKey app) z (ps_policy pc)) (autoProvStats t)\<rparr>)))"

definition translateCarrierName :: "DmeApps \<Rightarrow> string \<Rightarrow> string" where
  "translateCarrierName t carrierName = (case map_of (OperatorCodes t) carrierName of None \<Rightarrow> carrierName | Some org \<Rightarrow> org)"

definition findBestForCarrier ::
  "search_env \<Rightarrow> string \<Rightarrow> AppKey \<Rightarrow> Loc \<Rightarrow> nat \<Rightarrow> DmeApps \<Rightarrow> foundAppInst list \<times> DmeApp option \<times> DmeApps" where
  "findBestForCarrier env carrierName key loc resultLimit t =
     (case map_of (Apps t) key of None \<Rightarrow> ([], None, t)
      | Some app \<Rightarrow>
          case SearchAppInsts env (translateCarrierName t carrierName) app loc resultLimit t of (results, t) \<Rightarrow> (results, Some app, t))"

subsection \<open>Replies\<close>

record EdgeEventsCookieKey =
  ee_AppInstName :: string
  ee_ClusterOrg :: string
  ee_ClusterName :: string
  ee_CloudletOrg :: string
  ee_CloudletName :: string
  ee_Location :: Loc
  ee_Kid :: int

definition CreateEdgeEventsCookieKey :: "DmeAppInst \<Rightarrow> Loc \<Rightarrow> EdgeEventsCookieKey" where
  "CreateEdgeEventsCookieKey appInst loc =
     \<lparr>ee_AppInstName = fst (di_key appInst), ee_ClusterOrg = snd (di_clusterKey appInst), ee_ClusterName = fst (di_clusterKey appInst),
      ee_CloudletOrg = cloudlet_org (di_cloudletKey appInst), ee_CloudletName = fst (di_cloudletKey appInst), ee_Location = loc, ee_Kid = 0\<rparr>"

record AppPort =
  ap_Proto :: LProto
  ap_InternalPort :: int
  ap_PublicPort :: int
  ap_FqdnPrefix :: string
  ap_EndPort :: int
  ap_Tls :: bool
  ap_Nginx :: bool
  ap_MaxPktSize :: int

definition copyPorts :: "MappedPort list \<Rightarrow> AppPort list" where
  "copyPorts cports =
     map (\<lambda>cp. \<lparr>ap_Proto = ip_Proto cp, ap_InternalPort = ip_InternalPort cp, ap_PublicPort = mp_PublicPort cp, ap_FqdnPrefix = mp_FqdnPrefix cp,
                ap_EndPort = ip_EndPort cp, ap_Tls = ip_Tls cp, ap_Nginx = ip_Nginx cp, ap_MaxPktSize = ip_MaxPktSize cp\<rparr>)
       (filter (\<lambda>cp. \<not> ip_InternalVisOnly cp) cports)"

datatype FindStatus = FIND_UNKNOWN | FIND_FOUND | FIND_NOTFOUND

record FindCloudletReply =
  fr_Status :: FindStatus
  fr_Fqdn :: string
  fr_Ports :: "AppPort list"
  fr_CloudletLocation :: Loc
  fr_EdgeEventsCookie :: string
  fr_Tags :: "(string, string) gomap"

record StatKey =
  sk_AppKey :: AppKey
  sk_AppInstFound :: AppInstKey
  sk_ZoneFound :: ZoneKey
  sk_Carrier :: string
  sk_Method :: string

definition updateContextWithCloudletDetails :: "DmeAppInst \<Rightarrow> string \<Rightarrow> StatKey option \<Rightarrow> StatKey option" where
  "updateContextWithCloudletDetails appInst carrier statKey =
     map_option (\<lambda>k. k\<lparr>sk_AppInstFound := di_key appInst, sk_ZoneFound := di_zoneKey appInst, sk_Carrier := carrier\<rparr>) statKey"

definition ConstructFindCloudletReplyFromDmeAppInst ::
  "(EdgeEventsCookieKey \<Rightarrow> string) \<Rightarrow> DmeAppInst \<Rightarrow> Loc \<Rightarrow> FindCloudletReply \<Rightarrow> FindCloudletReply" where
  "ConstructFindCloudletReplyFromDmeAppInst cookie appinst clientloc mreply =
     mreply\<lparr>fr_Fqdn := di_Uri appinst, fr_Status := FIND_FOUND, fr_CloudletLocation := di_Location appinst, fr_Ports := copyPorts (di_ports appinst),
            fr_EdgeEventsCookie := cookie (CreateEdgeEventsCookieKey appinst clientloc),
            fr_Tags := AList.update ''appinstorg'' (snd (di_key appinst)) (AList.update ''appinst'' (fst (di_key appinst)) (fr_Tags mreply))\<rparr>"

definition IsPlatformApp :: "string \<Rightarrow> string \<Rightarrow> bool" where
  "IsPlatformApp devname appname = (devname @ '':'' @ appname = ''platos:PlatosEnablingLayer'')"

definition FindCloudlet ::
  "search_env \<Rightarrow> (EdgeEventsCookieKey \<Rightarrow> string) \<Rightarrow> AppKey \<Rightarrow> string \<Rightarrow> Loc \<Rightarrow> StatKey option \<Rightarrow> FindCloudletReply \<Rightarrow> DmeApps
     \<Rightarrow> FindCloudletReply \<times> StatKey option \<times> DmeApp option \<times> DmeApps" where
  "FindCloudlet env cookie appkey carrier loc statKey mreply t =
     (let mreply = mreply\<lparr>fr_Status := FIND_NOTFOUND, fr_CloudletLocation := \<lparr>Latitude = 0, Longitude = 0\<rparr>\<rparr>
      in if IsPlatformApp (fst appkey) (fst (snd appkey)) then (mreply, statKey, None, t)
         else case findBestForCarrier env carrier appkey loc 1 t of (results, app, t') \<Rightarrow>
           (case results of [] \<Rightarrow> (mreply, statKey, app, t')
            | best # _ \<Rightarrow>
                (ConstructFindCloudletReplyFromDmeAppInst cookie (inst t (fi_AppInst best)) loc mreply,
                 updateContextWithCloudletDetails (inst t (fi_AppInst best)) (fi_appInstCarrier best) statKey, app, t')))"

record AppInstanceReply =
  air_AppName :: string
  air_AppVers :: string
  air_OrgName :: string
  air_Fqdn :: string
  air_Ports :: "AppPort list"
  air_EdgeEventsCookie :: string

record CloudletLocationReply =
  clr_GpsLocation :: Loc
  clr_CarrierName :: string
  clr_CloudletName :: string
  clr_Distance :: rat
  clr_Appinstances :: "AppInstanceReply list"

text \<open>Grouped by cloudlet in the order of the first instance found on it.\<close>

definition GetAppInstList ::
  "search_env \<Rightarrow> (EdgeEventsCookieKey \<Rightarrow> string) \<Rightarrow> AppKey \<Rightarrow> string \<Rightarrow> Loc \<Rightarrow> uint32 \<Rightarrow> DmeApps \<Rightarrow> CloudletLocationReply list \<times> DmeApps" where
  "GetAppInstList env cookie appkey carrierName loc limit t =
     (let resultLimit = (if unat limit = 0 then 3 else unat limit)
      in case findBestForCarrier env carrierName appkey loc resultLimit t of (results, app, t') \<Rightarrow>
        (map snd (fold (\<lambda>found clouds.
           let i = inst t (fi_AppInst found);
               cloc = (case map_of clouds (di_cloudletKey i) of Some cloc \<Rightarrow> cloc
                 | None \<Rightarrow> \<lparr>clr_GpsLocation = di_Location i, clr_CarrierName = cloudlet_org (di_cloudletKey i), clr_CloudletName = fst (di_cloudletKey i),
                            clr_Distance = fi_distance found, clr_Appinstances = []\<rparr>);
               ai = \<lparr>air_AppName = fst (snd appkey), air_AppVers = snd (snd appkey), air_OrgName = fst appkey, air_Fqdn = di_Uri i,
                     air_Ports = copyPorts (di_ports i), air_EdgeEventsCookie = cookie (CreateEdgeEventsCookieKey i loc)\<rparr>
           in AList.update (di_cloudletKey i) (cloc\<lparr>clr_Appinstances := clr_Appinstances cloc @ [ai]\<rparr>) clouds) results []), t'))"

record AppFqdn =
  af_AppName :: string
  af_OrgName :: string
  af_AppVers :: string
  af_Fqdns :: "string list"
  af_AndroidPackageName :: string

definition GetFqdnList :: "DmeApps \<Rightarrow> AppFqdn list" where
  "GetFqdnList t =
     map (\<lambda>(_, a). \<lparr>af_AppName = fst (snd (da_AppKey a)), af_OrgName = fst (da_AppKey a), af_AppVers = snd (snd (da_AppKey a)),
                  af_Fqdns = Split CHR '','' (da_OfficialFqdn a), af_AndroidPackageName = da_AndroidPackageName a\<rparr>)
       (filter (\<lambda>(_, a). \<not> IsPlatformApp (fst (da_AppKey a)) (fst (snd (da_AppKey a))) \<and> da_OfficialFqdn a \<noteq> []) (Apps t))"

subsection \<open>What a search returns\<close>

text \<open>The usable instances in the tables that the search visits, in the order of the visit.\<close>

definition carrier_candidates :: "search_env \<Rightarrow> DmeApps \<Rightarrow> Loc \<Rightarrow> string \<Rightarrow> string \<Rightarrow> (AppInstKey, nat) gomap \<Rightarrow> foundAppInst list" where
  "carrier_candidates env t loc req cname m =
     (if searchCarrier req cname then map (candidate env t loc req cname) (filter (\<lambda>a. IsAppInstUsable (inst t a)) (map snd m)) else [])"

definition search_candidates :: "search_env \<Rightarrow> DmeApps \<Rightarrow> string \<Rightarrow> DmeApp \<Rightarrow> Loc \<Rightarrow> foundAppInst list" where
  "search_candidates env t req app loc =
     concat (map (\<lambda>(cname, cd). carrier_candidates env t loc req cname (Insts cd)
       @ (if req \<noteq> [] then carrier_candidates env t loc req cname (AllianceInsts cd) else [])) (da_Carriers app))"

lemma insertResult_keeps [simp]:
  "sa_loc (insertResult env t f s) = sa_loc s" "sa_reqCarrier (insertResult env t f s) = sa_reqCarrier s"
  "sa_resultLimit (insertResult env t f s) = sa_resultLimit s" "sa_appDeployment (insertResult env t f s) = sa_appDeployment s"
  by (simp_all add: insertResult_def Let_def split: prod.split option.split)

lemma fold_insertResult_keeps [simp]:
  "sa_loc (fold (insertResult env t) fs s) = sa_loc s" "sa_reqCarrier (fold (insertResult env t) fs s) = sa_reqCarrier s"
  "sa_resultLimit (fold (insertResult env t) fs s) = sa_resultLimit s" "sa_appDeployment (fold (insertResult env t) fs s) = sa_appDeployment s"
  by (induction fs arbitrary: s) simp_all

lemma searchAppInsts_fold:
  "searchAppInsts env t cname m s = fold (insertResult env t) (carrier_candidates env t (sa_loc s) (sa_reqCarrier s) cname m) s"
proof -
  have "sa_loc s = l \<Longrightarrow> sa_reqCarrier s = r \<Longrightarrow>
    fold (\<lambda>(_, a) s. if \<not> IsAppInstUsable (inst t a) then s else insertResult env t (candidate env t (sa_loc s) (sa_reqCarrier s) cname a) s) m s
    = fold (insertResult env t) (map (candidate env t l r cname) (filter (\<lambda>a. IsAppInstUsable (inst t a)) (map snd m))) s" for l r
    by (induction m arbitrary: s) auto
  then show ?thesis by (simp add: searchAppInsts_def carrier_candidates_def Let_def)
qed

lemma search_carriers_fold:
  "search_carriers env t req app (new_search loc req app limit) = fold (insertResult env t) (search_candidates env t req app loc) (new_search loc req app limit)"
proof -
  have "sa_loc s = loc \<Longrightarrow> sa_reqCarrier s = req \<Longrightarrow>
    fold (\<lambda>(cname, cd) s. let s = searchAppInsts env t cname (Insts cd) s
       in if req \<noteq> [] then searchAppInsts env t cname (AllianceInsts cd) s else s) cs s
    = fold (insertResult env t) (concat (map (\<lambda>(cname, cd). carrier_candidates env t loc req cname (Insts cd)
       @ (if req \<noteq> [] then carrier_candidates env t loc req cname (AllianceInsts cd) else [])) cs)) s" for cs s
    by (induction cs arbitrary: s) (auto simp: searchAppInsts_fold Let_def)
  from this[of "new_search loc req app limit" "da_Carriers app"] show ?thesis
    unfolding search_carriers_def search_candidates_def by (simp add: new_search_def)
qed

lemma SearchAppInsts_results:
  "fst (SearchAppInsts env req app loc limit t) = sa_results (fold (insertResult env t) (search_candidates env t req app loc) (new_search loc req app limit))"
  by (simp add: SearchAppInsts_def Let_def search_carriers_fold)

subsubsection \<open>One insertion\<close>

lemma insert_slot_bounds:
  "insert_slot env t f fs ii n = (Some jj, n') \<Longrightarrow> ii \<le> jj \<and> jj < ii + length fs"
proof (induction fs arbitrary: ii n)
  case (Cons g fs)
  then show ?case by (auto split: if_splits dest!: Cons.IH)
qed simp

lemma insertResult_at:
  assumes "insert_slot env t f (sa_results s) 0 (sa_draws s) = (Some ii, n)" "length (sa_results s) \<le> sa_resultLimit s"
  shows "sa_results (insertResult env t f s) = take (sa_resultLimit s) (take ii (sa_results s) @ f # drop ii (sa_results s))"
proof -
  let ?r = "sa_results s" and ?l = "sa_resultLimit s"
  have ii: "ii < length ?r" using insert_slot_bounds[OF assms(1)] by simp
  have r: "take (Suc ii) ?r = take ii ?r @ [?r ! ii]" using ii by (simp add: take_Suc_conv_app_nth)
  have upd: "(take (Suc ii) ?r @ x)[ii := f] = take ii ?r @ f # x" for x using ii by (simp add: r list_update_append)
  show ?thesis
  proof (cases "length ?r = ?l")
    case True
    then show ?thesis using ii by (simp add: insertResult_def assms(1) upd take_Cons' Let_def)
  next
    case False
    then show ?thesis using assms ii by (simp add: insertResult_def assms(1) upd Let_def)
  qed
qed

lemma insertResult_end:
  assumes "insert_slot env t f (sa_results s) 0 (sa_draws s) = (None, n)" "length (sa_results s) \<le> sa_resultLimit s"
  shows "sa_results (insertResult env t f s) = take (sa_resultLimit s) (sa_results s @ [f])"
  using assms by (auto simp: insertResult_def Let_def)

lemma insertResult_length:
  assumes "length (sa_results s) \<le> sa_resultLimit s"
  shows "length (sa_results (insertResult env t f s)) \<le> sa_resultLimit s"
    and "set (sa_results (insertResult env t f s)) \<subseteq> insert f (set (sa_results s))"
proof -
  obtain slot n where sl: "insert_slot env t f (sa_results s) 0 (sa_draws s) = (slot, n)" by (cases "insert_slot env t f (sa_results s) 0 (sa_draws s)")
  show "length (sa_results (insertResult env t f s)) \<le> sa_resultLimit s"
    using insertResult_at[of env t f s] insertResult_end[of env t f s] sl assms by (cases slot) auto
  show "set (sa_results (insertResult env t f s)) \<subseteq> insert f (set (sa_results s))"
    using insertResult_at[of env t f s] insertResult_end[of env t f s] sl assms
    by (cases slot) (auto dest!: in_set_takeD in_set_dropD)
qed

lemma results_of_candidates:
  "length (sa_results s) \<le> sa_resultLimit s \<Longrightarrow>
   length (sa_results (fold (insertResult env t) fs s)) \<le> sa_resultLimit s
   \<and> set (sa_results (fold (insertResult env t) fs s)) \<subseteq> set fs \<union> set (sa_results s)"
proof (induction fs arbitrary: s)
  case (Cons f fs)
  from Cons.IH[of "insertResult env t f s"] insertResult_length[OF Cons.prems, of env t f] show ?case by auto
qed simp

lemma found_is_candidate:
  "set (fst (SearchAppInsts env req app loc limit t)) \<subseteq> set (search_candidates env t req app loc)"
  using results_of_candidates[of "new_search loc req app limit" env t] unfolding SearchAppInsts_results by (simp add: new_search_def)

subsubsection \<open>The nearest instances\<close>

abbreviation found_key :: "search_env \<Rightarrow> DmeApps \<Rightarrow> foundAppInst \<Rightarrow> rat \<times> string" where
  "found_key env t f \<equiv> (fi_distance f, KeyString env (di_key (inst t (fi_AppInst f))))"

lemma found_less_key: "found_less env t f g \<longleftrightarrow> found_key env t f < found_key env t g"
  by (auto simp: found_less_def less_prod_def less_eq_prod_def)

text \<open>Insertion behind everything that is not greater, and its place in a stable sort.\<close>

fun insert_after :: "('a \<Rightarrow> 'b :: linorder) \<Rightarrow> 'a \<Rightarrow> 'a list \<Rightarrow> 'a list" where
  "insert_after k x [] = [x]"
| "insert_after k x (y # ys) = (if k x < k y then x # y # ys else y # insert_after k x ys)"

lemma mset_insert_after: "mset (insert_after k x ys) = add_mset x (mset ys)"
  by (induction ys) simp_all

lemma set_insert_after: "set (insert_after k x ys) = insert x (set ys)"
  by (induction ys) auto

lemma sorted_insert_after: "sorted (map k ys) \<Longrightarrow> sorted (map k (insert_after k x ys))"
  by (induction ys) (auto simp: set_insert_after)

lemma filter_insert_after:
  "sorted (map k ys) \<Longrightarrow> filter (\<lambda>y. k y = c) (insert_after k x ys) = filter (\<lambda>y. k y = c) ys @ (if k x = c then [x] else [])"
proof (induction ys)
  case (Cons y ys)
  show ?case
  proof (cases "k x < k y")
    case True
    then have "filter (\<lambda>y. k y = k x) (y # ys) = []" using Cons.prems by (auto simp: filter_empty_conv)
    then show ?thesis using True by auto
  next
    case False
    then show ?thesis using Cons by simp
  qed
qed simp

lemma insert_after_sort: "insert_after k x (sort_key k xs) = sort_key k (xs @ [x])"
proof (rule properties_for_sort_key[symmetric])
  show "mset (insert_after k x (sort_key k xs)) = mset (xs @ [x])" by (simp add: mset_insert_after)
  show "sorted (map k (insert_after k x (sort_key k xs)))" by (rule sorted_insert_after) simp
  fix z
  have "filter (\<lambda>y. k y = k z) (insert_after k x (sort_key k xs)) = filter (\<lambda>y. k y = k z) (xs @ [x])"
    by (simp add: filter_insert_after sort_key_stable)
  then show "filter (\<lambda>y. k z = k y) (insert_after k x (sort_key k xs)) = filter (\<lambda>y. k z = k y) (xs @ [x])"
    by (simp only: eq_commute[of "k z"])
qed

lemma take_insert_after: "take n (insert_after k x (take n xs)) = take n (insert_after k x xs)"
  by (induction xs arbitrary: n) (auto simp: take_Cons' split: nat.split)

lemma insert_slot_exact:
  assumes "\<not> RandomizeVeryClose env" "insert_slot env t f fs ii n = (slot, n')"
  shows "case slot of None \<Rightarrow> insert_after (found_key env t) f fs = fs @ [f]
    | Some jj \<Rightarrow> insert_after (found_key env t) f fs = take (jj - ii) fs @ f # drop (jj - ii) fs"
  using assms(2)
proof (induction fs arbitrary: ii n)
  case (Cons g fs)
  show ?case
  proof (cases "found_key env t f < found_key env t g")
    case True
    then show ?thesis using Cons.prems assms(1) by (auto simp: found_less_key)
  next
    case False
    then have "insert_slot env t f fs (Suc ii) n = (slot, n')" using Cons.prems assms(1) by (simp add: found_less_key)
    note sl = this
    have e: "insert_after (found_key env t) f (g # fs) = g # insert_after (found_key env t) f fs"
      using False by (simp only: insert_after.simps if_False)
    show ?thesis
    proof (cases slot)
      case None
      then show ?thesis using Cons.IH[OF sl] by (simp add: e del: insert_after.simps)
    next
      case (Some jj)
      then have "jj - ii = Suc (jj - Suc ii)" using insert_slot_bounds[of env t f fs "Suc ii" n jj] sl by (simp add: Suc_diff_Suc Suc_le_eq)
      then show ?thesis using Cons.IH[OF sl] Some by (simp add: e del: insert_after.simps)
    qed
  qed
qed auto

lemma insertResult_exact:
  assumes "\<not> RandomizeVeryClose env" "length (sa_results s) \<le> sa_resultLimit s"
  shows "sa_results (insertResult env t f s) = take (sa_resultLimit s) (insert_after (found_key env t) f (sa_results s))"
proof -
  obtain slot n where sl: "insert_slot env t f (sa_results s) 0 (sa_draws s) = (slot, n)" by (cases "insert_slot env t f (sa_results s) 0 (sa_draws s)")
  show ?thesis
    using insertResult_at[of env t f s] insertResult_end[of env t f s] sl assms insert_slot_exact[OF assms(1) sl]
    by (cases slot) auto
qed

lemma fold_insertResult_exact:
  assumes "\<not> RandomizeVeryClose env"
  shows "sa_results s = take (sa_resultLimit s) (sort_key (found_key env t) xs) \<Longrightarrow>
    sa_results (fold (insertResult env t) fs s) = take (sa_resultLimit s) (sort_key (found_key env t) (xs @ fs))"
proof (induction fs arbitrary: s xs)
  case (Cons f fs)
  have "sa_results (insertResult env t f s) = take (sa_resultLimit s) (sort_key (found_key env t) (xs @ [f]))"
    using insertResult_exact[OF assms, of s t f] Cons.prems by (simp add: take_insert_after insert_after_sort)
  from Cons.IH[of "insertResult env t f s" "xs @ [f]"] this show ?case by simp
qed simp

text \<open>
  (C11) Without the random choice among instances that are very close, a search returns the requested number of
  usable instances that are nearest, in order of distance and then of the text of their key: its insertions into a
  list of bounded length compute the same as a stable sort of all candidates.
\<close>

theorem search_returns_nearest:
  assumes "\<not> RandomizeVeryClose env"
  shows "fst (SearchAppInsts env req app loc limit t) =
    take limit (sort_key (\<lambda>f. (fi_distance f, KeyString env (di_key (inst t (fi_AppInst f))))) (search_candidates env t req app loc))"
  using fold_insertResult_exact[OF assms, of "new_search loc req app limit" t "[]" "search_candidates env t req app loc"]
  unfolding SearchAppInsts_results by (simp add: new_search_def)

definition ex_env :: "bool \<Rightarrow> search_env" where
  "ex_env rand =
     \<lparr>DistanceBetween = (\<lambda>a b. \<bar>Latitude a - Latitude b\<bar>), KeyString = fst, RandomizeVeryClose = rand, coin = (\<lambda>_. False), stats_hash = (\<lambda>_. 0)\<rparr>"

definition ex_sites :: "rat list \<Rightarrow> dme_op list" where
  "ex_sites ds =
     [AppUpdate ex_app_msg, CloudletUpdate (ex_cloudlet_msg ''s1'' ''operA'' NORMAL_OPERATION [''operB'']), CloudletInfoUpdate (ex_info_msg ''s1'' ''operA'')]
     @ map (\<lambda>(n, d). AppInstUpdate ((ex_inst_msg (dec_str n) ''s1'' ''operA'' HEALTH_CHECK_OK)\<lparr>im_CloudletLoc := ex_loc d\<rparr>)) (zip [0 ..< length ds] ds)"

definition ex_search :: "bool \<Rightarrow> nat \<Rightarrow> dme_op list \<Rightarrow> rat list option" where
  "ex_search rand limit ops =
     (case dme_run (\<lambda>_. []) ops SetupMatchEngine of None \<Rightarrow> None
      | Some t \<Rightarrow> (case map_of (Apps t) ex_dme_app of None \<Rightarrow> None
          | Some app \<Rightarrow> Some (map fi_distance (fst (SearchAppInsts (ex_env rand) ''operB'' app (ex_loc 0) limit t)))))"

theorem search_returns_nearest_witness:
  "\<exists>t app. dme_run (\<lambda>_. []) (ex_sites [5, 3, 8, 1]) SetupMatchEngine = Some t \<and> map_of (Apps t) ex_dme_app = Some app
     \<and> map fi_distance (fst (SearchAppInsts (ex_env False) ''operB'' app (ex_loc 0) 3 t)) = [1, 3, 5]"
proof -
  let ?t = "the (dme_run (\<lambda>_. []) (ex_sites [5, 3, 8, 1]) SetupMatchEngine)" and ?app = "\<lambda>t. the (map_of (Apps t) ex_dme_app)"
  have "dme_run (\<lambda>_. []) (ex_sites [5, 3, 8, 1]) SetupMatchEngine \<noteq> None \<and> map_of (Apps ?t) ex_dme_app \<noteq> None
     \<and> map fi_distance (take 3 (sort_key (\<lambda>f. (fi_distance f, KeyString (ex_env False) (di_key (inst ?t (fi_AppInst f)))))
          (search_candidates (ex_env False) ?t ''operB'' (?app ?t) (ex_loc 0)))) = [1, 3, 5]"
    by code_simp
  moreover have "\<not> RandomizeVeryClose (ex_env False)" by (simp add: ex_env_def)
  note search_returns_nearest[OF this, of "''operB''" "?app ?t" "ex_loc 0" 3 ?t]
  ultimately show ?thesis by (intro exI[of _ ?t] exI[of _ "?app ?t"]) (simp only: option.collapse simp_thms)
qed

subsubsection \<open>The random choice\<close>

lemma fl_ge_one:
  assumes "1 \<le> x"
  shows "1 \<le> fl x"
proof -
  have x: "0 < x" using assms by simp
  note b = flog2_bounds[OF x]
  have f0: "0 \<le> flog2 x"
  proof (rule ccontr)
    assume "\<not> 0 \<le> flog2 x"
    then have "(2::rat) powi (flog2 x + 1) \<le> 2 powi 0" by (intro power_int_increasing) simp_all
    then show False using b(2) assms by simp
  qed
  let ?e = "flog2 x - 52"
  have split: "(2::rat) powi flog2 x = 2 ^ 52 * 2 powi ?e" by (simp add: power_int_diff)
  have pos: "(0::rat) < 2 powi ?e" by simp
  have "2 ^ 52 \<le> x / 2 powi ?e" using b(1) pos split by (simp add: le_divide_eq)
  then have "2 ^ 52 \<le> \<lfloor>x / 2 powi ?e\<rfloor>" by (simp add: le_floor_iff)
  then have "2 ^ 52 \<le> round_even (x / 2 powi ?e)" by (auto simp: round_even_def Let_def)
  then have "(2::rat) ^ 52 \<le> of_int (round_even (x / 2 powi ?e))" by (metis of_int_le_iff of_int_numeral of_int_power)
  then have "2 ^ 52 * 2 powi ?e \<le> fl x" using x pos by (simp add: fl_def Let_def)
  moreover have "(1::rat) \<le> 2 powi flog2 x" using f0 power_int_increasing[of 0 "flog2 x" "2::rat"] by simp
  ultimately show ?thesis using split by simp
qed

lemma fl_less_one: "fl x < 1 \<Longrightarrow> x < 1"
  using fl_ge_one[of x] by linarith

lemma veryClose_within: "veryClose f g \<Longrightarrow> fi_distance f < fi_distance g + 1 \<and> fi_distance g < fi_distance f + 1"
  using fl_less_one[of "fi_distance f - fi_distance g"] fl_less_one[of "fi_distance g - fi_distance f"]
  unfolding veryClose_def VeryCloseDistanceKm_def by (cases "fi_distance g < fi_distance f") auto

lemma insert_single:
  assumes "sa_results s = [r]" "sa_resultLimit s = 1"
  shows "\<exists>r'. sa_results (insertResult env t f s) = [r'] \<and>
    (r' = f \<and> fi_distance f < fi_distance r + 1 \<or> r' = r \<and> fi_distance r < fi_distance f + 1)"
proof -
  obtain slot n where sl: "insert_slot env t f (sa_results s) 0 (sa_draws s) = (slot, n)" by (cases "insert_slot env t f (sa_results s) 0 (sa_draws s)")
  have r: "sa_results (insertResult env t f s) = (case slot of None \<Rightarrow> [r] | Some _ \<Rightarrow> [f])"
    using insertResult_at[of env t f s] insertResult_end[of env t f s] sl assms insert_slot_bounds[of env t f "[r]" 0 "sa_draws s"]
    by (cases slot) auto
  have "slot \<noteq> None \<Longrightarrow> fi_distance f < fi_distance r + 1" "slot = None \<Longrightarrow> fi_distance r < fi_distance f + 1"
    using sl veryClose_within[of f r] by (auto simp: assms found_less_def split: if_splits)
  then show ?thesis using r by (cases slot) auto
qed

lemma fold_insert_single:
  assumes "sa_results s = [r]" "sa_resultLimit s = 1"
  shows "\<exists>r'. sa_results (fold (insertResult env t) fs s) = [r'] \<and> r' \<in> insert r (set fs)
    \<and> (\<forall>f \<in> set fs. fi_distance r' \<le> fi_distance f + of_nat (length fs)) \<and> fi_distance r' \<le> fi_distance r + of_nat (length fs)"
  using assms
proof (induction fs arbitrary: s r)
  case (Cons f fs)
  obtain r1 where r1: "sa_results (insertResult env t f s) = [r1]"
    "r1 = f \<and> fi_distance f < fi_distance r + 1 \<or> r1 = r \<and> fi_distance r < fi_distance f + 1"
    using insert_single[OF Cons.prems, of env t f] by blast
  obtain r' where r': "sa_results (fold (insertResult env t) fs (insertResult env t f s)) = [r']" "r' \<in> insert r1 (set fs)"
    "\<forall>f \<in> set fs. fi_distance r' \<le> fi_distance f + of_nat (length fs)" "fi_distance r' \<le> fi_distance r1 + of_nat (length fs)"
    using Cons.IH[OF r1(1)] Cons.prems(2) by auto
  have "fi_distance r' \<le> fi_distance g + of_nat (length (f # fs))" if "g \<in> set fs" for g using r'(3) that by force
  moreover have "fi_distance r' \<le> fi_distance f + of_nat (length (f # fs)) \<and> fi_distance r' \<le> fi_distance r + of_nat (length (f # fs))"
    using r1(2) r'(4) by auto
  ultimately show ?case using r'(1,2) r1(2) by auto
qed auto

text \<open>
  (C19) The single instance a client is sent to is one of the usable candidates, and there is one whenever there is a candidate; it can
  be further away than the nearest, but by less than a kilometre for each other candidate.
\<close>

theorem nearest_up_to_close_choices:
  "case search_candidates env t req app loc of
     [] \<Rightarrow> fst (SearchAppInsts env req app loc 1 t) = []
   | c # cs \<Rightarrow> \<exists>best. fst (SearchAppInsts env req app loc 1 t) = [best] \<and> best \<in> set (c # cs)
       \<and> (\<forall>f \<in> set (c # cs). fi_distance best \<le> fi_distance f + of_nat (length cs))"
proof (cases "search_candidates env t req app loc")
  case Nil
  then show ?thesis by (simp add: SearchAppInsts_results new_search_def)
next
  case (Cons c cs)
  have "sa_results (insertResult env t c (new_search loc req app 1)) = [c]" "sa_resultLimit (insertResult env t c (new_search loc req app 1)) = 1"
    by (simp_all add: insertResult_def new_search_def)
  from fold_insert_single[OF this, of env t cs] show ?thesis
    unfolding SearchAppInsts_results Cons by auto
qed

theorem nearest_up_to_close_choices_witness:
  "\<exists>t app best. dme_run (\<lambda>_. []) (ex_sites [7 / 8, 0]) SetupMatchEngine = Some t \<and> map_of (Apps t) ex_dme_app = Some app
     \<and> fst (SearchAppInsts (ex_env True) ''operB'' app (ex_loc 0) 1 t) = [best] \<and> fi_distance best \<le> 1"
proof -
  let ?t = "the (dme_run (\<lambda>_. []) (ex_sites [7 / 8, 0]) SetupMatchEngine)"
  let ?app = "the (map_of (Apps ?t) ex_dme_app)"
  let ?cs = "search_candidates (ex_env True) ?t ''operB'' ?app (ex_loc 0)"
  have ex: "dme_run (\<lambda>_. []) (ex_sites [7 / 8, 0]) SetupMatchEngine \<noteq> None \<and> map_of (Apps ?t) ex_dme_app \<noteq> None \<and> map fi_distance ?cs = [7 / 8, 0]"
    by code_simp
  then obtain c d where cs: "?cs = [c, d]" "fi_distance d = 0" by (auto simp: map_eq_Cons_conv)
  have "dme_run (\<lambda>_. []) (ex_sites [7 / 8, 0]) SetupMatchEngine = Some ?t" "map_of (Apps ?t) ex_dme_app = Some ?app"
    using ex by (simp_all only: option.collapse simp_thms)
  with nearest_up_to_close_choices[where env = "ex_env True" and t = ?t and req = "''operB''" and app = ?app and loc = "ex_loc 0"] show ?thesis unfolding cs(1)
    using cs(2) by fastforce
qed

lemma close_choices_drift: "ex_search True 1 (ex_sites [0, 7 / 8, 14 / 8, 21 / 8]) = Some [21 / 8]"
  by code_simp

subsection \<open>Which instances are candidates\<close>

lemma candidate_simps [simp]:
  "fi_AppInst (candidate env t loc req c a) = a" "fi_appInstCarrier (candidate env t loc req c a) = c"
  by (simp_all add: candidate_def)

text \<open>A candidate comes from a table the search may visit and is usable.\<close>

lemma candidateE:
  assumes "f \<in> set (search_candidates env t req app loc)" "apps_ok t" "map_of (Apps t) ak = Some app"
  obtains c k where "searchCarrier req c" "IsAppInstUsable (inst t (fi_AppInst f))"
    "inst_at t ak c k = Some (fi_AppInst f) \<or> alliance_at t ak c k = Some (fi_AppInst f)"
proof -
  have ok: "app_ok app" using apps_okD[OF assms(2,3)] .
  obtain c cd where cd: "(c, cd) \<in> set (da_Carriers app)"
    "f \<in> set (carrier_candidates env t loc req c (Insts cd)) \<or> f \<in> set (carrier_candidates env t loc req c (AllianceInsts cd))"
    using assms(1) by (auto simp: search_candidates_def split: if_splits)
  have "map_of (da_Carriers app) c = Some cd" using ok cd(1) by (metis app_ok_def go_map_entry)
  then have ca: "carrier_at t ak c = Some cd" using assms(3) by (simp add: carrier_at_def)
  have g: "go_map (Insts cd)" "go_map (AllianceInsts cd)" using app_okD[OF ok \<open>map_of (da_Carriers app) c = Some cd\<close>] by blast+
  have *: "\<exists>k. searchCarrier req c \<and> IsAppInstUsable (inst t (fi_AppInst f)) \<and> map_of m k = Some (fi_AppInst f)"
    if "f \<in> set (carrier_candidates env t loc req c m)" "go_map m" for m
  proof -
    have sc: "searchCarrier req c" using that(1) by (auto simp: carrier_candidates_def split: if_splits)
    then have "f \<in> candidate env t loc req c ` {a \<in> snd ` set m. IsAppInstUsable (inst t a)}"
      using that(1) by (simp only: carrier_candidates_def if_True set_map set_filter)
    then obtain e where e: "e \<in> set m" "f = candidate env t loc req c (snd e)" "IsAppInstUsable (inst t (snd e))" by blast
    then have "map_of m (fst e) = Some (snd e)" using go_map_entry[OF that(2), of "fst e" "snd e"] by simp
    then show ?thesis using e sc by (intro exI[of _ "fst e"]) simp
  qed
  from cd(2) show ?thesis
  proof
    assume "f \<in> set (carrier_candidates env t loc req c (Insts cd))"
    from *[OF this g(1)] show ?thesis using that[of c] ca by (auto simp: inst_at_def)
  next
    assume "f \<in> set (carrier_candidates env t loc req c (AllianceInsts cd))"
    from *[OF this g(2)] show ?thesis using that[of c] ca by (auto simp: alliance_at_def)
  qed
qed

lemma candidateI:
  assumes "carrier_at t ak c = Some cd" "map_of (Apps t) ak = Some app" "searchCarrier req c" "IsAppInstUsable (inst t a)"
    and "map_of (Insts cd) k = Some a \<or> map_of (AllianceInsts cd) k = Some a \<and> req \<noteq> []"
  shows "candidate env t loc req c a \<in> set (search_candidates env t req app loc)"
proof -
  have cd: "(c, cd) \<in> set (da_Carriers app)" using assms(1,2) by (auto simp: carrier_at_def dest: map_of_SomeD)
  have *: "candidate env t loc req c a \<in> set (carrier_candidates env t loc req c m)" if "map_of m k = Some a" for m
    using map_of_SomeD[OF that] assms(3,4) by (force simp: carrier_candidates_def)
  then show ?thesis using assms(5) cd unfolding search_candidates_def by fastforce
qed

lemma usable_ready: "IsAppInstUsable i \<Longrightarrow> di_CloudletState i = CLOUDLET_STATE_READY \<and> di_AppInstHealth i \<noteq> HEALTH_CHECK_SERVER_FAIL
  \<and> di_MaintenanceState i \<noteq> UNDER_MAINTENANCE \<and> di_TrackedState i = READY"
  by (auto simp: IsAppInstUsable_def AreStatesUsable_def split: if_splits)

lemma found_live:
  assumes inv: "dme_inv place app_of t" and ok: "apps_ok t" and app: "map_of (Apps t) ak = Some app"
    and f: "f \<in> set (fst (SearchAppInsts env req app loc limit t))"
  shows "IsAppInstUsable (inst t (fi_AppInst f))"
    and "inst_at t ak (cloudlet_org (place (di_key (inst t (fi_AppInst f))))) (di_key (inst t (fi_AppInst f))) = Some (fi_AppInst f)"
proof -
  obtain c k where c: "IsAppInstUsable (inst t (fi_AppInst f))"
    "inst_at t ak c k = Some (fi_AppInst f) \<or> alliance_at t ak c k = Some (fi_AppInst f)"
    using candidateE[OF subsetD[OF found_is_candidate f] ok app] by metis
  show "IsAppInstUsable (inst t (fi_AppInst f))" by (rule c(1))
  note invs = dme_invD[OF inv]
  from c(2) show "inst_at t ak (cloudlet_org (place (di_key (inst t (fi_AppInst f))))) (di_key (inst t (fi_AppInst f))) = Some (fi_AppInst f)"
  proof
    assume i: "inst_at t ak c k = Some (fi_AppInst f)"
    show ?thesis using insts_okD[OF invs(1) i] i by simp
  next
    assume "alliance_at t ak c k = Some (fi_AppInst f)"
    then have "di_key (inst t (fi_AppInst f)) = k"
      "inst_at t ak (cloudlet_org (place k)) k = Some (fi_AppInst f) \<or> di_AppInstHealth (inst t (fi_AppInst f)) = HEALTH_CHECK_SERVER_FAIL"
      using invs(2) unfolding allies_ok_def by blast+
    then show ?thesis using usable_ready[OF c(1)] by auto
  qed
qed

text \<open>
  (C10) Whatever the order in which the controller's messages arrive, as long as it does not move instances and no pruning of instances takes
  place, every instance that a search returns is registered under its own key on its own cloudlet, is usable, and the
  table has that cloudlet as ready.
\<close>

theorem found_instances_are_live:
  assumes "dme_run ks ops SetupMatchEngine = Some t" "list_all (dme_op_ok place app_of) ops"
    and "map_of (Apps t) ak = Some app" "f \<in> set (fst (SearchAppInsts env req app loc limit t))"
  shows "\<exists>k cl. di_key (inst t (fi_AppInst f)) = k \<and> inst_at t ak (cloudlet_org (place k)) k = Some (fi_AppInst f)
    \<and> IsAppInstUsable (inst t (fi_AppInst f)) \<and> di_cloudletKey (inst t (fi_AppInst f)) = place k
    \<and> map_of (Cloudlets t) (place k) = Some cl \<and> dc_State cl = CLOUDLET_STATE_READY"
proof -
  have inv: "dme_inv place app_of t" by (rule dme_inv_run[OF dme_inv_start assms(2,1)])
  note live = found_live[OF inv apps_ok_run[OF apps_ok_start assms(1)] assms(3,4)]
  have "di_CloudletState (inst t (fi_AppInst f)) = CLOUDLET_STATE_READY" using usable_ready[OF live(1)] by blast
  from ready_okD[OF dme_invD(3)[OF inv] live(2) this] insts_okD(3)[OF dme_invD(1)[OF inv] live(2)] live show ?thesis by metis
qed

theorem found_instances_are_live_witness:
  "\<exists>t app f. dme_run (\<lambda>_. []) (ex_sites [5, 3]) SetupMatchEngine = Some t \<and> map_of (Apps t) ex_dme_app = Some app
     \<and> f \<in> set (fst (SearchAppInsts (ex_env False) ''operB'' app (ex_loc 0) 1 t))
     \<and> di_cloudletKey (inst t (fi_AppInst f)) = (''s1'', ''operA'', [])"
proof -
  let ?t = "the (dme_run (\<lambda>_. []) (ex_sites [5, 3]) SetupMatchEngine)"
  let ?app = "the (map_of (Apps ?t) ex_dme_app)"
  let ?found = "fst (SearchAppInsts (ex_env False) ''operB'' ?app (ex_loc 0) 1 ?t)"
  have "dme_run (\<lambda>_. []) (ex_sites [5, 3]) SetupMatchEngine \<noteq> None \<and> map_of (Apps ?t) ex_dme_app \<noteq> None \<and> ?found \<noteq> []
     \<and> list_all (dme_op_ok (\<lambda>_. (''s1'', ''operA'', [])) (\<lambda>_. ex_dme_app)) (ex_sites [5, 3])"
    by code_simp
  then have "dme_run (\<lambda>_. []) (ex_sites [5, 3]) SetupMatchEngine = Some ?t" "map_of (Apps ?t) ex_dme_app = Some ?app"
    "hd ?found \<in> set ?found" "list_all (dme_op_ok (\<lambda>_. (''s1'', ''operA'', [])) (\<lambda>_. ex_dme_app)) (ex_sites [5, 3])"
    by (simp_all only: option.collapse list.set_sel(1) simp_thms)
  with found_instances_are_live[OF this(1,4,2,3)] show ?thesis by blast
qed





subsection \<open>The site that auto-provisioning is told of\<close>

text \<open>The sites a policy offers to the client: those of its zones that the client may use and that are nearer than the nearest instance.\<close>

definition site_distance :: "search_env \<Rightarrow> searchAppInst \<Rightarrow> string \<Rightarrow> CloudletKey \<times> Loc \<Rightarrow> rat" where
  "site_distance env s carrier e = fl (DistanceBetween env (sa_loc s) (snd e) + padDistance (sa_reqCarrier s) carrier)"

definition site_free :: "DmeApps \<Rightarrow> searchAppInst \<Rightarrow> CloudletKey \<times> Loc \<Rightarrow> bool" where
  "site_free t s e = (GetForCloudlet (fst e) (sa_appDeployment s) AppInstToClusterDeployment (FreeReservableClusterInsts t) \<noteq> [])"

definition policy_sites :: "search_env \<Rightarrow> DmeApps \<Rightarrow> searchAppInst \<Rightarrow> DmePolicy \<Rightarrow> (string \<times> ZoneKey \<times> CloudletKey \<times> Loc) list" where
  "policy_sites env t s policy =
     concat (map (\<lambda>(carrier, zs). if searchCarrier (sa_reqCarrier s) carrier
       then concat (map (\<lambda>z. map (\<lambda>e. (carrier, z, e)) (get_or [] (CloudletLocsByZone t) z)) zs) else []) (dp_Zones policy))"

definition site_step :: "search_env \<Rightarrow> DmeApps \<Rightarrow> searchAppInst \<Rightarrow> string \<times> ZoneKey \<times> CloudletKey \<times> Loc \<Rightarrow> policySearch \<Rightarrow> policySearch" where
  "site_step env t s x = searchPolicyCloudlet env t s (fst x) (fst (snd x)) (snd (snd x))"

lemma searchPolicyZones_fold:
  "searchPolicyZones env t s (carrier, zs) =
     fold (site_step env t s) (if searchCarrier (sa_reqCarrier s) carrier
       then concat (map (\<lambda>z. map (\<lambda>e. (carrier, z, e)) (get_or [] (CloudletLocsByZone t) z)) zs) else [])"
proof -
  have "fold (searchPolicyCloudlet env t s carrier z) es = fold (site_step env t s) (map (\<lambda>e. (carrier, z, e)) es)" for z es
    by (simp add: fold_map site_step_def comp_def)
  then have "fold (\<lambda>zkey potential. case map_of (CloudletLocsByZone t) zkey of None \<Rightarrow> potential
        | Some clist \<Rightarrow> fold (searchPolicyCloudlet env t s carrier zkey) clist potential) zs p
     = fold (site_step env t s) (concat (map (\<lambda>z. map (\<lambda>e. (carrier, z, e)) (get_or [] (CloudletLocsByZone t) z)) zs)) p" for p
    by (induction zs arbitrary: p) (auto simp: get_or_def split: option.split)
  then show ?thesis by (auto simp: searchPolicyZones_def fun_eq_iff)
qed

lemma search_policy_fold:
  "search_policy env t s policy =
     fold (site_step env t s) (policy_sites env t s policy)
       \<lparr>ps_distance = sa_resultDist s, ps_policy = policy, ps_zone = None, ps_freeInst = False, ps_carrier = []\<rparr>"
proof -
  have "fold (searchPolicyZones env t s) zs p = fold (site_step env t s)
     (concat (map (\<lambda>(carrier, zs). if searchCarrier (sa_reqCarrier s) carrier
       then concat (map (\<lambda>z. map (\<lambda>e. (carrier, z, e)) (get_or [] (CloudletLocsByZone t) z)) zs) else []) zs)) p" for zs p
    by (induction zs arbitrary: p) (auto simp: searchPolicyZones_fold)
  then show ?thesis by (simp add: search_policy_def policy_sites_def)
qed

text \<open>The sites that count, and what the choice among them satisfies.\<close>

definition near_sites :: "search_env \<Rightarrow> searchAppInst \<Rightarrow> (string \<times> ZoneKey \<times> CloudletKey \<times> Loc) list \<Rightarrow> (string \<times> ZoneKey \<times> CloudletKey \<times> Loc) set" where
  "near_sites env s xs = {x \<in> set xs. site_distance env s (fst x) (snd (snd x)) < sa_resultDist s}"

definition best_site :: "search_env \<Rightarrow> DmeApps \<Rightarrow> searchAppInst \<Rightarrow> (string \<times> ZoneKey \<times> CloudletKey \<times> Loc) set \<Rightarrow> policySearch \<Rightarrow> bool" where
  "best_site env t s xs p \<longleftrightarrow>
     (\<exists>x \<in> xs. ps_zone p = Some (fst (snd x)) \<and> ps_carrier p = fst x \<and> ps_distance p = site_distance env s (fst x) (snd (snd x))
        \<and> ps_freeInst p = site_free t s (snd (snd x)))
     \<and> (ps_freeInst p \<longleftrightarrow> (\<exists>x \<in> xs. site_free t s (snd (snd x))))
     \<and> (\<forall>x \<in> xs. site_free t s (snd (snd x)) = ps_freeInst p \<longrightarrow> ps_distance p \<le> site_distance env s (fst x) (snd (snd x)))"

lemma site_step_cases:
  "site_step env t s x p =
     (if \<not> site_distance env s (fst x) (snd (snd x)) < sa_resultDist s then p
      else if ps_freeInst p \<and> \<not> site_free t s (snd (snd x)) then p
      else if ps_freeInst p = site_free t s (snd (snd x)) \<and> ps_distance p < site_distance env s (fst x) (snd (snd x)) then p
      else p\<lparr>ps_distance := site_distance env s (fst x) (snd (snd x)), ps_freeInst := site_free t s (snd (snd x)),
             ps_zone := Some (fst (snd x)), ps_carrier := fst x\<rparr>)"
  by (auto simp: site_step_def searchPolicyCloudlet_def site_distance_def site_free_def Let_def not_less split: prod.splits)

definition site_choice :: "search_env \<Rightarrow> DmeApps \<Rightarrow> searchAppInst \<Rightarrow> (string \<times> ZoneKey \<times> CloudletKey \<times> Loc) set \<Rightarrow> policySearch \<Rightarrow> bool" where
  "site_choice env t s xs p \<longleftrightarrow>
     (if xs = {} then ps_zone p = None \<and> ps_distance p = sa_resultDist s \<and> \<not> ps_freeInst p else best_site env t s xs p)"

lemma site_choice_far:
  "\<not> site_distance env s (fst x) (snd (snd x)) < sa_resultDist s \<Longrightarrow> near_sites env s (ys @ [x]) = near_sites env s ys"
  by (auto simp: near_sites_def)

lemma site_choice_near:
  "site_distance env s (fst x) (snd (snd x)) < sa_resultDist s \<Longrightarrow> near_sites env s (ys @ [x]) = insert x (near_sites env s ys)"
  by (auto simp: near_sites_def)

lemma site_choice_step:
  assumes "site_choice env t s xs p" "site_distance env s (fst x) (snd (snd x)) < sa_resultDist s"
  shows "site_choice env t s (insert x xs) (site_step env t s x p)"
proof (cases "xs = {}")
  case True
  then show ?thesis using assms by (auto simp: site_choice_def best_site_def site_step_cases)
next
  case False
  then have b: "best_site env t s xs p" using assms(1) by (simp add: site_choice_def)
  let ?d = "\<lambda>x. site_distance env s (fst x) (snd (snd x))" and ?f = "\<lambda>x. site_free t s (snd (snd x))"
  obtain y where y: "y \<in> xs" "ps_zone p = Some (fst (snd y))" "ps_carrier p = fst y" "ps_distance p = ?d y" "ps_freeInst p = ?f y"
    using b unfolding best_site_def by blast
  have fr: "ps_freeInst p \<longleftrightarrow> (\<exists>x \<in> xs. ?f x)" and mn: "\<And>z. z \<in> xs \<Longrightarrow> ?f z = ps_freeInst p \<Longrightarrow> ps_distance p \<le> ?d z"
    using b unfolding best_site_def by blast+
  consider (keep1) "ps_freeInst p" "\<not> ?f x" | (keep2) "ps_freeInst p = ?f x" "ps_distance p < ?d x"
    | (new) "?f x" "\<not> ps_freeInst p" | (closer) "ps_freeInst p = ?f x" "?d x \<le> ps_distance p" by fastforce
  then have "best_site env t s (insert x xs) (site_step env t s x p)"
  proof cases
    case keep1
    then have "site_step env t s x p = p" using assms(2) by (simp add: site_step_cases)
    then show ?thesis using keep1 y fr mn unfolding best_site_def by auto
  next
    case keep2
    then have "site_step env t s x p = p" using assms(2) by (simp add: site_step_cases)
    then show ?thesis using keep2 y fr mn unfolding best_site_def by force
  next
    case new
    then show ?thesis using assms(2) fr unfolding best_site_def by (auto simp: site_step_cases)
  next
    case closer
    then show ?thesis using assms(2) fr mn unfolding best_site_def by (force simp: site_step_cases)
  qed
  then show ?thesis by (simp add: site_choice_def)
qed

lemma site_choice_fold:
  "site_choice env t s (near_sites env s ys) p \<Longrightarrow> site_choice env t s (near_sites env s (ys @ xs)) (fold (site_step env t s) xs p)"
proof (induction xs arbitrary: ys p)
  case (Cons x xs)
  have "site_choice env t s (near_sites env s (ys @ [x])) (site_step env t s x p)"
  proof (cases "site_distance env s (fst x) (snd (snd x)) < sa_resultDist s")
    case True
    then show ?thesis using site_choice_step[OF Cons.prems True] by (simp add: site_choice_near)
  next
    case False
    then show ?thesis using Cons.prems by (simp add: site_choice_far site_step_cases)
  qed
  from Cons.IH[OF this] show ?case by simp
qed simp

text \<open>
  (C20) The search for a policy tells of the best site: it finds none exactly when no site of the policy's zones that the client may use is
  nearer than the nearest instance; otherwise it prefers sites with a free reservable cluster, and among its kind the nearest.
\<close>

theorem search_policy_picks_best_site:
  "let p = search_policy env t s policy; sites = near_sites env s (policy_sites env t s policy)
   in ps_policy p = policy \<and> (if sites = {} then ps_zone p = None \<and> ps_distance p = sa_resultDist s else best_site env t s sites p)"
proof -
  let ?init = "\<lparr>ps_distance = sa_resultDist s, ps_policy = policy, ps_zone = None, ps_freeInst = False, ps_carrier = []\<rparr>"
  have "site_choice env t s (near_sites env s []) ?init" by (simp add: site_choice_def near_sites_def)
  from site_choice_fold[OF this, of "policy_sites env t s policy"]
  have "site_choice env t s (near_sites env s (policy_sites env t s policy)) (search_policy env t s policy)"
    by (simp add: search_policy_fold)
  moreover have "ps_policy (fold (site_step env t s) xs p) = ps_policy p" for xs p
    by (induction xs arbitrary: p) (auto simp: site_step_cases)
  ultimately show ?thesis by (auto simp: Let_def site_choice_def search_policy_fold split: if_splits)
qed

text \<open>Among the policies the nearest site wins.\<close>

lemma better_policy_fold:
  "\<exists>b. fold better_policy ps (Some a) = Some b \<and> b \<in> insert a (set ps) \<and> (\<forall>p \<in> insert a (set ps). ps_distance b \<le> ps_distance p)"
proof (induction ps arbitrary: a)
  case (Cons p ps)
  define c where "c = the (better_policy p (Some a))"
  have c: "better_policy p (Some a) = Some c" "c = a \<or> c = p" "ps_distance c \<le> ps_distance a" "ps_distance c \<le> ps_distance p"
    by (auto simp: better_policy_def c_def)
  obtain b where "fold better_policy ps (Some c) = Some b" "b \<in> insert c (set ps)" "\<forall>p \<in> insert c (set ps). ps_distance b \<le> ps_distance p"
    using Cons.IH[of c] by blast
  then show ?case using c by (intro exI[of _ b]) auto
qed simp

lemma getBestPotentialCloudlet_nearest:
  "case getBestPotentialCloudlet ps of None \<Rightarrow> ps = [] | Some b \<Rightarrow> b \<in> set ps \<and> (\<forall>p \<in> set ps. ps_distance b \<le> ps_distance p)"
proof (cases ps)
  case (Cons a ps')
  then show ?thesis using better_policy_fold[of ps' a] by (auto simp: getBestPotentialCloudlet_def better_policy_def)
qed (simp add: getBestPotentialCloudlet_def)

text \<open>
  Of two policies with the same site, one that deploys at once and one that waits for several intervals, the one that waits wins when its
  client count is the smaller and it comes first in the iteration over the policies; in the other order the immediate one wins.
\<close>

definition ex_policy_search :: "string \<Rightarrow> uint32 \<Rightarrow> uint32 \<Rightarrow> policySearch" where
  "ex_policy_search name interval clients =
     \<lparr>ps_distance = 1, ps_policy = \<lparr>dp_Name = name, dp_DeployClientCount = clients, dp_IntervalCount = interval, dp_Zones = []\<rparr>,
      ps_zone = Some (''zone'', ''operA'', []), ps_freeInst = False, ps_carrier = ''operA''\<rparr>"

lemma immediate_policy_passed_over:
  "map_option (dp_Name \<circ> ps_policy) (getBestPotentialCloudlet [ex_policy_search ''waits'' 3 1, ex_policy_search ''immediate'' 1 5]) = Some ''waits''"
  "map_option (dp_Name \<circ> ps_policy) (getBestPotentialCloudlet [ex_policy_search ''immediate'' 1 5, ex_policy_search ''waits'' 3 1]) = Some ''immediate''"
  by code_simp+

end
